(* ===== verification/Cmacs_Prelude.thy ===== *)
theory Cmacs_Prelude
  imports Main "HOL-Library.Sublist" "HOL-Library.Word"
begin

text \<open>
  Shared vocabulary of the development: C strings and the ASCII string utilities of GLib
  that the sources under \<^verbatim>\<open>src/cmacs\<close> use on almost every line, C integer conversions, and
  the generic list facts the component theories rest on.

  A \<^verbatim>\<open>gchar *\<close> is a \<^typ>\<open>string\<close>, a list of bytes without its terminating NUL; a pointer that
  may be \<^verbatim>\<open>NULL\<close> is a \<^typ>\<open>string option\<close>. GLib plays the part of the C library here: the few
  utilities below are written out with their documented behaviour.
\<close>

named_theorems glib_simps \<open>unfolding the GLib string utilities\<close>
named_theorems inv_intros \<open>preservation of the component invariants\<close>

section \<open>C strings\<close>

abbreviation NUL :: char where
  "NUL \<equiv> CHR 0x00"

text \<open>What a C function sees of a buffer: the bytes up to the first NUL.\<close>

definition c_str :: "string \<Rightarrow> string" where
  "c_str s = takeWhile (\<lambda>c. c \<noteq> NUL) s"

lemma c_str_id [simp]: "NUL \<notin> set s \<Longrightarrow> c_str s = s"
  unfolding c_str_def by (rule takeWhile_eq_all_conv [THEN iffD2]) auto

lemma c_str_no_NUL [simp]: "NUL \<notin> set (c_str s)"
  unfolding c_str_def by (auto dest: set_takeWhileD)

lemma c_str_idem [simp]: "c_str (c_str s) = c_str s"
  by simp

lemma length_c_str: "length (c_str s) \<le> length s"
  unfolding c_str_def by (rule length_takeWhile_le)

section \<open>GLib's ASCII utilities\<close>

definition g_ascii_isspace :: "char \<Rightarrow> bool" where
  "g_ascii_isspace c \<longleftrightarrow>
     c = CHR '' '' \<or> c = CHR 0x09 \<or> c = CHR 0x0A \<or> c = CHR 0x0C \<or> c = CHR 0x0D"

definition g_strchug :: "string \<Rightarrow> string" where
  "g_strchug s = dropWhile g_ascii_isspace s"

definition g_strchomp :: "string \<Rightarrow> string" where
  "g_strchomp s = rev (dropWhile g_ascii_isspace (rev s))"

definition g_strstrip :: "string \<Rightarrow> string" where
  "g_strstrip s = g_strchomp (g_strchug s)"

definition g_ascii_tolower :: "char \<Rightarrow> char" where
  "g_ascii_tolower c =
     (let n = (of_char c :: nat) in if 65 \<le> n \<and> n \<le> 90 then char_of (n + 32) else c)"

text \<open>\<^verbatim>\<open>g_ascii_strcasecmp (a, b) == 0\<close>\<close>

definition g_ascii_strcaseeq :: "string \<Rightarrow> string \<Rightarrow> bool" where
  "g_ascii_strcaseeq a b \<longleftrightarrow> map g_ascii_tolower a = map g_ascii_tolower b"

text \<open>\<^verbatim>\<open>g_ascii_strncasecmp (s, lit, strlen (lit)) == 0\<close>\<close>

definition has_prefix_nocase :: "string \<Rightarrow> string \<Rightarrow> bool" where
  "has_prefix_nocase lit s \<longleftrightarrow>
     map g_ascii_tolower (take (length lit) s) = map g_ascii_tolower lit"

text \<open>\<^verbatim>\<open>g_str_has_prefix (s, p)\<close>\<close>

definition g_str_has_prefix :: "string \<Rightarrow> string \<Rightarrow> bool" where
  "g_str_has_prefix s p \<longleftrightarrow> take (length p) s = p"

lemma g_str_has_prefix_iff: "g_str_has_prefix s p \<longleftrightarrow> prefix p s"
  by (metis append_eq_conv_conj append_take_drop_id g_str_has_prefix_def prefixE prefixI)

text \<open>
  \<^verbatim>\<open>g_strsplit (s, "c", -1)\<close>: the fields between single-character delimiters. GLib returns
  the empty vector, not a vector holding the empty string, when \<^verbatim>\<open>s\<close> is empty.
\<close>

fun split_on :: "char \<Rightarrow> string \<Rightarrow> string list" where
  "split_on c [] = [[]]"
| "split_on c (x # xs) =
     (if x = c then [] # split_on c xs
      else (case split_on c xs of [] \<Rightarrow> [[x]] | y # ys \<Rightarrow> (x # y) # ys))"

definition g_strsplit :: "char \<Rightarrow> string \<Rightarrow> string list" where
  "g_strsplit c s = (if s = [] then [] else split_on c s)"

lemma split_on_neq_Nil [simp]: "split_on c s \<noteq> []"
  by (cases s) (auto split: list.splits)

lemma split_on_no_delim: "c \<notin> set s \<Longrightarrow> split_on c s = [s]"
  by (induction s) auto

lemma split_on_append: "c \<notin> set s \<Longrightarrow> split_on c (s @ c # t) = s # split_on c t"
  by (induction s) auto

lemma split_on_Cons_ex: "\<exists>y ys. split_on c s = y # ys"
  using split_on_neq_Nil [of c s] by (cases "split_on c s") auto

lemma split_on_fields: "f \<in> set (split_on c s) \<Longrightarrow> c \<notin> set f"
proof (induction c s arbitrary: f rule: split_on.induct)
  case (1 c)
  then show ?case by simp
next
  case (2 c x xs)
  obtain y ys where ys: "split_on c xs = y # ys"
    using split_on_Cons_ex by blast
  show ?case
  proof (cases "x = c")
    case True
    with 2 show ?thesis by auto
  next
    case False
    with "2.prems" ys have "f = x # y \<or> f \<in> set ys" by auto
    moreover have "c \<notin> set y" using "2.IH"(2) [OF False] ys by simp
    moreover have "f \<in> set ys \<Longrightarrow> c \<notin> set f" using "2.IH"(2) [OF False] ys by simp
    ultimately show ?thesis using False by auto
  qed
qed

text \<open>Splitting a text that was put together from delimiter-free fields gives the fields back.\<close>

fun join_with :: "char \<Rightarrow> string list \<Rightarrow> string" where
  "join_with c [] = []"
| "join_with c [x] = x"
| "join_with c (x # y # ys) = x @ c # join_with c (y # ys)"

lemma split_on_join:
  "xs \<noteq> [] \<Longrightarrow> \<forall>x \<in> set xs. c \<notin> set x \<Longrightarrow> split_on c (join_with c xs) = xs"
  by (induction c xs rule: join_with.induct) (auto simp: split_on_no_delim split_on_append)

lemma join_split_on: "join_with c (split_on c s) = s"
proof (induction c s rule: split_on.induct)
  case (1 c)
  show ?case by simp
next
  case (2 c x xs)
  obtain y ys where ys: "split_on c xs = y # ys"
    using split_on_Cons_ex by blast
  show ?case
  proof (cases "x = c")
    case True
    with 2(1) ys show ?thesis by simp
  next
    case False
    with 2(2) ys show ?thesis by (cases ys) auto
  qed
qed

lemma dropWhile_hd: "dropWhile P s = x # xs \<Longrightarrow> \<not> P x"
  by (metis hd_dropWhile list.discI list.sel(1))

lemma g_strchug_id: "s = [] \<or> \<not> g_ascii_isspace (hd s) \<Longrightarrow> g_strchug s = s"
  by (cases s) (auto simp: g_strchug_def)

lemma g_strstrip_id:
  "s = [] \<or> (\<not> g_ascii_isspace (hd s) \<and> \<not> g_ascii_isspace (last s)) \<Longrightarrow> g_strstrip s = s"
  by (cases s rule: rev_cases)
     (auto simp: g_strstrip_def g_strchomp_def g_strchug_id)

lemma set_g_strchug: "set (g_strchug s) \<subseteq> set s"
  by (auto simp: g_strchug_def dest: set_dropWhileD)

lemma set_g_strstrip: "set (g_strstrip s) \<subseteq> set s"
  using set_g_strchug by (fastforce simp: g_strstrip_def g_strchomp_def dest: set_dropWhileD)

lemma g_strchomp_last: "g_strchomp s \<noteq> [] \<Longrightarrow> \<not> g_ascii_isspace (last (g_strchomp s))"
  by (metis g_strchomp_def hd_dropWhile last_rev rev_is_Nil_conv)

lemma g_strchomp_hd:
  assumes "g_strchomp s \<noteq> []" shows "hd (g_strchomp s) = hd s"
proof -
  obtain u where "rev s = u @ dropWhile g_ascii_isspace (rev s)"
    by (metis takeWhile_dropWhile_id)
  then have "s = g_strchomp s @ rev u"
    unfolding g_strchomp_def by (metis rev_append rev_rev_ident)
  then show ?thesis using assms by (metis hd_append2)
qed

lemma g_strstrip_idem [simp]: "g_strstrip (g_strstrip s) = g_strstrip s"
proof (cases "g_strstrip s = []")
  case True
  have "g_strstrip [] = []" by (simp add: g_strstrip_def g_strchomp_def g_strchug_def)
  with True show ?thesis by simp
next
  case False
  then have l: "\<not> g_ascii_isspace (last (g_strstrip s))"
    unfolding g_strstrip_def by (rule g_strchomp_last)
  from False have ne: "g_strchug s \<noteq> []"
    by (auto simp: g_strstrip_def g_strchomp_def)
  then have "\<not> g_ascii_isspace (hd (g_strchug s))"
    unfolding g_strchug_def by (rule hd_dropWhile)
  moreover have "hd (g_strstrip s) = hd (g_strchug s)"
    using False unfolding g_strstrip_def by (rule g_strchomp_hd)
  ultimately show ?thesis using l by (intro g_strstrip_id) simp
qed

section \<open>C integer conversions\<close>

text \<open>
  Conversions to the fixed-width C types, on mathematical integers: out-of-range values wrap
  to two's complement, as every compiler the project supports does.
\<close>

definition to_gint :: "int \<Rightarrow> int" where
  "to_gint i = signed_take_bit 31 i"

definition to_gint64 :: "int \<Rightarrow> int" where
  "to_gint64 i = signed_take_bit 63 i"

definition to_guint :: "int \<Rightarrow> int" where
  "to_guint i = i mod 2 ^ 32"

definition to_guint64 :: "int \<Rightarrow> int" where
  "to_guint64 i = i mod 2 ^ 64"

definition gint_range :: "int \<Rightarrow> bool" where
  "gint_range i \<longleftrightarrow> - (2 ^ 31) \<le> i \<and> i < 2 ^ 31"

definition gint64_range :: "int \<Rightarrow> bool" where
  "gint64_range i \<longleftrightarrow> - (2 ^ 63) \<le> i \<and> i < 2 ^ 63"

lemma to_gint_id [simp]: "gint_range i \<Longrightarrow> to_gint i = i"
  unfolding to_gint_def gint_range_def by (intro signed_take_bit_int_eq_self) auto

lemma to_gint64_id [simp]: "gint64_range i \<Longrightarrow> to_gint64 i = i"
  unfolding to_gint64_def gint64_range_def by (intro signed_take_bit_int_eq_self) auto

lemma gint_range_to_gint [simp]: "gint_range (to_gint i)"
  using signed_take_bit_int_greater_eq_minus_exp [of 31 i] signed_take_bit_int_less_exp [of 31 i]
  by (simp add: gint_range_def to_gint_def)

lemma gint_range_gint64: "gint_range i \<Longrightarrow> gint64_range i"
  by (simp add: gint_range_def gint64_range_def)

lemma to_guint_id [simp]: "0 \<le> i \<Longrightarrow> i < 2 ^ 32 \<Longrightarrow> to_guint i = i"
  by (simp add: to_guint_def)

lemma to_guint64_id [simp]: "0 \<le> i \<Longrightarrow> i < 2 ^ 64 \<Longrightarrow> to_guint64 i = i"
  by (simp add: to_guint64_def)

text \<open>Arithmetic on \<^verbatim>\<open>guint64\<close> that does not wrap is arithmetic on numbers.\<close>

lemma unat_mult_small: "unat a * unat b < 2 ^ 64 \<Longrightarrow> unat (a * b) = unat a * unat (b :: 64 word)"
  using unat_mult_lem [of a b] by simp

lemma unat_add_small: "unat a + unat b < 2 ^ 64 \<Longrightarrow> unat (a + b) = unat a + unat (b :: 64 word)"
  using unat_add_lem [of a b] by simp

lemma unat_ucast_up [simp]: "unat (ucast (w :: 32 word) :: 64 word) = unat w"
  using unsigned_less [of w, where 'a = nat] by (simp add: unsigned_ucast_eq take_bit_nat_eq_self)

section \<open>List facts\<close>

lemma find_SomeD: "find P xs = Some x \<Longrightarrow> P x \<and> x \<in> set xs"
  by (auto simp: find_Some_iff)

lemma list_update_take_drop:
  "i < length xs \<Longrightarrow> xs[i := x] = take i xs @ x # drop (Suc i) xs"
  by (rule upd_conv_take_nth_drop)

lemma sum_list_map_update:
  fixes f :: "'a \<Rightarrow> nat"
  assumes "i < length xs"
  shows "sum_list (map f (xs[i := x])) + f (xs ! i) = sum_list (map f xs) + f x"
  using assms
proof (induction xs arbitrary: i)
  case Nil
  then show ?case by simp
next
  case (Cons y ys)
  then show ?case by (cases i) auto
qed

lemma take_Suc_nth: "i < length xs \<Longrightarrow> take (Suc i) xs = take i xs @ [xs ! i]"
  by (rule take_Suc_conv_app_nth)

text \<open>C's integer division, which truncates.\<close>

definition c_div :: "int \<Rightarrow> int \<Rightarrow> int" where
  "c_div a b = sgn a * sgn b * (\<bar>a\<bar> div \<bar>b\<bar>)"

lemma c_div_nonneg [simp]: "0 \<le> a \<Longrightarrow> 0 < b \<Longrightarrow> c_div a b = a div b"
  by (cases "a = 0") (simp_all add: c_div_def)

section \<open>Runs of a step relation\<close>

text \<open>A run from one state to another with every state it passes, both ends included.\<close>

inductive trace :: "('s \<Rightarrow> 's \<Rightarrow> bool) \<Rightarrow> 's \<Rightarrow> 's \<Rightarrow> 's list \<Rightarrow> bool" for step where
  trace_start: "trace step s s [s]"
| trace_step: "trace step s t ts \<Longrightarrow> step t u \<Longrightarrow> trace step s u (ts @ [u])"

locale invariant_system =
  fixes step :: "'s \<Rightarrow> 's \<Rightarrow> bool" and inv :: "'s \<Rightarrow> bool"
  assumes inv_step: "inv s \<Longrightarrow> step s t \<Longrightarrow> inv t"
begin

lemma inv_trace: "trace step s t ts \<Longrightarrow> inv s \<Longrightarrow> inv t \<and> list_all inv ts"
  by (induction rule: trace.induct) (auto intro: inv_step)

text \<open>
  What holds at the end of a run and not at its start was last brought about by one of its steps,
  taken from a state that satisfies the invariant, and has held since.
\<close>

lemma last_cause:
  "trace step s t ts \<Longrightarrow> inv s \<Longrightarrow> \<not> P s \<Longrightarrow> P t \<Longrightarrow>
     \<exists>pre u v post. ts = pre @ u # v # post \<and> inv u \<and> step u v \<and> \<not> P u \<and> P v \<and> list_all P post"
proof (induction rule: trace.induct)
  case (trace_step s t ts u)
  show ?case
  proof (cases "P t")
    case True
    then obtain pre a b post where "ts = pre @ a # b # post" "inv a" "step a b" "\<not> P a" "P b" "list_all P post"
      using trace_step.IH trace_step.prems by blast
    then show ?thesis using trace_step.prems(3) by (intro exI [of _ pre] exI [of _ a] exI [of _ b] exI [of _ "post @ [u]"]) simp
  next
    case False
    obtain pre where "ts = pre @ [t]" using trace_step.hyps(1) by (cases rule: trace.cases) auto
    moreover have "inv t" using inv_trace [OF trace_step.hyps(1)] trace_step.prems(1) by blast
    ultimately show ?thesis
      using False trace_step.hyps(2) trace_step.prems(3) by (intro exI [of _ pre] exI [of _ t] exI [of _ u] exI [of _ "[]"]) simp
  qed
qed simp

end

section \<open>Guarded event machines\<close>

text \<open>
  A machine whose events may be refused; a schedule runs when every event of it is accepted in
  its turn.
\<close>

fun run_events :: "('e \<Rightarrow> 's \<Rightarrow> 's option) \<Rightarrow> 'e list \<Rightarrow> 's \<Rightarrow> 's option" where
  "run_events exec [] s = Some s"
| "run_events exec (e # es) s =
     (case exec e s of None \<Rightarrow> None | Some s' \<Rightarrow> run_events exec es s')"

lemma run_events_append:
  "run_events exec (es @ fs) s =
     (case run_events exec es s of None \<Rightarrow> None | Some t \<Rightarrow> run_events exec fs t)"
  by (induction es arbitrary: s) (auto split: option.splits)

locale event_machine =
  fixes exec :: "'e \<Rightarrow> 's \<Rightarrow> 's option" and inv :: "'s \<Rightarrow> bool"
  assumes inv_exec: "inv s \<Longrightarrow> exec e s = Some t \<Longrightarrow> inv t"
begin

lemma inv_run: "run_events exec es s = Some t \<Longrightarrow> inv s \<Longrightarrow> inv t"
  by (induction es arbitrary: s) (auto split: option.splits dest: inv_exec)

end

end
