(* ===== verification/Region_Cache.thy ===== *)
theory Region_Cache
  imports Cmacs_Prelude
begin

text \<open>
  \<^verbatim>\<open>src/src/region-cache.c\<close>: the cache of facts about regions of a buffer (free of newlines, of one character
  width, and so on) that the scanning primitives consult. The cache is a sorted array of boundaries with a gap;
  positions before the gap are relative to the start of the buffer, those after it to its end. Edits only
  narrow the unchanged head and tail; the next query repairs the array. A buffer enters through its size alone:
  \<^verbatim>\<open>BUF_BEG\<close> is 1 and \<^verbatim>\<open>BUF_Z\<close> is the argument \<open>z\<close>. Positions are integers, array indices natural numbers.
\<close>

abbreviation (input) BEG :: int where "BEG \<equiv> 1"
abbreviation (input) NEW_CACHE_GAP :: nat where "NEW_CACHE_GAP \<equiv> 40"
abbreviation (input) PRESERVE_THRESHOLD :: int where "PRESERVE_THRESHOLD \<equiv> 500"

record boundary =
  bd_pos :: int
  bd_value :: int

record region_cache =
  rc_boundaries :: "boundary list"
  rc_gap_start :: nat
  rc_gap_len :: nat
  rc_cache_len :: nat
  rc_beg_unchanged :: int
  rc_end_unchanged :: int
  rc_buffer_beg :: int
  rc_buffer_end :: int

definition BOUNDARY_POS :: "region_cache \<Rightarrow> nat \<Rightarrow> int" where
  "BOUNDARY_POS c i =
     (if i < rc_gap_start c then rc_buffer_beg c + bd_pos (rc_boundaries c ! i)
      else rc_buffer_end c + bd_pos (rc_boundaries c ! (rc_gap_len c + i)))"

definition BOUNDARY_VALUE :: "region_cache \<Rightarrow> nat \<Rightarrow> int" where
  "BOUNDARY_VALUE c i =
     (if i < rc_gap_start c then bd_value (rc_boundaries c ! i)
      else bd_value (rc_boundaries c ! (rc_gap_len c + i)))"

definition SET_BOUNDARY_VALUE :: "nat \<Rightarrow> int \<Rightarrow> region_cache \<Rightarrow> region_cache" where
  "SET_BOUNDARY_VALUE i v c =
     (let k = (if i < rc_gap_start c then i else rc_gap_len c + i)
      in c\<lparr>rc_boundaries := (rc_boundaries c)[k := (rc_boundaries c ! k)\<lparr>bd_value := v\<rparr>]\<rparr>)"

text \<open>Fresh memory has no specified content; the code writes an element before it reads it.\<close>

definition fresh_boundary :: boundary where
  "fresh_boundary = \<lparr>bd_pos = 0, bd_value = 0\<rparr>"

definition new_region_cache :: region_cache where
  "new_region_cache =
     \<lparr>rc_boundaries = (replicate NEW_CACHE_GAP fresh_boundary)[0 := \<lparr>bd_pos = 0, bd_value = 0\<rparr>],
      rc_gap_start = 1, rc_gap_len = NEW_CACHE_GAP - 1, rc_cache_len = 1,
      rc_beg_unchanged = 0, rc_end_unchanged = 0, rc_buffer_beg = BEG, rc_buffer_end = BEG\<rparr>"

section \<open>Finding positions\<close>

lemma mid_range:
  fixes low high :: nat
  assumes "low + 1 < high"
  shows "low < low div 2 + high div 2 + (low mod 2) * (high mod 2)"
    and "low div 2 + high div 2 + (low mod 2) * (high mod 2) < high"
proof -
  obtain a x where l: "low = 2 * a + x" "x = 0 \<or> x = 1" by (metis mult_div_mod_eq mod2_eq_if)
  obtain b y where h: "high = 2 * b + y" "y = 0 \<or> y = 1" by (metis mult_div_mod_eq mod2_eq_if)
  show "low < low div 2 + high div 2 + (low mod 2) * (high mod 2)"
    and "low div 2 + high div 2 + (low mod 2) * (high mod 2) < high"
    using assms l h by auto
qed

function find_boundary_loop :: "region_cache \<Rightarrow> int \<Rightarrow> nat \<Rightarrow> nat \<Rightarrow> nat" where
  "find_boundary_loop c pos low high =
     (if low + 1 < high then
        (let mid = low div 2 + high div 2 + (low mod 2) * (high mod 2)
         in if pos < BOUNDARY_POS c mid then find_boundary_loop c pos low mid else find_boundary_loop c pos mid high)
      else low)"
  by pat_completeness auto
termination
proof (relation "measure (\<lambda>(c, pos, low, high). high - low)")
  fix c pos and low high mid :: nat
  assume a: "low + 1 < high" "mid = low div 2 + high div 2 + (low mod 2) * (high mod 2)"
  note b = mid_range [OF a(1), folded a(2)]
  show "((c, pos, low, mid), (c, pos, low, high)) \<in> measure (\<lambda>(c, pos, low, high). high - low)"
    and "((c, pos, mid, high), (c, pos, low, high)) \<in> measure (\<lambda>(c, pos, low, high). high - low)"
    using b by simp_all
qed simp

declare find_boundary_loop.simps [simp del]

definition find_cache_boundary :: "region_cache \<Rightarrow> int \<Rightarrow> nat" where
  "find_cache_boundary c pos = find_boundary_loop c pos 0 (rc_cache_len c)"

section \<open>Moving the gap, inserting and deleting\<close>

text \<open>The two copying loops, one boundary per step.\<close>

definition gap_step_right :: "region_cache \<Rightarrow> region_cache" where
  "gap_step_right c =
     (let b = rc_boundaries c ! (rc_gap_start c + rc_gap_len c)
      in c\<lparr>rc_boundaries := (rc_boundaries c)[rc_gap_start c :=
             \<lparr>bd_pos = rc_buffer_end c + bd_pos b - rc_buffer_beg c, bd_value = bd_value b\<rparr>],
           rc_gap_start := rc_gap_start c + 1\<rparr>)"

definition gap_step_left :: "region_cache \<Rightarrow> region_cache" where
  "gap_step_left c =
     (let gs = rc_gap_start c - 1; b = rc_boundaries c ! gs
      in c\<lparr>rc_boundaries := (rc_boundaries c)[gs + rc_gap_len c :=
             \<lparr>bd_pos = bd_pos b + rc_buffer_beg c - rc_buffer_end c, bd_value = bd_value b\<rparr>],
           rc_gap_start := gs\<rparr>)"

function cache_gap_right :: "nat \<Rightarrow> region_cache \<Rightarrow> region_cache" where
  "cache_gap_right pos c = (if rc_gap_start c < pos then cache_gap_right pos (gap_step_right c) else c)"
  by pat_completeness auto
termination
  by (relation "measure (\<lambda>(pos, c). pos - rc_gap_start c)") (auto simp: gap_step_right_def Let_def)

function cache_gap_left :: "nat \<Rightarrow> region_cache \<Rightarrow> region_cache" where
  "cache_gap_left pos c = (if pos < rc_gap_start c then cache_gap_left pos (gap_step_left c) else c)"
  by pat_completeness auto
termination
  by (relation "measure (\<lambda>(pos, c). rc_gap_start c - pos)") (auto simp: gap_step_left_def Let_def)

declare cache_gap_right.simps [simp del] cache_gap_left.simps [simp del]

text \<open>
  \<^verbatim>\<open>xpalloc\<close> (\<^verbatim>\<open>alloc.c\<close>) with no maximum, for elements of 16 bytes: the new number of elements. Sizes that do not
  fit the address space end the program there and are left out.
\<close>

definition xpalloc_nitems :: "nat \<Rightarrow> nat \<Rightarrow> nat" where
  "xpalloc_nitems n0 incr_min =
     (let n1 = n0 + n0 div 2;
          n = (if n1 * 16 < 128 then 128 div 16 else n1)
      in if n < n0 + incr_min then n0 + incr_min else n)"

definition xrealloc_boundaries :: "boundary list \<Rightarrow> nat \<Rightarrow> boundary list" where
  "xrealloc_boundaries bs n = take n bs @ replicate (n - length bs) fresh_boundary"

definition cache_gap_enlarge :: "nat \<Rightarrow> region_cache \<Rightarrow> region_cache" where
  "cache_gap_enlarge min_size c =
     (if rc_gap_len c < min_size then
        (let nboundaries = xpalloc_nitems (rc_cache_len c) (min_size - rc_gap_len c);
             m = nboundaries - rc_cache_len c - rc_gap_len c;
             bs = xrealloc_boundaries (rc_boundaries c) nboundaries
         in c\<lparr>rc_boundaries :=
                fold (\<lambda>i bs. bs[i + m := bs ! (i + rc_gap_len c)]) (rev [rc_gap_start c..<rc_cache_len c]) bs,
              rc_gap_len := m\<rparr>)
      else c)"

definition move_cache_gap :: "nat \<Rightarrow> nat \<Rightarrow> region_cache \<Rightarrow> region_cache" where
  "move_cache_gap pos min_size c = cache_gap_left pos (cache_gap_enlarge min_size (cache_gap_right pos c))"

definition insert_cache_boundary :: "nat \<Rightarrow> int \<Rightarrow> int \<Rightarrow> region_cache \<Rightarrow> region_cache" where
  "insert_cache_boundary i pos v c =
     (let c1 = move_cache_gap i 1 c
      in c1\<lparr>rc_boundaries := (rc_boundaries c1)[i := \<lparr>bd_pos = pos - rc_buffer_beg c1, bd_value = v\<rparr>],
            rc_gap_start := rc_gap_start c1 + 1, rc_gap_len := rc_gap_len c1 - 1,
            rc_cache_len := rc_cache_len c1 + 1\<rparr>)"

definition delete_cache_boundaries :: "nat \<Rightarrow> nat \<Rightarrow> region_cache \<Rightarrow> region_cache" where
  "delete_cache_boundaries start en c =
     (let len = en - start;
          c1 = (if len = 0 then c
                else if rc_gap_start c \<le> start then
                  (let d = move_cache_gap start 0 c in d\<lparr>rc_gap_len := rc_gap_len d + len\<rparr>)
                else if en \<le> rc_gap_start c then
                  (let d = move_cache_gap en 0 c
                   in d\<lparr>rc_gap_start := rc_gap_start d - len, rc_gap_len := rc_gap_len d + len\<rparr>)
                else c\<lparr>rc_gap_start := start, rc_gap_len := rc_gap_len c + len\<rparr>)
      in c1\<lparr>rc_cache_len := rc_cache_len c1 - len\<rparr>)"

section \<open>Setting a region, invalidating and revalidating\<close>

text \<open>The two halves of \<^verbatim>\<open>set_cache_region\<close>: the boundary at the start, with the index it ends up at, and the end.\<close>

definition set_region_start :: "nat \<Rightarrow> int \<Rightarrow> int \<Rightarrow> region_cache \<Rightarrow> nat \<times> region_cache" where
  "set_region_start start_ix start v c =
     (if BOUNDARY_POS c start_ix = start then
        if start_ix > 0 \<and> BOUNDARY_VALUE c (start_ix - 1) = v
        then (start_ix - 1, delete_cache_boundaries start_ix (start_ix + 1) c)
        else (start_ix, SET_BOUNDARY_VALUE start_ix v c)
      else if BOUNDARY_VALUE c start_ix \<noteq> v
      then (start_ix + 1, insert_cache_boundary (start_ix + 1) start v c)
      else (start_ix, c))"

definition set_region_end :: "nat \<Rightarrow> int \<Rightarrow> int \<Rightarrow> int \<Rightarrow> region_cache \<Rightarrow> region_cache" where
  "set_region_end end_ix en v value_at_end c =
     (if en = rc_buffer_end c then c
      else if end_ix \<ge> rc_cache_len c \<or> en < BOUNDARY_POS c end_ix then
        (if value_at_end \<noteq> v then insert_cache_boundary end_ix en value_at_end c else c)
      else if v = BOUNDARY_VALUE c end_ix then delete_cache_boundaries end_ix (end_ix + 1) c
      else c)"

definition set_cache_region :: "int \<Rightarrow> int \<Rightarrow> int \<Rightarrow> region_cache \<Rightarrow> region_cache" where
  "set_cache_region start en v c =
     (if start = en then c
      else
        (let start_ix = find_cache_boundary c start;
             end_ix = find_cache_boundary c (en - 1) + 1;
             value_at_end = BOUNDARY_VALUE c (end_ix - 1);
             c1 = delete_cache_boundaries (start_ix + 1) end_ix c
         in case set_region_start start_ix start v c1 of (ix, c2) \<Rightarrow>
              set_region_end (ix + 1) en v value_at_end c2))"

definition collapse_boundaries :: "nat \<Rightarrow> region_cache \<Rightarrow> region_cache" where
  "collapse_boundaries modified_ix c =
     (if modified_ix < rc_cache_len c \<and> BOUNDARY_POS c (modified_ix - 1) = BOUNDARY_POS c modified_ix then
        (let value_after = BOUNDARY_VALUE c modified_ix
         in if modified_ix - 1 > 0 \<and> value_after = BOUNDARY_VALUE c (modified_ix - 2)
            then delete_cache_boundaries (modified_ix - 1) (modified_ix + 1) c
            else delete_cache_boundaries modified_ix (modified_ix + 1)
                   (SET_BOUNDARY_VALUE (modified_ix - 1) value_after c))
      else c)"

definition revalidate_region_cache :: "int \<Rightarrow> region_cache \<Rightarrow> region_cache" where
  "revalidate_region_cache z c =
     (let b = rc_buffer_beg c + rc_beg_unchanged c; e = rc_buffer_end c - rc_end_unchanged c
      in if b > e then c
         else
           (let c' =
              (if b = e then
                 (let c1 = (move_cache_gap (find_cache_boundary c b + 1) 0 c)\<lparr>rc_buffer_beg := BEG, rc_buffer_end := z\<rparr>
                  in set_cache_region (rc_buffer_beg c1 + rc_beg_unchanged c1) (rc_buffer_end c1 - rc_end_unchanged c1) 0 c1)
               else
                 (let c1 = set_cache_region b e 0 c;
                      modified_ix = find_cache_boundary c1 (rc_buffer_beg c1 + rc_beg_unchanged c1) + 1;
                      c2 = (move_cache_gap modified_ix 0 c1)\<lparr>rc_buffer_beg := BEG, rc_buffer_end := z\<rparr>
                  in collapse_boundaries modified_ix c2))
            in c'\<lparr>rc_beg_unchanged := rc_buffer_end c' - rc_buffer_beg c',
                  rc_end_unchanged := rc_buffer_end c' - rc_buffer_beg c'\<rparr>))"

definition invalidate_region_cache :: "int \<Rightarrow> int \<Rightarrow> int \<Rightarrow> region_cache \<Rightarrow> region_cache" where
  "invalidate_region_cache z head tail c =
     (let c1 = (if (BEG + rc_beg_unchanged c) - (z - tail) > PRESERVE_THRESHOLD
                   \<or> (BEG + head) - (z - rc_end_unchanged c) > PRESERVE_THRESHOLD
                then revalidate_region_cache z c else c);
          c2 = (if head < rc_beg_unchanged c1 then c1\<lparr>rc_beg_unchanged := head\<rparr> else c1)
      in if tail < rc_end_unchanged c2 then c2\<lparr>rc_end_unchanged := tail\<rparr> else c2)"

section \<open>Adding and using knowledge\<close>

definition know_region_cache :: "int \<Rightarrow> int \<Rightarrow> int \<Rightarrow> region_cache \<Rightarrow> region_cache" where
  "know_region_cache z start en c = set_cache_region start en 1 (revalidate_region_cache z c)"

function scan_forward :: "region_cache \<Rightarrow> int \<Rightarrow> nat \<Rightarrow> nat" where
  "scan_forward c v j = (if j < rc_cache_len c \<and> BOUNDARY_VALUE c j = v then scan_forward c v (j + 1) else j)"
  by pat_completeness auto
termination
  by (relation "measure (\<lambda>(c, v, j). rc_cache_len c - j)") auto

declare scan_forward.simps [simp del]

text \<open>The backward loop runs over \<open>j\<close> with \<open>j + 1\<close> as the argument, so that the result \<open>0\<close> is the index \<open>-1\<close>.\<close>

fun scan_backward :: "region_cache \<Rightarrow> int \<Rightarrow> nat \<Rightarrow> nat" where
  "scan_backward c v 0 = 0"
| "scan_backward c v (Suc j) = (if BOUNDARY_VALUE c j \<noteq> v then Suc j else scan_backward c v j)"

text \<open>Both queries return the value, the position of the next change, and the repaired cache.\<close>

definition region_cache_forward :: "int \<Rightarrow> int \<Rightarrow> region_cache \<Rightarrow> int \<times> int \<times> region_cache" where
  "region_cache_forward z pos c0 =
     (let c = revalidate_region_cache z c0; i = find_cache_boundary c pos; v = BOUNDARY_VALUE c i
      in if pos \<ge> z then (0, z, c)
         else (let j = scan_forward c v (i + 1)
               in (v, (if j < rc_cache_len c then BOUNDARY_POS c j else z), c)))"

definition region_cache_backward :: "int \<Rightarrow> int \<Rightarrow> region_cache \<Rightarrow> int \<times> int \<times> region_cache" where
  "region_cache_backward z pos c0 =
     (let c = revalidate_region_cache z c0
      in if pos \<le> BEG then (0, BEG, c)
         else (let i = find_cache_boundary c (pos - 1); v = BOUNDARY_VALUE c i; j = scan_backward c v i
               in (v, (if j > 0 then BOUNDARY_POS c j else BEG), c)))"

section \<open>What the array represents\<close>

text \<open>The boundaries as a list of positions and values, whatever the place of the gap.\<close>

definition bnds :: "region_cache \<Rightarrow> (int \<times> int) list" where
  "bnds c = map (\<lambda>i. (BOUNDARY_POS c i, BOUNDARY_VALUE c i)) [0..<rc_cache_len c]"

definition rc_wf :: "region_cache \<Rightarrow> bool" where
  "rc_wf c \<longleftrightarrow> length (rc_boundaries c) = rc_cache_len c + rc_gap_len c \<and>
     0 < rc_gap_start c \<and> rc_gap_start c \<le> rc_cache_len c"

definition same_basis :: "region_cache \<Rightarrow> region_cache \<Rightarrow> bool" where
  "same_basis c d \<longleftrightarrow> rc_buffer_beg c = rc_buffer_beg d \<and> rc_buffer_end c = rc_buffer_end d \<and>
     rc_beg_unchanged c = rc_beg_unchanged d \<and> rc_end_unchanged c = rc_end_unchanged d"

lemma same_basis_refl [simp]: "same_basis c c"
  by (simp add: same_basis_def)

lemma same_basis_trans [trans]: "same_basis c d \<Longrightarrow> same_basis d e \<Longrightarrow> same_basis c e"
  by (simp add: same_basis_def)

lemma length_bnds [simp]: "length (bnds c) = rc_cache_len c"
  by (simp add: bnds_def)

lemma nth_bnds: "i < rc_cache_len c \<Longrightarrow> bnds c ! i = (BOUNDARY_POS c i, BOUNDARY_VALUE c i)"
  by (simp add: bnds_def)

lemma bnds_eqI:
  "length xs = rc_cache_len c \<Longrightarrow> (\<And>i. i < rc_cache_len c \<Longrightarrow> BOUNDARY_POS c i = fst (xs ! i) \<and> BOUNDARY_VALUE c i = snd (xs ! i)) \<Longrightarrow>
     bnds c = xs"
  by (rule nth_equalityI) (auto simp: nth_bnds prod_eq_iff)

lemma gap_step_right_bnds:
  assumes "rc_wf c" "rc_gap_start c < rc_cache_len c"
  shows "bnds (gap_step_right c) = bnds c" and "rc_wf (gap_step_right c)" and "same_basis (gap_step_right c) c"
    and "rc_gap_len (gap_step_right c) = rc_gap_len c" and "rc_cache_len (gap_step_right c) = rc_cache_len c"
proof -
  show len: "rc_cache_len (gap_step_right c) = rc_cache_len c" by (simp add: gap_step_right_def Let_def)
  show "bnds (gap_step_right c) = bnds c"
  proof (rule bnds_eqI)
    fix i assume "i < rc_cache_len (gap_step_right c)"
    with len assms show "BOUNDARY_POS (gap_step_right c) i = fst (bnds c ! i) \<and> BOUNDARY_VALUE (gap_step_right c) i = snd (bnds c ! i)"
      by (auto simp: nth_bnds BOUNDARY_POS_def BOUNDARY_VALUE_def gap_step_right_def Let_def rc_wf_def nth_list_update less_Suc_eq add.commute)
  qed (simp add: len)
qed (use assms in \<open>auto simp: gap_step_right_def Let_def rc_wf_def same_basis_def\<close>)

lemma gap_step_left_bnds:
  assumes "rc_wf c" "1 < rc_gap_start c"
  shows "bnds (gap_step_left c) = bnds c" and "rc_wf (gap_step_left c)" and "same_basis (gap_step_left c) c"
    and "rc_gap_len (gap_step_left c) = rc_gap_len c" and "rc_cache_len (gap_step_left c) = rc_cache_len c"
proof -
  show len: "rc_cache_len (gap_step_left c) = rc_cache_len c" by (simp add: gap_step_left_def Let_def)
  show "bnds (gap_step_left c) = bnds c"
  proof (rule bnds_eqI)
    fix i assume i: "i < rc_cache_len (gap_step_left c)"
    consider "i < rc_gap_start c - 1" | "i = rc_gap_start c - 1" | "rc_gap_start c \<le> i" by linarith
    then show "BOUNDARY_POS (gap_step_left c) i = fst (bnds c ! i) \<and> BOUNDARY_VALUE (gap_step_left c) i = snd (bnds c ! i)"
      using i len assms
      by cases (auto simp: nth_bnds BOUNDARY_POS_def BOUNDARY_VALUE_def gap_step_left_def Let_def rc_wf_def nth_list_update add.commute)
  qed (simp add: len)
qed (use assms in \<open>auto simp: gap_step_left_def Let_def rc_wf_def same_basis_def\<close>)

lemma cache_gap_right_bnds:
  "rc_wf c \<Longrightarrow> pos \<le> rc_cache_len c \<Longrightarrow>
     bnds (cache_gap_right pos c) = bnds c \<and> rc_wf (cache_gap_right pos c) \<and> same_basis (cache_gap_right pos c) c \<and>
     rc_gap_len (cache_gap_right pos c) = rc_gap_len c \<and> rc_cache_len (cache_gap_right pos c) = rc_cache_len c \<and>
     rc_gap_start (cache_gap_right pos c) = max pos (rc_gap_start c)"
proof (induction pos c rule: cache_gap_right.induct)
  case (1 pos c)
  show ?case
  proof (cases "rc_gap_start c < pos")
    case True
    note s = gap_step_right_bnds [of c]
    have g: "rc_gap_start (gap_step_right c) = rc_gap_start c + 1" by (simp add: gap_step_right_def Let_def)
    show ?thesis using 1 True s g same_basis_trans by (subst (1 2 3 4 5 6) cache_gap_right.simps) auto
  next
    case False
    then show ?thesis using 1 by (simp add: cache_gap_right.simps [of pos c])
  qed
qed

lemma cache_gap_left_bnds:
  "rc_wf c \<Longrightarrow> 0 < pos \<Longrightarrow>
     bnds (cache_gap_left pos c) = bnds c \<and> rc_wf (cache_gap_left pos c) \<and> same_basis (cache_gap_left pos c) c \<and>
     rc_gap_len (cache_gap_left pos c) = rc_gap_len c \<and> rc_cache_len (cache_gap_left pos c) = rc_cache_len c \<and>
     rc_gap_start (cache_gap_left pos c) = min pos (rc_gap_start c)"
proof (induction pos c rule: cache_gap_left.induct)
  case (1 pos c)
  show ?case
  proof (cases "pos < rc_gap_start c")
    case True
    note s = gap_step_left_bnds [of c]
    have g: "rc_gap_start (gap_step_left c) = rc_gap_start c - 1" by (simp add: gap_step_left_def Let_def)
    show ?thesis using 1 True s g same_basis_trans by (subst (1 2 3 4 5 6) cache_gap_left.simps) auto
  next
    case False
    then show ?thesis using 1 by (simp add: cache_gap_left.simps [of pos c])
  qed
qed

text \<open>Copying upwards from the end keeps what lies below the target and moves the rest.\<close>

lemma shift_up:
  assumes "n + m \<le> length bs" "g \<le> m" "a \<le> n"
  shows "length (fold (\<lambda>i bs. bs[i + m := bs ! (i + g)]) (rev [a..<n]) bs) = length bs \<and>
    (\<forall>k. fold (\<lambda>i bs. bs[i + m := bs ! (i + g)]) (rev [a..<n]) bs ! k =
       (if a + m \<le> k \<and> k < n + m then bs ! (k - m + g) else bs ! k))"
  using assms(3,1)
proof (induction n arbitrary: bs rule: dec_induct)
  case (step n)
  let ?bs = "bs[n + m := bs ! (n + g)]"
  have "n + m \<le> length ?bs" using step.prems by simp
  note IH = step.IH [OF this]
  have f: "fold (\<lambda>i bs. bs[i + m := bs ! (i + g)]) (rev [a..<Suc n]) bs =
      fold (\<lambda>i bs. bs[i + m := bs ! (i + g)]) (rev [a..<n]) ?bs" using step.hyps by simp
  have "(if a + m \<le> k \<and> k < n + m then ?bs ! (k - m + g) else ?bs ! k) =
      (if a + m \<le> k \<and> k < Suc n + m then bs ! (k - m + g) else bs ! k)" for k
  proof -
    consider "k < n + m" | "k = n + m" | "n + m < k" by linarith
    then show ?thesis
    proof cases
      case 1
      then have "a + m \<le> k \<Longrightarrow> ?bs ! (k - m + g) = bs ! (k - m + g)"
        using assms(2) by (intro nth_list_update_neq) linarith
      then show ?thesis using 1 by (simp del: nth_list_update_eq)
    next
      case 2
      then show ?thesis using step.prems step.hyps by simp
    qed simp
  qed
  then show ?case unfolding f using IH by simp
qed auto

lemma xpalloc_grows: "n0 + incr \<le> xpalloc_nitems n0 incr"
  by (simp add: xpalloc_nitems_def Let_def)

text \<open>The gap is enlarged only when it is empty: no caller asks for room for more than one boundary.\<close>

lemma cache_gap_enlarge_bnds:
  assumes "rc_wf c" "min_size \<le> 1"
  shows "bnds (cache_gap_enlarge min_size c) = bnds c" and "rc_wf (cache_gap_enlarge min_size c)"
    and "same_basis (cache_gap_enlarge min_size c) c" and "min_size \<le> rc_gap_len (cache_gap_enlarge min_size c)"
    and "rc_gap_start (cache_gap_enlarge min_size c) = rc_gap_start c"
    and "rc_cache_len (cache_gap_enlarge min_size c) = rc_cache_len c"
proof -
  define k where "k = xpalloc_nitems (rc_cache_len c) 1"
  define bs where "bs = rc_boundaries c @ replicate (k - rc_cache_len c) fresh_boundary"
  define m where "m = k - rc_cache_len c"
  have "bnds (cache_gap_enlarge min_size c) = bnds c \<and> rc_wf (cache_gap_enlarge min_size c) \<and>
     same_basis (cache_gap_enlarge min_size c) c \<and> min_size \<le> rc_gap_len (cache_gap_enlarge min_size c) \<and>
     rc_gap_start (cache_gap_enlarge min_size c) = rc_gap_start c \<and>
     rc_cache_len (cache_gap_enlarge min_size c) = rc_cache_len c"
  proof (cases "rc_gap_len c < min_size")
    case True
    with assms have g: "rc_gap_len c = 0" "min_size = 1" by auto
    have k: "rc_cache_len c < k" using xpalloc_grows [of "rc_cache_len c" 1] by (simp add: k_def)
    have len: "length (rc_boundaries c) = rc_cache_len c" using assms(1) g by (simp add: rc_wf_def)
    have re: "xrealloc_boundaries (rc_boundaries c) k = bs" using len k by (simp add: xrealloc_boundaries_def bs_def)
    let ?f = "fold (\<lambda>i bs. bs[i + m := bs ! (i + 0)]) (rev [rc_gap_start c..<rc_cache_len c]) bs"
    have gs: "rc_gap_start c \<le> rc_cache_len c" using assms(1) by (simp add: rc_wf_def)
    have "rc_cache_len c + m \<le> length bs" using len by (simp add: bs_def m_def)
    note sh = shift_up [OF this _ gs, of 0]
    have enl: "cache_gap_enlarge min_size c = c\<lparr>rc_boundaries := ?f, rc_gap_len := m\<rparr>"
      using True g k re by (simp add: cache_gap_enlarge_def Let_def k_def m_def)
    have "bnds (c\<lparr>rc_boundaries := ?f, rc_gap_len := m\<rparr>) = bnds c"
    proof (rule bnds_eqI)
      fix i assume "i < rc_cache_len (c\<lparr>rc_boundaries := ?f, rc_gap_len := m\<rparr>)"
      then have i: "i < rc_cache_len c" by simp
      have "?f ! (if i < rc_gap_start c then i else m + i) = rc_boundaries c ! i"
        using sh gs i len by (auto simp: bs_def nth_append)
      then show "BOUNDARY_POS (c\<lparr>rc_boundaries := ?f, rc_gap_len := m\<rparr>) i = fst (bnds c ! i) \<and>
          BOUNDARY_VALUE (c\<lparr>rc_boundaries := ?f, rc_gap_len := m\<rparr>) i = snd (bnds c ! i)"
        using i g by (auto simp: nth_bnds BOUNDARY_POS_def BOUNDARY_VALUE_def split: if_splits)
    qed simp
    moreover have "rc_wf (c\<lparr>rc_boundaries := ?f, rc_gap_len := m\<rparr>)"
      using assms(1) sh len k by (simp add: rc_wf_def bs_def m_def)
    ultimately show ?thesis unfolding enl using k g by (simp add: same_basis_def m_def)
  next
    case False
    then show ?thesis using assms(1) by (simp add: cache_gap_enlarge_def)
  qed
  then show "bnds (cache_gap_enlarge min_size c) = bnds c" and "rc_wf (cache_gap_enlarge min_size c)"
    and "same_basis (cache_gap_enlarge min_size c) c" and "min_size \<le> rc_gap_len (cache_gap_enlarge min_size c)"
    and "rc_gap_start (cache_gap_enlarge min_size c) = rc_gap_start c"
    and "rc_cache_len (cache_gap_enlarge min_size c) = rc_cache_len c"
    by blast+
qed

lemma move_cache_gap_bnds:
  assumes "rc_wf c" "min_size \<le> 1" "0 < pos" "pos \<le> rc_cache_len c"
  shows "bnds (move_cache_gap pos min_size c) = bnds c" and "rc_wf (move_cache_gap pos min_size c)"
    and "same_basis (move_cache_gap pos min_size c) c" and "min_size \<le> rc_gap_len (move_cache_gap pos min_size c)"
    and "rc_gap_start (move_cache_gap pos min_size c) = pos"
    and "rc_cache_len (move_cache_gap pos min_size c) = rc_cache_len c"
proof -
  define c1 where "c1 = cache_gap_right pos c"
  define c2 where "c2 = cache_gap_enlarge min_size c1"
  note r = cache_gap_right_bnds [OF assms(1,4), folded c1_def]
  note e = cache_gap_enlarge_bnds [of c1 min_size, folded c2_def]
  have wf1: "rc_wf c1" using r by blast
  note e = e [OF wf1 assms(2)]
  note l = cache_gap_left_bnds [OF e(2) assms(3)]
  have d: "move_cache_gap pos min_size c = cache_gap_left pos c2" by (simp add: move_cache_gap_def c1_def c2_def)
  show "bnds (move_cache_gap pos min_size c) = bnds c" unfolding d using r e l by simp
  show "rc_wf (move_cache_gap pos min_size c)" unfolding d using l by blast
  show "same_basis (move_cache_gap pos min_size c) c" unfolding d using r e l same_basis_trans by blast
  show "min_size \<le> rc_gap_len (move_cache_gap pos min_size c)" unfolding d using e l by simp
  show "rc_gap_start (move_cache_gap pos min_size c) = pos" unfolding d using r e l by simp
  show "rc_cache_len (move_cache_gap pos min_size c) = rc_cache_len c" unfolding d using r e l by simp
qed

lemma insert_cache_boundary_bnds:
  assumes "rc_wf c" "0 < i" "i \<le> rc_cache_len c"
  shows "bnds (insert_cache_boundary i pos v c) = take i (bnds c) @ (pos, v) # drop i (bnds c)"
    and "rc_wf (insert_cache_boundary i pos v c)" and "same_basis (insert_cache_boundary i pos v c) c"
proof -
  define d where "d = move_cache_gap i 1 c"
  note m = move_cache_gap_bnds [OF assms(1) _ assms(2,3), of 1, folded d_def, simplified]
  let ?r = "insert_cache_boundary i pos v c"
  have r: "?r = d\<lparr>rc_boundaries := (rc_boundaries d)[i := \<lparr>bd_pos = pos - rc_buffer_beg d, bd_value = v\<rparr>],
      rc_gap_start := i + 1, rc_gap_len := rc_gap_len d - 1, rc_cache_len := rc_cache_len d + 1\<rparr>"
    using m(5) by (simp add: insert_cache_boundary_def Let_def d_def)
  have il: "i < length (rc_boundaries d)" using m(2,4,5) by (simp add: rc_wf_def)
  show "bnds ?r = take i (bnds c) @ (pos, v) # drop i (bnds c)"
  proof (rule bnds_eqI)
    show "length (take i (bnds c) @ (pos, v) # drop i (bnds c)) = rc_cache_len ?r"
      using assms(3) m(6) by (simp add: r)
    fix j assume j: "j < rc_cache_len ?r"
    consider "j < i" | "j = i" | "i < j" by linarith
    then show "BOUNDARY_POS ?r j = fst ((take i (bnds c) @ (pos, v) # drop i (bnds c)) ! j) \<and>
        BOUNDARY_VALUE ?r j = snd ((take i (bnds c) @ (pos, v) # drop i (bnds c)) ! j)"
    proof cases
      case 1
      then have "(take i (bnds c) @ (pos, v) # drop i (bnds c)) ! j = bnds d ! j"
        using assms(3) m(1) by (simp add: nth_append)
      then show ?thesis using 1 m(5,6) assms(3)
        by (simp add: nth_bnds r BOUNDARY_POS_def BOUNDARY_VALUE_def)
    next
      case 2
      then show ?thesis using il assms(3)
        by (simp add: nth_append r BOUNDARY_POS_def BOUNDARY_VALUE_def)
    next
      case 3
      then obtain k where k: "j = Suc k" "i \<le> k" by (cases j) auto
      have kl: "k < rc_cache_len d" using j k by (simp add: r)
      have "(take i (bnds c) @ (pos, v) # drop i (bnds c)) ! j = bnds d ! k"
        using k assms(3) m(1) by (simp add: nth_append Suc_diff_le)
      moreover have "rc_gap_len d - 1 + j = rc_gap_len d + k" "rc_gap_len d + k \<noteq> i" using k m(4) by auto
      ultimately show ?thesis using k kl m(5)
        by (simp add: nth_bnds r BOUNDARY_POS_def BOUNDARY_VALUE_def)
    qed
  qed
  show "rc_wf ?r" using m(2,4,5) by (simp add: r rc_wf_def)
  show "same_basis ?r c" using m(3) by (simp add: r same_basis_def)
qed

text \<open>Widening the gap over the deleted boundaries, which all three branches of the deletion come to.\<close>

definition widen_gap :: "nat \<Rightarrow> nat \<Rightarrow> region_cache \<Rightarrow> region_cache" where
  "widen_gap s e c = c\<lparr>rc_gap_start := s, rc_gap_len := rc_gap_len c + (e - s), rc_cache_len := rc_cache_len c - (e - s)\<rparr>"

lemma widen_gap_bnds:
  assumes "rc_wf c" "0 < s" "s \<le> rc_gap_start c" "rc_gap_start c \<le> e" "e \<le> rc_cache_len c"
  shows "bnds (widen_gap s e c) = take s (bnds c) @ drop e (bnds c)"
    and "rc_wf (widen_gap s e c)" and "same_basis (widen_gap s e c) c"
proof -
  show "bnds (widen_gap s e c) = take s (bnds c) @ drop e (bnds c)"
  proof (rule bnds_eqI)
    show "length (take s (bnds c) @ drop e (bnds c)) = rc_cache_len (widen_gap s e c)"
      using assms by (simp add: widen_gap_def)
    fix j assume j: "j < rc_cache_len (widen_gap s e c)"
    show "BOUNDARY_POS (widen_gap s e c) j = fst ((take s (bnds c) @ drop e (bnds c)) ! j) \<and>
        BOUNDARY_VALUE (widen_gap s e c) j = snd ((take s (bnds c) @ drop e (bnds c)) ! j)"
    proof (cases "j < s")
      case True
      then show ?thesis using assms
        by (simp add: nth_append nth_bnds widen_gap_def BOUNDARY_POS_def BOUNDARY_VALUE_def)
    next
      case False
      define k where "k = j + (e - s)"
      have k: "rc_gap_start c \<le> k" "k < rc_cache_len c" using False assms j by (auto simp: k_def widen_gap_def)
      have "(take s (bnds c) @ drop e (bnds c)) ! j = bnds c ! k"
        using False assms by (simp add: nth_append k_def add.commute)
      then show ?thesis using k False
        by (simp add: nth_bnds widen_gap_def BOUNDARY_POS_def BOUNDARY_VALUE_def k_def ac_simps)
    qed
  qed
  show "rc_wf (widen_gap s e c)" using assms by (auto simp: widen_gap_def rc_wf_def)
  show "same_basis (widen_gap s e c) c" by (simp add: widen_gap_def same_basis_def)
qed

lemma delete_cache_boundaries_bnds:
  assumes "rc_wf c" "0 < s" "s \<le> e" "e \<le> rc_cache_len c"
  shows "bnds (delete_cache_boundaries s e c) = take s (bnds c) @ drop e (bnds c) \<and>
    rc_wf (delete_cache_boundaries s e c) \<and> same_basis (delete_cache_boundaries s e c) c"
proof -
  consider "s = e" | "s < e" "rc_gap_start c \<le> s" | "s < e" "s < rc_gap_start c" "e \<le> rc_gap_start c"
    | "s < e" "s < rc_gap_start c" "rc_gap_start c < e" using assms(3) by linarith
  then show ?thesis
  proof cases
    case 1
    then show ?thesis using assms by (simp add: delete_cache_boundaries_def)
  next
    case 2
    define d where "d = move_cache_gap s 0 c"
    have s: "s \<le> rc_cache_len c" using assms by simp
    note m = move_cache_gap_bnds [OF assms(1) _ assms(2) s, of 0, folded d_def, simplified]
    have "delete_cache_boundaries s e c = widen_gap s e d"
      using 2 m(5) by (simp add: delete_cache_boundaries_def widen_gap_def Let_def d_def)
    moreover have "s \<le> rc_gap_start d" "rc_gap_start d \<le> e" "e \<le> rc_cache_len d" using m 2 assms by simp_all
    ultimately show ?thesis using widen_gap_bnds [of d s e] m assms(2) same_basis_trans by auto
  next
    case 3
    define d where "d = move_cache_gap e 0 c"
    have e: "0 < e" using 3 by simp
    note m = move_cache_gap_bnds [OF assms(1) _ e assms(4), of 0, folded d_def, simplified]
    have "delete_cache_boundaries s e c = widen_gap s e d"
      using 3 m(5) by (simp add: delete_cache_boundaries_def widen_gap_def Let_def d_def)
    moreover have "s \<le> rc_gap_start d" "rc_gap_start d \<le> e" "e \<le> rc_cache_len d" using m 3 assms by simp_all
    ultimately show ?thesis using widen_gap_bnds [of d s e] m assms(2) same_basis_trans by auto
  next
    case 4
    have "delete_cache_boundaries s e c = widen_gap s e c"
      using 4 by (simp add: delete_cache_boundaries_def widen_gap_def Let_def)
    then show ?thesis using widen_gap_bnds [of c s e] 4 assms by simp
  qed
qed

lemma SET_BOUNDARY_VALUE_bnds:
  assumes "rc_wf c" "i < rc_cache_len c"
  shows "bnds (SET_BOUNDARY_VALUE i v c) = (bnds c)[i := (fst (bnds c ! i), v)] \<and>
    rc_wf (SET_BOUNDARY_VALUE i v c) \<and> same_basis (SET_BOUNDARY_VALUE i v c) c"
proof -
  have "bnds (SET_BOUNDARY_VALUE i v c) = (bnds c)[i := (fst (bnds c ! i), v)]"
  proof (rule bnds_eqI)
    fix j assume "j < rc_cache_len (SET_BOUNDARY_VALUE i v c)"
    then have j: "j < rc_cache_len c" by (simp add: SET_BOUNDARY_VALUE_def Let_def)
    show "BOUNDARY_POS (SET_BOUNDARY_VALUE i v c) j = fst ((bnds c)[i := (fst (bnds c ! i), v)] ! j) \<and>
        BOUNDARY_VALUE (SET_BOUNDARY_VALUE i v c) j = snd ((bnds c)[i := (fst (bnds c ! i), v)] ! j)"
    proof (cases "j = i")
      case True
      then show ?thesis using assms j
        by (auto simp: nth_bnds SET_BOUNDARY_VALUE_def Let_def BOUNDARY_POS_def BOUNDARY_VALUE_def rc_wf_def)
    next
      case False
      then show ?thesis using assms j
        by (auto simp: nth_bnds SET_BOUNDARY_VALUE_def Let_def BOUNDARY_POS_def BOUNDARY_VALUE_def rc_wf_def nth_list_update)
    qed
  qed (simp add: SET_BOUNDARY_VALUE_def Let_def)
  then show ?thesis using assms by (simp add: SET_BOUNDARY_VALUE_def Let_def rc_wf_def same_basis_def)
qed

section \<open>The value at a position\<close>

text \<open>The value the last boundary at or before a position establishes, with a default before the first one.\<close>

fun val_at :: "int \<Rightarrow> (int \<times> int) list \<Rightarrow> int \<Rightarrow> int" where
  "val_at d [] p = d"
| "val_at d ((q, v) # bs) p = (if q \<le> p then val_at v bs p else d)"

definition last_val :: "int \<Rightarrow> (int \<times> int) list \<Rightarrow> int" where
  "last_val d bs = (if bs = [] then d else snd (last bs))"

lemma last_val_simps [simp]: "last_val d [] = d" "last_val d (xs @ [b]) = snd b" "last_val d (b # bs) = last_val (snd b) bs"
  by (simp_all add: last_val_def)

definition all_before :: "(int \<times> int) list \<Rightarrow> int \<Rightarrow> bool" where
  "all_before bs p \<longleftrightarrow> (\<forall>b \<in> set bs. fst b \<le> p)"

definition all_after :: "(int \<times> int) list \<Rightarrow> int \<Rightarrow> bool" where
  "all_after bs p \<longleftrightarrow> (\<forall>b \<in> set bs. p < fst b)"

lemma all_before_simps [simp]:
  "all_before [] p" "all_before (b # bs) p \<longleftrightarrow> fst b \<le> p \<and> all_before bs p"
  "all_before (xs @ ys) p \<longleftrightarrow> all_before xs p \<and> all_before ys p"
  by (auto simp: all_before_def)

lemma all_after_simps [simp]:
  "all_after [] p" "all_after (b # bs) p \<longleftrightarrow> p < fst b \<and> all_after bs p"
  "all_after (xs @ ys) p \<longleftrightarrow> all_after xs p \<and> all_after ys p"
  by (auto simp: all_after_def)

lemma all_before_mono: "all_before bs p \<Longrightarrow> p \<le> q \<Longrightarrow> all_before bs q"
  by (force simp: all_before_def)

lemma all_after_mono: "all_after bs p \<Longrightarrow> q \<le> p \<Longrightarrow> all_after bs q"
  by (force simp: all_after_def)

lemma val_at_before: "all_before xs p \<Longrightarrow> val_at d (xs @ ys) p = val_at (last_val d xs) ys p"
  by (induction xs arbitrary: d) auto

lemma val_at_after: "all_after ys p \<Longrightarrow> val_at d ys p = d"
  by (cases ys) auto

lemma val_at_append_after: "all_after ys p \<Longrightarrow> val_at d (xs @ ys) p = val_at d xs p"
  by (induction xs arbitrary: d) (auto simp: val_at_after)

abbreviation bnds_sorted :: "(int \<times> int) list \<Rightarrow> bool" where
  "bnds_sorted bs \<equiv> sorted_wrt (\<lambda>a b. fst a < fst b) bs"

text \<open>The binary search finds the split of the sorted list at a position.\<close>

lemma find_boundary_loop_split:
  assumes "bnds_sorted (bnds c)" "low < high" "high \<le> rc_cache_len c" "BOUNDARY_POS c low \<le> pos"
    "high = rc_cache_len c \<or> pos < BOUNDARY_POS c high"
  shows "find_boundary_loop c pos low high < rc_cache_len c \<and> BOUNDARY_POS c (find_boundary_loop c pos low high) \<le> pos \<and>
    (find_boundary_loop c pos low high + 1 = rc_cache_len c \<or> pos < BOUNDARY_POS c (find_boundary_loop c pos low high + 1))"
  using assms
proof (induction c pos low high rule: find_boundary_loop.induct)
  case (1 c pos low high)
  show ?case
  proof (cases "low + 1 < high")
    case True
    define mid where "mid = low div 2 + high div 2 + (low mod 2) * (high mod 2)"
    have mid: "low < mid" "mid < high" using mid_range [OF True] by (simp_all add: mid_def)
    show ?thesis
    proof (cases "pos < BOUNDARY_POS c mid")
      case True': True
      then have "find_boundary_loop c pos low high = find_boundary_loop c pos low mid"
        using True by (subst find_boundary_loop.simps) (simp add: mid_def Let_def)
      then show ?thesis using 1(1) [OF True mid_def True'] 1(3-) mid True' by simp
    next
      case False
      then have "find_boundary_loop c pos low high = find_boundary_loop c pos mid high"
        using True by (subst find_boundary_loop.simps) (simp add: mid_def Let_def)
      then show ?thesis using 1(2) [OF True mid_def False] 1(3-) mid False by simp
    qed
  next
    case False
    then have "find_boundary_loop c pos low high = low" "high = low + 1" using 1(4) by (simp_all add: find_boundary_loop.simps)
    then show ?thesis using 1(3-) by auto
  qed
qed

text \<open>What every operation keeps: the boundaries are sorted, start at the buffer's start and stay within it.\<close>

definition rc_inv :: "region_cache \<Rightarrow> bool" where
  "rc_inv c \<longleftrightarrow> rc_wf c \<and> bnds_sorted (bnds c) \<and> fst (hd (bnds c)) = rc_buffer_beg c \<and>
     all_before (bnds c) (rc_buffer_end c)"

lemma rc_inv_nonempty: "rc_inv c \<Longrightarrow> bnds c \<noteq> []"
  by (auto simp: rc_inv_def rc_wf_def simp flip: length_0_conv)

lemma find_cache_boundary_eq:
  assumes "rc_inv c" "rc_buffer_beg c \<le> pos"
  shows "find_cache_boundary c pos + 1 = length (takeWhile (\<lambda>b. fst b \<le> pos) (bnds c))"
proof -
  let ?i = "find_cache_boundary c pos"
  have l: "0 < rc_cache_len c" and so: "bnds_sorted (bnds c)" using assms(1) by (auto simp: rc_inv_def rc_wf_def)
  have "BOUNDARY_POS c 0 \<le> pos" using assms l rc_inv_nonempty [OF assms(1)]
    by (simp add: rc_inv_def hd_conv_nth nth_bnds)
  then have f: "?i < rc_cache_len c" "BOUNDARY_POS c ?i \<le> pos" "?i + 1 = rc_cache_len c \<or> pos < BOUNDARY_POS c (?i + 1)"
    using find_boundary_loop_split [OF so l order_refl, of pos] by (auto simp: find_cache_boundary_def)
  have "takeWhile (\<lambda>b. fst b \<le> pos) (bnds c) = take (?i + 1) (bnds c)"
  proof (rule takeWhile_eq_take_P_nth)
    fix j assume j: "j < ?i + 1" "j < length (bnds c)"
    have "fst (bnds c ! j) \<le> fst (bnds c ! ?i)"
      using sorted_wrt_nth_less [OF so, of j ?i] f(1) j by (cases "j = ?i") auto
    then show "fst (bnds c ! j) \<le> pos" using f(1,2) by (simp add: nth_bnds)
  qed (use f in \<open>auto simp: nth_bnds\<close>)
  then show ?thesis using f(1) by simp
qed

lemma sorted_split:
  assumes "bnds_sorted (A @ B)" shows "b \<in> set B \<Longrightarrow> all_before A (fst b)"
  using assms by (fastforce simp: sorted_wrt_append all_before_def)

lemma takeWhile_after: "bnds_sorted bs \<Longrightarrow> all_after (dropWhile (\<lambda>b. fst b \<le> p) bs) p"
proof (induction bs)
  case (Cons b bs)
  then show ?case by (force simp: all_after_def)
qed simp

lemma takeWhile_before: "all_before (takeWhile (\<lambda>b. fst b \<le> p) bs) p"
  by (auto simp: all_before_def dest: set_takeWhileD)

text \<open>The parts of the boundary list before, inside and after a region.\<close>

lemma region_parts:
  assumes inv: "rc_inv c" and r: "rc_buffer_beg c \<le> start" "start < en"
  obtains A q v M B where "bnds c = A @ (q, v) # M @ B"
    "find_cache_boundary c start = length A" "find_cache_boundary c (en - 1) = length A + length M"
    "q \<le> start" "all_after M start" "all_before M (en - 1)" "all_after B (en - 1)"
proof -
  define P where "P = takeWhile (\<lambda>b. fst b \<le> start) (bnds c)"
  define T where "T = dropWhile (\<lambda>b. fst b \<le> start) (bnds c)"
  define M where "M = takeWhile (\<lambda>b. fst b \<le> en - 1) T"
  define B where "B = dropWhile (\<lambda>b. fst b \<le> en - 1) T"
  have so: "bnds_sorted (bnds c)" using inv by (simp add: rc_inv_def)
  have bs: "bnds c = P @ M @ B" by (simp add: P_def T_def M_def B_def)
  have "hd (bnds c) \<in> set P" using inv r rc_inv_nonempty [OF inv]
    by (cases "bnds c") (auto simp: P_def rc_inv_def)
  then have "P \<noteq> []" by auto
  then obtain A q v where P: "P = A @ [(q, v)]" by (metis append_butlast_last_id surj_pair)
  have "q \<le> start" using takeWhile_before [of start "bnds c"] P by (simp add: P_def)
  moreover have T: "all_after T start" using takeWhile_after [OF so] by (simp add: T_def)
  moreover have "all_after M start" using T unfolding M_def by (auto simp: all_after_def dest: set_takeWhileD)
  moreover have "all_before M (en - 1)" unfolding M_def by (rule takeWhile_before)
  moreover have "all_after B (en - 1)"
    unfolding B_def by (rule takeWhile_after) (use so in \<open>simp add: T_def sorted_wrt_dropWhile\<close>)
  moreover have "find_cache_boundary c start = length A"
    using find_cache_boundary_eq [OF inv r(1)] P by (simp add: P_def)
  moreover have "find_cache_boundary c (en - 1) = length A + length M"
  proof -
    have "takeWhile (\<lambda>b. fst b \<le> en - 1) (P @ T) = P @ M"
      unfolding M_def using takeWhile_before [of start "bnds c"] r(2)
      by (intro takeWhile_append2) (auto simp: P_def all_before_def)
    moreover have "bnds c = P @ T" by (simp add: P_def T_def)
    ultimately show ?thesis using find_cache_boundary_eq [OF inv, of "en - 1"] r P by simp
  qed
  ultimately show ?thesis using that bs P by simp
qed

end
