(* ===== verification/Region_Cache_Sound.thy ===== *)
theory Region_Cache_Sound
  imports Region_Cache
begin

text \<open>
  What the region cache promises its users: setting a region changes the values of exactly that region, revalidation
  forgets at most what an edit touched, and a query never claims more than was recorded for the text that is there.
\<close>

section \<open>Setting a region\<close>

text \<open>The part of the boundaries up to the start of the region, once its first boundary was seen to.\<close>

definition region_prefix :: "int \<Rightarrow> int \<Rightarrow> (int \<times> int) list \<Rightarrow> (int \<times> int) list \<Rightarrow> bool" where
  "region_prefix start v P X \<longleftrightarrow> X \<noteq> [] \<and> bnds_sorted X \<and> all_before X start \<and> last_val 0 X = v \<and>
     fst (hd X) = fst (hd P) \<and> (\<forall>d p. p < start \<longrightarrow> fst (hd P) \<le> p \<longrightarrow> val_at d X p = val_at d P p)"

lemma nth_bnds_val: "i < rc_cache_len c \<Longrightarrow> BOUNDARY_VALUE c i = snd (bnds c ! i)"
  and nth_bnds_pos: "i < rc_cache_len c \<Longrightarrow> BOUNDARY_POS c i = fst (bnds c ! i)"
  by (simp_all add: nth_bnds)

lemma set_region_start_prefix:
  assumes wf: "rc_wf c" and bs: "bnds c = A @ (q, w) # B" and so: "bnds_sorted (A @ [(q, w)])" and q: "q \<le> start"
  shows "\<exists>X c'. set_region_start (length A) start v c = (length X - 1, c') \<and> rc_wf c' \<and> same_basis c' c \<and>
    bnds c' = X @ B \<and> region_prefix start v (A @ [(q, w)]) X"
proof -
  have len: "rc_cache_len c = length A + 1 + length B" using bs length_bnds [of c] by simp
  have pos: "BOUNDARY_POS c (length A) = q" and val: "BOUNDARY_VALUE c (length A) = w"
    using bs len by (simp_all add: nth_bnds_pos nth_bnds_val)
  have Aq: "all_before A q" and sA: "bnds_sorted A"
    using so by (auto simp: sorted_wrt_append all_before_def less_imp_le)
  consider (del) "q = start" "A \<noteq> []" "snd (last A) = v" | (set) "q = start" "A = [] \<or> snd (last A) \<noteq> v"
    | (ins) "q < start" "w \<noteq> v" | (keep) "q < start" "w = v" using q by linarith
  then show ?thesis
  proof cases
    case del
    have "BOUNDARY_VALUE c (length A - 1) = v"
      using del bs len by (simp add: nth_bnds_val nth_append last_conv_nth)
    then have r: "set_region_start (length A) start v c = (length A - 1, delete_cache_boundaries (length A) (length A + 1) c)"
      using del pos by (simp add: set_region_start_def)
    have "region_prefix start v (A @ [(q, w)]) A"
      using del Aq sA by (simp add: region_prefix_def last_val_def val_at_append_after)
    then show ?thesis using r delete_cache_boundaries_bnds [OF wf, of "length A" "length A + 1"] del len bs by auto
  next
    case set
    have nv: "\<not> (length A > 0 \<and> BOUNDARY_VALUE c (length A - 1) = v)"
      using set bs len by (auto simp: nth_bnds_val nth_append last_conv_nth)
    have r: "set_region_start (length A) start v c = (length A, SET_BOUNDARY_VALUE (length A) v c)"
      using set pos nv by (auto simp: set_region_start_def)
    have "region_prefix start v (A @ [(q, w)]) (A @ [(q, v)])"
    proof -
      have "val_at d (A @ [(q, v)]) p = val_at d (A @ [(q, w)]) p" if "p < q" for d p
        using that by (simp add: val_at_append_after)
      moreover have "fst (hd (A @ [(q, v)])) = fst (hd (A @ [(q, w)]))" by (cases A) auto
      ultimately show ?thesis using set so Aq by (simp add: region_prefix_def sorted_wrt_append)
    qed
    moreover have "bnds (SET_BOUNDARY_VALUE (length A) v c) = (A @ [(q, v)]) @ B"
      using SET_BOUNDARY_VALUE_bnds [OF wf, of "length A" v] len bs by simp
    ultimately show ?thesis using r SET_BOUNDARY_VALUE_bnds [OF wf, of "length A" v] len
      by (intro exI [of _ "A @ [(q, v)]"]) auto
  next
    case ins
    have r: "set_region_start (length A) start v c = (length A + 1, insert_cache_boundary (length A + 1) start v c)"
      using ins pos val by (simp add: set_region_start_def)
    have "region_prefix start v (A @ [(q, w)]) (A @ [(q, w), (start, v)])"
    proof -
      have "val_at d (A @ [(q, w), (start, v)]) p = val_at d (A @ [(q, w)]) p" if "p < start" for d p
        using that val_at_append_after [of "[(start, v)]" p d "A @ [(q, w)]"] by simp
      moreover have "fst (hd (A @ [(q, w), (start, v)])) = fst (hd (A @ [(q, w)]))" by (cases A) auto
      moreover have "bnds_sorted (A @ [(q, w), (start, v)])"
        using so ins Aq by (auto simp: sorted_wrt_append all_before_def)
      ultimately show ?thesis using ins all_before_mono [OF Aq, of start] by (simp add: region_prefix_def last_val_def)
    qed
    moreover have "bnds (insert_cache_boundary (length A + 1) start v c) = (A @ [(q, w), (start, v)]) @ B"
      using insert_cache_boundary_bnds(1) [OF wf, of "length A + 1" start v] len bs by simp
    ultimately show ?thesis using r insert_cache_boundary_bnds(2,3) [OF wf, of "length A + 1" start v] len
      by (intro exI [of _ "A @ [(q, w), (start, v)]"]) auto
  next
    case keep
    have r: "set_region_start (length A) start v c = (length A, c)"
      using keep pos val by (simp add: set_region_start_def)
    have "region_prefix start v (A @ [(q, w)]) (A @ [(q, w)])"
      using keep so Aq all_before_mono [OF Aq, of start] by (simp add: region_prefix_def)
    then show ?thesis using r wf bs by (intro exI [of _ "A @ [(q, w)]"]) auto
  qed
qed

text \<open>The boundaries from the end of the region on.\<close>

lemma set_region_end_suffix:
  assumes wf: "rc_wf c" and bs: "bnds c = X @ B" and X: "X \<noteq> []" and B: "all_after B (en - 1)" "bnds_sorted B"
    "all_before B (rc_buffer_end c)" and en: "en \<le> rc_buffer_end c"
  shows "\<exists>Y c'. set_region_end (length X) en v w c = c' \<and> rc_wf c' \<and> same_basis c' c \<and> bnds c' = X @ Y \<and>
    bnds_sorted Y \<and> all_after Y (en - 1) \<and> all_before Y (rc_buffer_end c) \<and>
    (\<forall>p. en \<le> p \<longrightarrow> p < rc_buffer_end c \<longrightarrow> val_at v Y p = val_at w B p)"
proof -
  have len: "rc_cache_len c = length X + length B" using bs length_bnds [of c] by simp
  have hdB: "BOUNDARY_POS c (length X) = fst b \<and> BOUNDARY_VALUE c (length X) = snd b" if "B = b # B'" for b B'
    using bs len that by (simp add: nth_bnds_pos nth_bnds_val)
  consider (eob) "en = rc_buffer_end c" | (gap) "en < rc_buffer_end c" "B = [] \<or> en < fst (hd B)"
    | (at) b B' where "en < rc_buffer_end c" "B = b # B'" "fst b = en"
    using en B(1) by (cases B) fastforce+
  then show ?thesis
  proof cases
    case eob
    then have "set_region_end (length X) en v w c = c" by (simp add: set_region_end_def)
    then show ?thesis using wf bs B eob by auto
  next
    case gap
    then have ge: "length X \<ge> rc_cache_len c \<or> en < BOUNDARY_POS c (length X)"
      using hdB len by (cases B) auto
    have aB: "all_after B en" using gap B(2) by (cases B) (force simp: all_after_def)+
    show ?thesis
    proof (cases "w = v")
      case True
      then have "set_region_end (length X) en v w c = c" using ge gap by (simp add: set_region_end_def)
      then show ?thesis using wf bs B True by auto
    next
      case False
      then have r: "set_region_end (length X) en v w c = insert_cache_boundary (length X) en w c"
        using ge gap by (simp add: set_region_end_def)
      note i = insert_cache_boundary_bnds [OF wf, of "length X" en w]
      have "bnds (insert_cache_boundary (length X) en w c) = X @ (en, w) # B" using i(1) X len bs by simp
      then show ?thesis using r i X len B gap aB
        by (intro exI [of _ "(en, w) # B"]) (auto simp: all_after_def)
    qed
  next
    case at
    note h = hdB [OF at(2)]
    show ?thesis
    proof (cases "v = snd b")
      case True
      have r: "set_region_end (length X) en v w c = delete_cache_boundaries (length X) (length X + 1) c"
        using at h len True by (simp add: set_region_end_def)
      note d = delete_cache_boundaries_bnds [OF wf, of "length X" "length X + 1"]
      have "bnds (delete_cache_boundaries (length X) (length X + 1) c) = X @ B'" using d X len bs at by simp
      moreover have "val_at v B' p = val_at w B p" if "en \<le> p" for p using at True that by (cases b) auto
      ultimately show ?thesis using r d X len B at by (intro exI [of _ B']) auto
    next
      case False
      then have r: "set_region_end (length X) en v w c = c" using at h len by (auto simp: set_region_end_def)
      have "val_at v B p = val_at w B p" if "en \<le> p" for p using at that by (cases b) auto
      then show ?thesis using r wf bs B by auto
    qed
  qed
qed

lemma set_cache_region_shape:
  assumes inv: "rc_inv c" and r: "rc_buffer_beg c \<le> start" "start < en" "en \<le> rc_buffer_end c"
  shows "\<exists>P M B X Y. bnds c = P @ M @ B \<and> P \<noteq> [] \<and> all_before P start \<and> all_after M start \<and> all_before M (en - 1) \<and>
    all_after B (en - 1) \<and> bnds (set_cache_region start en v c) = X @ Y \<and> rc_wf (set_cache_region start en v c) \<and>
    same_basis (set_cache_region start en v c) c \<and> region_prefix start v P X \<and>
    bnds_sorted Y \<and> all_after Y (en - 1) \<and> all_before Y (rc_buffer_end c) \<and>
    (\<forall>p. en \<le> p \<longrightarrow> p < rc_buffer_end c \<longrightarrow> val_at v Y p = val_at (last_val 0 (P @ M)) B p)"
proof -
  obtain A q w M B where bs: "bnds c = A @ (q, w) # M @ B"
    and fs: "find_cache_boundary c start = length A" "find_cache_boundary c (en - 1) = length A + length M"
    and q: "q \<le> start" and M: "all_after M start" "all_before M (en - 1)" and B: "all_after B (en - 1)"
    using region_parts [OF inv r(1,2)] by metis
  define P where "P = A @ [(q, w)]"
  have wf: "rc_wf c" and so: "bnds_sorted (P @ M @ B)" and be: "all_before (bnds c) (rc_buffer_end c)"
    using inv bs by (simp_all add: rc_inv_def P_def)
  have len: "rc_cache_len c = length A + 1 + length M + length B" using bs length_bnds [of c] by simp
  define w' where "w' = BOUNDARY_VALUE c (length A + length M)"
  have w': "w' = last_val 0 (P @ M)"
    using len bs by (cases M rule: rev_cases) (simp_all add: w'_def nth_bnds_val P_def last_val_def nth_append)
  define c1 where "c1 = delete_cache_boundaries (length A + 1) (length A + length M + 1) c"
  have "bnds c1 = A @ (q, w) # B \<and> rc_wf c1 \<and> same_basis c1 c"
    using delete_cache_boundaries_bnds [OF wf, of "length A + 1" "length A + length M + 1"] len bs by (simp add: c1_def)
  then have c1: "rc_wf c1" "bnds c1 = A @ (q, w) # B" "same_basis c1 c" by auto
  have soP: "bnds_sorted (A @ [(q, w)])" and soB: "bnds_sorted B" using so by (simp_all add: sorted_wrt_append P_def)
  obtain X c2 where X: "set_region_start (length A) start v c1 = (length X - 1, c2)" "rc_wf c2" "same_basis c2 c1"
      "bnds c2 = X @ B" "region_prefix start v P X"
    using set_region_start_prefix [OF c1(1,2) soP q, of v] by (auto simp: P_def)
  have X0: "X \<noteq> []" using X(5) by (simp add: region_prefix_def)
  have basis: "rc_buffer_end c2 = rc_buffer_end c" using X(3) c1(3) by (simp add: same_basis_def)
  have "all_before B (rc_buffer_end c2)" "en \<le> rc_buffer_end c2" using be bs r(3) by (simp_all add: basis)
  then obtain Y c3 where Y: "set_region_end (length X) en v w' c2 = c3" "rc_wf c3" "same_basis c3 c2" "bnds c3 = X @ Y"
      "bnds_sorted Y" "all_after Y (en - 1)" "all_before Y (rc_buffer_end c)"
      "\<forall>p. en \<le> p \<longrightarrow> p < rc_buffer_end c \<longrightarrow> val_at v Y p = val_at w' B p"
    using set_region_end_suffix [OF X(2,4) X0 B soB, of v w'] by (auto simp: basis)
  have "set_cache_region start en v c = c3"
    using r(2) fs X(1) Y(1) X0 by (simp add: set_cache_region_def Let_def c1_def w'_def)
  moreover have "same_basis c3 c" using Y(3) X(3) c1(3) same_basis_trans by blast
  moreover have "all_before P start"
    using soP q all_before_mono [of A q start] by (auto simp: P_def sorted_wrt_append all_before_def)
  moreover have "bnds c = P @ M @ B" "P \<noteq> []" using bs by (simp_all add: P_def)
  ultimately show ?thesis using M B X(5) Y w' by metis
qed

lemma set_cache_region_spec:
  assumes inv: "rc_inv c" and r: "rc_buffer_beg c \<le> start" "start \<le> en" "en \<le> rc_buffer_end c"
  shows "rc_inv (set_cache_region start en v c)" and "same_basis (set_cache_region start en v c) c"
    and "rc_buffer_beg c \<le> p \<Longrightarrow> p < rc_buffer_end c \<Longrightarrow>
      val_at d (bnds (set_cache_region start en v c)) p = (if start \<le> p \<and> p < en then v else val_at d (bnds c) p)"
    and "start < en \<Longrightarrow> b \<in> set (bnds (set_cache_region start en v c)) \<Longrightarrow> fst b \<le> start \<or> en \<le> fst b"
proof -
  have all: "rc_inv (set_cache_region start en v c) \<and> same_basis (set_cache_region start en v c) c \<and>
    (\<forall>p d. rc_buffer_beg c \<le> p \<longrightarrow> p < rc_buffer_end c \<longrightarrow>
      val_at d (bnds (set_cache_region start en v c)) p = (if start \<le> p \<and> p < en then v else val_at d (bnds c) p)) \<and>
    (\<forall>b \<in> set (bnds (set_cache_region start en v c)). start < en \<longrightarrow> fst b \<le> start \<or> en \<le> fst b)"
  proof (cases "start = en")
    case True
    then show ?thesis using inv by (simp add: set_cache_region_def)
  next
    case False
    then have lt: "start < en" using r by simp
    define c' where "c' = set_cache_region start en v c"
    obtain P M B X Y where *: "bnds c = P @ M @ B" "P \<noteq> []" "all_before P start" "all_after M start"
      "all_before M (en - 1)" "all_after B (en - 1)" "bnds c' = X @ Y" "rc_wf c'" "same_basis c' c" "region_prefix start v P X"
      "bnds_sorted Y" "all_after Y (en - 1)" "all_before Y (rc_buffer_end c)"
      "\<And>p. en \<le> p \<Longrightarrow> p < rc_buffer_end c \<Longrightarrow> val_at v Y p = val_at (last_val 0 (P @ M)) B p"
      using set_cache_region_shape [OF inv r(1) lt r(3), of v] unfolding c'_def by metis
    have X: "X \<noteq> []" "bnds_sorted X" "all_before X start" "last_val 0 X = v" "fst (hd X) = fst (hd P)"
      "\<And>d p. p < start \<Longrightarrow> fst (hd P) \<le> p \<Longrightarrow> val_at d X p = val_at d P p"
      using *(10) by (auto simp: region_prefix_def)
    have hdP: "fst (hd P) = rc_buffer_beg c" using inv *(1,2) by (simp add: rc_inv_def)
    have lv: "last_val d Z = last_val 0 Z" if "Z \<noteq> []" for d Z using that by (simp add: last_val_def)
    have "bnds_sorted (X @ Y)"
      using X(2,3) *(11,12) lt by (fastforce simp: sorted_wrt_append all_before_def all_after_def)
    moreover have "all_before (X @ Y) (rc_buffer_end c)" using X(3) *(13) all_before_mono lt r(3) by fastforce
    ultimately have "rc_inv c'" using *(7,8,9) X(1,5) hdP by (simp add: rc_inv_def same_basis_def)
    moreover have "val_at d (X @ Y) p = (if start \<le> p \<and> p < en then v else val_at d (P @ M @ B) p)"
      if p: "rc_buffer_beg c \<le> p" "p < rc_buffer_end c" for d p
    proof -
      consider "p < start" | "start \<le> p" "p < en" | "en \<le> p" by linarith
      then show ?thesis
      proof cases
        case 1
        have "all_after Y p" "all_after (M @ B) p" using 1 lt *(4,6,12) all_after_mono by fastforce+
        then show ?thesis using 1 X(6) hdP p val_at_append_after by simp
      next
        case 2
        have "all_before X p" "all_after Y p" using 2 X(3) *(12) all_before_mono all_after_mono by fastforce+
        then show ?thesis using 2 X(1,4) lv [of X d] by (simp add: val_at_before val_at_after)
      next
        case 3
        have "all_before X p" "all_before (P @ M) p" using 3 lt X(3) *(3,5) all_before_mono by fastforce+
        then have "val_at d (X @ Y) p = val_at v Y p" "val_at d ((P @ M) @ B) p = val_at (last_val 0 (P @ M)) B p"
          using val_at_before [of X p d Y] val_at_before [of "P @ M" p d B] X(1,4) *(2) lv [of X d] lv [of "P @ M" d]
          by simp_all
        then show ?thesis using 3 *(14) p by simp
      qed
    qed
    moreover have "fst b \<le> start \<or> en \<le> fst b" if "b \<in> set (X @ Y)" for b
      using that X(3) *(12) by (auto simp: all_before_def all_after_def)
    ultimately show ?thesis unfolding c'_def [symmetric] *(1,7) using *(9) by blast
  qed
  show "rc_inv (set_cache_region start en v c)" "same_basis (set_cache_region start en v c) c" using all by blast+
  show "val_at d (bnds (set_cache_region start en v c)) p = (if start \<le> p \<and> p < en then v else val_at d (bnds c) p)"
    if "rc_buffer_beg c \<le> p" "p < rc_buffer_end c" using all that by blast
  show "fst b \<le> start \<or> en \<le> fst b" if "start < en" "b \<in> set (bnds (set_cache_region start en v c))" using all that by blast
qed

section \<open>Changing the basis\<close>

definition shift_bnds :: "int \<Rightarrow> (int \<times> int) list \<Rightarrow> (int \<times> int) list" where
  "shift_bnds \<delta> bs = map (\<lambda>b. (fst b + \<delta>, snd b)) bs"

lemma shift_bnds_simps [simp]:
  "shift_bnds \<delta> [] = []" "shift_bnds \<delta> (b # bs) = (fst b + \<delta>, snd b) # shift_bnds \<delta> bs"
  "shift_bnds \<delta> bs = [] \<longleftrightarrow> bs = []" "length (shift_bnds \<delta> bs) = length bs"
  "bnds_sorted (shift_bnds \<delta> bs) \<longleftrightarrow> bnds_sorted bs"
  "all_after (shift_bnds \<delta> bs) p \<longleftrightarrow> all_after bs (p - \<delta>)" "all_before (shift_bnds \<delta> bs) p \<longleftrightarrow> all_before bs (p - \<delta>)"
  by (auto simp: shift_bnds_def sorted_wrt_map all_after_def all_before_def algebra_simps)

lemma val_at_shift [simp]: "val_at d (shift_bnds \<delta> bs) p = val_at d bs (p - \<delta>)"
  by (induction bs arbitrary: d) (auto simp: algebra_simps)

lemma rebase_bnds:
  assumes "rc_wf c" "rc_buffer_beg c = BEG"
  shows "bnds (c\<lparr>rc_buffer_beg := BEG, rc_buffer_end := z\<rparr>) =
    take (rc_gap_start c) (bnds c) @ shift_bnds (z - rc_buffer_end c) (drop (rc_gap_start c) (bnds c))"
proof (rule bnds_eqI)
  let ?c = "c\<lparr>rc_buffer_beg := BEG, rc_buffer_end := z\<rparr>"
  let ?l = "take (rc_gap_start c) (bnds c) @ shift_bnds (z - rc_buffer_end c) (drop (rc_gap_start c) (bnds c))"
  show "length ?l = rc_cache_len ?c" using assms by (simp add: rc_wf_def)
  fix i assume i: "i < rc_cache_len ?c"
  show "BOUNDARY_POS ?c i = fst (?l ! i) \<and> BOUNDARY_VALUE ?c i = snd (?l ! i)"
  proof (cases "i < rc_gap_start c")
    case True
    then show ?thesis using assms i by (simp add: nth_append nth_bnds BOUNDARY_POS_def BOUNDARY_VALUE_def)
  next
    case False
    have "drop (rc_gap_start c) (bnds c) ! (i - rc_gap_start c) = bnds c ! i"
      using False i assms(1) by (subst nth_drop) (simp_all add: rc_wf_def)
    then have "?l ! i = (fst (bnds c ! i) + (z - rc_buffer_end c), snd (bnds c ! i))"
      using False assms i by (simp add: nth_append shift_bnds_def rc_wf_def)
    then show ?thesis using False i by (simp add: nth_bnds BOUNDARY_POS_def BOUNDARY_VALUE_def)
  qed
qed

text \<open>Moving the gap behind the boundary at a position and changing the basis there.\<close>

lemma move_and_rebase:
  fixes z :: int
  assumes inv: "rc_inv c" and b: "rc_buffer_beg c = BEG" "BEG \<le> p"
  defines "c' \<equiv> (move_cache_gap (find_cache_boundary c p + 1) 0 c)\<lparr>rc_buffer_beg := BEG, rc_buffer_end := z\<rparr>"
  shows "\<exists>P T. bnds c = P @ T \<and> P \<noteq> [] \<and> all_before P p \<and> all_after T p \<and> length P = find_cache_boundary c p + 1 \<and>
    bnds c' = P @ shift_bnds (z - rc_buffer_end c) T \<and> rc_wf c' \<and> rc_buffer_beg c' = BEG \<and> rc_buffer_end c' = z \<and>
    rc_beg_unchanged c' = rc_beg_unchanged c \<and> rc_end_unchanged c' = rc_end_unchanged c"
proof -
  define P where "P = takeWhile (\<lambda>b. fst b \<le> p) (bnds c)"
  define T where "T = dropWhile (\<lambda>b. fst b \<le> p) (bnds c)"
  have so: "bnds_sorted (bnds c)" and wf: "rc_wf c" using inv by (simp_all add: rc_inv_def)
  have bs: "bnds c = P @ T" by (simp add: P_def T_def)
  have k: "find_cache_boundary c p + 1 = length P"
    using find_cache_boundary_eq [OF inv, of p] b by (simp add: P_def)
  have le: "length P \<le> rc_cache_len c" using bs length_bnds [of c] by simp
  have P0: "0 < length P" using k by linarith
  define d where "d = move_cache_gap (length P) 0 c"
  note m = move_cache_gap_bnds [OF wf _ P0 le, of 0, folded d_def, simplified]
  have "bnds (d\<lparr>rc_buffer_beg := BEG, rc_buffer_end := z\<rparr>) = P @ shift_bnds (z - rc_buffer_end c) T"
    using rebase_bnds [OF m(2), of z] m bs b by (simp add: same_basis_def)
  moreover have "all_before P p" "all_after T p" using takeWhile_before takeWhile_after [OF so] by (simp_all add: P_def T_def)
  moreover have "rc_wf (d\<lparr>rc_buffer_beg := BEG, rc_buffer_end := z\<rparr>)" using m(2) by (simp add: rc_wf_def)
  ultimately show ?thesis
    using m(3) bs P0 k unfolding c'_def k d_def [symmetric] by (intro exI [of _ P] exI [of _ T]) (simp add: same_basis_def)
qed

section \<open>Revalidation\<close>

text \<open>The list the two boundaries at a seam collapse to.\<close>

definition collapse_list :: "(int \<times> int) list \<Rightarrow> (int \<times> int) list \<Rightarrow> (int \<times> int) list" where
  "collapse_list P T =
     (if T \<noteq> [] \<and> fst (last P) = fst (hd T) then
        if butlast P \<noteq> [] \<and> snd (hd T) = snd (last (butlast P)) then butlast P @ tl T
        else butlast P @ [(fst (last P), snd (hd T))] @ tl T
      else P @ T)"

lemma collapse_boundaries_bnds:
  assumes wf: "rc_wf c" and bs: "bnds c = P @ T" and P: "P \<noteq> []"
  shows "bnds (collapse_boundaries (length P) c) = collapse_list P T \<and> rc_wf (collapse_boundaries (length P) c) \<and>
    same_basis (collapse_boundaries (length P) c) c"
proof -
  obtain A a where A: "P = A @ [a]" using P by (metis append_butlast_last_id)
  have len: "rc_cache_len c = length A + 1 + length T" using bs A length_bnds [of c] by simp
  have pa: "BOUNDARY_POS c (length A) = fst a" using len bs A by (simp add: nth_bnds_pos)
  show ?thesis
  proof (cases T)
    case Nil
    then show ?thesis using A len wf bs by (simp add: collapse_boundaries_def collapse_list_def)
  next
    case (Cons t T')
    have pt: "BOUNDARY_POS c (length P) = fst t" "BOUNDARY_VALUE c (length P) = snd t"
      using len bs A Cons by (simp_all add: nth_bnds_pos nth_bnds_val nth_append)
    have lt: "length P < rc_cache_len c" using A len Cons by simp
    consider "fst a \<noteq> fst t" | "fst a = fst t" "A \<noteq> [] \<and> snd t = snd (last A)" | "fst a = fst t" "A = [] \<or> snd t \<noteq> snd (last A)"
      by blast
    then show ?thesis
    proof cases
      case 1
      then show ?thesis using wf bs A Cons pa pt by (simp add: collapse_boundaries_def collapse_list_def)
    next
      case 2
      then have "BOUNDARY_VALUE c (length P - 2) = snd (last A)"
        using A len bs by (simp add: nth_bnds_val nth_append last_conv_nth)
      then have r: "collapse_boundaries (length P) c = delete_cache_boundaries (length P - 1) (length P + 1) c"
        using 2 A pa pt lt by (simp add: collapse_boundaries_def Let_def)
      show ?thesis unfolding r
        using delete_cache_boundaries_bnds [OF wf, of "length P - 1" "length P + 1"] 2 A Cons len bs
        by (simp add: collapse_list_def)
    next
      case 3
      then have nd: "\<not> (length P - 1 > 0 \<and> snd t = BOUNDARY_VALUE c (length P - 2))"
        using A len bs by (auto simp: nth_bnds_val nth_append last_conv_nth)
      define d where "d = SET_BOUNDARY_VALUE (length A) (snd t) c"
      have r: "collapse_boundaries (length P) c = delete_cache_boundaries (length P) (length P + 1) d"
        using 3 A pa pt lt nd by (auto simp: collapse_boundaries_def Let_def d_def)
      have d: "bnds d = A @ (fst a, snd t) # T" "rc_wf d" "same_basis d c"
        using SET_BOUNDARY_VALUE_bnds [OF wf, of "length A" "snd t"] len bs A by (simp_all add: d_def)
      have "rc_cache_len d = rc_cache_len c" by (simp add: d_def SET_BOUNDARY_VALUE_def Let_def)
      then have "bnds (delete_cache_boundaries (length P) (length P + 1) d) = A @ (fst a, snd t) # T' \<and>
          rc_wf (delete_cache_boundaries (length P) (length P + 1) d) \<and>
          same_basis (delete_cache_boundaries (length P) (length P + 1) d) d"
        using delete_cache_boundaries_bnds [OF d(2), of "length P" "length P + 1"] d(1) A Cons len by simp
      then show ?thesis unfolding r using 3 A Cons d(3) same_basis_trans by (auto simp: collapse_list_def)
    qed
  qed
qed

lemma collapse_list_spec:
  assumes P: "P \<noteq> []" "bnds_sorted P" "all_before P b" and T: "bnds_sorted T" "all_after T (e - 1)" and be: "b \<le> e"
  shows "bnds_sorted (collapse_list P T)" and "fst (hd (collapse_list P T)) = fst (hd P)"
    and "set (map fst (collapse_list P T)) \<subseteq> set (map fst (P @ T))"
    and "p < b \<Longrightarrow> val_at d (collapse_list P T) p = val_at d P p"
    and "b \<le> p \<Longrightarrow> p < e \<Longrightarrow> val_at d (collapse_list P T) p = last_val d P"
    and "e \<le> p \<Longrightarrow> val_at d (collapse_list P T) p = val_at (last_val d P) T p"
proof -
  obtain A a where A: "P = A @ [a]" using P by (metis append_butlast_last_id)
  have aA: "all_before A (fst a)" "bnds_sorted A" "fst a \<le> b" using P A by (auto simp: sorted_wrt_append all_before_def less_imp_le)
  have all: "bnds_sorted (collapse_list P T) \<and> fst (hd (collapse_list P T)) = fst (hd P) \<and>
    set (map fst (collapse_list P T)) \<subseteq> set (map fst (P @ T)) \<and>
    (\<forall>d p. p < b \<longrightarrow> val_at d (collapse_list P T) p = val_at d P p) \<and>
    (\<forall>d p. b \<le> p \<longrightarrow> p < e \<longrightarrow> val_at d (collapse_list P T) p = last_val d P) \<and>
    (\<forall>d p. e \<le> p \<longrightarrow> val_at d (collapse_list P T) p = val_at (last_val d P) T p)"
  proof (cases "T \<noteq> [] \<and> fst a = fst (hd T)")
    case False
    then have eq: "collapse_list P T = P @ T" by (auto simp: collapse_list_def A)
    have "bnds_sorted (P @ T)"
    proof -
      have "fst x < fst y" if "x \<in> set P" "y \<in> set T" for x y
      proof -
        have "T \<noteq> []" using that(2) by auto
        then obtain t T' where t: "T = t # T'" by (cases T) auto
        have "fst x \<le> fst a" using that(1) A aA(1) by (auto simp: all_before_def)
        moreover have "fst a < fst t" using False t T(2) aA(3) be by auto
        moreover have "fst t \<le> fst y" using that(2) t T(1) by auto
        ultimately show ?thesis by linarith
      qed
      then show ?thesis using P(2) T(1) by (simp add: sorted_wrt_append)
    qed
    moreover have "val_at d (P @ T) p = val_at d P p" if "p < e" for d p
      using T(2) that by (intro val_at_append_after all_after_mono [of T "e - 1" p]) auto
    moreover have "val_at d (P @ T) p = val_at (last_val d P) T p" if "b \<le> p" for d p
      using P(3) that all_before_mono val_at_before by blast
    moreover have "val_at d P p = last_val d P" if "b \<le> p" for d p
      using P(3) that all_before_mono val_at_before [of P p d "[]"] by simp
    ultimately show ?thesis unfolding eq using P(1) be by auto
  next
    case True
    then obtain t T' where t: "T = t # T'" "fst a = fst t" by (cases T) auto
    then have e: "b = e" "fst a = b" using T(2) aA(3) be by auto
    have T': "all_after T' b" "bnds_sorted T'" using T(1) t e by (auto simp: all_after_def)
    have A': "all_before A b" using aA(1) e by simp
    have sA: "bnds_sorted (A @ T')" using aA T' A' t e P(2) A
      by (fastforce simp: sorted_wrt_append all_before_def all_after_def)
    have v: "val_at d (A @ a # T') p = val_at d (A @ [a]) p" if "p < b" for d p a
      using that T'(1) all_after_mono [OF T'(1), of p] val_at_append_after [of T' p d "A @ [a]"] by simp
    have lo: "val_at d A p = val_at d (A @ [a]) p" if "p < b" for d p
      using that e by (intro val_at_append_after [symmetric]) simp
    show ?thesis
    proof (cases "A \<noteq> [] \<and> snd t = snd (last A)")
      case True
      then have eq: "collapse_list P T = A @ T'" using t A by (simp add: collapse_list_def)
      have "val_at d (A @ T') p = val_at d (A @ [a]) p" if "p < b" for d p
        using that lo T'(1) all_after_mono [OF T'(1), of p] val_at_append_after [of T' p d A] by simp
      moreover have "val_at d (A @ T') p = val_at (last_val d (A @ [a])) T p" if "b \<le> p" for d p
        using that True t e val_at_before [of A p d T'] all_before_mono [OF A'] by (cases t) (simp add: last_val_def)
      ultimately show ?thesis unfolding eq using sA True A t e by auto
    next
      case False
      then have eq: "collapse_list P T = A @ (fst a, snd t) # T'" using t A by (auto simp: collapse_list_def)
      have "bnds_sorted (A @ (fst a, snd t) # T')"
        using sA aA(1) P(2) A t T by (auto simp: sorted_wrt_append)
      moreover have "val_at d (A @ (fst a, snd t) # T') p = val_at d (A @ [a]) p" if "p < b" for d p
        using v [OF that] lo [OF that] val_at_append_after [of "[(fst a, snd t)]" p d A] e that by simp
      moreover have "val_at d (A @ (fst a, snd t) # T') p = val_at (last_val d (A @ [a])) T p" if "b \<le> p" for d p
        using that t e val_at_before [of A p d "(fst a, snd t) # T'"] all_before_mono [OF A'] by (cases t) simp
      moreover have "fst (hd (A @ (fst a, snd t) # T')) = fst (hd P)" by (cases A) (simp_all add: A)
      ultimately show ?thesis unfolding eq using A t e by auto
    qed
  qed
  show "bnds_sorted (collapse_list P T)" "fst (hd (collapse_list P T)) = fst (hd P)"
    "set (map fst (collapse_list P T)) \<subseteq> set (map fst (P @ T))" using all by blast+
  show "val_at d (collapse_list P T) p = val_at d P p" if "p < b" using all that by blast
  show "val_at d (collapse_list P T) p = last_val d P" if "b \<le> p" "p < e" using all that by blast
  show "val_at d (collapse_list P T) p = val_at (last_val d P) T p" if "e \<le> p" using all that by blast
qed

text \<open>
  A repaired cache for a buffer that ends at \<open>z\<close>: the head and the tail keep their values, counted from their own
  ends, and what lies between has the value 0.
\<close>

definition repaired :: "int \<Rightarrow> region_cache \<Rightarrow> region_cache \<Rightarrow> bool" where
  "repaired z c r \<longleftrightarrow> rc_inv r \<and> rc_buffer_beg r = BEG \<and> rc_buffer_end r = z \<and>
     (\<forall>d p. BEG \<le> p \<longrightarrow> p < z \<longrightarrow> val_at d (bnds r) p =
        (if p < BEG + rc_beg_unchanged c then val_at d (bnds c) p
         else if p < z - rc_end_unchanged c then 0
         else val_at d (bnds c) (p - z + rc_buffer_end c)))"

text \<open>The cache and the buffer agree on a head and a tail that do not overlap in either.\<close>

definition stale :: "int \<Rightarrow> region_cache \<Rightarrow> bool" where
  "stale z c \<longleftrightarrow> rc_inv c \<and> rc_buffer_beg c = BEG \<and> 0 \<le> rc_beg_unchanged c \<and> 0 \<le> rc_end_unchanged c \<and>
     BEG + rc_beg_unchanged c \<le> rc_buffer_end c - rc_end_unchanged c \<and> BEG + rc_beg_unchanged c \<le> z - rc_end_unchanged c"

lemma revalidate_empty:
  assumes st: "stale z c" and eq: "BEG + rc_beg_unchanged c = rc_buffer_end c - rc_end_unchanged c"
  defines "c1 \<equiv> (move_cache_gap (find_cache_boundary c (BEG + rc_beg_unchanged c) + 1) 0 c)\<lparr>rc_buffer_beg := BEG, rc_buffer_end := z\<rparr>"
  shows "repaired z c (set_cache_region (BEG + rc_beg_unchanged c) (z - rc_end_unchanged c) 0 c1)"
proof -
  let ?b = "BEG + rc_beg_unchanged c" and ?e = "z - rc_end_unchanged c" and ?\<delta> = "z - rc_buffer_end c"
  have inv: "rc_inv c" and bb: "rc_buffer_beg c = BEG" "BEG \<le> ?b" using st by (simp_all add: stale_def)
  obtain P T where PT: "bnds c = P @ T" "P \<noteq> []" "all_before P ?b" "all_after T ?b" "bnds c1 = P @ shift_bnds ?\<delta> T" "rc_wf c1"
      "rc_buffer_beg c1 = BEG" "rc_buffer_end c1 = z"
    using move_and_rebase [OF inv bb, of z] unfolding c1_def by metis
  have de: "?b + ?\<delta> = ?e" "0 \<le> ?\<delta>" "?e \<le> z" "?b \<le> z" using eq st by (auto simp: stale_def)
  have "?e - ?\<delta> = ?b" using de(1) by linarith
  then have aT: "all_after (shift_bnds ?\<delta> T) ?e" using PT(4) by (simp only: shift_bnds_simps)
  have so: "bnds_sorted P" "bnds_sorted T" "all_before T (rc_buffer_end c)"
    using inv PT(1) by (simp_all add: rc_inv_def sorted_wrt_append)
  have "bnds_sorted (P @ shift_bnds ?\<delta> T)"
    unfolding sorted_wrt_append using so PT(3) aT de by (fastforce simp: all_before_def all_after_def simp del: shift_bnds_simps(6,7))
  moreover have "all_before (P @ shift_bnds ?\<delta> T) z" using so(3) all_before_mono [OF PT(3) de(4)] by simp
  moreover have "fst (hd P) = BEG" using inv PT(1,2) bb by (simp add: rc_inv_def)
  ultimately have inv1: "rc_inv c1" using PT by (simp add: rc_inv_def)
  have bounds: "rc_buffer_beg c1 \<le> ?b" "?b \<le> ?e" "?e \<le> rc_buffer_end c1" using PT(7,8) bb(2) de by simp_all
  note sp = set_cache_region_spec [OF inv1 bounds, where v = 0]
  have "val_at d (bnds c1) p = val_at d (bnds c) p" if "p < ?b" for p d
    using that PT(1,4,5) all_after_mono [OF aT, of p] all_after_mono [OF PT(4), of p] de
    by (simp add: val_at_append_after del: shift_bnds_simps(6,7))
  moreover have "val_at d (bnds c1) p = val_at d (bnds c) (p - ?\<delta>)" if "?e \<le> p" for p d
  proof -
    have "all_before P p" "all_before P (p - ?\<delta>)" using that de all_before_mono [OF PT(3)] by auto
    then show ?thesis using PT(1,5) by (simp add: val_at_before)
  qed
  ultimately show ?thesis
    unfolding repaired_def using sp PT(7,8) de by (auto simp: same_basis_def algebra_simps)
qed

lemma revalidate_changed:
  assumes st: "stale z c" and lt: "BEG + rc_beg_unchanged c < rc_buffer_end c - rc_end_unchanged c"
  defines "c1 \<equiv> set_cache_region (BEG + rc_beg_unchanged c) (rc_buffer_end c - rc_end_unchanged c) 0 c"
  defines "ix \<equiv> find_cache_boundary c1 (rc_buffer_beg c1 + rc_beg_unchanged c1) + 1"
  shows "repaired z c (collapse_boundaries ix ((move_cache_gap ix 0 c1)\<lparr>rc_buffer_beg := BEG, rc_buffer_end := z\<rparr>))"
proof -
  let ?b = "BEG + rc_beg_unchanged c" and ?old = "rc_buffer_end c - rc_end_unchanged c" and ?e = "z - rc_end_unchanged c"
  let ?\<delta> = "z - rc_buffer_end c"
  have inv: "rc_inv c" and bb: "rc_buffer_beg c = BEG" "BEG \<le> ?b" "?old \<le> rc_buffer_end c" "?b \<le> ?e" "?e \<le> z"
    using st by (simp_all add: stale_def)
  have bounds: "rc_buffer_beg c \<le> ?b" "?b \<le> ?old" "?old \<le> rc_buffer_end c" using bb lt by simp_all
  note sp = set_cache_region_spec [OF inv bounds, where v = 0, folded c1_def]
  have ix: "ix = find_cache_boundary c1 ?b + 1" using sp(2) bb(1) by (simp add: ix_def same_basis_def)
  have b1: "rc_buffer_beg c1 = BEG" "rc_buffer_end c1 = rc_buffer_end c" using sp(2) bb(1) by (simp_all add: same_basis_def)
  define c2 where "c2 = (move_cache_gap ix 0 c1)\<lparr>rc_buffer_beg := BEG, rc_buffer_end := z\<rparr>"
  obtain P T where PT: "bnds c1 = P @ T" "P \<noteq> []" "all_before P ?b" "all_after T ?b" "length P = ix"
      "bnds c2 = P @ shift_bnds ?\<delta> T" "rc_wf c2" "rc_buffer_beg c2 = BEG" "rc_buffer_end c2 = z"
    using move_and_rebase [OF sp(1) b1(1) bb(2), of z] b1(2) unfolding c2_def ix by metis
  have "all_after T (?old - 1)"
    using PT(1,4) sp(4) lt by (fastforce simp: all_after_def)
  then have aT: "all_after (shift_bnds ?\<delta> T) (?e - 1)" by (simp add: algebra_simps)
  have so: "bnds_sorted P" "bnds_sorted (shift_bnds ?\<delta> T)" "all_before T (rc_buffer_end c)" "fst (hd P) = BEG"
    using sp(1) PT(1,2) b1 by (simp_all add: rc_inv_def sorted_wrt_append)
  note cb = collapse_boundaries_bnds [OF PT(7,6,2), unfolded PT(5)]
  note cl = collapse_list_spec [OF PT(2) so(1) PT(3) so(2) aT bb(4)]
  have "all_before (collapse_list P (shift_bnds ?\<delta> T)) z"
  proof -
    have "all_before P z" "all_before (shift_bnds ?\<delta> T) z"
      using all_before_mono [OF PT(3), of z] bb so(3) by simp_all
    then have "\<forall>q \<in> set (map fst (P @ shift_bnds ?\<delta> T)). q \<le> z" by (auto simp: all_before_def)
    then show ?thesis using cl(3) by (force simp: all_before_def)
  qed
  then have inv2: "rc_inv (collapse_boundaries ix c2)"
    using cb cl(1,2) so(4) PT(8,9) by (simp add: rc_inv_def same_basis_def)
  have low: "val_at d (collapse_list P (shift_bnds ?\<delta> T)) p = val_at d (bnds c) p" if "BEG \<le> p" "p < ?b" for d p
  proof -
    have "val_at d (bnds c1) p = val_at d P p"
      using PT(1,4) that all_after_mono [OF PT(4), of p] by (simp add: val_at_append_after)
    then show ?thesis using cl(4) [of p d] sp(3) [of p d] that bb lt by simp
  qed
  have zero: "last_val d P = 0" for d
  proof -
    have "val_at d (bnds c1) ?b = last_val d P" using PT(1,3,4) by (simp add: val_at_before val_at_after)
    then show ?thesis using sp(3) [of ?b d] bb lt by simp
  qed
  have high: "val_at d (collapse_list P (shift_bnds ?\<delta> T)) p = val_at d (bnds c) (p - ?\<delta>)" if "?e \<le> p" "p < z" for d p
  proof -
    have "val_at d (bnds c1) (p - ?\<delta>) = val_at (last_val d P) T (p - ?\<delta>)"
      using PT(1) that lt all_before_mono [OF PT(3), of "p - ?\<delta>"] by (simp add: val_at_before)
    then show ?thesis using cl(6) [of p d] sp(3) [of "p - ?\<delta>" d] that bb lt by simp
  qed
  have mid: "val_at d (collapse_list P (shift_bnds ?\<delta> T)) p = 0" if "?b \<le> p" "p < ?e" for d p
    using cl(5) [OF that, of d] zero by simp
  have pd: "p - ?\<delta> = p - z + rc_buffer_end c" for p by simp
  show ?thesis
    unfolding c2_def [symmetric] repaired_def using inv2 cb PT(8,9) low mid high unfolding pd by (simp add: same_basis_def)
qed

lemma revalidate_stale:
  assumes "stale z c"
  shows "repaired z c (revalidate_region_cache z c)" and "rc_beg_unchanged (revalidate_region_cache z c) = z - BEG"
    and "rc_end_unchanged (revalidate_region_cache z c) = z - BEG"
proof -
  let ?b = "BEG + rc_beg_unchanged c" and ?f = "rc_buffer_end c - rc_end_unchanged c"
  have st: "rc_buffer_beg c = BEG" "?b \<le> ?f" "rc_inv c" "BEG \<le> ?b" using assms by (simp_all add: stale_def)
  have upd: "bnds (r\<lparr>rc_beg_unchanged := x, rc_end_unchanged := y\<rparr>) = bnds r" for r x y
    by (simp add: bnds_def BOUNDARY_POS_def [abs_def] BOUNDARY_VALUE_def [abs_def])
  have rep: "repaired z c (r\<lparr>rc_beg_unchanged := rc_buffer_end r - rc_buffer_beg r, rc_end_unchanged := rc_buffer_end r - rc_buffer_beg r\<rparr>) \<and>
      rc_buffer_end r = z \<and> rc_buffer_beg r = BEG" if "repaired z c r" for r
    using that unfolding repaired_def rc_inv_def upd by (auto simp: rc_wf_def)
  have "\<exists>r. repaired z c r \<and> revalidate_region_cache z c =
      r\<lparr>rc_beg_unchanged := rc_buffer_end r - rc_buffer_beg r, rc_end_unchanged := rc_buffer_end r - rc_buffer_beg r\<rparr>"
  proof (cases "?b = ?f")
    case True
    define c1 where "c1 = (move_cache_gap (find_cache_boundary c ?b + 1) 0 c)\<lparr>rc_buffer_beg := BEG, rc_buffer_end := z\<rparr>"
    have c1: "rc_beg_unchanged c1 = rc_beg_unchanged c" "rc_end_unchanged c1 = rc_end_unchanged c" "rc_buffer_beg c1 = BEG" "rc_buffer_end c1 = z"
      using move_and_rebase [OF st(3,1,4), of z] by (auto simp: c1_def)
    have ng: "\<not> ?b > ?f" using st(2) by simp
    define r where "r = set_cache_region (rc_buffer_beg c1 + rc_beg_unchanged c1) (rc_buffer_end c1 - rc_end_unchanged c1) 0 c1"
    have "revalidate_region_cache z c =
        r\<lparr>rc_beg_unchanged := rc_buffer_end r - rc_buffer_beg r, rc_end_unchanged := rc_buffer_end r - rc_buffer_beg r\<rparr>"
      unfolding revalidate_region_cache_def r_def c1_def st(1) Let_def if_not_P [OF ng] if_P [OF True] by (rule refl)
    moreover have "repaired z c r" using revalidate_empty [OF assms True, folded c1_def] by (simp add: r_def c1)
    ultimately show ?thesis by blast
  next
    case False
    with st have lt: "?b < ?f" by simp
    define c1 where "c1 = set_cache_region ?b ?f 0 c"
    define ix where "ix = find_cache_boundary c1 (rc_buffer_beg c1 + rc_beg_unchanged c1) + 1"
    define r where "r = collapse_boundaries ix ((move_cache_gap ix 0 c1)\<lparr>rc_buffer_beg := BEG, rc_buffer_end := z\<rparr>)"
    have ng: "\<not> ?b > ?f" "?b \<noteq> ?f" using lt by simp_all
    have "revalidate_region_cache z c =
        r\<lparr>rc_beg_unchanged := rc_buffer_end r - rc_buffer_beg r, rc_end_unchanged := rc_buffer_end r - rc_buffer_beg r\<rparr>"
      unfolding revalidate_region_cache_def r_def ix_def c1_def st(1) Let_def if_not_P [OF ng(1)] if_not_P [OF ng(2)] by (rule refl)
    moreover have "repaired z c r" using revalidate_changed [OF assms lt] unfolding r_def ix_def c1_def .
    ultimately show ?thesis by blast
  qed
  then obtain r where r: "repaired z c r" "revalidate_region_cache z c =
      r\<lparr>rc_beg_unchanged := rc_buffer_end r - rc_buffer_beg r, rc_end_unchanged := rc_buffer_end r - rc_buffer_beg r\<rparr>"
    by blast
  show "repaired z c (revalidate_region_cache z c)" unfolding r(2) using rep [OF r(1)] by blast
  show "rc_beg_unchanged (revalidate_region_cache z c) = z - BEG" and "rc_end_unchanged (revalidate_region_cache z c) = z - BEG"
    unfolding r(2) using rep [OF r(1)] by simp_all
qed

section \<open>Soundness\<close>

text \<open>A cache that is in step with a buffer ending at \<open>z\<close>.\<close>

definition fresh :: "int \<Rightarrow> region_cache \<Rightarrow> bool" where
  "fresh z c \<longleftrightarrow> rc_inv c \<and> rc_buffer_beg c = BEG \<and> rc_buffer_end c = z \<and> rc_beg_unchanged c = z - BEG \<and>
     rc_end_unchanged c = z - BEG"

definition char_at :: "'a list \<Rightarrow> int \<Rightarrow> 'a" where
  "char_at txt p = txt ! nat (p - BEG)"

abbreviation buf_z :: "'a list \<Rightarrow> int" where
  "buf_z txt \<equiv> BEG + int (length txt)"

text \<open>Where the cache has a value other than 0, the property holds of the character; of a stale cache this is
  asked for its head and its tail.\<close>

definition cache_fresh :: "('a \<Rightarrow> bool) \<Rightarrow> 'a list \<Rightarrow> region_cache \<Rightarrow> bool" where
  "cache_fresh P txt c \<longleftrightarrow> fresh (buf_z txt) c \<and>
     (\<forall>p. BEG \<le> p \<longrightarrow> p < buf_z txt \<longrightarrow> val_at 0 (bnds c) p \<noteq> 0 \<longrightarrow> P (char_at txt p))"

definition cache_stale :: "('a \<Rightarrow> bool) \<Rightarrow> 'a list \<Rightarrow> region_cache \<Rightarrow> bool" where
  "cache_stale P txt c \<longleftrightarrow> stale (buf_z txt) c \<and>
     (\<forall>p. BEG \<le> p \<longrightarrow> p < BEG + rc_beg_unchanged c \<longrightarrow> val_at 0 (bnds c) p \<noteq> 0 \<longrightarrow> P (char_at txt p)) \<and>
     (\<forall>p. buf_z txt - rc_end_unchanged c \<le> p \<longrightarrow> p < buf_z txt \<longrightarrow>
        val_at 0 (bnds c) (p - buf_z txt + rc_buffer_end c) \<noteq> 0 \<longrightarrow> P (char_at txt p))"

definition cache_sound :: "('a \<Rightarrow> bool) \<Rightarrow> 'a list \<Rightarrow> region_cache \<Rightarrow> bool" where
  "cache_sound P txt c \<longleftrightarrow> cache_fresh P txt c \<or> cache_stale P txt c"

lemma cache_fresh_stale: "cache_fresh P [] c \<Longrightarrow> cache_stale P [] c"
  by (simp add: cache_fresh_def cache_stale_def fresh_def stale_def)

lemma revalidate_sound:
  assumes "cache_sound P txt c" shows "cache_fresh P txt (revalidate_region_cache (buf_z txt) c)"
proof (cases "cache_fresh P txt c \<and> txt \<noteq> []")
  case True
  then have "revalidate_region_cache (buf_z txt) c = c"
    by (simp add: revalidate_region_cache_def Let_def cache_fresh_def fresh_def)
  then show ?thesis using True by simp
next
  case False
  with assms cache_fresh_stale have st: "cache_stale P txt c" by (auto simp: cache_sound_def)
  then have s: "stale (buf_z txt) c" by (simp add: cache_stale_def)
  note r = revalidate_stale [OF s]
  show ?thesis
    using r st unfolding cache_fresh_def cache_stale_def fresh_def repaired_def
    by (auto split: if_split_asm)
qed

lemma bnds_unchanged [simp]:
  "bnds (c\<lparr>rc_beg_unchanged := x\<rparr>) = bnds c" "bnds (c\<lparr>rc_end_unchanged := x\<rparr>) = bnds c"
  "rc_inv (c\<lparr>rc_beg_unchanged := x\<rparr>) = rc_inv c" "rc_inv (c\<lparr>rc_end_unchanged := x\<rparr>) = rc_inv c"
proof -
  show b: "bnds (c\<lparr>rc_beg_unchanged := x\<rparr>) = bnds c" "bnds (c\<lparr>rc_end_unchanged := x\<rparr>) = bnds c"
    by (simp_all add: bnds_def BOUNDARY_POS_def [abs_def] BOUNDARY_VALUE_def [abs_def])
  show "rc_inv (c\<lparr>rc_beg_unchanged := x\<rparr>) = rc_inv c" "rc_inv (c\<lparr>rc_end_unchanged := x\<rparr>) = rc_inv c"
    unfolding rc_inv_def b by (simp_all add: rc_wf_def)
qed

text \<open>Narrowing the head and the tail to what an edit leaves alone makes the cache sound for the edited text.\<close>

lemma narrow_sound:
  assumes cs: "cache_sound P txt c" and ij: "i \<le> j" "j \<le> length txt"
    and hd: "rc_beg_unchanged c' = min (int i) (rc_beg_unchanged c)" and tl: "rc_end_unchanged c' = min (int (length txt - j)) (rc_end_unchanged c)"
    and same: "bnds c' = bnds c" "rc_inv c'" "rc_buffer_beg c' = rc_buffer_beg c" "rc_buffer_end c' = rc_buffer_end c"
  shows "cache_stale P (take i txt @ ins @ drop j txt) c'"
proof -
  let ?t = "take i txt @ ins @ drop j txt"
  let ?z = "buf_z txt" and ?z' = "buf_z ?t"
  have len: "length ?t = i + length ins + (length txt - j)" using ij by simp
  have st: "stale ?z' c'"
    using cs ij same hd tl unfolding cache_sound_def cache_fresh_def cache_stale_def fresh_def stale_def by (auto simp: len)
  have head: "char_at ?t p = char_at txt p" if "BEG \<le> p" "p < BEG + int i" for p
    using that ij by (simp add: char_at_def nth_append nat_less_iff)
  have tail: "char_at ?t p = char_at txt (p - ?z' + ?z)" if "?z' - int (length txt - j) \<le> p" "p < ?z'" for p
  proof -
    define m where "m = nat (p - ?z' + ?z - BEG) - j"
    have k: "nat (p - BEG) = i + length ins + m" "nat (p - ?z' + ?z - BEG) = j + m" using that ij by (auto simp: len m_def)
    show ?thesis unfolding char_at_def k using ij by (simp add: nth_append)
  qed
  have h: "P (char_at ?t p)" if "BEG \<le> p" "p < BEG + rc_beg_unchanged c'" "val_at 0 (bnds c') p \<noteq> 0" for p
    using cs that head [of p] ij unfolding cache_sound_def cache_fresh_def cache_stale_def hd same(1) by auto
  have t: "P (char_at ?t p)" if p: "?z' - rc_end_unchanged c' \<le> p" "p < ?z'" "val_at 0 (bnds c') (p - ?z' + rc_buffer_end c') \<noteq> 0" for p
  proof -
    define q where "q = p - ?z' + ?z"
    have q: "?z - rc_end_unchanged c \<le> q" "q < ?z" "?z' - int (length txt - j) \<le> p" "BEG \<le> q"
      using p(1,2) ij by (auto simp: tl q_def)
    have "q - ?z + rc_buffer_end c = p - ?z' + rc_buffer_end c'" using same(4) by (simp add: q_def)
    then have v: "val_at 0 (bnds c) (q - ?z + rc_buffer_end c) \<noteq> 0" using p(3) same(1) by (simp only: not_False_eq_True)
    have "P (char_at txt q)"
    proof (cases "cache_fresh P txt c")
      case True
      then have e: "rc_buffer_end c = ?z" by (simp add: cache_fresh_def fresh_def)
      have "val_at 0 (bnds c) q \<noteq> 0" using v unfolding e by simp
      then show ?thesis using True q(2,4) by (simp add: cache_fresh_def)
    next
      case False
      then have "cache_stale P txt c" using cs by (simp add: cache_sound_def)
      then show ?thesis using q(1,2) v unfolding cache_stale_def by blast
    qed
    then show ?thesis using tail [OF q(3) p(2)] by (simp only: q_def)
  qed
  show ?thesis unfolding cache_stale_def using st h t by blast
qed

lemma invalidate_sound:
  assumes "cache_sound P txt c" "i \<le> j" "j \<le> length txt"
  shows "cache_sound P (take i txt @ ins @ drop j txt) (invalidate_region_cache (buf_z txt) (int i) (int (length txt - j)) c)"
proof -
  have main: "cache_stale P (take i txt @ ins @ drop j txt)
      (let c2 = (if int i < rc_beg_unchanged d then d\<lparr>rc_beg_unchanged := int i\<rparr> else d)
       in if int (length txt - j) < rc_end_unchanged c2 then c2\<lparr>rc_end_unchanged := int (length txt - j)\<rparr> else c2)"
    if "cache_sound P txt d" for d
  proof (rule narrow_sound [OF that assms(2,3)])
    have "rc_inv d" using that by (auto simp: cache_sound_def cache_fresh_def cache_stale_def fresh_def stale_def)
    then show "rc_inv (let c2 = (if int i < rc_beg_unchanged d then d\<lparr>rc_beg_unchanged := int i\<rparr> else d)
       in if int (length txt - j) < rc_end_unchanged c2 then c2\<lparr>rc_end_unchanged := int (length txt - j)\<rparr> else c2)"
      by (simp add: Let_def)
  qed (simp_all add: Let_def)
  have "cache_sound P txt (revalidate_region_cache (buf_z txt) c)"
    using revalidate_sound [OF assms(1)] by (simp add: cache_sound_def)
  then have "cache_sound P txt (if (BEG + rc_beg_unchanged c) - (buf_z txt - int (length txt - j)) > PRESERVE_THRESHOLD
      \<or> (BEG + int i) - (buf_z txt - rc_end_unchanged c) > PRESERVE_THRESHOLD then revalidate_region_cache (buf_z txt) c else c)"
    using assms(1) by (simp only: split: if_split) blast
  note main [OF this]
  then show ?thesis unfolding invalidate_region_cache_def cache_sound_def Let_def by (rule disjI2)
qed

lemma know_fresh:
  assumes cs: "cache_sound P txt c" and r: "BEG \<le> start" "start \<le> en" "en \<le> buf_z txt"
    and P: "\<And>p. start \<le> p \<Longrightarrow> p < en \<Longrightarrow> P (char_at txt p)"
  shows "cache_fresh P txt (know_region_cache (buf_z txt) start en c)"
    and "start \<le> p \<Longrightarrow> p < en \<Longrightarrow> val_at 0 (bnds (know_region_cache (buf_z txt) start en c)) p = 1"
proof -
  define d where "d = revalidate_region_cache (buf_z txt) c"
  have d: "cache_fresh P txt d" using revalidate_sound [OF cs] by (simp add: d_def)
  then have f: "rc_inv d" "rc_buffer_beg d = BEG" "rc_buffer_end d = buf_z txt" "rc_beg_unchanged d = buf_z txt - BEG"
      "rc_end_unchanged d = buf_z txt - BEG" by (simp_all add: cache_fresh_def fresh_def)
  have bounds: "rc_buffer_beg d \<le> start" "start \<le> en" "en \<le> rc_buffer_end d" using r f by simp_all
  note sp = set_cache_region_spec [OF f(1) bounds, where v = 1]
  have k: "know_region_cache (buf_z txt) start en c = set_cache_region start en 1 d" by (simp add: know_region_cache_def d_def)
  have "P (char_at txt p)" if "BEG \<le> p" "p < buf_z txt" "val_at 0 (bnds (set_cache_region start en 1 d)) p \<noteq> 0" for p
    using that sp(3) [of p 0] f d P [of p] by (auto simp: cache_fresh_def split: if_split_asm)
  then show "cache_fresh P txt (know_region_cache (buf_z txt) start en c)"
    unfolding k cache_fresh_def fresh_def using sp(1,2) f by (simp add: same_basis_def)
  show "val_at 0 (bnds (know_region_cache (buf_z txt) start en c)) p = 1" if "start \<le> p" "p < en"
    unfolding k using sp(3) [of p 0] that r f by simp
qed

section \<open>Queries\<close>

lemma val_at_find:
  assumes inv: "rc_inv c" and p: "rc_buffer_beg c \<le> p"
  shows "val_at d (bnds c) p = BOUNDARY_VALUE c (find_cache_boundary c p)"
proof -
  define X where "X = takeWhile (\<lambda>b. fst b \<le> p) (bnds c)"
  define Y where "Y = dropWhile (\<lambda>b. fst b \<le> p) (bnds c)"
  have k: "find_cache_boundary c p + 1 = length X" using find_cache_boundary_eq [OF inv p] by (simp add: X_def)
  then have X0: "X \<noteq> []" by auto
  have so: "bnds_sorted (bnds c)" using inv by (simp add: rc_inv_def)
  have bs: "bnds c = X @ Y" by (simp add: X_def Y_def)
  have "val_at d (bnds c) p = last_val d X"
    unfolding bs using takeWhile_before [of p "bnds c"] takeWhile_after [OF so, of p]
    by (simp add: val_at_before val_at_after flip: X_def Y_def)
  also have "last_val d X = snd (bnds c ! find_cache_boundary c p)"
    using X0 k bs by (simp add: last_val_def last_conv_nth nth_append flip: k)
  also have "\<dots> = BOUNDARY_VALUE c (find_cache_boundary c p)"
    using k bs length_bnds [of c] by (intro nth_bnds_val [symmetric]) simp
  finally show ?thesis .
qed

lemma find_less:
  assumes inv: "rc_inv c" and p: "rc_buffer_beg c \<le> p" and j: "j < rc_cache_len c"
  shows "find_cache_boundary c p < j \<longleftrightarrow> p < BOUNDARY_POS c j"
proof -
  define X where "X = takeWhile (\<lambda>b. fst b \<le> p) (bnds c)"
  define Y where "Y = dropWhile (\<lambda>b. fst b \<le> p) (bnds c)"
  have k: "find_cache_boundary c p + 1 = length X" using find_cache_boundary_eq [OF inv p] by (simp add: X_def)
  have so: "bnds_sorted (bnds c)" using inv by (simp add: rc_inv_def)
  have bs: "bnds c = X @ Y" by (simp add: X_def Y_def)
  have b: "all_before X p" "all_after Y p" using takeWhile_before takeWhile_after [OF so] by (simp_all add: X_def Y_def)
  have pos: "BOUNDARY_POS c j = fst ((X @ Y) ! j)" using j bs nth_bnds_pos by metis
  have len: "j < length X + length Y" using j bs length_bnds [of c] by simp
  show ?thesis
  proof (cases "j < length X")
    case True
    then have "BOUNDARY_POS c j \<le> p" using b(1) pos by (simp add: all_before_def nth_append)
    then show ?thesis using True k by simp
  next
    case False
    then have "p < BOUNDARY_POS c j" using b(2) pos len by (simp add: all_after_def nth_append)
    then show ?thesis using False k by simp
  qed
qed

lemma find_in: "rc_inv c \<Longrightarrow> rc_buffer_beg c \<le> p \<Longrightarrow> find_cache_boundary c p < rc_cache_len c"
  using find_cache_boundary_eq [of c p] length_takeWhile_le [of "\<lambda>b. fst b \<le> p" "bnds c"] by simp

lemma boundary_pos_mono:
  assumes "rc_inv c" "i < j" "j < rc_cache_len c" shows "BOUNDARY_POS c i < BOUNDARY_POS c j"
proof -
  have "bnds_sorted (bnds c)" using assms(1) by (simp add: rc_inv_def)
  then have "fst (bnds c ! i) < fst (bnds c ! j)"
    using sorted_wrt_nth_less [of "\<lambda>a b. fst a < fst b" "bnds c" i j] assms by simp
  then show ?thesis using assms by (simp add: nth_bnds_pos)
qed

lemma boundary_pos_beg: "rc_inv c \<Longrightarrow> j < rc_cache_len c \<Longrightarrow> rc_buffer_beg c \<le> BOUNDARY_POS c j"
proof -
  assume inv: "rc_inv c" and j: "j < rc_cache_len c"
  have "rc_buffer_beg c = BOUNDARY_POS c 0"
    using inv j rc_inv_nonempty [OF inv] by (simp add: rc_inv_def hd_conv_nth nth_bnds)
  then show ?thesis using boundary_pos_mono [OF inv, of 0 j] j by (cases "j = 0") auto
qed

lemma find_boundary_pos:
  assumes "rc_inv c" "j < rc_cache_len c" shows "find_cache_boundary c (BOUNDARY_POS c j) = j"
proof -
  note b = boundary_pos_beg [OF assms]
  have "\<not> find_cache_boundary c (BOUNDARY_POS c j) < j" using find_less [OF assms(1) b assms(2)] by simp
  moreover have "\<not> j < find_cache_boundary c (BOUNDARY_POS c j)"
    using find_in [OF assms(1) b] boundary_pos_mono [OF assms(1), of j "find_cache_boundary c (BOUNDARY_POS c j)"]
      find_less [OF assms(1) b, of "find_cache_boundary c (BOUNDARY_POS c j)"] by auto
  ultimately show ?thesis by simp
qed

lemma find_mono:
  assumes "rc_inv c" "rc_buffer_beg c \<le> p" "p \<le> q" shows "find_cache_boundary c p \<le> find_cache_boundary c q"
proof (rule ccontr)
  assume "\<not> ?thesis"
  then have "q < BOUNDARY_POS c (find_cache_boundary c p)"
    using find_less [OF assms(1), of q "find_cache_boundary c p"] find_in [OF assms(1,2)] assms by simp
  moreover have "\<not> p < BOUNDARY_POS c (find_cache_boundary c p)"
    using find_less [OF assms(1,2) find_in [OF assms(1,2)]] by simp
  ultimately show False using assms(3) by simp
qed

lemma scan_forward_spec:
  "j \<le> rc_cache_len c \<Longrightarrow> j \<le> scan_forward c v j \<and> scan_forward c v j \<le> rc_cache_len c \<and>
     (\<forall>k. j \<le> k \<longrightarrow> k < scan_forward c v j \<longrightarrow> BOUNDARY_VALUE c k = v) \<and>
     (scan_forward c v j < rc_cache_len c \<longrightarrow> BOUNDARY_VALUE c (scan_forward c v j) \<noteq> v)"
proof (induction c v j rule: scan_forward.induct)
  case (1 c v j)
  show ?case
  proof (cases "j < rc_cache_len c \<and> BOUNDARY_VALUE c j = v")
    case True
    then have "scan_forward c v j = scan_forward c v (j + 1)" by (subst scan_forward.simps) simp
    then show ?thesis using 1 True by (metis Suc_eq_plus1 Suc_leD Suc_leI le_eq_less_or_eq)
  next
    case False
    then have "scan_forward c v j = j" by (subst scan_forward.simps) auto
    then show ?thesis using 1(2) False by auto
  qed
qed

lemma scan_backward_spec:
  "scan_backward c v j \<le> j \<and> (\<forall>k. scan_backward c v j \<le> k \<longrightarrow> k < j \<longrightarrow> BOUNDARY_VALUE c k = v)"
proof (induction j)
  case (Suc j)
  then show ?case by (auto simp: less_Suc_eq)
qed simp

text \<open>On a fresh cache a query gives one value for the whole stretch up to the position it reports.\<close>

lemma forward_uniform:
  assumes cs: "cache_sound P txt c" and pos: "BEG \<le> pos" and q: "region_cache_forward (buf_z txt) pos c = (v, nxt, c')"
  shows "cache_fresh P txt c' \<and> c' = revalidate_region_cache (buf_z txt) c" and "pos \<ge> buf_z txt \<Longrightarrow> v = 0 \<and> nxt = buf_z txt"
    and "pos < buf_z txt \<Longrightarrow> pos < nxt \<and> nxt \<le> buf_z txt \<and> (\<forall>p. pos \<le> p \<longrightarrow> p < nxt \<longrightarrow> val_at 0 (bnds c') p = v)"
    and "pos < buf_z txt \<Longrightarrow> nxt < buf_z txt \<Longrightarrow> val_at 0 (bnds c') nxt \<noteq> v"
proof -
  define d where "d = revalidate_region_cache (buf_z txt) c"
  have fr: "cache_fresh P txt d" using revalidate_sound [OF cs] by (simp add: d_def)
  have inv: "rc_inv d" and beg: "rc_buffer_beg d = BEG" "rc_buffer_end d = buf_z txt" using fr by (simp_all add: cache_fresh_def fresh_def)
  define i where "i = find_cache_boundary d pos"
  define j where "j = scan_forward d (BOUNDARY_VALUE d i) (i + 1)"
  have beg': "rc_buffer_beg d \<le> pos" using pos beg by simp
  have il: "i < rc_cache_len d" using find_in [OF inv beg'] by (simp add: i_def)
  have q': "pos < buf_z txt \<Longrightarrow> v = BOUNDARY_VALUE d i \<and> nxt = (if j < rc_cache_len d then BOUNDARY_POS d j else buf_z txt) \<and> c' = d"
    and "pos \<ge> buf_z txt \<Longrightarrow> v = 0 \<and> nxt = buf_z txt \<and> c' = d"
    using q by (auto simp: region_cache_forward_def Let_def d_def i_def j_def)
  then show "pos \<ge> buf_z txt \<Longrightarrow> v = 0 \<and> nxt = buf_z txt" and "cache_fresh P txt c' \<and> c' = revalidate_region_cache (buf_z txt) c"
    using fr d_def by (blast, metis linorder_not_less)
  note sc = scan_forward_spec [of "i + 1" d "BOUNDARY_VALUE d i", folded j_def]
  show "val_at 0 (bnds c') nxt \<noteq> v" if lt: "pos < buf_z txt" "nxt < buf_z txt"
  proof -
    note q1 = q' [OF lt(1)]
    have jl: "j < rc_cache_len d" using q1 lt(2) by (cases "j < rc_cache_len d") auto
    then have j: "j < rc_cache_len d" "nxt = BOUNDARY_POS d j" "BOUNDARY_VALUE d j \<noteq> v" "c' = d"
      using q1 sc il by simp_all
    have "rc_buffer_beg d \<le> BOUNDARY_POS d j" using boundary_pos_beg [OF inv j(1)] .
    then have "val_at 0 (bnds d) nxt = BOUNDARY_VALUE d (find_cache_boundary d nxt)" using val_at_find [OF inv] j(2) by simp
    moreover have "find_cache_boundary d nxt = j"
      using find_boundary_pos [OF inv j(1)] j(2) by simp
    ultimately show ?thesis using j by simp
  qed
  show "pos < nxt \<and> nxt \<le> buf_z txt \<and> (\<forall>p. pos \<le> p \<longrightarrow> p < nxt \<longrightarrow> val_at 0 (bnds c') p = v)" if lt: "pos < buf_z txt"
  proof -
    have j: "i < j" "j \<le> rc_cache_len d" "\<And>k. i < k \<Longrightarrow> k < j \<Longrightarrow> BOUNDARY_VALUE d k = BOUNDARY_VALUE d i" using sc il by auto
    have "pos < nxt \<and> nxt \<le> buf_z txt"
    proof (cases "j < rc_cache_len d")
      case True
      then have "pos < BOUNDARY_POS d j" using find_less [OF inv beg', of j] j(1) by (simp add: i_def)
      moreover have "BOUNDARY_POS d j \<le> buf_z txt"
        using True inv beg nth_mem [of j "bnds d"] by (simp add: rc_inv_def all_before_def nth_bnds_pos)
      ultimately show ?thesis using q' lt True by simp
    qed (use q' lt in simp)
    moreover have "val_at 0 (bnds d) p = BOUNDARY_VALUE d i" if p: "pos \<le> p" "p < nxt" for p
    proof -
      have bp: "rc_buffer_beg d \<le> p" using p beg' by simp
      have "i \<le> find_cache_boundary d p" using find_mono [OF inv beg' p(1)] by (simp add: i_def)
      moreover have "find_cache_boundary d p < j"
        using find_in [OF inv bp] find_less [OF inv bp, of j] q' lt p(2) j(2) by (cases "j < rc_cache_len d") auto
      ultimately show ?thesis using val_at_find [OF inv bp] j(3) by (metis le_eq_less_or_eq)
    qed
    ultimately show ?thesis using q' lt by blast
  qed
qed

lemma backward_uniform:
  assumes cs: "cache_sound P txt c" and pos: "pos \<le> buf_z txt" and q: "region_cache_backward (buf_z txt) pos c = (v, nxt, c')"
  shows "cache_fresh P txt c' \<and> c' = revalidate_region_cache (buf_z txt) c" and "pos \<le> BEG \<Longrightarrow> v = 0 \<and> nxt = BEG"
    and "BEG < pos \<Longrightarrow> BEG \<le> nxt \<and> nxt < pos \<and> (\<forall>p. nxt \<le> p \<longrightarrow> p < pos \<longrightarrow> val_at 0 (bnds c') p = v)"
proof -
  define d where "d = revalidate_region_cache (buf_z txt) c"
  have fr: "cache_fresh P txt d" using revalidate_sound [OF cs] by (simp add: d_def)
  have inv: "rc_inv d" and beg: "rc_buffer_beg d = BEG" "rc_buffer_end d = buf_z txt" using fr by (simp_all add: cache_fresh_def fresh_def)
  define i where "i = find_cache_boundary d (pos - 1)"
  define j where "j = scan_backward d (BOUNDARY_VALUE d i) i"
  have q': "BEG < pos \<Longrightarrow> v = BOUNDARY_VALUE d i \<and> nxt = (if j > 0 then BOUNDARY_POS d j else BEG) \<and> c' = d"
    and "pos \<le> BEG \<Longrightarrow> v = 0 \<and> nxt = BEG \<and> c' = d"
    using q by (auto simp: region_cache_backward_def Let_def d_def i_def j_def)
  then show "pos \<le> BEG \<Longrightarrow> v = 0 \<and> nxt = BEG" and "cache_fresh P txt c' \<and> c' = revalidate_region_cache (buf_z txt) c"
    using fr d_def by (blast, metis linorder_not_less)
  have sc: "j \<le> i" "\<And>k. j \<le> k \<Longrightarrow> k < i \<Longrightarrow> BOUNDARY_VALUE d k = BOUNDARY_VALUE d i"
    using scan_backward_spec [of d "BOUNDARY_VALUE d i" i] by (auto simp: j_def)
  show "BEG \<le> nxt \<and> nxt < pos \<and> (\<forall>p. nxt \<le> p \<longrightarrow> p < pos \<longrightarrow> val_at 0 (bnds c') p = v)" if lt: "BEG < pos"
  proof -
    have beg': "rc_buffer_beg d \<le> pos - 1" using lt beg by simp
    have il: "i < rc_cache_len d" using find_in [OF inv beg'] by (simp add: i_def)
    have jl: "j < rc_cache_len d" using sc(1) il by simp
    have low: "BEG \<le> BOUNDARY_POS d j"
    proof -
      show ?thesis using boundary_pos_beg [OF inv jl] beg by simp
    qed
    have up: "BOUNDARY_POS d j \<le> pos - 1" using find_less [OF inv beg' jl] sc(1) by (simp add: i_def)
    have "BEG \<le> nxt \<and> nxt < pos" using q' lt low up by simp
    moreover have "val_at 0 (bnds d) p = BOUNDARY_VALUE d i" if p: "nxt \<le> p" "p < pos" "BEG \<le> nxt" for p
    proof -
      have bp: "rc_buffer_beg d \<le> p" using p beg by simp
      have "find_cache_boundary d p \<le> i" using find_mono [OF inv bp, of "pos - 1"] p by (simp add: i_def)
      moreover have "j \<le> find_cache_boundary d p"
        using find_less [OF inv bp jl] q' lt p(1) by (cases "j > 0") auto
      ultimately show ?thesis using val_at_find [OF inv bp] sc(2) by (metis le_eq_less_or_eq)
    qed
    ultimately show ?thesis using q' lt by blast
  qed
qed

section \<open>Histories of a buffer and its cache\<close>

text \<open>
  A buffer's text with the cache that belongs to it. The cache may be created at any time; an edit replaces the
  text between two positions after \<^verbatim>\<open>prepare_to_modify_buffer\<close> invalidated the cache with the sizes of what stays;
  knowledge is recorded only where the property holds; queries repair the cache on the way.
\<close>

inductive region_history :: "('a \<Rightarrow> bool) \<Rightarrow> 'a list \<Rightarrow> region_cache \<Rightarrow> bool" for P where
  created: "region_history P txt new_region_cache"
| edited: "region_history P txt c \<Longrightarrow> i \<le> j \<Longrightarrow> j \<le> length txt \<Longrightarrow>
    region_history P (take i txt @ ins @ drop j txt) (invalidate_region_cache (buf_z txt) (int i) (int (length txt - j)) c)"
| known: "region_history P txt c \<Longrightarrow> BEG \<le> start \<Longrightarrow> start \<le> en \<Longrightarrow> en \<le> buf_z txt \<Longrightarrow>
    (\<And>p. start \<le> p \<Longrightarrow> p < en \<Longrightarrow> P (char_at txt p)) \<Longrightarrow> region_history P txt (know_region_cache (buf_z txt) start en c)"
| asked_forward: "region_history P txt c \<Longrightarrow> BEG \<le> pos \<Longrightarrow>
    region_history P txt (snd (snd (region_cache_forward (buf_z txt) pos c)))"
| asked_backward: "region_history P txt c \<Longrightarrow> pos \<le> buf_z txt \<Longrightarrow>
    region_history P txt (snd (snd (region_cache_backward (buf_z txt) pos c)))"

lemma new_region_cache_stale: "cache_stale P txt new_region_cache"
proof -
  have "rc_inv new_region_cache"
    by (simp add: rc_inv_def rc_wf_def bnds_def new_region_cache_def BOUNDARY_POS_def)
  then show ?thesis by (simp add: cache_stale_def stale_def new_region_cache_def)
qed

lemma region_history_sound: "region_history P txt c \<Longrightarrow> cache_sound P txt c"
proof (induction rule: region_history.induct)
  case (created t)
  show ?case unfolding cache_sound_def by (rule disjI2 [OF new_region_cache_stale])
next
  case (edited t c i j ins)
  then show ?case using invalidate_sound by blast
next
  case (known t c start en)
  then show ?case using know_fresh(1) [of P t c start en] by (simp add: cache_sound_def)
next
  case (asked_forward t c pos)
  then show ?case using forward_uniform(1) [of P t c pos] by (metis cache_sound_def prod.collapse)
next
  case (asked_backward t c pos)
  then show ?case using backward_uniform(1) [of P t c pos] by (metis cache_sound_def prod.collapse)
qed

text \<open>
  Property (C7). The region cache never claims too much. Start from a new cache, edit the text in any way, record the
  property only for stretches that have it, and query at any time: a query that answers with a value other
  than 0 speaks of text all of which has the property now, up to the position it reports, and that position is
  a proper step within the buffer in either direction.
\<close>

theorem region_cache_sound:
  assumes "region_history P txt c" "BEG \<le> pos" "pos \<le> buf_z txt"
    "region_cache_forward (buf_z txt) pos c = (v, nxt, c')" "region_cache_backward (buf_z txt) pos c = (v2, prv, c2)"
  shows "(v = 0 \<or> pos < nxt \<and> nxt \<le> buf_z txt \<and> list_all P (take (nat (nxt - pos)) (drop (nat (pos - BEG)) txt))) \<and>
    (v2 = 0 \<or> BEG \<le> prv \<and> prv < pos \<and> list_all P (take (nat (pos - prv)) (drop (nat (prv - BEG)) txt)))"
proof -
  have cs: "cache_sound P txt c" using region_history_sound assms(1) .
  have region: "list_all P (take (nat (b - a)) (drop (nat (a - BEG)) txt))"
    if "BEG \<le> a" "a < b" "b \<le> buf_z txt" "\<And>p. a \<le> p \<Longrightarrow> p < b \<Longrightarrow> P (char_at txt p)" for a b
  proof -
    have "P (txt ! (nat (a - BEG) + k))" if "k < nat (b - a)" for k
    proof -
      have "nat (a + int k - BEG) = nat (a - BEG) + k" using \<open>BEG \<le> a\<close> by simp
      then show ?thesis
        using \<open>\<And>p. a \<le> p \<Longrightarrow> p < b \<Longrightarrow> P (char_at txt p)\<close> [of "a + int k"] that unfolding char_at_def by simp
    qed
    then show ?thesis using that by (auto simp: list_all_length)
  qed
  note f = forward_uniform [OF cs assms(2,4)] and b = backward_uniform [OF cs assms(3,5)]
  have "pos < nxt \<and> nxt \<le> buf_z txt \<and> list_all P (take (nat (nxt - pos)) (drop (nat (pos - BEG)) txt))" if "v \<noteq> 0"
  proof -
    have lt: "pos < buf_z txt" using f(2) that by fastforce
    note f(3) [OF lt]
    moreover have "P (char_at txt p)" if "pos \<le> p" "p < nxt" for p
      using f(1) f(3) [OF lt] that \<open>v \<noteq> 0\<close> assms(2) by (auto simp: cache_fresh_def)
    ultimately show ?thesis using region [OF assms(2), of nxt] by blast
  qed
  moreover have "BEG \<le> prv \<and> prv < pos \<and> list_all P (take (nat (pos - prv)) (drop (nat (prv - BEG)) txt))" if "v2 \<noteq> 0"
  proof -
    have lt: "BEG < pos" using b(2) that by fastforce
    note b(3) [OF lt]
    moreover have "P (char_at txt p)" if "prv \<le> p" "p < pos" for p
      using b(1) b(3) [OF lt] that \<open>v2 \<noteq> 0\<close> assms(3) by (auto simp: cache_fresh_def)
    ultimately show ?thesis using region [of prv pos] assms(3) by blast
  qed
  ultimately show ?thesis by blast
qed

text \<open>A short history: text without the letter b at its start is recorded, then a letter is inserted inside.\<close>

definition sample_cache :: region_cache where
  "sample_cache = invalidate_region_cache 6 2 3 (know_region_cache 6 1 5 new_region_cache)"

lemma sample_history: "region_history (\<lambda>c. c \<noteq> CHR ''b'') ''aabaab'' sample_cache"
proof -
  let ?P = "\<lambda>c. c \<noteq> CHR ''b''"
  have a: "char_at ''aaaab'' p = CHR ''a''" if "1 \<le> p" "p < 5" for p :: int
  proof -
    have "p = 1 \<or> p = 2 \<or> p = 3 \<or> p = 4" using that by auto
    then show ?thesis by (auto simp: char_at_def)
  qed
  have "region_history ?P ''aaaab'' (know_region_cache (buf_z ''aaaab'') 1 5 new_region_cache)"
    by (intro region_history.known region_history.created) (simp_all add: a)
  from region_history.edited [OF this, of 2 2 "''b''"] show ?thesis by (simp add: sample_cache_def)
qed

theorem region_cache_sound_witness:
  "\<exists>v nxt c' v2 prv c2. region_cache_forward 7 1 sample_cache = (v, nxt, c') \<and> region_cache_backward 7 1 sample_cache = (v2, prv, c2) \<and>
    v = 1 \<and> nxt = 3 \<and> list_all (\<lambda>c. c \<noteq> CHR ''b'') (take (nat (nxt - 1)) (drop (nat (1 - 1)) ''aabaab''))"
proof -
  obtain v nxt c' where f: "region_cache_forward 7 1 sample_cache = (v, nxt, c')" by (metis prod_cases3)
  obtain v2 prv c2 where b: "region_cache_backward 7 1 sample_cache = (v2, prv, c2)" by (metis prod_cases3)
  have "fst (region_cache_forward 7 1 sample_cache) = 1 \<and> fst (snd (region_cache_forward 7 1 sample_cache)) = 3"
    unfolding sample_cache_def by code_simp
  then have "v = 1" "nxt = 3" using f by simp_all
  then show ?thesis
    using region_cache_sound [OF sample_history, of 1 v nxt c' v2 prv c2] f b by auto
qed

text \<open>
  What was recorded is remembered: right after \<^verbatim>\<open>know_region_cache\<close>, a query inside the region answers 1
  and reports no position before the region's end.
\<close>

theorem region_cache_remembers:
  assumes "region_history P txt c" "BEG \<le> start" "start \<le> pos" "pos < en" "en \<le> buf_z txt"
    "list_all P (take (nat (en - start)) (drop (nat (start - BEG)) txt))"
    "region_cache_forward (buf_z txt) pos (know_region_cache (buf_z txt) start en c) = (v, nxt, c')"
  shows "v = 1 \<and> en \<le> nxt"
proof -
  have P: "P (char_at txt p)" if "start \<le> p" "p < en" for p
  proof -
    have "nat (p - start) < length (take (nat (en - start)) (drop (nat (start - BEG)) txt))"
      using that assms(2,5) by simp
    then have "P (take (nat (en - start)) (drop (nat (start - BEG)) txt) ! nat (p - start))"
      using assms(6) by (simp add: list_all_length)
    moreover have "nat (start - BEG) + nat (p - start) = nat (p - BEG)" using that assms(2) by simp
    ultimately show ?thesis using that assms(5) unfolding char_at_def by simp
  qed
  let ?k = "know_region_cache (buf_z txt) start en c"
  have cs: "cache_sound P txt c" using region_history_sound assms(1) .
  note k = know_fresh [where P = P, OF cs assms(2) _ assms(5) P]
  have se: "start \<le> en" using assms(3,4) by simp
  have cs': "cache_sound P txt ?k" using k(1) [OF se] by (simp add: cache_sound_def)
  have lt: "pos < buf_z txt" "txt \<noteq> []" "BEG \<le> pos" using assms by auto
  note f = forward_uniform [OF cs' lt(3) assms(7)]
  have "revalidate_region_cache (buf_z txt) ?k = ?k"
    using k(1) [OF se] lt(2) by (simp add: revalidate_region_cache_def Let_def cache_fresh_def fresh_def)
  then have c': "c' = ?k" using f(1) by simp
  have one: "val_at 0 (bnds c') p = 1" if "start \<le> p" "p < en" for p using k(2) [OF se _ _ that] c' by simp
  have "v = 1" using f(3) [OF lt(1)] one [OF assms(3,4)] by auto
  moreover have "en \<le> nxt"
  proof (rule ccontr)
    assume "\<not> en \<le> nxt"
    then have "val_at 0 (bnds c') nxt = 1" using one [of nxt] f(3) [OF lt(1)] assms(3) by simp
    then show False using f(4) [OF lt(1)] \<open>v = 1\<close> \<open>\<not> en \<le> nxt\<close> assms(5) by simp
  qed
  ultimately show ?thesis by simp
qed

theorem region_cache_remembers_witness:
  "\<exists>v nxt c'. region_cache_forward 7 4 (know_region_cache 7 4 6 sample_cache) = (v, nxt, c') \<and> v = 1 \<and> 6 \<le> nxt"
proof -
  obtain v nxt c' where f: "region_cache_forward 7 4 (know_region_cache 7 4 6 sample_cache) = (v, nxt, c')" by (metis prod_cases3)
  show ?thesis using region_cache_remembers [OF sample_history, of 4 4 6 v nxt c'] f by auto
qed

end
