(* ===== verification/Find_Newline.thy ===== *)
theory Find_Newline
  imports Region_Cache_Sound
begin

text \<open>
  The forward search for newlines of \<^verbatim>\<open>src/src/search.c\<close>, \<^verbatim>\<open>find_newline\<close> with a positive count: it jumps over text the
  newline cache knows to be free of newlines, scans the rest in contiguous pieces up to the gap, and records what
  it finds. The text is a list of characters in Emacs's internal encoding, each a non-empty list of bytes, with
  character and byte positions counted from 1; quitting is left out.
\<close>

abbreviation (input) NL :: char where "NL \<equiv> CHR 0x0A"

record nl_buffer =
  nb_chars :: "string list"
  nb_gpt :: int
  nb_begv :: int
  nb_zv :: int

abbreviation nb_z :: "nl_buffer \<Rightarrow> int" where
  "nb_z b \<equiv> buf_z (nb_chars b)"

text \<open>Byte positions of character positions, and back: the meaning of \<^verbatim>\<open>CHAR_TO_BYTE\<close> and \<^verbatim>\<open>BYTE_TO_CHAR\<close>.\<close>

definition char_to_byte :: "nl_buffer \<Rightarrow> int \<Rightarrow> int" where
  "char_to_byte b p = 1 + int (length (concat (take (nat (p - 1)) (nb_chars b))))"

fun chars_within :: "string list \<Rightarrow> nat \<Rightarrow> nat" where
  "chars_within [] n = 0"
| "chars_within (c # cs) n = (if length c \<le> n then 1 + chars_within cs (n - length c) else 0)"

definition byte_to_char :: "nl_buffer \<Rightarrow> int \<Rightarrow> int" where
  "byte_to_char b q = 1 + int (chars_within (nb_chars b) (nat (q - 1)))"

definition fetch_byte :: "nl_buffer \<Rightarrow> int \<Rightarrow> char" where
  "fetch_byte b q = concat (nb_chars b) ! nat (q - 1)"

definition buffer_ceiling_of :: "nl_buffer \<Rightarrow> int \<Rightarrow> int" where
  "buffer_ceiling_of b q =
     (if q < char_to_byte b (nb_gpt b) \<and> nb_gpt b < nb_zv b then char_to_byte b (nb_gpt b) else char_to_byte b (nb_zv b)) - 1"

text \<open>\<^verbatim>\<open>memchr\<close> for a newline between two byte positions.\<close>

function memchr_nl :: "nl_buffer \<Rightarrow> int \<Rightarrow> int \<Rightarrow> int option" where
  "memchr_nl b q lim =
     (if q < lim then (if fetch_byte b q = NL then Some q else memchr_nl b (q + 1) lim) else None)"
  by pat_completeness auto
termination
  by (relation "measure (\<lambda>(b, q, lim). nat (lim - q))") auto

declare memchr_nl.simps [simp del]

lemma memchr_nl_range: "memchr_nl b q lim = Some r \<Longrightarrow> q \<le> r \<and> r < lim"
  by (induction b q lim rule: memchr_nl.induct) (subst (asm) memchr_nl.simps, auto split: if_splits)

section \<open>The search\<close>

text \<open>The run of newlines at the start of a stretch, which the cache cannot tell from unknown text.\<close>

function eat_newlines :: "nl_buffer \<Rightarrow> int \<Rightarrow> int \<Rightarrow> int \<Rightarrow> int \<Rightarrow> int \<times> int \<times> int" where
  "eat_newlines b start start_byte lim1 count =
     (if start < lim1 \<and> fetch_byte b start_byte = NL then
        (if count - 1 = 0 then (start + 1, start_byte + 1, 0)
         else eat_newlines b (start + 1) (start_byte + 1) lim1 (count - 1))
      else (start, start_byte, count))"
  by pat_completeness auto
termination
  by (relation "measure (\<lambda>(b, start, start_byte, lim1, count). nat (lim1 - start))") auto

declare eat_newlines.simps [simp del]

datatype skip =
    SkipFound int int region_cache
  | Skipped int int int int region_cache

partial_function (option) cache_skip :: "nl_buffer \<Rightarrow> int \<Rightarrow> int \<Rightarrow> int \<Rightarrow> int \<Rightarrow> int \<Rightarrow> region_cache \<Rightarrow> skip option" where
  "cache_skip b en start start_byte next_change count c =
     (if \<not> start < en then Some (Skipped start start_byte next_change count c)
      else
        (case region_cache_forward (nb_z b) start c of (result, nc, c1) \<Rightarrow>
          (let start1 = (if result \<noteq> 0 then (if nc > nb_zv b then nb_zv b else nc) else start);
               nc1 = (if result \<noteq> 0 then en else nc);
               lim1 = (if result \<noteq> 0 then en else min nc en)
           in case eat_newlines b start1 (char_to_byte b start1) lim1 count of (start2, sb2, count2) \<Rightarrow>
                if count2 = 0 then Some (SkipFound start2 sb2 c1)
                else if start2 < nc1 \<and> result = 0 then Some (Skipped start2 sb2 nc1 count2 c1)
                else cache_skip b en start2 sb2 nc1 count2 c1)))"

declare cache_skip.simps [code]

text \<open>The dumb loop, in byte positions, with the knowledge it adds to the cache.\<close>

function dumb_forward ::
  "nl_buffer \<Rightarrow> int \<Rightarrow> int \<Rightarrow> int \<Rightarrow> region_cache option \<Rightarrow> int option \<times> int \<times> region_cache option" where
  "dumb_forward b cursor lim count c =
     (if cursor < lim then
        (let nl = memchr_nl b cursor lim;
             nxt = (case nl of Some r \<Rightarrow> r | None \<Rightarrow> lim);
             c1 = (if cursor \<noteq> nxt
                   then map_option (know_region_cache (nb_z b) (byte_to_char b cursor) (byte_to_char b nxt)) c else c)
         in case nl of None \<Rightarrow> (None, count, c1)
            | Some r \<Rightarrow> if count - 1 = 0 then (Some (r + 1), 0, c1) else dumb_forward b (r + 1) lim (count - 1) c1)
      else (None, count, c))"
  by pat_completeness auto
termination
  by (relation "measure (\<lambda>(b, cursor, lim, count, c). nat (lim - cursor))") (auto dest!: sym [of "Some _"] memchr_nl_range)

declare dumb_forward.simps [simp del]

text \<open>The result: the position, its byte position, the count that is left, and the cache.\<close>

type_synonym nl_result = "int \<times> int \<times> int \<times> region_cache option"

text \<open>What one round decides before the dumb loop: it is over, or where to scan and up to which byte.\<close>

datatype window =
    WinDone nl_result
  | WinScan int int int "region_cache option"

definition scan_window :: "nl_buffer \<Rightarrow> int \<Rightarrow> int \<Rightarrow> int \<Rightarrow> int \<Rightarrow> int \<Rightarrow> region_cache option \<Rightarrow> window option" where
  "scan_window b en end_byte start start_byte count c =
     (case c of
        None \<Rightarrow>
          (let q = (if start_byte = -1 then char_to_byte b start else start_byte)
           in Some (WinScan q (min (buffer_ceiling_of b q) (end_byte - 1)) count None))
      | Some c0 \<Rightarrow>
          (case cache_skip b en start start_byte 0 count c0 of
             None \<Rightarrow> None
           | Some (SkipFound s q c1) \<Rightarrow> Some (WinDone (s, q, 0, Some c1))
           | Some (Skipped s q nc k c1) \<Rightarrow>
               if s \<ge> en then Some (WinDone (en, end_byte, k, Some c1))
               else
                 (let q1 = (if q > end_byte - 1 then end_byte - 1 else q);
                      ceiling = min (char_to_byte b nc - 1) (end_byte - 1)
                  in Some (WinScan q1 (min (buffer_ceiling_of b q1) ceiling) k (Some c1)))))"

partial_function (option) newline_forward ::
  "nl_buffer \<Rightarrow> int \<Rightarrow> int \<Rightarrow> int \<Rightarrow> int \<Rightarrow> int \<Rightarrow> region_cache option \<Rightarrow> nl_result option" where
  "newline_forward b en end_byte start start_byte count c =
     (if start = en then Some (start, start_byte, count, c)
      else
        (case scan_window b en end_byte start start_byte count c of
           None \<Rightarrow> None
         | Some (WinDone r) \<Rightarrow> Some r
         | Some (WinScan q ceiling k c1) \<Rightarrow>
             (case dumb_forward b q (ceiling + 1) k c1 of (found, k', c2) \<Rightarrow>
               (case found of Some q' \<Rightarrow> Some (byte_to_char b q', q', 0, c2)
                | None \<Rightarrow> newline_forward b en end_byte (byte_to_char b (ceiling + 1)) (ceiling + 1) k' c2))))"

declare newline_forward.simps [code]

definition find_newline_fwd ::
  "nl_buffer \<Rightarrow> int \<Rightarrow> int \<Rightarrow> int \<Rightarrow> int \<Rightarrow> int \<Rightarrow> region_cache option \<Rightarrow> (int \<times> int \<times> int \<times> region_cache option) option" where
  "find_newline_fwd b start start_byte en0 end_byte0 count c =
     (let en = (if en0 = 0 then nb_zv b else en0);
          end_byte1 = (if en0 = 0 then char_to_byte b (nb_zv b) else end_byte0);
          end_byte = (if end_byte1 = -1 then char_to_byte b en else end_byte1)
      in case newline_forward b en end_byte start start_byte count c of
           None \<Rightarrow> None
         | Some (s, q, k, c') \<Rightarrow> Some (s, (if q = -1 then char_to_byte b s else q), count - k, c'))"

section \<open>Characters and bytes\<close>

text \<open>In Emacs's encoding no character has the newline byte inside it.\<close>

definition nb_ok :: "nl_buffer \<Rightarrow> bool" where
  "nb_ok b \<longleftrightarrow> list_all (\<lambda>c. c \<noteq> [] \<and> (NL \<in> set c \<longrightarrow> c = [NL])) (nb_chars b) \<and>
     1 \<le> nb_gpt b \<and> nb_gpt b \<le> nb_z b \<and> nb_zv b \<le> nb_z b"

definition is_nl :: "nl_buffer \<Rightarrow> int \<Rightarrow> bool" where
  "is_nl b p \<longleftrightarrow> char_at (nb_chars b) p = [NL]"

lemma ctb_Suc: "1 \<le> p \<Longrightarrow> p < nb_z b \<Longrightarrow> char_to_byte b (p + 1) = char_to_byte b p + int (length (char_at (nb_chars b) p))"
proof -
  assume p: "1 \<le> p" "p < nb_z b"
  then have "nat (p + 1 - 1) = Suc (nat (p - 1))" "nat (p - 1) < length (nb_chars b)" by auto
  then show ?thesis by (simp add: char_to_byte_def char_at_def take_Suc_conv_app_nth)
qed

lemma char_at_mem: "1 \<le> p \<Longrightarrow> p < buf_z cs \<Longrightarrow> char_at cs p \<in> set cs"
  by (simp add: char_at_def)

lemma char_nonempty: "nb_ok b \<Longrightarrow> 1 \<le> p \<Longrightarrow> p < nb_z b \<Longrightarrow> char_at (nb_chars b) p \<noteq> []"
  using char_at_mem [of p "nb_chars b"] by (auto simp: nb_ok_def list_all_iff)

lemma ctb_less_Suc: "nb_ok b \<Longrightarrow> 1 \<le> p \<Longrightarrow> p < nb_z b \<Longrightarrow> char_to_byte b p < char_to_byte b (p + 1)"
  using ctb_Suc [of p b] char_nonempty [of b p] by simp

lemma ctb_mono_strict:
  assumes "nb_ok b" "1 \<le> p" "p < q" "q \<le> nb_z b" shows "char_to_byte b p < char_to_byte b q"
  using assms(3,4)
proof (induction q rule: int_gr_induct)
  case base
  then show ?case using ctb_less_Suc [OF assms(1,2)] by simp
next
  case (step i)
  then show ?case using ctb_less_Suc [OF assms(1), of i] assms(2) by simp
qed

lemma ctb_less_iff:
  assumes "nb_ok b" "1 \<le> p" "p \<le> nb_z b" "1 \<le> q" "q \<le> nb_z b"
  shows "char_to_byte b p < char_to_byte b q \<longleftrightarrow> p < q"
  using ctb_mono_strict [OF assms(1), of p q] ctb_mono_strict [OF assms(1), of q p] assms by (metis linorder_neqE not_less_iff_gr_or_eq)

lemma ctb_min:
  assumes "nb_ok b" "1 \<le> p" "p \<le> nb_z b" "1 \<le> q" "q \<le> nb_z b"
  shows "min (char_to_byte b p) (char_to_byte b q) = char_to_byte b (min p q)"
  using ctb_less_iff [OF assms] ctb_less_iff [of b q p] assms by (auto simp: min_def not_less)

lemma chars_within_concat:
  "list_all (\<lambda>c. c \<noteq> []) cs \<Longrightarrow> k \<le> length cs \<Longrightarrow> chars_within cs (length (concat (take k cs))) = k"
proof (induction cs arbitrary: k)
  case (Cons c cs)
  then show ?case by (cases k) auto
qed simp

lemma btc_ctb: "nb_ok b \<Longrightarrow> 1 \<le> p \<Longrightarrow> p \<le> nb_z b \<Longrightarrow> byte_to_char b (char_to_byte b p) = p"
  using chars_within_concat [of "nb_chars b" "nat (p - 1)"]
  by (simp add: byte_to_char_def char_to_byte_def nb_ok_def list_all_iff)

lemma nth_concat_take:
  "k < length cs \<Longrightarrow> m < length (cs ! k) \<Longrightarrow> concat cs ! (length (concat (take k cs)) + m) = cs ! k ! m"
proof (induction cs arbitrary: k)
  case (Cons c cs)
  then show ?case by (cases k) (auto simp: nth_append)
qed simp

lemma fetch_in_char:
  assumes "1 \<le> p" "p < nb_z b" "char_to_byte b p \<le> r" "r < char_to_byte b (p + 1)"
  shows "fetch_byte b r = char_at (nb_chars b) p ! nat (r - char_to_byte b p)" and "nat (r - char_to_byte b p) < length (char_at (nb_chars b) p)"
proof -
  define k where "k = nat (p - 1)"
  have k: "k < length (nb_chars b)" using assms(1,2) by (simp add: k_def)
  define m where "m = nat (r - char_to_byte b p)"
  have m: "m < length (nb_chars b ! k)" using assms ctb_Suc [OF assms(1,2)] by (simp add: m_def k_def char_at_def)
  have "nat (r - 1) = length (concat (take k (nb_chars b))) + m" using assms(3) by (simp add: m_def k_def char_to_byte_def)
  then show "fetch_byte b r = char_at (nb_chars b) p ! nat (r - char_to_byte b p)"
    using nth_concat_take [OF k m] by (simp add: fetch_byte_def char_at_def flip: m_def k_def)
  show "nat (r - char_to_byte b p) < length (char_at (nb_chars b) p)" using m by (simp add: char_at_def flip: m_def k_def)
qed

lemma fetch_nl:
  assumes ok: "nb_ok b" and p: "1 \<le> p" "p < nb_z b" shows "fetch_byte b (char_to_byte b p) = NL \<longleftrightarrow> is_nl b p"
proof -
  have ne: "char_at (nb_chars b) p \<noteq> []" using char_nonempty [OF ok p] .
  have "fetch_byte b (char_to_byte b p) = char_at (nb_chars b) p ! 0"
    using fetch_in_char(1) [OF p order_refl] ctb_less_Suc [OF ok p] by simp
  moreover have "char_at (nb_chars b) p ! 0 \<in> set (char_at (nb_chars b) p)" using ne by (intro nth_mem) simp
  moreover have "NL \<in> set (char_at (nb_chars b) p) \<Longrightarrow> char_at (nb_chars b) p = [NL]"
    using ok char_at_mem [OF p] by (simp add: nb_ok_def list_all_iff)
  ultimately show ?thesis unfolding is_nl_def by (metis nth_Cons_0)
qed

lemma ctb_nl: "1 \<le> p \<Longrightarrow> p < nb_z b \<Longrightarrow> is_nl b p \<Longrightarrow> char_to_byte b (p + 1) = char_to_byte b p + 1"
  using ctb_Suc [of p b] by (simp add: is_nl_def)

text \<open>A byte of a stretch belongs to a character of it, and a newline byte is a newline.\<close>

lemma byte_in_char:
  assumes "s < e" "char_to_byte b s \<le> r" "r < char_to_byte b e"
  shows "\<exists>p. s \<le> p \<and> p < e \<and> char_to_byte b p \<le> r \<and> r < char_to_byte b (p + 1)"
  using assms
proof (induction e rule: int_gr_induct)
  case (step i)
  show ?case
  proof (cases "r < char_to_byte b i")
    case True
    then show ?thesis using step.IH step.prems by force
  next
    case False
    then show ?thesis using step by (intro exI [of _ i]) simp
  qed
qed auto

lemma nl_byte:
  assumes ok: "nb_ok b" and p: "1 \<le> p" "p < nb_z b" "char_to_byte b p \<le> r" "r < char_to_byte b (p + 1)" and nl: "fetch_byte b r = NL"
  shows "is_nl b p \<and> r = char_to_byte b p"
proof -
  have "NL \<in> set (char_at (nb_chars b) p)" using fetch_in_char [OF p] nl by (metis nth_mem)
  then have n: "is_nl b p" using ok char_at_mem [OF p(1,2)] by (auto simp: is_nl_def nb_ok_def list_all_iff)
  then show ?thesis using ctb_nl [OF p(1,2)] p by simp
qed

lemma memchr_nl_spec:
  "(case memchr_nl b q lim of Some r \<Rightarrow> fetch_byte b r = NL \<and> (\<forall>x. q \<le> x \<longrightarrow> x < r \<longrightarrow> fetch_byte b x \<noteq> NL)
    | None \<Rightarrow> \<forall>x. q \<le> x \<longrightarrow> x < lim \<longrightarrow> fetch_byte b x \<noteq> NL)"
proof (induction b q lim rule: memchr_nl.induct)
  case (1 b q lim)
  have le: "q \<le> x \<longleftrightarrow> x = q \<or> q + 1 \<le> x" for x by auto
  show ?case
  proof (cases "q < lim \<and> fetch_byte b q \<noteq> NL")
    case True
    then have "memchr_nl b q lim = memchr_nl b (q + 1) lim" by (subst memchr_nl.simps) simp
    then show ?thesis using 1 True by (auto simp: le split: option.splits)
  next
    case False
    then show ?thesis by (subst memchr_nl.simps) auto
  qed
qed

lemma memchr_chars:
  assumes ok: "nb_ok b" and s: "1 \<le> s" "s \<le> e" "e \<le> nb_z b"
  shows "case memchr_nl b (char_to_byte b s) (char_to_byte b e) of
      None \<Rightarrow> \<forall>p. s \<le> p \<longrightarrow> p < e \<longrightarrow> \<not> is_nl b p
    | Some r \<Rightarrow> \<exists>p. s \<le> p \<and> p < e \<and> r = char_to_byte b p \<and> is_nl b p \<and> (\<forall>x. s \<le> x \<longrightarrow> x < p \<longrightarrow> \<not> is_nl b x)"
proof -
  have mono: "char_to_byte b x \<le> char_to_byte b y" if "1 \<le> x" "x \<le> y" "y \<le> nb_z b" for x y
    using ctb_mono_strict [OF ok, of x y] that by (cases "x = y") auto
  have free: "\<not> is_nl b x" if "\<forall>q. char_to_byte b s \<le> q \<longrightarrow> q < r \<longrightarrow> fetch_byte b q \<noteq> NL" "s \<le> x" "char_to_byte b x < r" "x < nb_z b" for r x
    using that fetch_nl [OF ok, of x] mono [of s x] s by auto
  show ?thesis
  proof (cases "memchr_nl b (char_to_byte b s) (char_to_byte b e)")
    case None
    then show ?thesis using free [of "char_to_byte b e"] memchr_nl_spec [where b = b and q = "char_to_byte b s" and lim = "char_to_byte b e"]
        ctb_mono_strict [OF ok] s by auto
  next
    case (Some r)
    note r = memchr_nl_range [OF Some] memchr_nl_spec [where b = b and q = "char_to_byte b s" and lim = "char_to_byte b e", unfolded Some, simplified]
    have "s < e" using r(1) s(2) by (cases "s = e") auto
    then obtain p where p: "s \<le> p" "p < e" "char_to_byte b p \<le> r" "r < char_to_byte b (p + 1)"
      using byte_in_char r(1) by blast
    have "is_nl b p \<and> r = char_to_byte b p" using nl_byte [OF ok _ _ p(3,4)] p s r(2) by simp
    moreover from this have "\<not> is_nl b x" if "s \<le> x" "x < p" for x
      using free [of r x] r(2) that ctb_mono_strict [OF ok, of x p] p s by simp
    ultimately show ?thesis using Some p by auto
  qed
qed

section \<open>The reference\<close>

text \<open>One character at a time, no cache and no gap: the position after the wanted newline with nothing left to count,
  or the end with what is left.\<close>

function nl_spec :: "nl_buffer \<Rightarrow> int \<Rightarrow> int \<Rightarrow> int \<Rightarrow> int \<times> int" where
  "nl_spec b en s k =
     (if s < en then
        (if is_nl b s then (if k = 1 then (s + 1, 0) else nl_spec b en (s + 1) (k - 1))
         else nl_spec b en (s + 1) k)
      else (en, k))"
  by pat_completeness auto
termination
  by (relation "measure (\<lambda>(b, en, s, k). nat (en - s))") auto

declare nl_spec.simps [simp del]

lemma nl_spec_end [simp]: "en \<le> s \<Longrightarrow> nl_spec b en s k = (en, k)"
  by (subst nl_spec.simps) simp

lemma nl_spec_skip:
  assumes "s \<le> t" "\<And>p. s \<le> p \<Longrightarrow> p < t \<Longrightarrow> p < en \<Longrightarrow> \<not> is_nl b p" shows "nl_spec b en s k = nl_spec b en t k"
  using assms
proof (induction t rule: int_ge_induct)
  case (step i)
  then have "nl_spec b en s k = nl_spec b en i k" by simp
  moreover have "nl_spec b en i k = nl_spec b en (i + 1) k"
    using step.hyps step.prems [of i] by (cases "i < en") (simp_all add: nl_spec.simps [of b en i])
  ultimately show ?case by simp
qed simp

lemma nl_spec_hit:
  "s < en \<Longrightarrow> is_nl b s \<Longrightarrow> nl_spec b en s k = (if k = 1 then (s + 1, 0) else nl_spec b en (s + 1) (k - 1))"
  by (subst nl_spec.simps) simp

lemma eat_newlines_spec:
  assumes ok: "nb_ok b" and en: "en \<le> nb_z b" and "1 \<le> s" "0 < k" "lim \<le> en" "eat_newlines b s (char_to_byte b s) lim k = (s2, q2, k2)"
  shows "s \<le> s2 \<and> s2 \<le> max s lim \<and> q2 = char_to_byte b s2 \<and>
    (k2 = 0 \<and> nl_spec b en s k = (s2, 0) \<or> 0 < k2 \<and> nl_spec b en s k = nl_spec b en s2 k2 \<and> (s2 < lim \<longrightarrow> \<not> is_nl b s2))"
  using assms(3-)
proof (induction "nat (lim - s)" arbitrary: s k rule: less_induct)
  case less
  show ?case
  proof (cases "s < lim \<and> is_nl b s")
    case True
    then have st: "s < en" "s < nb_z b" "fetch_byte b (char_to_byte b s) = NL" "char_to_byte b (s + 1) = char_to_byte b s + 1"
      using less.prems en fetch_nl [OF ok, of s] ctb_nl [of s b] by auto
    show ?thesis
    proof (cases "k = 1")
      case k: True
      have "eat_newlines b s (char_to_byte b s) lim k = (s + 1, char_to_byte b s + 1, 0)"
        using True k st(3) by (subst eat_newlines.simps) simp
      then show ?thesis using less.prems True k st nl_spec_hit [of s en b k] by auto
    next
      case False
      have "eat_newlines b s (char_to_byte b s) lim k = eat_newlines b (s + 1) (char_to_byte b (s + 1)) lim (k - 1)"
        using True False st by (subst eat_newlines.simps) simp
      then have "eat_newlines b (s + 1) (char_to_byte b (s + 1)) lim (k - 1) = (s2, q2, k2)" using less.prems(4) by simp
      from less.hyps [OF _ _ _ _ this] show ?thesis
        using less.prems True False st nl_spec_hit [of s en b k] by auto
    qed
  next
    case False
    then have "eat_newlines b s (char_to_byte b s) lim k = (s, char_to_byte b s, k)"
      using less.prems en fetch_nl [OF ok, of s] by (subst eat_newlines.simps) auto
    then show ?thesis using less.prems False by auto
  qed
qed

section \<open>The loops follow the reference\<close>

abbreviation nl_history :: "nl_buffer \<Rightarrow> region_cache \<Rightarrow> bool" where
  "nl_history b \<equiv> region_history (\<lambda>c. c \<noteq> [NL]) (nb_chars b)"

lemma nl_history_forward:
  assumes h: "nl_history b c" and s: "1 \<le> s" "s < nb_z b" and q: "region_cache_forward (nb_z b) s c = (v, nc, c1)"
  shows "nl_history b c1" and "s < nc" and "nc \<le> nb_z b" and "v \<noteq> 0 \<Longrightarrow> s \<le> p \<Longrightarrow> p < nc \<Longrightarrow> \<not> is_nl b p"
proof -
  have cs: "cache_sound (\<lambda>c. c \<noteq> [NL]) (nb_chars b) c" using region_history_sound [OF h] .
  note f = forward_uniform [OF cs s(1) q]
  show "nl_history b c1" using region_history.asked_forward [OF h s(1)] q by simp
  show "s < nc" "nc \<le> nb_z b" using f(3) [OF s(2)] by auto
  show "\<not> is_nl b p" if "v \<noteq> 0" "s \<le> p" "p < nc"
    using f(1) f(3) [OF s(2)] that s by (auto simp: cache_fresh_def is_nl_def)
qed

lemma cache_skip_spec:
  assumes ok: "nb_ok b" and en: "en \<le> nb_zv b"
  shows "nl_history b c \<Longrightarrow> 1 \<le> s \<Longrightarrow> 0 < k \<Longrightarrow>
    (\<exists>s2 c2. cache_skip b en s sb nc k c = Some (SkipFound s2 (char_to_byte b s2) c2) \<and> nl_history b c2 \<and> nl_spec b en s k = (s2, 0)) \<or>
    (\<exists>s2 q2 nc2 k2 c2. cache_skip b en s sb nc k c = Some (Skipped s2 q2 nc2 k2 c2) \<and> nl_history b c2 \<and> s \<le> s2 \<and> 0 < k2 \<and>
       nl_spec b en s k = nl_spec b en s2 k2 \<and> (s < en \<longrightarrow> s2 < en \<longrightarrow> q2 = char_to_byte b s2 \<and> s2 < nc2 \<and> nc2 \<le> nb_z b))"
proof (induction "nat (en - s)" arbitrary: s sb nc k c rule: less_induct)
  case less
  have z: "en \<le> nb_z b" "nb_zv b \<le> nb_z b" using ok en by (auto simp: nb_ok_def)
  show ?case
  proof (cases "s < en")
    case True
    obtain v nc0 c1 where q: "region_cache_forward (nb_z b) s c = (v, nc0, c1)" by (metis prod_cases3)
    have sz: "s < nb_z b" using True z by simp
    note f = nl_history_forward [OF less.prems(1,2) sz q]
    define s1 where "s1 = (if v \<noteq> 0 then (if nc0 > nb_zv b then nb_zv b else nc0) else s)"
    define nc1 where "nc1 = (if v \<noteq> 0 then en else nc0)"
    define lim where "lim = (if v \<noteq> 0 then en else min nc0 en)"
    obtain s2 q2 k2 where eat: "eat_newlines b s1 (char_to_byte b s1) lim k = (s2, q2, k2)" by (metis prod_cases3)
    have step: "cache_skip b en s sb nc k c =
       (if k2 = 0 then Some (SkipFound s2 q2 c1)
        else if s2 < nc1 \<and> v = 0 then Some (Skipped s2 q2 nc1 k2 c1) else cache_skip b en s2 q2 nc1 k2 c1)"
      using True by (subst cache_skip.simps) (simp add: q Let_def eat flip: s1_def nc1_def lim_def, simp add: nc1_def)
    have s1: "s \<le> s1" "v \<noteq> 0 \<Longrightarrow> s < s1" using f(2) True en by (auto simp: s1_def)
    have skip: "nl_spec b en s k = nl_spec b en s1 k"
      using f(4) s1(1) by (intro nl_spec_skip) (auto simp: s1_def split: if_split_asm)
    have lim: "lim \<le> en" by (simp add: lim_def)
    have e: "s1 \<le> s2 \<and> s2 \<le> max s1 lim \<and> q2 = char_to_byte b s2 \<and>
      (k2 = 0 \<and> nl_spec b en s1 k = (s2, 0) \<or> 0 < k2 \<and> nl_spec b en s1 k = nl_spec b en s2 k2 \<and> (s2 < lim \<longrightarrow> \<not> is_nl b s2))"
      using eat_newlines_spec [OF ok z(1) _ less.prems(3) lim eat] s1(1) less.prems(2) by linarith
    show ?thesis
    proof (cases "k2 = 0 \<or> s2 < nc1 \<and> v = 0")
      case True
      then show ?thesis using step e skip f s1(1) by (auto simp: nc1_def split: if_split_asm)
    next
      case False
      then have rec: "cache_skip b en s sb nc k c = cache_skip b en s2 q2 nc1 k2 c1" unfolding step by auto
      have prog: "s < s2" using False e s1 f(2) by (auto simp: nc1_def split: if_split_asm)
      then have "nat (en - s2) < nat (en - s)" using True by simp
      note IH = less.hyps [OF this f(1), of k2 q2 nc1]
      have "1 \<le> s2" "0 < k2" using prog less.prems(2) e False by auto
      note IH = IH [OF this, folded rec]
      have sp: "nl_spec b en s k = nl_spec b en s2 k2" using skip e False by auto
      show ?thesis
      proof (cases "s2 < en")
        case True
        then show ?thesis using IH sp prog by (auto; force)
      next
        case False
        then have "cache_skip b en s2 q2 nc1 k2 c1 = Some (Skipped s2 q2 nc1 k2 c1)" by (subst cache_skip.simps) simp
        then show ?thesis using rec sp prog f(1) \<open>0 < k2\<close> False by auto
      qed
    qed
  next
    case False
    then have "cache_skip b en s sb nc k c = Some (Skipped s sb nc k c)" by (subst cache_skip.simps) simp
    then show ?thesis using less.prems False by auto
  qed
qed

lemma dumb_forward_spec:
  assumes ok: "nb_ok b" and en: "en \<le> nb_z b"
  shows "1 \<le> s \<Longrightarrow> s \<le> e \<Longrightarrow> e \<le> en \<Longrightarrow> 0 < k \<Longrightarrow> pred_option (nl_history b) c \<Longrightarrow>
    \<exists>found k' c'. dumb_forward b (char_to_byte b s) (char_to_byte b e) k c = (found, k', c') \<and>
      pred_option (nl_history b) c' \<and> (c' = None \<longleftrightarrow> c = None) \<and>
      (case found of
         Some q \<Rightarrow> \<exists>p. 1 \<le> p \<and> p \<le> nb_z b \<and> q = char_to_byte b p \<and> nl_spec b en s k = (p, 0)
       | None \<Rightarrow> 0 < k' \<and> nl_spec b en s k = nl_spec b en e k')"
proof (induction "nat (e - s)" arbitrary: s k c rule: less_induct)
  case less
  let ?m = "memchr_nl b (char_to_byte b s) (char_to_byte b e)"
  have ez: "e \<le> nb_z b" using less.prems en by simp
  note m = memchr_chars [OF ok less.prems(1,2) ez]
  have know: "pred_option (nl_history b) (map_option (know_region_cache (nb_z b) s p) c)"
    if "s \<le> p" "p \<le> e" "\<And>x. s \<le> x \<Longrightarrow> x < p \<Longrightarrow> \<not> is_nl b x" for p
    using region_history.known [of "\<lambda>c. c \<noteq> [NL]" "nb_chars b" _ s p] less.prems ez that by (cases c) (auto simp: is_nl_def)
  show ?case
  proof (cases "s < e")
    case False
    then have "s = e" using less.prems by simp
    then show ?thesis using less.prems by (subst dumb_forward.simps) auto
  next
    case True
    then have lt: "char_to_byte b s < char_to_byte b e" using ctb_mono_strict [OF ok less.prems(1) _ ez] by simp
    have btc: "byte_to_char b (char_to_byte b s) = s" "byte_to_char b (char_to_byte b e) = e"
      using btc_ctb [OF ok] less.prems ez by auto
    show ?thesis
    proof (cases ?m)
      case None
      have free: "\<not> is_nl b p" if "s \<le> p" "p < e" for p using m None that by simp
      have "dumb_forward b (char_to_byte b s) (char_to_byte b e) k c = (None, k, map_option (know_region_cache (nb_z b) s e) c)"
        using lt None btc by (subst dumb_forward.simps) simp
      moreover have "nl_spec b en s k = nl_spec b en e k" using less.prems(2) free by (intro nl_spec_skip)
      ultimately show ?thesis using know [of e] free less.prems by auto
    next
      case (Some r)
      then obtain p where p: "s \<le> p" "p < e" "r = char_to_byte b p" "is_nl b p" "\<And>x. s \<le> x \<Longrightarrow> x < p \<Longrightarrow> \<not> is_nl b x"
        using m by auto
      have btp: "byte_to_char b (char_to_byte b p) = p" using btc_ctb [OF ok, of p] p less.prems ez by auto
      have r1: "r + 1 = char_to_byte b (p + 1)" using ctb_nl [of p b] p less.prems ez by simp
      define c1 where "c1 = (if char_to_byte b s \<noteq> r then map_option (know_region_cache (nb_z b) s p) c else c)"
      have c1: "pred_option (nl_history b) c1" "c1 = None \<longleftrightarrow> c = None"
        using know [of p] p less.prems(5) by (auto simp: c1_def)
      have sp: "nl_spec b en s k = (if k = 1 then (p + 1, 0) else nl_spec b en (p + 1) (k - 1))"
        using nl_spec_skip [of s p en b k] nl_spec_hit [of p en b k] p less.prems(3) by simp
      have step: "dumb_forward b (char_to_byte b s) (char_to_byte b e) k c =
          (if k - 1 = 0 then (Some (r + 1), 0, c1) else dumb_forward b (char_to_byte b (p + 1)) (char_to_byte b e) (k - 1) c1)"
        using lt Some btc btp p(3) r1 by (subst dumb_forward.simps) (simp add: Let_def c1_def)
      show ?thesis
      proof (cases "k = 1")
        case True
        then show ?thesis using step sp c1 r1 p less.prems ez by auto
      next
        case False
        have "nat (e - (p + 1)) < nat (e - s)" "1 \<le> p + 1" "p + 1 \<le> e" "0 < k - 1" using p less.prems False True by auto
        note IH = less.hyps [OF this(1,2,3) less.prems(3) this(4) c1(1)]
        have sp': "nl_spec b en s k = nl_spec b en (p + 1) (k - 1)" using sp False by simp
        have step': "dumb_forward b (char_to_byte b s) (char_to_byte b e) k c =
            dumb_forward b (char_to_byte b (p + 1)) (char_to_byte b e) (k - 1) c1" using step False by simp
        show ?thesis unfolding sp' step' c1(2) [symmetric] by (rule IH)
      qed
    qed
  qed
qed

lemma ceiling_spec:
  assumes ok: "nb_ok b" and s: "1 \<le> s" "s < nb_zv b"
  shows "\<exists>e. buffer_ceiling_of b (char_to_byte b s) = char_to_byte b e - 1 \<and> s < e \<and> e \<le> nb_zv b"
proof (cases "char_to_byte b s < char_to_byte b (nb_gpt b) \<and> nb_gpt b < nb_zv b")
  case True
  then have "s < nb_gpt b" using ctb_less_iff [OF ok, of s "nb_gpt b"] s ok by (simp add: nb_ok_def)
  then show ?thesis using True by (intro exI [of _ "nb_gpt b"]) (auto simp: buffer_ceiling_of_def)
next
  case False
  then show ?thesis using s by (intro exI [of _ "nb_zv b"]) (auto simp: buffer_ceiling_of_def)
qed

text \<open>One round ends the search as the reference does, or hands a non-empty stretch of characters to the dumb loop.\<close>

lemma scan_window_spec:
  assumes ok: "nb_ok b" and en: "en \<le> nb_zv b" and s: "1 \<le> s" "s < en" and k: "0 < k"
    and c: "pred_option (nl_history b) c" and sb: "c = None \<Longrightarrow> sb = -1 \<or> sb = char_to_byte b s"
  shows "(\<exists>p k' c'. scan_window b en (char_to_byte b en) s sb k c = Some (WinDone (p, char_to_byte b p, k', c')) \<and>
      nl_spec b en s k = (p, k') \<and> pred_option (nl_history b) c' \<and> (c' = None \<longleftrightarrow> c = None)) \<or>
    (\<exists>s2 e k' c'. scan_window b en (char_to_byte b en) s sb k c = Some (WinScan (char_to_byte b s2) (char_to_byte b e - 1) k' c') \<and>
      s \<le> s2 \<and> s2 < e \<and> e \<le> en \<and> 0 < k' \<and> nl_spec b en s k = nl_spec b en s2 k' \<and>
      pred_option (nl_history b) c' \<and> (c' = None \<longleftrightarrow> c = None))"
proof -
  have z: "nb_zv b \<le> nb_z b" using ok by (simp add: nb_ok_def)
  have m1: "min (x - 1) (y - 1) = min x y - 1" for x y :: int by simp
  have ctbmin: "min (char_to_byte b x) (char_to_byte b y) = char_to_byte b (min x y)" if "1 \<le> x" "x \<le> nb_z b" "1 \<le> y" "y \<le> nb_z b" for x y
    using ctb_min [OF ok that] .
  show ?thesis
  proof (cases c)
    case None
    obtain e where e: "buffer_ceiling_of b (char_to_byte b s) = char_to_byte b e - 1" "s < e" "e \<le> nb_zv b"
      using ceiling_spec [OF ok s(1)] s en by auto
    have "scan_window b en (char_to_byte b en) s sb k c = Some (WinScan (char_to_byte b s) (char_to_byte b (min e en) - 1) k None)"
      using None sb e s en z by (auto simp: scan_window_def Let_def m1 ctbmin)
    then show ?thesis using None k e s by (intro disjI2 exI [of _ s] exI [of _ "min e en"] exI) auto
  next
    case (Some c0)
    then have h: "nl_history b c0" using c by simp
    from cache_skip_spec [OF ok en h s(1) k, of sb 0] show ?thesis
    proof (elim disjE exE conjE)
      fix s2 c2 assume a: "cache_skip b en s sb 0 k c0 = Some (SkipFound s2 (char_to_byte b s2) c2)" "nl_history b c2" "nl_spec b en s k = (s2, 0)"
      then show ?thesis using Some by (simp add: scan_window_def)
    next
      fix s2 q2 nc2 k2 c2
      assume a: "cache_skip b en s sb 0 k c0 = Some (Skipped s2 q2 nc2 k2 c2)" "nl_history b c2" "s \<le> s2" "0 < k2"
        "nl_spec b en s k = nl_spec b en s2 k2" "s < en \<longrightarrow> s2 < en \<longrightarrow> q2 = char_to_byte b s2 \<and> s2 < nc2 \<and> nc2 \<le> nb_z b"
      show ?thesis
      proof (cases "s2 < en")
        case False
        then show ?thesis using a Some by (auto simp: scan_window_def)
      next
        case True
        then have q: "q2 = char_to_byte b s2" "s2 < nc2" "nc2 \<le> nb_z b" using a(6) s by auto
        obtain e where e: "buffer_ceiling_of b (char_to_byte b s2) = char_to_byte b e - 1" "s2 < e" "e \<le> nb_zv b"
          using ceiling_spec [OF ok, of s2] s en a(3) True by auto
        have "char_to_byte b s2 < char_to_byte b en" using ctb_mono_strict [OF ok, of s2 en] True s a(3) en z by auto
        then have nq: "\<not> q2 > char_to_byte b en - 1" using q by simp
        have mm: "min (buffer_ceiling_of b q2) (min (char_to_byte b nc2 - 1) (char_to_byte b en - 1)) = char_to_byte b (min e (min nc2 en)) - 1"
          using q e s a(3) True en z by (simp add: m1 ctbmin)
        have "scan_window b en (char_to_byte b en) s sb k c =
            Some (WinScan (char_to_byte b s2) (char_to_byte b (min e (min nc2 en)) - 1) k2 (Some c2))"
          using Some a(1) True nq mm q(1) by (simp add: scan_window_def Let_def)
        then show ?thesis using a q(2) e True Some
          by (intro disjI2 exI [of _ s2] exI [of _ "min e (min nc2 en)"] exI [of _ k2] exI [of _ "Some c2"]) auto
      qed
    qed
  qed
qed

lemma newline_forward_spec:
  assumes ok: "nb_ok b" and en: "en \<le> nb_zv b"
  shows "1 \<le> s \<Longrightarrow> s \<le> en \<Longrightarrow> 0 < k \<Longrightarrow> pred_option (nl_history b) c \<Longrightarrow> sb = -1 \<or> sb = char_to_byte b s \<Longrightarrow>
    \<exists>p q k' c'. newline_forward b en (char_to_byte b en) s sb k c = Some (p, q, k', c') \<and> nl_spec b en s k = (p, k') \<and>
      (q = -1 \<or> q = char_to_byte b p) \<and> pred_option (nl_history b) c' \<and> (c' = None \<longleftrightarrow> c = None)"
proof (induction "nat (en - s)" arbitrary: s sb k c rule: less_induct)
  case less
  have z: "en \<le> nb_z b" using ok en by (simp add: nb_ok_def)
  show ?case
  proof (cases "s = en")
    case True
    then show ?thesis using less.prems by (subst newline_forward.simps) auto
  next
    case False
    then have lt: "s < en" using less.prems by simp
    consider (over) p k' c' where "scan_window b en (char_to_byte b en) s sb k c = Some (WinDone (p, char_to_byte b p, k', c'))"
        "nl_spec b en s k = (p, k')" "pred_option (nl_history b) c'" "c' = None \<longleftrightarrow> c = None"
      | (scan) s2 e k' c' where "scan_window b en (char_to_byte b en) s sb k c = Some (WinScan (char_to_byte b s2) (char_to_byte b e - 1) k' c')"
        "s \<le> s2" "s2 < e" "e \<le> en" "0 < k'" "nl_spec b en s k = nl_spec b en s2 k'" "pred_option (nl_history b) c'" "c' = None \<longleftrightarrow> c = None"
      using scan_window_spec [OF ok en less.prems(1) lt less.prems(3,4) less.prems(5)] by blast
    then show ?thesis
    proof cases
      case over
      then show ?thesis using False by (subst newline_forward.simps) auto
    next
      case scan
      have s2: "1 \<le> s2" "s2 \<le> e" using less.prems(1) scan by simp_all
      obtain found k2 c2 where d: "dumb_forward b (char_to_byte b s2) (char_to_byte b e) k' c' = (found, k2, c2)"
          "pred_option (nl_history b) c2" "c2 = None \<longleftrightarrow> c' = None"
          "case found of Some q \<Rightarrow> \<exists>p. 1 \<le> p \<and> p \<le> nb_z b \<and> q = char_to_byte b p \<and> nl_spec b en s2 k' = (p, 0)
             | None \<Rightarrow> 0 < k2 \<and> nl_spec b en s2 k' = nl_spec b en e k2"
        using dumb_forward_spec [OF ok z s2 scan(4,5,7)] by blast
      have nf: "newline_forward b en (char_to_byte b en) s sb k c =
          (case found of Some q' \<Rightarrow> Some (byte_to_char b q', q', 0, c2)
           | None \<Rightarrow> newline_forward b en (char_to_byte b en) (byte_to_char b (char_to_byte b e)) (char_to_byte b e) k2 c2)"
        using False scan(1) d(1) by (subst newline_forward.simps) (simp split: option.split)
      show ?thesis
      proof (cases found)
        case (Some q)
        then obtain p where p: "1 \<le> p" "p \<le> nb_z b" "q = char_to_byte b p" "nl_spec b en s2 k' = (p, 0)" using d(4) by auto
        then show ?thesis using nf Some btc_ctb [OF ok p(1,2)] d scan by auto
      next
        case None
        have e: "1 \<le> e" "e \<le> nb_z b" using s2 scan z by simp_all
        have "nat (en - e) < nat (en - s)" using scan lt by simp
        note IH = less.hyps [OF this e(1) scan(4) _ d(2), of k2 "char_to_byte b e"]
        have sp: "0 < k2" "nl_spec b en s k = nl_spec b en e k2" using d(4) None scan by simp_all
        have nf': "newline_forward b en (char_to_byte b en) s sb k c = newline_forward b en (char_to_byte b en) e (char_to_byte b e) k2 c2"
          using nf None btc_ctb [OF ok e] by simp
        show ?thesis using IH [OF sp(1)] d(3) scan(8) unfolding nf' sp(2) by simp
      qed
    qed
  qed
qed

text \<open>Forwards, the search finds what a scan of every character finds.\<close>

lemma find_newline_exact:
  assumes "nb_ok b" "1 \<le> start" "start \<le> en" "en \<le> nb_zv b" "0 < count"
    "start_byte = -1 \<or> start_byte = char_to_byte b start" "end_byte = -1 \<or> end_byte = char_to_byte b en"
    "pred_option (nl_history b) c"
  shows "\<exists>c'. find_newline_fwd b start start_byte en end_byte count c =
      Some (fst (nl_spec b en start count), char_to_byte b (fst (nl_spec b en start count)), count - snd (nl_spec b en start count), c') \<and>
    pred_option (nl_history b) c' \<and> (c' = None \<longleftrightarrow> c = None)"
proof -
  obtain p q k' c' where n: "newline_forward b en (char_to_byte b en) start start_byte count c = Some (p, q, k', c')"
      "nl_spec b en start count = (p, k')" "q = -1 \<or> q = char_to_byte b p" "pred_option (nl_history b) c'" "c' = None \<longleftrightarrow> c = None"
    using newline_forward_spec [OF assms(1,4,2,3,5,8,6)] by blast
  have "(if end_byte = -1 then char_to_byte b en else end_byte) = char_to_byte b en" "en \<noteq> 0" using assms by auto
  then have "find_newline_fwd b start start_byte en end_byte count c = Some (p, char_to_byte b p, count - k', c')"
    using n(1,3) by (auto simp: find_newline_fwd_def Let_def)
  then show ?thesis using n by simp
qed

definition sample_nl_buffer :: nl_buffer where
  "sample_nl_buffer = \<lparr>nb_chars = [''a'', [NL], [CHR 0xC3, CHR 0xA9], ''b'', [NL], ''c''], nb_gpt = 4, nb_begv = 1, nb_zv = 7\<rparr>"

end
