(* ===== verification/C_Arrays.thy ===== *)
theory C_Arrays
  imports Cmacs_Prelude "HOL-Library.Multiset"
begin

text \<open>
  Array idioms of the C sources: \<^verbatim>\<open>qsort\<close> with a comparison callback, prefix sums of a list of
  counts, the bucket scatter (write each item at the cursor of its bucket and advance the
  cursor), which serves both the counting sort and the compressed adjacency of the graph store,
  and overwriting a stretch of an array.
\<close>

section \<open>Sorting with a comparison callback\<close>

fun insert_by :: "('a \<Rightarrow> 'a \<Rightarrow> int) \<Rightarrow> 'a \<Rightarrow> 'a list \<Rightarrow> 'a list" where
  "insert_by cmp x [] = [x]"
| "insert_by cmp x (y # ys) = (if cmp x y \<le> 0 then x # y # ys else y # insert_by cmp x ys)"

definition qsort_by :: "('a \<Rightarrow> 'a \<Rightarrow> int) \<Rightarrow> 'a list \<Rightarrow> 'a list" where
  "qsort_by cmp xs = foldr (insert_by cmp) xs []"

lemma mset_insert_by [simp]: "mset (insert_by cmp x ys) = add_mset x (mset ys)"
  by (induction ys) auto

lemma mset_qsort_by [simp]: "mset (qsort_by cmp xs) = mset xs"
  unfolding qsort_by_def by (induction xs) auto

lemma set_insert_by [simp]: "set (insert_by cmp x ys) = insert x (set ys)"
  by (induction ys) auto

lemma set_qsort_by [simp]: "set (qsort_by cmp xs) = set xs"
  by (rule mset_eq_setD) simp

lemma length_qsort_by [simp]: "length (qsort_by cmp xs) = length xs"
  by (metis mset_qsort_by size_mset)

text \<open>
  The C standard fixes the result of \<^verbatim>\<open>qsort\<close> only when the comparison is a total preorder on
  the elements, and uniquely only when no two different elements compare equal. The locale states
  that contract; under it every sorting algorithm returns what \<^const>\<open>qsort_by\<close> returns.
\<close>

locale c_comparison =
  fixes cmp :: "'a \<Rightarrow> 'a \<Rightarrow> int" and carrier :: "'a \<Rightarrow> bool"
  assumes cmp_total: "carrier x \<Longrightarrow> carrier y \<Longrightarrow> cmp x y \<le> 0 \<or> cmp y x \<le> 0"
    and cmp_trans: "carrier x \<Longrightarrow> carrier y \<Longrightarrow> carrier z \<Longrightarrow> cmp x y \<le> 0 \<Longrightarrow> cmp y z \<le> 0 \<Longrightarrow> cmp x z \<le> 0"
begin

lemma insert_sorted:
  "carrier x \<Longrightarrow> (\<And>y. y \<in> set ys \<Longrightarrow> carrier y) \<Longrightarrow> sorted_wrt (\<lambda>x y. cmp x y \<le> 0) ys \<Longrightarrow>
     sorted_wrt (\<lambda>x y. cmp x y \<le> 0) (insert_by cmp x ys)"
proof (induction ys)
  case (Cons y ys)
  show ?case
  proof (cases "cmp x y \<le> 0")
    case True
    have "cmp x z \<le> 0" if "z \<in> set ys" for z
      using cmp_trans [of x y z] Cons.prems that True by auto
    with True Cons.prems show ?thesis by simp
  next
    case False
    then have "cmp y x \<le> 0" using cmp_total [of x y] Cons.prems by auto
    with False Cons show ?thesis by simp
  qed
qed simp

lemma qsort_sorted:
  "(\<And>x. x \<in> set xs \<Longrightarrow> carrier x) \<Longrightarrow> sorted_wrt (\<lambda>x y. cmp x y \<le> 0) (qsort_by cmp xs)"
proof (induction xs)
  case (Cons x xs)
  have "set (foldr (insert_by cmp) xs []) = set xs" using set_qsort_by [of cmp xs] by (simp add: qsort_by_def)
  with Cons show ?case by (auto simp: qsort_by_def intro!: insert_sorted)
qed (simp add: qsort_by_def)

end

locale c_total_comparison = c_comparison +
  assumes cmp_antisym: "carrier x \<Longrightarrow> carrier y \<Longrightarrow> cmp x y \<le> 0 \<Longrightarrow> cmp y x \<le> 0 \<Longrightarrow> x = y"
begin

lemma sorted_unique:
  "sorted_wrt (\<lambda>x y. cmp x y \<le> 0) xs \<Longrightarrow> sorted_wrt (\<lambda>x y. cmp x y \<le> 0) ys \<Longrightarrow> mset xs = mset ys \<Longrightarrow>
     (\<And>x. x \<in> set xs \<Longrightarrow> carrier x) \<Longrightarrow> xs = ys"
proof (induction xs arbitrary: ys)
  case (Cons x xs)
  then obtain y zs where ys: "ys = y # zs" by (cases ys) auto
  have same: "set ys = set (x # xs)" using mset_eq_setD [OF Cons.prems(3)] by simp
  have "x = y"
  proof (rule ccontr)
    assume ne: "x \<noteq> y"
    then have "y \<in> set xs" "x \<in> set zs" using same ys by auto
    then have "cmp x y \<le> 0" "cmp y x \<le> 0" using Cons.prems(1,2) ys by auto
    moreover have "carrier x" "carrier y" using Cons.prems(4) \<open>y \<in> set xs\<close> by auto
    ultimately show False using cmp_antisym ne by blast
  qed
  moreover have "xs = zs" using Cons.IH [of zs] Cons.prems ys \<open>x = y\<close> by simp
  ultimately show ?case using ys by simp
qed simp

text \<open>The order in which the elements came does not show in the result.\<close>

lemma qsort_unique:
  assumes "mset xs = mset ys" and "\<And>x. x \<in> set xs \<Longrightarrow> carrier x"
    and "sorted_wrt (\<lambda>x y. cmp x y \<le> 0) ys"
  shows "qsort_by cmp xs = ys"
  using assms by (intro sorted_unique) (simp_all add: qsort_sorted)

lemma qsort_order_free:
  assumes "mset xs = mset ys" and "\<And>x. x \<in> set xs \<Longrightarrow> carrier x"
  shows "qsort_by cmp xs = qsort_by cmp ys"
  using assms mset_eq_setD [OF assms(1)] by (intro qsort_unique) (auto intro: qsort_sorted)

end

section \<open>Prefix sums and buckets\<close>

fun bucket_starts :: "nat \<Rightarrow> nat list \<Rightarrow> nat list" where
  "bucket_starts acc [] = []"
| "bucket_starts acc (c # cs) = acc # bucket_starts (acc + c) cs"

lemma length_bucket_starts [simp]: "length (bucket_starts acc cs) = length cs"
  by (induction cs arbitrary: acc) auto

lemma bucket_starts_nth: "k < length cs \<Longrightarrow> bucket_starts acc cs ! k = acc + sum_list (take k cs)"
proof (induction cs arbitrary: acc k)
  case (Cons c cs)
  then show ?case by (cases k) auto
qed simp

text \<open>The items of bucket \<open>k\<close> in the order they come, how many there are, and where they start.\<close>

definition bucket :: "(nat \<times> 'a) list \<Rightarrow> nat \<Rightarrow> 'a list" where
  "bucket items k = map snd (filter (\<lambda>x. fst x = k) items)"

definition bucket_start :: "(nat \<times> 'a) list \<Rightarrow> nat \<Rightarrow> nat" where
  "bucket_start items k = sum_list (map (\<lambda>j. length (bucket items j)) [0..<k])"

lemma bucket_Nil [simp]: "bucket [] k = []"
  by (simp add: bucket_def)

lemma bucket_snoc: "bucket (xs @ [(k, v)]) j = bucket xs j @ (if j = k then [v] else [])"
  by (simp add: bucket_def)

lemma bucket_append: "bucket (xs @ ys) k = bucket xs k @ bucket ys k"
  by (simp add: bucket_def)

lemma bucket_start_Suc [simp]: "bucket_start items (Suc k) = bucket_start items k + length (bucket items k)"
  by (simp add: bucket_start_def)

lemma bucket_start_mono: "j \<le> k \<Longrightarrow> bucket_start items j \<le> bucket_start items k"
  by (induction k) (auto simp: le_Suc_eq)

lemma bucket_end_le: "j < k \<Longrightarrow> bucket_start items j + length (bucket items j) \<le> bucket_start items k"
  using bucket_start_mono [of "Suc j" k items] by simp

lemma bucket_start_total:
  "\<forall>x \<in> set items. fst x < K \<Longrightarrow> bucket_start items K = length items"
proof (induction items rule: rev_induct)
  case (snoc x xs)
  obtain k v where x: "x = (k, v)" by (cases x)
  have "bucket_start (xs @ [(k, v)]) m = bucket_start xs m + (if k < m then 1 else 0)" for m
    by (induction m) (auto simp: bucket_snoc bucket_start_def)
  with snoc x show ?case by simp
qed (simp add: bucket_start_def)

definition place :: "nat \<times> 'a \<Rightarrow> 'a list \<times> nat list \<Rightarrow> 'a list \<times> nat list" where
  "place x st = (case st of (arr, b) \<Rightarrow>
     (arr[b ! fst x := snd x], b[fst x := Suc (b ! fst x)]))"

text \<open>After some of the items are placed, each bucket's stretch begins with its items so far.\<close>

definition placed_ok :: "(nat \<times> 'a) list \<Rightarrow> nat \<Rightarrow> (nat \<times> 'a) list \<Rightarrow> 'a list \<times> nat list \<Rightarrow> bool" where
  "placed_ok items K pre st \<longleftrightarrow> length (fst st) = length items \<and> K \<le> length (snd st) \<and>
     (\<forall>k < K. snd st ! k = bucket_start items k + length (bucket pre k) \<and>
        take (length (bucket pre k)) (drop (bucket_start items k) (fst st)) = bucket pre k)"

lemma take_drop_update:
  "i < s \<or> s + c \<le> i \<Longrightarrow> take c (drop s (xs[i := v])) = take c (drop s xs)"
  by (auto simp: drop_update_swap take_update_cancel)

lemma take_drop_extend:
  "s + c < length xs \<Longrightarrow> take (Suc c) (drop s (xs[s + c := v])) = take c (drop s xs) @ [v]"
  by (simp add: take_Suc_conv_app_nth drop_update_swap)

lemma placed_ok_step:
  assumes ok: "placed_ok items K pre st" and all: "items = pre @ (k, v) # rest"
    and keys: "\<forall>x \<in> set items. fst x < K"
  shows "placed_ok items K (pre @ [(k, v)]) (place (k, v) st)"
proof -
  obtain arr b where st: "st = (arr, b)" by (cases st)
  have kK: "k < K" using all keys by auto
  have len: "length (bucket pre k) < length (bucket items k)"
    by (simp add: all bucket_def)
  have le: "length (bucket pre j) \<le> length (bucket items j)" for j
    by (simp add: all bucket_def)
  have bk: "b ! k = bucket_start items k + length (bucket pre k)" and la: "length arr = length items"
    and lb: "K \<le> length b"
    using ok kK by (auto simp: placed_ok_def st)
  have fits: "b ! k < length arr"
    using bucket_end_le [OF kK, of items] len bucket_start_total [OF keys] bk la by linarith
  have "snd (place (k, v) st) ! j = bucket_start items j + length (bucket (pre @ [(k, v)]) j) \<and>
      take (length (bucket (pre @ [(k, v)]) j)) (drop (bucket_start items j) (fst (place (k, v) st)))
        = bucket (pre @ [(k, v)]) j" if j: "j < K" for j
  proof (cases "j = k")
    case True
    then show ?thesis
      using ok kK fits lb take_drop_extend [of "bucket_start items k" "length (bucket pre k)" arr v] bk
      by (simp add: placed_ok_def st place_def bucket_snoc)
  next
    case False
    have "b ! k < bucket_start items j \<or> bucket_start items j + length (bucket pre j) \<le> b ! k"
    proof (cases "k < j")
      case True
      then show ?thesis using bucket_end_le [of k j items] bk len by linarith
    next
      case False
      then show ?thesis using bucket_end_le [of j k items] \<open>j \<noteq> k\<close> bk le [of j] by linarith
    qed
    with False ok j show ?thesis
      by (simp add: placed_ok_def st place_def bucket_snoc take_drop_update)
  qed
  then show ?thesis using la lb by (simp add: placed_ok_def st place_def)
qed

lemma placed_ok_fold:
  assumes "placed_ok items K pre st" "items = pre @ rest" "\<forall>x \<in> set items. fst x < K"
  shows "placed_ok items K items (fold place rest st)"
  using assms
proof (induction rest arbitrary: pre st)
  case (Cons x rest)
  obtain k v where x: "x = (k, v)" by (cases x)
  have "placed_ok items K (pre @ [(k, v)]) (place (k, v) st)"
    using placed_ok_step [OF Cons.prems(1) _ Cons.prems(3)] Cons.prems(2) x by blast
  then show ?case using Cons.IH [of "pre @ [(k, v)]"] Cons.prems x by simp
qed simp

lemma slices_concat:
  assumes "\<And>k. k < K \<Longrightarrow> take (c k) (drop (s k) arr) = vs k" and "\<And>k. s (Suc k) = s k + c k" and "s 0 = 0"
    and "K \<le> N" "s N \<le> length arr"
  shows "take (s K) arr = concat (map vs [0..<K])"
  using assms(1,4)
proof (induction K)
  case (Suc K)
  have "take (s (Suc K)) arr = take (s K) arr @ take (c K) (drop (s K) arr)"
    by (simp add: assms(2) take_add)
  with Suc show ?case by simp
qed (simp add: assms(3))

text \<open>The array ends up as the buckets one after the other.\<close>

lemma scatter_buckets:
  assumes "\<forall>x \<in> set items. fst x < K" "length arr = length items"
    and "K \<le> length b" "\<And>k. k < K \<Longrightarrow> b ! k = bucket_start items k"
  shows "fst (fold place items (arr, b)) = concat (map (bucket items) [0..<K])"
    and "k < K \<Longrightarrow>
      take (length (bucket items k)) (drop (bucket_start items k) (fst (fold place items (arr, b)))) = bucket items k"
proof -
  have "placed_ok items K [] (arr, b)" using assms by (simp add: placed_ok_def)
  then have ok: "placed_ok items K items (fold place items (arr, b))"
    using placed_ok_fold [of items K "[]" "(arr, b)" items] assms(1) by simp
  then show "k < K \<Longrightarrow>
      take (length (bucket items k)) (drop (bucket_start items k) (fst (fold place items (arr, b)))) = bucket items k"
    by (simp add: placed_ok_def)
  let ?r = "fst (fold place items (arr, b))"
  have "take (bucket_start items K) ?r = concat (map (bucket items) [0..<K])"
    using ok bucket_start_total [OF assms(1)]
    by (intro slices_concat [where N = K and c = "\<lambda>k. length (bucket items k)"])
       (simp_all add: placed_ok_def bucket_start_def)
  then show "?r = concat (map (bucket items) [0..<K])"
    using ok bucket_start_total [OF assms(1)] by (simp add: placed_ok_def)
qed

lemma concat_buckets_mset:
  "\<forall>x \<in> set items. fst x < K \<Longrightarrow> mset (concat (map (bucket items) [0..<K])) = mset (map snd items)"
proof (induction items rule: rev_induct)
  case (snoc x xs)
  obtain k v where x: "x = (k, v)" by (cases x)
  have "mset (concat (map (bucket (xs @ [(k, v)])) [0..<m])) =
      mset (concat (map (bucket xs) [0..<m])) + (if k < m then {#v#} else {#})" for m
    by (induction m) (auto simp: bucket_snoc)
  with snoc x show ?case by simp
next
  case Nil
  show ?case by (induction K) simp_all
qed

section \<open>Overwriting part of an array\<close>

definition write_at :: "nat \<Rightarrow> 'a list \<Rightarrow> 'a list \<Rightarrow> 'a list" where
  "write_at off xs arr = take off arr @ xs @ drop (off + length xs) arr"

text \<open>\<^verbatim>\<open>g_array_set_size\<close>\<close>

definition set_size :: "nat \<Rightarrow> 'a \<Rightarrow> 'a list \<Rightarrow> 'a list" where
  "set_size k z arr = take k arr @ replicate (k - length arr) z"

lemma length_set_size [simp]: "length (set_size k z arr) = k"
  by (simp add: set_size_def)

lemma length_write_at: "off + length xs \<le> length arr \<Longrightarrow> length (write_at off xs arr) = length arr"
  by (simp add: write_at_def)

lemma take_write_at:
  "off + length xs \<le> length arr \<Longrightarrow> take (off + length xs) (write_at off xs arr) = take off arr @ xs"
  by (simp add: write_at_def)

lemma write_all:
  assumes "\<And>k. s (Suc k) = s k + length (vs k)" "s 0 = 0" "s N \<le> length arr" "K \<le> N"
  shows "length (fold (\<lambda>k. write_at (s k) (vs k)) [0..<K] arr) = length arr \<and>
    take (s K) (fold (\<lambda>k. write_at (s k) (vs k)) [0..<K] arr) = concat (map vs [0..<K])"
  using assms(4)
proof (induction K)
  case (Suc K)
  let ?a = "fold (\<lambda>k. write_at (s k) (vs k)) [0..<K] arr"
  have "s k \<le> s (k + d)" for k d by (induction d) (auto simp: assms(1) intro: le_trans)
  from this [of "Suc K" "N - Suc K"] have "s (Suc K) \<le> s N" using Suc.prems by simp
  then have "s K + length (vs K) \<le> length ?a" using assms(1,3) Suc by simp
  with Suc show ?case
    using take_write_at [of "s K" "vs K" ?a] length_write_at [of "s K" "vs K" ?a] by (simp add: assms(1))
qed (simp add: assms(2))

lemma concat_stretch:
  assumes "\<And>k. s (Suc k) = s k + length (vs k)" "s 0 = 0" "i < N"
  shows "take (length (vs i)) (drop (s i) (concat (map vs [0..<N]))) = vs i"
    and "s i + length (vs i) \<le> s N"
proof -
  have len: "length (concat (map vs [0..<K])) = s K" for K
    by (induction K) (simp_all add: assms(1,2))
  have "[0..<N] = [0..<i] @ i # [Suc i..<N]"
    using assms(3) upt_add_eq_append [of 0 i "N - i"] by (simp add: upt_conv_Cons)
  then have split: "concat (map vs [0..<N]) = concat (map vs [0..<i]) @ vs i @ concat (map vs [Suc i..<N])"
    by simp
  then show "take (length (vs i)) (drop (s i) (concat (map vs [0..<N]))) = vs i"
    using len [of i] by simp
  show "s i + length (vs i) \<le> s N"
    using arg_cong [OF split, of length] len [of i] len [of N] by simp
qed

lemma write_all_stretch:
  assumes "\<And>k. s (Suc k) = s k + length (vs k)" "s 0 = 0" "s N \<le> length arr" "i < N"
  shows "take (length (vs i)) (drop (s i) (fold (\<lambda>k. write_at (s k) (vs k)) [0..<N] arr)) = vs i"
proof -
  define r where "r = fold (\<lambda>k. write_at (s k) (vs k)) [0..<N] arr"
  have "take (s N) r = concat (map vs [0..<N])"
    unfolding r_def using write_all [where s = s and vs = vs and N = N and K = N and arr = arr] assms by simp
  then have "take (length (vs i)) (drop (s i) (take (s N) r)) = vs i"
    using concat_stretch(1) [where s = s and vs = vs] assms by simp
  then have "take (length (vs i)) (drop (s i) r) = vs i"
    using concat_stretch(2) [where s = s and vs = vs and i = i and N = N] assms
    by (simp add: drop_take min_absorb1)
  then show ?thesis by (simp add: r_def)
qed

end
