(* ===== verification/Utf8.thy ===== *)
theory Utf8
  imports Cmacs_Prelude
begin

text \<open>
  UTF-8 as GLib reads it: \<^verbatim>\<open>g_utf8_validate\<close> (no overlong forms, no surrogates, nothing above
  \<^verbatim>\<open>0x10FFFF\<close>, no NUL), \<^verbatim>\<open>g_utf8_get_char\<close> on a valid string, and \<^verbatim>\<open>g_utf8_next_char\<close>, which
  skips by the lead byte alone.
\<close>

definition byte_at :: "string \<Rightarrow> nat \<Rightarrow> nat" where
  "byte_at s i = (if i < length s then of_char (s ! i) else 0)"

definition is_cont :: "nat \<Rightarrow> bool" where
  "is_cont b \<longleftrightarrow> 0x80 \<le> b \<and> b < 0xC0"

text \<open>The continuation-byte test the sources write as \<^verbatim>\<open>(c & 0xC0) == 0x80\<close>.\<close>

definition utf8_continuation :: "char \<Rightarrow> bool" where
  "utf8_continuation c \<longleftrightarrow> is_cont (of_char c)"

text \<open>The first character of a string with the bytes it takes, if the string starts with one.\<close>

definition utf8_head :: "string \<Rightarrow> (nat \<times> nat) option" where
  "utf8_head s =
     (if s = [] then None
      else let b0 = byte_at s 0; b1 = byte_at s 1; b2 = byte_at s 2; b3 = byte_at s 3 in
        if b0 < 0x80 then (if b0 = 0 then None else Some (b0, 1))
        else if 0xC2 \<le> b0 \<and> b0 < 0xE0 then
          (if is_cont b1 then Some ((b0 - 0xC0) * 64 + (b1 - 0x80), 2) else None)
        else if 0xE0 \<le> b0 \<and> b0 < 0xF0 then
          (let cp = (b0 - 0xE0) * 4096 + (b1 - 0x80) * 64 + (b2 - 0x80)
           in if is_cont b1 \<and> is_cont b2 \<and> 0x800 \<le> cp \<and> \<not> (0xD800 \<le> cp \<and> cp < 0xE000)
              then Some (cp, 3) else None)
        else if 0xF0 \<le> b0 \<and> b0 < 0xF5 then
          (let cp = (b0 - 0xF0) * 262144 + (b1 - 0x80) * 4096 + (b2 - 0x80) * 64 + (b3 - 0x80)
           in if is_cont b1 \<and> is_cont b2 \<and> is_cont b3 \<and> 0x10000 \<le> cp \<and> cp < 0x110000
              then Some (cp, 4) else None)
        else None)"

lemma byte_at_pos: "0 < byte_at s i \<Longrightarrow> i < length s"
  by (auto simp: byte_at_def split: if_splits)

lemma is_cont_len: "is_cont (byte_at s i) \<Longrightarrow> i < length s"
  by (rule byte_at_pos) (auto simp: is_cont_def)

lemma utf8_head_len: "utf8_head s = Some (cp, n) \<Longrightarrow> 0 < n \<and> n \<le> length s"
  by (auto simp: utf8_head_def Let_def Suc_le_eq split: if_splits dest!: is_cont_len)

function utf8_chars :: "string \<Rightarrow> (nat \<times> nat) list option" where
  "utf8_chars s =
     (if s = [] then Some []
      else case utf8_head s of None \<Rightarrow> None
           | Some (cp, n) \<Rightarrow> map_option ((#) (cp, n)) (utf8_chars (drop n s)))"
  by pat_completeness auto
termination
  by (relation "measure length") (auto dest: utf8_head_len)

declare utf8_chars.simps [simp del]

definition g_utf8_validate :: "string \<Rightarrow> bool" where
  "g_utf8_validate s \<longleftrightarrow> utf8_chars s \<noteq> None"

text \<open>\<^verbatim>\<open>g_utf8_skip\<close>: the length a lead byte announces.\<close>

definition g_utf8_skip :: "nat \<Rightarrow> nat" where
  "g_utf8_skip b =
     (if b < 0xC0 then 1 else if b < 0xE0 then 2 else if b < 0xF0 then 3 else if b < 0xF8 then 4
      else if b < 0xFC then 5 else if b < 0xFE then 6 else 1)"

definition g_utf8_next_char :: "string \<Rightarrow> string" where
  "g_utf8_next_char s = drop (g_utf8_skip (byte_at s 0)) s"

text \<open>\<^verbatim>\<open>g_utf8_get_char\<close>: undefined on malformed input, where the model returns 0.\<close>

definition g_utf8_get_char :: "string \<Rightarrow> nat" where
  "g_utf8_get_char s = (case utf8_head s of None \<Rightarrow> 0 | Some (cp, n) \<Rightarrow> cp)"

lemma utf8_head_skip: "utf8_head s = Some (cp, n) \<Longrightarrow> g_utf8_skip (byte_at s 0) = n"
  by (auto simp: utf8_head_def g_utf8_skip_def Let_def split: if_splits)

lemma utf8_next_char: "utf8_head s = Some (cp, n) \<Longrightarrow> g_utf8_next_char s = drop n s"
  by (simp add: g_utf8_next_char_def utf8_head_skip)

lemma utf8_get_char: "utf8_head s = Some (cp, n) \<Longrightarrow> g_utf8_get_char s = cp"
  by (simp add: g_utf8_get_char_def)

lemma utf8_chars_Nil [simp]: "utf8_chars [] = Some []"
  by (simp add: utf8_chars.simps)

lemma utf8_chars_Cons:
  assumes "utf8_chars s = Some ((cp, n) # cs)"
  shows "utf8_head s = Some (cp, n)" and "utf8_chars (drop n s) = Some cs" and "s \<noteq> []"
  using assms
  by (subst (asm) utf8_chars.simps; force split: if_splits option.splits prod.splits)+

lemma utf8_chars_eq_Nil: "utf8_chars s = Some [] \<Longrightarrow> s = []"
  by (subst (asm) utf8_chars.simps) (auto split: if_splits option.splits)

lemma utf8_validate_ascii_append:
  "list_all (\<lambda>c. 0 < (of_char c :: nat) \<and> (of_char c :: nat) < 0x80) s \<Longrightarrow> g_utf8_validate t \<Longrightarrow>
     g_utf8_validate (s @ t)"
proof (induction s)
  case (Cons c s)
  then have "utf8_head (c # s @ t) = Some (of_char c, 1)"
    by (simp add: utf8_head_def byte_at_def Let_def)
  moreover from Cons have "utf8_chars (s @ t) \<noteq> None" by (simp add: g_utf8_validate_def)
  ultimately show ?case
    by (simp add: g_utf8_validate_def utf8_chars.simps [of "c # s @ t"])
qed simp

lemma utf8_validate_Nil [simp]: "g_utf8_validate []"
  by (simp add: g_utf8_validate_def)

lemma utf8_validate_ascii:
  "list_all (\<lambda>c. 0 < (of_char c :: nat) \<and> (of_char c :: nat) < 0x80) s \<Longrightarrow> g_utf8_validate s"
  using utf8_validate_ascii_append [of s "[]"] by simp

lemma utf8_chars_len: "utf8_chars s = Some cs \<Longrightarrow> sum_list (map snd cs) = length s"
proof (induction cs arbitrary: s)
  case Nil
  then show ?case by (auto dest: utf8_chars_eq_Nil)
next
  case (Cons c cs)
  obtain cp n where c: "c = (cp, n)" by (cases c)
  from Cons.prems c have "utf8_head s = Some (cp, n)" "utf8_chars (drop n s) = Some cs"
    by (auto dest: utf8_chars_Cons)
  with Cons.IH [of "drop n s"] utf8_head_len c show ?case by fastforce
qed


section \<open>Cutting and joining valid text\<close>

lemma utf8_validate_Cons:
  "g_utf8_validate s \<Longrightarrow> s \<noteq> [] \<Longrightarrow> \<exists>cp n. utf8_head s = Some (cp, n) \<and> g_utf8_validate (drop n s)"
  by (auto simp: g_utf8_validate_def utf8_chars.simps [of s] split: option.splits prod.splits)

lemma utf8_validateI: "utf8_head s = Some (cp, n) \<Longrightarrow> g_utf8_validate (drop n s) \<Longrightarrow> g_utf8_validate s"
  by (cases "s = []") (auto simp: g_utf8_validate_def utf8_chars.simps [of s])

text \<open>The head of a string by the range of its lead byte.\<close>

lemma utf8_head_cases:
  assumes "utf8_head s = Some (cp, n)"
  obtains (one) "n = 1" "byte_at s 0 < 0x80" "byte_at s 0 \<noteq> 0" "cp = byte_at s 0"
  | (two) "n = 2" "0xC2 \<le> byte_at s 0" "byte_at s 0 < 0xE0" "is_cont (byte_at s 1)"
      "cp = (byte_at s 0 - 0xC0) * 64 + (byte_at s 1 - 0x80)"
  | (three) "n = 3" "0xE0 \<le> byte_at s 0" "byte_at s 0 < 0xF0" "is_cont (byte_at s 1)" "is_cont (byte_at s 2)"
      "cp = (byte_at s 0 - 0xE0) * 4096 + (byte_at s 1 - 0x80) * 64 + (byte_at s 2 - 0x80)"
      "0x800 \<le> cp" "\<not> (0xD800 \<le> cp \<and> cp < 0xE000)"
  | (four) "n = 4" "0xF0 \<le> byte_at s 0" "byte_at s 0 < 0xF5" "is_cont (byte_at s 1)" "is_cont (byte_at s 2)"
      "is_cont (byte_at s 3)"
      "cp = (byte_at s 0 - 0xF0) * 262144 + (byte_at s 1 - 0x80) * 4096 + (byte_at s 2 - 0x80) * 64 + (byte_at s 3 - 0x80)"
      "0x10000 \<le> cp" "cp < 0x110000"
proof -
  note h = assms [unfolded utf8_head_def Let_def]
  consider "byte_at s 0 < 0x80" | "0x80 \<le> byte_at s 0" "byte_at s 0 < 0xC2" | "0xC2 \<le> byte_at s 0" "byte_at s 0 < 0xE0"
    | "0xE0 \<le> byte_at s 0" "byte_at s 0 < 0xF0" | "0xF0 \<le> byte_at s 0" "byte_at s 0 < 0xF5" | "0xF5 \<le> byte_at s 0"
    by linarith
  then show thesis
  proof cases
    case 1
    with h show ?thesis by (intro one) (simp_all split: if_split_asm)
  next
    case 2
    with h show ?thesis by (simp split: if_split_asm)
  next
    case 3
    with h show ?thesis by (intro two) (simp_all split: if_split_asm)
  next
    case 4
    with h show ?thesis by (intro three) (simp_all split: if_split_asm)
  next
    case 5
    with h show ?thesis by (intro four) (simp_all split: if_split_asm)
  next
    case 6
    with h show ?thesis by (simp split: if_split_asm)
  qed
qed

lemma utf8_head_cong:
  assumes h: "utf8_head s = Some (cp, n)" and eq: "\<And>i. i < n \<Longrightarrow> byte_at t i = byte_at s i" and t: "t \<noteq> []"
  shows "utf8_head t = Some (cp, n)"
  using h
proof (cases rule: utf8_head_cases)
  case one
  then show ?thesis using eq [of 0] t by (simp add: utf8_head_def)
next
  case two
  then show ?thesis using eq [of 0] eq [of 1] t by (simp add: utf8_head_def)
next
  case three
  then show ?thesis using eq [of 0] eq [of 1] eq [of 2] t by (simp add: utf8_head_def)
next
  case four
  then show ?thesis using eq [of 0] eq [of 1] eq [of 2] eq [of 3] t by (simp add: utf8_head_def)
qed

lemma utf8_head_append: "utf8_head s = Some (cp, n) \<Longrightarrow> utf8_head (s @ t) = Some (cp, n)"
proof -
  assume h: "utf8_head s = Some (cp, n)"
  show ?thesis using utf8_head_len [OF h] by (intro utf8_head_cong [OF h]) (auto simp: byte_at_def nth_append)
qed

lemma utf8_head_take: "utf8_head s = Some (cp, n) \<Longrightarrow> n \<le> k \<Longrightarrow> utf8_head (take k s) = Some (cp, n)"
proof -
  assume h: "utf8_head s = Some (cp, n)" and k: "n \<le> k"
  show ?thesis using utf8_head_len [OF h] k by (intro utf8_head_cong [OF h]) (auto simp: byte_at_def)
qed

lemma utf8_head_cont:
  assumes h: "utf8_head s = Some (cp, n)" and k: "0 < k" "k < n" shows "utf8_continuation (s ! k)"
proof -
  have "is_cont (byte_at s k)" using h
  proof (cases rule: utf8_head_cases)
    case one
    with k show ?thesis by simp
  next
    case two
    with k have "k = 1" by simp
    with two show ?thesis by simp
  next
    case three
    with k have "k = 1 \<or> k = 2" by arith
    with three show ?thesis by blast
  next
    case four
    with k have "k = 1 \<or> k = 2 \<or> k = 3" by arith
    with four show ?thesis by blast
  qed
  moreover from this have "k < length s" by (rule is_cont_len)
  ultimately show ?thesis by (simp add: utf8_continuation_def byte_at_def)
qed

lemma utf8_validate_append: "g_utf8_validate s \<Longrightarrow> g_utf8_validate t \<Longrightarrow> g_utf8_validate (s @ t)"
proof (induction "length s" arbitrary: s rule: less_induct)
  case less
  show ?case
  proof (cases "s = []")
    case False
    then obtain cp n where h: "utf8_head s = Some (cp, n)" "g_utf8_validate (drop n s)"
      using utf8_validate_Cons less.prems(1) by blast
    note n = utf8_head_len [OF h(1)]
    have "length (drop n s) < length s" using n False by simp
    then have "g_utf8_validate (drop n s @ t)" using less.hyps [of "drop n s"] h(2) less.prems(2) by blast
    then have "g_utf8_validate (drop n (s @ t))" using n by simp
    then show ?thesis by (rule utf8_validateI [OF utf8_head_append [OF h(1)]])
  qed (use less.prems in simp)
qed

text \<open>Valid text may be cut wherever the next byte is not a continuation byte.\<close>

lemma utf8_validate_cut:
  "g_utf8_validate s \<Longrightarrow> k \<le> length s \<Longrightarrow> (k < length s \<Longrightarrow> \<not> utf8_continuation (s ! k)) \<Longrightarrow>
     g_utf8_validate (take k s) \<and> g_utf8_validate (drop k s)"
proof (induction "length s" arbitrary: s k rule: less_induct)
  case less
  show ?case
  proof (cases "k = 0 \<or> s = []")
    case False
    then obtain cp n where h: "utf8_head s = Some (cp, n)" "g_utf8_validate (drop n s)"
      using utf8_validate_Cons less.prems(1) by blast
    note n = utf8_head_len [OF h(1)]
    have nk: "n \<le> k" using utf8_head_cont [OF h(1), of k] less.prems n False by fastforce
    have "g_utf8_validate (take (k - n) (drop n s)) \<and> g_utf8_validate (drop (k - n) (drop n s))"
      using less.hyps [of "drop n s" "k - n"] h(2) less.prems n nk by simp
    then have "g_utf8_validate (drop n (take k s))" "g_utf8_validate (drop k s)" using nk by (simp_all add: drop_take)
    then show ?thesis using utf8_validateI [OF utf8_head_take [OF h(1) nk]] by blast
  qed (use less.prems in auto)
qed

definition is_ascii :: "char \<Rightarrow> bool" where
  "is_ascii c \<longleftrightarrow> (of_char c :: nat) < 0x80"

lemma is_ascii_not_cont: "is_ascii c \<Longrightarrow> \<not> utf8_continuation c"
  by (simp add: is_ascii_def utf8_continuation_def is_cont_def)

lemma utf8_validate_tl: "g_utf8_validate (c # s) \<Longrightarrow> is_ascii c \<Longrightarrow> g_utf8_validate s"
  using utf8_validate_Cons [of "c # s"]
  by (auto simp: utf8_head_def is_ascii_def byte_at_def Let_def split: if_splits)

lemma utf8_validate_parts:
  assumes "g_utf8_validate (s @ c # t)" "is_ascii c" shows "g_utf8_validate s \<and> g_utf8_validate t"
proof -
  have "g_utf8_validate (take (length s) (s @ c # t)) \<and> g_utf8_validate (drop (length s) (s @ c # t))"
    using assms is_ascii_not_cont by (intro utf8_validate_cut) simp_all
  then show ?thesis using utf8_validate_tl [of c t] assms(2) by simp
qed

lemma utf8_validate_dropWhile:
  "g_utf8_validate s \<Longrightarrow> (\<And>c. P c \<Longrightarrow> is_ascii c) \<Longrightarrow> g_utf8_validate (dropWhile P s)"
  by (induction s) (auto dest: utf8_validate_tl)

lemma utf8_validate_split: "g_utf8_validate s \<Longrightarrow> is_ascii c \<Longrightarrow> p \<in> set (split_on c s) \<Longrightarrow> g_utf8_validate p"
proof (induction "length s" arbitrary: s rule: less_induct)
  case less
  show ?case
  proof (cases "c \<in> set s")
    case True
    then obtain a b where s: "s = a @ c # b" "c \<notin> set a" by (blast dest: split_list_first)
    then have v: "g_utf8_validate a \<and> g_utf8_validate b" using utf8_validate_parts less.prems by blast
    have "p = a \<or> p \<in> set (split_on c b)" using less.prems(3) split_on_append [OF s(2)] s(1) by simp
    then show ?thesis using v less.hyps [of b] less.prems(2) s(1) by auto
  next
    case False
    then show ?thesis using less.prems by (simp add: split_on_no_delim)
  qed
qed

lemma isspace_ascii: "g_ascii_isspace c \<Longrightarrow> is_ascii c"
  by (auto simp: g_ascii_isspace_def is_ascii_def)

lemma utf8_validate_chug: "g_utf8_validate s \<Longrightarrow> g_utf8_validate (g_strchug s)"
  unfolding g_strchug_def by (rule utf8_validate_dropWhile) (simp_all add: isspace_ascii)

lemma utf8_validate_chomp: "g_utf8_validate s \<Longrightarrow> g_utf8_validate (g_strchomp s)"
proof (induction s rule: rev_induct)
  case (snoc c s)
  show ?case
  proof (cases "g_ascii_isspace c")
    case True
    then have "g_utf8_validate s" using utf8_validate_parts [of s c "[]"] snoc.prems isspace_ascii by blast
    with snoc.IH True show ?thesis by (simp add: g_strchomp_def)
  next
    case False
    with snoc.prems show ?thesis by (simp add: g_strchomp_def)
  qed
qed (simp add: g_strchomp_def)

lemma utf8_validate_strip: "g_utf8_validate s \<Longrightarrow> g_utf8_validate (g_strstrip s)"
  by (simp add: g_strstrip_def utf8_validate_chug utf8_validate_chomp)

end
