(* ===== verification/Gap_Buffer.thy ===== *)
theory Gap_Buffer
  imports Find_Newline C_Arrays Utf8
begin

text \<open>
  The text of a buffer, \<^verbatim>\<open>src/src/insdel.c\<close>: the byte array with its gap, moving and enlarging the gap, insertion at
  point and deletion of a range, with the markers, point and the accessible portion that follow the text, and
  the newline cache that every change invalidates. Positions are 1-based natural numbers in characters and in bytes; a
  difference that C holds as a negative number is written as a subtraction. A quit arrives at the points where
  the code polls for it; the polls of a run are a list of their results. Text properties, overlays, the undo list
  and the change hooks are left out; what the operations learn from the text properties and from the memory allocator is a
  parameter of theirs, the environment of an edit.
\<close>

abbreviation (input) BUF_BYTES_MAX :: nat where "BUF_BYTES_MAX \<equiv> 2 ^ 61 - 2"
abbreviation (input) GAP_BYTES_DFL :: nat where "GAP_BYTES_DFL \<equiv> 2000"

record lisp_marker =
  mk_charpos :: nat
  mk_bytepos :: nat
  mk_insertion_type :: bool

record ebuf =
  eb_mem :: string
  eb_gpt :: nat
  eb_gpt_byte :: nat
  eb_z :: nat
  eb_z_byte :: nat
  eb_gap_size :: nat
  eb_pt :: nat
  eb_pt_byte :: nat
  eb_begv :: nat
  eb_begv_byte :: nat
  eb_zv :: nat
  eb_zv_byte :: nat
  eb_markers :: "lisp_marker list"
  eb_multibyte :: bool
  eb_read_only :: bool
  eb_newline_cache :: "region_cache option"

text \<open>How an operation ends: by a signal, with the buffer as it is then, or normally with the polls not used yet.\<close>

datatype edit_error = Quit | Buffer_Overflow | Memory_Full | Buffer_Read_Only | Text_Read_Only

type_synonym edit = "(edit_error \<times> ebuf) + (ebuf \<times> bool list)"

definition edit_bind :: "edit \<Rightarrow> (ebuf \<Rightarrow> bool list \<Rightarrow> edit) \<Rightarrow> edit" where
  "edit_bind r f = (case r of Inl e \<Rightarrow> Inl e | Inr (b, qs) \<Rightarrow> f b qs)"

text \<open>What an edit finds outside the buffer: whether \<^verbatim>\<open>inhibit-read-only\<close> is set, whether the text at a position has
  the property of that name, whether \<^verbatim>\<open>verify_interval_modification\<close> lets a change of a range pass (when it does not, its
  signal is \<open>Text_Read_Only\<close>, whichever it is), and whether a text area of some size can be had.\<close>

record edit_env =
  ev_inhibit_read_only :: bool
  ev_inhibit_prop :: "nat \<Rightarrow> bool"
  ev_intervals_pass :: "nat \<Rightarrow> nat \<Rightarrow> bool"
  ev_realloc :: "nat \<Rightarrow> bool"

definition quitp :: "bool list \<Rightarrow> bool" where
  "quitp qs \<longleftrightarrow> qs \<noteq> [] \<and> hd qs"

section \<open>Moving the gap\<close>

definition memmove :: "nat \<Rightarrow> nat \<Rightarrow> nat \<Rightarrow> 'a list \<Rightarrow> 'a list" where
  "memmove dst src n mem = write_at dst (take n (drop src mem)) mem"

text \<open>Both loops copy at most 32000 bytes between two polls; they return where the gap got to.\<close>

function gap_left_loop :: "nat \<Rightarrow> nat \<Rightarrow> nat \<Rightarrow> string \<Rightarrow> bool list \<Rightarrow> nat \<times> string \<times> bool list \<times> bool" where
  "gap_left_loop bytepos gap new_s1 mem qs =
     (if new_s1 - bytepos = 0 then (new_s1, mem, qs, False)
      else if quitp qs then (new_s1, mem, tl qs, True)
      else (let i = min (new_s1 - bytepos) 32000; s = new_s1 - i
            in gap_left_loop bytepos gap s (memmove (s - 1 + gap) (s - 1) i mem) (tl qs)))"
  by pat_completeness auto
termination
  by (relation "measure (\<lambda>(bytepos, gap, s, mem, qs). s - bytepos)") auto

function gap_right_loop :: "nat \<Rightarrow> nat \<Rightarrow> nat \<Rightarrow> string \<Rightarrow> bool list \<Rightarrow> nat \<times> string \<times> bool list \<times> bool" where
  "gap_right_loop bytepos gap new_s1 mem qs =
     (if bytepos - new_s1 = 0 then (new_s1, mem, qs, False)
      else if quitp qs then (new_s1, mem, tl qs, True)
      else (let i = min (bytepos - new_s1) 32000
            in gap_right_loop bytepos gap (new_s1 + i) (memmove (new_s1 - 1) (new_s1 - 1 + gap) i mem) (tl qs)))"
  by pat_completeness auto
termination
  by (relation "measure (\<lambda>(bytepos, gap, s, mem, qs). bytepos - s)") auto

declare gap_left_loop.simps [simp del] gap_right_loop.simps [simp del]

text \<open>\<^verbatim>\<open>if (GAP_SIZE > 0) *(GPT_ADDR) = 0;\<close>\<close>

definition put_anchor :: "ebuf \<Rightarrow> ebuf" where
  "put_anchor b = (if eb_gap_size b > 0 then b\<lparr>eb_mem := (eb_mem b)[eb_gpt_byte b - 1 := CHR 0x00]\<rparr> else b)"

text \<open>The common end of the two: the gap is where the loop stopped. The character position there after a quit is
  what \<^verbatim>\<open>BYTE_TO_CHAR\<close> makes of a position that may lie inside a character: the parameter \<open>btc\<close>.\<close>

definition gap_settle :: "(nat \<Rightarrow> nat) \<Rightarrow> nat \<Rightarrow> ebuf \<Rightarrow> nat \<times> string \<times> bool list \<times> bool \<Rightarrow> edit" where
  "gap_settle btc charpos b r =
     (case r of (stop, mem, qs, interrupted) \<Rightarrow>
        let b1 = put_anchor (b\<lparr>eb_mem := mem, eb_gpt_byte := stop, eb_gpt := (if interrupted then btc stop else charpos)\<rparr>)
        in if interrupted \<or> quitp qs then Inl (Quit, b1) else Inr (b1, tl qs))"

definition gap_left :: "(nat \<Rightarrow> nat) \<Rightarrow> nat \<Rightarrow> nat \<Rightarrow> ebuf \<Rightarrow> bool list \<Rightarrow> edit" where
  "gap_left btc charpos bytepos b qs =
     gap_settle btc charpos b (gap_left_loop bytepos (eb_gap_size b) (eb_gpt_byte b) (eb_mem b) qs)"

definition gap_right :: "(nat \<Rightarrow> nat) \<Rightarrow> nat \<Rightarrow> nat \<Rightarrow> ebuf \<Rightarrow> bool list \<Rightarrow> edit" where
  "gap_right btc charpos bytepos b qs =
     gap_settle btc charpos b (gap_right_loop bytepos (eb_gap_size b) (eb_gpt_byte b) (eb_mem b) qs)"

definition move_gap_both :: "(nat \<Rightarrow> nat) \<Rightarrow> nat \<Rightarrow> nat \<Rightarrow> ebuf \<Rightarrow> bool list \<Rightarrow> edit" where
  "move_gap_both btc charpos bytepos b qs =
     (if bytepos < eb_gpt_byte b then gap_left btc charpos bytepos b qs
      else if bytepos > eb_gpt_byte b then gap_right btc charpos bytepos b qs
      else Inr (b, qs))"

section \<open>Enlarging the gap\<close>

text \<open>The new memory's contents are unspecified; zeros stand for them. \<open>None\<close> is \<^verbatim>\<open>memory_full\<close>, with the old text kept.\<close>

definition enlarge_buffer_text :: "edit_env \<Rightarrow> nat \<Rightarrow> ebuf \<Rightarrow> ebuf option" where
  "enlarge_buffer_text ev delta b =
     (let old_nbytes = eb_z_byte b - 1 + eb_gap_size b + 1
      in if ev_realloc ev (old_nbytes + delta) then Some (b\<lparr>eb_mem := eb_mem b @ replicate delta CHR 0x00\<rparr>) else None)"

text \<open>The new space is first a gap of its own at the end, with the old gap counted as text, and is then moved down to
  the old one. Quitting is inhibited, so no poll is made.\<close>

definition make_gap_larger :: "edit_env \<Rightarrow> nat \<Rightarrow> ebuf \<Rightarrow> bool list \<Rightarrow> edit" where
  "make_gap_larger ev nbytes_added0 b qs =
     (let current_size = eb_z_byte b - 1 + eb_gap_size b
      in if BUF_BYTES_MAX - current_size < nbytes_added0 then Inl (Buffer_Overflow, b)
         else
           (let nbytes_added = min (nbytes_added0 + GAP_BYTES_DFL) (BUF_BYTES_MAX - current_size)
            in case enlarge_buffer_text ev nbytes_added b of
                 None \<Rightarrow> Inl (Memory_Full, b)
               | Some b1 \<Rightarrow>
                   (let b2 = b1\<lparr>eb_gpt := eb_z b1 + eb_gap_size b1, eb_gpt_byte := eb_z_byte b1 + eb_gap_size b1, eb_gap_size := nbytes_added\<rparr>
                    in edit_bind (gap_left (\<lambda>p. p) (eb_gpt b + eb_gap_size b) (eb_gpt_byte b + eb_gap_size b) b2 [])
                         (\<lambda>b3 _. let b4 = b3\<lparr>eb_gap_size := eb_gap_size b3 + eb_gap_size b, eb_gpt := eb_gpt b, eb_gpt_byte := eb_gpt_byte b\<rparr>
                                 in Inr (b4\<lparr>eb_mem := (eb_mem b4)[eb_z_byte b4 - 1 + eb_gap_size b4 := CHR 0x00]\<rparr>, qs)))))"

definition make_gap :: "edit_env \<Rightarrow> nat \<Rightarrow> ebuf \<Rightarrow> bool list \<Rightarrow> edit" where
  "make_gap ev nbytes_added b qs = make_gap_larger ev (max nbytes_added ((eb_z b - 1) div 64)) b qs"

section \<open>Markers and point\<close>

definition marker_for_insert :: "nat \<Rightarrow> nat \<Rightarrow> nat \<Rightarrow> nat \<Rightarrow> bool \<Rightarrow> lisp_marker \<Rightarrow> lisp_marker" where
  "marker_for_insert from from_byte to to_byte before_markers m =
     (if mk_bytepos m = from_byte then
        (if mk_insertion_type m \<or> before_markers then m\<lparr>mk_bytepos := to_byte, mk_charpos := to\<rparr> else m)
      else if mk_bytepos m > from_byte
      then m\<lparr>mk_bytepos := mk_bytepos m + (to_byte - from_byte), mk_charpos := mk_charpos m + (to - from)\<rparr>
      else m)"

definition adjust_markers_for_insert :: "nat \<Rightarrow> nat \<Rightarrow> nat \<Rightarrow> nat \<Rightarrow> bool \<Rightarrow> ebuf \<Rightarrow> ebuf" where
  "adjust_markers_for_insert from from_byte to to_byte before_markers b =
     b\<lparr>eb_markers := map (marker_for_insert from from_byte to to_byte before_markers) (eb_markers b)\<rparr>"

definition marker_for_delete :: "nat \<Rightarrow> nat \<Rightarrow> nat \<Rightarrow> nat \<Rightarrow> lisp_marker \<Rightarrow> lisp_marker" where
  "marker_for_delete from from_byte to to_byte m =
     (if mk_charpos m > to
      then m\<lparr>mk_charpos := mk_charpos m - (to - from), mk_bytepos := mk_bytepos m - (to_byte - from_byte)\<rparr>
      else if mk_charpos m > from then m\<lparr>mk_charpos := from, mk_bytepos := from_byte\<rparr>
      else m)"

definition adjust_markers_for_delete :: "nat \<Rightarrow> nat \<Rightarrow> nat \<Rightarrow> nat \<Rightarrow> ebuf \<Rightarrow> ebuf" where
  "adjust_markers_for_delete from from_byte to to_byte b =
     b\<lparr>eb_markers := map (marker_for_delete from from_byte to to_byte) (eb_markers b)\<rparr>"

section \<open>Changing the text\<close>

text \<open>Whether \<^verbatim>\<open>barf-if-buffer-read-only\<close> signals.\<close>

definition Fbarf_if_buffer_read_only :: "edit_env \<Rightarrow> nat \<Rightarrow> ebuf \<Rightarrow> bool" where
  "Fbarf_if_buffer_read_only ev position b \<longleftrightarrow> eb_read_only b \<and> \<not> ev_inhibit_read_only ev \<and> \<not> ev_inhibit_prop ev position"

text \<open>\<^verbatim>\<open>prepare_to_modify_buffer\<close>, of which the tests for text that must not change and the invalidation of the newline cache
  matter here.\<close>

definition prepare_to_modify_buffer :: "edit_env \<Rightarrow> nat \<Rightarrow> nat \<Rightarrow> ebuf \<Rightarrow> bool list \<Rightarrow> edit" where
  "prepare_to_modify_buffer ev start en b qs =
     (if eb_read_only b \<and> Fbarf_if_buffer_read_only ev start b then Inl (Buffer_Read_Only, b)
      else if \<not> ev_intervals_pass ev start en then Inl (Text_Read_Only, b)
      else Inr (b\<lparr>eb_newline_cache :=
             map_option (invalidate_region_cache (int (eb_z b)) (int start - BEG) (int (eb_z b) - int en)) (eb_newline_cache b)\<rparr>, qs))"

text \<open>Copying the bytes into the gap and counting them as text.\<close>

definition fill_gap :: "string \<Rightarrow> nat \<Rightarrow> ebuf \<Rightarrow> ebuf" where
  "fill_gap str nchars b =
     put_anchor (b\<lparr>eb_mem := write_at (eb_gpt_byte b - 1) str (eb_mem b), eb_gap_size := eb_gap_size b - length str,
       eb_gpt := eb_gpt b + nchars, eb_zv := eb_zv b + nchars, eb_z := eb_z b + nchars,
       eb_gpt_byte := eb_gpt_byte b + length str, eb_zv_byte := eb_zv_byte b + length str,
       eb_z_byte := eb_z_byte b + length str\<rparr>)"

definition insert_1_both :: "edit_env \<Rightarrow> (nat \<Rightarrow> nat) \<Rightarrow> string \<Rightarrow> nat \<Rightarrow> bool \<Rightarrow> bool \<Rightarrow> ebuf \<Rightarrow> bool list \<Rightarrow> edit" where
  "insert_1_both ev btc str nchars0 prepare before_markers b0 qs0 =
     (if nchars0 = 0 then Inr (b0, qs0)
      else
        (let nchars = (if eb_multibyte b0 then nchars0 else length str); nbytes = length str
         in edit_bind (if prepare then prepare_to_modify_buffer ev (eb_pt b0) (eb_pt b0) b0 qs0 else Inr (b0, qs0))
              (\<lambda>b1 qs1. edit_bind (if eb_pt b1 \<noteq> eb_gpt b1 then move_gap_both btc (eb_pt b1) (eb_pt_byte b1) b1 qs1 else Inr (b1, qs1))
              (\<lambda>b2 qs2. edit_bind (if eb_gap_size b2 < nbytes then make_gap ev (nbytes - eb_gap_size b2) b2 qs2 else Inr (b2, qs2))
              (\<lambda>b3 qs3.
                 let b4 = fill_gap str nchars b3;
                     b5 = adjust_markers_for_insert (eb_pt b4) (eb_pt_byte b4) (eb_pt b4 + nchars) (eb_pt_byte b4 + nbytes) before_markers b4
                 in Inr (b5\<lparr>eb_pt := eb_pt b5 + nchars, eb_pt_byte := eb_pt_byte b5 + nbytes\<rparr>, qs3))))))"

text \<open>The text of the buffer: what is before the gap and what is after it.\<close>

definition buf_bytes :: "ebuf \<Rightarrow> string" where
  "buf_bytes b =
     take (eb_gpt_byte b - 1) (eb_mem b) @
     take (eb_z_byte b - eb_gpt_byte b) (drop (eb_gpt_byte b - 1 + eb_gap_size b) (eb_mem b))"

text \<open>Taking the range into the gap. Point moves as if it were a marker.\<close>

definition absorb_range :: "nat \<Rightarrow> nat \<Rightarrow> nat \<Rightarrow> nat \<Rightarrow> ebuf \<Rightarrow> ebuf" where
  "absorb_range from from_byte to to_byte b =
     (let b1 = (if from < eb_pt b
                then b\<lparr>eb_pt := eb_pt b - (min (eb_pt b) to - from), eb_pt_byte := eb_pt_byte b - (min (eb_pt_byte b) to_byte - from_byte)\<rparr>
                else b)
      in put_anchor (b1\<lparr>eb_gap_size := eb_gap_size b1 + (to_byte - from_byte),
           eb_zv := eb_zv b1 - (to - from), eb_z := eb_z b1 - (to - from),
           eb_zv_byte := eb_zv_byte b1 - (to_byte - from_byte), eb_z_byte := eb_z_byte b1 - (to_byte - from_byte),
           eb_gpt := from, eb_gpt_byte := from_byte\<rparr>))"

definition del_range_2 :: "(nat \<Rightarrow> nat) \<Rightarrow> nat \<Rightarrow> nat \<Rightarrow> nat \<Rightarrow> nat \<Rightarrow> ebuf \<Rightarrow> bool list \<Rightarrow> edit" where
  "del_range_2 btc from from_byte to to_byte b0 qs0 =
     edit_bind (if from > eb_gpt b0 then gap_right btc from from_byte b0 qs0 else Inr (b0, qs0))
       (\<lambda>b1 qs1. edit_bind (if to < eb_gpt b1 then gap_left btc to to_byte b1 qs1 else Inr (b1, qs1))
         (\<lambda>b2 qs2. Inr (absorb_range from from_byte to to_byte (adjust_markers_for_delete from from_byte to to_byte b2), qs2)))"

section \<open>The text around the gap\<close>

definition gap_text :: "nat \<Rightarrow> nat \<Rightarrow> nat \<Rightarrow> string \<Rightarrow> string" where
  "gap_text g gap z mem = take (g - 1) mem @ take (z - g) (drop (g - 1 + gap) mem)"

lemma buf_bytes_gap_text: "buf_bytes b = gap_text (eb_gpt_byte b) (eb_gap_size b) (eb_z_byte b) (eb_mem b)"
  by (simp add: buf_bytes_def gap_text_def)

lemma length_memmove: "dst + n \<le> length mem \<Longrightarrow> src + n \<le> length mem \<Longrightarrow> length (memmove dst src n mem) = length mem"
  by (simp add: memmove_def write_at_def)

lemma gap_step_left:
  assumes "1 \<le> s" "s + i \<le> z" "z + gap \<le> length mem"
  shows "gap_text s gap z (memmove (s - 1 + gap) (s - 1) i mem) = gap_text (s + i) gap z mem"
proof -
  define mem' where "mem' = memmove (s - 1 + gap) (s - 1) i mem"
  have m: "mem' = take (s - 1 + gap) mem @ take i (drop (s - 1) mem) @ drop (s - 1 + gap + i) mem"
    using assms by (simp add: mem'_def memmove_def write_at_def)
  have a: "take (s - 1) mem' = take (s - 1) mem" using assms by (simp add: m)
  have "drop (s - 1 + gap) mem' = take i (drop (s - 1) mem) @ drop (s - 1 + gap + i) mem" using assms by (simp add: m)
  then have b: "take (z - s) (drop (s - 1 + gap) mem') = take i (drop (s - 1) mem) @ take (z - (s + i)) (drop (s + i - 1 + gap) mem)"
    using assms by (simp add: algebra_simps)
  have c: "take (s + i - 1) mem = take (s - 1) mem @ take i (drop (s - 1) mem)"
    using assms take_add [of "s - 1" i mem] by simp
  show ?thesis unfolding gap_text_def mem'_def [symmetric] a b c by simp
qed

lemma gap_step_right:
  assumes "1 \<le> g" "g + i \<le> z" "z + gap \<le> length mem"
  shows "gap_text (g + i) gap z (memmove (g - 1) (g - 1 + gap) i mem) = gap_text g gap z mem"
proof -
  define mem' where "mem' = memmove (g - 1) (g - 1 + gap) i mem"
  have m: "mem' = take (g - 1) mem @ take i (drop (g - 1 + gap) mem) @ drop (g - 1 + i) mem"
    using assms by (simp add: mem'_def memmove_def write_at_def)
  have a: "take (g + i - 1) mem' = take (g - 1) mem @ take i (drop (g - 1 + gap) mem)" using assms by (simp add: m)
  have "drop (g + i - 1 + gap) mem' = drop gap (drop (g - 1 + i) mem)"
  proof -
    have "drop (g + i - 1 + gap) mem' = drop gap (drop (g + i - 1) mem')" by (simp add: add.commute)
    also have "drop (g + i - 1) mem' = drop (g - 1 + i) mem" using assms by (simp add: m)
    finally show ?thesis .
  qed
  then have b: "drop (g + i - 1 + gap) mem' = drop i (drop (g - 1 + gap) mem)" by (simp add: algebra_simps)
  have c: "take (z - g) (drop (g - 1 + gap) mem) = take i (drop (g - 1 + gap) mem) @ take (z - (g + i)) (drop i (drop (g - 1 + gap) mem))"
    using assms take_add [of i "z - (g + i)" "drop (g - 1 + gap) mem"] by simp
  show ?thesis unfolding gap_text_def mem'_def [symmetric] a b c by simp
qed

lemma gap_left_loop_text:
  "gap_left_loop bytepos gap g mem qs = (stop, mem', qs', intr) \<Longrightarrow> 1 \<le> bytepos \<Longrightarrow> bytepos \<le> g \<Longrightarrow> g \<le> z \<Longrightarrow> z + gap \<le> length mem \<Longrightarrow>
     bytepos \<le> stop \<and> stop \<le> g \<and> (\<not> intr \<longrightarrow> stop = bytepos) \<and> length mem' = length mem \<and>
     gap_text stop gap z mem' = gap_text g gap z mem \<and> (qs = [] \<longrightarrow> qs' = [] \<and> \<not> intr)"
proof (induction bytepos gap g mem qs rule: gap_left_loop.induct)
  case (1 bytepos gap g mem qs)
  show ?case
  proof (cases "g - bytepos = 0 \<or> quitp qs")
    case True
    then show ?thesis using 1(2-) by (subst (asm) gap_left_loop.simps) (auto simp: quitp_def split: if_split_asm)
  next
    case False
    define i where "i = min (g - bytepos) 32000"
    define s where "s = g - i"
    let ?m = "memmove (s - 1 + gap) (s - 1) i mem"
    have s: "bytepos \<le> s" "s + i = g" using False 1(4) by (auto simp: s_def i_def)
    have "gap_left_loop bytepos gap g mem qs = gap_left_loop bytepos gap s ?m (tl qs)"
      using False by (subst gap_left_loop.simps) (simp add: Let_def i_def s_def)
    then have r: "gap_left_loop bytepos gap s ?m (tl qs) = (stop, mem', qs', intr)" using 1(2) by simp
    have len: "length ?m = length mem" using s 1(3-) by (intro length_memmove) auto
    have "gap_text s gap z ?m = gap_text g gap z mem" using gap_step_left [of s i z gap mem] s 1(3-) by simp
    then show ?thesis using 1(1) [OF _ _ i_def s_def r] False s 1(3-) len by auto
  qed
qed

lemma gap_right_loop_text:
  "gap_right_loop bytepos gap g mem qs = (stop, mem', qs', intr) \<Longrightarrow> 1 \<le> g \<Longrightarrow> g \<le> bytepos \<Longrightarrow> bytepos \<le> z \<Longrightarrow> z + gap \<le> length mem \<Longrightarrow>
     g \<le> stop \<and> stop \<le> bytepos \<and> (\<not> intr \<longrightarrow> stop = bytepos) \<and> length mem' = length mem \<and>
     gap_text stop gap z mem' = gap_text g gap z mem"
proof (induction bytepos gap g mem qs rule: gap_right_loop.induct)
  case (1 bytepos gap g mem qs)
  show ?case
  proof (cases "bytepos - g = 0 \<or> quitp qs")
    case True
    then show ?thesis using 1(2-) by (subst (asm) gap_right_loop.simps) (auto split: if_split_asm)
  next
    case False
    define i where "i = min (bytepos - g) 32000"
    let ?m = "memmove (g - 1) (g - 1 + gap) i mem"
    have s: "g + i \<le> bytepos" using False by (auto simp: i_def)
    have "gap_right_loop bytepos gap g mem qs = gap_right_loop bytepos gap (g + i) ?m (tl qs)"
      using False by (subst gap_right_loop.simps) (simp add: Let_def i_def)
    then have r: "gap_right_loop bytepos gap (g + i) ?m (tl qs) = (stop, mem', qs', intr)" using 1(2) by simp
    have len: "length ?m = length mem" using s 1(3-) by (intro length_memmove) auto
    have "gap_text (g + i) gap z ?m = gap_text g gap z mem" using gap_step_right [of g i z gap mem] s 1(3-) by simp
    then show ?thesis using 1(1) [OF _ _ i_def r] False s 1(3-) len by auto
  qed
qed

text \<open>The array is exactly as large as the text, the gap and the byte behind them.\<close>

definition eb_wf :: "ebuf \<Rightarrow> bool" where
  "eb_wf b \<longleftrightarrow> length (eb_mem b) = eb_z_byte b + eb_gap_size b \<and> 1 \<le> eb_gpt_byte b \<and> eb_gpt_byte b \<le> eb_z_byte b"

lemma length_buf_bytes: "eb_wf b \<Longrightarrow> length (buf_bytes b) = eb_z_byte b - 1"
  by (auto simp: eb_wf_def buf_bytes_def)

text \<open>Everything of a buffer but the array and the place and size of its gap.\<close>

definition same_view :: "ebuf \<Rightarrow> ebuf \<Rightarrow> bool" where
  "same_view a b \<longleftrightarrow> buf_bytes a = buf_bytes b \<and> eb_z a = eb_z b \<and> eb_z_byte a = eb_z_byte b \<and> eb_pt a = eb_pt b \<and>
     eb_pt_byte a = eb_pt_byte b \<and> eb_begv a = eb_begv b \<and> eb_begv_byte a = eb_begv_byte b \<and> eb_zv a = eb_zv b \<and>
     eb_zv_byte a = eb_zv_byte b \<and> eb_markers a = eb_markers b \<and> eb_multibyte a = eb_multibyte b \<and>
     eb_read_only a = eb_read_only b \<and> eb_newline_cache a = eb_newline_cache b"

lemma same_view_refl [simp]: "same_view b b"
  by (simp add: same_view_def)

lemma same_view_trans: "same_view a b \<Longrightarrow> same_view b c \<Longrightarrow> same_view a c"
  by (simp add: same_view_def)

lemma put_anchor_same:
  assumes "eb_wf b" shows "eb_wf (put_anchor b)" and "same_view (put_anchor b) b"
    and "eb_gap_size (put_anchor b) = eb_gap_size b" and "eb_gpt (put_anchor b) = eb_gpt b" and "eb_gpt_byte (put_anchor b) = eb_gpt_byte b"
proof -
  have "buf_bytes (put_anchor b) = buf_bytes b"
  proof (cases "eb_gap_size b > 0")
    case True
    then have "eb_gpt_byte b - 1 < eb_gpt_byte b - 1 + eb_gap_size b" by simp
    then show ?thesis by (simp add: put_anchor_def buf_bytes_def drop_update_cancel del: One_nat_def)
  qed (simp add: put_anchor_def)
  then show "same_view (put_anchor b) b" by (simp add: same_view_def put_anchor_def)
  show "eb_wf (put_anchor b)" using assms by (simp add: put_anchor_def eb_wf_def)
qed (simp_all add: put_anchor_def)

text \<open>What becomes of a buffer when its gap is moved: nothing of the text changes, also when a quit stops the move.\<close>

definition gap_moved :: "nat \<Rightarrow> nat \<Rightarrow> ebuf \<Rightarrow> edit \<Rightarrow> bool" where
  "gap_moved charpos bytepos b r \<longleftrightarrow>
     (case r of Inl (e, b') \<Rightarrow> e = Quit \<and> eb_wf b' \<and> same_view b' b \<and> eb_gap_size b' = eb_gap_size b \<and>
          min bytepos (eb_gpt_byte b) \<le> eb_gpt_byte b' \<and> eb_gpt_byte b' \<le> max bytepos (eb_gpt_byte b)
      | Inr (b', qs) \<Rightarrow> eb_wf b' \<and> same_view b' b \<and> eb_gpt b' = charpos \<and> eb_gpt_byte b' = bytepos \<and> eb_gap_size b' = eb_gap_size b)"

lemma gap_settle_moved:
  assumes wf: "eb_wf b" and len: "length mem' = length (eb_mem b)" and stop: "1 \<le> stop" "stop \<le> eb_z_byte b"
    and between: "min bytepos (eb_gpt_byte b) \<le> stop" "stop \<le> max bytepos (eb_gpt_byte b)"
    and tx: "gap_text stop (eb_gap_size b) (eb_z_byte b) mem' = buf_bytes b" and fin: "\<not> intr \<Longrightarrow> stop = bytepos"
  shows "gap_moved charpos bytepos b (gap_settle btc charpos b (stop, mem', qs, intr))"
proof -
  define b1 where "b1 = b\<lparr>eb_mem := mem', eb_gpt_byte := stop, eb_gpt := (if intr then btc stop else charpos)\<rparr>"
  have wf1: "eb_wf b1" using wf len stop by (simp add: eb_wf_def b1_def)
  have v1: "same_view b1 b" using tx by (simp add: same_view_def b1_def buf_bytes_gap_text)
  note a = put_anchor_same [OF wf1]
  have "same_view (put_anchor b1) b" using same_view_trans [OF a(2) v1] .
  moreover have "eb_gap_size (put_anchor b1) = eb_gap_size b" "eb_gpt_byte (put_anchor b1) = stop"
    using a by (simp_all add: b1_def)
  moreover have "\<not> intr \<Longrightarrow> eb_gpt (put_anchor b1) = charpos" using a(4) by (simp add: b1_def)
  moreover have "gap_settle btc charpos b (stop, mem', qs, intr) =
      (if intr \<or> quitp qs then Inl (Quit, put_anchor b1) else Inr (put_anchor b1, tl qs))"
    by (simp add: gap_settle_def Let_def b1_def)
  ultimately show ?thesis using a(1) fin between by (simp add: gap_moved_def)
qed

lemma gap_left_moved:
  assumes "eb_wf b" "1 \<le> bytepos" "bytepos \<le> eb_gpt_byte b"
  shows "gap_moved charpos bytepos b (gap_left btc charpos bytepos b qs)"
proof -
  obtain stop mem' qs' intr where l: "gap_left_loop bytepos (eb_gap_size b) (eb_gpt_byte b) (eb_mem b) qs = (stop, mem', qs', intr)"
    by (metis prod_cases4)
  have "eb_gpt_byte b \<le> eb_z_byte b" "eb_z_byte b + eb_gap_size b \<le> length (eb_mem b)" using assms(1) by (simp_all add: eb_wf_def)
  note t = gap_left_loop_text [OF l assms(2,3) this]
  show ?thesis unfolding gap_left_def l
    by (rule gap_settle_moved) (use t assms in \<open>auto simp: buf_bytes_gap_text eb_wf_def\<close>)
qed

lemma gap_right_moved:
  assumes "eb_wf b" "eb_gpt_byte b \<le> bytepos" "bytepos \<le> eb_z_byte b"
  shows "gap_moved charpos bytepos b (gap_right btc charpos bytepos b qs)"
proof -
  obtain stop mem' qs' intr where l: "gap_right_loop bytepos (eb_gap_size b) (eb_gpt_byte b) (eb_mem b) qs = (stop, mem', qs', intr)"
    by (metis prod_cases4)
  have "1 \<le> eb_gpt_byte b" "eb_z_byte b + eb_gap_size b \<le> length (eb_mem b)" using assms(1) by (simp_all add: eb_wf_def)
  note t = gap_right_loop_text [OF l this(1) assms(2,3) this(2)]
  show ?thesis unfolding gap_right_def l
    by (rule gap_settle_moved) (use t assms in \<open>auto simp: buf_bytes_gap_text eb_wf_def\<close>)
qed

text \<open>The gap grows by at least what was asked for, the text stays, and the only errors are a buffer that is too large
  and memory that is not to be had.\<close>

definition gap_grown :: "nat \<Rightarrow> ebuf \<Rightarrow> edit \<Rightarrow> bool" where
  "gap_grown n b r \<longleftrightarrow>
     (case r of Inl (e, b') \<Rightarrow> (e = Buffer_Overflow \<or> e = Memory_Full) \<and> b' = b
      | Inr (b', qs) \<Rightarrow> eb_wf b' \<and> same_view b' b \<and> eb_gpt b' = eb_gpt b \<and> eb_gpt_byte b' = eb_gpt_byte b \<and> eb_gap_size b + n \<le> eb_gap_size b')"

lemma make_gap_larger_grown:
  assumes wf: "eb_wf b" shows "gap_grown n b (make_gap_larger ev n b qs)"
proof (cases "make_gap_larger ev n b qs = Inl (Buffer_Overflow, b) \<or> make_gap_larger ev n b qs = Inl (Memory_Full, b)")
  case True
  then show ?thesis by (auto simp: gap_grown_def)
next
  case ne: False
  then have False: "\<not> BUF_BYTES_MAX - (eb_z_byte b - 1 + eb_gap_size b) < n" by (auto simp: make_gap_larger_def Let_def)
  let ?g = "eb_gpt_byte b" and ?gap = "eb_gap_size b" and ?z = "eb_z_byte b" and ?mem = "eb_mem b"
  define N where "N = min (n + GAP_BYTES_DFL) (BUF_BYTES_MAX - (?z - 1 + ?gap))"
  have N: "n \<le> N" using False by (simp add: N_def)
  have re: "enlarge_buffer_text ev N b = Some (b\<lparr>eb_mem := ?mem @ replicate N CHR 0x00\<rparr>)"
  proof -
    have "enlarge_buffer_text ev N b \<noteq> None"
    proof
      assume "enlarge_buffer_text ev N b = None"
      then have "make_gap_larger ev n b qs = Inl (Memory_Full, b)"
        unfolding make_gap_larger_def Let_def N_def [symmetric] if_not_P [OF False] by (simp only: option.case)
      then show False using ne by simp
    qed
    then show ?thesis unfolding enlarge_buffer_text_def Let_def by (metis (full_types))
  qed
  define b2 where "b2 = b\<lparr>eb_mem := ?mem @ replicate N CHR 0x00, eb_gpt := eb_z b + ?gap, eb_gpt_byte := ?z + ?gap, eb_gap_size := N\<rparr>"
  have w: "length ?mem = ?z + ?gap" "1 \<le> ?g" "?g \<le> ?z" using wf by (simp_all add: eb_wf_def)
  obtain stop mem3 qs' intr where l: "gap_left_loop (?g + ?gap) N (?z + ?gap) (?mem @ replicate N CHR 0x00) [] = (stop, mem3, qs', intr)"
    by (metis prod_cases4)
  have t: "stop = ?g + ?gap" "length mem3 = ?z + ?gap + N" "qs' = []" "\<not> intr"
      "gap_text (?g + ?gap) N (?z + ?gap) mem3 = gap_text (?z + ?gap) N (?z + ?gap) (?mem @ replicate N CHR 0x00)"
    using gap_left_loop_text [OF l, of "?z + ?gap"] w by auto
  have old: "gap_text (?z + ?gap) N (?z + ?gap) (?mem @ replicate N CHR 0x00) = take (?z + ?gap - 1) ?mem"
    using w by (simp add: gap_text_def)
  define mem4 where "mem4 = (if N > 0 then mem3[?g + ?gap - 1 := CHR 0x00] else mem3)"
  have r: "make_gap_larger ev n b qs =
      Inr (b\<lparr>eb_mem := mem4[?z - 1 + (N + ?gap) := CHR 0x00], eb_gap_size := N + ?gap\<rparr>, qs)"
  proof -
    have mv: "gap_left (\<lambda>p. p) (eb_gpt b + ?gap) (?g + ?gap) b2 [] =
        Inr (b2\<lparr>eb_mem := mem4, eb_gpt_byte := ?g + ?gap, eb_gpt := eb_gpt b + ?gap\<rparr>, [])"
    proof -
      have "eb_gap_size b2 = N" "eb_gpt_byte b2 = ?z + ?gap" "eb_mem b2 = ?mem @ replicate N CHR 0x00" by (simp_all add: b2_def)
      then show ?thesis using l t by (simp add: gap_left_def gap_settle_def Let_def quitp_def put_anchor_def mem4_def)
    qed
    have "make_gap_larger ev n b qs = edit_bind (gap_left (\<lambda>p. p) (eb_gpt b + ?gap) (?g + ?gap) b2 [])
        (\<lambda>b3 _. let b4 = b3\<lparr>eb_gap_size := eb_gap_size b3 + ?gap, eb_gpt := eb_gpt b, eb_gpt_byte := ?g\<rparr>
                in Inr (b4\<lparr>eb_mem := (eb_mem b4)[eb_z_byte b4 - 1 + eb_gap_size b4 := CHR 0x00]\<rparr>, qs))"
      using False re unfolding make_gap_larger_def Let_def b2_def N_def by simp
    then show ?thesis unfolding mv by (simp add: edit_bind_def b2_def)
  qed
  have halves: "take (?g + ?gap - 1) mem3 = take (?g + ?gap - 1) ?mem" "take (?z - ?g) (drop (?g + ?gap - 1 + N) mem3) = take (?z - ?g) (drop (?g - 1 + ?gap) ?mem)"
  proof -
    have eq: "take (?g + ?gap - 1) mem3 @ take (?z - ?g) (drop (?g + ?gap - 1 + N) mem3) = take (?z + ?gap - 1) ?mem"
      using t(5) old by (simp add: gap_text_def)
    have len: "length (take (?g + ?gap - 1) mem3) = ?g + ?gap - 1" using t(2) w by simp
    have "take (?z + ?gap - 1) ?mem = take (?g + ?gap - 1) ?mem @ take (?z - ?g) (drop (?g - 1 + ?gap) ?mem)"
    proof -
      have "?z + ?gap - 1 = (?g + ?gap - 1) + (?z - ?g)" "?g - 1 + ?gap = ?g + ?gap - 1" using w by simp_all
      then show ?thesis using take_add [of "?g + ?gap - 1" "?z - ?g" ?mem] by metis
    qed
    moreover have "length (take (?g + ?gap - 1) ?mem) = ?g + ?gap - 1" using w by simp
    ultimately show "take (?g + ?gap - 1) mem3 = take (?g + ?gap - 1) ?mem"
      "take (?z - ?g) (drop (?g + ?gap - 1 + N) mem3) = take (?z - ?g) (drop (?g - 1 + ?gap) ?mem)"
      using eq len append_eq_append_conv by metis+
  qed
  define mem5 where "mem5 = mem4[?z - 1 + (N + ?gap) := CHR 0x00]"
  have low: "take (?g - 1) mem5 = take (?g - 1) ?mem"
  proof -
    have tt: "take (?g - 1) (take (?g + ?gap - 1) xs) = take (?g - 1) xs" for xs :: string by (simp add: min_def)
    have "take (?g - 1) mem5 = take (?g - 1) mem3" using w by (simp add: mem5_def mem4_def)
    then show ?thesis using tt [of mem3] tt [of ?mem] halves(1) by metis
  qed
  have high: "take (?z - ?g) (drop (?g - 1 + (N + ?gap)) mem5) = take (?z - ?g) (drop (?g - 1 + ?gap) ?mem)"
  proof -
    have k: "?g - 1 + (N + ?gap) = ?g + ?gap - 1 + N" using w by simp
    have "drop (?g + ?gap - 1 + N) mem4 = drop (?g + ?gap - 1 + N) mem3" using w by (simp add: mem4_def drop_update_cancel)
    moreover have "take (?z - ?g) (drop (?g + ?gap - 1 + N) mem5) = take (?z - ?g) (drop (?g + ?gap - 1 + N) mem4)"
    proof -
      have "drop (?g + ?gap - 1 + N) mem5 = (drop (?g + ?gap - 1 + N) mem4)[?z - ?g := CHR 0x00]"
        using w by (simp add: mem5_def drop_update_swap)
      then show ?thesis by simp
    qed
    ultimately show ?thesis unfolding k using halves(2) by metis
  qed
  have "length mem5 = ?z + (N + ?gap)" using t(2) by (simp add: mem5_def mem4_def)
  then show ?thesis
    unfolding r mem5_def [symmetric] using w N low high by (simp add: gap_grown_def eb_wf_def same_view_def buf_bytes_def)
qed

section \<open>Character positions\<close>

definition nchars :: "bool \<Rightarrow> string \<Rightarrow> nat" where
  "nchars mb s = (if mb then length (filter (\<lambda>c. \<not> utf8_continuation c) s) else length s)"

lemma nchars_append [simp]: "nchars mb (s @ t) = nchars mb s + nchars mb t"
  by (simp add: nchars_def)

lemma nchars_Nil [simp]: "nchars mb [] = 0"
  by (simp add: nchars_def)

text \<open>Text that starts at a character.\<close>

definition at_head :: "bool \<Rightarrow> string \<Rightarrow> bool" where
  "at_head mb s \<longleftrightarrow> s = [] \<or> \<not> mb \<or> \<not> utf8_continuation (hd s)"

lemma nchars_pos: "at_head mb s \<Longrightarrow> s \<noteq> [] \<Longrightarrow> 0 < nchars mb s"
  by (cases s) (auto simp: at_head_def nchars_def)

text \<open>A character position and a byte position that are the same place in a text.\<close>

definition pos_ok :: "bool \<Rightarrow> string \<Rightarrow> nat \<Rightarrow> nat \<Rightarrow> bool" where
  "pos_ok mb s c q \<longleftrightarrow> 1 \<le> q \<and> q \<le> length s + 1 \<and> c = 1 + nchars mb (take (q - 1) s) \<and> at_head mb (drop (q - 1) s)"

lemma pos_ok_less:
  assumes "pos_ok mb s c q" "pos_ok mb s c' q'" shows "c < c' \<longleftrightarrow> q < q'"
proof -
  have lt: "c < c'" if "q < q'" "pos_ok mb s c q" "pos_ok mb s c' q'" for c c' q q'
  proof -
    have "take (q' - 1) s = take (q - 1) s @ take (q' - q) (drop (q - 1) s)"
      using that take_add [of "q - 1" "q' - q" s] by (simp add: pos_ok_def)
    moreover have "at_head mb (take (q' - q) (drop (q - 1) s))" "take (q' - q) (drop (q - 1) s) \<noteq> []"
      using that by (auto simp: pos_ok_def at_head_def)
    ultimately show ?thesis using that nchars_pos by (simp add: pos_ok_def)
  qed
  show ?thesis using lt [of q q' c c'] lt [of q' q c' c] assms by (cases q q' rule: linorder_cases) (auto simp: pos_ok_def)
qed

lemma pos_ok_eq: "pos_ok mb s c q \<Longrightarrow> pos_ok mb s c' q' \<Longrightarrow> c = c' \<longleftrightarrow> q = q'"
  using pos_ok_less [of mb s c q c' q'] pos_ok_less [of mb s c' q' c q] by (metis linorder_neqE_nat less_irrefl)

lemma pos_ok_nchars:
  assumes "pos_ok mb s c q" "pos_ok mb s c' q'" "q \<le> q'"
  shows "c' = c + nchars mb (take (q' - q) (drop (q - 1) s))"
proof -
  have "take (q' - 1) s = take (q - 1) s @ take (q' - q) (drop (q - 1) s)"
    using assms take_add [of "q - 1" "q' - q" s] by (simp add: pos_ok_def)
  then show ?thesis using assms by (simp add: pos_ok_def)
qed

text \<open>What happens to a position when text is put in or taken out.\<close>

lemma pos_ok_insert_before:
  assumes "pos_ok mb s c q" "pos_ok mb s cp p" "q \<le> p" "at_head mb t"
  shows "pos_ok mb (take (p - 1) s @ t @ drop (p - 1) s) c q"
proof -
  let ?s = "take (p - 1) s @ t @ drop (p - 1) s"
  have t: "take (q - 1) ?s = take (q - 1) s" using assms by (auto simp: pos_ok_def min_def)
  have "at_head mb (drop (q - 1) ?s)"
  proof (cases "q = p")
    case True
    then show ?thesis using assms by (cases t) (auto simp: pos_ok_def at_head_def)
  next
    case False
    then have "drop (q - 1) s \<noteq> []" "drop (q - 1) ?s = take (p - q) (drop (q - 1) s) @ t @ drop (p - 1) s" "0 < p - q"
      using assms by (auto simp: pos_ok_def drop_take)
    then show ?thesis using assms(1) by (auto simp: pos_ok_def at_head_def)
  qed
  moreover have "c = 1 + nchars mb (take (q - 1) s)" "1 \<le> q" using assms(1) by (simp_all add: pos_ok_def)
  moreover have "q \<le> length ?s + 1" using assms by (auto simp: pos_ok_def)
  ultimately show ?thesis unfolding pos_ok_def t by blast
qed

lemma pos_ok_insert_after:
  assumes "pos_ok mb s c q" "pos_ok mb s cp p" "p \<le> q"
  shows "pos_ok mb (take (p - 1) s @ t @ drop (p - 1) s) (c + nchars mb t) (q + length t)"
proof -
  let ?s = "take (p - 1) s @ t @ drop (p - 1) s"
  have k: "q + length t - 1 = (p - 1) + length t + (q - p)" "length (take (p - 1) s) = p - 1" using assms by (auto simp: pos_ok_def)
  have "take (q + length t - 1) ?s = take (p - 1) s @ t @ take (q - p) (drop (p - 1) s)" unfolding k(1) using k(2) by simp
  moreover have "take (q - 1) s = take (p - 1) s @ take (q - p) (drop (p - 1) s)"
    using assms take_add [of "p - 1" "q - p" s] by (simp add: pos_ok_def)
  moreover have "drop (q + length t - 1) ?s = drop (q - 1) s" unfolding k(1) using k(2) assms by (simp add: pos_ok_def)
  ultimately show ?thesis using assms by (auto simp: pos_ok_def)
qed

lemma pos_ok_delete_before:
  assumes "pos_ok mb s c q" "pos_ok mb s cf f" "pos_ok mb s ct t" "q \<le> f" "f \<le> t"
  shows "pos_ok mb (take (f - 1) s @ drop (t - 1) s) c q"
proof -
  let ?s = "take (f - 1) s @ drop (t - 1) s"
  have tk: "take (q - 1) ?s = take (q - 1) s" using assms by (auto simp: pos_ok_def min_def)
  have "at_head mb (drop (q - 1) ?s)"
  proof (cases "q = f")
    case True
    then show ?thesis using assms by (auto simp: pos_ok_def)
  next
    case False
    then have "drop (q - 1) s \<noteq> []" "drop (q - 1) ?s = take (f - q) (drop (q - 1) s) @ drop (t - 1) s" "0 < f - q"
      using assms by (auto simp: pos_ok_def drop_take)
    then show ?thesis using assms(1) by (auto simp: pos_ok_def at_head_def)
  qed
  moreover have "c = 1 + nchars mb (take (q - 1) s)" "1 \<le> q" using assms(1) by (simp_all add: pos_ok_def)
  moreover have "q \<le> length ?s + 1" using assms by (auto simp: pos_ok_def)
  ultimately show ?thesis unfolding pos_ok_def tk by blast
qed

lemma pos_ok_delete_after:
  assumes "pos_ok mb s c q" "pos_ok mb s cf f" "pos_ok mb s ct t" "t \<le> q" "f \<le> t"
  shows "pos_ok mb (take (f - 1) s @ drop (t - 1) s) (c - (ct - cf)) (q - (t - f))"
proof -
  let ?s = "take (f - 1) s @ drop (t - 1) s"
  have k: "q - (t - f) - 1 = (f - 1) + (q - t)" "length (take (f - 1) s) = f - 1" using assms by (auto simp: pos_ok_def)
  have tk: "take (q - (t - f) - 1) ?s = take (f - 1) s @ take (q - t) (drop (t - 1) s)" unfolding k(1) using k(2) by simp
  have dr: "drop (q - (t - f) - 1) ?s = drop (q - 1) s" unfolding k(1) using k(2) assms by (simp add: pos_ok_def)
  have "c = ct + nchars mb (take (q - t) (drop (t - 1) s))" using pos_ok_nchars [OF assms(3,1,4)] .
  moreover have "ct = cf + nchars mb (take (t - f) (drop (f - 1) s))" using pos_ok_nchars [OF assms(2,3,5)] .
  ultimately have "c - (ct - cf) = cf + nchars mb (take (q - t) (drop (t - 1) s))" by simp
  moreover have "cf = 1 + nchars mb (take (f - 1) s)" "at_head mb (drop (q - 1) s)" using assms by (simp_all add: pos_ok_def)
  moreover have "1 \<le> q - (t - f)" "q - (t - f) \<le> length ?s + 1" using assms by (auto simp: pos_ok_def)
  ultimately show ?thesis unfolding pos_ok_def tk dr by simp
qed

section \<open>Insertion and deletion\<close>

text \<open>Every place a buffer keeps in both units is one place in its text.\<close>

definition eb_pos :: "ebuf \<Rightarrow> nat \<Rightarrow> nat \<Rightarrow> bool" where
  "eb_pos b c q \<longleftrightarrow> pos_ok (eb_multibyte b) (buf_bytes b) c q"

definition buf_ok :: "ebuf \<Rightarrow> bool" where
  "buf_ok b \<longleftrightarrow> eb_wf b \<and> eb_pos b (eb_gpt b) (eb_gpt_byte b) \<and> eb_pos b (eb_pt b) (eb_pt_byte b) \<and>
     eb_pos b (eb_begv b) (eb_begv_byte b) \<and> eb_pos b (eb_zv b) (eb_zv_byte b) \<and> eb_pos b (eb_z b) (eb_z_byte b) \<and>
     eb_begv_byte b \<le> eb_pt_byte b \<and> eb_pt_byte b \<le> eb_zv_byte b \<and>
     list_all (\<lambda>m. eb_pos b (mk_charpos m) (mk_bytepos m)) (eb_markers b)"

text \<open>The view of a buffer after an insertion at point, and after a deletion.\<close>

definition inserted :: "string \<Rightarrow> nat \<Rightarrow> bool \<Rightarrow> ebuf \<Rightarrow> ebuf \<Rightarrow> bool" where
  "inserted str n before b b' \<longleftrightarrow>
     buf_bytes b' = take (eb_pt_byte b - 1) (buf_bytes b) @ str @ drop (eb_pt_byte b - 1) (buf_bytes b) \<and>
     eb_z b' = eb_z b + n \<and> eb_z_byte b' = eb_z_byte b + length str \<and> eb_pt b' = eb_pt b + n \<and>
     eb_pt_byte b' = eb_pt_byte b + length str \<and> eb_begv b' = eb_begv b \<and> eb_begv_byte b' = eb_begv_byte b \<and>
     eb_zv b' = eb_zv b + n \<and> eb_zv_byte b' = eb_zv_byte b + length str \<and>
     eb_markers b' = map (marker_for_insert (eb_pt b) (eb_pt_byte b) (eb_pt b + n) (eb_pt_byte b + length str) before) (eb_markers b) \<and>
     eb_multibyte b' = eb_multibyte b \<and> eb_read_only b' = eb_read_only b \<and> eb_newline_cache b' = eb_newline_cache b"

lemma buf_ok_len: "buf_ok b \<Longrightarrow> length (buf_bytes b) = eb_z_byte b - 1"
  by (simp add: buf_ok_def length_buf_bytes)

lemma fill_gap_inserted:
  fixes n :: nat and before :: bool
  assumes wf: "eb_wf b" and g: "eb_gpt b = eb_pt b" "eb_gpt_byte b = eb_pt_byte b" and room: "length str \<le> eb_gap_size b"
  defines "b4 \<equiv> fill_gap str n b"
  defines "b5 \<equiv> adjust_markers_for_insert (eb_pt b4) (eb_pt_byte b4) (eb_pt b4 + n) (eb_pt_byte b4 + length str) before b4"
  defines "b6 \<equiv> b5\<lparr>eb_pt := eb_pt b5 + n, eb_pt_byte := eb_pt_byte b5 + length str\<rparr>"
  shows "eb_wf b6" and "inserted str n before b b6" and "eb_gpt b6 = eb_gpt b + n" and "eb_gpt_byte b6 = eb_gpt_byte b + length str"
proof -
  let ?g = "eb_gpt_byte b" and ?gap = "eb_gap_size b" and ?mem = "eb_mem b" and ?z = "eb_z_byte b" and ?l = "length str"
  define b3 where "b3 = b\<lparr>eb_mem := write_at (?g - 1) str ?mem, eb_gap_size := ?gap - ?l, eb_gpt := eb_gpt b + n, eb_zv := eb_zv b + n,
     eb_z := eb_z b + n, eb_gpt_byte := ?g + ?l, eb_zv_byte := eb_zv_byte b + ?l, eb_z_byte := ?z + ?l\<rparr>"
  have w: "length ?mem = ?z + ?gap" "1 \<le> ?g" "?g \<le> ?z" using wf by (simp_all add: eb_wf_def)
  have wf3: "eb_wf b3" using w room by (simp add: eb_wf_def b3_def length_write_at)
  have b4: "b4 = put_anchor b3" by (simp add: b4_def fill_gap_def b3_def)
  note a = put_anchor_same [OF wf3, folded b4]
  have bytes3: "buf_bytes b3 = take (?g - 1) (buf_bytes b) @ str @ drop (?g - 1) (buf_bytes b)"
  proof -
    have k: "?g + ?l - 1 = ?g - 1 + ?l" "?g - 1 + ?l + (?gap - ?l) = ?g - 1 + ?gap" "?z + ?l - (?g + ?l) = ?z - ?g" using w room by linarith+
    have f: "eb_mem b3 = write_at (?g - 1) str ?mem" "eb_gpt_byte b3 = ?g + ?l" "eb_gap_size b3 = ?gap - ?l" "eb_z_byte b3 = ?z + ?l"
      by (simp_all add: b3_def)
    have "buf_bytes b3 = take (?g - 1 + ?l) (write_at (?g - 1) str ?mem) @ take (?z - ?g) (drop (?g - 1 + ?gap) (write_at (?g - 1) str ?mem))"
      unfolding buf_bytes_def f k ..
    also have "take (?g - 1 + ?l) (write_at (?g - 1) str ?mem) = take (?g - 1) ?mem @ str"
      using w room by (intro take_write_at) simp
    also have "drop (?g - 1 + ?gap) (write_at (?g - 1) str ?mem) = drop (?g - 1 + ?gap) ?mem"
    proof -
      have "drop (?g - 1 + ?l + (?gap - ?l)) (write_at (?g - 1) str ?mem) = drop (?gap - ?l) (drop (?g - 1 + ?l) ?mem)"
        using w room by (simp add: write_at_def del: One_nat_def)
      then show ?thesis unfolding drop_drop using k(2) by (metis add.commute)
    qed
    finally show ?thesis using w by (simp add: buf_bytes_def)
  qed
  have "same_view b4 b3" using a(2) .
  then have v: "buf_bytes b4 = buf_bytes b3" "eb_z b4 = eb_z b + n" "eb_z_byte b4 = ?z + ?l" "eb_pt b4 = eb_pt b" "eb_pt_byte b4 = eb_pt_byte b"
    "eb_begv b4 = eb_begv b" "eb_begv_byte b4 = eb_begv_byte b" "eb_zv b4 = eb_zv b + n" "eb_zv_byte b4 = eb_zv_byte b + ?l"
    "eb_markers b4 = eb_markers b" "eb_multibyte b4 = eb_multibyte b" "eb_read_only b4 = eb_read_only b" "eb_newline_cache b4 = eb_newline_cache b"
    by (simp_all add: same_view_def b3_def)
  have bb: "buf_bytes b6 = buf_bytes b4" by (simp add: b6_def b5_def adjust_markers_for_insert_def buf_bytes_def)
  show "inserted str n before b b6"
    unfolding inserted_def bb v(1) bytes3 using v g by (simp add: b6_def b5_def adjust_markers_for_insert_def)
  show "eb_wf b6" using a(1) by (simp add: eb_wf_def b6_def b5_def adjust_markers_for_insert_def)
  show "eb_gpt b6 = eb_gpt b + n" "eb_gpt_byte b6 = eb_gpt_byte b + ?l"
    using a(4,5) by (simp_all add: b6_def b5_def adjust_markers_for_insert_def b3_def)
qed

lemma inserted_ok:
  assumes ok: "buf_ok b" and i: "inserted str n before b b'" and wf: "eb_wf b'" and g: "eb_gpt b' = eb_pt b'" "eb_gpt_byte b' = eb_pt_byte b'"
    and n: "n = nchars (eb_multibyte b) str" "at_head (eb_multibyte b) str"
  shows "buf_ok b'"
proof -
  let ?mb = "eb_multibyte b" and ?s = "buf_bytes b" and ?p = "eb_pt_byte b"
  have pt: "pos_ok ?mb ?s (eb_pt b) ?p" using ok by (simp add: buf_ok_def eb_pos_def)
  have bytes: "buf_bytes b' = take (?p - 1) ?s @ str @ drop (?p - 1) ?s" and mb: "eb_multibyte b' = ?mb" using i by (simp_all add: inserted_def)
  have bef: "eb_pos b' c q" if "eb_pos b c q" "q \<le> ?p" for c q
    using pos_ok_insert_before [OF _ pt that(2) n(2)] that(1) by (simp add: eb_pos_def bytes mb)
  have aft: "eb_pos b' (c + n) (q + length str)" if "eb_pos b c q" "?p \<le> q" for c q
    using pos_ok_insert_after [OF _ pt that(2), of c str] that(1) n(1) by (simp add: eb_pos_def bytes mb)
  have ptb: "eb_pos b (eb_pt b) ?p" using pt by (simp add: eb_pos_def)
  have mk: "eb_pos b' (mk_charpos m') (mk_bytepos m')"
    if "eb_pos b (mk_charpos m) (mk_bytepos m)" "m' = marker_for_insert (eb_pt b) ?p (eb_pt b + n) (?p + length str) before m" for m m'
  proof -
    consider "mk_bytepos m < ?p" | "mk_bytepos m = ?p" "mk_insertion_type m \<or> before" | "mk_bytepos m = ?p" "\<not> (mk_insertion_type m \<or> before)" | "?p < mk_bytepos m"
      by linarith
    then show ?thesis
    proof cases
      case 1
      then have "m' = m" using that(2) by (simp add: marker_for_insert_def)
      then show ?thesis using bef [OF that(1)] 1 by simp
    next
      case 2
      then have "mk_charpos m' = eb_pt b + n" "mk_bytepos m' = ?p + length str" using that(2) by (simp_all add: marker_for_insert_def)
      then show ?thesis using aft [OF ptb] by simp
    next
      case 3
      then have "m' = m" using that(2) by (simp add: marker_for_insert_def)
      then show ?thesis using bef [OF that(1)] 3 by simp
    next
      case 4
      then have "mk_charpos m' = mk_charpos m + n" "mk_bytepos m' = mk_bytepos m + length str" using that(2) by (simp_all add: marker_for_insert_def)
      then show ?thesis using aft [OF that(1)] 4 by simp
    qed
  qed
  have o: "eb_pos b (eb_begv b) (eb_begv_byte b)" "eb_pos b (eb_zv b) (eb_zv_byte b)" "eb_pos b (eb_z b) (eb_z_byte b)"
    "eb_begv_byte b \<le> ?p" "?p \<le> eb_zv_byte b" "list_all (\<lambda>m. eb_pos b (mk_charpos m) (mk_bytepos m)) (eb_markers b)"
    using ok by (simp_all add: buf_ok_def)
  have pz: "?p \<le> eb_z_byte b" using pt buf_ok_len [OF ok] ok by (auto simp: pos_ok_def buf_ok_def eb_wf_def)
  have "list_all (\<lambda>m. eb_pos b' (mk_charpos m) (mk_bytepos m)) (eb_markers b')"
    using o(6) mk i by (auto simp: inserted_def list_all_iff)
  then show ?thesis
    using wf g i bef [OF o(1,4)] aft [OF o(2,5)] aft [OF o(3) pz] aft [OF ptb] o(4,5) by (simp add: buf_ok_def inserted_def)
qed

text \<open>The buffer as \<^verbatim>\<open>prepare_to_modify_buffer\<close> leaves it.\<close>

definition prepared :: "bool \<Rightarrow> nat \<Rightarrow> nat \<Rightarrow> ebuf \<Rightarrow> ebuf" where
  "prepared prepare start en b = (if prepare then b\<lparr>eb_newline_cache :=
     map_option (invalidate_region_cache (int (eb_z b)) (int start - BEG) (int (eb_z b) - int en)) (eb_newline_cache b)\<rparr> else b)"

lemma prepared_simps [simp]:
  "buf_bytes (prepared p s e b) = buf_bytes b" "eb_wf (prepared p s e b) = eb_wf b" "eb_multibyte (prepared p s e b) = eb_multibyte b"
  "eb_pt (prepared p s e b) = eb_pt b" "eb_pt_byte (prepared p s e b) = eb_pt_byte b" "eb_gpt (prepared p s e b) = eb_gpt b"
  "eb_gpt_byte (prepared p s e b) = eb_gpt_byte b" "eb_markers (prepared p s e b) = eb_markers b" "eb_gap_size (prepared p s e b) = eb_gap_size b"
  "eb_z (prepared p s e b) = eb_z b" "eb_z_byte (prepared p s e b) = eb_z_byte b" "eb_zv (prepared p s e b) = eb_zv b" "eb_begv (prepared p s e b) = eb_begv b"
  "eb_begv_byte (prepared p s e b) = eb_begv_byte b" "eb_zv_byte (prepared p s e b) = eb_zv_byte b"
  by (simp_all add: prepared_def buf_bytes_def eb_wf_def)

lemma prepared_ok [simp]: "buf_ok (prepared p s e b) = buf_ok b"
  by (simp add: buf_ok_def eb_pos_def)

text \<open>An operation that stops with a signal leaves the text, point, the accessible portion and the markers alone.\<close>

definition signalled :: "ebuf \<Rightarrow> ebuf \<Rightarrow> bool" where
  "signalled b b' \<longleftrightarrow> eb_wf b' \<and> buf_bytes b' = buf_bytes b \<and> eb_pt b' = eb_pt b \<and> eb_pt_byte b' = eb_pt_byte b \<and>
     eb_begv b' = eb_begv b \<and> eb_begv_byte b' = eb_begv_byte b \<and> eb_zv b' = eb_zv b \<and> eb_zv_byte b' = eb_zv_byte b \<and>
     eb_z b' = eb_z b \<and> eb_z_byte b' = eb_z_byte b \<and> eb_markers b' = eb_markers b"

lemma signalled_view: "eb_wf a \<Longrightarrow> same_view a b \<Longrightarrow> signalled b a"
  by (simp add: signalled_def same_view_def)

lemma buf_ok_view:
  assumes "buf_ok b" "eb_wf a" "same_view a b" "eb_pos b (eb_gpt a) (eb_gpt_byte a)" shows "buf_ok a"
  using assms by (simp add: buf_ok_def eb_pos_def same_view_def)

text \<open>The gap brought to point, then made large enough.\<close>

definition gap_to_point :: "(nat \<Rightarrow> nat) \<Rightarrow> ebuf \<Rightarrow> bool list \<Rightarrow> edit" where
  "gap_to_point btc b qs = (if eb_pt b \<noteq> eb_gpt b then move_gap_both btc (eb_pt b) (eb_pt_byte b) b qs else Inr (b, qs))"

lemma gap_to_point_moved:
  assumes "buf_ok b" shows "gap_moved (eb_pt b) (eb_pt_byte b) b (gap_to_point btc b qs)"
proof -
  have p: "pos_ok (eb_multibyte b) (buf_bytes b) (eb_pt b) (eb_pt_byte b)" "pos_ok (eb_multibyte b) (buf_bytes b) (eb_gpt b) (eb_gpt_byte b)"
    using assms by (simp_all add: buf_ok_def eb_pos_def)
  have wf: "eb_wf b" using assms by (simp add: buf_ok_def)
  have r: "1 \<le> eb_pt_byte b" "eb_pt_byte b \<le> eb_z_byte b" using p(1) buf_ok_len [OF assms] wf by (auto simp: pos_ok_def eb_wf_def)
  show ?thesis
    using gap_left_moved [OF wf r(1), of "eb_pt b" btc qs] gap_right_moved [OF wf _ r(2), of "eb_pt b" btc qs] pos_ok_eq [OF p] wf
    by (cases "eb_pt_byte b" "eb_gpt_byte b" rule: linorder_cases) (simp_all add: gap_to_point_def move_gap_both_def gap_moved_def)
qed

text \<open>How an insertion at point ends.\<close>

definition insert_outcome :: "string \<Rightarrow> bool \<Rightarrow> ebuf \<Rightarrow> edit \<Rightarrow> bool" where
  "insert_outcome str before b r \<longleftrightarrow>
     (case r of Inl (e, b') \<Rightarrow> eb_wf b' \<and> same_view b' b \<and> (e \<noteq> Quit \<longrightarrow> eb_pos b (eb_gpt b') (eb_gpt_byte b'))
      | Inr (b', qs) \<Rightarrow> buf_ok b' \<and> inserted str (nchars (eb_multibyte b) str) before b b')"

lemma insert_into_gap:
  assumes ok: "buf_ok b" and at: "eb_gpt b = eb_pt b" "eb_gpt_byte b = eb_pt_byte b" and room: "length str \<le> eb_gap_size b"
    and n: "n = nchars (eb_multibyte b) str" "at_head (eb_multibyte b) str"
  shows "insert_outcome str before b
     (let b4 = fill_gap str n b;
          b5 = adjust_markers_for_insert (eb_pt b4) (eb_pt_byte b4) (eb_pt b4 + n) (eb_pt_byte b4 + length str) before b4
      in Inr (b5\<lparr>eb_pt := eb_pt b5 + n, eb_pt_byte := eb_pt_byte b5 + length str\<rparr>, qs))"
proof -
  have wf: "eb_wf b" using ok by (simp add: buf_ok_def)
  note f = fill_gap_inserted [OF wf at room, of n before]
  have v: "eb_pt b' = eb_pt b + n \<and> eb_pt_byte b' = eb_pt_byte b + length str" if "inserted str n before b b'" for b'
    using that by (simp add: inserted_def)
  note k = inserted_ok [OF ok f(2,1) _ _ n]
  have "buf_ok (let b4 = fill_gap str n b;
          b5 = adjust_markers_for_insert (eb_pt b4) (eb_pt_byte b4) (eb_pt b4 + n) (eb_pt_byte b4 + length str) before b4
      in b5\<lparr>eb_pt := eb_pt b5 + n, eb_pt_byte := eb_pt_byte b5 + length str\<rparr>)"
    unfolding Let_def by (rule k) (simp_all only: f(3,4) v [OF f(2)] at)
  then show ?thesis using f(2) unfolding insert_outcome_def Let_def sum.case prod.case n(1) by blast
qed

text \<open>A quit needs a poll that answered yes.\<close>

definition polled :: "bool list \<Rightarrow> edit \<Rightarrow> bool" where
  "polled qs r \<longleftrightarrow> (case r of Inl (e, b') \<Rightarrow> e = Quit \<and> True \<in> set qs | Inr (b', qs') \<Rightarrow> set qs' \<subseteq> set qs)"

lemma quitp_set: "quitp qs \<Longrightarrow> True \<in> set qs"
  by (cases qs) (auto simp: quitp_def)

lemma set_tl_subset: "set (tl qs) \<subseteq> set qs"
  by (cases qs) auto

lemma gap_left_loop_polls:
  "gap_left_loop bytepos gap g mem qs = (stop, mem', qs', intr) \<Longrightarrow> set qs' \<subseteq> set qs \<and> (intr \<longrightarrow> True \<in> set qs)"
proof (induction bytepos gap g mem qs rule: gap_left_loop.induct)
  case (1 bytepos gap g mem qs)
  show ?case
    using 1(2) 1(1) [OF _ _ refl refl] quitp_set [of qs] set_tl_subset [of qs]
    by (subst (asm) gap_left_loop.simps) (auto simp: Let_def split: if_split_asm)
qed

lemma gap_right_loop_polls:
  "gap_right_loop bytepos gap g mem qs = (stop, mem', qs', intr) \<Longrightarrow> set qs' \<subseteq> set qs \<and> (intr \<longrightarrow> True \<in> set qs)"
proof (induction bytepos gap g mem qs rule: gap_right_loop.induct)
  case (1 bytepos gap g mem qs)
  show ?case
    using 1(2) 1(1) [OF _ _ refl] quitp_set [of qs] set_tl_subset [of qs]
    by (subst (asm) gap_right_loop.simps) (auto simp: Let_def split: if_split_asm)
qed

lemma gap_settle_polls:
  assumes "set qs' \<subseteq> set qs \<and> (intr \<longrightarrow> True \<in> set qs)" shows "polled qs (gap_settle btc charpos b (stop, mem', qs', intr))"
  using assms quitp_set [of qs'] set_tl_subset [of qs'] by (auto simp: polled_def gap_settle_def Let_def)

lemma gap_left_polls: "polled qs (gap_left btc charpos bytepos b qs)"
  unfolding gap_left_def
  by (cases "gap_left_loop bytepos (eb_gap_size b) (eb_gpt_byte b) (eb_mem b) qs") (simp add: gap_settle_polls gap_left_loop_polls)

lemma gap_right_polls: "polled qs (gap_right btc charpos bytepos b qs)"
  unfolding gap_right_def
  by (cases "gap_right_loop bytepos (eb_gap_size b) (eb_gpt_byte b) (eb_mem b) qs") (simp add: gap_settle_polls gap_right_loop_polls)

lemma gap_to_point_polls: "polled qs (gap_to_point btc b qs)"
  using gap_left_polls [of qs] gap_right_polls [of qs] by (simp add: gap_to_point_def move_gap_both_def) (simp add: polled_def)

text \<open>The whole insertion, one step after the other.\<close>

lemma insert_outcome_view:
  "same_view a b \<Longrightarrow> insert_outcome str before a r \<Longrightarrow> insert_outcome str before b r"
  by (cases r) (auto simp: same_view_def insert_outcome_def inserted_def eb_pos_def)

definition room_for :: "edit_env \<Rightarrow> nat \<Rightarrow> ebuf \<Rightarrow> bool list \<Rightarrow> edit" where
  "room_for ev n b qs = (if eb_gap_size b < n then make_gap ev (n - eb_gap_size b) b qs else Inr (b, qs))"

lemma room_for_grown:
  assumes "eb_wf b"
  shows "case room_for ev n b qs of Inl (e, b') \<Rightarrow> (e = Buffer_Overflow \<or> e = Memory_Full) \<and> b' = b
    | Inr (b', qs') \<Rightarrow> eb_wf b' \<and> same_view b' b \<and> eb_gpt b' = eb_gpt b \<and> eb_gpt_byte b' = eb_gpt_byte b \<and> n \<le> eb_gap_size b'"
proof (cases "eb_gap_size b < n")
  case True
  have "gap_grown (max (n - eb_gap_size b) ((eb_z b - 1) div 64)) b (room_for ev n b qs)"
    using True make_gap_larger_grown [OF assms] by (simp add: room_for_def make_gap_def)
  then show ?thesis using True by (cases "room_for ev n b qs") (auto simp: gap_grown_def)
qed (use assms in \<open>simp add: room_for_def\<close>)

lemma gap_left_unpolled: "\<exists>b'. gap_left btc charpos bytepos b [] = Inr (b', [])"
  using gap_left_polls [of "[]" btc charpos bytepos b] by (cases "gap_left btc charpos bytepos b []") (auto simp: polled_def)

lemma edit_bind_Inr: "\<exists>b'. r = Inr (b', qs) \<Longrightarrow> edit_bind r f = f (SOME b'. r = Inr (b', qs)) qs"
  by (auto simp: edit_bind_def)

text \<open>Why there is no room: too large a buffer, or an allocation of at least what is needed that failed.\<close>

definition no_room :: "edit_env \<Rightarrow> ebuf \<Rightarrow> nat \<Rightarrow> edit_error \<Rightarrow> bool" where
  "no_room ev b n e \<longleftrightarrow>
     e = Buffer_Overflow \<and> BUF_BYTES_MAX < eb_z_byte b - 1 + n + (eb_z b - 1) div 64 \<or>
     e = Memory_Full \<and> (\<exists>size \<ge> eb_z_byte b + n. \<not> ev_realloc ev size)"

lemma room_for_no_room:
  assumes "room_for ev n b qs = Inl (e, b')" "eb_wf b" shows "no_room ev b n e"
proof -
  let ?c = "(eb_z b - 1) div 64"
  define k where "k = max (n - eb_gap_size b) ?c"
  have g: "eb_gap_size b < n" using assms by (simp add: room_for_def split: if_split_asm)
  then have m: "make_gap_larger ev k b qs = Inl (e, b')" using assms by (simp add: room_for_def make_gap_def k_def)
  show ?thesis
  proof (cases "BUF_BYTES_MAX - (eb_z_byte b - 1 + eb_gap_size b) < k")
    case True
    then have "e = Buffer_Overflow" using m by (simp add: make_gap_larger_def Let_def)
    moreover have "BUF_BYTES_MAX < eb_z_byte b - 1 + n + ?c" using True g unfolding k_def by linarith
    ultimately show ?thesis by (simp add: no_room_def)
  next
    case False
    define N where "N = min (k + GAP_BYTES_DFL) (BUF_BYTES_MAX - (eb_z_byte b - 1 + eb_gap_size b))"
    have "n \<le> eb_gap_size b + k" unfolding k_def by linarith
    moreover have "k \<le> N" using False by (simp add: N_def)
    ultimately have N: "n \<le> eb_gap_size b + N" by simp
    have "enlarge_buffer_text ev N b = None"
    proof (rule ccontr)
      assume "enlarge_buffer_text ev N b \<noteq> None"
      then obtain b1 where "enlarge_buffer_text ev N b = Some b1" by blast
      then have "\<exists>x. make_gap_larger ev k b qs = Inr x"
        using False unfolding make_gap_larger_def Let_def N_def [symmetric]
        by (simp only: if_False option.case gap_left_unpolled [THEN edit_bind_Inr]) blast
      then show False using m by simp
    qed
    then have "\<not> ev_realloc ev (eb_z_byte b + eb_gap_size b + N)" "e = Memory_Full"
      using m False assms(2) unfolding make_gap_larger_def Let_def N_def [symmetric]
      by (auto simp: enlarge_buffer_text_def Let_def eb_wf_def split: if_split_asm)
    moreover have "eb_z_byte b + n \<le> eb_z_byte b + eb_gap_size b + N" using N by simp
    ultimately show ?thesis unfolding no_room_def by blast
  qed
qed

text \<open>A change is allowed when \<^verbatim>\<open>prepare_to_modify_buffer\<close> does not signal.\<close>

definition change_allowed :: "edit_env \<Rightarrow> nat \<Rightarrow> nat \<Rightarrow> ebuf \<Rightarrow> bool" where
  "change_allowed ev start en b \<longleftrightarrow> \<not> Fbarf_if_buffer_read_only ev start b \<and> ev_intervals_pass ev start en"

lemma prepare_allowed:
  "change_allowed ev start en b \<Longrightarrow> prepare_to_modify_buffer ev start en b qs = Inr (prepared True start en b, qs)"
  by (simp add: change_allowed_def prepare_to_modify_buffer_def prepared_def)

lemma prepare_refused:
  assumes "\<not> change_allowed ev start en b"
  shows "prepare_to_modify_buffer ev start en b qs =
    Inl (if Fbarf_if_buffer_read_only ev start b then Buffer_Read_Only else Text_Read_Only, b)"
  using assms by (auto simp: change_allowed_def prepare_to_modify_buffer_def Fbarf_if_buffer_read_only_def)

lemma insert_1_both_refused:
  assumes "n \<noteq> 0" "\<not> change_allowed ev (eb_pt b) (eb_pt b) b"
  shows "insert_1_both ev btc str n True before b qs =
    Inl (if Fbarf_if_buffer_read_only ev (eb_pt b) b then Buffer_Read_Only else Text_Read_Only, b)"
  using assms(1) prepare_refused [OF assms(2), of qs] by (simp add: insert_1_both_def Let_def edit_bind_def)

lemma insert_1_both_steps:
  assumes "n \<noteq> 0" "n = nchars (eb_multibyte b) str" "prepare \<longrightarrow> change_allowed ev (eb_pt b) (eb_pt b) b"
  shows "insert_1_both ev btc str n prepare before b qs =
    edit_bind (gap_to_point btc (prepared prepare (eb_pt b) (eb_pt b) b) qs) (\<lambda>b2 qs2. edit_bind (room_for ev (length str) b2 qs2)
      (\<lambda>b3 qs3. let b4 = fill_gap str n b3;
                     b5 = adjust_markers_for_insert (eb_pt b4) (eb_pt_byte b4) (eb_pt b4 + n) (eb_pt_byte b4 + length str) before b4
                 in Inr (b5\<lparr>eb_pt := eb_pt b5 + n, eb_pt_byte := eb_pt_byte b5 + length str\<rparr>, qs3)))"
proof -
  have k: "(if eb_multibyte b then n else length str) = n" using assms(2) by (simp add: nchars_def)
  have p: "(if prepare then prepare_to_modify_buffer ev (eb_pt b) (eb_pt b) b qs else Inr (b, qs)) = Inr (prepared prepare (eb_pt b) (eb_pt b) b, qs)"
    using assms(3) by (cases prepare) (simp_all add: prepare_allowed, simp add: prepared_def)
  have i: "edit_bind (Inr (c, q)) f = f c q" for c q f by (simp add: edit_bind_def)
  show ?thesis unfolding insert_1_both_def Let_def k p gap_to_point_def room_for_def i using assms(1) by simp
qed

lemma insert_1_both_outcome:
  assumes ok: "buf_ok b" and str: "str \<noteq> []" "at_head (eb_multibyte b) str" and n: "n = nchars (eb_multibyte b) str"
    and rw: "prepare \<longrightarrow> change_allowed ev (eb_pt b) (eb_pt b) b"
  defines "b1 \<equiv> prepared prepare (eb_pt b) (eb_pt b) b"
  shows "insert_outcome str before b1 (insert_1_both ev btc str n prepare before b qs)"
    and "\<And>e b'. insert_1_both ev btc str n prepare before b qs = Inl (e, b') \<Longrightarrow>
      e = Quit \<and> True \<in> set qs \<or> no_room ev b (length str) e"
proof -
  have n0: "n \<noteq> 0" using nchars_pos [OF str(2,1)] n by simp
  note st = insert_1_both_steps [OF n0 n rw, of btc before qs, folded b1_def]
  have ok1: "buf_ok b1" using ok by (simp add: b1_def)
  have mb1: "eb_multibyte b1 = eb_multibyte b" by (simp add: b1_def)
  note mv = gap_to_point_moved [OF ok1, of btc qs]
  note pl = gap_to_point_polls [of qs btc b1]
  have "insert_outcome str before b1 (insert_1_both ev btc str n prepare before b qs) \<and>
    (\<forall>e b'. insert_1_both ev btc str n prepare before b qs = Inl (e, b') \<longrightarrow>
      e = Quit \<and> True \<in> set qs \<or> no_room ev b (length str) e)"
  proof (cases "gap_to_point btc b1 qs")
    case (Inl x)
    then show ?thesis using mv pl unfolding st by (auto simp: edit_bind_def insert_outcome_def gap_moved_def polled_def split: prod.split_asm)
  next
    case (Inr x)
    obtain b2 qs2 where x: "x = (b2, qs2)" by (cases x)
    have m: "eb_wf b2" "same_view b2 b1" "eb_gpt b2 = eb_pt b1" "eb_gpt_byte b2 = eb_pt_byte b1" using mv by (simp_all add: Inr x gap_moved_def)
    have pt: "eb_pos b1 (eb_pt b1) (eb_pt_byte b1)" using ok1 by (simp add: buf_ok_def)
    have z: "eb_z b2 = eb_z b" "eb_z_byte b2 = eb_z_byte b" using m(2) by (simp_all add: same_view_def b1_def)
    note gr = room_for_grown [OF m(1), where ev = ev and n = "length str" and qs = qs2]
    show ?thesis
    proof (cases "room_for ev (length str) b2 qs2")
      case I: (Inl y)
      obtain e b' where y: "y = (e, b')" by (cases y)
      have "b' = b2" using gr by (simp add: I y)
      moreover have "no_room ev b (length str) e" using room_for_no_room [OF I [unfolded y] m(1)] z by (simp add: no_room_def)
      ultimately show ?thesis using m pt
        unfolding st Inr x by (simp add: edit_bind_def I y insert_outcome_def)
    next
      case I: (Inr y)
      obtain b3 qs3 where y: "y = (b3, qs3)" by (cases y)
      have g: "eb_wf b3" "same_view b3 b2" "eb_gpt b3 = eb_gpt b2" "eb_gpt_byte b3 = eb_gpt_byte b2" "length str \<le> eb_gap_size b3"
        using gr by (simp_all add: I y)
      have v: "same_view b3 b1" using same_view_trans [OF g(2) m(2)] .
      have ok3: "buf_ok b3" by (rule buf_ok_view [OF ok1 g(1) v]) (use pt m(3,4) g(3,4) in simp)
      have at: "eb_gpt b3 = eb_pt b3" "eb_gpt_byte b3 = eb_pt_byte b3" and mb3: "eb_multibyte b3 = eb_multibyte b"
        using v g(3,4) m(3,4) mb1 by (simp_all add: same_view_def)
      note f = insert_outcome_view [OF v insert_into_gap [OF ok3 at g(5), of n before qs3, unfolded mb3, OF n str(2)]]
      show ?thesis unfolding st Inr x I y edit_bind_def sum.case prod.case using f by (simp add: Let_def)
    qed
  qed
  then show "insert_outcome str before b1 (insert_1_both ev btc str n prepare before b qs)"
    and "\<And>e b'. insert_1_both ev btc str n prepare before b qs = Inl (e, b') \<Longrightarrow>
      e = Quit \<and> True \<in> set qs \<or> no_room ev b (length str) e" by blast+
qed

section \<open>Deletion\<close>

definition deleted :: "nat \<Rightarrow> nat \<Rightarrow> nat \<Rightarrow> nat \<Rightarrow> ebuf \<Rightarrow> ebuf \<Rightarrow> bool" where
  "deleted from from_byte to to_byte b b' \<longleftrightarrow>
     buf_bytes b' = take (from_byte - 1) (buf_bytes b) @ drop (to_byte - 1) (buf_bytes b) \<and>
     eb_z b' = eb_z b - (to - from) \<and> eb_z_byte b' = eb_z_byte b - (to_byte - from_byte) \<and>
     eb_pt b' = (if from < eb_pt b then eb_pt b - (min (eb_pt b) to - from) else eb_pt b) \<and>
     eb_pt_byte b' = (if from < eb_pt b then eb_pt_byte b - (min (eb_pt_byte b) to_byte - from_byte) else eb_pt_byte b) \<and>
     eb_begv b' = eb_begv b \<and> eb_begv_byte b' = eb_begv_byte b \<and>
     eb_zv b' = eb_zv b - (to - from) \<and> eb_zv_byte b' = eb_zv_byte b - (to_byte - from_byte) \<and>
     eb_markers b' = map (marker_for_delete from from_byte to to_byte) (eb_markers b) \<and>
     eb_multibyte b' = eb_multibyte b \<and> eb_read_only b' = eb_read_only b \<and> eb_newline_cache b' = eb_newline_cache b"

lemma gap_text_absorb:
  assumes "length mem = z + gap" "1 \<le> f" "f \<le> g" "g \<le> t" "t \<le> z"
  shows "gap_text f (gap + (t - f)) (z - (t - f)) mem = take (f - 1) (gap_text g gap z mem) @ drop (t - 1) (gap_text g gap z mem)"
proof -
  have k: "z - (t - f) - f = z - t" "f - 1 + (gap + (t - f)) = t - 1 + gap" using assms by simp_all
  have a: "take (f - 1) (gap_text g gap z mem) = take (f - 1) mem" using assms by (simp add: gap_text_def min_def)
  have "drop (t - 1) (gap_text g gap z mem) = drop (t - g) (take (z - g) (drop (g - 1 + gap) mem))"
    using assms by (simp add: gap_text_def)
  also have "\<dots> = take (z - t) (drop (t - g + (g - 1 + gap)) mem)" using assms by (simp add: drop_take add.commute)
  also have "t - g + (g - 1 + gap) = t - 1 + gap" using assms by simp
  finally show ?thesis unfolding gap_text_def [of f] k a by simp
qed

lemma absorb_range_deleted:
  fixes "from" "to" :: nat
  assumes wf: "eb_wf b" and r: "1 \<le> from_byte" "from_byte \<le> eb_gpt_byte b" "eb_gpt_byte b \<le> to_byte" "to_byte \<le> eb_z_byte b"
  defines "b' \<equiv> absorb_range from from_byte to to_byte (adjust_markers_for_delete from from_byte to to_byte b)"
  shows "eb_wf b'" and "deleted from from_byte to to_byte b b'" and "eb_gpt b' = from" and "eb_gpt_byte b' = from_byte"
proof -
  let ?d = "to_byte - from_byte"
  define b1 where "b1 = b\<lparr>eb_markers := map (marker_for_delete from from_byte to to_byte) (eb_markers b),
     eb_pt := (if from < eb_pt b then eb_pt b - (min (eb_pt b) to - from) else eb_pt b),
     eb_pt_byte := (if from < eb_pt b then eb_pt_byte b - (min (eb_pt_byte b) to_byte - from_byte) else eb_pt_byte b),
     eb_gap_size := eb_gap_size b + ?d, eb_zv := eb_zv b - (to - from), eb_z := eb_z b - (to - from),
     eb_zv_byte := eb_zv_byte b - ?d, eb_z_byte := eb_z_byte b - ?d, eb_gpt := from, eb_gpt_byte := from_byte\<rparr>"
  have b': "b' = put_anchor b1"
    by (cases "from < eb_pt b") (simp_all add: b'_def absorb_range_def adjust_markers_for_delete_def b1_def Let_def)
  have w: "length (eb_mem b) = eb_z_byte b + eb_gap_size b" using wf by (simp add: eb_wf_def)
  have wf1: "eb_wf b1" using w r by (simp add: eb_wf_def b1_def)
  note a = put_anchor_same [OF wf1, folded b']
  have f: "eb_mem b1 = eb_mem b" "eb_gpt_byte b1 = from_byte" "eb_gap_size b1 = eb_gap_size b + ?d" "eb_z_byte b1 = eb_z_byte b - ?d"
    by (simp_all add: b1_def)
  have t: "buf_bytes b1 = take (from_byte - 1) (buf_bytes b) @ drop (to_byte - 1) (buf_bytes b)"
    unfolding buf_bytes_gap_text f using gap_text_absorb [OF w r] .
  have "buf_bytes b' = buf_bytes b1" "eb_z b' = eb_z b1" "eb_z_byte b' = eb_z_byte b1" "eb_pt b' = eb_pt b1" "eb_pt_byte b' = eb_pt_byte b1"
    "eb_begv b' = eb_begv b1" "eb_begv_byte b' = eb_begv_byte b1" "eb_zv b' = eb_zv b1" "eb_zv_byte b' = eb_zv_byte b1"
    "eb_markers b' = eb_markers b1" "eb_multibyte b' = eb_multibyte b1" "eb_read_only b' = eb_read_only b1" "eb_newline_cache b' = eb_newline_cache b1"
    using a(2) by (simp_all add: same_view_def)
  note v = this
  show "deleted from from_byte to to_byte b b'" unfolding deleted_def v t by (simp add: b1_def)
  show "eb_wf b'" "eb_gpt b' = from" "eb_gpt_byte b' = from_byte" using a(1,4,5) by (simp_all add: b1_def)
qed

text \<open>The places of a buffer through a deletion: behind it they move down, inside it they go to its start.\<close>

lemma deleted_pos:
  assumes ok: "eb_pos b c q" and f: "eb_pos b from from_byte" and t: "eb_pos b to to_byte" "from_byte \<le> to_byte"
    and d: "deleted from from_byte to to_byte b b'"
  shows "q \<le> from_byte \<Longrightarrow> eb_pos b' c q" and "to_byte \<le> q \<Longrightarrow> eb_pos b' (c - (to - from)) (q - (to_byte - from_byte))"
proof -
  have bytes: "buf_bytes b' = take (from_byte - 1) (buf_bytes b) @ drop (to_byte - 1) (buf_bytes b)" and mb: "eb_multibyte b' = eb_multibyte b"
    using d by (simp_all add: deleted_def)
  show "q \<le> from_byte \<Longrightarrow> eb_pos b' c q"
    using pos_ok_delete_before [OF ok [unfolded eb_pos_def] f [unfolded eb_pos_def] t(1) [unfolded eb_pos_def] _ t(2)] by (simp add: eb_pos_def bytes mb)
  show "to_byte \<le> q \<Longrightarrow> eb_pos b' (c - (to - from)) (q - (to_byte - from_byte))"
    using pos_ok_delete_after [OF ok [unfolded eb_pos_def] f [unfolded eb_pos_def] t(1) [unfolded eb_pos_def] _ t(2)] by (simp add: eb_pos_def bytes mb)
qed

lemma eb_pos_less: "eb_pos b c q \<Longrightarrow> eb_pos b c' q' \<Longrightarrow> c < c' \<longleftrightarrow> q < q'"
  unfolding eb_pos_def by (rule pos_ok_less)

lemma deleted_ok:
  assumes ok: "buf_ok b" and f: "eb_pos b from from_byte" and t: "eb_pos b to to_byte" "from_byte \<le> to_byte"
    and acc: "eb_begv_byte b \<le> from_byte" "to_byte \<le> eb_zv_byte b"
    and d: "deleted from from_byte to to_byte b b'" and wf: "eb_wf b'" and g: "eb_gpt b' = from" "eb_gpt_byte b' = from_byte"
  shows "buf_ok b'"
proof -
  note bef = deleted_pos(1) [OF _ f t d] and aft = deleted_pos(2) [OF _ f t d]
  have o: "eb_pos b (eb_pt b) (eb_pt_byte b)" "eb_pos b (eb_begv b) (eb_begv_byte b)" "eb_pos b (eb_zv b) (eb_zv_byte b)" "eb_pos b (eb_z b) (eb_z_byte b)"
    "eb_begv_byte b \<le> eb_pt_byte b" "eb_pt_byte b \<le> eb_zv_byte b" "list_all (\<lambda>m. eb_pos b (mk_charpos m) (mk_bytepos m)) (eb_markers b)"
    using ok by (simp_all add: buf_ok_def)
  have tz: "to_byte \<le> eb_z_byte b" using t(1) buf_ok_len [OF ok] ok by (auto simp: eb_pos_def pos_ok_def buf_ok_def eb_wf_def)
  have start: "eb_pos b' from from_byte" using bef [OF f] by simp
  have mk: "eb_pos b' (mk_charpos (marker_for_delete from from_byte to to_byte m)) (mk_bytepos (marker_for_delete from from_byte to to_byte m))"
    if m: "eb_pos b (mk_charpos m) (mk_bytepos m)" for m
  proof -
    have c: "to < mk_charpos m \<longleftrightarrow> to_byte < mk_bytepos m" "from < mk_charpos m \<longleftrightarrow> from_byte < mk_bytepos m"
      using eb_pos_less [OF t(1) m] eb_pos_less [OF f m] .
    show ?thesis using bef [OF m] aft [OF m] start c by (simp add: marker_for_delete_def)
  qed
  have pt: "eb_pos b' (eb_pt b') (eb_pt_byte b') \<and> eb_begv_byte b \<le> eb_pt_byte b' \<and> eb_pt_byte b' \<le> eb_zv_byte b - (to_byte - from_byte)"
  proof -
    have p: "eb_pt b' = (if from < eb_pt b then eb_pt b - (min (eb_pt b) to - from) else eb_pt b)"
      "eb_pt_byte b' = (if from < eb_pt b then eb_pt_byte b - (min (eb_pt_byte b) to_byte - from_byte) else eb_pt_byte b)"
      using d by (simp_all add: deleted_def)
    have c: "from < eb_pt b \<longleftrightarrow> from_byte < eb_pt_byte b" "eb_pt b < to \<longleftrightarrow> eb_pt_byte b < to_byte"
      using eb_pos_less [OF f o(1)] eb_pos_less [OF o(1) t(1)] .
    consider "eb_pt_byte b \<le> from_byte" | "from_byte < eb_pt_byte b" "eb_pt_byte b < to_byte" | "from_byte < eb_pt_byte b" "to_byte \<le> eb_pt_byte b" by linarith
    then show ?thesis
    proof cases
      case 1
      then have "eb_pt b' = eb_pt b" "eb_pt_byte b' = eb_pt_byte b" using p c by simp_all
      then show ?thesis using 1 bef [OF o(1)] o(5) acc t(2) by simp
    next
      case 2
      then have "eb_pt b' = from" "eb_pt_byte b' = from_byte" using p c by simp_all
      then show ?thesis using start acc t(2) by simp
    next
      case 3
      then have "eb_pt b' = eb_pt b - (to - from)" "eb_pt_byte b' = eb_pt_byte b - (to_byte - from_byte)" using p c by simp_all
      then show ?thesis using 3 aft [OF o(1)] o(6) acc t(2) by (simp, linarith)
    qed
  qed
  have "list_all (\<lambda>m. eb_pos b' (mk_charpos m) (mk_bytepos m)) (eb_markers b')"
    using d o(7) mk by (auto simp: deleted_def list_all_iff)
  moreover have "eb_begv b' = eb_begv b" "eb_begv_byte b' = eb_begv_byte b" "eb_zv b' = eb_zv b - (to - from)"
    "eb_zv_byte b' = eb_zv_byte b - (to_byte - from_byte)" "eb_z b' = eb_z b - (to - from)" "eb_z_byte b' = eb_z_byte b - (to_byte - from_byte)"
    using d by (simp_all add: deleted_def)
  ultimately show ?thesis
    using wf g start pt bef [OF o(2) acc(1)] aft [OF o(3) acc(2)] aft [OF o(4) tz] unfolding buf_ok_def by simp
qed

definition delete_outcome :: "nat \<Rightarrow> nat \<Rightarrow> nat \<Rightarrow> nat \<Rightarrow> ebuf \<Rightarrow> bool list \<Rightarrow> edit \<Rightarrow> bool" where
  "delete_outcome from from_byte to to_byte b qs r \<longleftrightarrow>
     (case r of Inl (e, b') \<Rightarrow> e = Quit \<and> True \<in> set qs \<and> eb_wf b' \<and> same_view b' b \<and> eb_gap_size b' = eb_gap_size b \<and>
          (eb_gpt_byte b \<le> eb_gpt_byte b' \<and> eb_gpt_byte b' \<le> from_byte \<or> to_byte \<le> eb_gpt_byte b' \<and> eb_gpt_byte b' \<le> eb_gpt_byte b)
      | Inr (b', qs') \<Rightarrow> buf_ok b' \<and> deleted from from_byte to to_byte b b' \<and> eb_gpt b' = from \<and> eb_gpt_byte b' = from_byte \<and>
          eb_gap_size b' = eb_gap_size b + (to_byte - from_byte))"

lemma deleted_view: "same_view a b \<Longrightarrow> deleted from from_byte to to_byte a b' \<Longrightarrow> deleted from from_byte to to_byte b b'"
  by (auto simp: same_view_def deleted_def)

lemma absorb_outcome:
  assumes ok: "buf_ok b" and f: "eb_pos b from from_byte" and t: "eb_pos b to to_byte" and acc: "eb_begv_byte b \<le> from_byte" "to_byte \<le> eb_zv_byte b"
    and c: "eb_wf c" "same_view c b" "eb_gap_size c = eb_gap_size b" and g: "from_byte \<le> eb_gpt_byte c" "eb_gpt_byte c \<le> to_byte"
  shows "delete_outcome from from_byte to to_byte b qs
    (Inr (absorb_range from from_byte to to_byte (adjust_markers_for_delete from from_byte to to_byte c), qs'))"
proof -
  have lo: "1 \<le> from_byte" using f by (simp add: eb_pos_def pos_ok_def)
  have hi: "to_byte \<le> eb_z_byte c" using t buf_ok_len [OF ok] ok c(2) by (auto simp: eb_pos_def pos_ok_def buf_ok_def eb_wf_def same_view_def)
  note a = absorb_range_deleted [OF c(1) lo g hi, of "from" "to"]
  note d = deleted_view [OF c(2) a(2)]
  have "eb_gap_size (absorb_range from from_byte to to_byte (adjust_markers_for_delete from from_byte to to_byte c)) =
      eb_gap_size b + (to_byte - from_byte)"
    using c(3) by (simp add: absorb_range_def adjust_markers_for_delete_def put_anchor_def Let_def)
  then show ?thesis using deleted_ok [OF ok f t order_trans [OF g] acc d a(1,3,4)] d a(3,4) by (simp add: delete_outcome_def)
qed

lemma gap_moved_cases:
  assumes "gap_moved charpos bytepos b r" "polled qs r"
  obtains b' where "r = Inl (Quit, b')" "True \<in> set qs" "eb_wf b'" "same_view b' b" "eb_gap_size b' = eb_gap_size b"
      "min bytepos (eb_gpt_byte b) \<le> eb_gpt_byte b'" "eb_gpt_byte b' \<le> max bytepos (eb_gpt_byte b)"
  | b' qs' where "r = Inr (b', qs')" "eb_wf b'" "same_view b' b" "eb_gpt b' = charpos" "eb_gpt_byte b' = bytepos" "eb_gap_size b' = eb_gap_size b"
proof (cases r)
  case (Inl x)
  then show thesis using assms that(1) by (cases x) (auto simp: gap_moved_def polled_def)
next
  case (Inr x)
  then show thesis using assms that(2) by (cases x) (auto simp: gap_moved_def)
qed

lemma del_range_2_outcome:
  assumes ok: "buf_ok b" and f: "eb_pos b from from_byte" and t: "eb_pos b to to_byte" and r: "from_byte \<le> to_byte"
    and acc: "eb_begv_byte b \<le> from_byte" "to_byte \<le> eb_zv_byte b"
  shows "delete_outcome from from_byte to to_byte b qs (del_range_2 btc from from_byte to to_byte b qs)"
proof -
  have wf: "eb_wf b" and gp: "eb_pos b (eb_gpt b) (eb_gpt_byte b)" using ok by (simp_all add: buf_ok_def)
  have b1: "1 \<le> to_byte" and zf: "from_byte \<le> eb_z_byte b"
    using f t buf_ok_len [OF ok] wf by (auto simp: eb_pos_def pos_ok_def eb_wf_def)
  note fg = eb_pos_less [OF gp f] and tg = eb_pos_less [OF t gp] and ft = eb_pos_less [OF t f]
  note ab = absorb_outcome [OF ok f t acc]
  consider "eb_gpt b < from" | "\<not> eb_gpt b < from" "to < eb_gpt b" | "\<not> eb_gpt b < from" "\<not> to < eb_gpt b" by blast
  then show ?thesis
  proof cases
    case 1
    then have "eb_gpt_byte b \<le> from_byte" using fg by simp
    from gap_moved_cases [OF gap_right_moved [OF wf this zf, of "from" btc qs] gap_right_polls] show ?thesis
    proof cases
      case (2 b' qs')
      then have "\<not> to < eb_gpt b'" using ft r by simp
      then show ?thesis using 1 ab [OF 2(2,3,6)] 2(5) r by (simp add: del_range_2_def 2(1) edit_bind_def)
    qed (use 1 \<open>eb_gpt_byte b \<le> from_byte\<close> in \<open>simp add: del_range_2_def edit_bind_def delete_outcome_def\<close>)
  next
    case 2
    then have "to_byte \<le> eb_gpt_byte b" using tg by simp
    from gap_moved_cases [OF gap_left_moved [OF wf b1 this, of "to" btc qs] gap_left_polls] show ?thesis
    proof cases
      case (2 b' qs')
      then show ?thesis using \<open>to < eb_gpt b\<close> \<open>\<not> eb_gpt b < from\<close> ab [OF 2(2,3,6)] r by (simp add: del_range_2_def edit_bind_def)
    qed (use 2 \<open>to_byte \<le> eb_gpt_byte b\<close> in \<open>simp add: del_range_2_def edit_bind_def delete_outcome_def\<close>)
  next
    case 3
    then have "from_byte \<le> eb_gpt_byte b" "eb_gpt_byte b \<le> to_byte" using fg tg by simp_all
    then show ?thesis using 3 ab [OF wf same_view_refl refl] by (simp add: del_range_2_def edit_bind_def)
  qed
qed

end
