(* ===== verification/Buffer_Edit.thy ===== *)
theory Buffer_Edit
  imports Gap_Buffer
begin

text \<open>
  What insertion and deletion do to a buffer, whatever state its gap is in and wherever they stop: the properties of
  \<^verbatim>\<open>insert_1_both\<close> and \<^verbatim>\<open>del_range_2\<close>.
\<close>

definition sample_ebuf :: ebuf where
  "sample_ebuf = \<lparr>eb_mem = [CHR ''a'', CHR 0xC3, CHR 0xA9, CHR 0x00, CHR ''x'', CHR ''x'', CHR ''x'', CHR ''b'', CHR 0x00],
     eb_gpt = 3, eb_gpt_byte = 4, eb_z = 4, eb_z_byte = 5, eb_gap_size = 4, eb_pt = 2, eb_pt_byte = 2,
     eb_begv = 1, eb_begv_byte = 1, eb_zv = 4, eb_zv_byte = 5,
     eb_markers = [\<lparr>mk_charpos = 2, mk_bytepos = 2, mk_insertion_type = False\<rparr>, \<lparr>mk_charpos = 3, mk_bytepos = 4, mk_insertion_type = True\<rparr>],
     eb_multibyte = True, eb_read_only = False, eb_newline_cache = None\<rparr>"

lemma sample_ebuf_ok: "buf_ok sample_ebuf"
  by code_simp

text \<open>An environment that puts nothing in the way of an edit.\<close>

definition plain_env :: edit_env where
  "plain_env = \<lparr>ev_inhibit_read_only = False, ev_inhibit_prop = (\<lambda>p. False), ev_intervals_pass = (\<lambda>p q. True), ev_realloc = (\<lambda>n. True)\<rparr>"








text \<open>Markers come back to where they were.\<close>

lemma marker_round_trip:
  assumes m: "eb_pos b (mk_charpos m) (mk_bytepos m)" and p: "eb_pos b from from_byte" and n: "0 < n" "0 < k"
  shows "marker_for_delete from from_byte (from + n) (from_byte + k) (marker_for_insert from from_byte (from + n) (from_byte + k) before m) = m"
proof -
  have c: "from < mk_charpos m \<longleftrightarrow> from_byte < mk_bytepos m" "mk_charpos m < from \<longleftrightarrow> mk_bytepos m < from_byte"
    using eb_pos_less [OF p m] eb_pos_less [OF m p] .
  consider "mk_bytepos m < from_byte" | "mk_bytepos m = from_byte" "mk_charpos m = from" | "from_byte < mk_bytepos m" "from < mk_charpos m"
    using c by linarith
  then show ?thesis
    by cases (use c n in \<open>simp_all add: marker_for_insert_def marker_for_delete_def\<close>)
qed

text \<open>
  Deleting what was just inserted. Without a quit, with the change allowed and with room and memory for the text, the insertion and the deletion of
  the range between the old and the new point both succeed, and together they leave the text, point, the
  accessible portion and every marker as they were, also the markers at point that advanced.
\<close>

theorem insert_delete_round_trip:
  assumes "buf_ok b" "change_allowed ev (eb_pt b) (eb_pt b) b" "str \<noteq> []" "at_head (eb_multibyte b) str" "n = nchars (eb_multibyte b) str"
    "True \<notin> set qs" "True \<notin> set qs2" "eb_z_byte b - 1 + length str + (eb_z b - 1) div 64 \<le> BUF_BYTES_MAX"
    "\<forall>size. ev_realloc ev size"
  shows "\<exists>b1 qs1 b2 qs3. insert_1_both ev btc str n True before b qs = Inr (b1, qs1) \<and>
    del_range_2 btc (eb_pt b) (eb_pt_byte b) (eb_pt b1) (eb_pt_byte b1) b1 qs2 = Inr (b2, qs3) \<and> buf_ok b2 \<and> buf_bytes b2 = buf_bytes b \<and>
    eb_pt b2 = eb_pt b \<and> eb_pt_byte b2 = eb_pt_byte b \<and> eb_zv b2 = eb_zv b \<and> eb_z b2 = eb_z b \<and> eb_markers b2 = eb_markers b"
proof -
  let ?P = "prepared True (eb_pt b) (eb_pt b) b"
  have rw: "True \<longrightarrow> change_allowed ev (eb_pt b) (eb_pt b) b" using assms(2) by simp
  note o = insert_1_both_outcome [OF assms(1,3,4,5) rw, where before = before and btc = btc and qs = qs]
  obtain b1 qs1 where i: "insert_1_both ev btc str n True before b qs = Inr (b1, qs1)"
    using o(2) assms(6,8,9) by (cases "insert_1_both ev btc str n True before b qs") (fastforce simp: no_room_def)+
  have ok1: "buf_ok b1" and ins: "inserted str n before ?P b1" using o(1) assms(5) [symmetric] unfolding i insert_outcome_def by simp_all
  let ?p = "eb_pt_byte b" and ?s = "buf_bytes b"
  have v: "buf_bytes b1 = take (?p - 1) ?s @ str @ drop (?p - 1) ?s" "eb_pt b1 = eb_pt b + n" "eb_pt_byte b1 = ?p + length str"
      "eb_zv b1 = eb_zv b + n" "eb_z b1 = eb_z b + n" "eb_multibyte b1 = eb_multibyte b" "eb_begv_byte b1 = eb_begv_byte b"
      "eb_markers b1 = map (marker_for_insert (eb_pt b) ?p (eb_pt b + n) (?p + length str) before) (eb_markers b)"
    using ins by (simp_all add: inserted_def)
  have pt: "eb_pos b (eb_pt b) ?p" "eb_begv_byte b \<le> ?p" "list_all (\<lambda>m. eb_pos b (mk_charpos m) (mk_bytepos m)) (eb_markers b)"
    using assms(1) by (simp_all add: buf_ok_def)
  have f: "eb_pos b1 (eb_pt b) ?p"
    using pos_ok_insert_before [OF pt(1) [unfolded eb_pos_def] pt(1) [unfolded eb_pos_def] order_refl assms(4)] v by (simp add: eb_pos_def)
  have t: "eb_pos b1 (eb_pt b1) (eb_pt_byte b1)" "eb_pt_byte b1 \<le> eb_zv_byte b1" using ok1 by (simp_all add: buf_ok_def)
  have r: "?p \<le> eb_pt_byte b1" "eb_begv_byte b1 \<le> ?p" using v pt(2) by simp_all
  have d0: "delete_outcome (eb_pt b) ?p (eb_pt b1) (eb_pt_byte b1) b1 qs2 (del_range_2 btc (eb_pt b) ?p (eb_pt b1) (eb_pt_byte b1) b1 qs2)"
    by (rule del_range_2_outcome [OF ok1 f t(1) r t(2)])
  then obtain b2 qs3 where d: "del_range_2 btc (eb_pt b) ?p (eb_pt b1) (eb_pt_byte b1) b1 qs2 = Inr (b2, qs3)"
    using assms(7) by (cases "del_range_2 btc (eb_pt b) ?p (eb_pt b1) (eb_pt_byte b1) b1 qs2") (auto simp: delete_outcome_def)
  have ok2: "buf_ok b2" and del: "deleted (eb_pt b) ?p (eb_pt b1) (eb_pt_byte b1) b1 b2" using d0 by (simp_all add: d delete_outcome_def)
  have n: "0 < n" "0 < length str" using nchars_pos [OF assms(4,3)] assms(3,5) by simp_all
  have len: "?p - 1 \<le> length ?s" "1 \<le> ?p" using pt(1) by (auto simp: eb_pos_def pos_ok_def)
  have "take (?p - 1) (buf_bytes b1) = take (?p - 1) ?s" "drop (eb_pt_byte b1 - 1) (buf_bytes b1) = drop (?p - 1) ?s"
    unfolding v(1,3) using len by simp_all
  then have "buf_bytes b2 = ?s" using del by (simp add: deleted_def)
  moreover have "eb_markers b2 = eb_markers b"
    using del pt(3) marker_round_trip [OF _ pt(1) n, of _ before] by (simp add: deleted_def v list_all_iff map_idI)
  moreover have "eb_pt b2 = eb_pt b" "eb_pt_byte b2 = ?p" "eb_zv b2 = eb_zv b" "eb_z b2 = eb_z b"
    using del n by (simp_all add: deleted_def v)
  ultimately show ?thesis using i d ok2 by blast
qed

theorem insert_delete_round_trip_witness:
  "\<exists>b1 qs1 b2 qs3. insert_1_both plain_env (\<lambda>p. p) ''zz'' 2 True True sample_ebuf [False] = Inr (b1, qs1) \<and>
    del_range_2 (\<lambda>p. p) 2 2 (eb_pt b1) (eb_pt_byte b1) b1 [] = Inr (b2, qs3) \<and> buf_bytes b2 = buf_bytes sample_ebuf \<and>
    eb_markers b2 = eb_markers sample_ebuf"
proof -
  have h: "change_allowed plain_env (eb_pt sample_ebuf) (eb_pt sample_ebuf) sample_ebuf" "''zz'' \<noteq> []" "at_head (eb_multibyte sample_ebuf) ''zz''" "2 = nchars (eb_multibyte sample_ebuf) ''zz''"
      "True \<notin> set [False]" "True \<notin> set []" "eb_pt sample_ebuf = 2" "eb_pt_byte sample_ebuf = 2"
    by code_simp+
  have fits: "eb_z_byte sample_ebuf - 1 + length ''zz'' + (eb_z sample_ebuf - 1) div 64 \<le> BUF_BYTES_MAX" by (simp add: sample_ebuf_def)
  have mem: "\<forall>size. ev_realloc plain_env size" by (simp add: plain_env_def)
  show ?thesis using insert_delete_round_trip [OF sample_ebuf_ok h(1-6) fits mem, where btc = "\<lambda>p. p" and before = True] unfolding h(7,8) by blast
qed

section \<open>A quit inside a character\<close>

text \<open>Text with one character of three bytes, \<open>m\<close> ASCII characters before it and \<open>k\<close> after it, the gap at the end.\<close>

definition euro_text :: "nat \<Rightarrow> nat \<Rightarrow> string" where
  "euro_text m k = replicate m CHR ''x'' @ [CHR 0xE2, CHR 0x82, CHR 0xAC] @ replicate k CHR ''x''"

definition euro_buffer :: "nat \<Rightarrow> nat \<Rightarrow> ebuf" where
  "euro_buffer m k = \<lparr>eb_mem = euro_text m k @ replicate 5 CHR 0x00,
     eb_gpt = m + k + 2, eb_gpt_byte = m + k + 4, eb_z = m + k + 2, eb_z_byte = m + k + 4, eb_gap_size = 4, eb_pt = 1, eb_pt_byte = 1,
     eb_begv = 1, eb_begv_byte = 1, eb_zv = m + k + 2, eb_zv_byte = m + k + 4, eb_markers = [],
     eb_multibyte = True, eb_read_only = False, eb_newline_cache = None\<rparr>"

lemma euro_bytes: "buf_bytes (euro_buffer m k) = euro_text m k"
proof -
  have "length (euro_text m k) = m + k + 4 - 1" by (simp add: euro_text_def)
  then show ?thesis by (simp add: buf_bytes_def euro_buffer_def)
qed

lemma euro_continuation [simp]:
  "\<not> utf8_continuation CHR ''x''" "\<not> utf8_continuation CHR 0xE2" "utf8_continuation CHR 0x82" "utf8_continuation CHR 0xAC"
  by code_simp+

lemma euro_ok: "0 < m \<Longrightarrow> buf_ok (euro_buffer m k)"
proof -
  assume m: "0 < m"
  have f: "eb_gpt (euro_buffer m k) = m + k + 2" "eb_gpt_byte (euro_buffer m k) = m + k + 4" "eb_z (euro_buffer m k) = m + k + 2"
    "eb_z_byte (euro_buffer m k) = m + k + 4" "eb_pt (euro_buffer m k) = 1" "eb_pt_byte (euro_buffer m k) = 1" "eb_begv (euro_buffer m k) = 1"
    "eb_begv_byte (euro_buffer m k) = 1" "eb_zv (euro_buffer m k) = m + k + 2" "eb_zv_byte (euro_buffer m k) = m + k + 4"
    "eb_markers (euro_buffer m k) = []" "eb_multibyte (euro_buffer m k) = True" by (simp_all add: euro_buffer_def)
  have wf: "eb_wf (euro_buffer m k)" by (simp add: eb_wf_def euro_buffer_def euro_text_def)
  have len: "length (euro_text m k) = m + k + 3" by (simp add: euro_text_def)
  have "nchars True (euro_text m k) = m + k + 1" by (simp add: nchars_def euro_text_def)
  then have en: "pos_ok True (euro_text m k) (m + k + 2) (m + k + 4)" using len by (simp add: pos_ok_def at_head_def)
  have beg: "pos_ok True (euro_text m k) 1 1" using m by (cases m) (simp_all add: pos_ok_def at_head_def euro_text_def nchars_def)
  show ?thesis unfolding buf_ok_def eb_pos_def euro_bytes f using wf en beg by simp
qed

text \<open>
  Property (C39). A quit while the gap moves can leave the gap inside a character. The loop of \<^verbatim>\<open>gap_left\<close> copies 32000 bytes at
  a time, wherever characters begin, and where a quit stops it the gap stays: moving the gap of this text from its end to
  its start and quitting at the second poll leaves the first byte of the character before the gap and the other two
  behind it, whatever character position \<^verbatim>\<open>BYTE_TO_CHAR\<close> makes of that. The text is unharmed.
\<close>

theorem quit_leaves_gap_in_character:
  "buf_ok (euro_buffer 999 31998) \<and>
   (\<exists>b'. move_gap_both btc 1 1 (euro_buffer 999 31998) [False, True] = Inl (Quit, b') \<and> eb_gpt_byte b' = 1001 \<and> eb_gpt b' = btc 1001 \<and>
      buf_bytes b' = buf_bytes (euro_buffer 999 31998) \<and> \<not> at_head (eb_multibyte b') (drop (eb_gpt_byte b' - 1) (buf_bytes b')))"
proof -
  define m k :: nat where "m = 999" and "k = 31998"
  let ?b = "euro_buffer m k" and ?q = "[False, True]"
  have ok: "buf_ok ?b" by (rule euro_ok) (simp add: m_def)
  then have wf: "eb_wf ?b" by (simp add: buf_ok_def)
  have g: "eb_gpt_byte ?b = 33001" by (simp add: euro_buffer_def m_def k_def)
  have mv: "gap_moved 1 1 ?b (gap_left btc 1 1 ?b ?q)" using gap_left_moved [OF wf, of 1 1 btc ?q] g by simp
  have step: "gap_left_loop 1 gap 33001 mem ?q = (1001, memmove (1001 - 1 + gap) (1001 - 1) 32000 mem, [], True)" for gap mem
    by (subst gap_left_loop.simps, subst gap_left_loop.simps) (simp add: quitp_def Let_def)
  define b' where "b' = put_anchor (?b\<lparr>eb_mem := memmove (1001 - 1 + eb_gap_size ?b) (1001 - 1) 32000 (eb_mem ?b), eb_gpt_byte := 1001, eb_gpt := btc 1001\<rparr>)"
  have b': "gap_left btc 1 1 ?b ?q = Inl (Quit, b')" "eb_gpt_byte b' = 1001" "eb_gpt b' = btc 1001"
    unfolding gap_left_def g step gap_settle_def by (simp_all add: Let_def b'_def put_anchor_def)
  have v: "same_view b' ?b" using mv unfolding b'(1) gap_moved_def by simp
  have t: "buf_bytes b' = euro_text m k" "eb_multibyte b'" using v by (simp_all add: same_view_def euro_bytes) (simp add: euro_buffer_def)
  have "drop (m + 1) (euro_text m k) = [CHR 0x82, CHR 0xAC] @ replicate k CHR ''x''" by (simp add: euro_text_def)
  moreover have "m + 1 = 1001 - 1" by (simp add: m_def)
  ultimately have "\<not> at_head True (drop (1001 - 1) (euro_text m k))" by (simp add: at_head_def)
  moreover have "move_gap_both btc 1 1 ?b ?q = Inl (Quit, b')" using b'(1) g by (simp add: move_gap_both_def)
  ultimately show ?thesis using ok b'(2,3) t unfolding m_def [symmetric] k_def [symmetric] euro_bytes by metis
qed

end
