(* ===== verification/Buffer_Position.thy ===== *)
theory Buffer_Position
  imports Buffer_Edit
begin

text \<open>
  Character positions and byte positions, \<^verbatim>\<open>src/src/marker.c\<close>: both conversions start from the nearest place whose two
  positions are known, the end of the text, point, the gap, the bounds of the accessible portion, the place found last and
  the markers, and walk over characters from there. A long walk leaves a marker behind, and every walk is
  remembered for the same modification count of the buffer.
\<close>

section \<open>Characters in memory\<close>

definition BYTES_BY_CHAR_HEAD :: "char \<Rightarrow> nat" where
  "BYTES_BY_CHAR_HEAD c =
     (let byte = of_char c :: 8 word
      in if \<not> bit byte 7 then 1 else if \<not> bit byte 5 then 2 else if \<not> bit byte 4 then 3 else if \<not> bit byte 3 then 4 else 5)"

abbreviation CHAR_HEAD_P :: "char \<Rightarrow> bool" where
  "CHAR_HEAD_P c \<equiv> \<not> utf8_continuation c"

text \<open>Places in the array: a byte position at the gap is behind it for what follows and before it for what precedes.\<close>

definition buf_byte_address :: "ebuf \<Rightarrow> nat \<Rightarrow> nat" where
  "buf_byte_address b pos = pos - 1 + (if pos < eb_gpt_byte b then 0 else eb_gap_size b)"

definition buf_next_char_len :: "ebuf \<Rightarrow> nat \<Rightarrow> nat" where
  "buf_next_char_len b pos_byte = BYTES_BY_CHAR_HEAD (eb_mem b ! buf_byte_address b pos_byte)"

text \<open>The loop has no bound of its own; reading in front of the array is no result.\<close>

function raw_prev_char_len :: "string \<Rightarrow> nat \<Rightarrow> nat \<Rightarrow> nat option" where
  "raw_prev_char_len mem p len =
     (if p < len then None
      else if CHAR_HEAD_P (mem ! (p - len)) then Some len
      else raw_prev_char_len mem p (len + 1))"
  by pat_completeness auto
termination
  by (relation "measure (\<lambda>(mem, p, len). p + 1 - len)") auto

declare raw_prev_char_len.simps [simp del]

lemma raw_prev_char_len_ge: "raw_prev_char_len mem p len = Some l \<Longrightarrow> len \<le> l \<and> l \<le> p"
  by (induction mem p len rule: raw_prev_char_len.induct) (subst (asm) raw_prev_char_len.simps, auto split: if_splits)

definition buf_prev_char_len :: "ebuf \<Rightarrow> nat \<Rightarrow> nat option" where
  "buf_prev_char_len b pos_byte =
     raw_prev_char_len (eb_mem b) (pos_byte - 1 + (if pos_byte \<le> eb_gpt_byte b then 0 else eb_gap_size b)) 1"

section \<open>The conversions\<close>

text \<open>The buffer with its modification count and the place found last: its count, character and byte position.\<close>

record cbuf =
  cb_buf :: ebuf
  cb_modiff :: nat
  cb_cached :: "(nat \<times> nat \<times> nat) option"

text \<open>The closest known places above and below, and one more place considered: the answer if it is one or if only
  single-byte characters are left between the two.\<close>

record known_range =
  best_above :: nat
  best_above_byte :: nat
  best_below :: nat
  best_below_byte :: nat

definition all_single :: "known_range \<Rightarrow> bool" where
  "all_single r \<longleftrightarrow> best_above r - best_below r = best_above_byte r - best_below_byte r"

definition consider_char :: "nat \<Rightarrow> nat \<times> nat \<Rightarrow> known_range \<Rightarrow> nat + known_range" where
  "consider_char charpos pl r =
     (case pl of (this_charpos, bytepos) \<Rightarrow>
        if this_charpos = charpos then Inl bytepos
        else
          (let r' = (if this_charpos > charpos
                     then (if this_charpos < best_above r then r\<lparr>best_above := this_charpos, best_above_byte := bytepos\<rparr> else r)
                     else if this_charpos > best_below r then r\<lparr>best_below := this_charpos, best_below_byte := bytepos\<rparr> else r);
               changed = (if this_charpos > charpos then this_charpos < best_above r else this_charpos > best_below r)
           in if changed \<and> all_single r' then Inl (best_below_byte r' + (charpos - best_below r')) else Inr r'))"

definition consider_byte :: "nat \<Rightarrow> nat \<times> nat \<Rightarrow> known_range \<Rightarrow> nat + known_range" where
  "consider_byte bytepos pl r =
     (case pl of (charpos, this_bytepos) \<Rightarrow>
        if this_bytepos = bytepos then Inl charpos
        else
          (let r' = (if this_bytepos > bytepos
                     then (if this_bytepos < best_above_byte r then r\<lparr>best_above := charpos, best_above_byte := this_bytepos\<rparr> else r)
                     else if this_bytepos > best_below_byte r then r\<lparr>best_below := charpos, best_below_byte := this_bytepos\<rparr> else r);
               changed = (if this_bytepos > bytepos then this_bytepos < best_above_byte r else this_bytepos > best_below_byte r)
           in if changed \<and> all_single r' then Inl (best_below r' + (bytepos - best_below_byte r')) else Inr r'))"

text \<open>The places every buffer knows, in the order in which they are considered.\<close>

definition known_places :: "cbuf \<Rightarrow> (nat \<times> nat) list" where
  "known_places s =
     (let b = cb_buf s
      in [(eb_pt b, eb_pt_byte b), (eb_gpt b, eb_gpt_byte b), (eb_begv b, eb_begv_byte b), (eb_zv b, eb_zv_byte b)] @
         (case cb_cached s of Some (modiff, c, q) \<Rightarrow> if modiff = cb_modiff s then [(c, q)] else [] | None \<Rightarrow> []))"

fun consider_all :: "(nat \<times> nat \<Rightarrow> known_range \<Rightarrow> nat + known_range) \<Rightarrow> (nat \<times> nat) list \<Rightarrow> known_range \<Rightarrow> nat + known_range" where
  "consider_all f [] r = Inr r"
| "consider_all f (p # ps) r = (case f p r of Inl v \<Rightarrow> Inl v | Inr r' \<Rightarrow> consider_all f ps r')"

text \<open>The markers, as long as both known places are far away; the further down the list, the less far they need to be.\<close>

fun consider_markers ::
  "(nat \<times> nat \<Rightarrow> known_range \<Rightarrow> nat + known_range) \<Rightarrow> (nat \<Rightarrow> known_range \<Rightarrow> bool) \<Rightarrow> nat \<Rightarrow> lisp_marker list \<Rightarrow> known_range \<Rightarrow> nat + known_range" where
  "consider_markers f near distance [] r = Inr r"
| "consider_markers f near distance (m # ms) r =
     (if near distance r then Inr r
      else (case f (mk_charpos m, mk_bytepos m) r of Inl v \<Rightarrow> Inl v | Inr r' \<Rightarrow> consider_markers f near (distance + 50) ms r'))"

definition near_char :: "nat \<Rightarrow> nat \<Rightarrow> known_range \<Rightarrow> bool" where
  "near_char charpos distance r \<longleftrightarrow> best_above r - charpos < distance \<or> charpos - best_below r < distance"

definition near_byte :: "nat \<Rightarrow> nat \<Rightarrow> known_range \<Rightarrow> bool" where
  "near_byte bytepos distance r \<longleftrightarrow> best_above_byte r - bytepos < distance \<or> bytepos - best_below_byte r < distance"

definition full_range :: "ebuf \<Rightarrow> known_range" where
  "full_range b = \<lparr>best_above = eb_z b, best_above_byte = eb_z_byte b, best_below = 1, best_below_byte = 1\<rparr>"

definition build_marker :: "nat \<Rightarrow> nat \<Rightarrow> ebuf \<Rightarrow> ebuf" where
  "build_marker charpos bytepos b =
     b\<lparr>eb_markers := \<lparr>mk_charpos = charpos, mk_bytepos = bytepos, mk_insertion_type = False\<rparr> # eb_markers b\<rparr>"

definition remember :: "bool \<Rightarrow> nat \<Rightarrow> nat \<Rightarrow> cbuf \<Rightarrow> cbuf" where
  "remember record_it charpos bytepos s =
     s\<lparr>cb_buf := (if record_it then build_marker charpos bytepos (cb_buf s) else cb_buf s), cb_cached := Some (cb_modiff s, charpos, bytepos)\<rparr>"

text \<open>Walking by a number of characters.\<close>

fun walk_up :: "ebuf \<Rightarrow> nat \<Rightarrow> nat \<Rightarrow> nat" where
  "walk_up b 0 byte = byte"
| "walk_up b (Suc n) byte = walk_up b n (byte + buf_next_char_len b byte)"

fun walk_down :: "ebuf \<Rightarrow> nat \<Rightarrow> nat \<Rightarrow> nat option" where
  "walk_down b 0 byte = Some byte"
| "walk_down b (Suc n) byte = (case buf_prev_char_len b byte of None \<Rightarrow> None | Some l \<Rightarrow> walk_down b n (byte - l))"

definition buf_charpos_to_bytepos :: "cbuf \<Rightarrow> nat \<Rightarrow> (nat \<times> cbuf) option" where
  "buf_charpos_to_bytepos s charpos =
     (let b = cb_buf s
      in if eb_z b = eb_z_byte b then Some (charpos, s)
         else
           (case consider_all (consider_char charpos) (known_places s) (full_range b) of
              Inl v \<Rightarrow> Some (v, s)
            | Inr r0 \<Rightarrow>
                (case consider_markers (consider_char charpos) (near_char charpos) 50 (eb_markers b) r0 of
                   Inl v \<Rightarrow> Some (v, s)
                 | Inr r \<Rightarrow>
                     if charpos - best_below r < best_above r - charpos
                     then (let q = walk_up b (charpos - best_below r) (best_below_byte r)
                           in Some (q, remember (charpos - best_below r > 5000) charpos q s))
                     else (case walk_down b (best_above r - charpos) (best_above_byte r) of
                             None \<Rightarrow> None
                           | Some q \<Rightarrow> Some (q, remember (best_above r - charpos > 5000) charpos q s)))))"

text \<open>Walking to a byte position.\<close>

function step_up :: "ebuf \<Rightarrow> nat \<Rightarrow> nat \<Rightarrow> nat \<Rightarrow> nat \<times> nat" where
  "step_up b bytepos c q =
     (if q < bytepos then step_up b bytepos (c + 1) (q + buf_next_char_len b q) else (c, q))"
  by pat_completeness auto
termination
  by (relation "measure (\<lambda>(b, bytepos, c, q). bytepos - q)") (auto simp: buf_next_char_len_def BYTES_BY_CHAR_HEAD_def Let_def)

function step_down :: "ebuf \<Rightarrow> nat \<Rightarrow> nat \<Rightarrow> nat \<Rightarrow> (nat \<times> nat) option" where
  "step_down b bytepos c q =
     (if q > bytepos then
        (case buf_prev_char_len b q of None \<Rightarrow> None
         | Some l \<Rightarrow> step_down b bytepos (c - 1) (q - l))
      else Some (c, q))"
  by pat_completeness auto
termination
  by (relation "measure (\<lambda>(b, bytepos, c, q). q)") (auto simp: buf_prev_char_len_def dest: raw_prev_char_len_ge)

declare step_up.simps [simp del] step_down.simps [simp del]

definition buf_bytepos_to_charpos :: "cbuf \<Rightarrow> nat \<Rightarrow> (nat \<times> cbuf) option" where
  "buf_bytepos_to_charpos s bytepos =
     (let b = cb_buf s
      in if eb_z b = eb_z_byte b then Some (bytepos, s)
         else
           (case consider_all (consider_byte bytepos) (known_places s) (full_range b) of
              Inl v \<Rightarrow> Some (v, s)
            | Inr r0 \<Rightarrow>
                (case consider_markers (consider_byte bytepos) (near_byte bytepos) 50 (eb_markers b) r0 of
                   Inl v \<Rightarrow> Some (v, s)
                 | Inr r \<Rightarrow>
                     if bytepos - best_below_byte r < best_above_byte r - bytepos
                     then (case step_up b bytepos (best_below r) (best_below_byte r) of (c, q) \<Rightarrow>
                             Some (c, remember (bytepos - best_below_byte r > 5000 \<and> eb_markers b \<noteq> []) c q s))
                     else (case step_down b bytepos (best_above r) (best_above_byte r) of
                             None \<Rightarrow> None
                           | Some (c, q) \<Rightarrow> Some (c, remember (best_above_byte r - bytepos > 5000 \<and> eb_markers b \<noteq> []) c q s)))))"

section \<open>Text as characters\<close>

definition char_ok :: "string \<Rightarrow> bool" where
  "char_ok ch \<longleftrightarrow> ch \<noteq> [] \<and> CHAR_HEAD_P (hd ch) \<and> length ch = BYTES_BY_CHAR_HEAD (hd ch) \<and> list_all utf8_continuation (tl ch)"

function split_chars :: "string \<Rightarrow> string list" where
  "split_chars [] = []"
| "split_chars (c # cs) = (c # take (BYTES_BY_CHAR_HEAD c - 1) cs) # split_chars (drop (BYTES_BY_CHAR_HEAD c - 1) cs)"
  by pat_completeness auto
termination
  by (relation "measure length") auto

text \<open>The bytes of a buffer are its characters' forms one after the other; without multibyte characters anything goes.\<close>

definition text_chars :: "bool \<Rightarrow> string \<Rightarrow> string list" where
  "text_chars mb s = (if mb then split_chars s else map (\<lambda>c. [c]) s)"

definition text_ok :: "bool \<Rightarrow> string \<Rightarrow> bool" where
  "text_ok mb s \<longleftrightarrow> (mb \<longrightarrow> list_all char_ok (split_chars s))"

lemma bytes_by_char_head_pos: "0 < BYTES_BY_CHAR_HEAD c"
  by (simp add: BYTES_BY_CHAR_HEAD_def Let_def)

lemma concat_split_chars: "concat (split_chars s) = s"
  by (induction s rule: split_chars.induct) simp_all

lemma split_chars_concat: "list_all char_ok cs \<Longrightarrow> split_chars (concat cs) = cs"
proof (induction cs)
  case (Cons ch cs)
  then obtain c t where ch: "ch = c # t" "length t = BYTES_BY_CHAR_HEAD c - 1" by (cases ch) (auto simp: char_ok_def)
  then show ?case using Cons by simp
qed simp

lemma text_ok_concat: "list_all char_ok cs \<Longrightarrow> text_ok mb (concat cs)"
  by (simp add: text_ok_def split_chars_concat)

lemma nchars_concat: "list_all char_ok cs \<Longrightarrow> nchars True (concat cs) = length cs"
proof (induction cs)
  case (Cons ch cs)
  have "filter (\<lambda>c. CHAR_HEAD_P c) ch = [hd ch]"
    using Cons.prems by (cases ch) (auto simp: char_ok_def list_all_iff)
  then have "nchars True ch = 1" by (simp add: nchars_def)
  then show ?case using Cons by simp
qed simp

text \<open>A place where a character can start is the end of some number of characters.\<close>

lemma char_boundary:
  "list_all char_ok cs \<Longrightarrow> k \<le> length (concat cs) \<Longrightarrow> at_head True (drop k (concat cs)) \<Longrightarrow>
     \<exists>j \<le> length cs. k = length (concat (take j cs))"
proof (induction cs arbitrary: k)
  case (Cons ch cs)
  consider "k = 0" | "0 < k" "k < length ch" | "length ch \<le> k" "0 < k" by linarith
  then show ?case
  proof cases
    case 1
    then show ?thesis by (intro exI [of _ 0]) simp
  next
    case 2
    then have "hd (drop k (concat (ch # cs))) = tl ch ! (k - 1)" "k - 1 < length (tl ch)"
      by (simp_all add: hd_append hd_drop_conv_nth nth_tl)
    then have "utf8_continuation (hd (drop k (concat (ch # cs))))" using Cons.prems(1) by (auto simp: char_ok_def list_all_length)
    then show ?thesis using Cons.prems(3) 2 by (simp add: at_head_def)
  next
    case 3
    moreover have "k - length ch \<le> length (concat cs)" using Cons.prems(2) by simp
    ultimately obtain j where "j \<le> length cs" "k - length ch = length (concat (take j cs))"
      using Cons.IH [of "k - length ch"] Cons.prems by auto
    then show ?thesis using 3 by (intro exI [of _ "Suc j"]) simp
  qed
qed simp

lemma at_head_concat: "list_all char_ok cs \<Longrightarrow> at_head mb (concat cs)"
  by (cases cs) (auto simp: at_head_def char_ok_def)

lemma drop_concat_take: "drop (length (concat (take j cs))) (concat cs) = concat (drop j cs)"
  by (metis append_eq_conv_conj append_take_drop_id concat_append)

lemma take_concat_take: "take (length (concat (take j cs))) (concat cs) = concat (take j cs)"
  by (metis append_eq_conv_conj append_take_drop_id concat_append)

lemma list_all_take: "list_all P xs \<Longrightarrow> list_all P (take n xs)"
  and list_all_drop: "list_all P xs \<Longrightarrow> list_all P (drop n xs)"
  by (auto simp: list_all_iff dest: in_set_takeD in_set_dropD)

lemma pos_ok_concat:
  assumes cs: "list_all char_ok cs"
  shows "pos_ok True (concat cs) c q \<longleftrightarrow> 1 \<le> c \<and> c \<le> length cs + 1 \<and> q = 1 + length (concat (take (c - 1) cs))"
proof
  assume p: "pos_ok True (concat cs) c q"
  then have "q - 1 \<le> length (concat cs)" "at_head True (drop (q - 1) (concat cs))" by (auto simp: pos_ok_def)
  then obtain j where j: "j \<le> length cs" "q - 1 = length (concat (take j cs))" using char_boundary [OF cs] by blast
  have "c = 1 + nchars True (concat (take j cs))" using p unfolding pos_ok_def j(2) take_concat_take by simp
  then have "c = 1 + j" using nchars_concat [OF list_all_take [OF cs, of j]] j(1) by simp
  moreover have "1 \<le> q" using p by (simp add: pos_ok_def)
  ultimately show "1 \<le> c \<and> c \<le> length cs + 1 \<and> q = 1 + length (concat (take (c - 1) cs))" using j by simp
next
  assume c: "1 \<le> c \<and> c \<le> length cs + 1 \<and> q = 1 + length (concat (take (c - 1) cs))"
  then have q: "q - 1 = length (concat (take (c - 1) cs))" by simp
  have "length (concat (take (c - 1) cs)) \<le> length (concat cs)" by (metis append_take_drop_id concat_append length_append le_add1)
  moreover have "nchars True (concat (take (c - 1) cs)) = c - 1" using nchars_concat [OF list_all_take [OF cs]] c by (simp add: min_def) linarith
  moreover have "at_head True (concat (drop (c - 1) cs))" using at_head_concat [OF list_all_drop [OF cs]] .
  ultimately show "pos_ok True (concat cs) c q" unfolding pos_ok_def q take_concat_take drop_concat_take using c by simp
qed

text \<open>Every character position has its byte position.\<close>

lemma pos_exists:
  assumes "text_ok mb s" "1 \<le> c" "c \<le> nchars mb s + 1" shows "\<exists>q. pos_ok mb s c q"
proof (cases mb)
  case True
  then have cs: "list_all char_ok (split_chars s)" using assms(1) by (simp add: text_ok_def)
  then show ?thesis using pos_ok_concat [OF cs, of c] nchars_concat [OF cs] assms(2,3) True by (simp add: concat_split_chars)
next
  case False
  then show ?thesis using assms by (intro exI [of _ c]) (simp add: pos_ok_def at_head_def nchars_def)
qed

lemma length_filter_all: "length (filter P xs) = length xs \<Longrightarrow> list_all P xs"
proof (induction xs)
  case (Cons x xs)
  then show ?case using length_filter_le [of P xs] by (cases "P x") auto
qed simp

text \<open>Between two places with as many characters as bytes, positions can be computed.\<close>

lemma pos_interpolate:
  assumes a: "pos_ok mb s c q" "pos_ok mb s c' q'" "c' - c = q' - q" and x: "c \<le> x" "x \<le> c'"
  shows "pos_ok mb s x (q + (x - c))"
proof -
  let ?t = "take (q' - q) (drop (q - 1) s)"
  have qq: "q \<le> q'" using pos_ok_less [OF a(2,1)] x by auto
  have r: "1 \<le> q" "q' \<le> length s + 1" "at_head mb (drop (q' - 1) s)" "c = 1 + nchars mb (take (q - 1) s)" using a(1,2) by (simp_all add: pos_ok_def)
  have lt: "length ?t = q' - q" using r qq by simp
  have "nchars mb ?t = length ?t" using pos_ok_nchars [OF a(1,2) qq] a(3) lt x by simp
  then have heads: "mb \<Longrightarrow> list_all CHAR_HEAD_P ?t" using length_filter_all [of CHAR_HEAD_P ?t] by (simp add: nchars_def)
  let ?k = "x - c"
  have k: "?k \<le> q' - q" using x a(3) by simp
  have "nchars mb (take ?k ?t) = ?k"
  proof (cases mb)
    case True
    have "filter CHAR_HEAD_P (take ?k ?t) = take ?k ?t" using list_all_take [OF heads [OF True], of ?k] by (simp only: filter_id_conv list_all_iff)
    then show ?thesis using True k lt by (simp add: nchars_def del: take_take)
  qed (use k lt in \<open>simp add: nchars_def del: take_take\<close>)
  moreover have "take ?k ?t = take ?k (drop (q - 1) s)" using k by (simp add: min_def)
  moreover have "take (q + ?k - 1) s = take (q - 1) s @ take ?k (drop (q - 1) s)" using r(1) take_add [of "q - 1" ?k s] by simp
  ultimately have "x = 1 + nchars mb (take (q + ?k - 1) s)" using r(4) x(1) by simp
  moreover have "at_head mb (drop (q + ?k - 1) s)"
  proof (cases "?k = q' - q")
    case True
    then show ?thesis using r(3) qq by simp
  next
    case False
    then have lt2: "?k < length ?t" using k lt by simp
    then have "q - 1 + ?k < length s" using r qq by simp
    then have "hd (drop (q + ?k - 1) s) = ?t ! ?k" using r(1) lt2 by (simp add: hd_drop_conv_nth)
    moreover have "mb \<Longrightarrow> CHAR_HEAD_P (?t ! ?k)" using heads lt2 by (simp add: list_all_length)
    ultimately show ?thesis by (auto simp: at_head_def)
  qed
  moreover have "q + ?k \<le> length s + 1" "1 \<le> q + ?k" using k r qq by linarith+
  ultimately show ?thesis unfolding pos_ok_def by blast
qed

section \<open>Reading around the gap\<close>

lemma read_next:
  assumes "eb_wf b" "1 \<le> q" "q < eb_z_byte b" shows "eb_mem b ! buf_byte_address b q = buf_bytes b ! (q - 1)"
proof -
  have w: "length (eb_mem b) = eb_z_byte b + eb_gap_size b" "1 \<le> eb_gpt_byte b" "eb_gpt_byte b \<le> eb_z_byte b" using assms(1) by (simp_all add: eb_wf_def)
  have "q - 1 - (eb_gpt_byte b - 1) = q - eb_gpt_byte b" "eb_gpt_byte b - 1 + eb_gap_size b + (q - eb_gpt_byte b) = q - 1 + eb_gap_size b"
    if "\<not> q < eb_gpt_byte b" using w that by simp_all
  then show ?thesis using w assms(2,3) by (auto simp: buf_byte_address_def buf_bytes_def nth_append)
qed

lemma read_prev:
  assumes "eb_wf b" "q \<le> eb_z_byte b" "1 \<le> i" "i < q" "q \<le> eb_gpt_byte b \<or> eb_gpt_byte b \<le> q - i"
  shows "eb_mem b ! (q - 1 + (if q \<le> eb_gpt_byte b then 0 else eb_gap_size b) - i) = buf_bytes b ! (q - i - 1)"
proof -
  have "buf_byte_address b (q - i) = q - 1 + (if q \<le> eb_gpt_byte b then 0 else eb_gap_size b) - i"
    using assms by (auto simp: buf_byte_address_def)
  then show ?thesis using read_next [OF assms(1), of "q - i"] assms by auto
qed

lemma raw_prev_char_len_finds:
  assumes "\<forall>i. 1 \<le> i \<and> i < l \<longrightarrow> utf8_continuation (mem ! (p - i))" "CHAR_HEAD_P (mem ! (p - l))" "l \<le> p" "1 \<le> len" "len \<le> l"
  shows "raw_prev_char_len mem p len = Some l"
  using assms(4,5)
proof (induction "l - len" arbitrary: len)
  case 0
  then show ?case using assms by (subst raw_prev_char_len.simps) simp
next
  case (Suc n)
  then have "len < l" by simp
  then have "raw_prev_char_len mem p len = raw_prev_char_len mem p (len + 1)"
    using assms Suc.prems by (subst raw_prev_char_len.simps) simp
  then show ?case using Suc.hyps(1) [of "len + 1"] Suc.hyps(2) Suc.prems \<open>len < l\<close> by simp
qed

text \<open>The bytes of the character between two neighbouring places.\<close>

lemma char_between:
  assumes t: "text_ok True s" and c: "pos_ok True s c q" "c \<le> nchars True s"
  shows "\<exists>ch. char_ok ch \<and> pos_ok True s (c + 1) (q + length ch) \<and> (\<forall>i < length ch. s ! (q - 1 + i) = ch ! i)"
proof -
  let ?cs = "split_chars s"
  have cs: "list_all char_ok ?cs" using t by (simp add: text_ok_def)
  note pos = pos_ok_concat [OF cs, unfolded concat_split_chars]
  have q: "1 \<le> c" "q = 1 + length (concat (take (c - 1) ?cs))" using c(1) pos by simp_all
  have len: "c - 1 < length ?cs" using c(2) q(1) nchars_concat [OF cs] by (simp add: concat_split_chars)
  have tk: "concat (take c ?cs) = concat (take (c - 1) ?cs) @ ?cs ! (c - 1)"
    using take_Suc_conv_app_nth [OF len] q(1) by simp
  have "pos_ok True s (c + 1) (q + length (?cs ! (c - 1)))" using pos tk q len by simp
  moreover have "\<forall>i < length (?cs ! (c - 1)). s ! (q - 1 + i) = ?cs ! (c - 1) ! i"
    using nth_concat_take [OF len] q(2) by (simp add: concat_split_chars)
  moreover have "char_ok (?cs ! (c - 1))" using cs len by (simp add: list_all_length)
  ultimately show ?thesis by blast
qed

lemma buf_next_char_ok:
  assumes b: "buf_ok b" "eb_multibyte b" "text_ok True (buf_bytes b)" and c: "eb_pos b c q" "c < eb_z b"
  shows "eb_pos b (c + 1) (q + buf_next_char_len b q)"
proof -
  have wf: "eb_wf b" and z: "eb_pos b (eb_z b) (eb_z_byte b)" using b(1) by (simp_all add: buf_ok_def)
  have zn: "eb_z b = 1 + nchars True (buf_bytes b)" using z b(2) buf_ok_len [OF b(1)] by (simp add: eb_pos_def pos_ok_def)
  obtain ch where ch: "char_ok ch" "pos_ok True (buf_bytes b) (c + 1) (q + length ch)" "\<forall>i < length ch. buf_bytes b ! (q - 1 + i) = ch ! i"
    using char_between [OF b(3), of c q] c zn b(2) by (auto simp: eb_pos_def)
  have q: "1 \<le> q" "q < eb_z_byte b" using c eb_pos_less [OF c(1) z] by (auto simp: eb_pos_def pos_ok_def)
  have "ch \<noteq> []" using ch(1) by (simp add: char_ok_def)
  then have "buf_bytes b ! (q - 1) = hd ch" using ch(3) [rule_format, of 0] by (simp add: hd_conv_nth)
  then have "buf_next_char_len b q = length ch" using read_next [OF wf q] ch(1) by (simp add: buf_next_char_len_def char_ok_def)
  then show ?thesis using ch(2) b(2) by (simp add: eb_pos_def)
qed

lemma buf_prev_char_ok:
  assumes b: "buf_ok b" "eb_multibyte b" "text_ok True (buf_bytes b)" and c: "eb_pos b (Suc c) q" "1 \<le> c"
  shows "\<exists>l. buf_prev_char_len b q = Some l \<and> eb_pos b c (q - l) \<and> 1 \<le> l \<and> l < q"
proof -
  have wf: "eb_wf b" and z: "eb_pos b (eb_z b) (eb_z_byte b)" and g: "eb_pos b (eb_gpt b) (eb_gpt_byte b)" using b(1) by (simp_all add: buf_ok_def)
  have n: "nchars True (buf_bytes b) + 1 = eb_z b" using z b(2) buf_ok_len [OF b(1)] by (simp add: eb_pos_def pos_ok_def)
  have qz: "q \<le> eb_z_byte b" using c(1) buf_ok_len [OF b(1)] wf by (auto simp: eb_pos_def pos_ok_def eb_wf_def)
  then have cz: "Suc c \<le> eb_z b" using eb_pos_less [OF z c(1)] by simp
  obtain q0 where q0: "eb_pos b c q0" using pos_exists [OF b(3) c(2)] cz n b(2) by (auto simp: eb_pos_def)
  obtain ch where ch: "char_ok ch" "pos_ok True (buf_bytes b) (c + 1) (q0 + length ch)" "\<forall>i < length ch. buf_bytes b ! (q0 - 1 + i) = ch ! i"
    using char_between [OF b(3), of c q0] q0 cz n b(2) by (auto simp: eb_pos_def)
  have q: "q = q0 + length ch" using pos_ok_eq [OF ch(2), of "Suc c" q] c(1) b(2) by (simp add: eb_pos_def)
  have q01: "1 \<le> q0" using q0 by (simp add: eb_pos_def pos_ok_def)
  have side: "q \<le> eb_gpt_byte b \<or> eb_gpt_byte b \<le> q0"
    using eb_pos_less [OF g c(1)] eb_pos_less [OF q0 g] by linarith
  let ?p = "q - 1 + (if q \<le> eb_gpt_byte b then 0 else eb_gap_size b)"
  have rd: "eb_mem b ! (?p - i) = ch ! (length ch - i)" if i: "1 \<le> i" "i \<le> length ch" for i
  proof -
    have "eb_mem b ! (?p - i) = buf_bytes b ! (q - i - 1)"
      using read_prev [OF wf qz i(1)] i(2) q q01 side by auto
    also have "q - i - 1 = q0 - 1 + (length ch - i)" using q i q01 by simp
    also have "buf_bytes b ! (q0 - 1 + (length ch - i)) = ch ! (length ch - i)" using ch(3) [rule_format, of "length ch - i"] i by linarith
    finally show ?thesis .
  qed
  have ne: "ch \<noteq> []" "CHAR_HEAD_P (ch ! 0)" "list_all utf8_continuation (tl ch)" using ch(1) by (auto simp: char_ok_def hd_conv_nth)
  have "utf8_continuation (eb_mem b ! (?p - i))" if "1 \<le> i" "i < length ch" for i
  proof -
    have "ch ! (length ch - i) = tl ch ! (length ch - i - 1)" using that by (simp add: nth_tl Suc_diff_Suc)
    moreover have "length ch - i - 1 < length (tl ch)" using that by simp
    ultimately show ?thesis using rd [of i] that ne(3) by (simp add: list_all_length)
  qed
  moreover have "CHAR_HEAD_P (eb_mem b ! (?p - length ch))" using rd [of "length ch"] ne by (simp add: Suc_leI)
  moreover have "length ch \<le> ?p" using q q01 by simp
  moreover have "1 \<le> length ch" using ne(1) by (simp add: Suc_leI)
  ultimately have "buf_prev_char_len b q = Some (length ch)"
    unfolding buf_prev_char_len_def by (intro raw_prev_char_len_finds) auto
  then show ?thesis using q0 q q01 \<open>1 \<le> length ch\<close> by auto
qed

section \<open>The nearest known place\<close>

text \<open>Two known places with the wanted one between them.\<close>

definition range_ok :: "ebuf \<Rightarrow> nat \<Rightarrow> known_range \<Rightarrow> bool" where
  "range_ok b c r \<longleftrightarrow> eb_pos b (best_above r) (best_above_byte r) \<and> eb_pos b (best_below r) (best_below_byte r) \<and>
     best_below r \<le> c \<and> c \<le> best_above r"

lemma eb_pos_le: "eb_pos b c q \<Longrightarrow> eb_pos b c' q' \<Longrightarrow> c \<le> c' \<longleftrightarrow> q \<le> q'"
  using eb_pos_less [of b c' q' c q] by (metis not_less)

lemma eb_pos_eq: "eb_pos b c q \<Longrightarrow> eb_pos b c' q' \<Longrightarrow> c = c' \<longleftrightarrow> q = q'"
  unfolding eb_pos_def by (rule pos_ok_eq)

text \<open>What both conversions rely on: considering one more place, whose two positions agree, gives the answer or two places that
  are still around the wanted one. \<open>key\<close> is the position asked for and \<open>ans\<close> the one wanted.\<close>

locale place_search =
  fixes f :: "nat \<Rightarrow> nat \<times> nat \<Rightarrow> known_range \<Rightarrow> nat + known_range"
    and key :: "nat \<times> nat \<Rightarrow> nat" and ans :: "nat \<times> nat \<Rightarrow> nat"
  assumes consider_ok: "eb_pos b c q \<Longrightarrow> range_ok b c r \<Longrightarrow> eb_pos b c' q' \<Longrightarrow>
    (case f (key (c, q)) (c', q') r of Inl v \<Rightarrow> v = ans (c, q) | Inr r' \<Rightarrow> range_ok b c r')"
begin

lemma all_ok:
  assumes "eb_pos b c q" shows "range_ok b c r \<Longrightarrow> list_all (\<lambda>(c', q'). eb_pos b c' q') ps \<Longrightarrow>
    (case consider_all (f (key (c, q))) ps r of Inl v \<Rightarrow> v = ans (c, q) | Inr r' \<Rightarrow> range_ok b c r')"
proof (induction ps arbitrary: r)
  case (Cons p ps)
  obtain c' q' where p: "p = (c', q')" by (cases p)
  then have "eb_pos b c' q'" "list_all (\<lambda>(c', q'). eb_pos b c' q') ps" using Cons.prems(2) by simp_all
  then show ?case using consider_ok [OF assms Cons.prems(1), of c' q'] Cons.IH
    by (cases "f (key (c, q)) (c', q') r") (simp_all add: p)
qed simp

lemma markers_ok:
  assumes "eb_pos b c q" shows "range_ok b c r \<Longrightarrow> list_all (\<lambda>m. eb_pos b (mk_charpos m) (mk_bytepos m)) ms \<Longrightarrow>
    (case consider_markers (f (key (c, q))) near d ms r of Inl v \<Rightarrow> v = ans (c, q) | Inr r' \<Rightarrow> range_ok b c r')"
proof (induction ms arbitrary: r d)
  case (Cons m ms)
  show ?case
  proof (cases "near d r")
    case False
    then show ?thesis using consider_ok [OF assms Cons.prems(1), of "mk_charpos m" "mk_bytepos m"] Cons
      by (cases "f (key (c, q)) (mk_charpos m, mk_bytepos m) r") simp_all
  qed (use Cons.prems in simp)
qed simp

end

lemma range_interpolate:
  assumes "range_ok b c r" "all_single r" "eb_pos b c q"
  shows "best_below_byte r + (c - best_below r) = q" and "best_below r + (q - best_below_byte r) = c"
proof -
  have p: "pos_ok (eb_multibyte b) (buf_bytes b) c (best_below_byte r + (c - best_below r))"
    by (rule pos_interpolate [where c' = "best_above r" and q' = "best_above_byte r"]) (use assms in \<open>simp_all add: range_ok_def all_single_def eb_pos_def\<close>)
  then show q: "best_below_byte r + (c - best_below r) = q" using pos_ok_eq [OF p, of c q] assms(3) by (simp add: eb_pos_def)
  show "best_below r + (q - best_below_byte r) = c" using q assms(1) by (auto simp: range_ok_def)
qed

interpretation by_char: place_search consider_char fst snd
proof
  fix b c q r c' q'
  assume a: "eb_pos b c q" "range_ok b c r" "eb_pos b c' q'"
  show "case consider_char (fst (c, q)) (c', q') r of Inl v \<Rightarrow> v = snd (c, q) | Inr r' \<Rightarrow> range_ok b c r'"
  proof (cases "c' = c")
    case True
    then show ?thesis using eb_pos_eq [OF a(1,3)] by (simp add: consider_char_def)
  next
    case False
    define r' where "r' = (if c' > c then (if c' < best_above r then r\<lparr>best_above := c', best_above_byte := q'\<rparr> else r)
      else if c' > best_below r then r\<lparr>best_below := c', best_below_byte := q'\<rparr> else r)"
    have "range_ok b c r'" using a False by (auto simp: range_ok_def r'_def)
    then show ?thesis using range_interpolate(1) [OF _ _ a(1), of r'] False
      by (simp add: consider_char_def Let_def flip: r'_def)
  qed
qed

interpretation by_byte: place_search consider_byte snd fst
proof
  fix b c q r c' q'
  assume a: "eb_pos b c q" "range_ok b c r" "eb_pos b c' q'"
  show "case consider_byte (snd (c, q)) (c', q') r of Inl v \<Rightarrow> v = fst (c, q) | Inr r' \<Rightarrow> range_ok b c r'"
  proof (cases "q' = q")
    case True
    then show ?thesis using eb_pos_eq [OF a(1,3)] by (simp add: consider_byte_def)
  next
    case False
    define r' where "r' = (if q' > q then (if q' < best_above_byte r then r\<lparr>best_above := c', best_above_byte := q'\<rparr> else r)
      else if q' > best_below_byte r then r\<lparr>best_below := c', best_below_byte := q'\<rparr> else r)"
    have "range_ok b c r'" using a False eb_pos_less [OF a(1,3)] eb_pos_less [OF a(3,1)] by (auto simp: range_ok_def r'_def)
    then show ?thesis using range_interpolate(2) [OF _ _ a(1), of r'] False
      by (simp add: consider_byte_def Let_def flip: r'_def)
  qed
qed

section \<open>Walking\<close>

lemma walk_up_ok:
  assumes b: "buf_ok b" "eb_multibyte b" "text_ok True (buf_bytes b)"
  shows "eb_pos b c q \<Longrightarrow> c + n \<le> eb_z b \<Longrightarrow> eb_pos b (c + n) (walk_up b n q)"
proof (induction n arbitrary: c q)
  case (Suc n)
  then show ?case using buf_next_char_ok [OF b Suc.prems(1)] Suc.IH [of "c + 1"] by simp
qed simp

lemma walk_down_ok:
  assumes b: "buf_ok b" "eb_multibyte b" "text_ok True (buf_bytes b)"
  shows "eb_pos b (c + n) q \<Longrightarrow> 1 \<le> c \<Longrightarrow> \<exists>q'. walk_down b n q = Some q' \<and> eb_pos b c q'"
proof (induction n arbitrary: q)
  case (Suc n)
  then obtain l where "buf_prev_char_len b q = Some l" "eb_pos b (c + n) (q - l)" using buf_prev_char_ok [OF b, of "c + n" q] by auto
  then show ?case using Suc by simp
qed simp

lemma step_up_ok:
  assumes b: "buf_ok b" "eb_multibyte b" "text_ok True (buf_bytes b)" and t: "eb_pos b c' q'" "c' \<le> eb_z b"
  shows "eb_pos b c q \<Longrightarrow> c \<le> c' \<Longrightarrow> step_up b q' c q = (c', q')"
proof (induction "c' - c" arbitrary: c q)
  case 0
  then have "c = c'" "q = q'" using eb_pos_eq [OF t(1) 0(2)] by auto
  then show ?case by (subst step_up.simps) simp
next
  case (Suc n)
  then have c: "c < c'" "q < q'" using eb_pos_less [OF Suc.prems(1) t(1)] by auto
  have "eb_pos b (c + 1) (q + buf_next_char_len b q)" using buf_next_char_ok [OF b Suc.prems(1)] c t(2) by simp
  then show ?case using Suc.hyps(1) [of "c + 1"] Suc.hyps(2) c by (subst step_up.simps) simp
qed

lemma step_down_ok:
  assumes b: "buf_ok b" "eb_multibyte b" "text_ok True (buf_bytes b)" and t: "eb_pos b c' q'" "1 \<le> c'"
  shows "eb_pos b c q \<Longrightarrow> c' \<le> c \<Longrightarrow> step_down b q' c q = Some (c', q')"
proof (induction "c - c'" arbitrary: c q)
  case 0
  then have "c = c'" "q = q'" using eb_pos_eq [OF t(1) 0(2)] by auto
  then show ?case by (subst step_down.simps) simp
next
  case (Suc n)
  then have c: "c' < c" "q' < q" using eb_pos_less [OF t(1) Suc.prems(1)] by auto
  then have "Suc (c - 1) = c" "1 \<le> c - 1" using t(2) by simp_all
  then obtain l where "buf_prev_char_len b q = Some l" "eb_pos b (c - 1) (q - l)"
    using buf_prev_char_ok [OF b, of "c - 1" q] Suc.prems(1) by auto
  then show ?case using Suc.hyps(1) [of "c - 1"] Suc.hyps(2) c by (subst step_down.simps) simp
qed

section \<open>The conversions are exact\<close>

definition cbuf_ok :: "cbuf \<Rightarrow> bool" where
  "cbuf_ok s \<longleftrightarrow> buf_ok (cb_buf s) \<and> text_ok (eb_multibyte (cb_buf s)) (buf_bytes (cb_buf s)) \<and>
     (case cb_cached s of None \<Rightarrow> True
      | Some (modiff, c, q) \<Rightarrow> modiff \<le> cb_modiff s \<and> (modiff = cb_modiff s \<longrightarrow> eb_pos (cb_buf s) c q))"

lemma known_places_ok: "cbuf_ok s \<Longrightarrow> list_all (\<lambda>(c, q). eb_pos (cb_buf s) c q) (known_places s)"
  by (auto simp: cbuf_ok_def known_places_def buf_ok_def Let_def split: option.splits)

lemma text_ok_head: "text_ok mb s \<Longrightarrow> at_head mb s"
  by (cases mb) (use at_head_concat [of "split_chars s" mb] in \<open>simp_all add: text_ok_def concat_split_chars, simp add: at_head_def\<close>)

lemma full_range_ok:
  assumes "buf_ok b" "text_ok (eb_multibyte b) (buf_bytes b)" "1 \<le> c" "c \<le> eb_z b" shows "range_ok b c (full_range b)"
proof -
  have "eb_pos b 1 1" using text_ok_head [OF assms(2)] by (simp add: eb_pos_def pos_ok_def)
  moreover have "eb_pos b (eb_z b) (eb_z_byte b)" using assms(1) by (simp add: buf_ok_def)
  ultimately show ?thesis using assms(3,4) by (simp add: range_ok_def full_range_def)
qed

text \<open>Nothing changes but markers that are added.\<close>

definition only_markers :: "cbuf \<Rightarrow> cbuf \<Rightarrow> bool" where
  "only_markers s s' \<longleftrightarrow> cb_modiff s' = cb_modiff s \<and>
     (\<exists>ms. cb_buf s' = (cb_buf s)\<lparr>eb_markers := ms @ eb_markers (cb_buf s)\<rparr>)"

lemma only_markers_refl [simp]: "only_markers s s"
  by (simp add: only_markers_def) (rule exI [of _ "[]"], simp)

lemma buf_bytes_markers [simp]: "buf_bytes (b\<lparr>eb_markers := ms\<rparr>) = buf_bytes b"
  by (simp add: buf_bytes_def)

lemma eb_pos_markers [simp]: "eb_pos (b\<lparr>eb_markers := ms\<rparr>) c q = eb_pos b c q"
  by (simp add: eb_pos_def)

lemma remember_ok:
  assumes ok: "cbuf_ok s" and p: "eb_pos (cb_buf s) c q"
  shows "cbuf_ok (remember r c q s)" and "only_markers s (remember r c q s)"
proof -
  show "only_markers s (remember r c q s)"
    by (cases r) (auto simp: only_markers_def remember_def build_marker_def intro: exI [of _ "[_]"] exI [of _ "[]"])
  have "buf_ok (build_marker c q (cb_buf s))" using ok p by (simp add: cbuf_ok_def buf_ok_def build_marker_def eb_wf_def)
  then show "cbuf_ok (remember r c q s)" using ok p by (auto simp: cbuf_ok_def remember_def build_marker_def)
qed

text \<open>A buffer with as many characters as bytes.\<close>

lemma single_bytes:
  assumes "buf_ok b" "text_ok (eb_multibyte b) (buf_bytes b)" "eb_z b = eb_z_byte b" "1 \<le> c" "c \<le> eb_z b" shows "eb_pos b c c"
proof -
  have f: "range_ok b c (full_range b)" using full_range_ok assms by blast
  have "pos_ok (eb_multibyte b) (buf_bytes b) c (1 + (c - 1))"
    by (rule pos_interpolate [where c' = "eb_z b" and q' = "eb_z_byte b"]) (use f assms in \<open>simp_all add: range_ok_def full_range_def eb_pos_def\<close>)
  then show ?thesis using assms(4) by (simp add: eb_pos_def)
qed

lemma not_single_multibyte: "buf_ok b \<Longrightarrow> eb_z b \<noteq> eb_z_byte b \<Longrightarrow> eb_multibyte b"
  by (rule ccontr) (use length_buf_bytes [of b] in \<open>auto simp: buf_ok_def eb_pos_def pos_ok_def nchars_def eb_wf_def\<close>)

lemma charpos_to_bytepos_ok:
  assumes ok: "cbuf_ok s" and p: "eb_pos (cb_buf s) c q"
  shows "\<exists>s'. buf_charpos_to_bytepos s c = Some (q, s') \<and> cbuf_ok s' \<and> only_markers s s'"
proof -
  let ?b = "cb_buf s"
  have b: "buf_ok ?b" and t: "text_ok (eb_multibyte ?b) (buf_bytes ?b)" and ms: "list_all (\<lambda>m. eb_pos ?b (mk_charpos m) (mk_bytepos m)) (eb_markers ?b)"
    and z: "eb_pos ?b (eb_z ?b) (eb_z_byte ?b)" using ok by (simp_all add: cbuf_ok_def buf_ok_def)
  have c: "1 \<le> c" "c \<le> eb_z ?b" using p eb_pos_le [OF p z] buf_ok_len [OF b] b by (auto simp: eb_pos_def pos_ok_def buf_ok_def eb_wf_def)
  show ?thesis
  proof (cases "eb_z ?b = eb_z_byte ?b")
    case True
    then show ?thesis using eb_pos_eq [OF p single_bytes [OF b t True c]] ok by (simp add: buf_charpos_to_bytepos_def Let_def)
  next
    case False
    have mb: "eb_multibyte ?b" using not_single_multibyte [OF b False] .
    have t': "text_ok True (buf_bytes ?b)" using t mb by simp
    note bt = b mb t'
    note all = by_char.all_ok [OF p full_range_ok [OF b t c] known_places_ok [OF ok], unfolded fst_conv snd_conv]
    show ?thesis
    proof (cases "consider_all (consider_char c) (known_places s) (full_range ?b)")
      case (Inl v)
      then show ?thesis using all False ok by (simp add: buf_charpos_to_bytepos_def Let_def)
    next
      case (Inr r0)
      have r0: "range_ok ?b c r0" using all by (simp add: Inr)
      note mk = by_char.markers_ok [OF p r0 ms, of "near_char c" 50, unfolded fst_conv snd_conv]
      show ?thesis
      proof (cases "consider_markers (consider_char c) (near_char c) 50 (eb_markers ?b) r0")
        case I: (Inl v)
        then show ?thesis using mk False Inr ok by (simp add: buf_charpos_to_bytepos_def Let_def)
      next
        case I: (Inr r)
        have r: "eb_pos ?b (best_above r) (best_above_byte r)" "eb_pos ?b (best_below r) (best_below_byte r)" "best_below r \<le> c" "c \<le> best_above r"
          using mk by (simp_all add: I range_ok_def)
        have up: "walk_up ?b (c - best_below r) (best_below_byte r) = q"
          using walk_up_ok [OF bt r(2), of "c - best_below r"] r(3) c(2) eb_pos_eq [OF p] by auto
        obtain q' where q': "walk_down ?b (best_above r - c) (best_above_byte r) = Some q'" "eb_pos ?b c q'"
          using walk_down_ok [OF bt, of c "best_above r - c" "best_above_byte r"] r(1,4) c(1) by auto
        have "q' = q" using eb_pos_eq [OF p q'(2)] by simp
        then show ?thesis using up q'(1) False Inr I remember_ok [OF ok p] by (auto simp: buf_charpos_to_bytepos_def Let_def)
      qed
    qed
  qed
qed

lemma bytepos_to_charpos_ok:
  assumes ok: "cbuf_ok s" and p: "eb_pos (cb_buf s) c q"
  shows "\<exists>s'. buf_bytepos_to_charpos s q = Some (c, s') \<and> cbuf_ok s' \<and> only_markers s s'"
proof -
  let ?b = "cb_buf s"
  have b: "buf_ok ?b" and t: "text_ok (eb_multibyte ?b) (buf_bytes ?b)" and ms: "list_all (\<lambda>m. eb_pos ?b (mk_charpos m) (mk_bytepos m)) (eb_markers ?b)"
    and z: "eb_pos ?b (eb_z ?b) (eb_z_byte ?b)" using ok by (simp_all add: cbuf_ok_def buf_ok_def)
  have c: "1 \<le> c" "c \<le> eb_z ?b" using p eb_pos_le [OF p z] buf_ok_len [OF b] b by (auto simp: eb_pos_def pos_ok_def buf_ok_def eb_wf_def)
  show ?thesis
  proof (cases "eb_z ?b = eb_z_byte ?b")
    case True
    then show ?thesis using eb_pos_eq [OF p single_bytes [OF b t True c]] ok by (simp add: buf_bytepos_to_charpos_def Let_def)
  next
    case False
    have mb: "eb_multibyte ?b" using not_single_multibyte [OF b False] .
    have t': "text_ok True (buf_bytes ?b)" using t mb by simp
    note bt = b mb t'
    note all = by_byte.all_ok [OF p full_range_ok [OF b t c] known_places_ok [OF ok], unfolded fst_conv snd_conv]
    show ?thesis
    proof (cases "consider_all (consider_byte q) (known_places s) (full_range ?b)")
      case (Inl v)
      then show ?thesis using all False ok by (simp add: buf_bytepos_to_charpos_def Let_def)
    next
      case (Inr r0)
      have r0: "range_ok ?b c r0" using all by (simp add: Inr)
      note mk = by_byte.markers_ok [OF p r0 ms, of "near_byte q" 50, unfolded fst_conv snd_conv]
      show ?thesis
      proof (cases "consider_markers (consider_byte q) (near_byte q) 50 (eb_markers ?b) r0")
        case I: (Inl v)
        then show ?thesis using mk False Inr ok by (simp add: buf_bytepos_to_charpos_def Let_def)
      next
        case I: (Inr r)
        have r: "eb_pos ?b (best_above r) (best_above_byte r)" "eb_pos ?b (best_below r) (best_below_byte r)" "best_below r \<le> c" "c \<le> best_above r"
          using mk by (simp_all add: I range_ok_def)
        note up = step_up_ok [OF bt p c(2) r(2,3)] and down = step_down_ok [OF bt p c(1) r(1,4)]
        then show ?thesis using False Inr I remember_ok [OF ok p] by (auto simp: buf_bytepos_to_charpos_def Let_def)
      qed
    qed
  qed
qed

text \<open>
  Property (C9). Both conversions are exact and undo each other. Whatever is known about the buffer, however far the answer
  is and on whichever side of the gap: converting a character position returns, its result is the byte
  position of that character, converting the result back returns the character position, and all that changes on the
  way is the place remembered and markers added in front of the others, which agree with the text like all the rest.
\<close>

theorem charpos_bytepos_exact:
  assumes "cbuf_ok s" "1 \<le> c" "c \<le> eb_z (cb_buf s)"
  shows "\<exists>q s' s''. buf_charpos_to_bytepos s c = Some (q, s') \<and> eb_pos (cb_buf s) c q \<and> cbuf_ok s' \<and> only_markers s s' \<and>
    buf_bytepos_to_charpos s' q = Some (c, s'') \<and> cbuf_ok s'' \<and> only_markers s' s''"
proof -
  have ok: "buf_ok (cb_buf s)" "text_ok (eb_multibyte (cb_buf s)) (buf_bytes (cb_buf s))" using assms(1) by (simp_all add: cbuf_ok_def)
  have "eb_z (cb_buf s) = nchars (eb_multibyte (cb_buf s)) (buf_bytes (cb_buf s)) + 1"
    using ok(1) buf_ok_len [OF ok(1)] by (simp add: buf_ok_def eb_pos_def pos_ok_def)
  then obtain q where q: "eb_pos (cb_buf s) c q" using pos_exists [OF ok(2) assms(2)] assms(3) by (auto simp: eb_pos_def)
  obtain s' where s': "buf_charpos_to_bytepos s c = Some (q, s')" "cbuf_ok s'" "only_markers s s'"
    using charpos_to_bytepos_ok [OF assms(1) q] by blast
  have "eb_pos (cb_buf s') c q" using s'(3) q by (auto simp: only_markers_def)
  then show ?thesis using bytepos_to_charpos_ok [OF s'(2)] s' q by blast
qed

theorem charpos_bytepos_exact_witness:
  "\<exists>q s' s''. buf_charpos_to_bytepos \<lparr>cb_buf = sample_ebuf, cb_modiff = 7, cb_cached = Some (6, 1, 4)\<rparr> 3 = Some (q, s') \<and>
    eb_pos sample_ebuf 3 q \<and> buf_bytepos_to_charpos s' q = Some (3, s'')"
proof -
  let ?s = "\<lparr>cb_buf = sample_ebuf, cb_modiff = 7, cb_cached = Some (6, 1, 4)\<rparr>"
  have "text_ok (eb_multibyte sample_ebuf) (buf_bytes sample_ebuf)" "3 \<le> eb_z sample_ebuf" by code_simp+
  then show ?thesis using charpos_bytepos_exact [of ?s 3] sample_ebuf_ok by (auto simp: cbuf_ok_def)
qed

end
