(* ===== verification/Newline_Backward.thy ===== *)
theory Newline_Backward
  imports Find_Newline
begin

text \<open>
  The backward half of \<^verbatim>\<open>find_newline\<close> and the function as a whole: a negative count searches towards the start, with the
  cache asked about the text before a position and the pieces between the gap and the search's limit scanned from
  their end. The result is always the position after the newline.
\<close>

section \<open>The search\<close>

definition buffer_floor_of :: "nl_buffer \<Rightarrow> int \<Rightarrow> int" where
  "buffer_floor_of b q =
     (if nb_begv b \<le> nb_gpt b \<and> char_to_byte b (nb_gpt b) \<le> q then char_to_byte b (nb_gpt b) else char_to_byte b (nb_begv b))"

text \<open>\<^verbatim>\<open>memrchr\<close> for a newline between two byte positions.\<close>

function memrchr_nl :: "nl_buffer \<Rightarrow> int \<Rightarrow> int \<Rightarrow> int option" where
  "memrchr_nl b lo q =
     (if lo < q then (if fetch_byte b (q - 1) = NL then Some (q - 1) else memrchr_nl b lo (q - 1)) else None)"
  by pat_completeness auto
termination
  by (relation "measure (\<lambda>(b, lo, q). nat (q - lo))") auto

declare memrchr_nl.simps [simp del]

lemma memrchr_nl_spec:
  "(case memrchr_nl b lo q of Some r \<Rightarrow> lo \<le> r \<and> r < q \<and> fetch_byte b r = NL \<and> (\<forall>x. r < x \<longrightarrow> x < q \<longrightarrow> fetch_byte b x \<noteq> NL)
    | None \<Rightarrow> \<forall>x. lo \<le> x \<longrightarrow> x < q \<longrightarrow> fetch_byte b x \<noteq> NL)"
proof (induction b lo q rule: memrchr_nl.induct)
  case (1 b lo q)
  have le: "x < q \<longleftrightarrow> x = q - 1 \<or> x < q - 1" for x by auto
  show ?case
  proof (cases "lo < q \<and> fetch_byte b (q - 1) \<noteq> NL")
    case True
    then have "memrchr_nl b lo q = memrchr_nl b lo (q - 1)" by (subst memrchr_nl.simps) simp
    then show ?thesis using 1 True by (auto simp: le split: option.splits)
  next
    case False
    then show ?thesis by (subst memrchr_nl.simps) auto
  qed
qed

lemma memrchr_nl_range: "memrchr_nl b lo q = Some r \<Longrightarrow> lo \<le> r \<and> r < q"
  using memrchr_nl_spec [where b = b and lo = lo and q = q] by simp

function eat_newlines_back :: "nl_buffer \<Rightarrow> int \<Rightarrow> int \<Rightarrow> int \<Rightarrow> int \<Rightarrow> int \<times> int \<times> int" where
  "eat_newlines_back b start start_byte lim1 count =
     (if start > lim1 \<and> fetch_byte b (start_byte - 1) = NL then
        (if count + 1 = 0 then (start, start_byte, 0)
         else eat_newlines_back b (start - 1) (start_byte - 1) lim1 (count + 1))
      else (start, start_byte, count))"
  by pat_completeness auto
termination
  by (relation "measure (\<lambda>(b, start, start_byte, lim1, count). nat (start - lim1))") auto

declare eat_newlines_back.simps [simp del]

partial_function (option) cache_skip_back :: "nl_buffer \<Rightarrow> int \<Rightarrow> int \<Rightarrow> int \<Rightarrow> int \<Rightarrow> int \<Rightarrow> region_cache \<Rightarrow> skip option" where
  "cache_skip_back b en start start_byte next_change count c =
     (if \<not> start > en then Some (Skipped start start_byte next_change count c)
      else
        (case region_cache_backward (nb_z b) start c of (result, nc, c1) \<Rightarrow>
          (let start1 = (if result \<noteq> 0 then nc else start);
               nc1 = (if result \<noteq> 0 then en else nc);
               lim1 = (if result \<noteq> 0 then en else max nc en)
           in case eat_newlines_back b start1 (char_to_byte b start1) lim1 count of (start2, sb2, count2) \<Rightarrow>
                if count2 = 0 then Some (SkipFound start2 sb2 c1)
                else if start2 > nc1 \<and> result = 0 then Some (Skipped start2 sb2 nc1 count2 c1)
                else cache_skip_back b en start2 sb2 nc1 count2 c1)))"

declare cache_skip_back.simps [code]

text \<open>The dumb loop from the upper end of a piece down to its floor.\<close>

function dumb_backward ::
  "nl_buffer \<Rightarrow> int \<Rightarrow> int \<Rightarrow> int \<Rightarrow> region_cache option \<Rightarrow> int option \<times> int \<times> region_cache option" where
  "dumb_backward b cursor flr count c =
     (if flr < cursor then
        (let nl = memrchr_nl b flr cursor;
             after_prev = (case nl of Some r \<Rightarrow> r + 1 | None \<Rightarrow> flr);
             c1 = (if cursor \<noteq> after_prev
                   then map_option (know_region_cache (nb_z b) (byte_to_char b after_prev) (byte_to_char b cursor)) c else c)
         in case nl of None \<Rightarrow> (None, count, c1)
            | Some r \<Rightarrow> if count + 1 \<ge> 0 then (Some (r + 1), count + 1, c1) else dumb_backward b r flr (count + 1) c1)
      else (None, count, c))"
  by pat_completeness auto
termination
  by (relation "measure (\<lambda>(b, cursor, flr, count, c). nat (cursor - flr))") (auto dest!: sym [of "Some _"] memrchr_nl_range)

declare dumb_backward.simps [simp del]

definition scan_window_back :: "nl_buffer \<Rightarrow> int \<Rightarrow> int \<Rightarrow> int \<Rightarrow> int \<Rightarrow> int \<Rightarrow> region_cache option \<Rightarrow> window option" where
  "scan_window_back b en end_byte start start_byte count c =
     (case c of
        None \<Rightarrow>
          (let q = (if start_byte = -1 then char_to_byte b start else start_byte)
           in Some (WinScan q (max (buffer_floor_of b (q - 1)) end_byte) count None))
      | Some c0 \<Rightarrow>
          (case cache_skip_back b en start start_byte 0 count c0 of
             None \<Rightarrow> None
           | Some (SkipFound s q c1) \<Rightarrow> Some (WinDone (s, q, 0, Some c1))
           | Some (Skipped s q nc k c1) \<Rightarrow>
               if s \<le> en then Some (WinDone (en, end_byte, k, Some c1))
               else
                 (let q1 = (if q \<le> end_byte then end_byte + 1 else q);
                      ceiling = max (char_to_byte b nc) end_byte
                  in Some (WinScan q1 (max (buffer_floor_of b (q1 - 1)) ceiling) k (Some c1)))))"

partial_function (option) newline_backward ::
  "nl_buffer \<Rightarrow> int \<Rightarrow> int \<Rightarrow> int \<Rightarrow> int \<Rightarrow> int \<Rightarrow> region_cache option \<Rightarrow> nl_result option" where
  "newline_backward b en end_byte start start_byte count c =
     (if \<not> start > en then Some (start, start_byte, count, c)
      else
        (case scan_window_back b en end_byte start start_byte count c of
           None \<Rightarrow> None
         | Some (WinDone r) \<Rightarrow> Some r
         | Some (WinScan q flr k c1) \<Rightarrow>
             (case dumb_backward b q flr k c1 of (found, k', c2) \<Rightarrow>
               (case found of Some q' \<Rightarrow> Some (byte_to_char b q', q', 0, c2)
                | None \<Rightarrow> newline_backward b en end_byte (byte_to_char b flr) flr k' c2))))"

declare newline_backward.simps [code]

text \<open>The position, its byte position, the number of newlines found (with the sign of the count), and the cache.\<close>

definition find_newline ::
  "nl_buffer \<Rightarrow> int \<Rightarrow> int \<Rightarrow> int \<Rightarrow> int \<Rightarrow> int \<Rightarrow> region_cache option \<Rightarrow> (int \<times> int \<times> int \<times> region_cache option) option" where
  "find_newline b start start_byte en0 end_byte0 count c =
     (if count > 0 then find_newline_fwd b start start_byte en0 end_byte0 count c
      else
        (let en = (if en0 = 0 then nb_begv b else en0);
             end_byte1 = (if en0 = 0 then char_to_byte b (nb_begv b) else end_byte0);
             end_byte = (if end_byte1 = -1 then char_to_byte b en else end_byte1)
         in case newline_backward b en end_byte start start_byte count c of
              None \<Rightarrow> None
            | Some (s, q, k, c') \<Rightarrow> Some (s, (if q = -1 then char_to_byte b s else q), count - k, c')))"

section \<open>The reference\<close>

text \<open>One character at a time towards the start: the position after the wanted newline with nothing left to count, or the
  end with what is left. The count is what is still wanted.\<close>

function nl_spec_back :: "nl_buffer \<Rightarrow> int \<Rightarrow> int \<Rightarrow> int \<Rightarrow> int \<times> int" where
  "nl_spec_back b en s k =
     (if s > en then
        (if is_nl b (s - 1) then (if k = 1 then (s, 0) else nl_spec_back b en (s - 1) (k - 1))
         else nl_spec_back b en (s - 1) k)
      else (en, k))"
  by pat_completeness auto
termination
  by (relation "measure (\<lambda>(b, en, s, k). nat (s - en))") auto

declare nl_spec_back.simps [simp del]

lemma nl_spec_back_end [simp]: "s \<le> en \<Longrightarrow> nl_spec_back b en s k = (en, k)"
  by (subst nl_spec_back.simps) simp

lemma nl_spec_back_skip:
  assumes "t \<le> s" "\<And>p. t \<le> p \<Longrightarrow> p < s \<Longrightarrow> en \<le> p \<Longrightarrow> \<not> is_nl b p" shows "nl_spec_back b en s k = nl_spec_back b en t k"
  using assms
proof (induction t rule: int_le_induct)
  case (step i)
  then have "nl_spec_back b en s k = nl_spec_back b en i k" by simp
  moreover have "nl_spec_back b en i k = nl_spec_back b en (i - 1) k"
    using step.hyps step.prems [of "i - 1"] by (cases "en < i") (simp_all add: nl_spec_back.simps [of b en i])
  ultimately show ?case by simp
qed simp

lemma nl_spec_back_hit:
  "en < s \<Longrightarrow> is_nl b (s - 1) \<Longrightarrow> nl_spec_back b en s k = (if k = 1 then (s, 0) else nl_spec_back b en (s - 1) (k - 1))"
  by (subst nl_spec_back.simps) simp

lemma memrchr_chars:
  assumes ok: "nb_ok b" and s: "1 \<le> e" "e \<le> s" "s \<le> nb_z b"
  shows "case memrchr_nl b (char_to_byte b e) (char_to_byte b s) of
      None \<Rightarrow> \<forall>p. e \<le> p \<longrightarrow> p < s \<longrightarrow> \<not> is_nl b p
    | Some r \<Rightarrow> \<exists>p. e \<le> p \<and> p < s \<and> r = char_to_byte b p \<and> is_nl b p \<and> (\<forall>x. p < x \<longrightarrow> x < s \<longrightarrow> \<not> is_nl b x)"
proof -
  have mono: "char_to_byte b x \<le> char_to_byte b y" if "1 \<le> x" "x \<le> y" "y \<le> nb_z b" for x y
    using ctb_mono_strict [OF ok, of x y] that by (cases "x = y") auto
  have free: "\<not> is_nl b x" if "\<forall>q. r \<le> q \<longrightarrow> q < char_to_byte b s \<longrightarrow> fetch_byte b q \<noteq> NL" "r \<le> char_to_byte b x" "x < s" "1 \<le> x" for r x
    using that fetch_nl [OF ok, of x] ctb_mono_strict [OF ok, of x s] s by auto
  note m = memrchr_nl_spec [where b = b and lo = "char_to_byte b e" and q = "char_to_byte b s"]
  show ?thesis
  proof (cases "memrchr_nl b (char_to_byte b e) (char_to_byte b s)")
    case None
    then show ?thesis using free [of "char_to_byte b e"] m mono [of e] s by auto
  next
    case (Some r)
    note r = m [unfolded Some, simplified]
    have "e < s" using r s(2) by (cases "s = e") auto
    then obtain p where p: "e \<le> p" "p < s" "char_to_byte b p \<le> r" "r < char_to_byte b (p + 1)" using byte_in_char r by blast
    have n: "is_nl b p \<and> r = char_to_byte b p" using nl_byte [OF ok _ _ p(3,4)] p s r by simp
    moreover have "\<not> is_nl b x" if "p < x" "x < s" for x
      using free [of "r + 1" x] r n that ctb_mono_strict [OF ok, of p x] p s by auto
    ultimately show ?thesis using Some p by auto
  qed
qed

lemma eat_newlines_back_spec:
  assumes ok: "nb_ok b" and en: "1 \<le> en" and "s \<le> nb_z b" "0 < k" "en \<le> lim" "eat_newlines_back b s (char_to_byte b s) lim (- k) = (s2, q2, k2)"
  shows "s2 \<le> s \<and> min s lim \<le> s2 \<and> q2 = char_to_byte b s2 \<and>
    (k2 = 0 \<and> nl_spec_back b en s k = (s2, 0) \<or>
     k2 < 0 \<and> nl_spec_back b en s k = nl_spec_back b en s2 (- k2) \<and> (lim < s2 \<longrightarrow> \<not> is_nl b (s2 - 1)))"
  using assms(3-)
proof (induction "nat (s - lim)" arbitrary: s k rule: less_induct)
  case less
  show ?case
  proof (cases "lim < s \<and> is_nl b (s - 1)")
    case True
    then have p: "1 \<le> s - 1" "s - 1 < nb_z b" "en < s" using less.prems en by auto
    then have sb: "char_to_byte b s - 1 = char_to_byte b (s - 1)" using ctb_nl [of "s - 1" b] True by simp
    then have f: "fetch_byte b (char_to_byte b s - 1) = NL" using fetch_nl [OF ok p(1,2)] True by simp
    show ?thesis
    proof (cases "k = 1")
      case k: True
      have "eat_newlines_back b s (char_to_byte b s) lim (- k) = (s, char_to_byte b s, 0)"
        using True k f by (subst eat_newlines_back.simps) simp
      then show ?thesis using less.prems True k p nl_spec_back_hit [of en s b k] by auto
    next
      case False
      have "eat_newlines_back b s (char_to_byte b s) lim (- k) = eat_newlines_back b (s - 1) (char_to_byte b (s - 1)) lim (- (k - 1))"
        using True False f sb by (subst eat_newlines_back.simps) simp
      then have "eat_newlines_back b (s - 1) (char_to_byte b (s - 1)) lim (- (k - 1)) = (s2, q2, k2)" using less.prems(4) by simp
      from less.hyps [OF _ _ _ _ this] show ?thesis
        using less.prems True False p nl_spec_back_hit [of en s b k] by auto
    qed
  next
    case False
    have "fetch_byte b (char_to_byte b s - 1) \<noteq> NL" if lt: "lim < s"
    proof
      assume nl: "fetch_byte b (char_to_byte b s - 1) = NL"
      have p: "1 \<le> s - 1" "s - 1 < nb_z b" using lt less.prems en by auto
      have "char_to_byte b (s - 1) < char_to_byte b s" using ctb_less_Suc [OF ok p] by simp
      then have "is_nl b (s - 1)" using nl_byte [OF ok p, of "char_to_byte b s - 1"] nl by simp
      then show False using False lt by simp
    qed
    then have "eat_newlines_back b s (char_to_byte b s) lim (- k) = (s, char_to_byte b s, - k)"
      by (subst eat_newlines_back.simps) auto
    then show ?thesis using less.prems False by auto
  qed
qed

lemma nl_history_backward:
  assumes h: "nl_history b c" and s: "1 < s" "s \<le> nb_z b" and q: "region_cache_backward (nb_z b) s c = (v, nc, c1)"
  shows "nl_history b c1" and "nc < s" and "1 \<le> nc" and "v \<noteq> 0 \<Longrightarrow> nc \<le> p \<Longrightarrow> p < s \<Longrightarrow> \<not> is_nl b p"
proof -
  have cs: "cache_sound (\<lambda>c. c \<noteq> [NL]) (nb_chars b) c" using region_history_sound [OF h] .
  note f = backward_uniform [OF cs s(2) q]
  show "nl_history b c1" using region_history.asked_backward [OF h s(2)] q by simp
  show "nc < s" "1 \<le> nc" using f(3) s(1) by auto
  show "\<not> is_nl b p" if "v \<noteq> 0" "nc \<le> p" "p < s"
    using f(1) f(3) [OF s(1)] that s by (auto simp: cache_fresh_def is_nl_def)
qed

lemma cache_skip_back_spec:
  assumes ok: "nb_ok b" and en: "1 \<le> en"
  shows "nl_history b c \<Longrightarrow> s \<le> nb_z b \<Longrightarrow> 1 \<le> s \<Longrightarrow> 0 < k \<Longrightarrow>
    (\<exists>s2 c2. cache_skip_back b en s sb nc (- k) c = Some (SkipFound s2 (char_to_byte b s2) c2) \<and> nl_history b c2 \<and> nl_spec_back b en s k = (s2, 0)) \<or>
    (\<exists>s2 q2 nc2 k2 c2. cache_skip_back b en s sb nc (- k) c = Some (Skipped s2 q2 nc2 (- k2) c2) \<and> nl_history b c2 \<and> s2 \<le> s \<and> 0 < k2 \<and>
       nl_spec_back b en s k = nl_spec_back b en s2 k2 \<and> (en < s \<longrightarrow> en < s2 \<longrightarrow> q2 = char_to_byte b s2 \<and> nc2 < s2 \<and> 1 \<le> nc2))"
proof (induction "nat (s - en)" arbitrary: s sb nc k c rule: less_induct)
  case less
  show ?case
  proof (cases "en < s")
    case True
    obtain v nc0 c1 where q: "region_cache_backward (nb_z b) s c = (v, nc0, c1)" by (metis prod_cases3)
    have s1': "1 < s" using True en by simp
    note f = nl_history_backward [OF less.prems(1) s1' less.prems(2) q]
    define s1 where "s1 = (if v \<noteq> 0 then nc0 else s)"
    define nc1 where "nc1 = (if v \<noteq> 0 then en else nc0)"
    define lim where "lim = (if v \<noteq> 0 then en else max nc0 en)"
    obtain s2 q2 k2 where eat: "eat_newlines_back b s1 (char_to_byte b s1) lim (- k) = (s2, q2, k2)" by (metis prod_cases3)
    have step: "cache_skip_back b en s sb nc (- k) c =
       (if k2 = 0 then Some (SkipFound s2 q2 c1)
        else if s2 > nc1 \<and> v = 0 then Some (Skipped s2 q2 nc1 k2 c1) else cache_skip_back b en s2 q2 nc1 k2 c1)"
      using True by (subst cache_skip_back.simps) (simp add: q Let_def eat flip: s1_def nc1_def lim_def, simp add: nc1_def)
    have s1: "s1 \<le> s" "v \<noteq> 0 \<Longrightarrow> s1 < s" "1 \<le> s1" using f(2,3) less.prems(3) by (auto simp: s1_def)
    have skip: "nl_spec_back b en s k = nl_spec_back b en s1 k"
      using f(4) s1(1) by (intro nl_spec_back_skip) (auto simp: s1_def split: if_split_asm)
    have lim: "en \<le> lim" by (simp add: lim_def)
    have s1z: "s1 \<le> nb_z b" using s1(1) less.prems(2) by simp
    note e = eat_newlines_back_spec [OF ok en s1z less.prems(4) lim eat]
    show ?thesis
    proof (cases "k2 = 0 \<or> s2 > nc1 \<and> v = 0")
      case True
      show ?thesis
      proof (cases "k2 = 0")
        case True
        then show ?thesis using step e skip f(1) by auto
      next
        case False
        then have "s2 > nc1" "v = 0" using True by auto
        then have "cache_skip_back b en s sb nc (- k) c = Some (Skipped s2 q2 nc1 (- (- k2)) c1)" using step False by simp
        moreover have "0 < - k2" "nl_spec_back b en s k = nl_spec_back b en s2 (- k2)" using e False skip by auto
        ultimately show ?thesis using e s1(1) f \<open>s2 > nc1\<close> \<open>v = 0\<close>
          by (intro disjI2 exI [of _ s2] exI [of _ q2] exI [of _ nc1] exI [of _ "- k2"] exI [of _ c1]) (auto simp: nc1_def)
      qed
    next
      case False
      then have rec: "cache_skip_back b en s sb nc (- k) c = cache_skip_back b en s2 q2 nc1 (- (- k2)) c1" unfolding step by auto
      have prog: "s2 < s" using False e s1 f(2) by (auto simp: nc1_def split: if_split_asm)
      then have "nat (s2 - en) < nat (s - en)" using True by simp
      note IH = less.hyps [OF this f(1), of "- k2" q2 nc1]
      have k2: "0 < - k2" using e False by auto
      have "1 \<le> min s1 lim" using s1(3) lim en by simp
      then have s2: "s2 \<le> nb_z b" "1 \<le> s2" using prog less.prems(2) e by auto
      note IH = IH [OF s2 k2, folded rec]
      have sp: "nl_spec_back b en s k = nl_spec_back b en s2 (- k2)" using skip e False by auto
      show ?thesis
      proof (cases "en < s2")
        case True
        then show ?thesis using IH sp prog by (auto; force)
      next
        case False
        then have "cache_skip_back b en s2 q2 nc1 (- (- k2)) c1 = Some (Skipped s2 q2 nc1 (- (- k2)) c1)" by (subst cache_skip_back.simps) simp
        then show ?thesis using rec sp prog f(1) k2 False
          by (intro disjI2 exI [of _ s2] exI [of _ q2] exI [of _ nc1] exI [of _ "- k2"] exI [of _ c1]) auto
      qed
    qed
  next
    case False
    then have "cache_skip_back b en s sb nc (- k) c = Some (Skipped s sb nc (- k) c)" by (subst cache_skip_back.simps) simp
    then show ?thesis using less.prems False by auto
  qed
qed

lemma dumb_backward_spec:
  assumes ok: "nb_ok b" and en: "1 \<le> en"
  shows "s \<le> nb_z b \<Longrightarrow> e \<le> s \<Longrightarrow> en \<le> e \<Longrightarrow> 0 < k \<Longrightarrow> pred_option (nl_history b) c \<Longrightarrow>
    \<exists>found k' c'. dumb_backward b (char_to_byte b s) (char_to_byte b e) (- k) c = (found, - k', c') \<and>
      pred_option (nl_history b) c' \<and> (c' = None \<longleftrightarrow> c = None) \<and>
      (case found of
         Some q \<Rightarrow> \<exists>p. 1 \<le> p \<and> p \<le> nb_z b \<and> q = char_to_byte b p \<and> nl_spec_back b en s k = (p, 0)
       | None \<Rightarrow> 0 < k' \<and> nl_spec_back b en s k = nl_spec_back b en e k')"
proof (induction "nat (s - e)" arbitrary: s k c rule: less_induct)
  case less
  let ?m = "memrchr_nl b (char_to_byte b e) (char_to_byte b s)"
  have e1: "1 \<le> e" using less.prems en by simp
  note m = memrchr_chars [OF ok e1 less.prems(2,1)]
  have know: "pred_option (nl_history b) (map_option (know_region_cache (nb_z b) p s) c)"
    if "e \<le> p" "p \<le> s" "\<And>x. p \<le> x \<Longrightarrow> x < s \<Longrightarrow> \<not> is_nl b x" for p
    using region_history.known [of "\<lambda>c. c \<noteq> [NL]" "nb_chars b" _ p s] less.prems e1 that by (cases c) (auto simp: is_nl_def)
  show ?case
  proof (cases "e < s")
    case False
    then have "s = e" using less.prems by simp
    then have "dumb_backward b (char_to_byte b s) (char_to_byte b e) (- k) c = (None, - k, c)" by (subst dumb_backward.simps) simp
    then show ?thesis using \<open>s = e\<close> less.prems by auto
  next
    case True
    then have lt: "char_to_byte b e < char_to_byte b s" using ctb_mono_strict [OF ok e1 _ less.prems(1)] by simp
    have btc: "byte_to_char b (char_to_byte b s) = s" "byte_to_char b (char_to_byte b e) = e"
      using btc_ctb [OF ok] less.prems e1 by auto
    show ?thesis
    proof (cases ?m)
      case None
      have free: "\<not> is_nl b p" if "e \<le> p" "p < s" for p using m None that by simp
      have "dumb_backward b (char_to_byte b s) (char_to_byte b e) (- k) c = (None, - k, map_option (know_region_cache (nb_z b) e s) c)"
        using lt None btc by (subst dumb_backward.simps) simp
      moreover have "nl_spec_back b en s k = nl_spec_back b en e k" using less.prems(2) free by (intro nl_spec_back_skip)
      ultimately show ?thesis using know [of e] free less.prems by auto
    next
      case (Some r)
      then obtain p where p: "e \<le> p" "p < s" "r = char_to_byte b p" "is_nl b p" "\<And>x. p < x \<Longrightarrow> x < s \<Longrightarrow> \<not> is_nl b x"
        using m by auto
      have pz: "1 \<le> p" "p < nb_z b" using p e1 less.prems(1) by simp_all
      have r1: "r + 1 = char_to_byte b (p + 1)" using ctb_nl [OF pz p(4)] p(3) by simp
      have btp: "byte_to_char b (char_to_byte b (p + 1)) = p + 1" using btc_ctb [OF ok, of "p + 1"] pz by simp
      define c1 where "c1 = (if char_to_byte b s \<noteq> r + 1 then map_option (know_region_cache (nb_z b) (p + 1) s) c else c)"
      have c1: "pred_option (nl_history b) c1" "c1 = None \<longleftrightarrow> c = None"
        using know [of "p + 1"] p less.prems(5) by (auto simp: c1_def)
      have sp: "nl_spec_back b en s k = (if k = 1 then (p + 1, 0) else nl_spec_back b en p (k - 1))"
        using nl_spec_back_skip [of "p + 1" s en b k] nl_spec_back_hit [of en "p + 1" b k] p less.prems(3) by simp
      have step: "dumb_backward b (char_to_byte b s) (char_to_byte b e) (- k) c =
          (if k = 1 then (Some (r + 1), 0, c1) else dumb_backward b (char_to_byte b p) (char_to_byte b e) (- (k - 1)) c1)"
        using lt Some btc btp p(3) r1 less.prems(4) by (subst dumb_backward.simps) (simp add: Let_def c1_def)
      show ?thesis
      proof (cases "k = 1")
        case True
        then show ?thesis using step sp c1 r1 pz by (intro exI [of _ "Some (r + 1)"] exI [of _ 0] exI [of _ c1]) auto
      next
        case False
        have "nat (p - e) < nat (s - e)" "p \<le> nb_z b" "0 < k - 1" using p pz less.prems False True by auto
        note IH = less.hyps [OF this(1,2) p(1) less.prems(3) this(3) c1(1)]
        have sp': "nl_spec_back b en s k = nl_spec_back b en p (k - 1)" using sp False by simp
        have step': "dumb_backward b (char_to_byte b s) (char_to_byte b e) (- k) c =
            dumb_backward b (char_to_byte b p) (char_to_byte b e) (- (k - 1)) c1" using step False by simp
        show ?thesis unfolding sp' step' c1(2) [symmetric] by (rule IH)
      qed
    qed
  qed
qed

lemma ctb_max:
  assumes "nb_ok b" "1 \<le> p" "p \<le> nb_z b" "1 \<le> q" "q \<le> nb_z b"
  shows "max (char_to_byte b p) (char_to_byte b q) = char_to_byte b (max p q)"
  using ctb_less_iff [OF assms] ctb_less_iff [of b q p] assms by (auto simp: max_def not_less)

lemma floor_spec:
  assumes ok: "nb_ok b" and s: "1 \<le> nb_begv b" "nb_begv b < s" "s \<le> nb_z b"
  shows "\<exists>e. buffer_floor_of b (char_to_byte b s - 1) = char_to_byte b e \<and> nb_begv b \<le> e \<and> e < s"
proof (cases "nb_begv b \<le> nb_gpt b \<and> char_to_byte b (nb_gpt b) \<le> char_to_byte b s - 1")
  case True
  then have "nb_gpt b < s" using ctb_less_iff [OF ok, of "nb_gpt b" s] s ok by (simp add: nb_ok_def)
  then show ?thesis using True by (intro exI [of _ "nb_gpt b"]) (auto simp: buffer_floor_of_def)
next
  case False
  then show ?thesis using s by (intro exI [of _ "nb_begv b"]) (auto simp: buffer_floor_of_def)
qed

lemma scan_window_back_spec:
  assumes ok: "nb_ok b" and en: "1 \<le> nb_begv b" "nb_begv b \<le> en" and s: "en < s" "s \<le> nb_z b" and k: "0 < k"
    and c: "pred_option (nl_history b) c" and sb: "c = None \<Longrightarrow> sb = -1 \<or> sb = char_to_byte b s"
  shows "(\<exists>p k' c'. scan_window_back b en (char_to_byte b en) s sb (- k) c = Some (WinDone (p, char_to_byte b p, - k', c')) \<and>
      nl_spec_back b en s k = (p, k') \<and> pred_option (nl_history b) c' \<and> (c' = None \<longleftrightarrow> c = None)) \<or>
    (\<exists>s2 e k' c'. scan_window_back b en (char_to_byte b en) s sb (- k) c = Some (WinScan (char_to_byte b s2) (char_to_byte b e) (- k') c') \<and>
      s2 \<le> s \<and> e < s2 \<and> en \<le> e \<and> 0 < k' \<and> nl_spec_back b en s k = nl_spec_back b en s2 k' \<and>
      pred_option (nl_history b) c' \<and> (c' = None \<longleftrightarrow> c = None))"
proof -
  have en1: "1 \<le> en" using en by simp
  have ctbmax: "max (char_to_byte b x) (char_to_byte b y) = char_to_byte b (max x y)" if "1 \<le> x" "x \<le> nb_z b" "1 \<le> y" "y \<le> nb_z b" for x y
    using ctb_max [OF ok that] .
  show ?thesis
  proof (cases c)
    case None
    obtain e where e: "buffer_floor_of b (char_to_byte b s - 1) = char_to_byte b e" "nb_begv b \<le> e" "e < s"
      using floor_spec [OF ok en(1) _ s(2)] s en by auto
    have "scan_window_back b en (char_to_byte b en) s sb (- k) c = Some (WinScan (char_to_byte b s) (char_to_byte b (max e en)) (- k) None)"
      using None sb e s en by (auto simp: scan_window_back_def Let_def ctbmax)
    then show ?thesis using None k e s by (intro disjI2 exI [of _ s] exI [of _ "max e en"] exI [of _ k] exI) auto
  next
    case (Some c0)
    then have h: "nl_history b c0" using c by simp
    have s1: "1 \<le> s" using s en by simp
    from cache_skip_back_spec [OF ok en1 h s(2) s1 k, of sb 0] show ?thesis
    proof (elim disjE exE conjE)
      fix s2 c2 assume a: "cache_skip_back b en s sb 0 (- k) c0 = Some (SkipFound s2 (char_to_byte b s2) c2)" "nl_history b c2" "nl_spec_back b en s k = (s2, 0)"
      then show ?thesis using Some by (intro disjI1 exI [of _ s2] exI [of _ 0] exI [of _ "Some c2"]) (simp add: scan_window_back_def)
    next
      fix s2 q2 nc2 k2 c2
      assume a: "cache_skip_back b en s sb 0 (- k) c0 = Some (Skipped s2 q2 nc2 (- k2) c2)" "nl_history b c2" "s2 \<le> s" "0 < k2"
        "nl_spec_back b en s k = nl_spec_back b en s2 k2" "en < s \<longrightarrow> en < s2 \<longrightarrow> q2 = char_to_byte b s2 \<and> nc2 < s2 \<and> 1 \<le> nc2"
      show ?thesis
      proof (cases "en < s2")
        case False
        then show ?thesis using a Some by (intro disjI1 exI [of _ en] exI [of _ k2] exI [of _ "Some c2"]) (simp add: scan_window_back_def)
      next
        case True
        then have q: "q2 = char_to_byte b s2" "nc2 < s2" "1 \<le> nc2" using a(6) s by auto
        have s2z: "s2 \<le> nb_z b" using a(3) s by simp
        obtain e where e: "buffer_floor_of b (char_to_byte b s2 - 1) = char_to_byte b e" "nb_begv b \<le> e" "e < s2"
          using floor_spec [OF ok en(1) _ s2z] en True by auto
        have "char_to_byte b en < char_to_byte b s2" using ctb_mono_strict [OF ok en1 True s2z] .
        then have nq: "\<not> q2 \<le> char_to_byte b en" using q by simp
        have mm: "max (buffer_floor_of b (q2 - 1)) (max (char_to_byte b nc2) (char_to_byte b en)) = char_to_byte b (max e (max nc2 en))"
          using q e s s2z True en by (simp add: ctbmax)
        have "scan_window_back b en (char_to_byte b en) s sb (- k) c =
            Some (WinScan (char_to_byte b s2) (char_to_byte b (max e (max nc2 en))) (- k2) (Some c2))"
          using Some a(1) True nq mm q(1) by (simp add: scan_window_back_def Let_def)
        then show ?thesis using a q(2) e True Some
          by (intro disjI2 exI [of _ s2] exI [of _ "max e (max nc2 en)"] exI [of _ k2] exI [of _ "Some c2"]) auto
      qed
    qed
  qed
qed

lemma newline_backward_spec:
  assumes ok: "nb_ok b" and en: "1 \<le> nb_begv b" "nb_begv b \<le> en"
  shows "s \<le> nb_z b \<Longrightarrow> en \<le> s \<Longrightarrow> 0 < k \<Longrightarrow> pred_option (nl_history b) c \<Longrightarrow> sb = -1 \<or> sb = char_to_byte b s \<Longrightarrow>
    \<exists>p q k' c'. newline_backward b en (char_to_byte b en) s sb (- k) c = Some (p, q, - k', c') \<and> nl_spec_back b en s k = (p, k') \<and>
      (q = -1 \<or> q = char_to_byte b p) \<and> pred_option (nl_history b) c' \<and> (c' = None \<longleftrightarrow> c = None)"
proof (induction "nat (s - en)" arbitrary: s sb k c rule: less_induct)
  case less
  have en1: "1 \<le> en" using en by simp
  show ?case
  proof (cases "s = en")
    case True
    then have "newline_backward b en (char_to_byte b en) s sb (- k) c = Some (s, sb, - k, c)" by (subst newline_backward.simps) simp
    then show ?thesis using less.prems True by auto
  next
    case False
    then have lt: "en < s" using less.prems by simp
    consider (over) p k' c' where "scan_window_back b en (char_to_byte b en) s sb (- k) c = Some (WinDone (p, char_to_byte b p, - k', c'))"
        "nl_spec_back b en s k = (p, k')" "pred_option (nl_history b) c'" "c' = None \<longleftrightarrow> c = None"
      | (scan) s2 e k' c' where "scan_window_back b en (char_to_byte b en) s sb (- k) c = Some (WinScan (char_to_byte b s2) (char_to_byte b e) (- k') c')"
        "s2 \<le> s" "e < s2" "en \<le> e" "0 < k'" "nl_spec_back b en s k = nl_spec_back b en s2 k'" "pred_option (nl_history b) c'" "c' = None \<longleftrightarrow> c = None"
      using scan_window_back_spec [OF ok en lt less.prems(1,3,4,5)] by blast
    then show ?thesis
    proof cases
      case over
      then have "newline_backward b en (char_to_byte b en) s sb (- k) c = Some (p, char_to_byte b p, - k', c')"
        using lt by (subst newline_backward.simps) simp
      then show ?thesis using over by blast
    next
      case scan
      have s2: "s2 \<le> nb_z b" "e \<le> s2" using less.prems(1) scan by simp_all
      obtain found k2 c2 where d: "dumb_backward b (char_to_byte b s2) (char_to_byte b e) (- k') c' = (found, - k2, c2)"
          "pred_option (nl_history b) c2" "c2 = None \<longleftrightarrow> c' = None"
          "case found of Some q \<Rightarrow> \<exists>p. 1 \<le> p \<and> p \<le> nb_z b \<and> q = char_to_byte b p \<and> nl_spec_back b en s2 k' = (p, 0)
             | None \<Rightarrow> 0 < k2 \<and> nl_spec_back b en s2 k' = nl_spec_back b en e k2"
        using dumb_backward_spec [OF ok en1 s2 scan(4,5,7)] by blast
      have nf: "newline_backward b en (char_to_byte b en) s sb (- k) c =
          (case found of Some q' \<Rightarrow> Some (byte_to_char b q', q', 0, c2)
           | None \<Rightarrow> newline_backward b en (char_to_byte b en) (byte_to_char b (char_to_byte b e)) (char_to_byte b e) (- k2) c2)"
        using lt scan(1) d(1) by (subst newline_backward.simps) (simp split: option.split)
      show ?thesis
      proof (cases found)
        case (Some q)
        then obtain p where p: "1 \<le> p" "p \<le> nb_z b" "q = char_to_byte b p" "nl_spec_back b en s2 k' = (p, 0)" using d(4) by auto
        then show ?thesis using nf Some btc_ctb [OF ok p(1,2)] d scan
          by (intro exI [of _ p] exI [of _ q] exI [of _ 0] exI [of _ c2]) simp
      next
        case None
        have e: "1 \<le> e" "e \<le> nb_z b" using s2 scan en1 by simp_all
        have "nat (e - en) < nat (s - en)" using scan lt by simp
        note IH = less.hyps [OF this e(2) scan(4) _ d(2), of k2 "char_to_byte b e"]
        have sp: "0 < k2" "nl_spec_back b en s k = nl_spec_back b en e k2" using d(4) None scan by simp_all
        have nf': "newline_backward b en (char_to_byte b en) s sb (- k) c = newline_backward b en (char_to_byte b en) e (char_to_byte b e) (- k2) c2"
          using nf None btc_ctb [OF ok e] by simp
        show ?thesis using IH [OF sp(1)] d(3) scan(8) unfolding nf' sp(2) by simp
      qed
    qed
  qed
qed

section \<open>Both directions\<close>

text \<open>The position and the number of newlines found, negative when searching backwards.\<close>

definition newline_ref :: "nl_buffer \<Rightarrow> int \<Rightarrow> int \<Rightarrow> int \<Rightarrow> int \<times> int" where
  "newline_ref b en s count =
     (if count > 0 then (case nl_spec b en s count of (p, k) \<Rightarrow> (p, count - k))
      else (case nl_spec_back b en s (- count) of (p, k) \<Rightarrow> (p, count + k)))"

text \<open>Where a search may start and end: forwards in front of the end of the accessible portion, backwards behind its start.\<close>

definition search_range :: "nl_buffer \<Rightarrow> int \<Rightarrow> int \<Rightarrow> int \<Rightarrow> bool" where
  "search_range b start en count \<longleftrightarrow>
     (if count > 0 then 1 \<le> start \<and> start \<le> en \<and> en \<le> nb_zv b
      else count < 0 \<and> 1 \<le> nb_begv b \<and> nb_begv b \<le> en \<and> en \<le> start \<and> start \<le> nb_z b)"

lemma find_newline_ref:
  assumes ok: "nb_ok b" and r: "search_range b start en count"
    and sb: "start_byte = -1 \<or> start_byte = char_to_byte b start" and eb: "end_byte = -1 \<or> end_byte = char_to_byte b en"
    and c: "pred_option (nl_history b) c"
  shows "\<exists>c'. find_newline b start start_byte en end_byte count c =
      Some (fst (newline_ref b en start count), char_to_byte b (fst (newline_ref b en start count)), snd (newline_ref b en start count), c') \<and>
    pred_option (nl_history b) c' \<and> (c' = None \<longleftrightarrow> c = None)"
proof (cases "count > 0")
  case True
  then have "1 \<le> start" "start \<le> en" "en \<le> nb_zv b" using r by (simp_all add: search_range_def)
  from find_newline_exact [OF ok this True sb eb c] show ?thesis
    using True by (cases "nl_spec b en start count") (simp add: find_newline_def newline_ref_def)
next
  case False
  then have k: "0 < - count" and en: "1 \<le> nb_begv b" "nb_begv b \<le> en" "en \<le> start" "start \<le> nb_z b" using r by (simp_all add: search_range_def)
  obtain p q k' c' where n: "newline_backward b en (char_to_byte b en) start start_byte count c = Some (p, q, - k', c')"
      "nl_spec_back b en start (- count) = (p, k')" "q = -1 \<or> q = char_to_byte b p" "pred_option (nl_history b) c'" "c' = None \<longleftrightarrow> c = None"
    using newline_backward_spec [OF ok en(1,2,4,3) k c sb] by auto
  have "(if end_byte = -1 then char_to_byte b en else end_byte) = char_to_byte b en" "en \<noteq> 0" using eb en by auto
  then have "find_newline b start start_byte en end_byte count c = Some (p, char_to_byte b p, count + k', c')"
    using n(1,3) False by (auto simp: find_newline_def Let_def)
  then show ?thesis using n False by (simp add: newline_ref_def)
qed

text \<open>
  Property (C8). The search for newlines finds what a scan of every character finds, in both directions, whatever the cache
  knows, wherever the gap is and however the characters are encoded: it returns, with the position, the byte position and the
  number of newlines of the reference, and the cache it leaves behind is one the reference vouches for. A
  new cache, a cache full of knowledge and no cache at all give the same answer.
\<close>

theorem find_newline_two_way:
  assumes "nb_ok b" "search_range b start en count" "start_byte = -1 \<or> start_byte = char_to_byte b start"
    "end_byte = -1 \<or> end_byte = char_to_byte b en" "pred_option (nl_history b) c"
  shows "\<exists>c'. find_newline b start start_byte en end_byte count c =
      Some (fst (newline_ref b en start count), char_to_byte b (fst (newline_ref b en start count)), snd (newline_ref b en start count), c') \<and>
    pred_option (nl_history b) c' \<and> (c' = None \<longleftrightarrow> c = None)"
  using find_newline_ref [OF assms] .

theorem find_newline_two_way_witness:
  "\<exists>c'. find_newline sample_nl_buffer 7 (-1) 1 (-1) (-2) (Some new_region_cache) = Some (3, 3, -2, c') \<and> c' \<noteq> None"
proof -
  have ok: "nb_ok sample_nl_buffer" by (simp add: nb_ok_def sample_nl_buffer_def)
  have r: "search_range sample_nl_buffer 7 1 (-2)" by (simp add: search_range_def sample_nl_buffer_def)
  have sp: "newline_ref sample_nl_buffer 1 7 (-2) = (3, -2)" "char_to_byte sample_nl_buffer 3 = 3" by code_simp+
  have h: "pred_option (nl_history sample_nl_buffer) (Some new_region_cache)" by (simp add: region_history.created)
  show ?thesis using find_newline_two_way [OF ok r, of "-1" "-1" "Some new_region_cache"] h sp by auto
qed

end
