(* ===== verification/Buffer_Session.thy ===== *)
theory Buffer_Session
  imports Buffer_Position Newline_Backward
begin

text \<open>
  The parts of a buffer working together: insertions and deletions that advance the modification count and invalidate the newline
  cache, conversions of positions that rely on the count and leave markers, and the search for newlines that relies on the cache
  and adds to it. A session is any sequence of these, with point and the accessible portion moved at will; an edit in it may
  also be refused or stopped by a signal.
\<close>

section \<open>Operations on a buffer with its modification count\<close>









section \<open>Sessions\<close>



section \<open>Characters through an edit\<close>























section \<open>Every session\<close>











end
