(* ===== verification/GHash.thy ===== *)
theory GHash
  imports Cmacs_Prelude "HOL-Library.AList"
begin

text \<open>
  GLib's hash table, as every component that keeps a keyed table uses it. The table is an
  association list with distinct keys; its order is the order in which
  \<^verbatim>\<open>g_hash_table_iter_next\<close> happens to visit the entries, which GLib leaves open, so nothing
  proved from the interface below depends on it.
\<close>

type_synonym ('k, 'v) ghash = "('k \<times> 'v) list"

definition gh_empty :: "('k, 'v) ghash" where
  "gh_empty = []"

definition gh_lookup :: "('k, 'v) ghash \<Rightarrow> 'k \<Rightarrow> 'v option" where
  "gh_lookup t = map_of t"

definition gh_replace :: "'k \<Rightarrow> 'v \<Rightarrow> ('k, 'v) ghash \<Rightarrow> ('k, 'v) ghash" where
  "gh_replace k v t = AList.update k v t"

definition gh_remove :: "'k \<Rightarrow> ('k, 'v) ghash \<Rightarrow> ('k, 'v) ghash" where
  "gh_remove k t = AList.delete k t"

definition gh_contains :: "('k, 'v) ghash \<Rightarrow> 'k \<Rightarrow> bool" where
  "gh_contains t k \<longleftrightarrow> gh_lookup t k \<noteq> None"

definition gh_size :: "('k, 'v) ghash \<Rightarrow> nat" where
  "gh_size t = length t"

definition gh_entries :: "('k, 'v) ghash \<Rightarrow> ('k \<times> 'v) list" where
  "gh_entries t = t"

definition gh_invar :: "('k, 'v) ghash \<Rightarrow> bool" where
  "gh_invar t \<longleftrightarrow> distinct (map fst t)"

text \<open>
  What a client may rely on: the map a table denotes, the entries an iteration sees, and that
  each operation keeps the keys distinct.
\<close>

locale hash_table =
  fixes empty :: 't
    and lookup :: "'t \<Rightarrow> 'k \<Rightarrow> 'v option"
    and replace :: "'k \<Rightarrow> 'v \<Rightarrow> 't \<Rightarrow> 't"
    and remove :: "'k \<Rightarrow> 't \<Rightarrow> 't"
    and entries :: "'t \<Rightarrow> ('k \<times> 'v) list"
    and invar :: "'t \<Rightarrow> bool"
  assumes lookup_empty: "lookup empty k = None"
    and lookup_replace: "lookup (replace k v t) k' = (if k' = k then Some v else lookup t k')"
    and lookup_remove: "invar t \<Longrightarrow> lookup (remove k t) k' = (if k' = k then None else lookup t k')"
    and entries_lookup: "invar t \<Longrightarrow> (k, v) \<in> set (entries t) \<longleftrightarrow> lookup t k = Some v"
    and entries_distinct: "invar t \<Longrightarrow> distinct (map fst (entries t))"
    and invar_empty: "invar empty"
    and invar_replace: "invar t \<Longrightarrow> invar (replace k v t)"
    and invar_remove: "invar t \<Longrightarrow> invar (remove k t)"
begin

lemmas table_specs =
  lookup_empty lookup_replace lookup_remove invar_empty invar_replace invar_remove

lemma lookup_none_iff: "invar t \<Longrightarrow> lookup t k = None \<longleftrightarrow> k \<notin> fst ` set (entries t)"
proof -
  assume inv: "invar t"
  have "k \<in> fst ` set (entries t) \<longleftrightarrow> (\<exists>v. (k, v) \<in> set (entries t))"
    by (force simp: image_iff)
  also have "\<dots> \<longleftrightarrow> lookup t k \<noteq> None"
    using entries_lookup [OF inv] by auto
  finally show ?thesis by blast
qed

lemma card_entries: "invar t \<Longrightarrow> card {k. lookup t k \<noteq> None} = length (entries t)"
proof -
  assume inv: "invar t"
  have "{k. lookup t k \<noteq> None} = set (map fst (entries t))"
    using lookup_none_iff [OF inv] by auto
  then show ?thesis
    using distinct_card [OF entries_distinct [OF inv]] by simp
qed

lemma replace_preserves:
  assumes "\<And>k v. lookup t k = Some v \<Longrightarrow> P k v" and "P k0 v0"
    and "lookup (replace k0 v0 t) k = Some v"
  shows "P k v"
  using assms by (auto simp: lookup_replace split: if_splits)

lemma remove_preserves:
  assumes "invar t" and "\<And>k v. lookup t k = Some v \<Longrightarrow> P k v"
    and "lookup (remove k0 t) k = Some v"
  shows "P k v"
  using assms by (auto simp: lookup_remove split: if_splits)

end

lemma gh_invar_replace_aux: "distinct (map fst t) \<Longrightarrow> distinct (map fst (AList.update k v t))"
  by (rule distinct_update)

lemma gh_lookup_remove_aux:
  "distinct (map fst t) \<Longrightarrow> map_of (AList.delete k t) k' = (if k' = k then None else map_of t k')"
  by (simp add: delete_conv')

interpretation gh: hash_table gh_empty gh_lookup gh_replace gh_remove gh_entries gh_invar
  by unfold_locales
     (auto simp: gh_empty_def gh_lookup_def gh_replace_def gh_remove_def gh_entries_def
        gh_invar_def update_conv' delete_conv' distinct_update distinct_delete)

declare gh.lookup_empty [simp] gh.lookup_replace [simp] gh.lookup_remove [simp]
  gh.invar_empty [simp] gh.invar_replace [simp] gh.invar_remove [simp]

lemma gh_contains_replace [simp]:
  "gh_contains (gh_replace k v t) k' \<longleftrightarrow> k' = k \<or> gh_contains t k'"
  by (simp add: gh_contains_def)

lemma gh_contains_remove [simp]:
  "gh_invar t \<Longrightarrow> gh_contains (gh_remove k t) k' \<longleftrightarrow> k' \<noteq> k \<and> gh_contains t k'"
  by (simp add: gh_contains_def)

lemma gh_contains_empty [simp]: "\<not> gh_contains gh_empty k"
  by (simp add: gh_contains_def)

lemma gh_size_0_iff: "gh_size t = 0 \<longleftrightarrow> t = gh_empty"
  by (simp add: gh_size_def gh_empty_def)

end
