(* ===== verification/Lisp_Obj.thy ===== *)
theory Lisp_Obj
  imports Cmacs_Prelude
begin

text \<open>
  The part of the Lisp object world the C primitives (\<^verbatim>\<open>DEFUN\<close>s) of the brigade touch:
  symbols, strings, fixnums, conses, floats (by their bits), vectors and buffers (by an identity); the argument checks that signal
  \<^verbatim>\<open>wrong-type-argument\<close>; \<^verbatim>\<open>plist-get\<close>. Symbols are interned, so \<^verbatim>\<open>EQ\<close> on them is equality of
  names, and \<^verbatim>\<open>nil\<close> is the symbol of that name.
\<close>

datatype lisp =
    LSym string
  | LStr string
  | LFix int
  | LCons lisp lisp
  | LFlo "64 word"
  | LVec "lisp list"
  | LBuf nat

datatype lisp_error =
    WrongTypeArgument string lisp
  | ArgsOutOfRange lisp lisp
  | UserError string

type_synonym 'a lisp_result = "lisp_error + 'a"

abbreviation Qnil :: lisp where
  "Qnil \<equiv> LSym ''nil''"

abbreviation Qt :: lisp where
  "Qt \<equiv> LSym ''t''"

definition lbool :: "bool \<Rightarrow> lisp" where
  "lbool b = (if b then Qt else Qnil)"

fun CHECK_STRING :: "lisp \<Rightarrow> string lisp_result" where
  "CHECK_STRING (LStr s) = Inr s"
| "CHECK_STRING x = Inl (WrongTypeArgument ''stringp'' x)"

fun CHECK_SYMBOL :: "lisp \<Rightarrow> string lisp_result" where
  "CHECK_SYMBOL (LSym s) = Inr s"
| "CHECK_SYMBOL x = Inl (WrongTypeArgument ''symbolp'' x)"

fun CHECK_FIXNAT :: "lisp \<Rightarrow> int lisp_result" where
  "CHECK_FIXNAT (LFix i) = (if 0 \<le> i then Inr i else Inl (WrongTypeArgument ''wholenump'' (LFix i)))"
| "CHECK_FIXNAT x = Inl (WrongTypeArgument ''wholenump'' x)"

fun CHECK_FIXNUM :: "lisp \<Rightarrow> int lisp_result" where
  "CHECK_FIXNUM (LFix i) = Inr i"
| "CHECK_FIXNUM x = Inl (WrongTypeArgument ''fixnump'' x)"

fun CHECK_CONS :: "lisp \<Rightarrow> (lisp \<times> lisp) lisp_result" where
  "CHECK_CONS (LCons a d) = Inr (a, d)"
| "CHECK_CONS x = Inl (WrongTypeArgument ''consp'' x)"

fun CHECK_NUMBER :: "lisp \<Rightarrow> lisp lisp_result" where
  "CHECK_NUMBER (LFix i) = Inr (LFix i)"
| "CHECK_NUMBER (LFlo d) = Inr (LFlo d)"
| "CHECK_NUMBER x = Inl (WrongTypeArgument ''numberp'' x)"

text \<open>\<^verbatim>\<open>SSDATA\<close> hands the bytes of a Lisp string to C, which reads them up to the first NUL.\<close>

definition SSDATA :: "string \<Rightarrow> string" where
  "SSDATA s = c_str s"

lemma SSDATA_no_NUL [simp]: "NUL \<notin> set (SSDATA s)"
  by (simp add: SSDATA_def)

lemma SSDATA_id [simp]: "NUL \<notin> set s \<Longrightarrow> SSDATA s = s"
  by (simp add: SSDATA_def)

fun plist_get :: "lisp \<Rightarrow> lisp \<Rightarrow> lisp" where
  "plist_get (LCons k (LCons v rest)) prop = (if k = prop then v else plist_get rest prop)"
| "plist_get _ prop = Qnil"

fun llist :: "lisp list \<Rightarrow> lisp" where
  "llist [] = Qnil"
| "llist (x # xs) = LCons x (llist xs)"

definition plist :: "(string \<times> lisp) list \<Rightarrow> lisp" where
  "plist kvs = llist (concat (map (\<lambda>(k, v). [LSym k, v]) kvs))"

text \<open>The elements \<^verbatim>\<open>FOR_EACH_TAIL\<close> visits, and what is left where it stops.\<close>

fun list_elems :: "lisp \<Rightarrow> lisp list" where
  "list_elems (LCons x t) = x # list_elems t"
| "list_elems _ = []"

fun list_tail :: "lisp \<Rightarrow> lisp" where
  "list_tail (LCons x t) = list_tail t"
| "list_tail x = x"

text \<open>\<^verbatim>\<open>list_length\<close> signals when the list is dotted.\<close>

definition list_length :: "lisp \<Rightarrow> nat lisp_result" where
  "list_length x = (if list_tail x = Qnil then Inr (length (list_elems x))
     else Inl (WrongTypeArgument ''listp'' x))"

lemma llist_elems [simp]: "list_elems (llist xs) = xs" "list_tail (llist xs) = Qnil"
  by (induction xs) auto

text \<open>Sequencing of results, as the \<^verbatim>\<open>CHECK_\<close> macros leave the primitive at once.\<close>

definition rbind :: "'e + 'a \<Rightarrow> ('a \<Rightarrow> 'e + 'b) \<Rightarrow> 'e + 'b" where
  "rbind r f = (case r of Inl e \<Rightarrow> Inl e | Inr x \<Rightarrow> f x)"

lemma rbind_simps [simp]: "rbind (Inl e) f = Inl e" "rbind (Inr x) f = f x"
  by (simp_all add: rbind_def)

lemma rbind_Inr_iff: "rbind r f = Inr y \<longleftrightarrow> (\<exists>x. r = Inr x \<and> f x = Inr y)"
  by (cases r) auto

lemma CHECK_STRING_Inr_iff [simp]: "CHECK_STRING x = Inr s \<longleftrightarrow> x = LStr s"
  by (cases x) auto

lemma CHECK_SYMBOL_Inr_iff [simp]: "CHECK_SYMBOL x = Inr s \<longleftrightarrow> x = LSym s"
  by (cases x) auto

lemma CHECK_FIXNAT_Inr_iff [simp]: "CHECK_FIXNAT x = Inr i \<longleftrightarrow> x = LFix i \<and> 0 \<le> i"
  by (cases x) auto

lemma CHECK_FIXNUM_Inr_iff [simp]: "CHECK_FIXNUM x = Inr i \<longleftrightarrow> x = LFix i"
  by (cases x) auto

lemma CHECK_CONS_Inr_iff [simp]: "CHECK_CONS x = Inr p \<longleftrightarrow> x = LCons (fst p) (snd p)"
  by (cases x; cases p) auto

end
