(* ===== verification/Brigade_Registry.thy ===== *)
theory Brigade_Registry
  imports GHash Lisp_Obj
begin

text \<open>
  \<^verbatim>\<open>src/cmacs/ai-brigade/cmacs-brigade-registry.c\<close>: the C mirror of the tool registry. The
  static hash table and its mutex become a state argument; each function below is one
  critical section. Tools are keyed by their wire name, and \<open>registry_wf\<close> says that the key of
  an entry is the name stored in it.
\<close>

datatype confirm = CONFIRM_NONE | CONFIRM_ASK | CONFIRM_ALWAYS

record brigade_tool =
  tool_name :: string
  tool_description :: string
  tool_params_json :: string
  tool_group :: "string option"
  tool_destructive :: bool
  tool_confirm :: confirm
  tool_async :: bool
  tool_timeout_ms :: int

type_synonym registry = "(string, brigade_tool) ghash"

definition registry_init :: registry where
  "registry_init = gh_empty"

text \<open>The walk of \<^verbatim>\<open>cmacs_brigade_registry_foreach\<close>: the callback threads its user data.\<close>

definition registry_foreach :: "(brigade_tool \<Rightarrow> 'u \<Rightarrow> 'u) \<Rightarrow> registry \<Rightarrow> 'u \<Rightarrow> 'u" where
  "registry_foreach fn reg u = fold (\<lambda>(k, v). fn v) (gh_entries reg) u"

definition registry_lookup :: "registry \<Rightarrow> string option \<Rightarrow> brigade_tool option" where
  "registry_lookup reg name = (case name of None \<Rightarrow> None | Some n \<Rightarrow> gh_lookup reg n)"

definition registry_size :: "registry \<Rightarrow> nat" where
  "registry_size reg = gh_size reg"

definition confirm_from_symbol :: "lisp \<Rightarrow> confirm" where
  "confirm_from_symbol x =
     (if x = LSym ''always'' then CONFIRM_ALWAYS
      else if x = LSym ''ask'' then CONFIRM_ASK
      else CONFIRM_NONE)"

definition group_of_lisp :: "lisp \<Rightarrow> string option" where
  "group_of_lisp g =
     (case g of LSym s \<Rightarrow> if s \<noteq> ''nil'' then Some (SSDATA s) else None
      | LStr s \<Rightarrow> Some (SSDATA s)
      | _ \<Rightarrow> None)"

definition timeout_of_lisp :: "lisp \<Rightarrow> int" where
  "timeout_of_lisp t = (case t of LFix n \<Rightarrow> to_gint (n * 1000) | _ \<Rightarrow> 0)"

definition mirror_tool :: "string \<Rightarrow> string \<Rightarrow> string \<Rightarrow> lisp \<Rightarrow> brigade_tool" where
  "mirror_tool n d p props =
     \<lparr>tool_name = SSDATA n,
      tool_description = SSDATA d,
      tool_params_json = SSDATA p,
      tool_group = group_of_lisp (plist_get props (LSym '':group'')),
      tool_destructive = (plist_get props (LSym '':destructive'') \<noteq> Qnil),
      tool_confirm = confirm_from_symbol (plist_get props (LSym '':confirm'')),
      tool_async = (plist_get props (LSym '':async'') \<noteq> Qnil),
      tool_timeout_ms = timeout_of_lisp (plist_get props (LSym '':timeout''))\<rparr>"

definition mirror_put ::
  "registry \<Rightarrow> lisp \<Rightarrow> lisp \<Rightarrow> lisp \<Rightarrow> lisp \<Rightarrow> (lisp \<times> registry) lisp_result" where
  "mirror_put reg name description params_json props =
     rbind (CHECK_STRING name) (\<lambda>n.
     rbind (CHECK_STRING description) (\<lambda>d.
     rbind (CHECK_STRING params_json) (\<lambda>p.
       let tool = mirror_tool n d p props
       in Inr (Qt, gh_replace (tool_name tool) tool reg))))"

definition mirror_remove :: "registry \<Rightarrow> lisp \<Rightarrow> (lisp \<times> registry) lisp_result" where
  "mirror_remove reg name =
     rbind (CHECK_STRING name) (\<lambda>n.
       Inr (lbool (gh_contains reg (SSDATA n)), gh_remove (SSDATA n) reg))"

definition mirror_names :: "registry \<Rightarrow> lisp" where
  "mirror_names reg = fold (\<lambda>(k, v) out. LCons (LStr k) out) (gh_entries reg) Qnil"

section \<open>Invariant\<close>

definition registry_wf :: "registry \<Rightarrow> bool" where
  "registry_wf reg \<longleftrightarrow>
     gh_invar reg \<and> (\<forall>n t. gh_lookup reg n = Some t \<longrightarrow> tool_name t = n)"

lemma registry_wf_invar: "registry_wf reg \<Longrightarrow> gh_invar reg"
  by (simp add: registry_wf_def)

lemma registry_wf_name: "registry_wf reg \<Longrightarrow> gh_lookup reg n = Some t \<Longrightarrow> tool_name t = n"
  unfolding registry_wf_def by blast

lemma registry_wf_init [inv_intros]: "registry_wf registry_init"
  by (simp add: registry_wf_def registry_init_def)

lemma registry_wf_put [inv_intros]:
  "registry_wf reg \<Longrightarrow> mirror_put reg a b c d = Inr (r, reg') \<Longrightarrow> registry_wf reg'"
  by (auto simp: registry_wf_def mirror_put_def Let_def rbind_Inr_iff split: if_splits)

lemma registry_wf_remove [inv_intros]:
  "registry_wf reg \<Longrightarrow> mirror_remove reg a = Inr (r, reg') \<Longrightarrow> registry_wf reg'"
  by (auto simp: registry_wf_def mirror_remove_def rbind_Inr_iff split: if_splits)

lemma registry_foreach_empty [simp]: "registry_foreach fn registry_init u = u"
  by (simp add: registry_foreach_def registry_init_def gh_entries_def gh_empty_def)

lemma registry_lookup_init [simp]: "registry_lookup registry_init n = None"
  by (simp add: registry_lookup_def registry_init_def split: option.splits)

lemma registry_entries_iff:
  assumes "registry_wf reg"
  shows "t \<in> snd ` set (gh_entries reg) \<longleftrightarrow> registry_lookup reg (Some (tool_name t)) = Some t"
proof
  assume "t \<in> snd ` set (gh_entries reg)"
  then obtain n where "(n, t) \<in> set (gh_entries reg)" by auto
  then have "gh_lookup reg n = Some t"
    by (simp add: gh.entries_lookup [OF registry_wf_invar [OF assms]])
  moreover from this have "tool_name t = n" by (rule registry_wf_name [OF assms])
  ultimately show "registry_lookup reg (Some (tool_name t)) = Some t"
    by (simp add: registry_lookup_def)
next
  assume "registry_lookup reg (Some (tool_name t)) = Some t"
  then have "(tool_name t, t) \<in> set (gh_entries reg)"
    by (simp add: registry_lookup_def gh.entries_lookup [OF registry_wf_invar [OF assms]])
  then show "t \<in> snd ` set (gh_entries reg)" by (rule rev_image_eqI) simp
qed

text \<open>
  Registering a tool makes it the one found under its wire name and leaves every other name
  alone, whatever else the registry holds; dropping it makes the name unknown.
\<close>

lemma mirror_put_lookup:
  assumes "mirror_put reg (LStr n) (LStr d) (LStr p) props = Inr (r, reg')"
  shows "registry_lookup reg' (Some m) =
    (if m = SSDATA n then Some (mirror_tool n d p props) else registry_lookup reg (Some m))"
  using assms by (auto simp: mirror_put_def registry_lookup_def Let_def mirror_tool_def)

lemma mirror_remove_lookup:
  assumes "registry_wf reg" and "mirror_remove reg (LStr n) = Inr (r, reg')"
  shows "registry_lookup reg' (Some m) =
    (if m = SSDATA n then None else registry_lookup reg (Some m))"
  using assms by (auto simp: mirror_remove_def registry_lookup_def registry_wf_def)

end
