(* ===== verification/Brigade_Allowlist.thy ===== *)
theory Brigade_Allowlist
  imports Brigade_Registry
begin

text \<open>
  \<^verbatim>\<open>src/cmacs/ai-brigade/cmacs-brigade-allowlist.c\<close>: the gate that decides whether an agent may
  call a tool, the policy it applies, and the expansion of group names for the relay process.
  The gate's C loop is kept as a loop (\<open>allow_scan\<close>) and characterised by
  \<open>tool_allowed_iff\<close>; \<open>allow_entries\<close> is the list of names an allowlist string denotes.
\<close>

definition brigade_privileged :: "string list" where
  "brigade_privileged =
     [''eval'', ''bash'', ''shell'', ''execute_command'', ''send_keys'',
      ''cmacs_c_patch_defun'', ''cmacs_c_unpatch_defun'', ''cmacs_c_unpatch_all'',
      ''cmacs_c_compile_snippet'', ''cmacs_c_call_handle'', ''crispy_eval'', ''bacon_eval'',
      ''podomation_eval_dsl'', ''podomation_repl_eval'',
      ''gowl_start_recording'', ''gowl_drain_recording'', ''gowl_stop_recording'',
      ''gowl_macro_record'', ''gowl_macro_run'', ''gowl_macro_voice_match'',
      ''gowl_clipboard_list'', ''gowl_clipboard_entry'', ''gowl_clipboard_copy'',
      ''gsurf_eval_js'']"

definition brigade_blocked_prefixes :: "string list" where
  "brigade_blocked_prefixes = [''ai_'', ''brigade_'']"

definition tool_privileged :: "string option \<Rightarrow> bool" where
  "tool_privileged tool = (case tool of None \<Rightarrow> True | Some n \<Rightarrow> n \<in> set brigade_privileged)"

definition blocked_outright :: "string \<Rightarrow> bool" where
  "blocked_outright tool \<longleftrightarrow> (\<exists>p \<in> set brigade_blocked_prefixes. g_str_has_prefix tool p)"

record brigade_policy =
  restrict_privileged :: bool
  block_recursive :: bool

text \<open>The two Lisp variables of the editor, and the environment of the relay.\<close>

record brigade_vars =
  Vrestrict_privileged_tools :: lisp
  Vblock_recursive_tools :: lisp

definition brigade_vars_default :: brigade_vars where
  "brigade_vars_default = \<lparr>Vrestrict_privileged_tools = Qnil, Vblock_recursive_tools = Qt\<rparr>"

definition policy_from_lisp :: "brigade_vars \<Rightarrow> brigade_policy" where
  "policy_from_lisp vs =
     \<lparr>restrict_privileged = (Vrestrict_privileged_tools vs \<noteq> Qnil),
      block_recursive = (Vblock_recursive_tools vs \<noteq> Qnil)\<rparr>"

type_synonym environ = "string \<Rightarrow> string option"

definition env_flag :: "environ \<Rightarrow> string \<Rightarrow> bool \<Rightarrow> bool" where
  "env_flag env name def =
     (case env name of None \<Rightarrow> def
      | Some v \<Rightarrow>
          if v = [] then def
          else v = ''1'' \<or> g_ascii_strcaseeq v ''true'' \<or> g_ascii_strcaseeq v ''t''
               \<or> g_ascii_strcaseeq v ''yes'')"

abbreviation ENV_RESTRICT_PRIVILEGED :: string where
  "ENV_RESTRICT_PRIVILEGED \<equiv> ''CMACS_BRIGADE_RESTRICT_PRIVILEGED''"

abbreviation ENV_BLOCK_RECURSIVE :: string where
  "ENV_BLOCK_RECURSIVE \<equiv> ''CMACS_BRIGADE_BLOCK_RECURSIVE''"

definition policy_from_env :: "environ \<Rightarrow> brigade_policy" where
  "policy_from_env env =
     \<lparr>restrict_privileged = env_flag env ENV_RESTRICT_PRIVILEGED False,
      block_recursive = env_flag env ENV_BLOCK_RECURSIVE True\<rparr>"

section \<open>The gate\<close>

text \<open>
  The scan over the comma-separated entries: an exact match returns at once, a wildcard is
  remembered, a group match returns at once unless the tool counts as privileged.
\<close>

fun allow_scan :: "string \<Rightarrow> string option \<Rightarrow> bool \<Rightarrow> bool \<Rightarrow> string list \<Rightarrow> bool" where
  "allow_scan tool grp privileged saw_wildcard [] = (saw_wildcard \<and> \<not> privileged)"
| "allow_scan tool grp privileged saw_wildcard (x # xs) =
     (let e = g_strstrip x in
      if e = [] then allow_scan tool grp privileged saw_wildcard xs
      else if e = tool then True
      else if e = ''*'' then allow_scan tool grp privileged True xs
      else if grp \<noteq> None \<and> \<not> privileged \<and> Some e = grp then True
      else allow_scan tool grp privileged saw_wildcard xs)"

definition tool_allowed_with_policy ::
  "registry \<Rightarrow> string option \<Rightarrow> string option \<Rightarrow> brigade_policy option \<Rightarrow> bool" where
  "tool_allowed_with_policy reg allowlist tool policy =
     (case tool of None \<Rightarrow> False | Some n \<Rightarrow>
        if n = [] then False else
      (case allowlist of None \<Rightarrow> False | Some a \<Rightarrow>
        if a = [] then False else
      (case policy of None \<Rightarrow> False | Some pol \<Rightarrow>
        if block_recursive pol \<and> blocked_outright n then False else
        let privileged = restrict_privileged pol \<and> tool_privileged (Some n);
            grp = (case registry_lookup reg (Some n) of None \<Rightarrow> None | Some t \<Rightarrow> tool_group t)
        in allow_scan n grp privileged False (g_strsplit CHR '','' a))))"

definition tool_allowed :: "brigade_vars \<Rightarrow> registry \<Rightarrow> string option \<Rightarrow> string option \<Rightarrow> bool" where
  "tool_allowed vs reg allowlist tool =
     tool_allowed_with_policy reg allowlist tool (Some (policy_from_lisp vs))"

section \<open>Expansion\<close>

definition append_entry :: "string \<Rightarrow> string \<Rightarrow> string" where
  "append_entry out e = (if out \<noteq> [] then out @ '','' else out) @ e"

definition expand_group ::
  "brigade_vars \<Rightarrow> string \<Rightarrow> brigade_tool \<Rightarrow> string \<times> bool \<Rightarrow> string \<times> bool" where
  "expand_group vs grp tool st =
     (case st of (out, any) \<Rightarrow>
        if tool_group tool \<noteq> Some grp then (out, any)
        else if Vrestrict_privileged_tools vs \<noteq> Qnil \<and> tool_privileged (Some (tool_name tool))
        then (out, any)
        else (append_entry out (tool_name tool), True))"

fun expand_loop :: "brigade_vars \<Rightarrow> registry \<Rightarrow> string list \<Rightarrow> string \<Rightarrow> string" where
  "expand_loop vs reg [] out = out"
| "expand_loop vs reg (x # xs) out =
     (let e = g_strstrip x in
      if e = [] then expand_loop vs reg xs out
      else (case registry_foreach (expand_group vs e) reg (out, False) of
              (out', matched) \<Rightarrow>
                if matched then expand_loop vs reg xs out'
                else expand_loop vs reg xs (append_entry out' e)))"

definition allowlist_expand :: "brigade_vars \<Rightarrow> registry \<Rightarrow> string option \<Rightarrow> string" where
  "allowlist_expand vs reg allowlist =
     (case allowlist of None \<Rightarrow> []
      | Some a \<Rightarrow> if a = [] then [] else expand_loop vs reg (g_strsplit CHR '','' a) [])"

section \<open>The Lisp primitives\<close>

definition Ftool_allowed_p :: "brigade_vars \<Rightarrow> registry \<Rightarrow> lisp \<Rightarrow> lisp \<Rightarrow> lisp lisp_result" where
  "Ftool_allowed_p vs reg allowlist tool =
     rbind (CHECK_STRING tool) (\<lambda>n.
       if allowlist = Qnil then Inr Qnil
       else rbind (CHECK_STRING allowlist) (\<lambda>a.
         Inr (lbool (tool_allowed vs reg (Some (SSDATA a)) (Some (SSDATA n))))))"

definition Fallowlist_expand :: "brigade_vars \<Rightarrow> registry \<Rightarrow> lisp \<Rightarrow> lisp lisp_result" where
  "Fallowlist_expand vs reg allowlist =
     (if allowlist = Qnil then Inr (LStr [])
      else rbind (CHECK_STRING allowlist) (\<lambda>a.
        Inr (LStr (allowlist_expand vs reg (Some (SSDATA a))))))"

definition Ftool_privileged_p :: "lisp \<Rightarrow> lisp lisp_result" where
  "Ftool_privileged_p tool =
     rbind (CHECK_STRING tool) (\<lambda>n. Inr (lbool (tool_privileged (Some (SSDATA n)))))"

section \<open>What the gate decides\<close>

text \<open>The names an allowlist string denotes: its fields, stripped, empty ones dropped.\<close>

definition allow_entries :: "string \<Rightarrow> string list" where
  "allow_entries a = filter (\<lambda>e. e \<noteq> []) (map g_strstrip (g_strsplit CHR '','' a))"

lemma allow_entries_Nil [simp]: "allow_entries [] = []"
  by (simp add: allow_entries_def g_strsplit_def)

lemma allow_scan_iff:
  "tool \<noteq> [] \<Longrightarrow>
   allow_scan tool grp priv wild xs \<longleftrightarrow>
     tool \<in> set (filter (\<lambda>e. e \<noteq> []) (map g_strstrip xs)) \<or>
     (\<not> priv \<and> (wild \<or> ''*'' \<in> set (filter (\<lambda>e. e \<noteq> []) (map g_strstrip xs)) \<or>
       (\<exists>g. grp = Some g \<and> g \<in> set (filter (\<lambda>e. e \<noteq> []) (map g_strstrip xs)))))"
  by (induction tool grp priv wild xs rule: allow_scan.induct) (auto simp: Let_def)

lemma allow_scan_entries:
  "tool \<noteq> [] \<Longrightarrow>
   allow_scan tool grp priv False (g_strsplit CHR '','' a) \<longleftrightarrow>
     tool \<in> set (allow_entries a) \<or>
     (\<not> priv \<and> (''*'' \<in> set (allow_entries a) \<or> (\<exists>g. grp = Some g \<and> g \<in> set (allow_entries a))))"
  unfolding allow_entries_def by (subst allow_scan_iff) auto

definition tool_group_of :: "registry \<Rightarrow> string \<Rightarrow> string option" where
  "tool_group_of reg n = (case registry_lookup reg (Some n) of None \<Rightarrow> None | Some t \<Rightarrow> tool_group t)"

definition is_privileged_under :: "brigade_policy \<Rightarrow> string \<Rightarrow> bool" where
  "is_privileged_under pol n \<longleftrightarrow> restrict_privileged pol \<and> n \<in> set brigade_privileged"

lemma tool_allowed_iff:
  "tool_allowed_with_policy reg (Some a) (Some n) (Some pol) \<longleftrightarrow>
     n \<noteq> [] \<and> \<not> (block_recursive pol \<and> blocked_outright n) \<and>
     (n \<in> set (allow_entries a) \<or>
      (\<not> is_privileged_under pol n \<and>
       (''*'' \<in> set (allow_entries a) \<or>
        (\<exists>g. tool_group_of reg n = Some g \<and> g \<in> set (allow_entries a)))))"
  by (cases "n = []"; cases "a = []")
     (auto simp: tool_allowed_with_policy_def Let_def allow_scan_entries
        tool_group_of_def is_privileged_under_def tool_privileged_def)

lemma tool_allowed_cases:
  assumes "tool_allowed_with_policy reg al tool pol"
  obtains a n p where "al = Some a" "tool = Some n" "pol = Some p" "n \<noteq> []" "a \<noteq> []"
  using assms by (auto simp: tool_allowed_with_policy_def split: option.splits if_splits)

section \<open>The gate as an interface\<close>

text \<open>
  What the rest of the system relies on when it asks a gate: it fails closed, it refuses the
  recursive prefixes while they are blocked, a privileged tool needs naming while those are
  restricted, and naming a tool outright is enough otherwise.
\<close>

locale tool_gate =
  fixes allowed :: "string option \<Rightarrow> string option \<Rightarrow> brigade_policy option \<Rightarrow> bool"
    and entries :: "string \<Rightarrow> string list"
    and recursive :: "string \<Rightarrow> bool"
    and privileged :: "string \<Rightarrow> bool"
  assumes fails_closed: "allowed al t pol \<Longrightarrow>
      \<exists>a n p. al = Some a \<and> t = Some n \<and> pol = Some p \<and> n \<noteq> [] \<and> entries a \<noteq> []"
    and recursive_refused: "block_recursive p \<Longrightarrow> recursive n \<Longrightarrow> \<not> allowed al (Some n) (Some p)"
    and privileged_named: "restrict_privileged p \<Longrightarrow> privileged n \<Longrightarrow>
      allowed (Some a) (Some n) (Some p) \<Longrightarrow> n \<in> set (entries a)"
    and named_allowed: "n \<noteq> [] \<Longrightarrow> n \<in> set (entries a) \<Longrightarrow> \<not> (block_recursive p \<and> recursive n) \<Longrightarrow>
      allowed (Some a) (Some n) (Some p)"
begin

lemma nothing_without_entries: "entries a = [] \<Longrightarrow> \<not> allowed (Some a) t pol"
  using fails_closed by blast

text \<open>A list of offered names cut down by the gate holds no recursive and no unnamed privileged tool.\<close>

lemma filter_gate:
  assumes "n \<in> set (filter (\<lambda>n. allowed (Some a) (Some n) (Some p)) ns)"
  shows "n \<in> set ns" and "block_recursive p \<Longrightarrow> \<not> recursive n"
    and "restrict_privileged p \<Longrightarrow> privileged n \<Longrightarrow> n \<in> set (entries a)"
  using assms recursive_refused privileged_named by auto

lemma privileged_only_named:
  assumes "restrict_privileged p" and "privileged n" and "\<not> (block_recursive p \<and> recursive n)"
    and "n \<noteq> []"
  shows "allowed (Some a) (Some n) (Some p) \<longleftrightarrow> n \<in> set (entries a)"
  using assms privileged_named named_allowed by blast

end

interpretation gate: tool_gate "tool_allowed_with_policy reg" allow_entries blocked_outright
  "\<lambda>n. n \<in> set brigade_privileged" for reg
proof (unfold_locales, goal_cases)
  case (1 al t pol)
  then obtain a n p where *: "al = Some a" "t = Some n" "pol = Some p" "n \<noteq> []" "a \<noteq> []"
    by (rule tool_allowed_cases)
  with 1 have "allow_entries a \<noteq> []"
    unfolding \<open>al = Some a\<close> \<open>t = Some n\<close> \<open>pol = Some p\<close> tool_allowed_iff by auto
  with * show ?case by blast
next
  case (2 p n al)
  then show ?case by (cases al) (auto simp: tool_allowed_iff tool_allowed_with_policy_def)
next
  case (3 p n a)
  then show ?case by (auto simp: tool_allowed_iff is_privileged_under_def)
next
  case (4 n a p)
  then show ?case by (simp add: tool_allowed_iff)
qed

section \<open>What expansion produces\<close>

definition clean_entry :: "string \<Rightarrow> bool" where
  "clean_entry e \<longleftrightarrow> e \<noteq> [] \<and> CHR '','' \<notin> set e \<and> g_strstrip e = e"

text \<open>Registered names that can stand in an allowlist string, the wildcard excepted.\<close>

definition clean_registry :: "registry \<Rightarrow> bool" where
  "clean_registry reg \<longleftrightarrow>
     registry_wf reg \<and>
     list_all (\<lambda>t. clean_entry (tool_name t) \<and> tool_name t \<noteq> ''*'') (map snd (gh_entries reg))"

definition group_tools :: "brigade_vars \<Rightarrow> registry \<Rightarrow> string \<Rightarrow> string list" where
  "group_tools vs reg e =
     map tool_name
       (filter (\<lambda>t. tool_group t = Some e \<and>
           \<not> (Vrestrict_privileged_tools vs \<noteq> Qnil \<and> tool_privileged (Some (tool_name t))))
         (map snd (gh_entries reg)))"

definition expand_entry :: "brigade_vars \<Rightarrow> registry \<Rightarrow> string \<Rightarrow> string list" where
  "expand_entry vs reg e = (if group_tools vs reg e = [] then [e] else group_tools vs reg e)"

lemma allow_entries_clean: "e \<in> set (allow_entries a) \<Longrightarrow> clean_entry e"
proof -
  assume "e \<in> set (allow_entries a)"
  then obtain f where f: "f \<in> set (g_strsplit CHR '','' a)" and e: "e = g_strstrip f" "e \<noteq> []"
    by (auto simp: allow_entries_def)
  from f have "CHR '','' \<notin> set f"
    by (auto simp: g_strsplit_def dest: split_on_fields split: if_splits)
  with e show ?thesis using set_g_strstrip [of f] by (auto simp: clean_entry_def)
qed

lemma join_eq_Nil: "\<forall>x \<in> set xs. x \<noteq> [] \<Longrightarrow> join_with c xs = [] \<longleftrightarrow> xs = []"
  by (induction c xs rule: join_with.induct) auto

lemma join_snoc: "xs \<noteq> [] \<Longrightarrow> join_with c (xs @ [y]) = join_with c xs @ c # y"
  by (induction c xs rule: join_with.induct) auto

lemma append_entry_join:
  assumes "\<forall>x \<in> set xs. x \<noteq> []"
  shows "append_entry (join_with CHR '','' xs) e = join_with CHR '','' (xs @ [e])"
proof (cases "xs = []")
  case True
  then show ?thesis by (simp add: append_entry_def)
next
  case False
  with assms show ?thesis by (simp add: append_entry_def join_eq_Nil join_snoc)
qed

lemma foldl_append_entry_join:
  assumes "\<forall>x \<in> set xs. x \<noteq> []" and "\<forall>y \<in> set ys. y \<noteq> []"
  shows "foldl append_entry (join_with CHR '','' xs) ys = join_with CHR '','' (xs @ ys)"
  using assms
proof (induction ys arbitrary: xs)
  case Nil
  then show ?case by simp
next
  case (Cons y ys)
  have "\<forall>x \<in> set (xs @ [y]). x \<noteq> []" using Cons.prems by simp
  with Cons.IH [of "xs @ [y]"] Cons.prems show ?case by (simp add: append_entry_join)
qed

lemma expand_group_fold:
  "fold (\<lambda>(k, v). expand_group vs e v) es (out, m) =
     (let ms = map tool_name (filter (\<lambda>t. tool_group t = Some e \<and>
           \<not> (Vrestrict_privileged_tools vs \<noteq> Qnil \<and> tool_privileged (Some (tool_name t))))
         (map snd es))
      in (foldl append_entry out ms, m \<or> ms \<noteq> []))"
  by (induction es arbitrary: out m) (auto simp: expand_group_def Let_def)

lemma foreach_expand_group:
  "registry_foreach (expand_group vs e) reg (out, m) =
     (foldl append_entry out (group_tools vs reg e), m \<or> group_tools vs reg e \<noteq> [])"
  unfolding registry_foreach_def expand_group_fold by (simp add: group_tools_def Let_def)

lemma group_tools_clean: "clean_registry reg \<Longrightarrow> n \<in> set (group_tools vs reg e) \<Longrightarrow> clean_entry n \<and> n \<noteq> ''*''"
  by (auto simp: group_tools_def clean_registry_def list_all_iff)

lemma expand_entry_clean:
  "clean_registry reg \<Longrightarrow> clean_entry e \<Longrightarrow> n \<in> set (expand_entry vs reg e) \<Longrightarrow> clean_entry n"
  by (auto simp: expand_entry_def dest: group_tools_clean split: if_splits)

lemma expand_loop_join:
  assumes "clean_registry reg" and "\<forall>x \<in> set acc. x \<noteq> []"
  shows "expand_loop vs reg xs (join_with CHR '','' acc) =
    join_with CHR '',''
      (acc @ concat (map (expand_entry vs reg) (filter (\<lambda>e. e \<noteq> []) (map g_strstrip xs))))"
  using assms(2)
proof (induction xs arbitrary: acc)
  case Nil
  then show ?case by simp
next
  case (Cons x xs)
  let ?e = "g_strstrip x" and ?ms = "group_tools vs reg (g_strstrip x)"
  have ne: "\<forall>y \<in> set ?ms. y \<noteq> []"
    using group_tools_clean [OF assms(1)] by (auto simp: clean_entry_def)
  have step: "expand_loop vs reg (x # xs) (join_with CHR '','' acc) =
      expand_loop vs reg xs (join_with CHR '','' (acc @ expand_entry vs reg ?e))" if "?e \<noteq> []"
    using that ne Cons.prems
    by (simp add: Let_def foreach_expand_group foldl_append_entry_join expand_entry_def
        append_entry_join)
  have "\<forall>y \<in> set (acc @ expand_entry vs reg ?e). y \<noteq> []" if "?e \<noteq> []"
    using that ne Cons.prems by (auto simp: expand_entry_def)
  with Cons.IH Cons.prems step show ?case by (cases "?e = []") (auto simp: Let_def)
qed

lemma allow_entries_join:
  assumes "\<forall>e \<in> set es. clean_entry e"
  shows "allow_entries (join_with CHR '','' es) = es"
proof (cases "es = []")
  case False
  have ne: "\<forall>e \<in> set es. e \<noteq> []" and nc: "\<forall>e \<in> set es. CHR '','' \<notin> set e"
    and st: "\<forall>e \<in> set es. g_strstrip e = e"
    using assms by (auto simp: clean_entry_def)
  have "g_strsplit CHR '','' (join_with CHR '','' es) = es"
    using False ne nc by (simp add: g_strsplit_def join_eq_Nil split_on_join)
  moreover have "map g_strstrip es = es" using st by (simp add: map_idI)
  ultimately show ?thesis using ne by (simp add: allow_entries_def filter_id_conv)
qed simp

lemma allow_entries_expand:
  assumes "clean_registry reg"
  shows "allow_entries (allowlist_expand vs reg (Some a)) =
    concat (map (expand_entry vs reg) (allow_entries a))"
proof -
  have "allowlist_expand vs reg (Some a) =
      join_with CHR '','' (concat (map (expand_entry vs reg) (allow_entries a)))"
    using expand_loop_join [OF assms, of "[]"]
    by (simp add: allowlist_expand_def allow_entries_def g_strsplit_def)
  moreover have "\<forall>e \<in> set (concat (map (expand_entry vs reg) (allow_entries a))). clean_entry e"
    using expand_entry_clean [OF assms] allow_entries_clean by fastforce
  ultimately show ?thesis by (simp add: allow_entries_join)
qed

lemma group_tools_iff:
  assumes "registry_wf reg"
  shows "n \<in> set (group_tools vs reg e) \<longleftrightarrow>
    tool_group_of reg n = Some e \<and>
    \<not> (Vrestrict_privileged_tools vs \<noteq> Qnil \<and> n \<in> set brigade_privileged)"
proof -
  have "n \<in> set (group_tools vs reg e) \<longleftrightarrow>
      (\<exists>t. t \<in> snd ` set (gh_entries reg) \<and> tool_name t = n \<and> tool_group t = Some e \<and>
        \<not> (Vrestrict_privileged_tools vs \<noteq> Qnil \<and> n \<in> set brigade_privileged))"
    by (auto simp: group_tools_def tool_privileged_def)
  also have "\<dots> \<longleftrightarrow> (\<exists>t. registry_lookup reg (Some n) = Some t \<and> tool_group t = Some e \<and>
        \<not> (Vrestrict_privileged_tools vs \<noteq> Qnil \<and> n \<in> set brigade_privileged))"
    using registry_entries_iff [OF assms] registry_wf_name [OF assms]
    by (metis registry_lookup_def option.simps(5))
  finally show ?thesis by (auto simp: tool_group_of_def split: option.splits)
qed

section \<open>Properties\<close>

text \<open>
  Property (C3). The gate's verdict, for every argument it can be given: an agent may call a tool
  exactly when all three arguments are there, the name is not empty and not a blocked recursive
  one while recursion is blocked, and the allowlist either names the tool, or holds the wildcard or the tool's registered
  group and the tool is not withheld, where only the privileged tools are withheld and only while
  the restriction is on. So with the restriction off, the default, the wildcard and a group grant both reach
  the privileged tools. For groups this is what the code does and not what the docstring of
  \<^verbatim>\<open>cmacs-brigade-tool-allowed-p\<close>, \<^verbatim>\<open>cmacs-brigade.h\<close> and the manual say, which deny it in either setting.
\<close>

theorem gate_characterised:
  "tool_allowed_with_policy reg al t pol \<longleftrightarrow>
     (\<exists>a n p. al = Some a \<and> t = Some n \<and> pol = Some p \<and> n \<noteq> [] \<and>
        \<not> (block_recursive p \<and> blocked_outright n) \<and>
        (n \<in> set (allow_entries a) \<or>
         ((''*'' \<in> set (allow_entries a) \<or>
           (\<exists>g. tool_group_of reg n = Some g \<and> g \<in> set (allow_entries a))) \<and>
          \<not> (restrict_privileged p \<and> n \<in> set brigade_privileged))))"
proof (cases "al \<noteq> None \<and> t \<noteq> None \<and> pol \<noteq> None")
  case True
  then show ?thesis by (auto simp: tool_allowed_iff is_privileged_under_def)
next
  case False
  then show ?thesis using gate.fails_closed by fastforce
qed

text \<open>
  The departure from the documentation at its plainest: with the default settings, a tool filed under a group
  is granted by that group, privileged or not.
\<close>

theorem group_reaches_privileged:
  assumes "n \<in> set brigade_privileged" "tool_group_of reg n = Some g" "g \<in> set (allow_entries a)"
  shows "tool_allowed_with_policy reg (Some a) (Some n) (Some (policy_from_lisp brigade_vars_default))"
proof -
  have "\<not> blocked_outright n" and "n \<noteq> []"
    using assms(1)
    by (auto simp: brigade_privileged_def blocked_outright_def brigade_blocked_prefixes_def
        g_str_has_prefix_def)
  then show ?thesis
    using assms by (auto simp: tool_allowed_iff is_privileged_under_def policy_from_lisp_def brigade_vars_default_def)
qed

text \<open>
  With the privileged set restricted, a privileged tool that is not blocked
  outright is granted exactly to the agents whose allowlist names it: no wildcard and no group,
  whatever the registry files it under, reaches it.
\<close>

theorem privileged_needs_naming:
  assumes "restrict_privileged pol" and "n \<in> set brigade_privileged"
  shows "tool_allowed_with_policy reg (Some a) (Some n) (Some pol) \<longleftrightarrow> n \<in> set (allow_entries a)"
proof -
  have "\<not> blocked_outright n" and "n \<noteq> []"
    using assms(2)
    by (auto simp: brigade_privileged_def blocked_outright_def brigade_blocked_prefixes_def
        g_str_has_prefix_def)
  with assms show ?thesis by (intro gate.privileged_only_named) auto
qed

theorem privileged_needs_naming_witness:
  "tool_allowed_with_policy registry_init (Some ''*, eval'') (Some ''eval'')
      (Some \<lparr>restrict_privileged = True, block_recursive = True\<rparr>) \<and>
   \<not> tool_allowed_with_policy registry_init (Some ''*, memory_search'') (Some ''eval'')
      (Some \<lparr>restrict_privileged = True, block_recursive = True\<rparr>)"
proof -
  have p: "''eval'' \<in> set brigade_privileged" by (simp add: brigade_privileged_def)
  have e: "''eval'' \<in> set (allow_entries ''*, eval'')"
    and m: "''eval'' \<notin> set (allow_entries ''*, memory_search'')"
    by code_simp+
  show ?thesis
    using privileged_needs_naming
        [of "\<lparr>restrict_privileged = True, block_recursive = True\<rparr>", OF _ p] e m
    by simp
qed

text \<open>
  Property (C19). Expanding groups for the relay never widens a grant, as long as the name of every registered tool can stand
  in an allowlist: it is not empty, not the wildcard, holds no comma and has no white space around it.
  Then what the relay, whose registry is empty, allows under the expanded list, the editor allows
  under the original one with its full registry and the same restriction setting.
\<close>

theorem relay_decision_sound:
  assumes "clean_registry reg"
    and "restrict_privileged pol \<longleftrightarrow> Vrestrict_privileged_tools vs \<noteq> Qnil"
    and "tool_allowed_with_policy registry_init (Some (allowlist_expand vs reg (Some a)))
           (Some n) (Some pol)"
  shows "tool_allowed_with_policy reg (Some a) (Some n) (Some pol)"
proof -
  have wf: "registry_wf reg" using assms(1) by (simp add: clean_registry_def)
  have no_star: "''*'' \<notin> set (group_tools vs reg e)" for e
    using group_tools_clean [OF assms(1)] by blast
  have "tool_group_of registry_init n = None" by (simp add: tool_group_of_def)
  with assms(3) show ?thesis
    unfolding tool_allowed_iff allow_entries_expand [OF assms(1)]
    using assms(2) no_star
    by (auto simp: expand_entry_def group_tools_iff [OF wf] is_privileged_under_def
        split: if_splits)
qed

theorem relay_decision_sound_witness:
  "(let reg = [(''get_weather'', \<lparr>tool_name = ''get_weather'', tool_description = [],
        tool_params_json = [], tool_group = Some ''weather'', tool_destructive = False,
        tool_confirm = CONFIRM_NONE, tool_async = False, tool_timeout_ms = 0\<rparr>)];
      pol = policy_from_lisp brigade_vars_default
    in allowlist_expand brigade_vars_default reg (Some ''weather, bash'') = ''get_weather,bash'' \<and>
       tool_allowed_with_policy reg (Some ''weather, bash'') (Some ''get_weather'') (Some pol))"
proof -
  let ?t = "\<lparr>tool_name = ''get_weather'', tool_description = [],
        tool_params_json = [], tool_group = Some ''weather'', tool_destructive = False,
        tool_confirm = CONFIRM_NONE, tool_async = False, tool_timeout_ms = 0\<rparr>"
  let ?reg = "[(''get_weather'', ?t)]"
  have c: "clean_registry ?reg"
    by (auto simp: clean_registry_def registry_wf_def gh_invar_def gh_lookup_def gh_entries_def
        clean_entry_def g_strstrip_def g_strchomp_def g_strchug_def g_ascii_isspace_def
        split: if_splits)
  have x: "allowlist_expand brigade_vars_default ?reg (Some ''weather, bash'') = ''get_weather,bash''"
    by code_simp
  have r: "tool_allowed_with_policy registry_init (Some ''get_weather,bash'') (Some ''get_weather'')
      (Some (policy_from_lisp brigade_vars_default))"
    by code_simp
  have "tool_allowed_with_policy ?reg (Some ''weather, bash'') (Some ''get_weather'')
      (Some (policy_from_lisp brigade_vars_default))"
    by (rule relay_decision_sound [OF c, of _ brigade_vars_default])
       (use r x in \<open>simp_all add: policy_from_lisp_def\<close>)
  with x show ?thesis by (simp add: Let_def)
qed

text \<open>
  The condition on the names is needed, and nothing checks it when a tool is registered: one tool called
  \<^verbatim>\<open>*\<close> makes the expansion of its group the wildcard, and the relay then allows what the
  editor refuses.
\<close>

theorem star_tool_widens:
  "case mirror_put registry_init (LStr ''*'') (LStr []) (LStr []) (llist [LSym '':group'', LStr ''weather'']) of
     Inr (_, reg) \<Rightarrow>
       tool_allowed_with_policy registry_init (Some (allowlist_expand brigade_vars_default reg (Some ''weather'')))
         (Some ''bash'') (Some (policy_from_lisp brigade_vars_default)) \<and>
       \<not> tool_allowed_with_policy reg (Some ''weather'') (Some ''bash'') (Some (policy_from_lisp brigade_vars_default))
   | Inl _ \<Rightarrow> False"
  by code_simp

text \<open>
  The relay's answer and the editor's are the same for every tool whose name is
  not also a group of the registry, as long as no group is called \<^verbatim>\<open>*\<close>.
\<close>

theorem relay_decision_agrees:
  assumes "clean_registry reg"
    and "restrict_privileged pol \<longleftrightarrow> Vrestrict_privileged_tools vs \<noteq> Qnil"
    and "group_tools vs reg n = []" and "group_tools vs reg ''*'' = []"
  shows "tool_allowed_with_policy registry_init (Some (allowlist_expand vs reg (Some a)))
           (Some n) (Some pol) \<longleftrightarrow>
         tool_allowed_with_policy reg (Some a) (Some n) (Some pol)"
proof -
  have wf: "registry_wf reg" using assms(1) by (simp add: clean_registry_def)
  have g: "tool_group_of registry_init n = None" by (simp add: tool_group_of_def)
  have ex: "m \<in> set (concat (map (expand_entry vs reg) es)) \<longleftrightarrow>
      (m \<in> set es \<and> group_tools vs reg m = []) \<or> (\<exists>e \<in> set es. m \<in> set (group_tools vs reg e))"
    for m es by (auto simp: expand_entry_def split: if_splits)
  have no_star: "''*'' \<notin> set (group_tools vs reg e)" for e
    using group_tools_clean [OF assms(1)] by blast
  show ?thesis
    unfolding tool_allowed_iff allow_entries_expand [OF assms(1)] ex
    using assms(2-4) no_star
    by (auto simp: group_tools_iff [OF wf] g is_privileged_under_def)
qed

theorem relay_decision_agrees_witness:
  "\<not> tool_allowed_with_policy registry_init
      (Some (allowlist_expand brigade_vars_default registry_init (Some ''memory_search'')))
      (Some ''bash'') (Some (policy_from_lisp brigade_vars_default)) \<and>
   \<not> tool_allowed_with_policy registry_init (Some ''memory_search'')
      (Some ''bash'') (Some (policy_from_lisp brigade_vars_default))"
proof -
  have c: "clean_registry registry_init"
    by (simp add: clean_registry_def registry_wf_def registry_init_def gh_invar_def gh_lookup_def
        gh_entries_def gh_empty_def)
  have g: "group_tools brigade_vars_default registry_init e = []" for e
    by (simp add: group_tools_def registry_init_def gh_entries_def gh_empty_def)
  have "\<not> tool_allowed_with_policy registry_init (Some ''memory_search'')
      (Some ''bash'') (Some (policy_from_lisp brigade_vars_default))"
    by code_simp
  then show ?thesis
    using relay_decision_agrees [OF c _ g g, of "policy_from_lisp brigade_vars_default"
        "''memory_search''" "''bash''"]
    by (simp add: policy_from_lisp_def)
qed

text \<open>
  Without that condition the two answers part: an allowlist that names a tool
  whose name is also a registered group grants the tool in the editor, but the entry is replaced
  by the group's members on its way to the relay, which then refuses the tool.
\<close>

theorem expansion_drops_named_tool:
  "\<exists>reg a n. clean_registry reg \<and>
     tool_allowed brigade_vars_default reg (Some a) (Some n) \<and>
     \<not> tool_allowed_with_policy registry_init
         (Some (allowlist_expand brigade_vars_default reg (Some a))) (Some n)
         (Some (policy_from_lisp brigade_vars_default))"
proof -
  let ?t = "\<lparr>tool_name = ''get_forecast'', tool_description = [],
        tool_params_json = [], tool_group = Some ''weather'', tool_destructive = False,
        tool_confirm = CONFIRM_NONE, tool_async = False, tool_timeout_ms = 0\<rparr>"
  let ?reg = "[(''get_forecast'', ?t)]"
  have "clean_registry ?reg"
    by (auto simp: clean_registry_def registry_wf_def gh_invar_def gh_lookup_def gh_entries_def
        clean_entry_def g_strstrip_def g_strchomp_def g_strchug_def g_ascii_isspace_def
        split: if_splits)
  moreover have "tool_allowed brigade_vars_default ?reg (Some ''weather'') (Some ''weather'')"
    by code_simp
  moreover have "\<not> tool_allowed_with_policy registry_init
         (Some (allowlist_expand brigade_vars_default ?reg (Some ''weather''))) (Some ''weather'')
         (Some (policy_from_lisp brigade_vars_default))"
    by code_simp
  ultimately show ?thesis by blast
qed

text \<open>
  Under the default settings a group grant does reach a privileged tool: the
  group test looks at the privilege computed under the policy, which is off by default.
\<close>

theorem group_reaches_privileged_by_default:
  "\<exists>reg. registry_wf reg \<and> tool_group_of reg ''eval'' = Some ''tools'' \<and>
     tool_privileged (Some ''eval'') \<and>
     tool_allowed brigade_vars_default reg (Some ''tools'') (Some ''eval'')"
proof -
  let ?t = "\<lparr>tool_name = ''eval'', tool_description = [],
        tool_params_json = [], tool_group = Some ''tools'', tool_destructive = False,
        tool_confirm = CONFIRM_NONE, tool_async = False, tool_timeout_ms = 0\<rparr>"
  let ?reg = "[(''eval'', ?t)]"
  have "registry_wf ?reg"
    by (auto simp: registry_wf_def gh_invar_def gh_lookup_def split: if_splits)
  moreover have "tool_group_of ?reg ''eval'' = Some ''tools''" by code_simp
  moreover have "tool_privileged (Some ''eval'')" by code_simp
  moreover have "tool_allowed brigade_vars_default ?reg (Some ''tools'') (Some ''eval'')"
    by code_simp
  ultimately show ?thesis by blast
qed

end
