(* ===== verification/Json_Glib.thy ===== *)
theory Json_Glib
  imports Utf8
begin

text \<open>
  JSON documents as json-glib's \<^verbatim>\<open>JsonNode\<close> holds them, and the library itself as a parameter.
  The parser, the generator and the typed getters of json-glib are not part of the repository:
  they are the fields of a record \<open>json_glib\<close>, an argument of every definition that uses them,
  and \<open>json_glib_ok\<close> collects what the sources rely on. \<open>ref_json_glib\<close> is a concrete library
  that satisfies it.
\<close>

datatype json =
    JNull
  | JBool bool
  | JInt int
  | JDouble "64 word"
  | JString string
  | JArray "json list"
  | JObject "(string \<times> json) list"

type_synonym json_object = "(string \<times> json) list"

text \<open>Members of an object; \<^verbatim>\<open>JsonBuilder\<close> and \<^verbatim>\<open>json_object_set_member\<close> keep names distinct.\<close>

definition json_object_has_member :: "json_object \<Rightarrow> string \<Rightarrow> bool" where
  "json_object_has_member obj k \<longleftrightarrow> map_of obj k \<noteq> None"

definition json_object_get_member :: "json_object \<Rightarrow> string \<Rightarrow> json option" where
  "json_object_get_member obj k = map_of obj k"

fun json_object_set_member :: "string \<Rightarrow> json \<Rightarrow> json_object \<Rightarrow> json_object" where
  "json_object_set_member k v [] = [(k, v)]"
| "json_object_set_member k v ((k', v') # ms) =
     (if k' = k then (k, v) # ms else (k', v') # json_object_set_member k v ms)"

lemma map_of_set_member: "map_of (json_object_set_member k v obj) = (map_of obj)(k \<mapsto> v)"
  by (induction obj) auto

lemma keys_set_member:
  "fst ` set (json_object_set_member k v obj) = insert k (fst ` set obj)"
proof (induction obj)
  case (Cons m obj)
  then show ?case by (cases m) (simp add: insert_commute)
qed simp

lemma distinct_set_member:
  "distinct (map fst obj) \<Longrightarrow> distinct (map fst (json_object_set_member k v obj))"
proof (induction obj)
  case (Cons m obj)
  then show ?case using keys_set_member [of k v obj] by (cases m) auto
qed simp

definition JSON_NODE_HOLDS_OBJECT :: "json \<Rightarrow> bool" where
  "JSON_NODE_HOLDS_OBJECT j = (case j of JObject _ \<Rightarrow> True | _ \<Rightarrow> False)"

definition json_scalar :: "json \<Rightarrow> bool" where
  "json_scalar j = (case j of JArray _ \<Rightarrow> False | JObject _ \<Rightarrow> False | JNull \<Rightarrow> False | _ \<Rightarrow> True)"

section \<open>The library\<close>

record json_glib =
  jg_load :: "string \<Rightarrow> json option option"
  jg_to_string :: "json \<Rightarrow> string"
  jg_string :: "json \<Rightarrow> string option"
  jg_int :: "json \<Rightarrow> int"
  jg_boolean :: "json \<Rightarrow> bool"
  jg_object :: "json \<Rightarrow> json_object option"
  jg_array :: "json \<Rightarrow> json list option"

text \<open>
  \<^verbatim>\<open>jg_load\<close> is \<^verbatim>\<open>json_parser_load_from_data\<close>: \<open>None\<close> when it fails, otherwise the root, which
  may be absent. The getters read a node; the \<^verbatim>\<open>json_object_get_*_member\<close> functions of the
  sources are applied to present members only, and \<^verbatim>\<open>..._with_default\<close> gives the default for a
  missing, null or non-scalar member.
\<close>

definition json_get_string_member_default_null ::
  "json_glib \<Rightarrow> json_object \<Rightarrow> string \<Rightarrow> string option" where
  "json_get_string_member_default_null J obj k =
     (case map_of obj k of None \<Rightarrow> None | Some v \<Rightarrow> if json_scalar v then jg_string J v else None)"

definition str_ok :: "string \<Rightarrow> bool" where
  "str_ok s \<longleftrightarrow> g_utf8_validate s \<and> NUL \<notin> set s"

definition ascii_text :: "string \<Rightarrow> bool" where
  "ascii_text s \<longleftrightarrow> list_all (\<lambda>c. 0 < (of_char c :: nat) \<and> (of_char c :: nat) < 0x80) s"

lemma ascii_text_no_NUL: "ascii_text s \<Longrightarrow> NUL \<notin> set s"
  by (auto simp: ascii_text_def list_all_iff)

lemma str_ok_ascii: "ascii_text s \<Longrightarrow> str_ok s"
  by (simp add: str_ok_def ascii_text_no_NUL) (simp add: ascii_text_def utf8_validate_ascii)

lemma str_ok_append: "ascii_text s \<Longrightarrow> str_ok t \<Longrightarrow> str_ok (s @ t)"
  by (simp add: str_ok_def ascii_text_no_NUL) (simp add: ascii_text_def utf8_validate_ascii_append)

lemma str_ok_Nil [simp]: "str_ok []"
  by (simp add: str_ok_def)

text \<open>
  A document that can be written and read back: integers of 64 bits, finite doubles (the generator prints an
  infinity or a NaN as no JSON number), strings of valid UTF-8 without NUL, distinct member names.
\<close>

definition double_finite :: "64 word \<Rightarrow> bool" where
  "double_finite d \<longleftrightarrow> take_bit 11 (drop_bit 52 d) \<noteq> 0x7FF"

fun json_wf :: "json \<Rightarrow> bool" where
  "json_wf JNull = True"
| "json_wf (JBool b) = True"
| "json_wf (JInt i) = gint64_range i"
| "json_wf (JDouble d) = double_finite d"
| "json_wf (JString s) = str_ok s"
| "json_wf (JArray xs) = list_all json_wf xs"
| "json_wf (JObject ms) = (distinct (map fst ms) \<and> list_all (\<lambda>(k, v). str_ok k \<and> json_wf v) ms)"

lemma json_wf_set_member:
  "json_wf (JObject obj) \<Longrightarrow> str_ok k \<Longrightarrow> json_wf v \<Longrightarrow> json_wf (JObject (json_object_set_member k v obj))"
proof -
  assume "json_wf (JObject obj)" "str_ok k" "json_wf v"
  moreover have "list_all (\<lambda>(k, v). str_ok k \<and> json_wf v) obj \<Longrightarrow> str_ok k \<Longrightarrow> json_wf v \<Longrightarrow>
      list_all (\<lambda>(k, v). str_ok k \<and> json_wf v) (json_object_set_member k v obj)"
    by (induction obj) auto
  ultimately show ?thesis by (simp add: distinct_set_member)
qed

text \<open>
  What is relied on: a generated document parses back to the value it was generated from
  (a double is printed by \<^verbatim>\<open>g_ascii_dtostr\<close>, with all the digits it takes to get the same number back), generated text is one NUL-free
  line, each getter returns the payload of a node of its own type, and only a string node yields a string.
\<close>

definition json_glib_ok :: "json_glib \<Rightarrow> bool" where
  "json_glib_ok J \<longleftrightarrow>
     (\<forall>j. json_wf j \<longrightarrow> jg_load J (jg_to_string J j) = Some (Some j)) \<and>
     (\<forall>j. NUL \<notin> set (jg_to_string J j) \<and> CHR 0x0A \<notin> set (jg_to_string J j)
        \<and> jg_to_string J j \<noteq> []) \<and>
     (\<forall>s. jg_string J (JString s) = Some s) \<and>
     (\<forall>j s. jg_string J j = Some s \<longrightarrow> j = JString s) \<and> (\<forall>i. jg_int J (JInt i) = i) \<and>
     (\<forall>b. jg_boolean J (JBool b) = b) \<and> (\<forall>ms. jg_object J (JObject ms) = Some ms) \<and>
     (\<forall>xs. jg_array J (JArray xs) = Some xs)"

lemma json_glib_okD:
  assumes "json_glib_ok J"
  shows "json_wf j \<Longrightarrow> jg_load J (jg_to_string J j) = Some (Some j)"
    and "json_wf j \<Longrightarrow> NUL \<notin> set (jg_to_string J j)"
    and "json_wf j \<Longrightarrow> CHR 0x0A \<notin> set (jg_to_string J j)"
    and "json_wf j \<Longrightarrow> jg_to_string J j \<noteq> []"
    and "jg_string J (JString s) = Some s" and "jg_int J (JInt i) = i"
    and "jg_boolean J (JBool b) = b" and "jg_object J (JObject ms) = Some ms"
    and "jg_array J (JArray xs) = Some xs"
    and "jg_string J j = Some s \<Longrightarrow> j = JString s"
  using assms unfolding json_glib_ok_def by blast+

lemma json_glib_text:
  assumes "json_glib_ok J"
  shows "NUL \<notin> set (jg_to_string J j)" "CHR 0x0A \<notin> set (jg_to_string J j)" "jg_to_string J j \<noteq> []"
  using assms unfolding json_glib_ok_def by blast+

section \<open>A concrete library\<close>

text \<open>
  A prefix code over a small alphabet: naturals as binary digits closed by a semicolon, strings
  as runs of naturals, arrays and objects as runs of items. It is not JSON text, but it is an
  executable parser and generator that meet \<open>json_glib_ok\<close>.
\<close>

fun enc_nat :: "nat \<Rightarrow> string" where
  "enc_nat n = (if n = 0 then '';'' else (if even n then CHR ''0'' else CHR ''1'') # enc_nat (n div 2))"

declare enc_nat.simps [simp del]

fun dec_nat :: "string \<Rightarrow> (nat \<times> string) option" where
  "dec_nat [] = None"
| "dec_nat (c # cs) =
     (if c = CHR '';'' then Some (0, cs)
      else case dec_nat cs of None \<Rightarrow> None
           | Some (n, rest) \<Rightarrow>
               if c = CHR ''0'' then Some (2 * n, rest)
               else if c = CHR ''1'' then Some (2 * n + 1, rest) else None)"

fun enc_str :: "string \<Rightarrow> string" where
  "enc_str [] = ''e''"
| "enc_str (c # cs) = CHR ''c'' # enc_nat (of_char c) @ enc_str cs"

fun dec_str :: "nat \<Rightarrow> string \<Rightarrow> (string \<times> string) option" where
  "dec_str 0 s = None"
| "dec_str (Suc f) s =
     (case s of [] \<Rightarrow> None
      | c # cs \<Rightarrow>
          if c = CHR ''e'' then Some ([], cs)
          else case dec_nat cs of None \<Rightarrow> None
               | Some (n, rest) \<Rightarrow>
                   (case dec_str f rest of None \<Rightarrow> None
                    | Some (t, rest') \<Rightarrow> Some (char_of n # t, rest')))"

fun enc_json :: "json \<Rightarrow> string" where
  "enc_json JNull = ''n''"
| "enc_json (JBool b) = (if b then ''t'' else ''f'')"
| "enc_json (JInt i) = (if 0 \<le> i then ''p'' else ''m'') @ enc_nat (nat \<bar>i\<bar>)"
| "enc_json (JDouble d) = ''d'' @ enc_nat (unat d)"
| "enc_json (JString s) = ''s'' @ enc_str s"
| "enc_json (JArray xs) = ''a'' @ concat (map (\<lambda>x. ''c'' @ enc_json x) xs) @ ''e''"
| "enc_json (JObject ms) =
     ''o'' @ concat (map (\<lambda>(k, x). ''c'' @ enc_str k @ enc_json x) ms) @ ''e''"

fun dec_json :: "nat \<Rightarrow> string \<Rightarrow> (json \<times> string) option"
  and dec_items :: "nat \<Rightarrow> string \<Rightarrow> (json list \<times> string) option"
  and dec_members :: "nat \<Rightarrow> string \<Rightarrow> (json_object \<times> string) option" where
  "dec_json 0 s = None"
| "dec_json (Suc f) s =
     (case s of [] \<Rightarrow> None
      | c # cs \<Rightarrow>
          if c = CHR ''n'' then Some (JNull, cs)
          else if c = CHR ''t'' then Some (JBool True, cs)
          else if c = CHR ''f'' then Some (JBool False, cs)
          else if c = CHR ''p'' then map_option (\<lambda>(n, r). (JInt (int n), r)) (dec_nat cs)
          else if c = CHR ''m'' then map_option (\<lambda>(n, r). (JInt (- int n), r)) (dec_nat cs)
          else if c = CHR ''d'' then map_option (\<lambda>(n, r). (JDouble (of_nat n), r)) (dec_nat cs)
          else if c = CHR ''s'' then map_option (\<lambda>(t, r). (JString t, r)) (dec_str f cs)
          else if c = CHR ''a'' then map_option (\<lambda>(xs, r). (JArray xs, r)) (dec_items f cs)
          else if c = CHR ''o'' then map_option (\<lambda>(ms, r). (JObject ms, r)) (dec_members f cs)
          else None)"
| "dec_items 0 s = None"
| "dec_items (Suc f) s =
     (case s of [] \<Rightarrow> None
      | c # cs \<Rightarrow>
          if c = CHR ''e'' then Some ([], cs)
          else case dec_json f cs of None \<Rightarrow> None
               | Some (x, r) \<Rightarrow>
                   (case dec_items f r of None \<Rightarrow> None | Some (xs, r') \<Rightarrow> Some (x # xs, r')))"
| "dec_members 0 s = None"
| "dec_members (Suc f) s =
     (case s of [] \<Rightarrow> None
      | c # cs \<Rightarrow>
          if c = CHR ''e'' then Some ([], cs)
          else case dec_str f cs of None \<Rightarrow> None
               | Some (k, r0) \<Rightarrow>
                   (case dec_json f r0 of None \<Rightarrow> None
                    | Some (x, r) \<Rightarrow>
                        (case dec_members f r of None \<Rightarrow> None
                         | Some (ms, r') \<Rightarrow> Some ((k, x) # ms, r'))))"

lemma dec_enc_nat: "dec_nat (enc_nat n @ rest) = Some (n, rest)"
proof (induction n rule: less_induct)
  case (less n)
  show ?case
  proof (cases "n = 0")
    case True
    then show ?thesis by (simp add: enc_nat.simps [of 0])
  next
    case False
    then have "dec_nat (enc_nat (n div 2) @ rest) = Some (n div 2, rest)"
      by (intro less.IH) simp
    with False show ?thesis
      by (cases "even n") (simp_all add: enc_nat.simps [of n])
  qed
qed

lemma dec_enc_str: "length s < f \<Longrightarrow> dec_str f (enc_str s @ rest) = Some (s, rest)"
proof (induction s arbitrary: f)
  case Nil
  then show ?case by (cases f) auto
next
  case (Cons c s)
  then obtain f' where "f = Suc f'" by (cases f) auto
  with Cons show ?case by (simp add: dec_enc_nat)
qed

text \<open>The depth of fuel a value needs.\<close>

fun json_fuel :: "json \<Rightarrow> nat" where
  "json_fuel (JString s) = length s + 2"
| "json_fuel (JArray xs) = length xs + sum_list (map json_fuel xs) + 2"
| "json_fuel (JObject ms) = length ms + sum_list (map (\<lambda>(k, x). length k + json_fuel x + 1) ms) + 2"
| "json_fuel _ = 1"

lemma dec_enc_items:
  assumes "\<And>x f rest. x \<in> set xs \<Longrightarrow> json_fuel x \<le> f \<Longrightarrow> dec_json f (enc_json x @ rest) = Some (x, rest)"
    and "length xs + sum_list (map json_fuel xs) < f"
  shows "dec_items f (concat (map (\<lambda>x. ''c'' @ enc_json x) xs) @ ''e'' @ rest) = Some (xs, rest)"
  using assms
proof (induction xs arbitrary: f)
  case Nil
  then show ?case by (cases f) auto
next
  case (Cons x xs)
  then obtain f' where f: "f = Suc f'" by (cases f) auto
  have "dec_json f' (enc_json x @ r) = Some (x, r)" for r
    using Cons.prems f by (intro Cons.prems(1)) auto
  moreover have "dec_items f' (concat (map (\<lambda>x. ''c'' @ enc_json x) xs) @ ''e'' @ rest) = Some (xs, rest)"
    using Cons.prems f by (intro Cons.IH) auto
  ultimately show ?case by (simp add: f)
qed

lemma dec_enc_members:
  assumes "\<And>k x f rest. (k, x) \<in> set ms \<Longrightarrow> json_fuel x \<le> f \<Longrightarrow>
      dec_json f (enc_json x @ rest) = Some (x, rest)"
    and "length ms + sum_list (map (\<lambda>(k, x). length k + json_fuel x + 1) ms) < f"
  shows "dec_members f (concat (map (\<lambda>(k, x). ''c'' @ enc_str k @ enc_json x) ms) @ ''e'' @ rest) =
    Some (ms, rest)"
  using assms
proof (induction ms arbitrary: f)
  case Nil
  then show ?case by (cases f) auto
next
  case (Cons m ms)
  obtain k x where m: "m = (k, x)" by (cases m)
  from Cons obtain f' where f: "f = Suc f'" by (cases f) auto
  have "dec_json f' (enc_json x @ r) = Some (x, r)" for r
    using Cons.prems f m by (intro Cons.prems(1) [of k]) auto
  moreover have "dec_str f' (enc_str k @ r) = Some (k, r)" for r
    using Cons.prems f m by (intro dec_enc_str) auto
  moreover have "dec_members f' (concat (map (\<lambda>(k, x). ''c'' @ enc_str k @ enc_json x) ms) @
      ''e'' @ rest) = Some (ms, rest)"
    using Cons.prems f m by (intro Cons.IH) auto
  ultimately show ?case by (simp add: f m)
qed

lemma dec_enc_json: "json_fuel j \<le> f \<Longrightarrow> dec_json f (enc_json j @ rest) = Some (j, rest)"
proof (induction j arbitrary: f rest rule: json_fuel.induct)
  case (1 s)
  then obtain f' where "f = Suc f'" "length s < f'" by (cases f) auto
  then show ?case by (simp add: dec_enc_str)
next
  case (2 xs)
  then obtain f' where "f = Suc f'" "length xs + sum_list (map json_fuel xs) < f'" by (cases f) auto
  with 2 show ?case by (simp add: dec_enc_items [simplified])
next
  case (3 ms)
  then obtain f' where f: "f = Suc f'"
      and lt: "length ms + sum_list (map (\<lambda>(k, x). length k + json_fuel x + 1) ms) < f'"
    by (cases f) auto
  have "dec_members f' (concat (map (\<lambda>(k, x). ''c'' @ enc_str k @ enc_json x) ms) @ ''e'' @ rest) =
      Some (ms, rest)"
    by (rule dec_enc_members [OF _ lt]) (use 3 in force)
  then show ?case by (simp add: f)
qed (auto simp: dec_enc_nat gr0_conv_Suc Suc_le_eq)

definition ref_json_glib :: json_glib where
  "ref_json_glib =
     \<lparr>jg_load = (\<lambda>s. case dec_json (Suc (length s)) s of
          None \<Rightarrow> None | Some (j, rest) \<Rightarrow> if rest = [] then Some (Some j) else None),
      jg_to_string = enc_json,
      jg_string = (\<lambda>j. case j of JString s \<Rightarrow> Some s | _ \<Rightarrow> None),
      jg_int = (\<lambda>j. case j of JInt i \<Rightarrow> i | _ \<Rightarrow> 0),
      jg_boolean = (\<lambda>j. case j of JBool b \<Rightarrow> b | _ \<Rightarrow> False),
      jg_object = (\<lambda>j. case j of JObject ms \<Rightarrow> Some ms | _ \<Rightarrow> None),
      jg_array = (\<lambda>j. case j of JArray xs \<Rightarrow> Some xs | _ \<Rightarrow> None)\<rparr>"

lemma length_enc_nat: "Suc 0 \<le> length (enc_nat n)"
  by (subst enc_nat.simps) simp

lemma length_enc_str: "2 * length s + 1 \<le> length (enc_str s)"
proof (induction s)
  case (Cons c s)
  then show ?case using length_enc_nat [of "of_char c"] by simp
qed simp

lemma json_fuel_le: "json_fuel j \<le> length (enc_json j)"
proof (induction j rule: json_fuel.induct)
  case (1 s)
  then show ?case using length_enc_str [of s] by simp
next
  case (2 xs)
  then have "length xs + sum_list (map json_fuel xs) \<le>
      length (concat (map (\<lambda>x. ''c'' @ enc_json x) xs))"
    by (induction xs) fastforce+
  then show ?case by simp
next
  case (3 ms)
  have "length ms + sum_list (map (\<lambda>(k, x). length k + json_fuel x + 1) ms) \<le>
      length (concat (map (\<lambda>(k, x). ''c'' @ enc_str k @ enc_json x) ms))"
    using 3
  proof (induction ms)
    case (Cons m ms)
    obtain k x where m: "m = (k, x)" by (cases m)
    have "json_fuel x \<le> length (enc_json x)"
      using Cons.prems [of "(k, x)" k x] m by simp
    moreover have "length ms + sum_list (map (\<lambda>(k, x). length k + json_fuel x + 1) ms) \<le>
        length (concat (map (\<lambda>(k, x). ''c'' @ enc_str k @ enc_json x) ms))"
      using Cons.prems by (intro Cons.IH) auto
    ultimately show ?case using length_enc_str [of k] m by simp
  qed simp
  then show ?case by simp
qed simp_all

definition enc_alphabet :: "char set" where
  "enc_alphabet = set ''nftpmdsaoce;01''"

lemma enc_alphabet_one_line: "NUL \<notin> enc_alphabet" "CHR 0x0A \<notin> enc_alphabet"
  by (simp_all add: enc_alphabet_def)

lemma set_enc_nat: "set (enc_nat n) \<subseteq> enc_alphabet"
proof (induction n rule: less_induct)
  case (less n)
  show ?case
  proof (cases "n = 0")
    case True
    then show ?thesis by (simp add: enc_nat.simps [of 0] enc_alphabet_def)
  next
    case False
    then have "set (enc_nat (n div 2)) \<subseteq> enc_alphabet" by (intro less.IH) simp
    with False show ?thesis by (simp add: enc_nat.simps [of n]) (simp add: enc_alphabet_def)
  qed
qed

lemma enc_alphabet_in: "c \<in> set ''nftpmdsaoce;01'' \<Longrightarrow> c \<in> enc_alphabet"
  by (simp add: enc_alphabet_def)

lemma set_enc_str: "set (enc_str s) \<subseteq> enc_alphabet"
  by (induction s) (use set_enc_nat in \<open>auto simp: enc_alphabet_in\<close>)

lemma set_enc_json: "set (enc_json j) \<subseteq> enc_alphabet"
proof (induction j rule: enc_json.induct)
  case (7 ms)
  have "set (enc_json x) \<subseteq> enc_alphabet" if "(k, x) \<in> set ms" for k x
    using 7 [OF that refl] .
  then show ?case using set_enc_str by (fastforce simp: enc_alphabet_in)
qed (use set_enc_nat set_enc_str in \<open>auto simp: enc_alphabet_in\<close>)

lemma ref_json_glib_ok: "json_glib_ok ref_json_glib"
proof -
  have rt: "dec_json (Suc (length (enc_json j))) (enc_json j) = Some (j, [])" for j
    using dec_enc_json [of j "Suc (length (enc_json j))" "[]"] json_fuel_le [of j] by simp
  have "NUL \<notin> set (enc_json j) \<and> CHR 0x0A \<notin> set (enc_json j)" for j
    using set_enc_json [of j] enc_alphabet_one_line by blast
  moreover have "enc_json j \<noteq> []" for j by (cases j) auto
  ultimately show ?thesis
    by (simp add: json_glib_ok_def ref_json_glib_def rt del: dec_json.simps split: json.splits)
qed

end
