(* ===== verification/Brigade_Relay.thy ===== *)
theory Brigade_Relay
  imports Brigade_Allowlist Json_Glib
begin

text \<open>
  \<^verbatim>\<open>src/cmacs/ai-brigade/cmacs-brigade-relay.c\<close>: the stdio process between a CLI agent and the
  editor's MCP socket. A stream being read is the list of chunks its \<^verbatim>\<open>read\<close> calls will deliver;
  a stream being written is what its calls have accepted so far and a script of which of the
  coming calls fail (a failing call delivers nothing), so that the loss of the far end at any
  call is a run of the model. The two pump threads
  are two functions over the same context.
\<close>

section \<open>Streams\<close>

record relay_reader =
  rr_in :: "string list"
  rr_buf :: string
  rr_max :: nat
  rr_eof :: bool

abbreviation RELAY_MAX_LINE :: nat where
  "RELAY_MAX_LINE \<equiv> 16 * 1024 * 1024"

abbreviation RELAY_CHUNK :: nat where
  "RELAY_CHUNK \<equiv> 65536"

definition relay_reader_init :: "string list \<Rightarrow> nat \<Rightarrow> relay_reader" where
  "relay_reader_init chunks cap = \<lparr>rr_in = chunks, rr_buf = [], rr_max = cap, rr_eof = False\<rparr>"

text \<open>One \<^verbatim>\<open>g_input_stream_read\<close>: nothing more, or an empty read, sets \<^verbatim>\<open>eof\<close>.\<close>

definition relay_reader_fill :: "relay_reader \<Rightarrow> relay_reader" where
  "relay_reader_fill r =
     (case rr_in r of [] \<Rightarrow> r\<lparr>rr_eof := True\<rparr>
      | c # cs \<Rightarrow>
          if c = [] then r\<lparr>rr_in := cs, rr_eof := True\<rparr>
          else r\<lparr>rr_in := cs, rr_buf := rr_buf r @ c\<rparr>)"

function relay_reader_line :: "relay_reader \<Rightarrow> string option \<times> relay_reader" where
  "relay_reader_line r =
     (if CHR 0x0A \<in> set (rr_buf r) then
        (Some (c_str (takeWhile (\<lambda>c. c \<noteq> CHR 0x0A) (rr_buf r))),
         r\<lparr>rr_buf := tl (dropWhile (\<lambda>c. c \<noteq> CHR 0x0A) (rr_buf r))\<rparr>)
      else if length (rr_buf r) > rr_max r then (None, r)
      else if rr_eof r then
        (if rr_buf r = [] then (None, r) else (Some (c_str (rr_buf r)), r\<lparr>rr_buf := []\<rparr>))
      else relay_reader_line (relay_reader_fill r))"
  by pat_completeness auto
termination
  by (relation "measure (\<lambda>r. length (rr_in r) + (if rr_eof r then 0 else 1))")
     (auto simp: relay_reader_fill_def split: list.splits)

declare relay_reader_line.simps [simp del]

record ostream =
  os_script :: "bool list"
  os_out :: "string list"

definition os_call :: "string list \<Rightarrow> ostream \<Rightarrow> bool \<times> ostream" where
  "os_call data os =
     (case os_script os of [] \<Rightarrow> (True, os\<lparr>os_out := os_out os @ data\<rparr>)
      | r # rs \<Rightarrow> (r, os\<lparr>os_script := rs, os_out := os_out os @ (if r then data else [])\<rparr>))"

definition relay_write :: "string \<Rightarrow> ostream \<Rightarrow> bool \<times> ostream" where
  "relay_write line os =
     (case os_call [c_str line] os of
        (False, os1) \<Rightarrow> (False, os1)
      | (True, os1) \<Rightarrow>
          (case os_call [[CHR 0x0A]] os1 of
             (False, os2) \<Rightarrow> (False, os2)
           | (True, os2) \<Rightarrow> os_call [] os2))"

section \<open>Answers made locally\<close>

definition json_id :: "json option \<Rightarrow> json" where
  "json_id i = (case i of None \<Rightarrow> JNull | Some v \<Rightarrow> v)"

definition deny_json :: "json option \<Rightarrow> int \<Rightarrow> string \<Rightarrow> json" where
  "deny_json i code message =
     JObject [(''jsonrpc'', JString ''2.0''), (''id'', json_id i),
       (''error'', JObject [(''code'', JInt code), (''message'', JString message)])]"

definition relay_deny_code ::
  "json_glib \<Rightarrow> ostream \<Rightarrow> json option \<Rightarrow> int \<Rightarrow> string \<Rightarrow> bool \<times> ostream" where
  "relay_deny_code J to_agent i code message =
     relay_write (jg_to_string J (deny_json i code message)) to_agent"

definition relay_deny :: "json_glib \<Rightarrow> ostream \<Rightarrow> json option \<Rightarrow> string \<Rightarrow> bool \<times> ostream" where
  "relay_deny J to_agent i message = relay_deny_code J to_agent i (-32601) message"

definition empty_list_json :: "json option \<Rightarrow> string \<Rightarrow> json" where
  "empty_list_json i member =
     JObject [(''jsonrpc'', JString ''2.0''), (''id'', json_id i),
       (''result'', JObject [(member, JArray [])])]"

definition relay_reply_empty_list ::
  "json_glib \<Rightarrow> ostream \<Rightarrow> json option \<Rightarrow> string \<Rightarrow> bool \<times> ostream" where
  "relay_reply_empty_list J to_agent i member =
     relay_write (jg_to_string J (empty_list_json i member)) to_agent"

section \<open>The context and the filters\<close>

record relay_ctx =
  rc_allowlist :: string
  rc_policy :: brigade_policy
  rc_from_cmacs :: relay_reader
  rc_to_cmacs :: ostream
  rc_to_agent :: ostream

definition relay_gate :: "registry \<Rightarrow> relay_ctx \<Rightarrow> string option \<Rightarrow> bool" where
  "relay_gate reg ctx name =
     tool_allowed_with_policy reg (Some (rc_allowlist ctx)) name (Some (rc_policy ctx))"

text \<open>The test the loop of \<^verbatim>\<open>relay_filter_tools_list\<close> applies to one element.\<close>

definition tool_kept :: "json_glib \<Rightarrow> registry \<Rightarrow> relay_ctx \<Rightarrow> json \<Rightarrow> bool" where
  "tool_kept J reg ctx el =
     (case el of
        JObject t \<Rightarrow>
          (case json_get_string_member_default_null J t ''name'' of
             None \<Rightarrow> False | Some name \<Rightarrow> relay_gate reg ctx (Some name))
      | _ \<Rightarrow> False)"

definition relay_filter_tools_list ::
  "json_glib \<Rightarrow> registry \<Rightarrow> json_object \<Rightarrow> relay_ctx \<Rightarrow> string option" where
  "relay_filter_tools_list J reg root ctx =
     (case map_of root ''result'' of None \<Rightarrow> None | Some rv \<Rightarrow>
      (case jg_object J rv of None \<Rightarrow> None | Some result \<Rightarrow>
      (case map_of result ''tools'' of None \<Rightarrow> None | Some tv \<Rightarrow>
      (case jg_array J tv of None \<Rightarrow> None | Some tools \<Rightarrow>
         let kept = filter (tool_kept J reg ctx) tools;
             result' = json_object_set_member ''tools'' (JArray kept) result
         in Some (jg_to_string J
              (JObject (json_object_set_member ''result'' (JObject result') root)))))))"

definition relay_pseudo_allowed :: "registry \<Rightarrow> relay_ctx \<Rightarrow> string \<Rightarrow> bool" where
  "relay_pseudo_allowed reg ctx name = relay_gate reg ctx (Some name)"

abbreviation PSEUDO_RESOURCES :: string where "PSEUDO_RESOURCES \<equiv> ''resources''"
abbreviation PSEUDO_PROMPTS :: string where "PSEUDO_PROMPTS \<equiv> ''prompts''"

definition set_to_agent :: "relay_ctx \<Rightarrow> bool \<times> ostream \<Rightarrow> bool \<times> relay_ctx" where
  "set_to_agent ctx res = (fst res, ctx\<lparr>rc_to_agent := snd res\<rparr>)"

definition set_to_cmacs :: "relay_ctx \<Rightarrow> bool \<times> ostream \<Rightarrow> bool \<times> relay_ctx" where
  "set_to_cmacs ctx res = (fst res, ctx\<lparr>rc_to_cmacs := snd res\<rparr>)"

text \<open>The name a \<^verbatim>\<open>tools/call\<close> request carries, if it carries one.\<close>

definition call_name :: "json_glib \<Rightarrow> json_object \<Rightarrow> string option" where
  "call_name J root =
     (case map_of root ''params'' of
        Some (JObject params) \<Rightarrow> json_get_string_member_default_null J params ''name''
      | _ \<Rightarrow> None)"

definition relay_from_agent ::
  "json_glib \<Rightarrow> registry \<Rightarrow> relay_ctx \<Rightarrow> string \<Rightarrow> bool \<times> relay_ctx" where
  "relay_from_agent J reg ctx line =
     (if line = [] then (True, ctx)
      else case jg_load J line of
        None \<Rightarrow> set_to_agent ctx
          (relay_deny_code J (rc_to_agent ctx) None (-32700) ''Parse error'')
      | Some (Some (JObject root)) \<Rightarrow>
          (let meth = json_get_string_member_default_null J root ''method'';
               i = map_of root ''id'';
               forward = set_to_cmacs ctx (relay_write line (rc_to_cmacs ctx));
               deny = (\<lambda>m. set_to_agent ctx (relay_deny J (rc_to_agent ctx) i m));
               empty = (\<lambda>m. set_to_agent ctx (relay_reply_empty_list J (rc_to_agent ctx) i m))
           in if meth = Some ''tools/call'' then
                (case call_name J root of
                   None \<Rightarrow> deny ''Unknown tool: (unnamed)''
                 | Some name \<Rightarrow>
                     if relay_gate reg ctx (Some name) then forward
                     else deny (''Unknown tool: '' @ name))
              else if meth = Some ''resources/read'' \<or> meth = Some ''resources/subscribe''
                   \<or> meth = Some ''resources/unsubscribe'' then
                (if relay_pseudo_allowed reg ctx PSEUDO_RESOURCES then forward
                 else deny ''Unknown resource'')
              else if meth = Some ''resources/list'' then
                (if relay_pseudo_allowed reg ctx PSEUDO_RESOURCES then forward
                 else empty ''resources'')
              else if meth = Some ''resources/templates/list'' then
                (if relay_pseudo_allowed reg ctx PSEUDO_RESOURCES then forward
                 else empty ''resourceTemplates'')
              else if meth = Some ''prompts/get'' then
                (if relay_pseudo_allowed reg ctx PSEUDO_PROMPTS then forward
                 else deny ''Unknown prompt'')
              else if meth = Some ''prompts/list'' then
                (if relay_pseudo_allowed reg ctx PSEUDO_PROMPTS then forward
                 else empty ''prompts'')
              else forward)
      | _ \<Rightarrow> set_to_agent ctx
          (relay_deny_code J (rc_to_agent ctx) None (-32600)
             ''Invalid Request: the relay accepts one JSON-RPC object per line''))"

definition relay_from_cmacs ::
  "json_glib \<Rightarrow> registry \<Rightarrow> relay_ctx \<Rightarrow> string \<Rightarrow> bool \<times> relay_ctx" where
  "relay_from_cmacs J reg ctx line =
     (case jg_load J line of
        Some (Some (JObject root)) \<Rightarrow>
          (case relay_filter_tools_list J reg root ctx of
             None \<Rightarrow> set_to_agent ctx (relay_write line (rc_to_agent ctx))
           | Some filtered \<Rightarrow> set_to_agent ctx (relay_write filtered (rc_to_agent ctx)))
      | _ \<Rightarrow> set_to_agent ctx (relay_write line (rc_to_agent ctx)))"

section \<open>The pumps and the entry points\<close>

definition rr_pending :: "relay_reader \<Rightarrow> nat" where
  "rr_pending r = length (rr_buf r) + sum_list (map length (rr_in r))"

lemma rr_pending_fill: "rr_pending (relay_reader_fill r) = rr_pending r"
  by (auto simp: rr_pending_def relay_reader_fill_def split: list.splits)

lemma relay_reader_line_pending:
  "relay_reader_line r = (Some l, r') \<Longrightarrow> rr_pending r' < rr_pending r"
proof (induction r arbitrary: l r' rule: relay_reader_line.induct)
  case (1 r)
  have nl: "length (tl (dropWhile (\<lambda>c. c \<noteq> CHR 0x0A) (rr_buf r))) < length (rr_buf r)"
    if "CHR 0x0A \<in> set (rr_buf r)"
  proof -
    have "dropWhile (\<lambda>c. c \<noteq> CHR 0x0A) (rr_buf r) \<noteq> []"
      using that by (auto simp: dropWhile_eq_Nil_conv)
    then have "length (tl (dropWhile (\<lambda>c. c \<noteq> CHR 0x0A) (rr_buf r))) <
        length (dropWhile (\<lambda>c. c \<noteq> CHR 0x0A) (rr_buf r))"
      by (cases "dropWhile (\<lambda>c. c \<noteq> CHR 0x0A) (rr_buf r)") auto
    also have "\<dots> \<le> length (rr_buf r)" by (rule length_dropWhile_le)
    finally show ?thesis .
  qed
  show ?case
  proof (cases "CHR 0x0A \<in> set (rr_buf r) \<or> length (rr_buf r) > rr_max r \<or> rr_eof r")
    case True
    with "1.prems" nl show ?thesis
      by (subst (asm) relay_reader_line.simps) (auto simp: rr_pending_def split: if_splits)
  next
    case False
    then have "relay_reader_line r = relay_reader_line (relay_reader_fill r)"
      by (subst relay_reader_line.simps) auto
    with False "1.IH" [of l r'] "1.prems" show ?thesis by (simp add: rr_pending_fill)
  qed
qed

lemma relay_from_cmacs_reader:
  "relay_from_cmacs J reg ctx line = (ok, ctx') \<Longrightarrow> rc_from_cmacs ctx' = rc_from_cmacs ctx"
  by (auto simp: relay_from_cmacs_def set_to_agent_def split: option.splits json.splits)

text \<open>
  \<^verbatim>\<open>relay_downstream\<close>: pump editor to agent until the editor closes, a line passes the cap or the
  agent is gone. The upstream loop of \<^verbatim>\<open>cmacs_brigade_relay_main\<close> is the same over the agent's
  reader.
\<close>

function relay_downstream :: "json_glib \<Rightarrow> registry \<Rightarrow> relay_ctx \<Rightarrow> relay_ctx" where
  "relay_downstream J reg ctx =
     (case relay_reader_line (rc_from_cmacs ctx) of
        (None, r) \<Rightarrow> ctx\<lparr>rc_from_cmacs := r\<rparr>
      | (Some line, r) \<Rightarrow>
          (case relay_from_cmacs J reg (ctx\<lparr>rc_from_cmacs := r\<rparr>) line of
             (False, ctx') \<Rightarrow> ctx'
           | (True, ctx') \<Rightarrow> relay_downstream J reg ctx'))"
  by pat_completeness auto
termination
  by (relation "measure (\<lambda>(J, reg, ctx). rr_pending (rc_from_cmacs ctx))")
     (auto dest!: relay_reader_line_pending [OF sym] relay_from_cmacs_reader [OF sym])

declare relay_downstream.simps [simp del]

function relay_upstream ::
  "json_glib \<Rightarrow> registry \<Rightarrow> relay_ctx \<Rightarrow> relay_reader \<Rightarrow> relay_ctx" where
  "relay_upstream J reg ctx from_agent =
     (case relay_reader_line from_agent of
        (None, r) \<Rightarrow> ctx
      | (Some line, r) \<Rightarrow>
          (case relay_from_agent J reg ctx line of
             (False, ctx') \<Rightarrow> ctx'
           | (True, ctx') \<Rightarrow> relay_upstream J reg ctx' r))"
  by pat_completeness auto
termination
  by (relation "measure (\<lambda>(J, reg, ctx, r). rr_pending r)")
     (auto dest: relay_reader_line_pending [OF sym])

declare relay_upstream.simps [simp del]

datatype relay_exit = Exit int | Session relay_ctx

text \<open>
  \<^verbatim>\<open>cmacs_brigade_relay_main\<close> up to the point where the agent is gone: the environment is read,
  the socket is reached or not (\<open>connect\<close> gives the chunks it will deliver), and the upstream
  loop runs. The process has no registry.
\<close>

definition relay_main ::
  "json_glib \<Rightarrow> environ \<Rightarrow> (string \<Rightarrow> string list option) \<Rightarrow> bool list \<Rightarrow> bool list \<Rightarrow> string list
     \<Rightarrow> relay_exit" where
  "relay_main J env connect script_cmacs script_agent stdin_chunks =
     (case env ''CMACS_BRIGADE_SOCKET'' of
        None \<Rightarrow> Exit 2
      | Some sock \<Rightarrow>
          if sock = [] then Exit 2
          else
            (let allow = (case env ''CMACS_BRIGADE_ALLOW'' of None \<Rightarrow> [] | Some a \<Rightarrow> a)
             in case connect sock of
                  None \<Rightarrow> Exit 3
                | Some chunks \<Rightarrow>
                    Session (relay_upstream J registry_init
                      \<lparr>rc_allowlist = allow, rc_policy = policy_from_env env,
                       rc_from_cmacs = relay_reader_init chunks RELAY_MAX_LINE,
                       rc_to_cmacs = \<lparr>os_script = script_cmacs, os_out = []\<rparr>,
                       rc_to_agent = \<lparr>os_script = script_agent, os_out = []\<rparr>\<rparr>
                      (relay_reader_init stdin_chunks RELAY_MAX_LINE))))"

text \<open>The scan of \<^verbatim>\<open>argv\<close> in \<^verbatim>\<open>cmacs_brigade_relay_maybe_main\<close>, \<^verbatim>\<open>argv[0]\<close> left out.\<close>

fun relay_requested :: "string list \<Rightarrow> bool" where
  "relay_requested [] = False"
| "relay_requested (a # as) =
     (if a = ''--mcp-relay'' then True else if a = ''--'' then False else relay_requested as)"

section \<open>What a request may need\<close>

text \<open>
  The policy of the relay in one table: a tool call needs the tool, the resource and prompt
  methods need their pseudo tool, everything else needs nothing.
\<close>

definition request_permitted :: "json_glib \<Rightarrow> registry \<Rightarrow> relay_ctx \<Rightarrow> json_object \<Rightarrow> bool" where
  "request_permitted J reg ctx root =
     (case json_get_string_member_default_null J root ''method'' of
        None \<Rightarrow> True
      | Some m \<Rightarrow>
          if m = ''tools/call'' then relay_gate reg ctx (call_name J root)
          else if m \<in> {''resources/read'', ''resources/subscribe'', ''resources/unsubscribe'',
                     ''resources/list'', ''resources/templates/list''}
          then relay_gate reg ctx (Some PSEUDO_RESOURCES)
          else if m \<in> {''prompts/get'', ''prompts/list''}
          then relay_gate reg ctx (Some PSEUDO_PROMPTS)
          else True)"

text \<open>The answer a refused request gets.\<close>

definition refusal :: "json_glib \<Rightarrow> json_object \<Rightarrow> json" where
  "refusal J root =
     (let m = json_get_string_member_default_null J root ''method''; i = map_of root ''id'' in
      if m = Some ''tools/call'' then
        deny_json i (-32601) (''Unknown tool: '' @
          (case call_name J root of None \<Rightarrow> ''(unnamed)'' | Some n \<Rightarrow> n))
      else if m = Some ''resources/list'' then empty_list_json i ''resources''
      else if m = Some ''resources/templates/list'' then empty_list_json i ''resourceTemplates''
      else if m = Some ''prompts/list'' then empty_list_json i ''prompts''
      else if m = Some ''prompts/get'' then deny_json i (-32601) ''Unknown prompt''
      else deny_json i (-32601) ''Unknown resource'')"

lemma relay_gate_None [simp]: "\<not> relay_gate reg ctx None"
  by (simp add: relay_gate_def tool_allowed_with_policy_def)

lemma relay_from_agent_object:
  assumes "line \<noteq> []" and "jg_load J line = Some (Some (JObject root))"
  shows "relay_from_agent J reg ctx line =
    (if request_permitted J reg ctx root
     then set_to_cmacs ctx (relay_write line (rc_to_cmacs ctx))
     else set_to_agent ctx (relay_write (jg_to_string J (refusal J root)) (rc_to_agent ctx)))"
proof (cases "json_get_string_member_default_null J root ''method''")
  case None
  with assms show ?thesis
    by (simp add: relay_from_agent_def request_permitted_def Let_def)
next
  case (Some m)
  show ?thesis
  proof (cases "m = ''tools/call''")
    case True
    with assms Some show ?thesis
      by (simp add: relay_from_agent_def request_permitted_def refusal_def Let_def relay_deny_def
          relay_deny_code_def split: option.splits)
  next
    case False
    with assms Some show ?thesis
      by (auto simp: relay_from_agent_def request_permitted_def refusal_def Let_def relay_deny_def
          relay_deny_code_def relay_reply_empty_list_def relay_pseudo_allowed_def)
  qed
qed

lemma relay_from_agent_other:
  assumes "line \<noteq> []" and "\<And>root. jg_load J line \<noteq> Some (Some (JObject root))"
  shows "rc_to_cmacs (snd (relay_from_agent J reg ctx line)) = rc_to_cmacs ctx"
  using assms
  by (auto simp: relay_from_agent_def set_to_agent_def split: option.splits json.splits)

lemma os_call_out: "os_call d os = (ok, os') \<Longrightarrow> \<exists>e. os_out os' = os_out os @ e \<and> prefix e d"
  by (auto simp: os_call_def split: list.splits if_splits)

lemma relay_write_out:
  "relay_write l os = (ok, os') \<Longrightarrow> \<exists>e. os_out os' = os_out os @ e \<and> prefix e [c_str l, [CHR 0x0A]]"
  by (auto simp: relay_write_def os_call_def prefix_def split: list.splits if_splits bool.splits prod.splits)

lemma relay_write_ok:
  "os_script os = [] \<Longrightarrow> relay_write l os = (True, os\<lparr>os_out := os_out os @ [c_str l, [CHR 0x0A]]\<rparr>)"
  by (simp add: relay_write_def os_call_def)

lemma relay_from_agent_mediated:
  assumes "relay_from_agent J reg ctx line = (ok, ctx')"
  shows "os_out (rc_to_cmacs ctx') = os_out (rc_to_cmacs ctx) \<or>
    (\<exists>root e. jg_load J line = Some (Some (JObject root)) \<and> request_permitted J reg ctx root \<and>
       rc_to_agent ctx' = rc_to_agent ctx \<and>
       os_out (rc_to_cmacs ctx') = os_out (rc_to_cmacs ctx) @ e \<and> prefix e [c_str line, [CHR 0x0A]])"
proof (cases "\<exists>root. line \<noteq> [] \<and> jg_load J line = Some (Some (JObject root))")
  case True
  then obtain root where r: "line \<noteq> []" "jg_load J line = Some (Some (JObject root))" by blast
  show ?thesis
  proof (cases "request_permitted J reg ctx root")
    case True
    obtain b os where w: "relay_write line (rc_to_cmacs ctx) = (b, os)" by fastforce
    with assms True relay_from_agent_object [OF r] have "ctx' = ctx\<lparr>rc_to_cmacs := os\<rparr>"
      by (simp add: set_to_cmacs_def)
    with relay_write_out [OF w] True r show ?thesis by auto
  next
    case False
    with assms relay_from_agent_object [OF r] show ?thesis by (auto simp: set_to_agent_def)
  qed
next
  case False
  show ?thesis
  proof (cases "line = []")
    case True
    with assms show ?thesis by (simp add: relay_from_agent_def)
  next
    case False
    with \<open>\<not> (\<exists>root. _)\<close> have "rc_to_cmacs ctx' = rc_to_cmacs ctx"
      using relay_from_agent_other [of line J reg ctx] assms by simp
    then show ?thesis by simp
  qed
qed

lemma relay_from_agent_frame:
  assumes "relay_from_agent J reg ctx line = (ok, ctx')"
  shows "rc_allowlist ctx' = rc_allowlist ctx" and "rc_policy ctx' = rc_policy ctx"
  using assms
  by (auto simp: relay_from_agent_def set_to_agent_def set_to_cmacs_def Let_def
      split: option.splits json.splits if_splits)

lemma request_permitted_cong:
  "rc_allowlist ctx' = rc_allowlist ctx \<Longrightarrow> rc_policy ctx' = rc_policy ctx \<Longrightarrow>
     request_permitted J reg ctx' root = request_permitted J reg ctx root"
proof -
  assume "rc_allowlist ctx' = rc_allowlist ctx" "rc_policy ctx' = rc_policy ctx"
  then have "relay_gate reg ctx' = relay_gate reg ctx" by (simp add: relay_gate_def fun_eq_iff)
  then show ?thesis by (simp only: request_permitted_def)
qed

lemma relay_reader_line_no_NUL: "relay_reader_line r = (Some l, r') \<Longrightarrow> NUL \<notin> set l"
proof (induction r arbitrary: l r' rule: relay_reader_line.induct)
  case (1 r)
  show ?case
    using "1.prems" "1.IH"
    by (subst (asm) relay_reader_line.simps) (auto split: if_splits)
qed

text \<open>The invariant of a session: all that went to the editor are permitted requests and newlines.\<close>

definition sent_permitted :: "json_glib \<Rightarrow> registry \<Rightarrow> relay_ctx \<Rightarrow> bool" where
  "sent_permitted J reg ctx \<longleftrightarrow>
     (\<forall>x \<in> set (os_out (rc_to_cmacs ctx)). x = [CHR 0x0A] \<or>
        (\<exists>root. jg_load J x = Some (Some (JObject root)) \<and> request_permitted J reg ctx root))"

lemma sent_permitted_step [inv_intros]:
  assumes "sent_permitted J reg ctx" and "relay_from_agent J reg ctx line = (ok, ctx')"
    and "NUL \<notin> set line"
  shows "sent_permitted J reg ctx'"
proof -
  have cong: "request_permitted J reg ctx' root = request_permitted J reg ctx root" for root
    using relay_from_agent_frame [OF assms(2)] by (rule request_permitted_cong)
  from relay_from_agent_mediated [OF assms(2)] show ?thesis
  proof (elim disjE exE conjE)
    assume "os_out (rc_to_cmacs ctx') = os_out (rc_to_cmacs ctx)"
    with assms(1) show ?thesis by (simp add: sent_permitted_def cong)
  next
    fix root e
    assume r: "jg_load J line = Some (Some (JObject root))" "request_permitted J reg ctx root"
      and o: "os_out (rc_to_cmacs ctx') = os_out (rc_to_cmacs ctx) @ e"
      and "prefix e [c_str line, [CHR 0x0A]]"
    then have "set e \<subseteq> {line, [CHR 0x0A]}"
      using assms(3) set_mono_prefix by fastforce
    with r have "\<forall>x \<in> set e. x = [CHR 0x0A] \<or>
        (\<exists>root. jg_load J x = Some (Some (JObject root)) \<and> request_permitted J reg ctx root)"
      by blast
    with assms(1) o show ?thesis unfolding sent_permitted_def cong by (metis Un_iff set_append)
  qed
qed

lemma sent_permitted_upstream:
  "sent_permitted J reg ctx \<Longrightarrow>
     sent_permitted J reg (relay_upstream J reg ctx r) \<and>
     rc_allowlist (relay_upstream J reg ctx r) = rc_allowlist ctx \<and>
     rc_policy (relay_upstream J reg ctx r) = rc_policy ctx"
proof (induction J reg ctx r rule: relay_upstream.induct)
  case (1 J reg ctx r)
  obtain l r' where l: "relay_reader_line r = (l, r')" by fastforce
  show ?case
  proof (cases l)
    case None
    with 1 l show ?thesis by (simp add: relay_upstream.simps [of J reg ctx r])
  next
    case (Some line)
    obtain ok ctx' where c: "relay_from_agent J reg ctx line = (ok, ctx')" by fastforce
    have n: "NUL \<notin> set line" using l Some relay_reader_line_no_NUL by blast
    have s: "sent_permitted J reg ctx'" using "1.prems" c n by (rule sent_permitted_step)
    show ?thesis
      using "1.IH" [OF l [symmetric] Some c [symmetric]] s relay_from_agent_frame [OF c] l Some c
      by (cases ok) (auto simp: relay_upstream.simps [of J reg ctx r])
  qed
qed

section \<open>Reading lines\<close>

definition text_lines :: "string \<Rightarrow> string list" where
  "text_lines s = (let fs = split_on CHR 0x0A s in if last fs = [] then butlast fs else fs)"

text \<open>Every line a reader hands out until it stops.\<close>

function relay_reader_all :: "relay_reader \<Rightarrow> string list" where
  "relay_reader_all r =
     (case relay_reader_line r of (None, r') \<Rightarrow> [] | (Some l, r') \<Rightarrow> l # relay_reader_all r')"
  by pat_completeness auto
termination
  by (relation "measure rr_pending") (auto dest: relay_reader_line_pending [OF sym])

declare relay_reader_all.simps [simp del]

definition rr_rest :: "relay_reader \<Rightarrow> string" where
  "rr_rest r = rr_buf r @ (if rr_eof r then [] else concat (rr_in r))"

lemma text_lines_Nil [simp]: "text_lines [] = []"
  by (simp add: text_lines_def)

lemma text_lines_no_newline: "CHR 0x0A \<notin> set s \<Longrightarrow> s \<noteq> [] \<Longrightarrow> text_lines s = [s]"
  by (simp add: text_lines_def split_on_no_delim)

lemma text_lines_newline: "CHR 0x0A \<notin> set s \<Longrightarrow> text_lines (s @ CHR 0x0A # t) = s # text_lines t"
  by (simp add: text_lines_def split_on_append Let_def)

lemma split_at_newline:
  assumes "CHR 0x0A \<in> set s"
  shows "s = takeWhile (\<lambda>c. c \<noteq> CHR 0x0A) s @ CHR 0x0A # tl (dropWhile (\<lambda>c. c \<noteq> CHR 0x0A) s)"
proof -
  have ne: "dropWhile (\<lambda>c. c \<noteq> CHR 0x0A) s \<noteq> []" using assms by (auto simp: dropWhile_eq_Nil_conv)
  then have "hd (dropWhile (\<lambda>c. c \<noteq> CHR 0x0A) s) = CHR 0x0A"
    using hd_dropWhile [OF ne] by simp
  with ne have "dropWhile (\<lambda>c. c \<noteq> CHR 0x0A) s = CHR 0x0A # tl (dropWhile (\<lambda>c. c \<noteq> CHR 0x0A) s)"
    by (cases "dropWhile (\<lambda>c. c \<noteq> CHR 0x0A) s") auto
  then show ?thesis by (metis takeWhile_dropWhile_id)
qed

lemma takeWhile_no_newline: "CHR 0x0A \<notin> set (takeWhile (\<lambda>c. c \<noteq> CHR 0x0A) s)"
  by (auto dest: set_takeWhileD)

lemma rr_rest_fill:
  "\<not> rr_eof r \<Longrightarrow> [] \<notin> set (rr_in r) \<Longrightarrow> rr_rest (relay_reader_fill r) = rr_rest r"
  by (auto simp: rr_rest_def relay_reader_fill_def split: list.splits)

lemma rr_fill_fields [simp]: "rr_max (relay_reader_fill r) = rr_max r"
  by (auto simp: relay_reader_fill_def split: list.splits)

lemma rr_fill_in: "set (rr_in (relay_reader_fill r)) \<subseteq> set (rr_in r)"
  by (auto simp: relay_reader_fill_def split: list.splits)

lemma length_rr_buf_rest: "length (rr_buf r) \<le> length (rr_rest r)"
  by (simp add: rr_rest_def)

text \<open>
  While the cap is out of reach, one call takes the first line off the text still to come,
  wherever the chunk boundaries fall.
\<close>

lemma relay_reader_line_text:
  assumes "length (rr_rest r) \<le> rr_max r" and "[] \<notin> set (rr_in r)"
  shows "(case relay_reader_line r of
      (None, r') \<Rightarrow> rr_rest r = []
    | (Some l, r') \<Rightarrow> text_lines (rr_rest r) \<noteq> [] \<and> l = c_str (hd (text_lines (rr_rest r))) \<and>
        text_lines (rr_rest r') = tl (text_lines (rr_rest r)) \<and>
        length (rr_rest r') \<le> rr_max r' \<and> [] \<notin> set (rr_in r'))"
  using assms
proof (induction r rule: relay_reader_line.induct)
  case (1 r)
  consider (nl) "CHR 0x0A \<in> set (rr_buf r)" | (eof) "CHR 0x0A \<notin> set (rr_buf r)" "rr_eof r"
    | (more) "CHR 0x0A \<notin> set (rr_buf r)" "\<not> rr_eof r" by blast
  then show ?case
  proof cases
    case nl
    let ?r = "r\<lparr>rr_buf := tl (dropWhile (\<lambda>c. c \<noteq> CHR 0x0A) (rr_buf r))\<rparr>"
    have rest: "rr_rest r = takeWhile (\<lambda>c. c \<noteq> CHR 0x0A) (rr_buf r) @ CHR 0x0A # rr_rest ?r"
      using split_at_newline [OF nl] by (simp add: rr_rest_def)
    have "length (rr_rest ?r) \<le> rr_max r"
      using rest "1.prems"(1) by simp
    with nl rest "1.prems" show ?thesis
      by (simp add: relay_reader_line.simps [of r] text_lines_newline [OF takeWhile_no_newline])
  next
    case eof
    with "1.prems" length_rr_buf_rest [of r] show ?thesis
      by (auto simp: relay_reader_line.simps [of r] rr_rest_def text_lines_no_newline)
  next
    case more
    have cap: "\<not> length (rr_buf r) > rr_max r"
      using "1.prems"(1) length_rr_buf_rest [of r] by simp
    have eq: "relay_reader_line r = relay_reader_line (relay_reader_fill r)"
      using more cap by (subst relay_reader_line.simps) simp
    have rest: "rr_rest (relay_reader_fill r) = rr_rest r"
      using more(2) "1.prems"(2) by (rule rr_rest_fill)
    have "[] \<notin> set (rr_in (relay_reader_fill r))" using "1.prems"(2) rr_fill_in [of r] by blast
    then show ?thesis
      unfolding eq
      by (rule "1.IH" [OF more(1) cap more(2), unfolded rest rr_fill_fields, OF "1.prems"(1)])
  qed
qed

lemma relay_reader_all_text:
  assumes "length (rr_rest r) \<le> rr_max r" and "[] \<notin> set (rr_in r)"
  shows "relay_reader_all r = map c_str (text_lines (rr_rest r))"
  using assms
proof (induction r rule: relay_reader_all.induct)
  case (1 r)
  obtain l r' where l: "relay_reader_line r = (l, r')" by fastforce
  show ?case
  proof (cases l)
    case None
    with relay_reader_line_text [OF "1.prems"] l show ?thesis
      by (simp add: relay_reader_all.simps [of r])
  next
    case (Some line)
    with relay_reader_line_text [OF "1.prems"] l
    have *: "text_lines (rr_rest r) \<noteq> []" "line = c_str (hd (text_lines (rr_rest r)))"
      "text_lines (rr_rest r') = tl (text_lines (rr_rest r))"
      "length (rr_rest r') \<le> rr_max r'" "[] \<notin> set (rr_in r')"
      by auto
    with "1.IH" [OF l [symmetric] Some] l Some show ?thesis
      by (cases "text_lines (rr_rest r)") (auto simp: relay_reader_all.simps [of r])
  qed
qed

text \<open>A reader never holds more than the cap and one read on top of it.\<close>

definition rr_bounded :: "relay_reader \<Rightarrow> bool" where
  "rr_bounded r \<longleftrightarrow> length (rr_buf r) \<le> rr_max r + RELAY_CHUNK \<and>
     list_all (\<lambda>c. length c \<le> RELAY_CHUNK) (rr_in r)"

lemma rr_bounded_fill [inv_intros]:
  "rr_bounded r \<Longrightarrow> length (rr_buf r) \<le> rr_max r \<Longrightarrow> rr_bounded (relay_reader_fill r)"
  by (auto simp: rr_bounded_def relay_reader_fill_def split: list.splits)

lemma length_tl_dropWhile: "length (tl (dropWhile P s)) \<le> length s"
  by (metis diff_le_self le_trans length_dropWhile_le length_tl)

lemma relay_reader_line_bounded:
  assumes "rr_bounded r" and "relay_reader_line r = (l, r')"
  shows "rr_bounded r' \<and> rr_max r' = rr_max r \<and>
    (case l of None \<Rightarrow> True | Some s \<Rightarrow> length s \<le> rr_max r + RELAY_CHUNK)"
  using assms
proof (induction r arbitrary: l r' rule: relay_reader_line.induct)
  case (1 r)
  show ?case
  proof (cases "CHR 0x0A \<in> set (rr_buf r) \<or> length (rr_buf r) > rr_max r \<or> rr_eof r")
    case True
    have b: "length (rr_buf r) \<le> rr_max r + RELAY_CHUNK" using "1.prems"(1) by (simp add: rr_bounded_def)
    have "length (c_str (takeWhile (\<lambda>c. c \<noteq> CHR 0x0A) (rr_buf r))) \<le> rr_max r + RELAY_CHUNK"
      by (rule order_trans [OF length_c_str order_trans [OF length_takeWhile_le b]])
    moreover have "length (c_str (rr_buf r)) \<le> rr_max r + RELAY_CHUNK"
      by (rule order_trans [OF length_c_str b])
    moreover have "length (tl (dropWhile (\<lambda>c. c \<noteq> CHR 0x0A) (rr_buf r))) \<le> rr_max r + RELAY_CHUNK"
      by (rule order_trans [OF length_tl_dropWhile b])
    ultimately show ?thesis
      using True "1.prems"(1) "1.prems"(2) [unfolded relay_reader_line.simps [of r]]
      by (auto simp: rr_bounded_def split: if_splits)
  next
    case False
    then have "relay_reader_line (relay_reader_fill r) = (l, r')"
      using "1.prems"(2) [unfolded relay_reader_line.simps [of r]] by simp
    moreover have "rr_bounded (relay_reader_fill r)"
      using False "1.prems"(1) by (intro rr_bounded_fill) auto
    ultimately show ?thesis
      using False "1.IH" [of l r', unfolded rr_fill_fields] by simp
  qed
qed

lemma relay_reader_all_bounded:
  "rr_bounded r \<Longrightarrow> list_all (\<lambda>s. length s \<le> rr_max r + RELAY_CHUNK) (relay_reader_all r)"
proof (induction r rule: relay_reader_all.induct)
  case (1 r)
  obtain l r' where l: "relay_reader_line r = (l, r')" by fastforce
  show ?case
  proof (cases l)
    case None
    with l show ?thesis by (simp add: relay_reader_all.simps [of r])
  next
    case (Some line)
    with relay_reader_line_bounded [OF "1.prems" l]
    have b: "rr_bounded r'" "rr_max r' = rr_max r" "length line \<le> rr_max r + RELAY_CHUNK" by auto
    with "1.IH" [OF l [symmetric] Some b(1)] l Some show ?thesis
      by (simp add: relay_reader_all.simps [of r])
  qed
qed

section \<open>Well-formed answers\<close>

lemma json_wf_member: "json_wf (JObject obj) \<Longrightarrow> map_of obj k = Some v \<Longrightarrow> str_ok k \<and> json_wf v"
  by (auto simp: list_all_iff dest!: map_of_SomeD)

lemma json_wf_deny:
  "json_wf (json_id i) \<Longrightarrow> gint64_range code \<Longrightarrow> str_ok m \<Longrightarrow> json_wf (deny_json i code m)"
  by (simp add: deny_json_def str_ok_ascii ascii_text_def)

lemma json_wf_empty_list: "json_wf (json_id i) \<Longrightarrow> str_ok m \<Longrightarrow> json_wf (empty_list_json i m)"
  by (simp add: empty_list_json_def str_ok_ascii ascii_text_def)

lemma json_wf_refusal:
  assumes i: "json_wf (json_id (map_of root ''id''))" and n: "pred_option str_ok (call_name J root)"
  shows "json_wf (refusal J root)"
proof -
  have c: "gint64_range (-32601)" by (simp add: gint64_range_def)
  have t: "str_ok (''Unknown tool: '' @ (case call_name J root of None \<Rightarrow> ''(unnamed)'' | Some n \<Rightarrow> n))"
    by (rule str_ok_append) (use n in \<open>auto simp: ascii_text_def str_ok_ascii split: option.splits\<close>)
  show ?thesis
    unfolding refusal_def Let_def if_split
    by (intro conjI impI json_wf_deny [OF i c t])
       (intro json_wf_deny json_wf_empty_list i c str_ok_ascii; simp add: ascii_text_def)+
qed

lemma refusal_id:
  "\<exists>obj. refusal J root = JObject obj \<and> map_of obj ''id'' = Some (json_id (map_of root ''id''))"
  by (auto simp: refusal_def deny_json_def empty_list_json_def Let_def)

section \<open>Properties\<close>

text \<open>
  Property (C1). Complete mediation of a session. Whatever the agent writes on its standard
  input, in whatever chunks it arrives and whichever of the writes fail, every line
  \<^verbatim>\<open>cmacs_brigade_relay_main\<close> sends to the editor is one JSON object that the allowlist and the
  policy of the environment permit; neither changes while the session runs.
\<close>

theorem relay_session_mediated:
  assumes "relay_main J env connect sc sa chunks = Session ctx"
  shows "rc_allowlist ctx = (case env ''CMACS_BRIGADE_ALLOW'' of None \<Rightarrow> [] | Some a \<Rightarrow> a) \<and>
    rc_policy ctx = policy_from_env env \<and>
    (\<forall>x \<in> set (os_out (rc_to_cmacs ctx)). x = [CHR 0x0A] \<or>
       (\<exists>root. jg_load J x = Some (Some (JObject root)) \<and>
          request_permitted J registry_init ctx root))"
proof -
  obtain c0 r where c: "ctx = relay_upstream J registry_init c0 r"
      and c0: "rc_allowlist c0 = (case env ''CMACS_BRIGADE_ALLOW'' of None \<Rightarrow> [] | Some a \<Rightarrow> a)"
        "rc_policy c0 = policy_from_env env" "os_out (rc_to_cmacs c0) = []"
    using assms by (auto simp: relay_main_def Let_def split: option.splits if_splits)
  have "sent_permitted J registry_init c0" using c0(3) by (simp add: sent_permitted_def)
  from sent_permitted_upstream [OF this, of r] c0(1,2) show ?thesis
    unfolding c [symmetric] sent_permitted_def by simp
qed

definition relay_demo_request :: "string \<Rightarrow> json_object" where
  "relay_demo_request tool =
     [(''jsonrpc'', JString ''2.0''), (''id'', JInt 7), (''method'', JString ''tools/call''),
      (''params'', JObject [(''name'', JString tool)])]"

definition relay_demo_env :: environ where
  "relay_demo_env = (\<lambda>v. if v = ''CMACS_BRIGADE_SOCKET'' then Some ''/run/cmacs.sock''
     else if v = ''CMACS_BRIGADE_ALLOW'' then Some ''memory_search'' else None)"

definition relay_demo_ctx :: relay_ctx where
  "relay_demo_ctx = \<lparr>rc_allowlist = ''memory_search'', rc_policy = policy_from_env relay_demo_env,
     rc_from_cmacs = relay_reader_init [] 100,
     rc_to_cmacs = \<lparr>os_script = [], os_out = []\<rparr>, rc_to_agent = \<lparr>os_script = [], os_out = []\<rparr>\<rparr>"

lemma relay_upstream_one_line:
  assumes "line \<noteq> []" "NUL \<notin> set line" "CHR 0x0A \<notin> set line" "Suc (length line) \<le> cap"
    and "jg_load J line = Some (Some (JObject root))" "request_permitted J reg ctx root"
    and "os_script (rc_to_cmacs ctx) = []"
  shows "os_out (rc_to_cmacs (relay_upstream J reg ctx (relay_reader_init [line @ [CHR 0x0A]] cap))) =
    os_out (rc_to_cmacs ctx) @ [line, [CHR 0x0A]]"
proof -
  let ?r = "relay_reader_init [line @ [CHR 0x0A]] cap"
  have rest: "rr_rest ?r = line @ [CHR 0x0A]" "rr_max ?r = cap" "rr_in ?r = [line @ [CHR 0x0A]]"
    by (simp_all add: rr_rest_def relay_reader_init_def)
  have tl: "text_lines (line @ [CHR 0x0A]) = [line]"
    using text_lines_newline [OF assms(3), of "[]"] by simp
  obtain l r' where l: "relay_reader_line ?r = (l, r')" by fastforce
  with relay_reader_line_text [of ?r] assms(2,4) rest tl
  have l': "l = Some line" "text_lines (rr_rest r') = []" "length (rr_rest r') \<le> rr_max r'"
      "[] \<notin> set (rr_in r')"
    by (auto split: option.splits)
  obtain r'' where e: "relay_reader_line r' = (None, r'')"
    using relay_reader_line_text [OF l'(3,4)] l'(2)
    by (cases "relay_reader_line r'") (auto split: option.splits)
  show ?thesis
    using assms(2,7) l l'(1) e relay_from_agent_object [OF assms(1,5), of reg ctx] assms(6)
    by (simp add: relay_upstream.simps [of J reg _ ?r] relay_upstream.simps [of J reg _ r']
        set_to_cmacs_def relay_write_ok)
qed

theorem relay_session_mediated_witness:
  "\<exists>ctx. relay_main ref_json_glib relay_demo_env (\<lambda>s. Some []) [] []
       [enc_json (JObject (relay_demo_request ''memory_search'')) @ [CHR 0x0A]] = Session ctx \<and>
     os_out (rc_to_cmacs ctx) = [enc_json (JObject (relay_demo_request ''memory_search'')), [CHR 0x0A]] \<and>
     (\<forall>x \<in> set (os_out (rc_to_cmacs ctx)). x = [CHR 0x0A] \<or>
       (\<exists>root. jg_load ref_json_glib x = Some (Some (JObject root)) \<and>
          request_permitted ref_json_glib registry_init ctx root))"
proof -
  let ?q = "relay_demo_request ''memory_search''"
  let ?c = "relay_demo_ctx\<lparr>rc_from_cmacs := relay_reader_init [] RELAY_MAX_LINE\<rparr>"
  let ?r = "relay_reader_init [enc_json (JObject ?q) @ [CHR 0x0A]] RELAY_MAX_LINE"
  let ?s = "relay_upstream ref_json_glib registry_init ?c ?r"
  have run: "relay_main ref_json_glib relay_demo_env (\<lambda>s. Some []) [] []
       [enc_json (JObject ?q) @ [CHR 0x0A]] = Session ?s"
    by (simp add: relay_main_def relay_demo_env_def relay_demo_ctx_def Let_def)
  have wf: "json_wf (JObject ?q)" by code_simp
  have t: "jg_to_string ref_json_glib (JObject ?q) = enc_json (JObject ?q)"
    by (simp add: ref_json_glib_def)
  have len: "Suc (length (enc_json (JObject ?q))) \<le> RELAY_MAX_LINE"
  proof -
    have "length (enc_json (JObject ?q)) \<le> 1000" by code_simp
    then show ?thesis by simp
  qed
  have "request_permitted ref_json_glib registry_init relay_demo_ctx ?q" by code_simp
  then have p: "request_permitted ref_json_glib registry_init ?c ?q"
    by (subst request_permitted_cong [of _ relay_demo_ctx]) simp_all
  have "os_out (rc_to_cmacs ?s) = os_out (rc_to_cmacs ?c) @ [enc_json (JObject ?q), [CHR 0x0A]]"
    by (rule relay_upstream_one_line [OF json_glib_okD(4,2,3) [OF ref_json_glib_ok wf, unfolded t] len
          json_glib_okD(1) [OF ref_json_glib_ok wf, unfolded t] p]) (simp add: relay_demo_ctx_def)
  then have "os_out (rc_to_cmacs ?s) = [enc_json (JObject ?q), [CHR 0x0A]]"
    by (simp add: relay_demo_ctx_def)
  with run relay_session_mediated [OF run] show ?thesis by blast
qed

text \<open>
  Property (C2). While both streams accept data, every request object, sent on a non-empty line without a NUL byte, is either forwarded
  verbatim, exactly when it is permitted, or answered on the spot with one line: the text of a JSON-RPC
  reply that carries the request's own \<^verbatim>\<open>id\<close> (null for a request without one) and is the refusal
  of its method. The other stream is left alone in each case. The line parses back to that reply whenever the reply can be written
  in JSON, that is, unless the \<^verbatim>\<open>id\<close> or the name of the refused tool holds what the generator cannot print (an infinite number,
  bytes that are not UTF-8).
\<close>

theorem relay_forwards_or_answers:
  assumes "json_glib_ok J" and "line \<noteq> []" and "NUL \<notin> set line"
    and "jg_load J line = Some (Some (JObject root))"
    and "os_script (rc_to_cmacs ctx) = []" and "os_script (rc_to_agent ctx) = []"
  shows "(if request_permitted J reg ctx root
    then relay_from_agent J reg ctx line = (True, ctx\<lparr>rc_to_cmacs :=
           (rc_to_cmacs ctx)\<lparr>os_out := os_out (rc_to_cmacs ctx) @ [line, [CHR 0x0A]]\<rparr>\<rparr>)
    else \<exists>obj. JObject obj = refusal J root \<and> map_of obj ''id'' = Some (json_id (map_of root ''id'')) \<and>
         relay_from_agent J reg ctx line = (True, ctx\<lparr>rc_to_agent :=
           (rc_to_agent ctx)\<lparr>os_out := os_out (rc_to_agent ctx) @ [jg_to_string J (JObject obj), [CHR 0x0A]]\<rparr>\<rparr>) \<and>
         CHR 0x0A \<notin> set (jg_to_string J (JObject obj)) \<and>
         (json_wf (json_id (map_of root ''id'')) \<and> pred_option str_ok (call_name J root) \<longrightarrow>
           jg_load J (jg_to_string J (JObject obj)) = Some (Some (JObject obj))))"
proof -
  obtain obj where o: "refusal J root = JObject obj" "map_of obj ''id'' = Some (json_id (map_of root ''id''))"
    using refusal_id by blast
  show ?thesis
  proof (cases "request_permitted J reg ctx root")
    case True
    with assms(3,5) show ?thesis
      by (simp add: relay_from_agent_object [OF assms(2,4)] set_to_cmacs_def relay_write_ok)
  next
    case False
    with assms(6) json_glib_text(1) [OF assms(1)] o(1)
    have "relay_from_agent J reg ctx line = (True, ctx\<lparr>rc_to_agent := (rc_to_agent ctx)\<lparr>os_out :=
        os_out (rc_to_agent ctx) @ [jg_to_string J (JObject obj), [CHR 0x0A]]\<rparr>\<rparr>)"
      by (simp add: relay_from_agent_object [OF assms(2,4)] set_to_agent_def relay_write_ok)
    then show ?thesis
      using False o json_glib_text(2) [OF assms(1), of "JObject obj"] json_wf_refusal [of root J] json_glib_okD(1) [OF assms(1), of "JObject obj"] by auto
  qed
qed

text \<open>A refused call whose arguments hold a double.\<close>

definition relay_demo_double :: json_object where
  "relay_demo_double = [(''jsonrpc'', JString ''2.0''), (''id'', JInt 7), (''method'', JString ''tools/call''),
     (''params'', JObject [(''name'', JString ''bash''), (''arguments'', JObject [(''x'', JDouble 0x3FF8000000000000)])])]"

theorem relay_forwards_or_answers_witness:
  "\<not> request_permitted ref_json_glib registry_init relay_demo_ctx relay_demo_double \<and>
   (\<exists>obj. relay_from_agent ref_json_glib registry_init relay_demo_ctx (enc_json (JObject relay_demo_double)) =
      (True, relay_demo_ctx\<lparr>rc_to_agent := \<lparr>os_script = [], os_out = [enc_json (JObject obj), [CHR 0x0A]]\<rparr>\<rparr>) \<and>
      jg_load ref_json_glib (enc_json (JObject obj)) = Some (Some (JObject obj)) \<and> map_of obj ''id'' = Some (JInt 7))"
proof -
  let ?r = relay_demo_double
  have np: "\<not> request_permitted ref_json_glib registry_init relay_demo_ctx ?r" by code_simp
  have wf: "json_wf (JObject ?r)" by code_simp
  have t: "jg_to_string ref_json_glib = enc_json" by (simp add: ref_json_glib_def)
  have "call_name ref_json_glib ?r = Some ''bash''" by code_simp
  then have n: "pred_option str_ok (call_name ref_json_glib ?r)" by (simp add: str_ok_ascii ascii_text_def)
  have s: "os_script (rc_to_cmacs relay_demo_ctx) = []" "os_script (rc_to_agent relay_demo_ctx) = []"
      "os_out (rc_to_agent relay_demo_ctx) = []" "map_of ?r ''id'' = Some (JInt 7)" "json_wf (json_id (map_of ?r ''id''))"
    by (simp_all add: relay_demo_ctx_def relay_demo_double_def json_id_def gint64_range_def)
  have a: "rc_to_agent relay_demo_ctx = \<lparr>os_script = [], os_out = []\<rparr>" by (simp add: relay_demo_ctx_def)
  show ?thesis
    using relay_forwards_or_answers [OF ref_json_glib_ok json_glib_okD(4,2,1) [OF ref_json_glib_ok wf]
        s(1,2), of registry_init] np s a n
    unfolding t by (simp add: json_id_def) blast
qed

text \<open>
  A \<^verbatim>\<open>tools/list\<close> reply is pruned to exactly what a call would get through: in
  the line that reaches the agent the \<^verbatim>\<open>tools\<close> array holds, in order, the elements that are
  objects with a string \<^verbatim>\<open>name\<close> the gate allows, and every other member of the reply and of its
  result is unchanged.
\<close>

theorem relay_prunes_tools_list:
  assumes "json_glib_ok J" and "jg_load J line = Some (Some (JObject root))"
    and "json_wf (JObject root)" and "map_of root ''result'' = Some (JObject result)"
    and "map_of result ''tools'' = Some (JArray tools)" and "os_script (rc_to_agent ctx) = []"
  shows "\<exists>text root' result'. relay_from_cmacs J reg ctx line = (True, ctx\<lparr>rc_to_agent :=
           (rc_to_agent ctx)\<lparr>os_out := os_out (rc_to_agent ctx) @ [text, [CHR 0x0A]]\<rparr>\<rparr>) \<and>
      jg_load J text = Some (Some (JObject root')) \<and>
      map_of root' = (map_of root)(''result'' \<mapsto> JObject result') \<and>
      map_of result' = (map_of result)(''tools'' \<mapsto> JArray (filter (\<lambda>el. \<exists>t n. el = JObject t \<and>
        map_of t ''name'' = Some (JString n) \<and> relay_gate reg ctx (Some n)) tools))"
proof -
  define kept where "kept = filter (tool_kept J reg ctx) tools"
  define result' where "result' = json_object_set_member ''tools'' (JArray kept) result"
  define root' where "root' = json_object_set_member ''result'' (JObject result') root"
  have res: "json_wf (JObject result)" "str_ok ''result''" using json_wf_member [OF assms(3,4)] by auto
  have tl: "json_wf (JArray tools)" "str_ok ''tools''" using json_wf_member [OF res(1) assms(5)] by auto
  have "json_wf (JArray kept)" using tl(1) by (auto simp: kept_def list_all_iff)
  then have wf: "json_wf (JObject root')"
    unfolding root'_def result'_def
    by (intro json_wf_set_member assms(3) res tl(2))
  have k: "tool_kept J reg ctx el \<longleftrightarrow> (\<exists>t n. el = JObject t \<and>
        map_of t ''name'' = Some (JString n) \<and> relay_gate reg ctx (Some n))" for el
    using json_glib_okD(5,10) [OF assms(1)]
    by (auto simp: tool_kept_def json_get_string_member_default_null_def json_scalar_def
        split: json.splits option.splits)
  have f: "relay_filter_tools_list J reg root ctx = Some (jg_to_string J (JObject root'))"
    by (simp add: relay_filter_tools_list_def assms(4,5) json_glib_okD(8,9) [OF assms(1)] Let_def
        root'_def result'_def kept_def)
  have "relay_from_cmacs J reg ctx line = (True, ctx\<lparr>rc_to_agent := (rc_to_agent ctx)\<lparr>os_out :=
      os_out (rc_to_agent ctx) @ [jg_to_string J (JObject root'), [CHR 0x0A]]\<rparr>\<rparr>)"
    using json_glib_okD(2) [OF assms(1) wf]
    by (simp add: relay_from_cmacs_def assms(2) f set_to_agent_def relay_write_ok [OF assms(6)])
  moreover have "map_of root' = (map_of root)(''result'' \<mapsto> JObject result')"
    by (simp add: root'_def map_of_set_member)
  moreover have "map_of result' = (map_of result)(''tools'' \<mapsto> JArray (filter (\<lambda>el. \<exists>t n. el = JObject t \<and>
        map_of t ''name'' = Some (JString n) \<and> relay_gate reg ctx (Some n)) tools))"
    by (simp add: result'_def map_of_set_member kept_def k [abs_def])
  ultimately show ?thesis using json_glib_okD(1) [OF assms(1) wf] by blast
qed

definition relay_demo_list :: json_object where
  "relay_demo_list = [(''id'', JInt 1), (''result'', JObject [(''tools'', JArray
     [JObject [(''name'', JString ''bash'')], JObject [(''name'', JString ''memory_search'')], JNull])])]"

theorem relay_prunes_tools_list_witness:
  "\<exists>text root' result'. relay_from_cmacs ref_json_glib registry_init relay_demo_ctx
        (enc_json (JObject relay_demo_list)) = (True, relay_demo_ctx\<lparr>rc_to_agent :=
           \<lparr>os_script = [], os_out = [text, [CHR 0x0A]]\<rparr>\<rparr>) \<and>
      jg_load ref_json_glib text = Some (Some (JObject root')) \<and>
      map_of root' ''result'' = Some (JObject result') \<and>
      map_of result' ''tools'' = Some (JArray [JObject [(''name'', JString ''memory_search'')]])"
proof -
  have wf: "json_wf (JObject relay_demo_list)" by code_simp
  have t: "jg_to_string ref_json_glib (JObject relay_demo_list) = enc_json (JObject relay_demo_list)"
    by (simp add: ref_json_glib_def)
  have a: "rc_to_agent relay_demo_ctx = \<lparr>os_script = [], os_out = []\<rparr>" by (simp add: relay_demo_ctx_def)
  have g: "\<not> relay_gate registry_init relay_demo_ctx (Some ''bash'')"
    "relay_gate registry_init relay_demo_ctx (Some ''memory_search'')" by code_simp+
  have "\<exists>text root' result'. relay_from_cmacs ref_json_glib registry_init relay_demo_ctx
        (enc_json (JObject relay_demo_list)) = (True, relay_demo_ctx\<lparr>rc_to_agent :=
           (rc_to_agent relay_demo_ctx)\<lparr>os_out := os_out (rc_to_agent relay_demo_ctx) @ [text, [CHR 0x0A]]\<rparr>\<rparr>) \<and>
      jg_load ref_json_glib text = Some (Some (JObject root')) \<and>
      map_of root' = (map_of relay_demo_list)(''result'' \<mapsto> JObject result') \<and>
      map_of result' = (map_of [(''tools'', JArray
     [JObject [(''name'', JString ''bash'')], JObject [(''name'', JString ''memory_search'')], JNull])])
       (''tools'' \<mapsto> JArray (filter (\<lambda>el. \<exists>t n. el = JObject t \<and>
        map_of t ''name'' = Some (JString n) \<and> relay_gate registry_init relay_demo_ctx (Some n))
        [JObject [(''name'', JString ''bash'')], JObject [(''name'', JString ''memory_search'')], JNull]))"
    by (rule relay_prunes_tools_list [OF ref_json_glib_ok json_glib_okD(1)
          [OF ref_json_glib_ok wf, unfolded t] wf])
       (simp_all add: relay_demo_list_def a)
  then obtain out root' result' where
      "relay_from_cmacs ref_json_glib registry_init relay_demo_ctx (enc_json (JObject relay_demo_list)) =
         (True, relay_demo_ctx\<lparr>rc_to_agent := \<lparr>os_script = [], os_out = [out, [CHR 0x0A]]\<rparr>\<rparr>)"
      "jg_load ref_json_glib out = Some (Some (JObject root'))"
      "map_of root' ''result'' = Some (JObject result')"
      "map_of result' ''tools'' = Some (JArray [JObject [(''name'', JString ''memory_search'')]])"
    using g by (elim exE conjE) (simp add: a)
  then show ?thesis by blast
qed

text \<open>
  Property (C20). The lines a reader hands out do not depend on how the bytes were cut into
  reads: as long as the whole input stays under the cap, they are the newline-separated lines of
  the concatenated input, a last line without a newline included, each as the C string it holds.
\<close>

theorem relay_reader_chunking:
  assumes "length (concat chunks) \<le> cap" and "[] \<notin> set chunks"
  shows "relay_reader_all (relay_reader_init chunks cap) = map c_str (text_lines (concat chunks))"
  using relay_reader_all_text [of "relay_reader_init chunks cap"] assms
  by (simp add: rr_rest_def relay_reader_init_def)

theorem relay_reader_chunking_witness:
  "relay_reader_all (relay_reader_init [''ab'', ''c'' @ [CHR 0x0A] @ ''d'', ''e''] 100) = [''abc'', ''de'']"
  using relay_reader_chunking [of "[''ab'', ''c'' @ [CHR 0x0A] @ ''d'', ''e'']" 100]
  by (simp add: text_lines_def Let_def c_str_def)

text \<open>
  A peer that never sends a newline cannot make the process grow: whatever
  arrives, no line handed out is longer than the cap and one read, and the reader itself never
  holds more than that.
\<close>

theorem relay_reader_memory_bound:
  assumes "list_all (\<lambda>c. length c \<le> RELAY_CHUNK) chunks"
  shows "list_all (\<lambda>s. length s \<le> cap + RELAY_CHUNK)
           (relay_reader_all (relay_reader_init chunks cap)) \<and>
         length (rr_buf (snd (relay_reader_line (relay_reader_init chunks cap)))) \<le> cap + RELAY_CHUNK"
proof -
  let ?r = "relay_reader_init chunks cap"
  have b: "rr_bounded ?r" "rr_max ?r = cap" using assms by (simp_all add: rr_bounded_def relay_reader_init_def)
  have "rr_bounded (snd (relay_reader_line ?r)) \<and> rr_max (snd (relay_reader_line ?r)) = cap"
    using relay_reader_line_bounded [OF b(1), of "fst (relay_reader_line ?r)" "snd (relay_reader_line ?r)"] b(2)
    by simp
  then show ?thesis using relay_reader_all_bounded [OF b(1)] b(2) by (simp add: rr_bounded_def)
qed

theorem relay_reader_memory_bound_witness:
  "list_all (\<lambda>s. length s \<le> 4 + RELAY_CHUNK)
     (relay_reader_all (relay_reader_init [''abc'', ''def'', ''ghi''] 4)) \<and>
   relay_reader_all (relay_reader_init [''abc'', ''def'', ''ghi''] 4) = []"
proof -
  have "relay_reader_all (relay_reader_init [''abc'', ''def'', ''ghi''] 4) = []" by code_simp
  then show ?thesis using relay_reader_memory_bound [of "[''abc'', ''def'', ''ghi'']" 4] by simp
qed

end
