(* ===== verification/Brigade_State.thy ===== *)
theory Brigade_State
  imports GHash Lisp_Obj "HOL-Library.Word"
begin

text \<open>
  \<^verbatim>\<open>src/cmacs/ai-brigade/cmacs-brigade-state.c\<close>: the state machine of plan tasks and the table
  that holds their runtime records. The static table and its mutex become a state argument, each
  primitive one critical section; counters keep their C width. The clock
  (\<^verbatim>\<open>g_get_real_time\<close>) is an argument: a transition reads it at most once, since the three branches
  that do exclude each other, and \<^verbatim>\<open>interrupt-live\<close> once per live task.
\<close>

section \<open>The state machine\<close>

datatype brigade_state =
    DRAFT | QUEUED | STARTING | RUNNING | WAITING_INPUT | BLOCKED
  | DONE | FAILED | CANCELLED | OVER_BUDGET | INTERRUPTED

definition all_states :: "brigade_state list" where
  "all_states = [DRAFT, QUEUED, STARTING, RUNNING, WAITING_INPUT, BLOCKED, DONE, FAILED,
     CANCELLED, OVER_BUDGET, INTERRUPTED]"

fun state_name :: "brigade_state \<Rightarrow> string" where
  "state_name DRAFT = ''draft''"
| "state_name QUEUED = ''queued''"
| "state_name STARTING = ''starting''"
| "state_name RUNNING = ''running''"
| "state_name WAITING_INPUT = ''waiting-input''"
| "state_name BLOCKED = ''blocked''"
| "state_name DONE = ''done''"
| "state_name FAILED = ''failed''"
| "state_name CANCELLED = ''cancelled''"
| "state_name OVER_BUDGET = ''over-budget''"
| "state_name INTERRUPTED = ''interrupted''"

definition state_from_name :: "string option \<Rightarrow> brigade_state" where
  "state_from_name name =
     (case name of None \<Rightarrow> DRAFT
      | Some n \<Rightarrow>
          (case find (\<lambda>s. n = state_name s) all_states of None \<Rightarrow> DRAFT | Some s \<Rightarrow> s))"

definition state_terminal :: "brigade_state \<Rightarrow> bool" where
  "state_terminal s \<longleftrightarrow> s \<in> {DONE, FAILED, CANCELLED, OVER_BUDGET}"

definition state_live :: "brigade_state \<Rightarrow> bool" where
  "state_live s \<longleftrightarrow> s \<in> {STARTING, RUNNING, WAITING_INPUT, BLOCKED}"

definition can_transition :: "brigade_state \<Rightarrow> brigade_state \<Rightarrow> bool" where
  "can_transition from to =
     (if from = to then True
      else if to = CANCELLED then state_live from \<or> from = QUEUED \<or> from = DRAFT
      else case from of
        DRAFT \<Rightarrow> to = QUEUED \<or> to = FAILED
      | QUEUED \<Rightarrow> to = DRAFT \<or> to = STARTING \<or> to = FAILED
      | STARTING \<Rightarrow> to = RUNNING \<or> to = WAITING_INPUT \<or> to = FAILED
      | RUNNING \<Rightarrow> to = WAITING_INPUT \<or> to = BLOCKED \<or> to = DONE \<or> to = FAILED
          \<or> to = OVER_BUDGET \<or> to = INTERRUPTED
      | WAITING_INPUT \<Rightarrow> to = QUEUED \<or> to = STARTING \<or> to = RUNNING \<or> to = DONE
          \<or> to = FAILED \<or> to = OVER_BUDGET
      | BLOCKED \<Rightarrow> to = RUNNING \<or> to = FAILED
      | INTERRUPTED \<Rightarrow> to = QUEUED \<or> to = DRAFT
      | _ \<Rightarrow> to = QUEUED \<or> to = DRAFT)"

section \<open>The task table\<close>

record brigade_task =
  t_id :: string
  t_plan :: "string option"
  t_state :: brigade_state
  t_turns :: "32 word"
  t_in_tokens :: "64 word"
  t_out_tokens :: "64 word"
  t_cost_micros :: int
  t_started_at :: int
  t_ended_at :: int
  t_queued_at :: int
  t_error :: "string option"
  t_agent :: "string option"
  t_title :: "string option"

type_synonym task_table = "(string, brigade_task) ghash"

definition state_init :: task_table where
  "state_init = gh_empty"

text \<open>A fixnum keeps the low 62 bits of a C integer.\<close>

definition make_fixnum :: "int \<Rightarrow> lisp" where
  "make_fixnum i = LFix (signed_take_bit 61 i)"

definition build_string_or_nil :: "string option \<Rightarrow> lisp" where
  "build_string_or_nil s = (case s of None \<Rightarrow> Qnil | Some x \<Rightarrow> LStr x)"

definition task_to_plist :: "brigade_task \<Rightarrow> lisp" where
  "task_to_plist t = llist
     [LSym '':id'', LStr (t_id t),
      LSym '':plan'', build_string_or_nil (t_plan t),
      LSym '':state'', LSym (state_name (t_state t)),
      LSym '':turns'', make_fixnum (uint (t_turns t)),
      LSym '':in-tokens'', make_fixnum (uint (t_in_tokens t)),
      LSym '':out-tokens'', make_fixnum (uint (t_out_tokens t)),
      LSym '':cost-micros'', make_fixnum (t_cost_micros t),
      LSym '':started-at'', make_fixnum (t_started_at t),
      LSym '':ended-at'', make_fixnum (t_ended_at t),
      LSym '':queued-at-usec'', make_fixnum (t_queued_at t),
      LSym '':agent'', build_string_or_nil (t_agent t),
      LSym '':title'', build_string_or_nil (t_title t),
      LSym '':error'', build_string_or_nil (t_error t)]"

text \<open>The field updates the primitives make when an optional argument is a string or a fixnum.\<close>

definition if_string :: "lisp \<Rightarrow> string option \<Rightarrow> string option" where
  "if_string x old = (case x of LStr s \<Rightarrow> Some (SSDATA s) | _ \<Rightarrow> old)"

definition if_fixnum :: "lisp \<Rightarrow> (int \<Rightarrow> 'a) \<Rightarrow> 'a \<Rightarrow> 'a" where
  "if_fixnum x f old = (case x of LFix i \<Rightarrow> f i | _ \<Rightarrow> old)"

definition new_task :: "string \<Rightarrow> string \<Rightarrow> brigade_task" where
  "new_task i p = \<lparr>t_id = i, t_plan = Some p, t_state = DRAFT, t_turns = 0, t_in_tokens = 0,
     t_out_tokens = 0, t_cost_micros = 0, t_started_at = 0, t_ended_at = 0, t_queued_at = 0,
     t_error = None, t_agent = None, t_title = None\<rparr>"

definition Ftask_adopt ::
  "task_table \<Rightarrow> lisp \<Rightarrow> lisp \<Rightarrow> lisp \<Rightarrow> lisp \<Rightarrow> (lisp \<times> task_table) lisp_result" where
  "Ftask_adopt tab tid plan agent title =
     rbind (CHECK_STRING tid) (\<lambda>i. rbind (CHECK_STRING plan) (\<lambda>p.
       let found = gh_lookup tab (SSDATA i);
           t0 = (case found of None \<Rightarrow> new_task (SSDATA i) (SSDATA p) | Some t \<Rightarrow> t);
           t = t0\<lparr>t_agent := if_string agent (t_agent t0), t_title := if_string title (t_title t0)\<rparr>
       in Inr (LCons (LSym '':created'') (LCons (lbool (found = None)) (task_to_plist t)),
               gh_replace (SSDATA i) t tab)))"

definition Ftask_restore ::
  "task_table \<Rightarrow> lisp \<Rightarrow> lisp \<Rightarrow> lisp \<Rightarrow> lisp \<Rightarrow> lisp \<Rightarrow> lisp \<Rightarrow> lisp \<Rightarrow> (lisp \<times> task_table) lisp_result"
  where
  "Ftask_restore tab tid state turns in_tokens out_tokens cost_micros error =
     rbind (CHECK_STRING tid) (\<lambda>i. rbind (CHECK_SYMBOL state) (\<lambda>s.
       let to0 = state_from_name (Some (SSDATA s));
           to = (if state_live to0 then INTERRUPTED else to0)
       in case gh_lookup tab (SSDATA i) of
            None \<Rightarrow> Inr (Qnil, tab)
          | Some t0 \<Rightarrow>
              let t = t0\<lparr>t_state := to,
                    t_turns := if_fixnum turns of_int (t_turns t0),
                    t_in_tokens := if_fixnum in_tokens of_int (t_in_tokens t0),
                    t_out_tokens := if_fixnum out_tokens of_int (t_out_tokens t0),
                    t_cost_micros := if_fixnum cost_micros (\<lambda>c. c) (t_cost_micros t0),
                    t_error := if_string error (t_error t0)\<rparr>
              in Inr (task_to_plist t, gh_replace (SSDATA i) t tab)))"

definition Ftask_get :: "task_table \<Rightarrow> lisp \<Rightarrow> lisp lisp_result" where
  "Ftask_get tab tid =
     rbind (CHECK_STRING tid) (\<lambda>i.
       Inr (case gh_lookup tab (SSDATA i) of None \<Rightarrow> Qnil | Some t \<Rightarrow> task_to_plist t))"

definition Ftask_forget :: "task_table \<Rightarrow> lisp \<Rightarrow> (lisp \<times> task_table) lisp_result" where
  "Ftask_forget tab tid =
     rbind (CHECK_STRING tid) (\<lambda>i.
       Inr (lbool (gh_contains tab (SSDATA i)), gh_remove (SSDATA i) tab))"

abbreviation G_USEC_PER_SEC :: int where
  "G_USEC_PER_SEC \<equiv> 1000000"

text \<open>The record after an accepted move, in the order of the code's assignments.\<close>

definition transition_task :: "int \<Rightarrow> brigade_state \<Rightarrow> lisp \<Rightarrow> brigade_task \<Rightarrow> brigade_task" where
  "transition_task now to detail t =
     (let t1 = (if t_state t \<noteq> RUNNING \<and> to = RUNNING \<and> t_started_at t = 0
                then t\<lparr>t_started_at := c_div now G_USEC_PER_SEC\<rparr> else t);
          t2 = (if state_terminal to then t1\<lparr>t_ended_at := c_div now G_USEC_PER_SEC\<rparr> else t1);
          t3 = (if to = QUEUED \<or> to = DRAFT then t2\<lparr>t_error := None, t_ended_at := 0\<rparr> else t2);
          t4 = (if (to = QUEUED \<or> to = WAITING_INPUT) \<and> t_state t3 \<noteq> to
                then t3\<lparr>t_queued_at := now\<rparr> else t3);
          t5 = t4\<lparr>t_error := if_string detail (t_error t4)\<rparr>
      in t5\<lparr>t_state := to\<rparr>)"

definition Ftask_transition ::
  "int \<Rightarrow> task_table \<Rightarrow> lisp \<Rightarrow> lisp \<Rightarrow> lisp \<Rightarrow> (lisp \<times> task_table) lisp_result" where
  "Ftask_transition now tab tid state detail =
     rbind (CHECK_STRING tid) (\<lambda>i. rbind (CHECK_SYMBOL state) (\<lambda>s.
       let to = state_from_name (Some (SSDATA s)) in
       case gh_lookup tab (SSDATA i) of
         None \<Rightarrow> Inr (llist [LSym '':rejected'', Qt, LSym '':reason'', LStr ''no such task''], tab)
       | Some t \<Rightarrow>
           if \<not> can_transition (t_state t) to then
             Inr (llist [LSym '':rejected'', Qt, LSym '':reason'',
                    LStr (''cannot go from '' @ state_name (t_state t) @ '' to '' @ state_name to),
                    LSym '':state'', LSym (state_name (t_state t))], tab)
           else
             let t' = transition_task now to detail t
             in Inr (task_to_plist t', gh_replace (SSDATA i) t' tab)))"

definition Ftask_progress ::
  "task_table \<Rightarrow> lisp \<Rightarrow> lisp \<Rightarrow> lisp \<Rightarrow> lisp \<Rightarrow> lisp \<Rightarrow> (lisp \<times> task_table) lisp_result" where
  "Ftask_progress tab tid turns in_tokens out_tokens cost_micros =
     rbind (CHECK_STRING tid) (\<lambda>i.
       case gh_lookup tab (SSDATA i) of
         None \<Rightarrow> Inr (Qnil, tab)
       | Some t0 \<Rightarrow>
           let t = t0\<lparr>t_turns := if_fixnum turns of_int (t_turns t0),
                 t_in_tokens := if_fixnum in_tokens of_int (t_in_tokens t0),
                 t_out_tokens := if_fixnum out_tokens of_int (t_out_tokens t0),
                 t_cost_micros := if_fixnum cost_micros (\<lambda>c. c) (t_cost_micros t0)\<rparr>
           in Inr (task_to_plist t, gh_replace (SSDATA i) t tab))"

definition add_progress :: "lisp \<Rightarrow> lisp \<Rightarrow> lisp \<Rightarrow> lisp \<Rightarrow> brigade_task \<Rightarrow> brigade_task" where
  "add_progress turns in_tokens out_tokens cost_micros t0 =
     t0\<lparr>t_turns := if_fixnum turns (\<lambda>n. t_turns t0 + of_int n) (t_turns t0),
        t_in_tokens := if_fixnum in_tokens (\<lambda>n. t_in_tokens t0 + of_int n) (t_in_tokens t0),
        t_out_tokens := if_fixnum out_tokens (\<lambda>n. t_out_tokens t0 + of_int n) (t_out_tokens t0),
        t_cost_micros :=
          if_fixnum cost_micros (\<lambda>n. to_gint64 (t_cost_micros t0 + n)) (t_cost_micros t0)\<rparr>"

definition Ftask_progress_add ::
  "task_table \<Rightarrow> lisp \<Rightarrow> lisp \<Rightarrow> lisp \<Rightarrow> lisp \<Rightarrow> lisp \<Rightarrow> (lisp \<times> task_table) lisp_result" where
  "Ftask_progress_add tab tid turns in_tokens out_tokens cost_micros =
     rbind (CHECK_STRING tid) (\<lambda>i.
       case gh_lookup tab (SSDATA i) of
         None \<Rightarrow> Inr (Qnil, tab)
       | Some t0 \<Rightarrow>
           let t = add_progress turns in_tokens out_tokens cost_micros t0
           in Inr (task_to_plist t, gh_replace (SSDATA i) t tab))"

definition Ftask_list :: "task_table \<Rightarrow> lisp \<Rightarrow> lisp" where
  "Ftask_list tab plan =
     fold (\<lambda>(k, t) out.
         if (case plan of LStr p \<Rightarrow> t_plan t \<noteq> Some (SSDATA p) | _ \<Rightarrow> False) then out
         else LCons (task_to_plist t) out)
       (gh_entries tab) Qnil"

definition Fstate_can_transition_p :: "lisp \<Rightarrow> lisp \<Rightarrow> lisp lisp_result" where
  "Fstate_can_transition_p from to =
     rbind (CHECK_SYMBOL from) (\<lambda>f. rbind (CHECK_SYMBOL to) (\<lambda>t.
       Inr (lbool (can_transition (state_from_name (Some (SSDATA f)))
         (state_from_name (Some (SSDATA t)))))))"

text \<open>The walk over the table; \<open>clock n\<close> is the time read for the \<open>n\<close>-th task interrupted.\<close>

fun interrupt_walk ::
  "(nat \<Rightarrow> int) \<Rightarrow> nat \<Rightarrow> (string \<times> brigade_task) list \<Rightarrow> nat \<times> (string \<times> brigade_task) list" where
  "interrupt_walk clock n [] = (n, [])"
| "interrupt_walk clock n ((k, t) # es) =
     (if state_live (t_state t) then
        (case interrupt_walk clock (Suc n) es of (m, es') \<Rightarrow>
           (m, (k, t\<lparr>t_state := INTERRUPTED, t_ended_at := c_div (clock n) G_USEC_PER_SEC\<rparr>) # es'))
      else (case interrupt_walk clock n es of (m, es') \<Rightarrow> (m, (k, t) # es')))"

definition Fstate_interrupt_live :: "(nat \<Rightarrow> int) \<Rightarrow> task_table \<Rightarrow> lisp \<times> task_table" where
  "Fstate_interrupt_live clock tab =
     (case interrupt_walk clock 0 (gh_entries tab) of (n, tab') \<Rightarrow> (make_fixnum (int n), tab'))"

section \<open>The machine\<close>

lemma state_from_state_name [simp]: "state_from_name (Some (state_name s)) = s"
  by (cases s) (simp_all add: state_from_name_def all_states_def)

lemma state_live_simps [simp]: "\<not> state_live INTERRUPTED" "\<not> state_live DRAFT" "\<not> state_live QUEUED"
  by (simp_all add: state_live_def)

lemma can_transition_live:
  "can_transition s s' \<Longrightarrow> state_live s' \<Longrightarrow> \<not> state_live s \<Longrightarrow> s = QUEUED \<and> s' = STARTING"
  by (cases s) (auto simp: can_transition_def state_live_def split: if_splits)

lemma transition_task_fields [simp]:
  "t_state (transition_task now to d t) = to"
  "t_id (transition_task now to d t) = t_id t"
  "t_plan (transition_task now to d t) = t_plan t"
  "t_turns (transition_task now to d t) = t_turns t"
  "t_in_tokens (transition_task now to d t) = t_in_tokens t"
  "t_out_tokens (transition_task now to d t) = t_out_tokens t"
  "t_cost_micros (transition_task now to d t) = t_cost_micros t"
  by (simp_all add: transition_task_def Let_def)

lemma transition_task_queued_at:
  "t_queued_at (transition_task now to d t) =
     (if to \<in> {QUEUED, WAITING_INPUT} \<and> t_state t \<noteq> to then now else t_queued_at t)"
  by (simp add: transition_task_def Let_def)

lemma transition_task_times:
  "t_started_at (transition_task now to d t) =
     (if to = RUNNING \<and> t_state t \<noteq> RUNNING \<and> t_started_at t = 0
      then c_div now G_USEC_PER_SEC else t_started_at t)"
  "t_ended_at (transition_task now to d t) =
     (if state_terminal to then c_div now G_USEC_PER_SEC
      else if to \<in> {QUEUED, DRAFT} then 0 else t_ended_at t)"
  "t_error (transition_task now to d t) =
     if_string d (if to \<in> {QUEUED, DRAFT} then None else t_error t)"
  by (auto simp: transition_task_def Let_def state_terminal_def)

lemma Ftask_transition_total: "\<exists>out tab'. Ftask_transition now tab (LStr i) (LSym s) d = Inr (out, tab')"
  by (cases "gh_lookup tab (SSDATA i)") (simp_all add: Ftask_transition_def Let_def)

section \<open>Runs of the table\<close>

inductive task_step :: "task_table \<Rightarrow> task_table \<Rightarrow> bool" where
  adopt: "Ftask_adopt tab i p a ti = Inr (out, tab') \<Longrightarrow> task_step tab tab'"
| restore: "Ftask_restore tab i s a b c d e = Inr (out, tab') \<Longrightarrow> task_step tab tab'"
| forget: "Ftask_forget tab i = Inr (out, tab') \<Longrightarrow> task_step tab tab'"
| transition: "Ftask_transition now tab i s d = Inr (out, tab') \<Longrightarrow> task_step tab tab'"
| progress: "Ftask_progress tab i a b c d = Inr (out, tab') \<Longrightarrow> task_step tab tab'"
| progress_add: "Ftask_progress_add tab i a b c d = Inr (out, tab') \<Longrightarrow> task_step tab tab'"
| interrupt: "Fstate_interrupt_live clock tab = (out, tab') \<Longrightarrow> task_step tab tab'"

text \<open>How one operation may change the record under one id.\<close>

fun task_evolves :: "brigade_task option \<Rightarrow> brigade_task option \<Rightarrow> bool" where
  "task_evolves _ None = True"
| "task_evolves None (Some t') = (t_state t' = DRAFT)"
| "task_evolves (Some t) (Some t') \<longleftrightarrow>
     t_id t' = t_id t \<and>
     (state_live (t_state t') \<longrightarrow> can_transition (t_state t) (t_state t')) \<and>
     (t_queued_at t' \<noteq> t_queued_at t \<longrightarrow>
        t_state t' \<in> {QUEUED, WAITING_INPUT} \<and> t_state t \<noteq> t_state t')"

lemma can_transition_refl [simp]: "can_transition s s"
  by (simp add: can_transition_def)

lemma task_evolves_refl [simp]: "task_evolves x x"
  by (cases x) simp_all

lemma interrupt_walk_keys: "map fst (snd (interrupt_walk clock n es)) = map fst es"
  by (induction clock n es rule: interrupt_walk.induct) (auto split: prod.splits)

lemma interrupt_walk_count:
  "fst (interrupt_walk clock n es) = n + length (filter (\<lambda>(k, t). state_live (t_state t)) es)"
  by (induction clock n es rule: interrupt_walk.induct) (auto split: prod.splits)

lemma interrupt_walk_lookup:
  "\<exists>j. map_of (snd (interrupt_walk clock n es)) k = map_option (\<lambda>t. if state_live (t_state t)
     then t\<lparr>t_state := INTERRUPTED, t_ended_at := c_div (clock j) G_USEC_PER_SEC\<rparr> else t) (map_of es k)"
proof (induction clock n es rule: interrupt_walk.induct)
  case (2 clock n k' t es)
  then show ?case by (cases "state_live (t_state t)") (auto split: prod.splits)
qed simp

lemma interrupt_live_lookup:
  assumes "Fstate_interrupt_live clock tab = (out, tab')"
  shows "\<exists>j. gh_lookup tab' k = map_option (\<lambda>t. if state_live (t_state t)
     then t\<lparr>t_state := INTERRUPTED, t_ended_at := c_div (clock j) G_USEC_PER_SEC\<rparr> else t)
     (gh_lookup tab k)"
  using assms interrupt_walk_lookup [of clock 0 "gh_entries tab" k]
  by (auto simp: Fstate_interrupt_live_def gh_lookup_def gh_entries_def split: prod.splits)

lemma interrupt_live_invar:
  assumes "Fstate_interrupt_live clock tab = (out, tab')" and "gh_invar tab"
  shows "gh_invar tab'"
  using assms interrupt_walk_keys [of clock 0 tab]
  by (auto simp: Fstate_interrupt_live_def gh_invar_def gh_entries_def split: prod.splits)

lemma task_step_invar: "gh_invar tab \<Longrightarrow> task_step tab tab' \<Longrightarrow> gh_invar tab'"
  by (erule task_step.cases)
     (auto simp: Ftask_adopt_def Ftask_restore_def Ftask_forget_def Ftask_transition_def
        Ftask_progress_def Ftask_progress_add_def Let_def rbind_Inr_iff interrupt_live_invar
        split: option.splits if_splits)

lemma task_step_evolves:
  assumes "gh_invar tab" and "task_step tab tab'"
  shows "task_evolves (gh_lookup tab k) (gh_lookup tab' k)"
  using assms(2)
proof (cases rule: task_step.cases)
  case (adopt i p a ti out)
  then obtain x y where "i = LStr x" "p = LStr y" by (auto simp: Ftask_adopt_def rbind_Inr_iff)
  with adopt show ?thesis
    by (cases "gh_lookup tab (SSDATA x)") (auto simp: Ftask_adopt_def Let_def new_task_def)
next
  case (restore i s a b c d e out)
  then show ?thesis
    by (auto simp: Ftask_restore_def Let_def rbind_Inr_iff state_live_def
        split: option.splits if_splits)
next
  case (forget i out)
  then show ?thesis using assms(1) by (auto simp: Ftask_forget_def rbind_Inr_iff)
next
  case (transition now i s d out)
  then show ?thesis
    by (auto simp: Ftask_transition_def Let_def rbind_Inr_iff transition_task_queued_at
        split: option.splits if_splits)
next
  case (progress i a b c d out)
  then show ?thesis
    by (auto simp: Ftask_progress_def Let_def rbind_Inr_iff split: option.splits if_splits)
next
  case (progress_add i a b c d out)
  then show ?thesis
    by (auto simp: Ftask_progress_add_def add_progress_def Let_def rbind_Inr_iff
        split: option.splits if_splits)
next
  case (interrupt clock out)
  from interrupt_live_lookup [OF this, of k] show ?thesis
    by (cases "gh_lookup tab k") (auto split: if_splits)
qed

interpretation task_runs: invariant_system task_step "gh_invar :: task_table \<Rightarrow> bool"
  by unfold_locales (rule task_step_invar)

section \<open>Properties\<close>

text \<open>
  Property (C21). A task becomes live from the queue only. In every run of the table's
  operations, in any order and with any arguments, a task that is live at the end and was not at
  the start was at some point in state \<^verbatim>\<open>queued\<close>, went from there to \<^verbatim>\<open>starting\<close> in one operation, and has been live ever
  since: neither adopting, restoring from a plan file, nor any other primitive puts a task into a live state,
  once it has ended as little as at first. (While it is live it may move between the live states, from \<^verbatim>\<open>waiting-input\<close> to
  \<^verbatim>\<open>running\<close> for one, without queueing again.)
\<close>

theorem live_needs_queue:
  assumes "trace task_step tab0 tab ts" and "gh_invar tab0"
    and "\<forall>t. gh_lookup tab0 i = Some t \<longrightarrow> \<not> state_live (t_state t)"
    and "gh_lookup tab i = Some t" and "state_live (t_state t)"
  shows "\<exists>pre u v post. ts = pre @ u # v # post \<and>
    map_option t_state (gh_lookup u i) = Some QUEUED \<and> map_option t_state (gh_lookup v i) = Some STARTING \<and>
    list_all (\<lambda>w. \<exists>t. gh_lookup w i = Some t \<and> state_live (t_state t)) (v # post)"
proof -
  let ?P = "\<lambda>tb. \<exists>t. gh_lookup tb i = Some t \<and> state_live (t_state t)"
  obtain pre u v post where uv: "ts = pre @ u # v # post" "gh_invar u" "task_step u v" "\<not> ?P u" "?P v" "list_all ?P post"
    using task_runs.last_cause [OF assms(1,2), of ?P] assms(3-5) by blast
  then obtain t' where t': "gh_lookup v i = Some t'" "state_live (t_state t')" by blast
  with task_step_evolves [OF uv(2,3), of i] obtain t0 where t0: "gh_lookup u i = Some t0"
    by (cases "gh_lookup u i") (auto simp: state_live_def)
  with task_step_evolves [OF uv(2,3), of i] t' have "can_transition (t_state t0) (t_state t')" by simp
  moreover have "\<not> state_live (t_state t0)" using t0 uv(4) by blast
  ultimately have "t_state t0 = QUEUED \<and> t_state t' = STARTING" using can_transition_live t'(2) by blast
  then show ?thesis
    using t0 t' uv(1,5,6) by (intro exI [of _ pre] exI [of _ u] exI [of _ v] exI [of _ post]) simp
qed

definition demo_table :: "brigade_state \<Rightarrow> task_table" where
  "demo_table s = [(''t1'', (new_task ''t1'' ''plan.org'')\<lparr>t_state := s, t_queued_at := 5000000\<rparr>)]"

theorem live_needs_queue_witness:
  "\<exists>pre u v post. [demo_table DRAFT, demo_table QUEUED, demo_table STARTING] = pre @ u # v # post \<and>
    map_option t_state (gh_lookup u ''t1'') = Some QUEUED \<and> map_option t_state (gh_lookup v ''t1'') = Some STARTING"
proof -
  have "(case Ftask_transition 5000000 (demo_table DRAFT) (LStr ''t1'') (LSym ''queued'') Qnil of
      Inr (out, tab') \<Rightarrow> tab' = demo_table QUEUED | _ \<Rightarrow> False)" by code_simp
  then have 1: "task_step (demo_table DRAFT) (demo_table QUEUED)"
    by (auto split: sum.splits intro: task_step.transition)
  have "(case Ftask_transition 6000000 (demo_table QUEUED) (LStr ''t1'') (LSym ''starting'') Qnil of
      Inr (out, tab') \<Rightarrow> tab' = demo_table STARTING | _ \<Rightarrow> False)" by code_simp
  then have 2: "task_step (demo_table QUEUED) (demo_table STARTING)"
    by (auto split: sum.splits intro: task_step.transition)
  have "trace task_step (demo_table DRAFT) (demo_table QUEUED) ([demo_table DRAFT] @ [demo_table QUEUED])"
    using trace.trace_start 1 by (rule trace.trace_step)
  then have "trace task_step (demo_table DRAFT) (demo_table STARTING)
      (([demo_table DRAFT] @ [demo_table QUEUED]) @ [demo_table STARTING])"
    using 2 by (rule trace.trace_step)
  then have tr: "trace task_step (demo_table DRAFT) (demo_table STARTING) [demo_table DRAFT, demo_table QUEUED, demo_table STARTING]"
    by simp
  have t: "gh_invar (demo_table DRAFT)" "\<forall>t. gh_lookup (demo_table DRAFT) ''t1'' = Some t \<longrightarrow> \<not> state_live (t_state t)"
      "gh_lookup (demo_table STARTING) ''t1'' = Some ((new_task ''t1'' ''plan.org'')\<lparr>t_state := STARTING, t_queued_at := 5000000\<rparr>)"
      "state_live (t_state ((new_task ''t1'' ''plan.org'')\<lparr>t_state := STARTING, t_queued_at := 5000000\<rparr>))"
    by (simp_all add: gh_invar_def demo_table_def gh_lookup_def state_live_def)
  show ?thesis using live_needs_queue [OF tr t] by blast
qed

text \<open>
  A request to move a task is obeyed exactly when the machine allows the move.
  Obeyed, the answer shows the new state, an entry into a terminal state is stamped, a retry
  (to \<^verbatim>\<open>queued\<close> or \<^verbatim>\<open>draft\<close>) clears the previous outcome, a start time once set stays, and
  counters and all other tasks are untouched; refused, the table is unchanged and the answer
  carries \<^verbatim>\<open>:rejected\<close> and the state the task is still in.
\<close>

theorem transition_obeyed_iff_legal:
  assumes "gh_lookup tab (SSDATA i) = Some t"
    and "Ftask_transition now tab (LStr i) (LSym s) detail = Inr (out, tab')"
    and "to = state_from_name (Some (SSDATA s))"
  shows "(if can_transition (t_state t) to
    then plist_get out (LSym '':rejected'') = Qnil \<and>
      plist_get out (LSym '':state'') = LSym (state_name to) \<and>
      (\<exists>t'. gh_lookup tab' (SSDATA i) = Some t' \<and> t_state t' = to \<and>
         t_ended_at t' = (if state_terminal to then c_div now G_USEC_PER_SEC
           else if to \<in> {QUEUED, DRAFT} then 0 else t_ended_at t) \<and>
         t_error t' = if_string detail (if to \<in> {QUEUED, DRAFT} then None else t_error t) \<and>
         (t_started_at t \<noteq> 0 \<longrightarrow> t_started_at t' = t_started_at t) \<and>
         t_turns t' = t_turns t \<and> t_cost_micros t' = t_cost_micros t) \<and>
      (\<forall>j. j \<noteq> SSDATA i \<longrightarrow> gh_lookup tab' j = gh_lookup tab j)
    else tab' = tab \<and> plist_get out (LSym '':rejected'') = Qt \<and>
      plist_get out (LSym '':state'') = LSym (state_name (t_state t)))"
proof (cases "can_transition (t_state t) to")
  case True
  with assms have "out = task_to_plist (transition_task now to detail t)"
    "tab' = gh_replace (SSDATA i) (transition_task now to detail t) tab"
    by (auto simp: Ftask_transition_def Let_def)
  with True show ?thesis
    by (simp add: task_to_plist_def transition_task_times)
next
  case False
  with assms show ?thesis by (auto simp: Ftask_transition_def Let_def)
qed

theorem transition_obeyed_iff_legal_witness:
  "\<not> can_transition DONE RUNNING \<and>
   (\<exists>out. Ftask_transition 7 (demo_table DONE) (LStr ''t1'') (LSym ''running'') Qnil =
      Inr (out, demo_table DONE) \<and> plist_get out (LSym '':rejected'') = Qt)"
proof -
  obtain out tab' where r: "Ftask_transition 7 (demo_table DONE) (LStr ''t1'') (LSym ''running'') Qnil =
      Inr (out, tab')"
    using Ftask_transition_total by blast
  have n: "\<not> can_transition DONE RUNNING" by (simp add: can_transition_def)
  have l: "gh_lookup (demo_table DONE) (SSDATA ''t1'') =
      Some ((new_task ''t1'' ''plan.org'')\<lparr>t_state := DONE, t_queued_at := 5000000\<rparr>)"
    by (simp add: demo_table_def gh_lookup_def)
  have to: "RUNNING = state_from_name (Some (SSDATA ''running''))" by code_simp
  show ?thesis
    using transition_obeyed_iff_legal [OF l r to] n r by simp
qed

text \<open>
  After \<^verbatim>\<open>cmacs-brigade-state-interrupt-live\<close> nothing is live: exactly the tasks
  that were live are now \<^verbatim>\<open>interrupted\<close>, with an end time and everything else kept; the others
  are untouched; the count returned is the number of tasks changed. From \<^verbatim>\<open>interrupted\<close> a task
  can only be retried or sent back to draft, never resumed.
\<close>

theorem interrupt_live_leaves_none_live:
  assumes "Fstate_interrupt_live clock tab = (n, tab')" and "gh_size tab < 2 ^ 61"
  shows "n = LFix (int (length (filter (\<lambda>(k, t). state_live (t_state t)) (gh_entries tab)))) \<and>
    (\<forall>i. case gh_lookup tab i of None \<Rightarrow> gh_lookup tab' i = None
      | Some t \<Rightarrow> \<exists>e. gh_lookup tab' i = Some (if state_live (t_state t)
          then t\<lparr>t_state := INTERRUPTED, t_ended_at := e\<rparr> else t)) \<and>
    (\<forall>i t. gh_lookup tab' i = Some t \<longrightarrow> \<not> state_live (t_state t)) \<and>
    (\<forall>s. can_transition INTERRUPTED s \<longrightarrow> s \<in> {INTERRUPTED, QUEUED, DRAFT})"
proof (intro conjI allI)
  let ?live = "filter (\<lambda>(k, t). state_live (t_state t)) (gh_entries tab)"
  have "int (length ?live) \<le> int (gh_size tab)" by (simp add: gh_size_def gh_entries_def)
  also have "\<dots> < 2 ^ 61" using assms(2) by simp
  finally have "signed_take_bit 61 (int (length ?live)) = int (length ?live)"
    by (intro signed_take_bit_int_eq_self) auto
  then show "n = LFix (int (length ?live))"
    using assms(1) interrupt_walk_count [of clock 0 "gh_entries tab"]
    by (auto simp: Fstate_interrupt_live_def make_fixnum_def split: prod.splits)
next
  fix i
  show "case gh_lookup tab i of None \<Rightarrow> gh_lookup tab' i = None
      | Some t \<Rightarrow> \<exists>e. gh_lookup tab' i = Some (if state_live (t_state t)
          then t\<lparr>t_state := INTERRUPTED, t_ended_at := e\<rparr> else t)"
    using interrupt_live_lookup [OF assms(1), of i] by (auto split: option.splits)
next
  fix i t
  show "gh_lookup tab' i = Some t \<longrightarrow> \<not> state_live (t_state t)"
    using interrupt_live_lookup [OF assms(1), of i]
    by (cases "gh_lookup tab i"; cases "state_live (t_state (the (gh_lookup tab i)))") auto
qed (simp add: can_transition_def split: if_splits)

theorem interrupt_live_leaves_none_live_witness:
  "(\<exists>tab'. Fstate_interrupt_live (\<lambda>j. 9000000) (demo_table RUNNING) = (LFix 1, tab') \<and>
     (\<exists>e. gh_lookup tab' ''t1'' = Some ((new_task ''t1'' ''plan.org'')
        \<lparr>t_queued_at := 5000000, t_state := INTERRUPTED, t_ended_at := e\<rparr>)))"
proof -
  obtain n tab' where r: "Fstate_interrupt_live (\<lambda>j. 9000000) (demo_table RUNNING) = (n, tab')"
    by fastforce
  have "gh_size (demo_table RUNNING) < 2 ^ 61" by (simp add: demo_table_def gh_size_def)
  note w = interrupt_live_leaves_none_live [OF r this]
  then have n: "n = LFix 1"
    by (simp add: demo_table_def gh_entries_def state_live_def)
  from w have "case gh_lookup (demo_table RUNNING) ''t1'' of None \<Rightarrow> gh_lookup tab' ''t1'' = None
      | Some t \<Rightarrow> \<exists>e. gh_lookup tab' ''t1'' = Some (if state_live (t_state t)
          then t\<lparr>t_state := INTERRUPTED, t_ended_at := e\<rparr> else t)" by blast
  then show ?thesis using r n by (simp add: demo_table_def gh_lookup_def state_live_def)
qed

text \<open>
  A task keeps its place in the queue. No operation changes the time a task was
  queued at, except a move into \<^verbatim>\<open>queued\<close> or \<^verbatim>\<open>waiting-input\<close> from a different state: asking for
  the state it is already in, adopting it again, progress reports and restoring leave it alone.
\<close>

theorem queue_place_kept:
  assumes "gh_invar tab" and "task_step tab tab'"
    and "gh_lookup tab i = Some t" and "gh_lookup tab' i = Some t'"
    and "t_state t' = t_state t \<or> t_state t' \<notin> {QUEUED, WAITING_INPUT}"
  shows "t_queued_at t' = t_queued_at t"
  using task_step_evolves [OF assms(1,2), of i] assms(3-5) by auto

theorem queue_place_kept_witness:
  "\<exists>t'. gh_lookup (snd (projr (Ftask_transition 8000000 (demo_table QUEUED) (LStr ''t1'')
        (LSym ''queued'') Qnil))) ''t1'' = Some t' \<and> t_queued_at t' = 5000000"
proof -
  let ?r = "Ftask_transition 8000000 (demo_table QUEUED) (LStr ''t1'') (LSym ''queued'') Qnil"
  let ?t = "(new_task ''t1'' ''plan.org'')\<lparr>t_state := QUEUED, t_queued_at := 5000000\<rparr>"
  obtain out tab' where r: "?r = Inr (out, tab')"
    using Ftask_transition_total by blast
  have l: "gh_lookup (demo_table QUEUED) ''t1'' = Some ?t" by (simp add: demo_table_def gh_lookup_def)
  have "(case ?r of Inr (out, tab') \<Rightarrow> map_option t_state (gh_lookup tab' ''t1'') = Some QUEUED
      | _ \<Rightarrow> False)" by code_simp
  then obtain t' where t': "gh_lookup tab' ''t1'' = Some t'" "t_state t' = QUEUED" using r by auto
  have "t_queued_at t' = t_queued_at ?t"
    by (rule queue_place_kept [OF _ task_step.transition [OF r] l t'(1)])
       (simp_all add: t'(2) gh_invar_def demo_table_def)
  with r t' show ?thesis by simp
qed

definition add_report ::
  "string \<Rightarrow> int \<times> int \<times> int \<times> int \<Rightarrow> task_table \<Rightarrow> task_table" where
  "add_report i r tab =
     (case r of (a, b, c, d) \<Rightarrow>
        snd (projr (Ftask_progress_add tab (LStr i) (LFix a) (LFix b) (LFix c) (LFix d))))"

lemma to_gint64_add: "to_gint64 (to_gint64 x + y) = to_gint64 (x + y)"
proof -
  have "signed_take_bit 63 (signed_take_bit 63 x + y) =
      signed_take_bit 63 (signed_take_bit 63 (signed_take_bit 63 x) + signed_take_bit 63 y)"
    by (simp only: signed_take_bit_add)
  also have "\<dots> = signed_take_bit 63 (signed_take_bit 63 x + signed_take_bit 63 y)" by simp
  also have "\<dots> = signed_take_bit 63 (x + y)" by (simp only: signed_take_bit_add)
  finally show ?thesis by (simp only: to_gint64_def)
qed

text \<open>
  Spending does not drift. However a conversation's usage is split into
  \<^verbatim>\<open>progress-add\<close> reports, the totals are the old totals plus the sums of the reports, wrapped to
  the width of each counter (so exact while they fit), and no other field and no other task
  changes.
\<close>

theorem progress_add_accumulates:
  assumes "gh_lookup tab (SSDATA i) = Some t" and "gint64_range (t_cost_micros t)"
  shows "gh_lookup (fold (add_report i) rs tab) (SSDATA i) = Some (t\<lparr>
      t_turns := t_turns t + of_int (\<Sum>(a, b, c, d) \<leftarrow> rs. a),
      t_in_tokens := t_in_tokens t + of_int (\<Sum>(a, b, c, d) \<leftarrow> rs. b),
      t_out_tokens := t_out_tokens t + of_int (\<Sum>(a, b, c, d) \<leftarrow> rs. c),
      t_cost_micros := to_gint64 (t_cost_micros t + (\<Sum>(a, b, c, d) \<leftarrow> rs. d))\<rparr>) \<and>
    (\<forall>j. j \<noteq> SSDATA i \<longrightarrow> gh_lookup (fold (add_report i) rs tab) j = gh_lookup tab j)"
  using assms
proof (induction rs arbitrary: tab t)
  case Nil
  then show ?case by simp
next
  case (Cons r rs)
  obtain a b c d where r: "r = (a, b, c, d)" by (cases r)
  let ?t = "add_progress (LFix a) (LFix b) (LFix c) (LFix d) t"
  have tab: "add_report i r tab = gh_replace (SSDATA i) ?t tab"
    using Cons.prems(1) by (simp add: add_report_def r Ftask_progress_add_def Let_def)
  have "gint64_range (t_cost_micros ?t)"
    using signed_take_bit_int_greater_eq_minus_exp [of 63] signed_take_bit_int_less_exp [of 63]
    by (simp add: add_progress_def if_fixnum_def gint64_range_def to_gint64_def)
  from Cons.IH [of "gh_replace (SSDATA i) ?t tab" ?t, OF _ this] show ?case
    by (simp add: tab [unfolded r] r add_progress_def if_fixnum_def add.assoc to_gint64_add)
qed

theorem progress_add_accumulates_witness:
  "map_option t_cost_micros (gh_lookup (fold (add_report ''t1'')
      [(1, 100, 10, 2500), (1, 200, 20, 1500)] (demo_table RUNNING)) ''t1'') = Some 4000 \<and>
   map_option t_turns (gh_lookup (fold (add_report ''t1'')
      [(1, 100, 10, 2500), (1, 200, 20, 1500)] (demo_table RUNNING)) ''t1'') = Some 2"
proof -
  have l: "gh_lookup (demo_table RUNNING) (SSDATA ''t1'') =
      Some ((new_task ''t1'' ''plan.org'')\<lparr>t_state := RUNNING, t_queued_at := 5000000\<rparr>)"
    by (simp add: demo_table_def gh_lookup_def)
  have "SSDATA ''t1'' = ''t1''" by simp
  then show ?thesis
    using progress_add_accumulates [OF l, of "[(1, 100, 10, 2500), (1, 200, 20, 1500)]"]
    by (simp add: new_task_def gint64_range_def)
qed

end
