(* ===== verification/Brigade_Chunk.thy ===== *)
theory Brigade_Chunk
  imports Utf8
begin

text \<open>
  \<^verbatim>\<open>src/cmacs/ai-brigade/cmacs-brigade-chunk.c\<close>: the line scanner that splits a document into the chunks
  that get embedded. \<^verbatim>\<open>g_strchug\<close> works in place, so from the drawer tests on a line has lost its
  indentation; the model keeps that. The loop that splits an oversized buffer may run forever, so
  it is a partial function whose value is then \<open>None\<close>.
\<close>

abbreviation (input) CHUNK_OVERLAP_DEFAULT :: nat where "CHUNK_OVERLAP_DEFAULT \<equiv> 200"
abbreviation (input) CHUNK_MAX_SRC_LINES :: nat where "CHUNK_MAX_SRC_LINES \<equiv> 10"
abbreviation (input) NEWLINE :: char where "NEWLINE \<equiv> CHR 0x0A"

record brigade_chunk =
  ch_text :: string
  ch_heading :: string
  ch_byte_start :: nat
  ch_byte_len :: nat

record chunk_state =
  ck_out :: "brigade_chunk list"
  ck_buf :: string
  ck_headings :: "string list"
  ck_path :: "string option"
  ck_target :: nat
  ck_overlap :: nat
  ck_buf_start :: nat
  ck_cursor :: nat
  ck_pending :: "string option"

definition breadcrumb :: "chunk_state \<Rightarrow> string" where
  "breadcrumb st =
     fold (\<lambda>h s. if h = [] then s else s @ '' > '' @ h) (ck_headings st)
       (case ck_path st of Some p \<Rightarrow> p | None \<Rightarrow> [])"

definition mark_start :: "chunk_state \<Rightarrow> chunk_state" where
  "mark_start st = (if ck_pending st = None then st\<lparr>ck_pending := Some (breadcrumb st)\<rparr> else st)"

definition flush :: "chunk_state \<Rightarrow> chunk_state" where
  "flush st =
     (if ck_buf st = [] then st
      else
        (let trimmed = g_strstrip (ck_buf st) in
         if trimmed = [] then st\<lparr>ck_buf := [], ck_pending := None, ck_buf_start := ck_cursor st\<rparr>
         else
           st\<lparr>ck_out := ck_out st @
                [\<lparr>ch_text = trimmed,
                  ch_heading = (case ck_pending st of Some h \<Rightarrow> h | None \<Rightarrow> breadcrumb st),
                  ch_byte_start = ck_buf_start st, ch_byte_len = length (ck_buf st)\<rparr>],
              ck_pending := None, ck_buf := [], ck_buf_start := ck_cursor st\<rparr>))"

section \<open>Splitting an oversized buffer\<close>

text \<open>The indices the two searches visit, from the target down to just above its half.\<close>

definition back_half :: "nat \<Rightarrow> nat list" where
  "back_half target = rev [target div 2 + 1..<target + 1]"

definition paragraph_cut :: "nat \<Rightarrow> string \<Rightarrow> nat" where
  "paragraph_cut target s =
     (case find (\<lambda>i. s ! i = NEWLINE \<and> i > 0 \<and> s ! (i - 1) = NEWLINE) (back_half target) of
        Some i \<Rightarrow> i | None \<Rightarrow> target)"

definition sentence_cut :: "nat \<Rightarrow> string \<Rightarrow> nat \<Rightarrow> nat" where
  "sentence_cut target s ct =
     (if ct = target then
        (case find (\<lambda>i. (s ! i = CHR ''.'' \<or> s ! i = CHR ''?'' \<or> s ! i = CHR ''!'')
                 \<and> i + 1 < length s \<and> s ! (i + 1) = CHR '' '') (back_half target) of
           Some i \<Rightarrow> i + 1 | None \<Rightarrow> ct)
      else ct)"

text \<open>\<^verbatim>\<open>while (k < limit && (s[k] & 0xC0) == 0x80) k++;\<close>\<close>

function skip_continuation :: "string \<Rightarrow> nat \<Rightarrow> nat \<Rightarrow> nat" where
  "skip_continuation s limit k =
     (if k < limit \<and> utf8_continuation (s ! k) then skip_continuation s limit (k + 1) else k)"
  by pat_completeness auto
termination
  by (relation "measure (\<lambda>(s, limit, k). limit - k)") auto

declare skip_continuation.simps [simp del]

definition chunk_cut :: "nat \<Rightarrow> string \<Rightarrow> nat" where
  "chunk_cut target s =
     skip_continuation s (length s) (sentence_cut target s (paragraph_cut target s))"

definition split_once :: "chunk_state \<Rightarrow> chunk_state" where
  "split_once st =
     (let s = ck_buf st;
          ct = chunk_cut (ck_target st) s;
          head = take ct s;
          tl0 = drop ct s;
          back = min (ck_overlap st) ct;
          off = skip_continuation s ct (ct - back);
          carry = take (ct - off) (drop off s);
          st1 = flush (st\<lparr>ck_buf := head\<rparr>)
      in st1\<lparr>ck_buf := carry @ tl0\<rparr>)"

partial_function (option) flush_oversized :: "chunk_state \<Rightarrow> chunk_state option" where
  "flush_oversized st =
     (if length (ck_buf st) > ck_target st * 2 then flush_oversized (split_once st) else Some st)"

declare flush_oversized.simps [code]

section \<open>The scanner\<close>

definition headline_level :: "string \<Rightarrow> nat" where
  "headline_level line =
     (let n = length (takeWhile (\<lambda>c. c = CHR ''*'') line)
      in if n > 0 \<and> n < length line \<and> line ! n = CHR '' '' then n else 0)"

record chunk_scan =
  sc_st :: chunk_state
  sc_in_drawer :: bool
  sc_in_src :: bool
  sc_src_lines :: nat
  sc_src_buf :: string

definition append_line :: "string \<Rightarrow> chunk_state \<Rightarrow> chunk_state" where
  "append_line line st = (let st1 = mark_start st in st1\<lparr>ck_buf := ck_buf st1 @ line @ [NEWLINE]\<rparr>)"

definition enter_heading :: "nat \<Rightarrow> string \<Rightarrow> chunk_state \<Rightarrow> chunk_state" where
  "enter_heading level line st =
     (let st1 = (if length (ck_buf st) \<ge> ck_target st then flush st else st);
          title = dropWhile (\<lambda>c. c = CHR '' '') (drop level line)
      in append_line line (st1\<lparr>ck_headings := take (level - 1) (ck_headings st1) @ [title]\<rparr>))"

definition scan_line :: "string \<Rightarrow> chunk_scan \<Rightarrow> chunk_scan option" where
  "scan_line line0 sc0 =
     (let sc = sc0\<lparr>sc_st := (sc_st sc0)\<lparr>ck_cursor := ck_cursor (sc_st sc0) + (length line0 + 1)\<rparr>\<rparr>;
          line = g_strchug line0
      in if sc_in_drawer sc then
           Some (if has_prefix_nocase '':END:'' line then sc\<lparr>sc_in_drawer := False\<rparr> else sc)
         else if g_str_has_prefix line '':LOGBOOK:'' \<or> g_str_has_prefix line '':PROPERTIES:'' then
           Some (sc\<lparr>sc_in_drawer := True\<rparr>)
         else if sc_in_src sc then
           Some (if has_prefix_nocase ''#+end_'' line then
                   sc\<lparr>sc_in_src := False,
                      sc_st := (if sc_src_lines sc \<le> CHUNK_MAX_SRC_LINES
                                then (let st1 = mark_start (sc_st sc) in st1\<lparr>ck_buf := ck_buf st1 @ sc_src_buf sc\<rparr>)
                                else sc_st sc),
                      sc_src_buf := [], sc_src_lines := 0\<rparr>
                 else sc\<lparr>sc_src_buf := sc_src_buf sc @ line @ [NEWLINE], sc_src_lines := sc_src_lines sc + 1\<rparr>)
         else if has_prefix_nocase ''#+begin_src'' line \<or> has_prefix_nocase ''#+begin_example'' line then
           Some (sc\<lparr>sc_in_src := True, sc_src_lines := 0\<rparr>)
         else if headline_level line > 0 then
           Some (sc\<lparr>sc_st := enter_heading (headline_level line) line (sc_st sc)\<rparr>)
         else
           (let st1 = append_line line (sc_st sc)
            in if length (ck_buf st1) > ck_target st1 * 2
               then map_option (\<lambda>st2. sc\<lparr>sc_st := st2\<rparr>) (flush_oversized st1)
               else Some (sc\<lparr>sc_st := st1\<rparr>)))"

fun scan_lines :: "string list \<Rightarrow> chunk_scan \<Rightarrow> chunk_scan option" where
  "scan_lines [] sc = Some sc"
| "scan_lines (l # ls) sc = (case scan_line l sc of None \<Rightarrow> None | Some sc' \<Rightarrow> scan_lines ls sc')"

definition chunk_start :: "string option \<Rightarrow> nat \<Rightarrow> nat \<Rightarrow> chunk_scan" where
  "chunk_start path target overlap =
     \<lparr>sc_st = \<lparr>ck_out = [], ck_buf = [], ck_headings = [], ck_path = path,
        ck_target = (if target > 0 then target else 1400),
        ck_overlap = (if overlap > 0 then overlap else CHUNK_OVERLAP_DEFAULT),
        ck_buf_start = 0, ck_cursor = 0, ck_pending = None\<rparr>,
      sc_in_drawer = False, sc_in_src = False, sc_src_lines = 0, sc_src_buf = []\<rparr>"

definition chunk_text :: "string option \<Rightarrow> string option \<Rightarrow> nat \<Rightarrow> nat \<Rightarrow> brigade_chunk list option" where
  "chunk_text txt0 path target overlap =
     (case txt0 of None \<Rightarrow> Some []
      | Some t \<Rightarrow>
          map_option (\<lambda>sc. ck_out (flush (sc_st sc)))
            (scan_lines (g_strsplit NEWLINE t) (chunk_start path target overlap)))"

section \<open>Termination\<close>

lemma skip_continuation_ge: "k \<le> skip_continuation s limit k"
  by (induction s limit k rule: skip_continuation.induct) (subst skip_continuation.simps, auto)

lemma skip_continuation_le: "k \<le> limit \<Longrightarrow> skip_continuation s limit k \<le> limit"
  by (induction s limit k rule: skip_continuation.induct) (subst skip_continuation.simps, auto)

lemma skip_continuation_stop:
  "skip_continuation s limit k < limit \<Longrightarrow> \<not> utf8_continuation (s ! skip_continuation s limit k)"
proof (induction s limit k rule: skip_continuation.induct)
  case (1 s limit k)
  then show ?case
    by (cases "k < limit \<and> utf8_continuation (s ! k)") (simp_all add: skip_continuation.simps [of s limit k])
qed

lemma find_back_half: "find P (back_half target) = Some i \<Longrightarrow> target div 2 < i \<and> i \<le> target \<and> P i"
  by (auto simp: back_half_def dest!: find_SomeD)

lemma paragraph_cut_range: "0 < target \<Longrightarrow> target div 2 < paragraph_cut target s \<and> paragraph_cut target s \<le> target"
proof (cases "find (\<lambda>i. s ! i = NEWLINE \<and> i > 0 \<and> s ! (i - 1) = NEWLINE) (back_half target)")
  case (Some i)
  then show ?thesis using find_back_half [OF Some] by (simp add: paragraph_cut_def)
qed (simp add: paragraph_cut_def)

lemma sentence_cut_range:
  assumes "0 < target" "target < length s"
  shows "target div 2 < sentence_cut target s (paragraph_cut target s) \<and>
    sentence_cut target s (paragraph_cut target s) \<le> length s"
proof -
  have "target div 2 < i + 1 \<and> i + 1 \<le> length s" if "find (\<lambda>i. (s ! i = CHR ''.'' \<or> s ! i = CHR ''?'' \<or> s ! i = CHR ''!'')
      \<and> i + 1 < length s \<and> s ! (i + 1) = CHR '' '') (back_half target) = Some i" for i
    using find_back_half [OF that] by auto
  moreover have "target div 2 < paragraph_cut target s" "paragraph_cut target s \<le> length s"
    using paragraph_cut_range [OF assms(1), of s] assms(2) by auto
  ultimately show ?thesis by (simp add: sentence_cut_def split: option.split)
qed

lemma chunk_cut_range:
  assumes "0 < target" "target < length s"
  shows "target div 2 < chunk_cut target s \<and> chunk_cut target s \<le> length s"
  using sentence_cut_range [OF assms]
    skip_continuation_ge [of "sentence_cut target s (paragraph_cut target s)" s "length s"]
    skip_continuation_le [of "sentence_cut target s (paragraph_cut target s)" "length s" s]
  unfolding chunk_cut_def by linarith

lemma flush_keeps [simp]:
  "ck_target (flush st) = ck_target st" "ck_overlap (flush st) = ck_overlap st" "ck_buf (flush st) = []"
  by (simp_all add: flush_def Let_def)

lemma split_once_keeps [simp]: "ck_target (split_once st) = ck_target st" "ck_overlap (split_once st) = ck_overlap st"
  by (simp_all add: split_once_def Let_def)

lemma split_once_shrinks:
  assumes "0 < ck_target st" "ck_overlap st \<le> ck_target st div 2" "ck_target st * 2 < length (ck_buf st)"
  shows "length (ck_buf (split_once st)) < length (ck_buf st)"
proof -
  let ?s = "ck_buf st"
  let ?c = "chunk_cut (ck_target st) ?s"
  let ?off = "skip_continuation ?s ?c (?c - min (ck_overlap st) ?c)"
  have c: "ck_target st div 2 < ?c" "?c \<le> length ?s"
    using chunk_cut_range [of "ck_target st" ?s] assms by auto
  have "0 < ?c - min (ck_overlap st) ?c" using c assms(2) by simp
  then have "0 < ?off" using skip_continuation_ge [of "?c - min (ck_overlap st) ?c" ?s ?c] by linarith
  moreover have "?off \<le> ?c" by (rule skip_continuation_le) simp
  moreover have "length (ck_buf (split_once st)) = length (take (?c - ?off) (drop ?off ?s)) + (length ?s - ?c)"
    by (simp add: split_once_def Let_def)
  moreover have "length (take (?c - ?off) (drop ?off ?s)) \<le> ?c - ?off" by simp
  ultimately show ?thesis using c by linarith
qed

lemma flush_oversized_total:
  "0 < ck_target st \<Longrightarrow> ck_overlap st \<le> ck_target st div 2 \<Longrightarrow>
     \<exists>st'. flush_oversized st = Some st' \<and> length (ck_buf st') \<le> ck_target st * 2 \<and>
       ck_target st' = ck_target st \<and> ck_overlap st' = ck_overlap st"
proof (induction "length (ck_buf st)" arbitrary: st rule: less_induct)
  case less
  show ?case
  proof (cases "length (ck_buf st) > ck_target st * 2")
    case True
    then have "flush_oversized st = flush_oversized (split_once st)" by (subst flush_oversized.simps) simp
    then show ?thesis using less.hyps [of "split_once st"] split_once_shrinks less.prems True by simp
  next
    case False
    then show ?thesis by (subst flush_oversized.simps) simp
  qed
qed

lemma append_line_keeps [simp]:
  "ck_target (append_line l st) = ck_target st" "ck_overlap (append_line l st) = ck_overlap st"
  by (simp_all add: append_line_def mark_start_def Let_def)

lemma mark_start_keeps [simp]:
  "ck_target (mark_start st) = ck_target st" "ck_overlap (mark_start st) = ck_overlap st"
  by (simp_all add: mark_start_def)

lemma enter_heading_keeps [simp]:
  "ck_target (enter_heading n l st) = ck_target st" "ck_overlap (enter_heading n l st) = ck_overlap st"
  by (simp_all add: enter_heading_def Let_def)

text \<open>The setting under which every split makes progress: the overlap is at most half the target.\<close>

definition overlap_fits :: "chunk_state \<Rightarrow> bool" where
  "overlap_fits st \<longleftrightarrow> 0 < ck_target st \<and> ck_overlap st \<le> ck_target st div 2"

lemma scan_line_total:
  assumes "overlap_fits (sc_st sc)" shows "\<exists>sc'. scan_line l sc = Some sc' \<and> overlap_fits (sc_st sc')"
proof -
  define st1 where "st1 = append_line (g_strchug l) ((sc_st sc)\<lparr>ck_cursor := ck_cursor (sc_st sc) + (length l + 1)\<rparr>)"
  have "overlap_fits st1" using assms by (simp add: st1_def overlap_fits_def)
  then obtain st2 where "flush_oversized st1 = Some st2" "overlap_fits st2"
    using flush_oversized_total [of st1] unfolding overlap_fits_def by metis
  with assms show ?thesis
    unfolding scan_line_def Let_def st1_def by (simp add: overlap_fits_def)
qed

lemma scan_lines_total: "overlap_fits (sc_st sc) \<Longrightarrow> \<exists>sc'. scan_lines ls sc = Some sc'"
proof (induction ls arbitrary: sc)
  case (Cons l ls)
  then obtain sc' where "scan_line l sc = Some sc'" "overlap_fits (sc_st sc')" using scan_line_total by blast
  with Cons.IH show ?case by simp
qed simp

section \<open>What a chunk holds\<close>

definition chunk_valid :: "brigade_chunk \<Rightarrow> bool" where
  "chunk_valid c \<longleftrightarrow> ch_text c \<noteq> [] \<and> g_strstrip (ch_text c) = ch_text c \<and>
     g_utf8_validate (ch_text c) \<and> g_utf8_validate (ch_heading c)"

definition chunk_state_ok :: "chunk_state \<Rightarrow> bool" where
  "chunk_state_ok st \<longleftrightarrow> list_all chunk_valid (ck_out st) \<and> g_utf8_validate (ck_buf st) \<and>
     list_all g_utf8_validate (ck_headings st) \<and> pred_option g_utf8_validate (ck_path st) \<and>
     pred_option g_utf8_validate (ck_pending st)"

lemma valid_newline [simp]: "g_utf8_validate [NEWLINE]"
  by (rule utf8_validate_ascii) simp

lemma valid_crumb: "g_utf8_validate '' > ''"
  by (rule utf8_validate_ascii) simp

lemma valid_breadcrumb:
  assumes "chunk_state_ok st" shows "g_utf8_validate (breadcrumb st)"
proof -
  have "g_utf8_validate s \<Longrightarrow> list_all g_utf8_validate hs \<Longrightarrow>
      g_utf8_validate (fold (\<lambda>h s. if h = [] then s else s @ '' > '' @ h) hs s)" for hs s
  proof (induction hs arbitrary: s)
    case (Cons h hs)
    then have "g_utf8_validate (s @ '' > '' @ h)" by (intro utf8_validate_append valid_crumb) simp_all
    with Cons show ?case by simp
  qed simp
  with assms show ?thesis
    unfolding breadcrumb_def chunk_state_ok_def by (cases "ck_path st") simp_all
qed

lemma mark_start_ok: "chunk_state_ok st \<Longrightarrow> chunk_state_ok (mark_start st)"
  using valid_breadcrumb [of st] by (auto simp: mark_start_def chunk_state_ok_def)

lemma buf_append_ok:
  "chunk_state_ok st \<Longrightarrow> g_utf8_validate s \<Longrightarrow> chunk_state_ok (st\<lparr>ck_buf := ck_buf st @ s\<rparr>)"
  by (simp add: chunk_state_ok_def utf8_validate_append)

lemma append_line_ok: "chunk_state_ok st \<Longrightarrow> g_utf8_validate l \<Longrightarrow> chunk_state_ok (append_line l st)"
  unfolding append_line_def Let_def by (intro buf_append_ok mark_start_ok utf8_validate_append) simp_all

lemma flush_ok:
  assumes "chunk_state_ok st" shows "chunk_state_ok (flush st)"
proof -
  have "g_utf8_validate (g_strstrip (ck_buf st))"
    using assms by (simp add: chunk_state_ok_def utf8_validate_strip)
  moreover have "g_utf8_validate (case ck_pending st of Some h \<Rightarrow> h | None \<Rightarrow> breadcrumb st)"
    using assms valid_breadcrumb [OF assms] by (cases "ck_pending st") (simp_all add: chunk_state_ok_def)
  ultimately show ?thesis
    using assms by (simp add: flush_def Let_def chunk_state_ok_def chunk_valid_def g_strstrip_idem)
qed

lemma split_once_ok:
  assumes ok: "chunk_state_ok st" and t: "0 < ck_target st" "ck_target st * 2 < length (ck_buf st)"
  shows "chunk_state_ok (split_once st)"
proof -
  define s where "s = ck_buf st"
  define c where "c = chunk_cut (ck_target st) s"
  define off where "off = skip_continuation s c (c - min (ck_overlap st) c)"
  have v: "g_utf8_validate s" using ok by (simp add: chunk_state_ok_def s_def)
  have c: "c \<le> length s" using chunk_cut_range [of "ck_target st" s] t by (simp add: c_def s_def)
  have "\<not> utf8_continuation (s ! c)" if "c < length s"
    using skip_continuation_stop that unfolding c_def chunk_cut_def .
  then have vc: "g_utf8_validate (take c s) \<and> g_utf8_validate (drop c s)" using utf8_validate_cut [OF v c] by blast
  have off: "off \<le> c" unfolding off_def by (rule skip_continuation_le) simp
  have "\<not> utf8_continuation (s ! off)" if "off < c"
    using skip_continuation_stop that unfolding off_def .
  then have "g_utf8_validate (drop off (take c s))"
    using utf8_validate_cut [of "take c s" off] vc off c by simp
  then have carry: "g_utf8_validate (take (c - off) (drop off s) @ drop c s)"
    using vc by (simp add: drop_take utf8_validate_append)
  have "chunk_state_ok (flush (st\<lparr>ck_buf := take c s\<rparr>))"
    using ok vc by (intro flush_ok) (simp add: chunk_state_ok_def)
  then have "chunk_state_ok ((flush (st\<lparr>ck_buf := take c s\<rparr>))\<lparr>ck_buf := take (c - off) (drop off s) @ drop c s\<rparr>)"
    using carry by (simp add: chunk_state_ok_def)
  then show ?thesis unfolding split_once_def Let_def c_def off_def s_def .
qed

lemma flush_oversized_ok:
  "flush_oversized st = Some st' \<Longrightarrow> chunk_state_ok st \<and> 0 < ck_target st \<longrightarrow> chunk_state_ok st' \<and> 0 < ck_target st'"
proof (erule flush_oversized.raw_induct [rotated])
  fix fo st st'
  assume IH: "\<And>st st'. fo st = Some st' \<Longrightarrow>
      chunk_state_ok st \<and> 0 < ck_target st \<longrightarrow> chunk_state_ok st' \<and> 0 < ck_target st'"
    and body: "(if ck_target st * 2 < length (ck_buf st) then fo (split_once st) else Some st) = Some st'"
  show "chunk_state_ok st \<and> 0 < ck_target st \<longrightarrow> chunk_state_ok st' \<and> 0 < ck_target st'"
  proof (cases "ck_target st * 2 < length (ck_buf st)")
    case True
    with body have "fo (split_once st) = Some st'" by simp
    note IH [OF this]
    then show ?thesis using split_once_ok [of st] True by simp
  next
    case False
    then show ?thesis using body by simp
  qed
qed

definition chunk_scan_ok :: "chunk_scan \<Rightarrow> bool" where
  "chunk_scan_ok sc \<longleftrightarrow> chunk_state_ok (sc_st sc) \<and> 0 < ck_target (sc_st sc) \<and> g_utf8_validate (sc_src_buf sc)"

lemma enter_heading_ok:
  assumes "chunk_state_ok st" "g_utf8_validate l" "n = headline_level l"
  shows "chunk_state_ok (enter_heading n l st)"
proof -
  have stars: "list_all (\<lambda>c. c = CHR ''*'') (take n l)"
    unfolding assms(3) headline_level_def Let_def list_all_iff
    by (simp split: if_split) (metis set_takeWhileD takeWhile_eq_take)
  have "g_utf8_validate (drop n l)"
  proof -
    have "g_utf8_validate (s @ t) \<Longrightarrow> list_all (\<lambda>c. c = CHR ''*'') s \<Longrightarrow> g_utf8_validate t" for s t
      by (induction s) (auto simp: is_ascii_def dest: utf8_validate_tl)
    then show ?thesis using stars assms(2) append_take_drop_id by metis
  qed
  then have title: "g_utf8_validate (dropWhile (\<lambda>c. c = CHR '' '') (drop n l))"
    by (rule utf8_validate_dropWhile) (simp add: is_ascii_def)
  define st1 where "st1 = (if length (ck_buf st) \<ge> ck_target st then flush st else st)"
  have "chunk_state_ok st1" using assms(1) flush_ok by (simp add: st1_def)
  then have "chunk_state_ok (st1\<lparr>ck_headings := take (n - 1) (ck_headings st1) @ [dropWhile (\<lambda>c. c = CHR '' '') (drop n l)]\<rparr>)"
    using title by (auto simp: chunk_state_ok_def list_all_iff dest: in_set_takeD)
  then show ?thesis
    unfolding enter_heading_def Let_def st1_def using append_line_ok assms(2) by blast
qed

lemma scan_line_ok:
  assumes "chunk_scan_ok sc" "g_utf8_validate l" "scan_line l sc = Some sc'" shows "chunk_scan_ok sc'"
proof -
  define st0 where "st0 = (sc_st sc)\<lparr>ck_cursor := ck_cursor (sc_st sc) + (length l + 1)\<rparr>"
  have st0: "chunk_state_ok st0" "0 < ck_target st0"
    using assms(1) by (simp_all add: st0_def chunk_scan_ok_def chunk_state_ok_def)
  have l: "g_utf8_validate (g_strchug l)" using assms(2) by (rule utf8_validate_chug)
  have src: "g_utf8_validate (sc_src_buf sc)" using assms(1) by (simp add: chunk_scan_ok_def)
  have app: "chunk_state_ok (append_line (g_strchug l) st0)" using append_line_ok st0(1) l .
  have kept: "chunk_state_ok (let st1 = mark_start st0 in st1\<lparr>ck_buf := ck_buf st1 @ sc_src_buf sc\<rparr>)"
    unfolding Let_def using buf_append_ok mark_start_ok st0(1) src by blast
  have head: "chunk_state_ok (enter_heading (headline_level (g_strchug l)) (g_strchug l) st0)"
    using enter_heading_ok [OF st0(1) l refl] .
  have line: "g_utf8_validate (sc_src_buf sc @ g_strchug l @ [NEWLINE])"
    by (intro utf8_validate_append src l) simp
  have over: "chunk_state_ok st2 \<and> 0 < ck_target st2"
    if "flush_oversized (append_line (g_strchug l) st0) = Some st2" for st2
    using flush_oversized_ok [OF that] app st0(2) by simp
  note defs = chunk_scan_ok_def Let_def
  from assms(3) show ?thesis
    unfolding scan_line_def Let_def st0_def [symmetric]
    using st0 src app kept head line over
    by (auto simp: defs split: if_split_asm)
qed

lemma scan_lines_ok:
  "scan_lines ls sc = Some sc' \<Longrightarrow> chunk_scan_ok sc \<Longrightarrow> list_all g_utf8_validate ls \<Longrightarrow> chunk_scan_ok sc'"
proof (induction ls arbitrary: sc)
  case (Cons l ls)
  then show ?case using scan_line_ok [of sc l] by (simp split: option.split_asm)
qed simp

lemma chunk_start_ok: "pred_option g_utf8_validate path \<Longrightarrow> chunk_scan_ok (chunk_start path target overlap)"
  by (simp add: chunk_start_def chunk_scan_ok_def chunk_state_ok_def)

lemma chunk_text_returns:
  assumes "(if overlap > 0 then overlap else CHUNK_OVERLAP_DEFAULT) \<le> (if target > 0 then target else 1400) div 2"
  shows "\<exists>cs. chunk_text txt0 path target overlap = Some cs"
proof (cases txt0)
  case (Some t)
  have "overlap_fits (sc_st (chunk_start path target overlap))"
    using assms by (simp add: overlap_fits_def chunk_start_def)
  then show ?thesis using scan_lines_total Some unfolding chunk_text_def by fastforce
qed (simp add: chunk_text_def)

text \<open>
  Property (C37). With an overlap of at most half the chunk size, the defaults standing in for zeros, chunking
  any document under any path returns: the loop that splits an oversized buffer ends.
\<close>

theorem chunk_terminates:
  assumes "(if overlap > 0 then overlap else CHUNK_OVERLAP_DEFAULT) \<le> (if target > 0 then target else 1400) div 2"
  shows "\<exists>cs. chunk_text txt0 path target overlap = Some cs"
  using assms by (rule chunk_text_returns)

theorem chunk_terminates_witness:
  "\<exists>cs. chunk_text (Some (replicate 40 CHR ''a'')) None 4 2 = Some cs"
  using chunk_terminates [of 2 4 "Some (replicate 40 CHR ''a'')" None] by simp

lemma chunk_text_valid:
  assumes "chunk_text (Some t) path target overlap = Some cs" "g_utf8_validate t" "pred_option g_utf8_validate path"
  shows "list_all (\<lambda>c. ch_text c \<noteq> [] \<and> g_strstrip (ch_text c) = ch_text c \<and>
    g_utf8_validate (ch_text c) \<and> g_utf8_validate (ch_heading c)) cs"
proof -
  obtain sc where sc: "scan_lines (g_strsplit NEWLINE t) (chunk_start path target overlap) = Some sc"
      "cs = ck_out (flush (sc_st sc))"
    using assms(1) by (auto simp: chunk_text_def)
  have "list_all g_utf8_validate (g_strsplit NEWLINE t)"
    using utf8_validate_split [OF assms(2), of NEWLINE] by (auto simp: g_strsplit_def list_all_iff is_ascii_def)
  then have "chunk_scan_ok sc" using scan_lines_ok sc(1) chunk_start_ok assms(3) by blast
  then have "chunk_state_ok (flush (sc_st sc))" by (simp add: chunk_scan_ok_def flush_ok)
  then show ?thesis using sc(2) by (auto simp: chunk_state_ok_def chunk_valid_def list_all_iff)
qed

text \<open>
  Property (C38). Every chunk of a valid UTF-8 document, chunked under a path that is valid UTF-8 too (or under none),
  is text to embed: it is not empty, it neither starts nor ends with white space, and both it and its
  breadcrumb are valid UTF-8, wherever the splitter cut. This holds of every list of chunks the splitter
  returns, and with an overlap of at most half the chunk size, the defaults standing in for zeros, it does return one.
\<close>

theorem chunk_wellformed:
  assumes "g_utf8_validate t" "pred_option g_utf8_validate path"
  shows "(\<forall>cs. chunk_text (Some t) path target overlap = Some cs \<longrightarrow>
      list_all (\<lambda>c. ch_text c \<noteq> [] \<and> g_strstrip (ch_text c) = ch_text c \<and>
        g_utf8_validate (ch_text c) \<and> g_utf8_validate (ch_heading c)) cs) \<and>
    ((if overlap > 0 then overlap else CHUNK_OVERLAP_DEFAULT) \<le> (if target > 0 then target else 1400) div 2 \<longrightarrow>
      (\<exists>cs. chunk_text (Some t) path target overlap = Some cs))"
  using chunk_text_valid [OF _ assms] chunk_text_returns by blast

theorem chunk_wellformed_witness:
  "\<exists>cs. chunk_text (Some (''* A'' @ [NEWLINE] @ ''abc'' @ [CHR 0xC3, CHR 0xA9] @ ''fgh'')) (Some ''f'') 4 2 = Some cs \<and>
    list_all (\<lambda>c. ch_text c \<noteq> [] \<and> g_strstrip (ch_text c) = ch_text c \<and>
      g_utf8_validate (ch_text c) \<and> g_utf8_validate (ch_heading c)) cs"
proof -
  let ?t = "''* A'' @ [NEWLINE] @ ''abc'' @ [CHR 0xC3, CHR 0xA9] @ ''fgh''"
  have t: "g_utf8_validate ?t" by code_simp
  have p: "pred_option g_utf8_validate (Some ''f'')" by (simp add: utf8_validate_ascii)
  have o: "(if (2 :: nat) > 0 then 2 else CHUNK_OVERLAP_DEFAULT) \<le> (if (4 :: nat) > 0 then 4 else 1400) div 2" by simp
  show ?thesis using chunk_wellformed [OF t p, of 4 2] o by blast
qed

section \<open>An overlap that reaches the cut\<close>

definition stuck :: "chunk_state \<Rightarrow> bool" where
  "stuck st \<longleftrightarrow> ck_target st * 2 < length (ck_buf st) \<and> \<not> utf8_continuation (ck_buf st ! 0) \<and>
     chunk_cut (ck_target st) (ck_buf st) \<le> ck_overlap st"

lemma split_once_stuck:
  assumes "stuck st" shows "ck_buf (split_once st) = ck_buf st"
proof -
  have "skip_continuation (ck_buf st) k 0 = 0" for k
    using assms by (subst skip_continuation.simps) (simp add: stuck_def)
  moreover have "min (ck_overlap st) (chunk_cut (ck_target st) (ck_buf st)) = chunk_cut (ck_target st) (ck_buf st)"
    using assms by (simp add: stuck_def)
  ultimately show ?thesis by (simp add: split_once_def Let_def)
qed

lemma flush_oversized_stuck: "flush_oversized st = Some st' \<Longrightarrow> \<not> stuck st"
proof (erule flush_oversized.raw_induct [rotated])
  fix fo st st'
  assume IH: "\<And>st st'. fo st = Some st' \<Longrightarrow> \<not> stuck st"
    and body: "(if ck_target st * 2 < length (ck_buf st) then fo (split_once st) else Some st) = Some st'"
  show "\<not> stuck st"
  proof
    assume st: "stuck st"
    then have "fo (split_once st) = Some st'" using body by (simp add: stuck_def)
    then have "\<not> stuck (split_once st)" by (rule IH)
    then show False using st split_once_stuck [OF st] by (simp add: stuck_def)
  qed
qed

lemma chunk_cut_plain:
  assumes "0 < target" "target < n" shows "chunk_cut target (replicate n CHR ''a'' @ [NEWLINE]) = target"
proof -
  let ?s = "replicate n CHR ''a'' @ [NEWLINE]"
  have a: "?s ! i = CHR ''a''" if "i \<le> target" for i using that assms by (simp add: nth_append)
  have "find P (back_half target) = None" if "\<And>i. i \<le> target \<Longrightarrow> \<not> P i" for P
    using that by (auto simp: find_None_iff back_half_def)
  then have "paragraph_cut target ?s = target" "sentence_cut target ?s target = target"
    unfolding paragraph_cut_def sentence_cut_def using a by simp_all
  moreover have "skip_continuation ?s k target = target" for k
    by (subst skip_continuation.simps) (simp add: a utf8_continuation_def is_cont_def)
  ultimately show ?thesis by (simp add: chunk_cut_def)
qed

lemma scan_line_plain:
  fixes n target overlap :: nat and path :: "string option"
  defines "l \<equiv> replicate n CHR ''a''" and "sc \<equiv> chunk_start path target overlap"
  assumes "0 < n"
  shows "scan_line l sc =
    (let st1 = append_line l ((sc_st sc)\<lparr>ck_cursor := n + 1\<rparr>)
     in if length (ck_buf st1) > ck_target st1 * 2
        then map_option (\<lambda>st2. sc\<lparr>sc_st := st2\<rparr>) (flush_oversized st1) else Some (sc\<lparr>sc_st := st1\<rparr>))"
proof -
  obtain m where m: "n = Suc m" using assms(3) by (cases n) auto
  have l: "g_strchug l = l" unfolding l_def m by (simp add: g_strchug_def g_ascii_isspace_def)
  have "\<not> g_str_has_prefix l '':LOGBOOK:''" "\<not> g_str_has_prefix l '':PROPERTIES:''"
      "\<not> has_prefix_nocase ''#+begin_src'' l" "\<not> has_prefix_nocase ''#+begin_example'' l" "headline_level l = 0"
    unfolding l_def m
    by (simp_all add: g_str_has_prefix_def has_prefix_nocase_def headline_level_def g_ascii_tolower_def)
  then show ?thesis
    unfolding scan_line_def l by (simp add: Let_def sc_def chunk_start_def) (simp add: l_def)
qed

text \<open>
  Property (C40). An overlap that is not smaller than the chunk size stops the splitter from making progress:
  the text carried over is the whole head, so a line of twice the chunk size without a break is never
  finished. The overlap is a user option the code passes on unchecked, and the default of 200 is
  reached by any chunk size up to 200.
\<close>

theorem chunk_overlap_diverges:
  assumes "0 < target" "target \<le> (if overlap > 0 then overlap else CHUNK_OVERLAP_DEFAULT)" "2 * target \<le> n"
  shows "chunk_text (Some (replicate n CHR ''a'')) path target overlap = None"
proof -
  let ?l = "replicate n CHR ''a''"
  define st where "st = append_line ?l ((sc_st (chunk_start path target overlap))\<lparr>ck_cursor := n + 1\<rparr>)"
  have buf: "ck_buf st = ?l @ [NEWLINE]" by (simp add: st_def append_line_def mark_start_def chunk_start_def Let_def)
  have n: "target < n" using assms by simp
  have "stuck st"
    unfolding stuck_def buf using assms n chunk_cut_plain [OF assms(1) n]
    by (simp add: st_def chunk_start_def nth_append utf8_continuation_def is_cont_def)
  have "flush_oversized st = None" using flush_oversized_stuck \<open>stuck st\<close> by fastforce
  moreover have "scan_line ?l (chunk_start path target overlap) =
      map_option (\<lambda>st2. (chunk_start path target overlap)\<lparr>sc_st := st2\<rparr>) (flush_oversized st)"
  proof -
    have "0 < n" using n by simp
    moreover have "ck_target st * 2 < length (ck_buf st)" using \<open>stuck st\<close> by (simp add: stuck_def)
    ultimately show ?thesis using scan_line_plain [of n path target overlap] unfolding st_def by (simp add: Let_def)
  qed
  moreover have "g_strsplit NEWLINE ?l = [?l]" using n by (simp add: g_strsplit_def split_on_no_delim)
  ultimately show ?thesis by (simp add: chunk_text_def)
qed

theorem chunk_overlap_diverges_witness: "chunk_text (Some (replicate 400 CHR ''a'')) None 200 0 = None"
  by (rule chunk_overlap_diverges) simp_all

end
