(* ===== verification/Screensaver_Shm.thy ===== *)
theory Screensaver_Shm
  imports Cmacs_Prelude "HOL-Library.Word"
begin

text \<open>
  The frame ring of \<^verbatim>\<open>src/cmacs/screensaver/cmacs-screensaver-proto.c\<close>: the header at the start
  of the shared region, the writer's and the reader's operations on it, and the writer as
  \<^verbatim>\<open>ssr_render_tick\<close> drives it. Integers keep their C width. Pixel memory is a function from
  byte offsets in the region. The atomic stores of a commit are separate events, as is each byte
  the renderer writes, and the loads of the reader see the region each at a moment of its own, so
  the two sides interleave access by access; accesses are sequentially consistent, which is what the release and acquire orders of the code provide for
  the one writer and one reader.
\<close>

unbundle bit_operations_syntax

section \<open>The header\<close>

abbreviation SCR_SHM_MAGIC :: "32 word" where "SCR_SHM_MAGIC \<equiv> 0x53535230"
abbreviation SCR_SHM_VERSION :: "32 word" where "SCR_SHM_VERSION \<equiv> 1"
abbreviation SCR_SHM_N_SLOTS :: "32 word" where "SCR_SHM_N_SLOTS \<equiv> 3"
abbreviation SCR_SHM_SENTINEL :: "32 word" where "SCR_SHM_SENTINEL \<equiv> 0xFFFFFFFF"
abbreviation SCR_SHM_MAX_DIM :: "32 word" where "SCR_SHM_MAX_DIM \<equiv> 16384"
abbreviation SHM_HEADER_SIZE :: "64 word" where "SHM_HEADER_SIZE \<equiv> 64"

record shm_header =
  sh_magic :: "32 word"
  sh_version :: "32 word"
  sh_width :: "32 word"
  sh_height :: "32 word"
  sh_stride :: "32 word"
  sh_n_slots :: "32 word"
  sh_slot_bytes :: "64 word"
  sh_pixels_off :: "64 word"
  sh_generation :: "64 word"
  sh_latest :: "32 word"
  sh_seq :: "32 word list"

definition scr_shm_dims_valid :: "32 word \<Rightarrow> 32 word \<Rightarrow> bool" where
  "scr_shm_dims_valid w h \<longleftrightarrow> w > 0 \<and> h > 0 \<and> w \<le> SCR_SHM_MAX_DIM \<and> h \<le> SCR_SHM_MAX_DIM"

definition scr_shm_total_size :: "32 word \<Rightarrow> 32 word \<Rightarrow> 64 word" where
  "scr_shm_total_size w h =
     (if \<not> scr_shm_dims_valid w h then 0
      else
        (let stride = ucast w * 4;
             slot = stride * ucast h;
             total = SHM_HEADER_SIZE + slot * ucast SCR_SHM_N_SLOTS
         in if total > 4096 * 1024 * 1024 then 0 else total))"

definition scr_shm_header_init :: "32 word \<Rightarrow> 32 word \<Rightarrow> shm_header" where
  "scr_shm_header_init w h =
     \<lparr>sh_magic = SCR_SHM_MAGIC, sh_version = SCR_SHM_VERSION, sh_width = w, sh_height = h,
      sh_stride = w * 4, sh_n_slots = SCR_SHM_N_SLOTS, sh_slot_bytes = ucast (w * 4) * ucast h,
      sh_pixels_off = SHM_HEADER_SIZE, sh_generation = 0, sh_latest = SCR_SHM_SENTINEL,
      sh_seq = [0, 0, 0]\<rparr>"

definition scr_shm_header_validate :: "shm_header \<Rightarrow> 32 word \<Rightarrow> 32 word \<Rightarrow> bool" where
  "scr_shm_header_validate hdr expect_w expect_h =
     (if sh_magic hdr \<noteq> SCR_SHM_MAGIC \<or> sh_version hdr \<noteq> SCR_SHM_VERSION then False
      else if sh_n_slots hdr \<noteq> SCR_SHM_N_SLOTS then False
      else if \<not> scr_shm_dims_valid (sh_width hdr) (sh_height hdr) then False
      else if sh_stride hdr \<noteq> sh_width hdr * 4
        \<or> sh_slot_bytes hdr \<noteq> ucast (sh_stride hdr) * ucast (sh_height hdr)
        \<or> sh_pixels_off hdr \<noteq> SHM_HEADER_SIZE then False
      else if expect_w \<noteq> 0 \<and> sh_width hdr \<noteq> expect_w then False
      else if expect_h \<noteq> 0 \<and> sh_height hdr \<noteq> expect_h then False
      else True)"

text \<open>The offset of a slot from the base of the region.\<close>

definition scr_shm_slot_ptr :: "shm_header \<Rightarrow> 32 word \<Rightarrow> 64 word" where
  "scr_shm_slot_ptr hdr idx = sh_pixels_off hdr + ucast idx * sh_slot_bytes hdr"

section \<open>Writer and reader\<close>

definition scr_shm_writer_pick :: "shm_header \<Rightarrow> 32 word \<Rightarrow> 32 word" where
  "scr_shm_writer_pick hdr last_written =
     (let latest = sh_latest hdr in
      case find (\<lambda>i. i \<noteq> latest \<and> i \<noteq> last_written) [0, 1, 2] of
        Some i \<Rightarrow> i
      | None \<Rightarrow> (case find (\<lambda>i. i \<noteq> latest) [0, 1, 2] of Some i \<Rightarrow> i | None \<Rightarrow> 0))"

definition get_seq :: "shm_header \<Rightarrow> 32 word \<Rightarrow> 32 word" where
  "get_seq hdr idx = sh_seq hdr ! unat idx"

definition set_seq :: "32 word \<Rightarrow> 32 word \<Rightarrow> shm_header \<Rightarrow> shm_header" where
  "set_seq idx v hdr = hdr\<lparr>sh_seq := (sh_seq hdr)[unat idx := v]\<rparr>"

definition scr_shm_write_begin :: "shm_header \<Rightarrow> 32 word \<Rightarrow> 64 word \<times> shm_header" where
  "scr_shm_write_begin hdr idx =
     (let s = get_seq hdr idx; hdr' = set_seq idx (s OR 1) hdr in (scr_shm_slot_ptr hdr' idx, hdr'))"

text \<open>The three stores of a commit.\<close>

definition commit_seq :: "shm_header \<Rightarrow> 32 word \<Rightarrow> shm_header" where
  "commit_seq hdr idx = set_seq idx ((get_seq hdr idx + 1) AND NOT 1) hdr"

definition commit_latest :: "shm_header \<Rightarrow> 32 word \<Rightarrow> shm_header" where
  "commit_latest hdr idx = hdr\<lparr>sh_latest := idx\<rparr>"

definition commit_generation :: "shm_header \<Rightarrow> shm_header" where
  "commit_generation hdr = hdr\<lparr>sh_generation := sh_generation hdr + 1\<rparr>"

definition scr_shm_write_commit :: "shm_header \<Rightarrow> 32 word \<Rightarrow> shm_header" where
  "scr_shm_write_commit hdr idx = commit_generation (commit_latest (commit_seq hdr idx) idx)"

definition scr_shm_write_abort :: "shm_header \<Rightarrow> 32 word \<Rightarrow> shm_header" where
  "scr_shm_write_abort hdr idx = set_seq idx (get_seq hdr idx AND NOT 1) hdr"

record shm_frame =
  sf_pixels :: "64 word"
  sf_idx :: "32 word"
  sf_seq :: "32 word"
  sf_generation :: "64 word"

text \<open>
  The reader makes three atomic loads, between which the writer may run: the arguments are the
  header as it is when \<^verbatim>\<open>latest\<close>, the slot's counter and the generation are loaded.
\<close>

definition scr_shm_read_acquire :: "shm_header \<Rightarrow> shm_header \<Rightarrow> shm_header \<Rightarrow> shm_frame option" where
  "scr_shm_read_acquire hdr0 hdr1 hdr2 =
     (let idx = sh_latest hdr0 in
      if idx = SCR_SHM_SENTINEL \<or> idx \<ge> SCR_SHM_N_SLOTS then None
      else
        (let s = get_seq hdr1 idx in
         if s AND 1 \<noteq> 0 then None
         else Some \<lparr>sf_pixels = sh_pixels_off hdr2 + ucast idx * sh_slot_bytes hdr2, sf_idx = idx,
                sf_seq = s, sf_generation = sh_generation hdr2\<rparr>))"

definition scr_shm_read_verify :: "shm_header \<Rightarrow> shm_frame \<Rightarrow> bool" where
  "scr_shm_read_verify hdr f \<longleftrightarrow> get_seq hdr (sf_idx f) = sf_seq f"

section \<open>The renderer's loop as events\<close>

datatype wphase = Idle | Writing "32 word" | SeqStored "32 word" | LatestStored "32 word"

record shm_sys =
  ss_hd :: shm_header
  ss_mem :: "nat \<Rightarrow> 8 word"
  ss_phase :: wphase
  ss_last :: "32 word"

datatype shm_event =
    EvBegin | EvPixel nat "8 word" | EvStoreSeq | EvStoreLatest | EvStoreGeneration | EvAbort

fun shm_exec :: "shm_event \<Rightarrow> shm_sys \<Rightarrow> shm_sys option" where
  "shm_exec EvBegin s =
     (case ss_phase s of
        Idle \<Rightarrow>
          (let idx = scr_shm_writer_pick (ss_hd s) (ss_last s)
           in Some (s\<lparr>ss_hd := snd (scr_shm_write_begin (ss_hd s) idx), ss_phase := Writing idx\<rparr>))
      | _ \<Rightarrow> None)"
| "shm_exec (EvPixel off b) s =
     (case ss_phase s of
        Writing idx \<Rightarrow>
          if off < unat (sh_slot_bytes (ss_hd s))
          then Some (s\<lparr>ss_mem := (ss_mem s)(unat (scr_shm_slot_ptr (ss_hd s) idx) + off := b)\<rparr>)
          else None
      | _ \<Rightarrow> None)"
| "shm_exec EvStoreSeq s =
     (case ss_phase s of
        Writing idx \<Rightarrow> Some (s\<lparr>ss_hd := commit_seq (ss_hd s) idx, ss_phase := SeqStored idx\<rparr>)
      | _ \<Rightarrow> None)"
| "shm_exec EvStoreLatest s =
     (case ss_phase s of
        SeqStored idx \<Rightarrow> Some (s\<lparr>ss_hd := commit_latest (ss_hd s) idx, ss_phase := LatestStored idx\<rparr>)
      | _ \<Rightarrow> None)"
| "shm_exec EvStoreGeneration s =
     (case ss_phase s of
        LatestStored idx \<Rightarrow>
          Some (s\<lparr>ss_hd := commit_generation (ss_hd s), ss_phase := Idle, ss_last := idx\<rparr>)
      | _ \<Rightarrow> None)"
| "shm_exec EvAbort s =
     (case ss_phase s of
        Writing idx \<Rightarrow> Some (s\<lparr>ss_hd := scr_shm_write_abort (ss_hd s) idx, ss_phase := Idle\<rparr>)
      | _ \<Rightarrow> None)"

text \<open>A fresh target: \<^verbatim>\<open>last_written\<close> starts at the sentinel.\<close>

definition shm_start :: "32 word \<Rightarrow> 32 word \<Rightarrow> (nat \<Rightarrow> 8 word) \<Rightarrow> shm_sys" where
  "shm_start w h m = \<lparr>ss_hd = scr_shm_header_init w h, ss_mem = m, ss_phase = Idle,
     ss_last = SCR_SHM_SENTINEL\<rparr>"

section \<open>Layout\<close>

lemma dims_valid_unat:
  "scr_shm_dims_valid w h \<longleftrightarrow> 0 < unat w \<and> 0 < unat h \<and> unat w \<le> 16384 \<and> unat h \<le> 16384"
  by (simp add: scr_shm_dims_valid_def word_less_nat_alt word_le_nat_alt)

definition pixel_count :: "32 word \<Rightarrow> 32 word \<Rightarrow> nat" where
  "pixel_count w h = unat h * unat w"

lemma pixel_count_le: "scr_shm_dims_valid w h \<Longrightarrow> pixel_count w h \<le> 268435456"
proof -
  assume "scr_shm_dims_valid w h"
  then have "unat h * unat w \<le> 16384 * 16384" unfolding dims_valid_unat by (intro mult_le_mono) auto
  then show ?thesis by (simp add: pixel_count_def)
qed

lemma stride_unat: "scr_shm_dims_valid w h \<Longrightarrow> unat (w * 4) = unat w * 4"
  using unat_mult_lem [of w 4] by (simp add: dims_valid_unat)

lemma slot_bytes_unat:
  assumes "scr_shm_dims_valid w h"
  shows "unat (ucast (w * 4) * ucast h :: 64 word) = 4 * pixel_count w h"
  using pixel_count_le [OF assms]
  by (subst unat_mult_small) (simp_all add: stride_unat [OF assms] pixel_count_def)

lemma total_size_unat:
  assumes "scr_shm_dims_valid w h"
  shows "unat (scr_shm_total_size w h) = 64 + 12 * pixel_count w h"
proof -
  have le: "pixel_count w h \<le> 268435456" using pixel_count_le [OF assms] .
  have w4: "unat (ucast w * 4 :: 64 word) = unat w * 4"
    using assms by (subst unat_mult_small) (simp_all add: dims_valid_unat)
  have sl: "unat (ucast w * 4 * ucast h :: 64 word) = 4 * pixel_count w h"
    using le by (subst unat_mult_small) (simp_all add: w4 pixel_count_def)
  have sl3: "unat (ucast w * 4 * ucast h * 3 :: 64 word) = 12 * pixel_count w h"
    using le by (subst unat_mult_small) (simp_all add: sl)
  have tot: "unat (64 + ucast w * 4 * ucast h * 3 :: 64 word) = 64 + 12 * pixel_count w h"
    using unat_add_small [of 64 "ucast w * 4 * ucast h * 3"] le unfolding sl3 by simp
  then have "\<not> (64 + ucast w * 4 * ucast h * 3 :: 64 word) > 4096 * 1024 * 1024"
    using le by (simp add: word_less_nat_alt)
  then show ?thesis using assms tot by (simp add: scr_shm_total_size_def Let_def)
qed

lemma header_validate_init:
  "scr_shm_header_validate (scr_shm_header_init w h) ew eh \<longleftrightarrow>
     scr_shm_dims_valid w h \<and> (ew = 0 \<or> ew = w) \<and> (eh = 0 \<or> eh = h)"
  by (auto simp: scr_shm_header_validate_def scr_shm_header_init_def)

text \<open>What a validated header says of its slots.\<close>

definition header_ok :: "shm_header \<Rightarrow> bool" where
  "header_ok hdr \<longleftrightarrow> scr_shm_header_validate hdr 0 0 \<and> length (sh_seq hdr) = 3"

lemma header_ok_slot_bytes:
  "header_ok hdr \<Longrightarrow> unat (sh_slot_bytes hdr) = 4 * pixel_count (sh_width hdr) (sh_height hdr)"
  by (auto simp: header_ok_def scr_shm_header_validate_def slot_bytes_unat split: if_splits)

lemma header_ok_dims: "header_ok hdr \<Longrightarrow> scr_shm_dims_valid (sh_width hdr) (sh_height hdr)"
  by (auto simp: header_ok_def scr_shm_header_validate_def split: if_splits)

lemma slot_ptr_unat:
  assumes "header_ok hdr" and "idx < 3"
  shows "unat (scr_shm_slot_ptr hdr idx) = 64 + unat idx * unat (sh_slot_bytes hdr)"
proof -
  let ?b = "unat (sh_slot_bytes hdr)"
  have off: "sh_pixels_off hdr = 64"
    using assms(1) by (auto simp: header_ok_def scr_shm_header_validate_def split: if_splits)
  have "?b \<le> 4 * 268435456"
    using header_ok_slot_bytes [OF assms(1)] pixel_count_le [OF header_ok_dims [OF assms(1)]] by simp
  moreover have "unat idx \<le> 2" using assms(2) by (simp add: word_less_nat_alt)
  ultimately have le: "unat idx * ?b \<le> 2 * (4 * 268435456)" by (intro mult_le_mono) auto
  then have m: "unat (ucast idx * sh_slot_bytes hdr) = unat idx * ?b"
    by (subst unat_mult_small) simp_all
  show ?thesis
    unfolding scr_shm_slot_ptr_def off using le by (subst unat_add_small) (simp_all add: m)
qed

lemma slots_disjoint:
  assumes "header_ok hdr" "i < 3" "j < 3" "i \<noteq> j"
    and "x < unat (sh_slot_bytes hdr)" "y < unat (sh_slot_bytes hdr)"
  shows "unat (scr_shm_slot_ptr hdr i) + x \<noteq> unat (scr_shm_slot_ptr hdr j) + y"
proof
  let ?b = "unat (sh_slot_bytes hdr)"
  assume "unat (scr_shm_slot_ptr hdr i) + x = unat (scr_shm_slot_ptr hdr j) + y"
  then have "unat i * ?b + x = unat j * ?b + y"
    using slot_ptr_unat [OF assms(1)] assms(2,3) by simp
  then have "(unat i * ?b + x) div ?b = (unat j * ?b + y) div ?b" by simp
  with assms(5,6) have "unat i = unat j" by simp
  with assms(4) show False by (simp add: word_unat_eq_iff)
qed

section \<open>The sequence counters\<close>

lemma bit_of_even: "even (s :: 32 word) \<Longrightarrow> bit s n \<Longrightarrow> 0 < n"
  by (cases n) (simp_all add: bit_0)

lemma and_not_one: "(s :: 32 word) AND NOT 1 = s - of_bool (odd s)"
proof -
  have ev: "t AND NOT 1 = t" if "even t" for t :: "32 word"
    using bit_of_even [OF that] by (intro bit_eqI) (auto simp: bit_simps)
  show ?thesis
  proof (cases "odd s")
    case True
    then have e: "even (s - 1)" by simp
    then have "s = (s - 1) OR 1" by (simp add: or_one_eq)
    then have "s AND NOT 1 = ((s - 1) OR 1) AND NOT 1" by simp
    also have "\<dots> = (s - 1) AND NOT 1" by (rule bit_eqI) (auto simp: bit_simps)
    also have "\<dots> = s - 1" using e by (rule ev)
    finally show ?thesis using True by simp
  next
    case False
    then show ?thesis using ev [of s] by simp
  qed
qed

lemmas and_minus_two = and_not_one [unfolded not_one_eq]

lemma and_one_zero: "((s :: 32 word) AND 1 \<noteq> 0) \<longleftrightarrow> odd s"
  by (simp add: and_one_eq odd_iff_mod_2_eq_one even_iff_mod_2_eq_zero)

lemma unat_lt_3: "(i :: 32 word) < 3 \<longleftrightarrow> unat i < 3"
  by (simp add: word_less_nat_alt)

lemma get_set_seq:
  "length (sh_seq hdr) = 3 \<Longrightarrow> i < 3 \<Longrightarrow> get_seq (set_seq i v hdr) j = (if j = i then v else get_seq hdr j)"
  by (auto simp: get_seq_def set_seq_def unat_lt_3 nth_list_update word_unat_eq_iff)

lemma set_seq_static [simp]:
  "header_ok (set_seq i v hdr) = header_ok hdr" "sh_latest (set_seq i v hdr) = sh_latest hdr"
  "sh_slot_bytes (set_seq i v hdr) = sh_slot_bytes hdr"
  "scr_shm_slot_ptr (set_seq i v hdr) = scr_shm_slot_ptr hdr"
  by (simp_all add: set_seq_def header_ok_def scr_shm_header_validate_def scr_shm_slot_ptr_def fun_eq_iff)

lemma commit_static [simp]:
  "header_ok (commit_latest hdr i) = header_ok hdr" "sh_latest (commit_latest hdr i) = i"
  "sh_slot_bytes (commit_latest hdr i) = sh_slot_bytes hdr"
  "scr_shm_slot_ptr (commit_latest hdr i) = scr_shm_slot_ptr hdr"
  "get_seq (commit_latest hdr i) = get_seq hdr"
  "header_ok (commit_generation hdr) = header_ok hdr"
  "sh_latest (commit_generation hdr) = sh_latest hdr"
  "sh_slot_bytes (commit_generation hdr) = sh_slot_bytes hdr"
  "scr_shm_slot_ptr (commit_generation hdr) = scr_shm_slot_ptr hdr"
  "get_seq (commit_generation hdr) = get_seq hdr"
  by (simp_all add: commit_latest_def commit_generation_def header_ok_def get_seq_def
      scr_shm_header_validate_def scr_shm_slot_ptr_def fun_eq_iff)

lemma writer_pick_spec:
  "scr_shm_writer_pick hdr l < 3" "scr_shm_writer_pick hdr l \<noteq> sh_latest hdr"
  "scr_shm_writer_pick hdr l \<noteq> l"
  by (simp_all add: scr_shm_writer_pick_def Let_def)

section \<open>The invariant\<close>

definition shm_inv :: "shm_sys \<Rightarrow> bool" where
  "shm_inv s \<longleftrightarrow> header_ok (ss_hd s) \<and>
     (sh_latest (ss_hd s) = SCR_SHM_SENTINEL \<or> sh_latest (ss_hd s) < 3) \<and>
     (case ss_phase s of Idle \<Rightarrow> True | Writing i \<Rightarrow> i < 3 \<and> i \<noteq> sh_latest (ss_hd s)
      | SeqStored i \<Rightarrow> i < 3 | LatestStored i \<Rightarrow> i < 3) \<and>
     (\<forall>k < 3. odd (get_seq (ss_hd s) k) \<longleftrightarrow> ss_phase s = Writing k)"

lemma header_ok_seq: "header_ok hdr \<Longrightarrow> length (sh_seq hdr) = 3"
  by (simp add: header_ok_def)

lemma shm_inv_start: "scr_shm_dims_valid w h \<Longrightarrow> shm_inv (shm_start w h m)"
proof -
  assume "scr_shm_dims_valid w h"
  then have "header_ok (scr_shm_header_init w h)"
    by (simp add: header_ok_def header_validate_init) (simp add: scr_shm_header_init_def)
  moreover have "get_seq (scr_shm_header_init w h) k = 0" if "k < 3" for k
  proof -
    have "unat k = 0 \<or> unat k = 1 \<or> unat k = 2" using that unfolding unat_lt_3 by linarith
    then show ?thesis by (auto simp: get_seq_def scr_shm_header_init_def)
  qed
  ultimately show ?thesis
    by (simp add: shm_inv_def shm_start_def) (simp add: scr_shm_header_init_def)
qed

lemma shm_inv_exec: "shm_inv s \<Longrightarrow> shm_exec e s = Some t \<Longrightarrow> shm_inv t"
proof (cases e)
  case EvBegin
  assume s: "shm_inv s" "shm_exec e s = Some t"
  let ?i = "scr_shm_writer_pick (ss_hd s) (ss_last s)"
  have "even (get_seq (ss_hd s) ?i)" using s EvBegin writer_pick_spec(1) [of "ss_hd s" "ss_last s"]
    by (auto simp: shm_inv_def split: wphase.splits)
  with s EvBegin writer_pick_spec [of "ss_hd s" "ss_last s"] show ?thesis
    by (auto simp: shm_inv_def scr_shm_write_begin_def Let_def header_ok_seq get_set_seq or_one_eq
        split: wphase.splits if_splits)
next
  case EvStoreSeq
  assume "shm_inv s" "shm_exec e s = Some t"
  with EvStoreSeq show ?thesis
    by (auto simp: shm_inv_def commit_seq_def header_ok_seq get_set_seq and_minus_two
        split: wphase.splits if_splits)
next
  case EvAbort
  assume "shm_inv s" "shm_exec e s = Some t"
  with EvAbort show ?thesis
    by (auto simp: shm_inv_def scr_shm_write_abort_def header_ok_seq get_set_seq and_minus_two
        split: wphase.splits if_splits)
qed (auto simp: shm_inv_def split: wphase.splits if_splits)

interpretation shm_machine: event_machine shm_exec shm_inv
  by unfold_locales (rule shm_inv_exec)

lemma shm_reach_inv:
  "scr_shm_dims_valid w h \<Longrightarrow> run_events shm_exec es (shm_start w h m) = Some s \<Longrightarrow> shm_inv s"
  using shm_machine.inv_run shm_inv_start by blast

section \<open>What the counters say of a slot\<close>

definition seq_steps :: "shm_event list \<Rightarrow> nat" where
  "seq_steps es = length (filter (\<lambda>e. e = EvBegin \<or> e = EvStoreSeq) es)"

lemma seq_steps_simps [simp]:
  "seq_steps [] = 0" "seq_steps (es @ fs) = seq_steps es + seq_steps fs"
  by (simp_all add: seq_steps_def)

lemma seq_steps_Cons: "seq_steps (e # es) = seq_steps [e] + seq_steps es"
  by (simp add: seq_steps_def)

definition same_slot :: "32 word \<Rightarrow> shm_sys \<Rightarrow> shm_sys \<Rightarrow> bool" where
  "same_slot k s t \<longleftrightarrow> (\<forall>off < unat (sh_slot_bytes (ss_hd s)).
     ss_mem t (unat (scr_shm_slot_ptr (ss_hd s) k) + off) =
     ss_mem s (unat (scr_shm_slot_ptr (ss_hd s) k) + off))"

text \<open>The layout fields never change.\<close>

lemma exec_layout:
  "shm_exec e s = Some t \<Longrightarrow> sh_slot_bytes (ss_hd t) = sh_slot_bytes (ss_hd s) \<and>
     scr_shm_slot_ptr (ss_hd t) = scr_shm_slot_ptr (ss_hd s)"
  by (cases e) (auto simp: scr_shm_write_begin_def commit_seq_def scr_shm_write_abort_def Let_def
      split: wphase.splits if_splits)

text \<open>
  One step of a run without aborts: the counter of a slot moves by at most one, and while it is
  even and does not move the slot's bytes stay.
\<close>

lemma exec_seq:
  assumes "shm_inv s" "shm_exec e s = Some t" "e \<noteq> EvAbort" "k < 3"
  shows "\<exists>n \<le> seq_steps [e]. get_seq (ss_hd t) k = get_seq (ss_hd s) k + of_nat n"
proof (cases e)
  case EvBegin
  let ?i = "scr_shm_writer_pick (ss_hd s) (ss_last s)"
  have e: "even (get_seq (ss_hd s) ?i)"
    using assms EvBegin writer_pick_spec(1) [of "ss_hd s" "ss_last s"]
    by (auto simp: shm_inv_def split: wphase.splits)
  have "get_seq (ss_hd t) k = get_seq (ss_hd s) k + of_nat (if k = ?i then 1 else 0)"
    using assms EvBegin writer_pick_spec(1) [of "ss_hd s" "ss_last s"] e
    by (auto simp: shm_inv_def scr_shm_write_begin_def Let_def header_ok_seq get_set_seq or_one_eq
        split: wphase.splits)
  then show ?thesis using EvBegin
    by (intro exI [of _ "if k = ?i then 1 else 0"]) (simp add: seq_steps_def)
next
  case EvStoreSeq
  with assms obtain i where i: "ss_phase s = Writing i" "i < 3" "odd (get_seq (ss_hd s) i)"
      "t = s\<lparr>ss_hd := commit_seq (ss_hd s) i, ss_phase := SeqStored i\<rparr>" "header_ok (ss_hd s)"
    by (auto simp: shm_inv_def split: wphase.splits)
  have "get_seq (ss_hd t) k = get_seq (ss_hd s) k + of_nat (if k = i then 1 else 0)"
    using i by (simp add: commit_seq_def header_ok_seq get_set_seq and_minus_two)
  then show ?thesis using EvStoreSeq
    by (intro exI [of _ "if k = i then 1 else 0"]) (simp add: seq_steps_def)
qed ((rule exI [of _ 0], use assms in \<open>auto split: wphase.splits if_splits\<close>)+)

lemma exec_bytes:
  assumes "shm_inv s" "shm_exec e s = Some t" "k < 3" "even (get_seq (ss_hd s) k)"
  shows "same_slot k s t"
proof (cases e)
  case (EvPixel off b)
  with assms obtain i where i: "ss_phase s = Writing i" "i < 3" "off < unat (sh_slot_bytes (ss_hd s))"
      "t = s\<lparr>ss_mem := (ss_mem s)(unat (scr_shm_slot_ptr (ss_hd s) i) + off := b)\<rparr>"
      "header_ok (ss_hd s)"
    by (auto simp: shm_inv_def split: wphase.splits if_splits)
  have "i \<noteq> k" using assms(1,3,4) i(1) by (auto simp: shm_inv_def)
  then have "unat (scr_shm_slot_ptr (ss_hd s) k) + x \<noteq> unat (scr_shm_slot_ptr (ss_hd s) i) + off"
    if "x < unat (sh_slot_bytes (ss_hd s))" for x
    using slots_disjoint [OF i(5) assms(3) i(2) _ that i(3)] by blast
  with i(4) show ?thesis by (simp add: same_slot_def)
qed (use assms in \<open>auto simp: same_slot_def Let_def split: wphase.splits\<close>)

lemma run_seq:
  assumes "shm_inv s" "run_events shm_exec es s = Some t" "EvAbort \<notin> set es" "k < 3"
  shows "\<exists>n \<le> seq_steps es. get_seq (ss_hd t) k = get_seq (ss_hd s) k + of_nat n \<and>
    (n = 0 \<longrightarrow> even (get_seq (ss_hd s) k) \<longrightarrow> same_slot k s t)"
  using assms
proof (induction es arbitrary: s)
  case Nil
  then show ?case by (simp add: same_slot_def)
next
  case (Cons e es)
  from Cons.prems obtain u where u: "shm_exec e s = Some u" "run_events shm_exec es u = Some t"
    by (auto split: option.splits)
  have inv: "shm_inv u" using Cons.prems(1) u(1) by (rule shm_inv_exec)
  obtain n where n: "n \<le> seq_steps [e]" "get_seq (ss_hd u) k = get_seq (ss_hd s) k + of_nat n"
    using exec_seq [OF Cons.prems(1) u(1)] Cons.prems(3,4) by auto
  have "EvAbort \<notin> set es" using Cons.prems(3) by simp
  from Cons.IH [OF inv u(2) this Cons.prems(4)]
  obtain m where m: "m \<le> seq_steps es" "get_seq (ss_hd t) k = get_seq (ss_hd u) k + of_nat m"
      "m = 0 \<longrightarrow> even (get_seq (ss_hd u) k) \<longrightarrow> same_slot k u t"
    by blast
  have "same_slot k s t" if "n + m = 0" "even (get_seq (ss_hd s) k)"
    using exec_bytes [OF Cons.prems(1) u(1) Cons.prems(4) that(2)] m(3) n(2) that
      exec_layout [OF u(1)] by (simp add: same_slot_def)
  moreover have "get_seq (ss_hd t) k = get_seq (ss_hd s) k + of_nat (n + m)"
    using n(2) m(2) by (simp add: add.assoc)
  moreover have "n + m \<le> seq_steps (e # es)" unfolding seq_steps_Cons [of e es] using n(1) m(1) by linarith
  ultimately show ?case by blast
qed

lemma run_layout:
  "run_events shm_exec es s = Some t \<Longrightarrow> sh_slot_bytes (ss_hd t) = sh_slot_bytes (ss_hd s) \<and>
     scr_shm_slot_ptr (ss_hd t) = scr_shm_slot_ptr (ss_hd s)"
proof (induction es arbitrary: s)
  case (Cons e es)
  then obtain u where "shm_exec e s = Some u" "run_events shm_exec es u = Some t"
    by (auto split: option.splits)
  then show ?case using exec_layout Cons.IH by metis
qed simp

lemma read_acquire_SomeD:
  "scr_shm_read_acquire hdr0 hdr1 hdr2 = Some f \<Longrightarrow>
     sf_idx f = sh_latest hdr0 \<and> sf_idx f < 3 \<and> sf_seq f = get_seq hdr1 (sf_idx f) \<and>
     even (get_seq hdr1 (sf_idx f)) \<and> sf_pixels f = scr_shm_slot_ptr hdr2 (sf_idx f)"
  by (auto simp: scr_shm_read_acquire_def Let_def scr_shm_slot_ptr_def and_one_zero not_le
      split: if_splits)

text \<open>
  A slot that is published cannot be under construction before another frame has been published
  and a new render begun.
\<close>

lemma exec_latest:
  assumes "shm_exec e s = Some t"
  shows "sh_latest (ss_hd t) = sh_latest (ss_hd s) \<or> (e = EvStoreLatest \<and> (\<exists>i. ss_phase t = LatestStored i))"
  using assms by (cases e) (auto simp: scr_shm_write_begin_def commit_seq_def scr_shm_write_abort_def Let_def
      split: wphase.splits if_splits)

lemma exec_writing: "shm_exec e s = Some t \<Longrightarrow> ss_phase t = Writing k \<Longrightarrow> ss_phase s = Writing k \<or> e = EvBegin"
  by (cases e) (auto split: wphase.splits if_splits)

lemma run_writing:
  "run_events shm_exec es s = Some t \<Longrightarrow> ss_phase t = Writing k \<Longrightarrow> ss_phase s = Writing k \<or> EvBegin \<in> set es"
proof (induction es arbitrary: s)
  case (Cons e es)
  then obtain u where "shm_exec e s = Some u" "run_events shm_exec es u = Some t"
    by (auto split: option.splits)
  then show ?case using exec_writing Cons.IH Cons.prems(2) by fastforce
qed simp

lemma run_overtakes:
  assumes "shm_inv s" "run_events shm_exec es s = Some t" "ss_phase t = Writing (sh_latest (ss_hd s))"
  shows "\<exists>xs ys. es = xs @ EvStoreLatest # ys \<and> EvBegin \<in> set ys"
  using assms
proof (induction es arbitrary: s)
  case Nil
  then show ?case by (auto simp: shm_inv_def)
next
  case (Cons e es)
  from Cons.prems(2) obtain u where u: "shm_exec e s = Some u" "run_events shm_exec es u = Some t"
    by (auto split: option.splits)
  show ?case
  proof (cases "sh_latest (ss_hd u) = sh_latest (ss_hd s)")
    case True
    then obtain xs ys where "es = xs @ EvStoreLatest # ys" "EvBegin \<in> set ys"
      using Cons.IH [OF shm_inv_exec [OF Cons.prems(1) u(1)] u(2)] Cons.prems(3) by auto
    then show ?thesis by (intro exI [of _ "e # xs"] exI [of _ ys]) simp
  next
    case False
    then obtain i where "e = EvStoreLatest" "ss_phase u = LatestStored i" using exec_latest [OF u(1)] by blast
    then show ?thesis
      using run_writing [OF u(2) Cons.prems(3)] by (intro exI [of _ "[]"] exI [of _ es]) simp
  qed
qed

section \<open>Properties\<close>

text \<open>
  Property (C22). A frame that verifies did not tear. The reader loads \<^verbatim>\<open>latest\<close>, the slot's counter
  and the generation at any three moments, with any work of the renderer in between, and verifies
  at a later one. If no render is abandoned and the slot counters move fewer than \<open>2 ^ 32\<close> times
  from the load of the counter on, and \<^verbatim>\<open>scr_shm_read_verify\<close> accepts the frame, then every byte of
  the slot had, at every moment from that load to the verification, the value it had at the load.
\<close>

theorem shm_verified_frame_untorn:
  assumes "scr_shm_dims_valid w h" and "run_events shm_exec es0 (shm_start w h m) = Some s0"
    and "run_events shm_exec esa s0 = Some s" and "run_events shm_exec esb s = Some s2"
    and "scr_shm_read_acquire (ss_hd s0) (ss_hd s) (ss_hd s2) = Some f"
    and "run_events shm_exec esc s2 = Some s'" and "scr_shm_read_verify (ss_hd s') f"
    and "EvAbort \<notin> set (esb @ esc)" and "seq_steps (esb @ esc) < 2 ^ 32"
    and "esb @ esc = es1 @ es2" and "run_events shm_exec es1 s = Some sm"
    and "off < unat (sh_slot_bytes (ss_hd s))"
  shows "ss_mem sm (unat (sf_pixels f) + off) = ss_mem s (unat (sf_pixels f) + off)"
proof -
  have inv: "shm_inv s" using assms(3) shm_reach_inv [OF assms(1,2)] by (rule shm_machine.inv_run)
  have inv': "shm_inv sm" using assms(11) inv by (rule shm_machine.inv_run)
  note f = read_acquire_SomeD [OF assms(5)]
  let ?k = "sf_idx f"
  have na: "EvAbort \<notin> set es1" "EvAbort \<notin> set es2" and k: "?k < 3" using assms(8,10) f by auto
  have "run_events shm_exec (es1 @ es2) s = Some s'"
    using assms(4,6) unfolding assms(10) [symmetric] by (simp add: run_events_append)
  then have r2: "run_events shm_exec es2 sm = Some s'" using assms(11) by (simp add: run_events_append)
  obtain n1 where n1: "n1 \<le> seq_steps es1" "get_seq (ss_hd sm) ?k = get_seq (ss_hd s) ?k + of_nat n1"
      "n1 = 0 \<longrightarrow> even (get_seq (ss_hd s) ?k) \<longrightarrow> same_slot ?k s sm"
    using run_seq [OF inv assms(11) na(1) k] by blast
  obtain n2 where n2: "n2 \<le> seq_steps es2" "get_seq (ss_hd s') ?k = get_seq (ss_hd sm) ?k + of_nat n2"
    using run_seq [OF inv' r2 na(2) k] by blast
  have "get_seq (ss_hd s) ?k + of_nat (n1 + n2) = get_seq (ss_hd s) ?k"
    using n1(2) n2(2) f assms(7) by (simp add: scr_shm_read_verify_def add.assoc)
  then have "of_nat (n1 + n2) = (0 :: 32 word)" by simp
  then have "2 ^ 32 dvd n1 + n2" unfolding word_of_nat_eq_0_iff by simp
  moreover have "n1 + n2 < 2 ^ 32" using n1(1) n2(1) assms(9) unfolding assms(10) by simp
  ultimately have "n1 + n2 = 0" by (meson dvd_imp_le leD neq0_conv)
  then have "n1 = 0" by simp
  with n1(3) f have "same_slot ?k s sm" by blast
  with f assms(12) run_layout [OF assms(4)] show ?thesis by (auto simp: same_slot_def)
qed

definition one_frame :: "shm_event list" where
  "one_frame = [EvBegin, EvPixel 0 7, EvStoreSeq, EvStoreLatest, EvStoreGeneration]"

definition demo_region :: "shm_event list \<Rightarrow> shm_sys" where
  "demo_region es = the (run_events shm_exec es (shm_start 1 1 (\<lambda>_. 0)))"

lemma demo_region_run:
  "\<not> Option.is_none (run_events shm_exec es (shm_start 1 1 (\<lambda>_. 0))) \<Longrightarrow>
     run_events shm_exec es (shm_start 1 1 (\<lambda>_. 0)) = Some (demo_region es)"
  by (simp add: demo_region_def split: option.splits) (auto simp: Option.is_none_def)

lemma demo_region_more:
  "\<not> Option.is_none (run_events shm_exec (es @ fs) (shm_start 1 1 (\<lambda>_. 0))) \<Longrightarrow>
     run_events shm_exec fs (demo_region es) = Some (demo_region (es @ fs))"
  by (auto simp: demo_region_def run_events_append Option.is_none_def split: option.splits)

lemma demo_first: "run_events shm_exec one_frame (shm_start 1 1 (\<lambda>_. 0)) = Some (demo_region one_frame)"
  by (rule demo_region_run) code_simp

lemma demo_second: "run_events shm_exec one_frame (demo_region one_frame) = Some (demo_region (one_frame @ one_frame))"
  by (rule demo_region_more) code_simp

theorem shm_verified_frame_untorn_witness:
  "\<exists>f. scr_shm_read_acquire (ss_hd (demo_region one_frame)) (ss_hd (demo_region one_frame))
       (ss_hd (demo_region (one_frame @ [EvBegin]))) = Some f \<and> sf_pixels f = 64 \<and>
     scr_shm_read_verify (ss_hd (demo_region (one_frame @ one_frame))) f \<and>
     ss_mem (demo_region (one_frame @ [EvBegin, EvPixel 0 7])) 64 = ss_mem (demo_region one_frame) 64"
proof -
  note r = demo_first
  have r1: "run_events shm_exec [EvBegin] (demo_region one_frame) = Some (demo_region (one_frame @ [EvBegin]))"
      "run_events shm_exec [EvBegin, EvPixel 0 7] (demo_region one_frame) = Some (demo_region (one_frame @ [EvBegin, EvPixel 0 7]))"
    by (rule demo_region_more, code_simp)+
  have r2: "run_events shm_exec [EvPixel 0 7, EvStoreSeq, EvStoreLatest, EvStoreGeneration] (demo_region (one_frame @ [EvBegin]))
      = Some (demo_region ((one_frame @ [EvBegin]) @ [EvPixel 0 7, EvStoreSeq, EvStoreLatest, EvStoreGeneration]))"
    by (rule demo_region_more) code_simp
  have e: "(one_frame @ [EvBegin]) @ [EvPixel 0 7, EvStoreSeq, EvStoreLatest, EvStoreGeneration] = one_frame @ one_frame"
    by (simp add: one_frame_def)
  have "(case scr_shm_read_acquire (ss_hd (demo_region one_frame)) (ss_hd (demo_region one_frame))
        (ss_hd (demo_region (one_frame @ [EvBegin]))) of None \<Rightarrow> False | Some f \<Rightarrow> sf_pixels f = 64 \<and>
          scr_shm_read_verify (ss_hd (demo_region (one_frame @ one_frame))) f \<and> 0 < unat (sh_slot_bytes (ss_hd (demo_region one_frame))))"
    by code_simp
  then obtain f where f: "scr_shm_read_acquire (ss_hd (demo_region one_frame)) (ss_hd (demo_region one_frame))
      (ss_hd (demo_region (one_frame @ [EvBegin]))) = Some f" "sf_pixels f = 64"
      "scr_shm_read_verify (ss_hd (demo_region (one_frame @ one_frame))) f" "0 < unat (sh_slot_bytes (ss_hd (demo_region one_frame)))"
    by (auto split: option.splits)
  have d: "scr_shm_dims_valid 1 1" by (simp add: scr_shm_dims_valid_def)
  have "ss_mem (demo_region (one_frame @ [EvBegin, EvPixel 0 7])) (unat (sf_pixels f) + 0) =
      ss_mem (demo_region one_frame) (unat (sf_pixels f) + 0)"
    by (rule shm_verified_frame_untorn [OF d r _ r1(1) f(1) r2 [unfolded e] f(3) _ _ _ r1(2) f(4), of "[]"
          "[EvStoreSeq, EvStoreLatest, EvStoreGeneration]"]) (simp_all add: seq_steps_def)
  with f show ?thesis by auto
qed



text \<open>
  Property (C23). Neither side of the ring waits for the other. In every state a renderer can bring the
  region to, abandoned renders included, the slot it would write next exists and is neither
  the published one nor the last one written, and the slot under construction is never the published
  one. A reader whose loads of \<^verbatim>\<open>latest\<close> and of the counter lie any work of the renderer apart comes back without a frame
  exactly when nothing had been published at the first load or the slot it found is being
  rewritten at the second; the latter only after the renderer has, in between, published a newer
  frame and then begun another render.
\<close>

theorem shm_never_blocks:
  assumes "scr_shm_dims_valid w h" and "run_events shm_exec es0 (shm_start w h m) = Some s0"
    and "run_events shm_exec es s0 = Some s1"
  shows "scr_shm_writer_pick (ss_hd s0) (ss_last s0) < 3 \<and>
    scr_shm_writer_pick (ss_hd s0) (ss_last s0) \<noteq> sh_latest (ss_hd s0) \<and>
    scr_shm_writer_pick (ss_hd s0) (ss_last s0) \<noteq> ss_last s0 \<and>
    ss_phase s0 \<noteq> Writing (sh_latest (ss_hd s0)) \<and>
    (scr_shm_read_acquire (ss_hd s0) (ss_hd s1) hdr2 = None \<longleftrightarrow>
       sh_latest (ss_hd s0) = SCR_SHM_SENTINEL \<or> ss_phase s1 = Writing (sh_latest (ss_hd s0))) \<and>
    (ss_phase s1 = Writing (sh_latest (ss_hd s0)) \<longrightarrow>
       (\<exists>xs ys. es = xs @ EvStoreLatest # ys \<and> EvBegin \<in> set ys))"
proof -
  have inv: "shm_inv s0" using assms(1,2) by (rule shm_reach_inv)
  have inv1: "shm_inv s1" using assms(3) inv by (rule shm_machine.inv_run)
  have "ss_phase s0 \<noteq> Writing (sh_latest (ss_hd s0))"
    using inv by (auto simp: shm_inv_def split: wphase.splits)
  moreover have "scr_shm_read_acquire (ss_hd s0) (ss_hd s1) hdr2 = None \<longleftrightarrow>
       sh_latest (ss_hd s0) = SCR_SHM_SENTINEL \<or> ss_phase s1 = Writing (sh_latest (ss_hd s0))"
    using inv inv1 by (auto simp: shm_inv_def scr_shm_read_acquire_def Let_def and_one_zero not_le)
  ultimately show ?thesis using writer_pick_spec run_overtakes [OF inv assms(3)] by blast
qed

theorem shm_never_blocks_witness:
  "scr_shm_read_acquire (ss_hd (demo_region one_frame)) (ss_hd (demo_region (one_frame @ one_frame))) (ss_hd (demo_region (one_frame @ one_frame))) \<noteq> None \<and>
   scr_shm_read_acquire (ss_hd (demo_region one_frame)) (ss_hd (demo_region (one_frame @ one_frame @ [EvBegin]))) (ss_hd (demo_region (one_frame @ one_frame @ [EvBegin]))) = None"
proof -
  note r = demo_first
  have r2: "run_events shm_exec (one_frame @ [EvBegin]) (demo_region one_frame) = Some (demo_region (one_frame @ one_frame @ [EvBegin]))"
    by (rule demo_region_more) code_simp
  have d: "scr_shm_dims_valid 1 1" by (simp add: scr_shm_dims_valid_def)
  have p: "sh_latest (ss_hd (demo_region one_frame)) = 0" "ss_phase (demo_region (one_frame @ one_frame)) = Idle"
      "ss_phase (demo_region (one_frame @ one_frame @ [EvBegin])) = Writing 0" by code_simp+
  show ?thesis
    using shm_never_blocks [OF d r demo_second] shm_never_blocks [OF d r r2] p by simp
qed

text \<open>
  Sizes are exact. For dimensions the code accepts, \<^verbatim>\<open>scr_shm_total_size\<close> is the
  header plus three slots of four bytes per pixel, without wrap-around and under its own limit,
  so it is zero only for refused dimensions; the header it goes with validates for exactly these
  dimensions; and every byte of every slot lies behind the header and inside the region, in no
  other slot.
\<close>

theorem shm_layout_exact:
  assumes "scr_shm_dims_valid w h" and "hdr = scr_shm_header_init w h"
  shows "unat (scr_shm_total_size w h) = 64 + 12 * (unat h * unat w) \<and>
    (\<forall>ew eh. ew \<noteq> 0 \<and> eh \<noteq> 0 \<longrightarrow>
       scr_shm_header_validate hdr ew eh = (ew = w \<and> eh = h)) \<and>
    (\<forall>i j x y. i < 3 \<and> x < unat (sh_slot_bytes hdr) \<longrightarrow>
       64 \<le> unat (scr_shm_slot_ptr hdr i) + x \<and>
       unat (scr_shm_slot_ptr hdr i) + x < unat (scr_shm_total_size w h) \<and>
       (j < 3 \<and> j \<noteq> i \<and> y < unat (sh_slot_bytes hdr) \<longrightarrow>
          unat (scr_shm_slot_ptr hdr i) + x \<noteq> unat (scr_shm_slot_ptr hdr j) + y))"
proof -
  have ok: "header_ok hdr" using assms by (simp add: header_ok_def header_validate_init) (simp add: scr_shm_header_init_def)
  have b: "unat (sh_slot_bytes hdr) = 4 * pixel_count w h"
    using slot_bytes_unat [OF assms(1)] assms(2) by (simp add: scr_shm_header_init_def)
  have "unat (scr_shm_slot_ptr hdr i) + x < unat (scr_shm_total_size w h)"
    if "i < 3" "x < unat (sh_slot_bytes hdr)" for i x
  proof -
    have "unat i \<le> 2" using that(1) by (simp add: unat_lt_3)
    then have "unat i * unat (sh_slot_bytes hdr) \<le> 2 * unat (sh_slot_bytes hdr)" by (rule mult_le_mono1)
    then show ?thesis
      using slot_ptr_unat [OF ok that(1)] that(2) total_size_unat [OF assms(1)]
      unfolding b by linarith
  qed
  moreover have "64 \<le> unat (scr_shm_slot_ptr hdr i) + x" if "i < 3" for i x
    using slot_ptr_unat [OF ok that] by simp
  ultimately show ?thesis
    using total_size_unat [OF assms(1)] slots_disjoint [OF ok] assms
    by (auto simp: pixel_count_def header_validate_init)
qed

theorem shm_layout_exact_witness:
  "unat (scr_shm_total_size 16384 16384) = 64 + 12 * (unat (16384 :: 32 word) * unat (16384 :: 32 word))"
proof -
  have "scr_shm_dims_valid 16384 16384" by (simp add: scr_shm_dims_valid_def)
  from shm_layout_exact [OF this refl] show ?thesis by blast
qed

end
