(* ===== verification/Screensaver_Proto.thy ===== *)
theory Screensaver_Proto
  imports Json_Glib
begin

text \<open>
  The control vocabulary of \<^verbatim>\<open>src/cmacs/screensaver/cmacs-screensaver-proto.c\<close>: one JSON object
  per datagram between the editor and the renderer process. Builders return the text, parsers
  take a pointer (\<open>None\<close> for \<^verbatim>\<open>NULL\<close>) and a length and return the message or nothing; an out
  parameter that the caller may leave \<^verbatim>\<open>NULL\<close> is always asked for. json-glib is the parameter
  \<open>J\<close>.
\<close>

section \<open>Helpers\<close>

definition proto_parse_object :: "json_glib \<Rightarrow> string option \<Rightarrow> int \<Rightarrow> json_object option" where
  "proto_parse_object J json len =
     (case json of None \<Rightarrow> None
      | Some s \<Rightarrow>
          (case jg_load J (if len < 0 then c_str s else take (nat len) s) of
             Some (Some (JObject obj)) \<Rightarrow> Some obj
           | _ \<Rightarrow> None))"

definition proto_get_string :: "json_glib \<Rightarrow> json_object \<Rightarrow> string \<Rightarrow> string option" where
  "proto_get_string J obj member =
     (case map_of obj member of None \<Rightarrow> None | Some v \<Rightarrow> jg_string J v)"

definition proto_get_int :: "json_glib \<Rightarrow> json_object \<Rightarrow> string \<Rightarrow> int" where
  "proto_get_int J obj member = (case map_of obj member of None \<Rightarrow> 0 | Some v \<Rightarrow> jg_int J v)"

definition proto_get_bool :: "json_glib \<Rightarrow> json_object \<Rightarrow> string \<Rightarrow> bool" where
  "proto_get_bool J obj member =
     (case map_of obj member of None \<Rightarrow> False | Some v \<Rightarrow> jg_boolean J v)"

definition proto_type_is :: "json_glib \<Rightarrow> json_object \<Rightarrow> string \<Rightarrow> bool" where
  "proto_type_is J obj tag \<longleftrightarrow> proto_get_string J obj ''t'' = Some tag"

definition proto_builder_to_string :: "json_glib \<Rightarrow> json_object \<Rightarrow> string" where
  "proto_builder_to_string J obj = jg_to_string J (JObject obj)"

definition scr_proto_message_type :: "json_glib \<Rightarrow> string option \<Rightarrow> int \<Rightarrow> string option" where
  "scr_proto_message_type J json len =
     (case proto_parse_object J json len of None \<Rightarrow> None
      | Some obj \<Rightarrow> proto_get_string J obj ''t'')"

abbreviation SCR_MSG_HELLO :: string where "SCR_MSG_HELLO \<equiv> ''hello''"
abbreviation SCR_MSG_SET_TARGET :: string where "SCR_MSG_SET_TARGET \<equiv> ''set-target''"
abbreviation SCR_MSG_REMOVE_TARGET :: string where "SCR_MSG_REMOVE_TARGET \<equiv> ''remove-target''"
abbreviation SCR_MSG_SET_FPS :: string where "SCR_MSG_SET_FPS \<equiv> ''set-fps''"
abbreviation SCR_MSG_PAUSE :: string where "SCR_MSG_PAUSE \<equiv> ''pause''"
abbreviation SCR_MSG_FRAME_BUFFER :: string where "SCR_MSG_FRAME_BUFFER \<equiv> ''frame-buffer''"
abbreviation SCR_MSG_LOAD_RESULT :: string where "SCR_MSG_LOAD_RESULT \<equiv> ''load-result''"
abbreviation SCR_MSG_HEARTBEAT :: string where "SCR_MSG_HEARTBEAT \<equiv> ''heartbeat''"

definition or_empty :: "string option \<Rightarrow> string" where
  "or_empty s = (case s of None \<Rightarrow> [] | Some x \<Rightarrow> x)"

section \<open>set-target\<close>

record scr_set_target =
  st_sink :: int
  st_mon :: "string option"
  st_so :: "string option"
  st_args :: "string list option"
  st_w :: int
  st_h :: int
  st_covered :: bool

definition set_target_object :: "scr_set_target \<Rightarrow> json_object" where
  "set_target_object t =
     [(''t'', JString SCR_MSG_SET_TARGET), (''sink'', JInt (st_sink t)),
      (''mon'', JString (or_empty (st_mon t))), (''so'', JString (or_empty (st_so t))),
      (''w'', JInt (st_w t)), (''h'', JInt (st_h t)), (''covered'', JBool (st_covered t)),
      (''args'', JArray (case st_args t of None \<Rightarrow> [] | Some as \<Rightarrow> map JString as))]"

definition scr_proto_build_set_target :: "json_glib \<Rightarrow> scr_set_target \<Rightarrow> string" where
  "scr_proto_build_set_target J t = proto_builder_to_string J (set_target_object t)"

text \<open>The argument vector ends at the first element that is not a string.\<close>

definition args_of_array :: "json_glib \<Rightarrow> json list \<Rightarrow> string list" where
  "args_of_array J els = map the (takeWhile (\<lambda>x. x \<noteq> None) (map (jg_string J) els))"

definition set_target_of_object :: "json_glib \<Rightarrow> json_object \<Rightarrow> scr_set_target option" where
  "set_target_of_object J obj =
     (if \<not> proto_type_is J obj SCR_MSG_SET_TARGET then None
      else
        (case (proto_get_string J obj ''mon'', proto_get_string J obj ''so'') of
           (Some mon, Some so) \<Rightarrow>
             if mon = [] \<or> so = [] then None
             else Some
               \<lparr>st_sink = to_gint (proto_get_int J obj ''sink''), st_mon = Some mon, st_so = Some so,
                st_args =
                  (case map_of obj ''args'' of None \<Rightarrow> None
                   | Some v \<Rightarrow>
                       Some (case jg_array J v of None \<Rightarrow> [] | Some els \<Rightarrow> args_of_array J els)),
                st_w = to_gint (proto_get_int J obj ''w''),
                st_h = to_gint (proto_get_int J obj ''h''),
                st_covered =
                  (json_object_has_member obj ''covered'' \<and> proto_get_bool J obj ''covered'')\<rparr>
         | _ \<Rightarrow> None))"

definition scr_proto_parse_set_target ::
  "json_glib \<Rightarrow> string option \<Rightarrow> int \<Rightarrow> scr_set_target option" where
  "scr_proto_parse_set_target J json len =
     (case proto_parse_object J json len of None \<Rightarrow> None | Some obj \<Rightarrow> set_target_of_object J obj)"

section \<open>frame-buffer\<close>

record scr_frame_buffer =
  fb_sink :: int
  fb_mon :: "string option"
  fb_w :: int
  fb_h :: int
  fb_stride :: int
  fb_slots :: int

definition frame_buffer_object :: "scr_frame_buffer \<Rightarrow> json_object" where
  "frame_buffer_object t =
     [(''t'', JString SCR_MSG_FRAME_BUFFER), (''sink'', JInt (fb_sink t)),
      (''mon'', JString (or_empty (fb_mon t))), (''w'', JInt (fb_w t)), (''h'', JInt (fb_h t)),
      (''stride'', JInt (fb_stride t)), (''slots'', JInt (fb_slots t))]"

definition scr_proto_build_frame_buffer :: "json_glib \<Rightarrow> scr_frame_buffer \<Rightarrow> string" where
  "scr_proto_build_frame_buffer J t = proto_builder_to_string J (frame_buffer_object t)"

definition frame_buffer_of_object :: "json_glib \<Rightarrow> json_object \<Rightarrow> scr_frame_buffer option" where
  "frame_buffer_of_object J obj =
     (if \<not> proto_type_is J obj SCR_MSG_FRAME_BUFFER then None
      else
        (case proto_get_string J obj ''mon'' of
           None \<Rightarrow> None
         | Some mon \<Rightarrow>
             if mon = [] then None
             else Some
               \<lparr>fb_sink = to_gint (proto_get_int J obj ''sink''), fb_mon = Some mon,
                fb_w = to_gint (proto_get_int J obj ''w''),
                fb_h = to_gint (proto_get_int J obj ''h''),
                fb_stride = to_gint (proto_get_int J obj ''stride''),
                fb_slots = to_gint (proto_get_int J obj ''slots'')\<rparr>))"

definition scr_proto_parse_frame_buffer ::
  "json_glib \<Rightarrow> string option \<Rightarrow> int \<Rightarrow> scr_frame_buffer option" where
  "scr_proto_parse_frame_buffer J json len =
     (case proto_parse_object J json len of None \<Rightarrow> None | Some obj \<Rightarrow> frame_buffer_of_object J obj)"

section \<open>load-result\<close>

record scr_load_result =
  lr_sink :: int
  lr_mon :: "string option"
  lr_ok :: bool
  lr_err :: "string option"

definition load_result_object :: "scr_load_result \<Rightarrow> json_object" where
  "load_result_object t =
     [(''t'', JString SCR_MSG_LOAD_RESULT), (''sink'', JInt (lr_sink t)),
      (''mon'', JString (or_empty (lr_mon t))), (''ok'', JBool (lr_ok t)),
      (''err'', JString (or_empty (lr_err t)))]"

definition scr_proto_build_load_result :: "json_glib \<Rightarrow> scr_load_result \<Rightarrow> string" where
  "scr_proto_build_load_result J t = proto_builder_to_string J (load_result_object t)"

definition load_result_of_object :: "json_glib \<Rightarrow> json_object \<Rightarrow> scr_load_result option" where
  "load_result_of_object J obj =
     (if \<not> proto_type_is J obj SCR_MSG_LOAD_RESULT then None
      else Some
        \<lparr>lr_sink = to_gint (proto_get_int J obj ''sink''),
         lr_mon = Some (or_empty (proto_get_string J obj ''mon'')),
         lr_ok = (json_object_has_member obj ''ok'' \<and> proto_get_bool J obj ''ok''),
         lr_err =
           (case proto_get_string J obj ''err'' of None \<Rightarrow> None
            | Some e \<Rightarrow> if e \<noteq> [] then Some e else None)\<rparr>)"

definition scr_proto_parse_load_result ::
  "json_glib \<Rightarrow> string option \<Rightarrow> int \<Rightarrow> scr_load_result option" where
  "scr_proto_parse_load_result J json len =
     (case proto_parse_object J json len of None \<Rightarrow> None | Some obj \<Rightarrow> load_result_of_object J obj)"

section \<open>Simple and scalar messages\<close>

definition scr_proto_build_simple :: "json_glib \<Rightarrow> string \<Rightarrow> string" where
  "scr_proto_build_simple J tag = proto_builder_to_string J [(''t'', JString tag)]"

definition one_int_object :: "string \<Rightarrow> string \<Rightarrow> int \<Rightarrow> json_object" where
  "one_int_object tag member v = [(''t'', JString tag), (member, JInt v)]"

definition proto_build_one_int :: "json_glib \<Rightarrow> string \<Rightarrow> string \<Rightarrow> int \<Rightarrow> string" where
  "proto_build_one_int J tag member v = proto_builder_to_string J (one_int_object tag member v)"

definition scr_proto_build_hello :: "json_glib \<Rightarrow> int \<Rightarrow> string" where
  "scr_proto_build_hello J version = proto_build_one_int J SCR_MSG_HELLO ''version'' version"

definition scr_proto_build_set_fps :: "json_glib \<Rightarrow> int \<Rightarrow> string" where
  "scr_proto_build_set_fps J fps = proto_build_one_int J SCR_MSG_SET_FPS ''fps'' fps"

definition scr_proto_build_heartbeat :: "json_glib \<Rightarrow> int \<Rightarrow> string" where
  "scr_proto_build_heartbeat J seq = proto_build_one_int J SCR_MSG_HEARTBEAT ''seq'' seq"

definition pause_object :: "bool \<Rightarrow> json_object" where
  "pause_object paused = [(''t'', JString SCR_MSG_PAUSE), (''paused'', JBool paused)]"

definition scr_proto_build_pause :: "json_glib \<Rightarrow> bool \<Rightarrow> string" where
  "scr_proto_build_pause J paused = proto_builder_to_string J (pause_object paused)"

definition remove_target_object :: "int \<times> string option \<Rightarrow> json_object" where
  "remove_target_object t =
     [(''t'', JString SCR_MSG_REMOVE_TARGET), (''sink'', JInt (fst t)),
      (''mon'', JString (or_empty (snd t)))]"

definition scr_proto_build_remove_target :: "json_glib \<Rightarrow> int \<Rightarrow> string option \<Rightarrow> string" where
  "scr_proto_build_remove_target J sink mon =
     proto_builder_to_string J (remove_target_object (sink, mon))"

definition hello_of_object :: "json_glib \<Rightarrow> json_object \<Rightarrow> int option" where
  "hello_of_object J obj =
     (if proto_type_is J obj SCR_MSG_HELLO then Some (to_gint (proto_get_int J obj ''version''))
      else None)"

definition scr_proto_parse_hello :: "json_glib \<Rightarrow> string option \<Rightarrow> int \<Rightarrow> int option" where
  "scr_proto_parse_hello J json len =
     (case proto_parse_object J json len of None \<Rightarrow> None | Some obj \<Rightarrow> hello_of_object J obj)"

definition set_fps_of_object :: "json_glib \<Rightarrow> json_object \<Rightarrow> int option" where
  "set_fps_of_object J obj =
     (if proto_type_is J obj SCR_MSG_SET_FPS then Some (to_gint (proto_get_int J obj ''fps''))
      else None)"

definition scr_proto_parse_set_fps :: "json_glib \<Rightarrow> string option \<Rightarrow> int \<Rightarrow> int option" where
  "scr_proto_parse_set_fps J json len =
     (case proto_parse_object J json len of None \<Rightarrow> None | Some obj \<Rightarrow> set_fps_of_object J obj)"

definition pause_of_object :: "json_glib \<Rightarrow> json_object \<Rightarrow> bool option" where
  "pause_of_object J obj =
     (if proto_type_is J obj SCR_MSG_PAUSE
      then Some (json_object_has_member obj ''paused'' \<and> proto_get_bool J obj ''paused'')
      else None)"

definition scr_proto_parse_pause :: "json_glib \<Rightarrow> string option \<Rightarrow> int \<Rightarrow> bool option" where
  "scr_proto_parse_pause J json len =
     (case proto_parse_object J json len of None \<Rightarrow> None | Some obj \<Rightarrow> pause_of_object J obj)"

definition remove_target_of_object ::
  "json_glib \<Rightarrow> json_object \<Rightarrow> (int \<times> string option) option" where
  "remove_target_of_object J obj =
     (if proto_type_is J obj SCR_MSG_REMOVE_TARGET then
        (case proto_get_string J obj ''mon'' of
           None \<Rightarrow> None
         | Some mon \<Rightarrow>
             if mon \<noteq> [] then Some (to_gint (proto_get_int J obj ''sink''), Some mon) else None)
      else None)"

definition scr_proto_parse_remove_target ::
  "json_glib \<Rightarrow> string option \<Rightarrow> int \<Rightarrow> (int \<times> string option) option" where
  "scr_proto_parse_remove_target J json len =
     (case proto_parse_object J json len of None \<Rightarrow> None | Some obj \<Rightarrow> remove_target_of_object J obj)"

section \<open>Codecs\<close>

text \<open>
  What a kind of message promises: its object is one the JSON library can carry, reading the
  object gives the message back, and only objects with its tag are read.
\<close>

locale json_message =
  fixes to_object :: "'m \<Rightarrow> json_object"
    and of_object :: "json_glib \<Rightarrow> json_object \<Rightarrow> 'm option"
    and msg_ok :: "'m \<Rightarrow> bool" and tag :: string
  assumes object_wf: "msg_ok m \<Longrightarrow> json_wf (JObject (to_object m))"
    and object_tag: "map_of (to_object m) ''t'' = Some (JString tag)"
    and of_to_object: "json_glib_ok J \<Longrightarrow> msg_ok m \<Longrightarrow> of_object J (to_object m) = Some m"
    and of_object_tag: "of_object J obj = Some m \<Longrightarrow> proto_type_is J obj tag"
begin

lemma parse_built:
  assumes "json_glib_ok J" and "msg_ok m"
  shows "proto_parse_object J (Some (proto_builder_to_string J (to_object m))) (-1) = Some (to_object m)"
  using json_glib_okD(1,2) [OF assms(1) object_wf [OF assms(2)]]
  by (simp add: proto_parse_object_def proto_builder_to_string_def)

lemma round_trip:
  assumes "json_glib_ok J" and "msg_ok m"
  shows "(case proto_parse_object J (Some (proto_builder_to_string J (to_object m))) (-1) of
      None \<Rightarrow> None | Some obj \<Rightarrow> of_object J obj) = Some m"
  using parse_built [OF assms] of_to_object [OF assms] by simp

lemma only_tagged:
  assumes "(case proto_parse_object J json len of None \<Rightarrow> None | Some obj \<Rightarrow> of_object J obj) = Some m"
  shows "scr_proto_message_type J json len = Some tag"
  using assms of_object_tag
  by (auto simp: scr_proto_message_type_def proto_type_is_def split: option.splits)

end

definition name_ok :: "string option \<Rightarrow> bool" where
  "name_ok s = (case s of None \<Rightarrow> False | Some x \<Rightarrow> x \<noteq> [] \<and> str_ok x)"

definition set_target_ok :: "scr_set_target \<Rightarrow> bool" where
  "set_target_ok t \<longleftrightarrow> name_ok (st_mon t) \<and> name_ok (st_so t) \<and>
     gint_range (st_sink t) \<and> gint_range (st_w t) \<and> gint_range (st_h t) \<and>
     (case st_args t of None \<Rightarrow> False | Some as \<Rightarrow> list_all str_ok as)"

definition frame_buffer_ok :: "scr_frame_buffer \<Rightarrow> bool" where
  "frame_buffer_ok t \<longleftrightarrow> name_ok (fb_mon t) \<and> gint_range (fb_sink t) \<and> gint_range (fb_w t) \<and>
     gint_range (fb_h t) \<and> gint_range (fb_stride t) \<and> gint_range (fb_slots t)"

definition load_result_ok :: "scr_load_result \<Rightarrow> bool" where
  "load_result_ok t \<longleftrightarrow> gint_range (lr_sink t) \<and>
     (case lr_mon t of None \<Rightarrow> False | Some x \<Rightarrow> str_ok x) \<and>
     (case lr_err t of None \<Rightarrow> True | Some x \<Rightarrow> x \<noteq> [] \<and> str_ok x)"

definition remove_target_ok :: "int \<times> string option \<Rightarrow> bool" where
  "remove_target_ok t \<longleftrightarrow> gint_range (fst t) \<and> name_ok (snd t)"

lemma args_of_array_strings: "json_glib_ok J \<Longrightarrow> args_of_array J (map JString as) = as"
  by (induction as) (simp_all add: args_of_array_def json_glib_okD(5))

lemmas proto_getters =
  proto_type_is_def proto_get_string_def proto_get_int_def proto_get_bool_def
  json_object_has_member_def or_empty_def

interpretation set_target_msg:
  json_message set_target_object set_target_of_object set_target_ok SCR_MSG_SET_TARGET
proof unfold_locales
  fix m :: scr_set_target
  assume "set_target_ok m"
  then show "json_wf (JObject (set_target_object m))"
    by (auto simp: set_target_object_def set_target_ok_def name_ok_def or_empty_def str_ok_ascii
        ascii_text_def gint_range_gint64 list_all_iff split: option.splits)
next
  fix J and m :: scr_set_target
  assume "json_glib_ok J" "set_target_ok m"
  then show "set_target_of_object J (set_target_object m) = Some m"
    by (cases m) (auto simp: set_target_of_object_def set_target_object_def set_target_ok_def
        name_ok_def proto_getters json_glib_okD(5-9) args_of_array_strings split: option.splits)
qed (auto simp: set_target_object_def set_target_of_object_def split: if_splits)

interpretation frame_buffer_msg:
  json_message frame_buffer_object frame_buffer_of_object frame_buffer_ok SCR_MSG_FRAME_BUFFER
proof unfold_locales
  fix m :: scr_frame_buffer
  assume "frame_buffer_ok m"
  then show "json_wf (JObject (frame_buffer_object m))"
    by (auto simp: frame_buffer_object_def frame_buffer_ok_def name_ok_def or_empty_def str_ok_ascii
        ascii_text_def gint_range_gint64 split: option.splits)
next
  fix J and m :: scr_frame_buffer
  assume "json_glib_ok J" "frame_buffer_ok m"
  then show "frame_buffer_of_object J (frame_buffer_object m) = Some m"
    by (cases m) (auto simp: frame_buffer_of_object_def frame_buffer_object_def frame_buffer_ok_def
        name_ok_def proto_getters json_glib_okD(5-9) split: option.splits)
qed (auto simp: frame_buffer_object_def frame_buffer_of_object_def split: if_splits)

interpretation load_result_msg:
  json_message load_result_object load_result_of_object load_result_ok SCR_MSG_LOAD_RESULT
proof unfold_locales
  fix m :: scr_load_result
  assume "load_result_ok m"
  then show "json_wf (JObject (load_result_object m))"
    by (auto simp: load_result_object_def load_result_ok_def or_empty_def str_ok_ascii
        ascii_text_def gint_range_gint64 split: option.splits)
next
  fix J and m :: scr_load_result
  assume "json_glib_ok J" "load_result_ok m"
  then show "load_result_of_object J (load_result_object m) = Some m"
    by (cases m) (auto simp: load_result_of_object_def load_result_object_def load_result_ok_def
        proto_getters json_glib_okD(5-9) split: option.splits)
qed (auto simp: load_result_object_def load_result_of_object_def split: if_splits)

interpretation hello_msg:
  json_message "one_int_object SCR_MSG_HELLO ''version''" hello_of_object gint_range SCR_MSG_HELLO
  by unfold_locales
     (auto simp: one_int_object_def hello_of_object_def str_ok_ascii ascii_text_def
        gint_range_gint64 proto_getters json_glib_okD(5-9) split: if_splits)

interpretation set_fps_msg:
  json_message "one_int_object SCR_MSG_SET_FPS ''fps''" set_fps_of_object gint_range SCR_MSG_SET_FPS
  by unfold_locales
     (auto simp: one_int_object_def set_fps_of_object_def str_ok_ascii ascii_text_def
        gint_range_gint64 proto_getters json_glib_okD(5-9) split: if_splits)

interpretation pause_msg:
  json_message pause_object pause_of_object "\<lambda>_. True" SCR_MSG_PAUSE
  by unfold_locales
     (auto simp: pause_object_def pause_of_object_def str_ok_ascii ascii_text_def
        proto_getters json_glib_okD(5-9) split: if_splits)

interpretation remove_target_msg:
  json_message remove_target_object remove_target_of_object remove_target_ok SCR_MSG_REMOVE_TARGET
  by unfold_locales
     (auto simp: remove_target_object_def remove_target_of_object_def remove_target_ok_def
        name_ok_def str_ok_ascii ascii_text_def gint_range_gint64 proto_getters json_glib_okD(5-9)
        split: if_splits option.splits)

lemmas build_defs =
  scr_proto_build_set_target_def scr_proto_build_frame_buffer_def scr_proto_build_load_result_def
  scr_proto_build_hello_def scr_proto_build_set_fps_def scr_proto_build_pause_def
  scr_proto_build_remove_target_def proto_build_one_int_def

lemmas parse_defs =
  scr_proto_parse_set_target_def scr_proto_parse_frame_buffer_def scr_proto_parse_load_result_def
  scr_proto_parse_hello_def scr_proto_parse_set_fps_def scr_proto_parse_pause_def
  scr_proto_parse_remove_target_def

section \<open>Properties\<close>

text \<open>
  Control messages survive the socket. For each kind of message the renderer or
  the editor reads, what the builder writes for a representable message (valid UTF-8 names
  without NUL, non-empty where the parser insists, an argument vector, integers of C width) the
  parser of the other process reads back as the same message, field for field.
\<close>

theorem control_messages_round_trip:
  assumes "json_glib_ok J"
  shows "(set_target_ok t \<longrightarrow>
       scr_proto_parse_set_target J (Some (scr_proto_build_set_target J t)) (-1) = Some t) \<and>
    (frame_buffer_ok b \<longrightarrow>
       scr_proto_parse_frame_buffer J (Some (scr_proto_build_frame_buffer J b)) (-1) = Some b) \<and>
    (load_result_ok r \<longrightarrow>
       scr_proto_parse_load_result J (Some (scr_proto_build_load_result J r)) (-1) = Some r) \<and>
    (gint_range i \<longrightarrow> scr_proto_parse_hello J (Some (scr_proto_build_hello J i)) (-1) = Some i) \<and>
    (gint_range i \<longrightarrow> scr_proto_parse_set_fps J (Some (scr_proto_build_set_fps J i)) (-1) = Some i) \<and>
    scr_proto_parse_pause J (Some (scr_proto_build_pause J p)) (-1) = Some p \<and>
    (remove_target_ok (i, mon) \<longrightarrow>
       scr_proto_parse_remove_target J (Some (scr_proto_build_remove_target J i mon)) (-1) =
         Some (i, mon))"
  unfolding build_defs parse_defs
  by (intro conjI impI set_target_msg.round_trip frame_buffer_msg.round_trip
      load_result_msg.round_trip hello_msg.round_trip set_fps_msg.round_trip pause_msg.round_trip
      remove_target_msg.round_trip assms) simp_all

theorem control_messages_round_trip_witness:
  "scr_proto_parse_set_target ref_json_glib (Some (scr_proto_build_set_target ref_json_glib
      \<lparr>st_sink = 1, st_mon = Some ''DP-1'', st_so = Some ''/lib/waves.so'', st_args = Some [''fast''],
       st_w = 1920, st_h = 1080, st_covered = False\<rparr>)) (-1) = Some
      \<lparr>st_sink = 1, st_mon = Some ''DP-1'', st_so = Some ''/lib/waves.so'', st_args = Some [''fast''],
       st_w = 1920, st_h = 1080, st_covered = False\<rparr>"
proof -
  let ?t = "\<lparr>st_sink = 1, st_mon = Some ''DP-1'', st_so = Some ''/lib/waves.so'', st_args = Some [''fast''],
       st_w = 1920, st_h = 1080, st_covered = False\<rparr>"
  have "set_target_ok ?t"
    by (simp add: set_target_ok_def name_ok_def gint_range_def str_ok_ascii ascii_text_def)
  then show ?thesis using control_messages_round_trip [OF ref_json_glib_ok, where t = ?t] by blast
qed

text \<open>
  No message is taken for another. Whatever bytes arrive, a parser accepts them
  only when \<^verbatim>\<open>scr_proto_message_type\<close> gives its own tag, so the dispatch on the tag and the parser
  never disagree; and a target that is set always names a monitor and a module, both non-empty,
  with integers that fit the C fields.
\<close>

theorem control_messages_not_confused:
  "(scr_proto_parse_set_target J json len = Some t \<longrightarrow>
      scr_proto_message_type J json len = Some SCR_MSG_SET_TARGET \<and>
      (\<exists>mon so. st_mon t = Some mon \<and> mon \<noteq> [] \<and> st_so t = Some so \<and> so \<noteq> []) \<and>
      gint_range (st_sink t) \<and> gint_range (st_w t) \<and> gint_range (st_h t)) \<and>
   (scr_proto_parse_frame_buffer J json len = Some b \<longrightarrow>
      scr_proto_message_type J json len = Some SCR_MSG_FRAME_BUFFER) \<and>
   (scr_proto_parse_load_result J json len = Some r \<longrightarrow>
      scr_proto_message_type J json len = Some SCR_MSG_LOAD_RESULT) \<and>
   (scr_proto_parse_hello J json len = Some v \<longrightarrow>
      scr_proto_message_type J json len = Some SCR_MSG_HELLO) \<and>
   (scr_proto_parse_set_fps J json len = Some v \<longrightarrow>
      scr_proto_message_type J json len = Some SCR_MSG_SET_FPS) \<and>
   (scr_proto_parse_pause J json len = Some p \<longrightarrow>
      scr_proto_message_type J json len = Some SCR_MSG_PAUSE) \<and>
   (scr_proto_parse_remove_target J json len = Some x \<longrightarrow>
      scr_proto_message_type J json len = Some SCR_MSG_REMOVE_TARGET)"
  unfolding parse_defs
proof (intro conjI impI)
  assume a: "(case proto_parse_object J json len of None \<Rightarrow> None
    | Some obj \<Rightarrow> set_target_of_object J obj) = Some t"
  from a show "scr_proto_message_type J json len = Some SCR_MSG_SET_TARGET"
    by (rule set_target_msg.only_tagged)
  from a show "\<exists>mon so. st_mon t = Some mon \<and> mon \<noteq> [] \<and> st_so t = Some so \<and> so \<noteq> []"
    "gint_range (st_sink t)" "gint_range (st_w t)" "gint_range (st_h t)"
    by (auto simp: set_target_of_object_def split: option.splits if_splits)
qed (erule frame_buffer_msg.only_tagged load_result_msg.only_tagged hello_msg.only_tagged
      set_fps_msg.only_tagged pause_msg.only_tagged remove_target_msg.only_tagged)+

theorem control_messages_not_confused_witness:
  "scr_proto_parse_pause ref_json_glib (Some (scr_proto_build_pause ref_json_glib True)) (-1) = Some True \<and>
   scr_proto_message_type ref_json_glib (Some (scr_proto_build_pause ref_json_glib True)) (-1) =
     Some SCR_MSG_PAUSE"
proof -
  have "scr_proto_parse_pause ref_json_glib (Some (scr_proto_build_pause ref_json_glib True)) (-1) = Some True"
    by code_simp
  then show ?thesis using control_messages_not_confused by blast
qed

end
