(* ===== verification/Office_Zip.thy ===== *)
theory Office_Zip
  imports GHash Utf8 "HOL-Library.Word"
begin

text \<open>
  \<^verbatim>\<open>src/cmacs/office/cmacs-office-zip.c\<close>: the package container of the office formats, with its
  deferred writes. libzip, the file system and \<^verbatim>\<open>g_file_copy\<close> are not part of the repository: they
  are the fields of a record \<open>libzip\<close> over an opaque file system, archive handle and open member,
  and \<open>libzip_ok\<close> collects the documented behaviour relied on. A package is a record; each
  operation returns a result and the new record, with the file system threaded where the code
  touches files. Part names are C strings, so they hold no NUL; \<^verbatim>\<open>NULL\<close> is \<open>None\<close>.
\<close>

datatype zip_error =
  ERROR_OPEN | ERROR_NO_PART | ERROR_BAD_NAME | ERROR_TOO_LARGE | ERROR_READ | ERROR_WRITE
| ERROR_READONLY

section \<open>The archive library\<close>

text \<open>
  A handle argument is optional because the code hands libzip whatever its field holds, which is
  \<^verbatim>\<open>NULL\<close> after a reopen failed. \<open>zl_stat_size\<close> is \<^verbatim>\<open>zip_stat_index\<close> with the size it declares,
  \<open>None\<close> when it fails or declares none; \<open>zl_fread\<close> gives the bytes read, \<open>None\<close> on error;
  \<open>zl_close\<close> writes an archive opened for update to its file.
\<close>

record ('fs, 'za, 'zf) libzip =
  zl_open_ro :: "'fs \<Rightarrow> string \<Rightarrow> 'za option"
  zl_open_rw :: "'fs \<Rightarrow> string \<Rightarrow> 'za option"
  zl_num_entries :: "'za option \<Rightarrow> nat"
  zl_get_name :: "'za option \<Rightarrow> nat \<Rightarrow> string option"
  zl_stat_size :: "'za option \<Rightarrow> nat \<Rightarrow> 64 word option"
  zl_name_locate :: "'za option \<Rightarrow> string \<Rightarrow> nat option"
  zl_fopen :: "'za option \<Rightarrow> nat \<Rightarrow> 'zf option"
  zl_fread :: "'zf \<Rightarrow> nat \<Rightarrow> string option \<times> 'zf"
  zl_source_buffer :: "'za \<Rightarrow> string \<Rightarrow> bool"
  zl_replace :: "'za \<Rightarrow> nat \<Rightarrow> string \<Rightarrow> 'za option"
  zl_add :: "'za \<Rightarrow> string \<Rightarrow> string \<Rightarrow> 'za option"
  zl_delete :: "'za \<Rightarrow> nat \<Rightarrow> 'za option"
  zl_close :: "'fs \<Rightarrow> 'za \<Rightarrow> string \<Rightarrow> bool \<times> 'fs"
  zl_file_copy :: "'fs \<Rightarrow> string \<Rightarrow> string \<Rightarrow> bool \<times> 'fs"

section \<open>The package\<close>

record 'za office_zip =
  z_path :: string
  z_za :: "'za option"
  z_pending :: "(string, string) ghash"
  z_pending_order :: "string list"
  z_deleted :: "(string, unit) ghash"
  z_max_part :: "64 word"
  z_max_total :: "64 word"

abbreviation ODF_MIMETYPE :: string where "ODF_MIMETYPE \<equiv> ''mimetype''"
abbreviation ZIP_MAX_NAME :: nat where "ZIP_MAX_NAME \<equiv> 4096"
abbreviation DEFAULT_MAX_PART :: "64 word" where "DEFAULT_MAX_PART \<equiv> 512 * 1024 * 1024"
abbreviation DEFAULT_MAX_TOTAL :: "64 word" where "DEFAULT_MAX_TOTAL \<equiv> 2048 * 1024 * 1024"

text \<open>The loop over the segments of a name.\<close>

function no_dotdot :: "string \<Rightarrow> bool" where
  "no_dotdot p =
     (if p = [] then True
      else if takeWhile (\<lambda>c. c \<noteq> CHR ''/'') p = ''..'' then False
      else if CHR ''/'' \<notin> set p then True
      else no_dotdot (tl (dropWhile (\<lambda>c. c \<noteq> CHR ''/'') p)))"
  by pat_completeness auto
termination
proof (relation "measure length")
  fix p :: string
  assume "\<not> CHR ''/'' \<notin> set p"
  then have "dropWhile (\<lambda>c. c \<noteq> CHR ''/'') p \<noteq> []" by (auto simp: dropWhile_eq_Nil_conv)
  then have "length (tl (dropWhile (\<lambda>c. c \<noteq> CHR ''/'') p)) < length (dropWhile (\<lambda>c. c \<noteq> CHR ''/'') p)"
    by (cases "dropWhile (\<lambda>c. c \<noteq> CHR ''/'') p") auto
  also have "\<dots> \<le> length p" by (rule length_dropWhile_le)
  finally show "(tl (dropWhile (\<lambda>c. c \<noteq> CHR ''/'') p), p) \<in> measure length" by simp
qed simp

declare no_dotdot.simps [simp del]

definition zip_name_valid :: "string option \<Rightarrow> bool" where
  "zip_name_valid name =
     (case name of
        None \<Rightarrow> False
      | Some s \<Rightarrow>
          if s = [] then False
          else if length s > ZIP_MAX_NAME then False
          else if \<not> g_utf8_validate s then False
          else if hd s = CHR ''/'' then False
          else if CHR 0x5C \<in> set s \<or> CHR '':'' \<in> set s then False
          else no_dotdot s)"

definition check_name :: "string option \<Rightarrow> zip_error + string" where
  "check_name name = (if zip_name_valid name then Inr (the name) else Inl ERROR_BAD_NAME)"

text \<open>The summing loop, with its saturation, from entry \<open>i\<close> on.\<close>

fun sum_sizes :: "64 word \<Rightarrow> 64 word option list \<Rightarrow> 64 word \<Rightarrow> bool" where
  "sum_sizes max_total [] acc = True"
| "sum_sizes max_total (None # ss) acc = sum_sizes max_total ss acc"
| "sum_sizes max_total (Some sz # ss) acc =
     (let acc' = (if sz > max_total \<or> acc > max_total - sz then max_total + 1
                    else acc + sz)
      in if acc' > max_total then False else sum_sizes max_total ss acc')"

definition check_total_size :: "('fs, 'za, 'zf) libzip \<Rightarrow> 'za option \<Rightarrow> 64 word \<Rightarrow> zip_error + unit" where
  "check_total_size L za max_total =
     (if sum_sizes max_total (map (zl_stat_size L za) [0..<zl_num_entries L za]) 0
      then Inr () else Inl ERROR_TOO_LARGE)"

definition zip_open :: "('fs, 'za, 'zf) libzip \<Rightarrow> 'fs \<Rightarrow> string \<Rightarrow> zip_error + 'za office_zip" where
  "zip_open L fs path =
     (case zl_open_ro L fs path of
        None \<Rightarrow> Inl ERROR_OPEN
      | Some za \<Rightarrow>
          (case check_total_size L (Some za) DEFAULT_MAX_TOTAL of
             Inl e \<Rightarrow> Inl e
           | Inr _ \<Rightarrow> Inr
               \<lparr>z_path = path, z_za = Some za, z_pending = gh_empty, z_pending_order = [],
                z_deleted = gh_empty, z_max_part = DEFAULT_MAX_PART,
                z_max_total = DEFAULT_MAX_TOTAL\<rparr>))"

definition zip_set_limits :: "'za office_zip \<Rightarrow> 64 word \<Rightarrow> 64 word \<Rightarrow> 'za office_zip" where
  "zip_set_limits z max_part max_total =
     (let z1 = (if max_part > 0 then z\<lparr>z_max_part := max_part\<rparr> else z)
      in if max_total > 0 then z1\<lparr>z_max_total := max_total\<rparr> else z1)"

definition zip_dirty :: "'za office_zip \<Rightarrow> bool" where
  "zip_dirty z \<longleftrightarrow> gh_size (z_pending z) > 0 \<or> gh_size (z_deleted z) > 0"

definition zip_has_part :: "('fs, 'za, 'zf) libzip \<Rightarrow> 'za office_zip \<Rightarrow> string option \<Rightarrow> bool" where
  "zip_has_part L z name =
     (if \<not> zip_name_valid name then False
      else if gh_contains (z_deleted z) (the name) then False
      else if gh_contains (z_pending z) (the name) then True
      else zl_name_locate L (z_za z) (the name) \<noteq> None)"

definition zip_part_names :: "('fs, 'za, 'zf) libzip \<Rightarrow> 'za office_zip \<Rightarrow> string list" where
  "zip_part_names L z =
     filter (\<lambda>nm. \<not> gh_contains (z_deleted z) nm)
       (List.map_filter (zl_get_name L (z_za z)) [0..<zl_num_entries L (z_za z)]) @
     filter (\<lambda>nm. \<not> gh_contains (z_deleted z) nm \<and> zl_name_locate L (z_za z) nm = None)
       (z_pending_order z)"

definition zip_n_parts :: "('fs, 'za, 'zf) libzip \<Rightarrow> 'za office_zip \<Rightarrow> nat" where
  "zip_n_parts L z = length (zip_part_names L z)"

definition zip_part_size ::
  "('fs, 'za, 'zf) libzip \<Rightarrow> 'za office_zip \<Rightarrow> string option \<Rightarrow> zip_error + nat" where
  "zip_part_size L z name =
     (case check_name name of
        Inl e \<Rightarrow> Inl e
      | Inr n \<Rightarrow>
          if gh_contains (z_deleted z) n then Inl ERROR_NO_PART
          else
            (case gh_lookup (z_pending z) n of
               Some queued \<Rightarrow> Inr (length queued)
             | None \<Rightarrow>
                 (case zl_name_locate L (z_za z) n of
                    None \<Rightarrow> Inl ERROR_NO_PART
                  | Some idx \<Rightarrow>
                      (case zl_stat_size L (z_za z) idx of
                         None \<Rightarrow> Inl ERROR_READ | Some sz \<Rightarrow> Inr (unat sz)))))"

text \<open>The read loop: \<open>buf\<close> is what has arrived, \<open>want\<close> the declared size.\<close>

function read_loop ::
  "('fs, 'za, 'zf) libzip \<Rightarrow> 'zf \<Rightarrow> nat \<Rightarrow> string \<Rightarrow> zip_error + (string \<times> 'zf)" where
  "read_loop L zf want buf =
     (if length buf < want then
        (case zl_fread L zf (want - length buf) of
           (None, zf') \<Rightarrow> Inl ERROR_READ
         | (Some c, zf') \<Rightarrow> if c = [] then Inr (buf, zf') else read_loop L zf' want (buf @ c))
      else Inr (buf, zf))"
  by pat_completeness auto
termination
  by (relation "measure (\<lambda>(L, zf, want, buf). want - length buf)") (auto simp: neq_Nil_conv)

declare read_loop.simps [simp del]

definition read_member :: "('fs, 'za, 'zf) libzip \<Rightarrow> 'zf \<Rightarrow> nat \<Rightarrow> zip_error + string" where
  "read_member L zf want =
     (case read_loop L zf want [] of
        Inl e \<Rightarrow> Inl e
      | Inr (buf, zf') \<Rightarrow>
          if length buf = want \<and> (case fst (zl_fread L zf' 1) of None \<Rightarrow> False | Some c \<Rightarrow> c \<noteq> [])
          then Inl ERROR_TOO_LARGE
          else if length buf \<noteq> want then Inl ERROR_READ
          else Inr buf)"

definition zip_read_part ::
  "('fs, 'za, 'zf) libzip \<Rightarrow> 'za office_zip \<Rightarrow> string option \<Rightarrow> zip_error + string" where
  "zip_read_part L z name =
     (case check_name name of
        Inl e \<Rightarrow> Inl e
      | Inr n \<Rightarrow>
          if gh_contains (z_deleted z) n then Inl ERROR_NO_PART
          else
            (case gh_lookup (z_pending z) n of
               Some queued \<Rightarrow> Inr queued
             | None \<Rightarrow>
                 (case zl_name_locate L (z_za z) n of
                    None \<Rightarrow> Inl ERROR_NO_PART
                  | Some idx \<Rightarrow>
                      (case zl_stat_size L (z_za z) idx of
                         None \<Rightarrow> Inl ERROR_READ
                       | Some sz \<Rightarrow>
                           if sz > z_max_part z then Inl ERROR_TOO_LARGE
                           else
                             (case zl_fopen L (z_za z) idx of
                                None \<Rightarrow> Inl ERROR_READ
                              | Some zf \<Rightarrow> read_member L zf (unat sz))))))"

section \<open>Queued mutation\<close>

definition remember_order :: "string \<Rightarrow> string list \<Rightarrow> string list" where
  "remember_order name order = (if name \<in> set order then order else order @ [name])"

definition zip_set_part ::
  "('fs, 'za, 'zf) libzip \<Rightarrow> 'za office_zip \<Rightarrow> string option \<Rightarrow> string \<Rightarrow> zip_error + 'za office_zip"
  where
  "zip_set_part L z name data =
     (case check_name name of
        Inl e \<Rightarrow> Inl e
      | Inr n \<Rightarrow>
          if n = ODF_MIMETYPE \<and> zl_name_locate L (z_za z) n \<noteq> None then Inl ERROR_READONLY
          else Inr
            (z\<lparr>z_deleted := gh_remove n (z_deleted z),
               z_pending := gh_replace n data (z_pending z),
               z_pending_order := remember_order n (z_pending_order z)\<rparr>))"

definition zip_delete_part ::
  "('fs, 'za, 'zf) libzip \<Rightarrow> 'za office_zip \<Rightarrow> string option \<Rightarrow> zip_error + 'za office_zip" where
  "zip_delete_part L z name =
     (case check_name name of
        Inl e \<Rightarrow> Inl e
      | Inr n \<Rightarrow>
          if n = ODF_MIMETYPE then Inl ERROR_READONLY
          else if \<not> zip_has_part L z (Some n) then Inl ERROR_NO_PART
          else Inr
            (z\<lparr>z_pending := gh_remove n (z_pending z),
               z_deleted := gh_replace n () (z_deleted z)\<rparr>))"

definition zip_revert :: "'za office_zip \<Rightarrow> 'za office_zip" where
  "zip_revert z = z\<lparr>z_pending := gh_empty, z_deleted := gh_empty, z_pending_order := []\<rparr>"

section \<open>Saving\<close>

fun apply_writes ::
  "('fs, 'za, 'zf) libzip \<Rightarrow> 'za \<Rightarrow> (string \<times> string) list \<Rightarrow> zip_error + 'za" where
  "apply_writes L za [] = Inr za"
| "apply_writes L za ((name, data) # es) =
     (if \<not> zl_source_buffer L za data then Inl ERROR_WRITE
      else
        (case (case zl_name_locate L (Some za) name of
                 Some idx \<Rightarrow> zl_replace L za idx data
               | None \<Rightarrow> zl_add L za name data) of
           None \<Rightarrow> Inl ERROR_WRITE
         | Some za' \<Rightarrow> apply_writes L za' es))"

fun apply_deletes :: "('fs, 'za, 'zf) libzip \<Rightarrow> 'za \<Rightarrow> string list \<Rightarrow> zip_error + 'za" where
  "apply_deletes L za [] = Inr za"
| "apply_deletes L za (name # ns) =
     (case zl_name_locate L (Some za) name of
        None \<Rightarrow> apply_deletes L za ns
      | Some idx \<Rightarrow>
          (case zl_delete L za idx of
             None \<Rightarrow> Inl ERROR_WRITE
           | Some za' \<Rightarrow> apply_deletes L za' ns))"

definition apply_pending ::
  "('fs, 'za, 'zf) libzip \<Rightarrow> 'fs \<Rightarrow> 'za office_zip \<Rightarrow> string \<Rightarrow> (zip_error + unit) \<times> 'fs" where
  "apply_pending L fs z target =
     (case zl_open_rw L fs target of
        None \<Rightarrow> (Inl ERROR_WRITE, fs)
      | Some za \<Rightarrow>
          (case apply_writes L za (gh_entries (z_pending z)) of
             Inl e \<Rightarrow> (Inl e, fs)
           | Inr za1 \<Rightarrow>
               (case apply_deletes L za1 (map fst (gh_entries (z_deleted z))) of
                  Inl e \<Rightarrow> (Inl e, fs)
                | Inr za2 \<Rightarrow>
                    (case zl_close L fs za2 target of
                       (False, fs') \<Rightarrow> (Inl ERROR_WRITE, fs')
                     | (True, fs') \<Rightarrow> (Inr (), fs')))))"

definition zip_reopen ::
  "('fs, 'za, 'zf) libzip \<Rightarrow> 'fs \<Rightarrow> 'za office_zip \<Rightarrow> bool \<times> 'za office_zip" where
  "zip_reopen L fs z =
     (let za = zl_open_ro L fs (z_path z) in (za \<noteq> None, z\<lparr>z_za := za\<rparr>))"

definition zip_save ::
  "('fs, 'za, 'zf) libzip \<Rightarrow> 'fs \<Rightarrow> 'za office_zip
     \<Rightarrow> (zip_error + unit) \<times> 'fs \<times> 'za office_zip" where
  "zip_save L fs z =
     (if \<not> zip_dirty z then (Inr (), fs, z)
      else
        (case apply_pending L fs z (z_path z) of (ok, fs') \<Rightarrow>
          (case zip_reopen L fs' (z\<lparr>z_za := None\<rparr>) of
             (False, z') \<Rightarrow> (case ok of Inl e \<Rightarrow> (Inl e, fs', z') | Inr _ \<Rightarrow> (Inl ERROR_OPEN, fs', z'))
           | (True, z') \<Rightarrow>
               (case ok of Inl e \<Rightarrow> (Inl e, fs', z') | Inr _ \<Rightarrow> (Inr (), fs', zip_revert z')))))"

definition zip_save_as ::
  "('fs, 'za, 'zf) libzip \<Rightarrow> 'fs \<Rightarrow> 'za office_zip \<Rightarrow> string
     \<Rightarrow> (zip_error + unit) \<times> 'fs \<times> 'za office_zip" where
  "zip_save_as L fs z dest =
     (if dest = z_path z then zip_save L fs z
      else
        (case zl_file_copy L fs (z_path z) dest of
           (False, fs') \<Rightarrow> (Inl ERROR_WRITE, fs', z)
         | (True, fs') \<Rightarrow>
             if \<not> zip_dirty z then (Inr (), fs', z)
             else (case apply_pending L fs' z dest of (r, fs'') \<Rightarrow> (r, fs'', z))))"

section \<open>What is relied on\<close>

text \<open>
  The library is described through three views: the entries of an archive in order with what
  their members really deliver (\<open>V\<close>), the archive stored in a file (\<open>F\<close>) and what is left of an
  open member (\<open>R\<close>). Opening a file gives a handle on its entries; locating finds a name exactly
  when there is an entry of that name; replacing, adding and deleting change the entries as their
  names say; closing either fails and leaves the file as it was or writes the entries to it, except
  that libzip stores no archive without entries: it removes the file, or leaves one that was
  empty already; a copy that
  succeeds copies; reading hands out the member's bytes in order, at most as many as asked for,
  and nothing only at its end.
\<close>

type_synonym entries = "(string \<times> string) list"

definition libzip_opens ::
  "('fs, 'za, 'zf) libzip \<Rightarrow> ('za \<Rightarrow> entries) \<Rightarrow> ('fs \<Rightarrow> string \<Rightarrow> entries option) \<Rightarrow> bool" where
  "libzip_opens L V F \<longleftrightarrow>
     (\<forall>fs p a. zl_open_ro L fs p = Some a \<longrightarrow> F fs p = Some (V a) \<and>
        List.map_filter (zl_get_name L (Some a)) [0..<zl_num_entries L (Some a)] = map fst (V a)) \<and>
     (\<forall>fs p a. zl_open_rw L fs p = Some a \<longrightarrow> F fs p = Some (V a)) \<and>
     (\<forall>a n. zl_name_locate L (Some a) n = None \<longleftrightarrow> n \<notin> fst ` set (V a))"

definition libzip_edits :: "('fs, 'za, 'zf) libzip \<Rightarrow> ('za \<Rightarrow> entries) \<Rightarrow> bool" where
  "libzip_edits L V \<longleftrightarrow>
     (\<forall>a n i d b. zl_name_locate L (Some a) n = Some i \<and> zl_replace L a i d = Some b \<longrightarrow>
        V b = AList.update n d (V a)) \<and>
     (\<forall>a n d b. zl_name_locate L (Some a) n = None \<and> zl_add L a n d = Some b \<longrightarrow>
        V b = V a @ [(n, d)]) \<and>
     (\<forall>a n i b. distinct (map fst (V a)) \<and> zl_name_locate L (Some a) n = Some i \<and>
        zl_delete L a i = Some b \<longrightarrow> V b = filter (\<lambda>e. fst e \<noteq> n) (V a))"

definition libzip_files ::
  "('fs, 'za, 'zf) libzip \<Rightarrow> ('za \<Rightarrow> entries) \<Rightarrow> ('fs \<Rightarrow> string \<Rightarrow> entries option) \<Rightarrow> bool" where
  "libzip_files L V F \<longleftrightarrow>
     (\<forall>fs a p q. F (snd (zl_close L fs a p)) q =
        (if fst (zl_close L fs a p) \<and> q = p
         then (if V a = [] \<and> F fs p \<noteq> Some [] then None else Some (V a)) else F fs q)) \<and>
     (\<forall>fs s d q. q \<noteq> d \<longrightarrow> F (snd (zl_file_copy L fs s d)) q = F fs q) \<and>
     (\<forall>fs s d. fst (zl_file_copy L fs s d) \<longrightarrow> F (snd (zl_file_copy L fs s d)) d = F fs s)"

definition libzip_reads ::
  "('fs, 'za, 'zf) libzip \<Rightarrow> ('za \<Rightarrow> entries) \<Rightarrow> ('zf \<Rightarrow> string) \<Rightarrow> bool" where
  "libzip_reads L V R \<longleftrightarrow>
     (\<forall>a n i f. zl_name_locate L (Some a) n = Some i \<and> zl_fopen L (Some a) i = Some f \<longrightarrow>
        map_of (V a) n = Some (R f)) \<and>
     (\<forall>f k c f'. zl_fread L f k = (Some c, f') \<longrightarrow>
        R f = c @ R f' \<and> length c \<le> k \<and> (0 < k \<and> R f \<noteq> [] \<longrightarrow> c \<noteq> []))"

definition libzip_ok ::
  "('fs, 'za, 'zf) libzip \<Rightarrow> ('za \<Rightarrow> entries) \<Rightarrow> ('fs \<Rightarrow> string \<Rightarrow> entries option) \<Rightarrow> ('zf \<Rightarrow> string) \<Rightarrow> bool"
  where
  "libzip_ok L V F R \<longleftrightarrow>
     libzip_opens L V F \<and> libzip_edits L V \<and> libzip_files L V F \<and> libzip_reads L V R"

lemma libzip_opensD:
  assumes "libzip_ok L V F R"
  shows "zl_open_ro L fs p = Some a \<Longrightarrow> F fs p = Some (V a)"
    and "zl_open_ro L fs p = Some a \<Longrightarrow>
      List.map_filter (zl_get_name L (Some a)) [0..<zl_num_entries L (Some a)] = map fst (V a)"
    and "zl_open_rw L fs p = Some a \<Longrightarrow> F fs p = Some (V a)"
    and "zl_name_locate L (Some a) n = None \<longleftrightarrow> n \<notin> fst ` set (V a)"
  using assms unfolding libzip_ok_def libzip_opens_def by blast+

lemma libzip_editsD:
  assumes "libzip_ok L V F R"
  shows "zl_name_locate L (Some a) n = Some i \<Longrightarrow> zl_replace L a i d = Some b \<Longrightarrow>
      V b = AList.update n d (V a)"
    and "zl_name_locate L (Some a) n = None \<Longrightarrow> zl_add L a n d = Some b \<Longrightarrow> V b = V a @ [(n, d)]"
    and "distinct (map fst (V a)) \<Longrightarrow> zl_name_locate L (Some a) n = Some i \<Longrightarrow>
      zl_delete L a i = Some b \<Longrightarrow> V b = filter (\<lambda>e. fst e \<noteq> n) (V a)"
  using assms unfolding libzip_ok_def libzip_edits_def by blast+

lemma libzip_filesD:
  assumes "libzip_ok L V F R"
  shows "zl_close L fs a p = (ok, fs') \<Longrightarrow> F fs' q =
      (if ok \<and> q = p then (if V a = [] \<and> F fs p \<noteq> Some [] then None else Some (V a)) else F fs q)"
    and "zl_file_copy L fs s d = (ok, fs') \<Longrightarrow> q \<noteq> d \<Longrightarrow> F fs' q = F fs q"
    and "zl_file_copy L fs s d = (True, fs') \<Longrightarrow> F fs' d = F fs s"
  using assms unfolding libzip_ok_def libzip_files_def by (metis fst_conv snd_conv)+

lemma libzip_readsD:
  assumes "libzip_ok L V F R"
  shows "zl_name_locate L (Some a) n = Some i \<Longrightarrow> zl_fopen L (Some a) i = Some f \<Longrightarrow>
      map_of (V a) n = Some (R f)"
    and "zl_fread L f k = (Some c, f') \<Longrightarrow> R f = c @ R f'"
    and "zl_fread L f k = (Some c, f') \<Longrightarrow> length c \<le> k"
    and "zl_fread L f k = (Some c, f') \<Longrightarrow> 0 < k \<Longrightarrow> R f \<noteq> [] \<Longrightarrow> c \<noteq> []"
  using assms unfolding libzip_ok_def libzip_reads_def by blast+

section \<open>Names and sizes\<close>

lemma no_dotdot_iff: "no_dotdot p \<longleftrightarrow> ''..'' \<notin> set (split_on CHR ''/'' p)"
proof (induction p rule: no_dotdot.induct)
  case (1 p)
  let ?seg = "takeWhile (\<lambda>c. c \<noteq> CHR ''/'') p"
  let ?rest = "tl (dropWhile (\<lambda>c. c \<noteq> CHR ''/'') p)"
  show ?case
  proof (cases "CHR ''/'' \<in> set p")
    case False
    then have seg: "?seg = p" by (simp add: takeWhile_eq_all_conv) blast
    have "no_dotdot p = (p \<noteq> ''..'')"
    proof (cases "p = []")
      case True
      then show ?thesis by (simp add: no_dotdot.simps [of "[]"])
    next
      case ne: False
      show ?thesis using False ne by (subst no_dotdot.simps) (simp only: seg if_False if_True simp_thms split: if_split)
    qed
    then show ?thesis by (simp only: split_on_no_delim [OF False]) auto
  next
    case True
    then have ne: "dropWhile (\<lambda>c. c \<noteq> CHR ''/'') p \<noteq> []" by (auto simp: dropWhile_eq_Nil_conv)
    have "hd (dropWhile (\<lambda>c. c \<noteq> CHR ''/'') p) = CHR ''/''" using hd_dropWhile [OF ne] by simp
    then have "dropWhile (\<lambda>c. c \<noteq> CHR ''/'') p = CHR ''/'' # ?rest" using ne by (metis list.collapse)
    then have p: "p = ?seg @ CHR ''/'' # ?rest" by (metis takeWhile_dropWhile_id)
    have "CHR ''/'' \<notin> set ?seg" by (auto dest: set_takeWhileD)
    then have "split_on CHR ''/'' p = ?seg # split_on CHR ''/'' ?rest"
      by (subst p) (rule split_on_append)
    moreover have "no_dotdot p = (?seg \<noteq> ''..'' \<and> no_dotdot ?rest)"
      using True by (subst no_dotdot.simps) auto
    moreover have "p \<noteq> []" using True by auto
    ultimately show ?thesis using True "1.IH" by auto
  qed
qed

lemma sum_sizes_iff:
  assumes "acc \<le> cap" and "unat cap + 1 < 2 ^ 64"
  shows "sum_sizes cap ss acc \<longleftrightarrow>
    unat acc + (\<Sum>x \<leftarrow> ss. case x of None \<Rightarrow> 0 | Some s \<Rightarrow> unat s) \<le> unat cap"
  using assms
proof (induction cap ss acc rule: sum_sizes.induct)
  case (1 cap acc)
  then show ?case by (simp add: word_le_nat_alt)
next
  case (3 cap sz ss acc)
  have cap1: "cap + 1 > cap"
    using "3.prems"(2) unat_add_lem [of cap 1] by (simp add: word_less_nat_alt)
  show ?case
  proof (cases "sz > cap \<or> acc > cap - sz")
    case True
    then have "unat cap < unat acc + unat sz"
    proof
      assume "sz > cap"
      then show ?thesis by (simp add: word_less_nat_alt)
    next
      assume a: "acc > cap - sz"
      show ?thesis
      proof (cases "sz \<le> cap")
        case True
        with a have "unat cap - unat sz < unat acc"
          by (simp add: word_less_nat_alt unat_sub)
        then show ?thesis by simp
      qed (simp add: word_less_nat_alt not_le)
    qed
    with True cap1 show ?thesis by (auto simp: Let_def)
  next
    case False
    then have le: "sz \<le> cap" "acc \<le> cap - sz" by (auto simp: not_less)
    then have "unat acc \<le> unat cap - unat sz" by (simp add: word_le_nat_alt unat_sub)
    then have s: "unat acc + unat sz \<le> unat cap" using le(1) by (simp add: word_le_nat_alt)
    then have u: "unat (acc + sz) = unat acc + unat sz"
      using unat_add_lem [of acc sz] "3.prems"(2) by simp
    with s have le': "acc + sz \<le> cap" by (simp add: word_le_nat_alt)
    have n: "\<not> acc + sz > cap" using le' by simp
    have "sum_sizes cap (Some sz # ss) acc = sum_sizes cap ss (acc + sz)"
      using False n by (simp add: Let_def)
    with "3.IH" [OF refl] False le' "3.prems"(2) u n show ?thesis by (simp add: add.assoc)
  qed
qed simp

section \<open>The package as a map\<close>

text \<open>What a package holds: queued deletions hide, queued writes win, the archive is below.\<close>

definition zip_base :: "('za \<Rightarrow> entries) \<Rightarrow> 'za office_zip \<Rightarrow> string \<Rightarrow> string option" where
  "zip_base V z = (case z_za z of None \<Rightarrow> (\<lambda>n. None) | Some a \<Rightarrow> map_of (V a))"

definition zip_view :: "('za \<Rightarrow> entries) \<Rightarrow> 'za office_zip \<Rightarrow> string \<Rightarrow> string option" where
  "zip_view V z n =
     (if gh_contains (z_deleted z) n then None
      else case gh_lookup (z_pending z) n of Some d \<Rightarrow> Some d | None \<Rightarrow> zip_base V z n)"

definition zip_wf :: "('za \<Rightarrow> entries) \<Rightarrow> 'za office_zip \<Rightarrow> bool" where
  "zip_wf V z \<longleftrightarrow>
     gh_invar (z_pending z) \<and> gh_invar (z_deleted z) \<and> distinct (z_pending_order z) \<and>
     (\<forall>n. gh_contains (z_pending z) n \<longrightarrow> n \<in> set (z_pending_order z) \<and>
        \<not> gh_contains (z_deleted z) n \<and> zip_name_valid (Some n)) \<and>
     (\<forall>n \<in> set (z_pending_order z). gh_contains (z_pending z) n \<or> gh_contains (z_deleted z) n) \<and>
     \<not> gh_contains (z_deleted z) ODF_MIMETYPE \<and>
     (gh_contains (z_pending z) ODF_MIMETYPE \<longrightarrow> zip_base V z ODF_MIMETYPE = None) \<and>
     (\<exists>a. z_za z = Some a \<and> distinct (map fst (V a)))"

lemma zip_wfD:
  assumes "zip_wf V z"
  shows "gh_invar (z_pending z)" "gh_invar (z_deleted z)" "distinct (z_pending_order z)"
    "gh_contains (z_pending z) n \<Longrightarrow> n \<in> set (z_pending_order z)"
    "gh_contains (z_pending z) n \<Longrightarrow> \<not> gh_contains (z_deleted z) n"
    "n \<in> set (z_pending_order z) \<Longrightarrow> gh_contains (z_pending z) n \<or> gh_contains (z_deleted z) n"
    "\<not> gh_contains (z_deleted z) ODF_MIMETYPE"
    "gh_contains (z_pending z) ODF_MIMETYPE \<Longrightarrow> zip_base V z ODF_MIMETYPE = None"
    "\<exists>a. z_za z = Some a \<and> distinct (map fst (V a))"
  using assms unfolding zip_wf_def by blast+

lemma locate_iff_base:
  assumes "libzip_ok L V F R" and "z_za z = Some a"
  shows "zl_name_locate L (z_za z) n = None \<longleftrightarrow> zip_base V z n = None"
  using libzip_opensD(4) [OF assms(1)] assms(2) by (simp add: zip_base_def map_of_eq_None_iff)

lemma zip_base_cong: "z_za z' = z_za z \<Longrightarrow> zip_base V z' = zip_base V z"
  by (simp add: zip_base_def)

lemma zip_base_upd [simp]:
  "zip_base V (z\<lparr>z_pending := p\<rparr>) = zip_base V z" "zip_base V (z\<lparr>z_deleted := q\<rparr>) = zip_base V z"
  "zip_base V (z\<lparr>z_pending_order := r\<rparr>) = zip_base V z"
  by (simp_all add: zip_base_def)

lemma check_name_cases:
  "check_name name = (case name of None \<Rightarrow> Inl ERROR_BAD_NAME
     | Some n \<Rightarrow> if zip_name_valid (Some n) then Inr n else Inl ERROR_BAD_NAME)"
  by (simp add: check_name_def zip_name_valid_def split: option.splits)

lemma has_part_iff_view:
  assumes "libzip_ok L V F R" and "zip_wf V z" and "zip_name_valid (Some n)"
  shows "zip_has_part L z (Some n) \<longleftrightarrow> zip_view V z n \<noteq> None"
proof -
  obtain a where a: "z_za z = Some a" using zip_wfD(9) [OF assms(2)] by blast
  show ?thesis
    using assms(3) locate_iff_base [OF assms(1) a, of n]
    by (auto simp: zip_has_part_def zip_view_def gh_contains_def split: option.splits)
qed

subsection \<open>Edits\<close>

datatype edit = SetPart string string | DeletePart string | Revert

text \<open>An edit of the package, refused ones included; and what it means on the map.\<close>

fun zip_edit :: "('fs, 'za, 'zf) libzip \<Rightarrow> edit \<Rightarrow> 'za office_zip \<Rightarrow> 'za office_zip" where
  "zip_edit L (SetPart n d) z = (case zip_set_part L z (Some n) d of Inl e \<Rightarrow> z | Inr z' \<Rightarrow> z')"
| "zip_edit L (DeletePart n) z = (case zip_delete_part L z (Some n) of Inl e \<Rightarrow> z | Inr z' \<Rightarrow> z')"
| "zip_edit L Revert z = zip_revert z"

fun map_edit ::
  "(string \<Rightarrow> string option) \<Rightarrow> edit \<Rightarrow> (string \<Rightarrow> string option) \<Rightarrow> string \<Rightarrow> string option" where
  "map_edit base (SetPart n d) m =
     (if zip_name_valid (Some n) \<and> \<not> (n = ODF_MIMETYPE \<and> base n \<noteq> None) then m(n \<mapsto> d) else m)"
| "map_edit base (DeletePart n) m =
     (if zip_name_valid (Some n) \<and> n \<noteq> ODF_MIMETYPE then m(n := None) else m)"
| "map_edit base Revert m = base"

lemma set_part_Inr:
  "zip_set_part L z (Some n) d = Inr z' \<longleftrightarrow>
     zip_name_valid (Some n) \<and> \<not> (n = ODF_MIMETYPE \<and> zl_name_locate L (z_za z) n \<noteq> None) \<and>
     z' = z\<lparr>z_deleted := gh_remove n (z_deleted z), z_pending := gh_replace n d (z_pending z),
            z_pending_order := remember_order n (z_pending_order z)\<rparr>"
  by (auto simp: zip_set_part_def check_name_cases)

lemma delete_part_Inr:
  "zip_delete_part L z (Some n) = Inr z' \<longleftrightarrow>
     zip_name_valid (Some n) \<and> n \<noteq> ODF_MIMETYPE \<and> zip_has_part L z (Some n) \<and>
     z' = z\<lparr>z_pending := gh_remove n (z_pending z), z_deleted := gh_replace n () (z_deleted z)\<rparr>"
  by (auto simp: zip_delete_part_def check_name_cases)

lemma zip_edit_za [simp]: "z_za (zip_edit L e z) = z_za z" "z_path (zip_edit L e z) = z_path z"
  by (cases e; auto simp: set_part_Inr delete_part_Inr zip_revert_def split: sum.splits)+

lemma set_part_wf:
  assumes ok: "libzip_ok L V F R" and wf: "zip_wf V z" and r: "zip_set_part L z (Some n) d = Inr z'"
  shows "zip_wf V z'"
proof -
  obtain a where a: "z_za z = Some a" "distinct (map fst (V a))" using zip_wfD(9) [OF wf] by blast
  have b: "zip_base V z' = zip_base V z" using r by (intro zip_base_cong) (auto simp: set_part_Inr)
  show ?thesis
    using wf r a b locate_iff_base [OF ok a(1), of n] unfolding zip_wf_def
    by (auto simp: set_part_Inr remember_order_def)
qed

lemma delete_part_wf:
  assumes "zip_wf V z" and r: "zip_delete_part L z (Some n) = Inr z'"
  shows "zip_wf V z'"
proof -
  have b: "zip_base V z' = zip_base V z" using r by (intro zip_base_cong) (auto simp: delete_part_Inr)
  show ?thesis using assms b unfolding zip_wf_def by (auto simp: delete_part_Inr)
qed

lemma revert_wf: "zip_wf V z \<Longrightarrow> zip_wf V (zip_revert z)"
  by (auto simp: zip_wf_def zip_revert_def)

lemma zip_edit_wf [inv_intros]: "libzip_ok L V F R \<Longrightarrow> zip_wf V z \<Longrightarrow> zip_wf V (zip_edit L e z)"
  by (cases e) (auto split: sum.splits intro: set_part_wf delete_part_wf revert_wf)

lemma zip_edit_view:
  assumes ok: "libzip_ok L V F R" and wf: "zip_wf V z"
  shows "zip_view V (zip_edit L e z) = map_edit (zip_base V z) e (zip_view V z)"
proof -
  obtain a where a: "z_za z = Some a" using zip_wfD(9) [OF wf] by blast
  note base = zip_base_cong [OF zip_edit_za(1), of V L e z]
  note loc = locate_iff_base [OF ok a]
  show ?thesis
  proof (cases e)
    case (SetPart n d)
    show ?thesis
    proof (cases "zip_name_valid (Some n) \<and> \<not> (n = ODF_MIMETYPE \<and> zip_base V z n \<noteq> None)")
      case True
      then have "zip_set_part L z (Some n) d = Inr (zip_edit L e z)"
        using SetPart loc [of n] by (auto simp: set_part_Inr zip_set_part_def check_name_cases)
      then show ?thesis
        using True SetPart base zip_wfD(2) [OF wf]
        by (auto simp: set_part_Inr zip_view_def fun_eq_iff simp del: zip_edit.simps
            split: option.splits)
    next
      case False
      then have "zip_edit L e z = z"
        using SetPart loc [of n] by (auto simp: zip_set_part_def check_name_cases)
      with False SetPart show ?thesis by auto
    qed
  next
    case (DeletePart n)
    show ?thesis
    proof (cases "zip_name_valid (Some n) \<and> n \<noteq> ODF_MIMETYPE \<and> zip_view V z n \<noteq> None")
      case True
      then have "zip_delete_part L z (Some n) = Inr (zip_edit L e z)"
        using DeletePart has_part_iff_view [OF ok wf, of n]
        by (simp add: zip_delete_part_def check_name_cases)
      then show ?thesis
        using True DeletePart base zip_wfD(1) [OF wf]
        by (auto simp: delete_part_Inr zip_view_def fun_eq_iff simp del: zip_edit.simps
            split: option.splits)
    next
      case False
      then have "zip_edit L e z = z"
        using DeletePart has_part_iff_view [OF ok wf, of n]
        by (auto simp: zip_delete_part_def check_name_cases)
      with False DeletePart show ?thesis by (auto simp: fun_eq_iff)
    qed
  next
    case Revert
    then show ?thesis using base by (auto simp: zip_view_def zip_revert_def fun_eq_iff)
  qed
qed

text \<open>
  A store of parts whose edits are explained by their effect on a map over a fixed base: any
  sequence of edits is then explained by the same sequence on the map.
\<close>

locale part_store =
  fixes view :: "'s \<Rightarrow> 'k \<Rightarrow> 'v option" and base :: "'s \<Rightarrow> 'k \<Rightarrow> 'v option"
    and edit :: "'e \<Rightarrow> 's \<Rightarrow> 's"
    and spec :: "('k \<Rightarrow> 'v option) \<Rightarrow> 'e \<Rightarrow> ('k \<Rightarrow> 'v option) \<Rightarrow> 'k \<Rightarrow> 'v option"
    and inv :: "'s \<Rightarrow> bool"
  assumes edit_inv: "inv s \<Longrightarrow> inv (edit e s)"
    and edit_base: "inv s \<Longrightarrow> base (edit e s) = base s"
    and edit_view: "inv s \<Longrightarrow> view (edit e s) = spec (base s) e (view s)"
begin

lemma edits_inv: "inv s \<Longrightarrow> inv (fold edit es s) \<and> base (fold edit es s) = base s"
  by (induction es arbitrary: s) (simp_all add: edit_inv edit_base)

lemma edits_view: "inv s \<Longrightarrow> view (fold edit es s) = fold (spec (base s)) es (view s)"
  by (induction es arbitrary: s) (simp_all add: edit_inv edit_base edit_view)

end

interpretation office: part_store "zip_view V" "zip_base V" "zip_edit L" map_edit
  "\<lambda>z. libzip_ok L V F R \<and> zip_wf V z" for L V F R
proof unfold_locales
  fix s :: "'a office_zip" and e
  assume inv: "libzip_ok L V F R \<and> zip_wf V s"
  then show "libzip_ok L V F R \<and> zip_wf V (zip_edit L e s)" using zip_edit_wf by blast
  show "zip_base V (zip_edit L e s) = zip_base V s" by (rule zip_base_cong) simp
  show "zip_view V (zip_edit L e s) = map_edit (zip_base V s) e (zip_view V s)"
    using inv zip_edit_view by blast
qed

subsection \<open>Applying the queue\<close>

lemma apply_writes_view:
  assumes "libzip_ok L V F R" "apply_writes L a es = Inr b" "distinct (map fst es)"
    and "distinct (map fst (V a))"
  shows "map_of (V b) = map_of (V a) ++ map_of es \<and> distinct (map fst (V b))"
  using assms(2-)
proof (induction es arbitrary: a)
  case (Cons e es)
  obtain n d where e: "e = (n, d)" by (cases e)
  from Cons.prems(1) e obtain a' where
      a': "(case zl_name_locate L (Some a) n of Some idx \<Rightarrow> zl_replace L a idx d
            | None \<Rightarrow> zl_add L a n d) = Some a'" "apply_writes L a' es = Inr b"
    by (auto split: if_splits option.splits)
  have v: "map_of (V a') = (map_of (V a))(n \<mapsto> d) \<and> distinct (map fst (V a'))"
  proof (cases "zl_name_locate L (Some a) n")
    case None
    have V': "V a' = V a @ [(n, d)]"
      using a'(1) None by (intro libzip_editsD(2) [OF assms(1) None]) simp
    have n: "n \<notin> fst ` set (V a)" using None libzip_opensD(4) [OF assms(1)] by blast
    from n have "map_of (V a) n = None" by (simp add: map_of_eq_None_iff)
    then have "map_of (V a') = (map_of (V a))(n \<mapsto> d)"
      by (auto simp: V' fun_eq_iff map_add_def split: option.splits)
    moreover have "distinct (map fst (V a'))" using n Cons.prems(3) by (simp add: V')
    ultimately show ?thesis by blast
  next
    case (Some i)
    then show ?thesis
      using a'(1) libzip_editsD(1) [OF assms(1) Some, of d a'] Cons.prems(3)
      by (simp add: update_conv' distinct_update)
  qed
  have n: "map_of es n = None" using Cons.prems(2) e by (simp add: map_of_eq_None_iff)
  have "map_of (V b) = map_of (V a') ++ map_of es \<and> distinct (map fst (V b))"
    using Cons.IH [OF a'(2) _ conjunct2 [OF v]] Cons.prems(2) e by simp
  with v n e show ?case by (auto simp: fun_eq_iff map_add_def split: option.splits)
qed simp

lemma apply_deletes_view:
  assumes "libzip_ok L V F R" "apply_deletes L a ns = Inr b" "distinct (map fst (V a))"
  shows "map_of (V b) = (\<lambda>n. if n \<in> set ns then None else map_of (V a) n) \<and>
    distinct (map fst (V b))"
  using assms(2-)
proof (induction ns arbitrary: a)
  case (Cons n ns)
  show ?case
  proof (cases "zl_name_locate L (Some a) n")
    case None
    moreover from this have "map_of (V a) n = None"
      using libzip_opensD(4) [OF assms(1)] by (simp add: map_of_eq_None_iff)
    ultimately show ?thesis using Cons.IH [of a] Cons.prems by (auto simp: fun_eq_iff)
  next
    case (Some i)
    with Cons.prems(1) obtain a' where a': "zl_delete L a i = Some a'" "apply_deletes L a' ns = Inr b"
      by (auto split: option.splits)
    have "V a' = filter (\<lambda>e. fst e \<noteq> n) (V a)"
      using libzip_editsD(3) [OF assms(1) Cons.prems(2) Some a'(1)] .
    moreover have "map_of (filter (\<lambda>e. fst e \<noteq> n) xs) = (map_of xs)(n := None)" for xs :: entries
      by (induction xs) (auto simp: fun_eq_iff)
    moreover have "distinct (map fst (filter (\<lambda>e. fst e \<noteq> n) (V a)))"
      using Cons.prems(2) by (rule distinct_map_filter)
    ultimately show ?thesis using Cons.IH [OF a'(2)] by (auto simp: fun_eq_iff)
  qed
qed simp

lemma apply_pending_view:
  assumes ok: "libzip_ok L V F R" and wf: "zip_wf V z"
    and r: "apply_pending L fs z target = (res, fs')"
    and t: "F fs target = Some es" and es: "map_of es = zip_base V z" "distinct (map fst es)"
  shows "case res of Inl e \<Rightarrow> F fs' = F fs
    | Inr _ \<Rightarrow> (\<forall>q. q \<noteq> target \<longrightarrow> F fs' q = F fs q) \<and>
        (\<exists>es'. F fs' target = (if es' = [] \<and> es \<noteq> [] then None else Some es') \<and>
           map_of es' = zip_view V z \<and> distinct (map fst es'))"
proof -
  consider (early) "\<exists>e. res = Inl e" "fs' = fs"
    | (late) a a1 a2 c where "zl_open_rw L fs target = Some a"
        "apply_writes L a (gh_entries (z_pending z)) = Inr a1"
        "apply_deletes L a1 (map fst (gh_entries (z_deleted z))) = Inr a2"
        "zl_close L fs a2 target = (c, fs')" "res = (if c then Inr () else Inl ERROR_WRITE)"
    using r by (auto simp: apply_pending_def split: option.splits sum.splits bool.splits prod.splits)
  then show ?thesis
  proof cases
    case late
    have Va: "V a = es" using libzip_opensD(3) [OF ok late(1)] t by simp
    have d: "distinct (map fst (gh_entries (z_pending z)))"
      using zip_wfD(1) [OF wf] by (rule gh.entries_distinct)
    have w: "map_of (V a1) = map_of es ++ map_of (gh_entries (z_pending z))" "distinct (map fst (V a1))"
      using apply_writes_view [OF ok late(2) d] es Va by simp_all
    have v: "map_of (V a2) = (\<lambda>n. if n \<in> set (map fst (gh_entries (z_deleted z))) then None
        else map_of (V a1) n)" "distinct (map fst (V a2))"
      using apply_deletes_view [OF ok late(3) w(2)] by simp_all
    have "map_of (V a2) n = zip_view V z n" for n
      using v(1) w(1) es(1)
      by (auto simp: zip_view_def map_add_def gh_lookup_def gh_entries_def gh_contains_def
          map_of_eq_None_iff split: option.splits)
    then have "map_of (V a2) = zip_view V z" by (simp add: fun_eq_iff)
    with late(5) v(2) libzip_filesD(1) [OF ok late(4)] t show ?thesis
      by (cases c) (auto simp: fun_eq_iff)
  qed auto
qed

subsection \<open>Reading\<close>

lemma read_loop_stream:
  assumes "libzip_ok L V F R" "read_loop L f want buf = Inr (d, f')" "length buf \<le> want"
  shows "buf @ R f = d @ R f' \<and> length d \<le> want"
  using assms
proof (induction L f want buf rule: read_loop.induct)
  case (1 L f want buf)
  show ?case
  proof (cases "length buf < want")
    case True
    obtain r g where r: "zl_fread L f (want - length buf) = (r, g)" by fastforce
    with True "1.prems"(2) obtain c where c: "r = Some c"
      by (subst (asm) read_loop.simps) (cases r; auto)
    have s: "R f = c @ R g" "length c \<le> want - length buf"
      using libzip_readsD(2,3) [OF "1.prems"(1)] r c by blast+
    show ?thesis
    proof (cases "c = []")
      case True
      with \<open>length buf < want\<close> r c s "1.prems"(2,3) show ?thesis
        by (subst (asm) read_loop.simps) simp
    next
      case False
      have "read_loop L g want (buf @ c) = Inr (d, f')"
        using True False r c "1.prems"(2) by (subst (asm) read_loop.simps) simp
      moreover have "length (buf @ c) \<le> want" using s(2) True by simp
      ultimately show ?thesis
        using "1.IH" [OF True r [symmetric] c False "1.prems"(1)] s(1) by simp
    qed
  next
    case False
    with "1.prems"(2,3) show ?thesis by (subst (asm) read_loop.simps) simp
  qed
qed

lemma read_member_stream:
  assumes "libzip_ok L V F R" "read_member L f want = Inr d"
  shows "length d = want \<and> prefix d (R f) \<and>
    ((\<forall>g. fst (zl_fread L g 1) \<noteq> None) \<longrightarrow> d = R f)"
proof -
  from assms(2) obtain g where g: "read_loop L f want [] = Inr (d, g)" "length d = want"
      "\<not> (case fst (zl_fread L g 1) of None \<Rightarrow> False | Some c \<Rightarrow> c \<noteq> [])"
    by (auto simp: read_member_def split: sum.splits if_splits)
  have r: "R f = d @ R g" using read_loop_stream [OF assms(1) g(1)] by simp
  have "R g = []" if nf: "fst (zl_fread L g 1) \<noteq> None"
  proof -
    obtain c where f: "fst (zl_fread L g 1) = Some c" using nf by blast
    then have c: "zl_fread L g 1 = (Some c, snd (zl_fread L g 1))" by (metis prod.collapse)
    have "c = []" using g(3) unfolding f by simp
    then show ?thesis using libzip_readsD(4) [OF assms(1) c] by auto
  qed
  with r g(2) show ?thesis by auto
qed

subsection \<open>A library that fits\<close>

text \<open>Files are lists of entries, a handle is its entries, an open member its remaining bytes.\<close>

type_synonym ref_fs = "string \<Rightarrow> entries option"

definition entry_index :: "entries option \<Rightarrow> string \<Rightarrow> nat option" where
  "entry_index a n = (case a of None \<Rightarrow> None
     | Some es \<Rightarrow> find (\<lambda>i. fst (es ! i) = n) [0..<length es])"

definition ref_libzip :: "(ref_fs, entries, string) libzip" where
  "ref_libzip =
     \<lparr>zl_open_ro = (\<lambda>fs p. fs p), zl_open_rw = (\<lambda>fs p. fs p),
      zl_num_entries = (\<lambda>a. case a of None \<Rightarrow> 0 | Some es \<Rightarrow> length es),
      zl_get_name = (\<lambda>a i. case a of None \<Rightarrow> None | Some es \<Rightarrow> Some (fst (es ! i))),
      zl_stat_size = (\<lambda>a i. case a of None \<Rightarrow> None | Some es \<Rightarrow> Some (of_nat (length (snd (es ! i))))),
      zl_name_locate = entry_index,
      zl_fopen = (\<lambda>a i. case a of None \<Rightarrow> None | Some es \<Rightarrow> Some (snd (es ! i))),
      zl_fread = (\<lambda>f k. (Some (take k f), drop k f)),
      zl_source_buffer = (\<lambda>a d. True),
      zl_replace = (\<lambda>a i d. Some (a[i := (fst (a ! i), d)])),
      zl_add = (\<lambda>a n d. Some (a @ [(n, d)])),
      zl_delete = (\<lambda>a i. Some (take i a @ drop (Suc i) a)),
      zl_close = (\<lambda>fs a p. (True, fs(p := (if a = [] \<and> fs p \<noteq> Some [] then None else Some a)))),
      zl_file_copy = (\<lambda>fs s d. (fs s \<noteq> None, if fs s \<noteq> None then fs(d := fs s) else fs))\<rparr>"

lemma entry_index_None: "entry_index (Some es) n = None \<longleftrightarrow> n \<notin> fst ` set es"
  by (auto simp: entry_index_def find_None_iff in_set_conv_nth image_iff) force+

lemma entry_index_Some:
  "entry_index (Some es) n = Some i \<Longrightarrow> i < length es \<and> fst (es ! i) = n \<and> (\<forall>j < i. fst (es ! j) \<noteq> n)"
  by (auto simp: entry_index_def find_Some_iff)

lemma map_of_first: "i < length es \<Longrightarrow> fst (es ! i) = n \<Longrightarrow> (\<forall>j < i. fst (es ! j) \<noteq> n) \<Longrightarrow>
    map_of es n = Some (snd (es ! i)) \<and> es[i := (n, d)] = AList.update n d es"
proof (induction es arbitrary: i)
  case (Cons e es)
  show ?case
  proof (cases i)
    case 0
    with Cons.prems show ?thesis by (cases e) auto
  next
    case (Suc j)
    with Cons.prems have "fst e \<noteq> n" "\<forall>k < j. fst (es ! k) \<noteq> n" by auto
    with Suc Cons.IH [of j] Cons.prems show ?thesis by (cases e) auto
  qed
qed simp

lemma remove_index: "i < length es \<Longrightarrow> fst (es ! i) = n \<Longrightarrow> distinct (map fst es) \<Longrightarrow>
    take i es @ drop (Suc i) es = filter (\<lambda>e. fst e \<noteq> n) es"
proof (induction es arbitrary: i)
  case (Cons e es)
  show ?case
  proof (cases i)
    case 0
    with Cons.prems have "fst e = n" "fst e \<notin> fst ` set es" by auto
    then have "\<forall>x \<in> set es. fst x \<noteq> n" using imageI [of _ "set es" fst] by metis
    with 0 Cons.prems show ?thesis by simp
  next
    case (Suc j)
    with Cons.prems have "n \<in> fst ` set es" by auto
    with Cons.prems(3) have "fst e \<noteq> n" by auto
    with Suc Cons.IH [of j] Cons.prems show ?thesis by simp
  qed
qed simp

lemma ref_libzip_ok: "libzip_ok ref_libzip (\<lambda>a. a) (\<lambda>fs. fs) (\<lambda>f. f)"
  unfolding libzip_ok_def
proof (intro conjI)
  have names: "List.map_filter (\<lambda>i. Some (fst (es ! i))) [0..<length es] = map fst es" for es :: entries
    by (auto simp: map_filter_def intro!: nth_equalityI)
  show "libzip_opens ref_libzip (\<lambda>a. a) (\<lambda>fs. fs)"
    by (simp add: libzip_opens_def ref_libzip_def entry_index_None names)
  show "libzip_edits ref_libzip (\<lambda>a. a)"
    by (auto simp: libzip_edits_def ref_libzip_def map_of_first remove_index dest!: entry_index_Some)
  show "libzip_files ref_libzip (\<lambda>a. a) (\<lambda>fs. fs)"
    by (simp add: libzip_files_def ref_libzip_def)
  show "libzip_reads ref_libzip (\<lambda>a. a) (\<lambda>f. f)"
    by (auto simp: libzip_reads_def ref_libzip_def map_of_first dest!: entry_index_Some)
qed

section \<open>Properties\<close>

lemma gh_contains_empty_size: "gh_size t = 0 \<Longrightarrow> \<not> gh_contains t k \<and> gh_lookup t k = None"
  by (simp add: gh_size_0_iff)

lemma clean_view: "\<not> zip_dirty z \<Longrightarrow> zip_view V z = zip_base V z"
  by (auto simp: zip_dirty_def zip_view_def fun_eq_iff gh_contains_empty_size)

lemma revert_clean [simp]: "\<not> zip_dirty (zip_revert z)" "z_za (zip_revert z) = z_za z"
  by (simp_all add: zip_dirty_def zip_revert_def gh_size_def gh_empty_def)

lemma zip_open_wf:
  assumes "libzip_ok L V F R" "zip_open L fs path = Inr z" "F fs path = Some es" "distinct (map fst es)"
  shows "zip_wf V z \<and> zip_base V z = map_of es \<and> zip_view V z = map_of es \<and>
    (\<exists>a. z_za z = Some a \<and> V a = es \<and>
      List.map_filter (zl_get_name L (Some a)) [0..<zl_num_entries L (Some a)] = map fst es)"
proof -
  from assms(2) obtain a where a: "zl_open_ro L fs path = Some a" "z_za z = Some a"
      "z_pending z = gh_empty" "z_deleted z = gh_empty" "z_pending_order z = []"
    by (auto simp: zip_open_def split: option.splits sum.splits)
  have es: "V a = es" using libzip_opensD(1) [OF assms(1) a(1)] assms(3) by simp
  have b: "zip_base V z = map_of es" by (simp add: zip_base_def a es)
  have c: "\<not> zip_dirty z" by (simp add: zip_dirty_def a gh_size_def gh_empty_def)
  show ?thesis
    using a es b clean_view [OF c, of V] assms(4) libzip_opensD(2) [OF assms(1) a(1)]
    by (auto simp: zip_wf_def)
qed

text \<open>
  Property (C24). Saving commits exactly the edits, for a package whose archive is open and has no
  two entries of one name, and whose file still holds what it held when it was opened. If
  \<^verbatim>\<open>cmacs_office_zip_save\<close> succeeds, the file at the package's path holds for every part name what
  the package showed before the save, no other file changed, nothing is pending and the package
  shows the same parts as before. If it fails, the queued edits are all kept, and unless the
  failure is the final reopening no file changed. When the edits delete every part of an archive
  that had any, the save never succeeds: libzip removes the file of an empty archive, so the
  reopening fails. With nothing queued the file system is not touched at all.
\<close>

theorem zip_save_commits:
  assumes "libzip_ok L V F R" and "zip_wf V z" and "z_za z = Some a"
    and "F fs (z_path z) = Some (V a)" and "zip_save L fs z = (res, fs', z')"
  shows "(case res of
      Inr _ \<Rightarrow> (\<exists>es. F fs' (z_path z) = Some es \<and> map_of es = zip_view V z) \<and>
        (\<forall>q. q \<noteq> z_path z \<longrightarrow> F fs' q = F fs q) \<and> \<not> zip_dirty z' \<and> zip_view V z' = zip_view V z
    | Inl e \<Rightarrow> z_pending z' = z_pending z \<and> z_deleted z' = z_deleted z \<and>
        z_pending_order z' = z_pending_order z \<and> (e \<noteq> ERROR_OPEN \<longrightarrow> F fs' = F fs)) \<and>
    (zip_dirty z \<and> V a \<noteq> [] \<and> (\<forall>n. zip_view V z n = None) \<longrightarrow> isl res) \<and>
    (\<not> zip_dirty z \<longrightarrow> res = Inr () \<and> fs' = fs \<and> z' = z)"
proof (cases "zip_dirty z")
  case False
  then show ?thesis
    using assms clean_view [OF False, of V] by (auto simp: zip_save_def zip_base_def)
next
  case True
  obtain ok fs1 where ap: "apply_pending L fs z (z_path z) = (ok, fs1)" by fastforce
  have d: "distinct (map fst (V a))" using zip_wfD(9) [OF assms(2)] assms(3) by auto
  have base: "map_of (V a) = zip_base V z" by (simp add: zip_base_def assms(3))
  note apv = apply_pending_view [OF assms(1,2) ap assms(4) base d]
  have fs': "fs' = fs1"
    using assms(5) True ap by (auto simp: zip_save_def zip_reopen_def Let_def split: sum.splits bool.splits)
  show ?thesis
  proof (cases "\<exists>b. zl_open_ro L fs1 (z_path z) = Some b \<and> ok = Inr ()")
    case True
    then obtain b where b: "zl_open_ro L fs1 (z_path z) = Some b" "ok = Inr ()" by blast
    then have res: "res = Inr ()" "z' = zip_revert (z\<lparr>z_za := Some b\<rparr>)"
      using assms(5) \<open>zip_dirty z\<close> ap by (auto simp: zip_save_def zip_reopen_def)
    from apv b obtain es where es0: "F fs1 (z_path z) = (if es = [] \<and> V a \<noteq> [] then None else Some es)"
        "map_of es = zip_view V z" "\<forall>q. q \<noteq> z_path z \<longrightarrow> F fs1 q = F fs q" by auto
    have es: "F fs1 (z_path z) = Some es" "map_of es = zip_view V z" "\<forall>q. q \<noteq> z_path z \<longrightarrow> F fs1 q = F fs q"
      using es0 libzip_opensD(1) [OF assms(1) b(1)] by (auto split: if_split_asm)
    have "V b = es" using libzip_opensD(1) [OF assms(1) b(1)] es(1) by simp
    moreover have "zip_view V z' = map_of (V b)"
      using clean_view [of z' V] res by (simp add: zip_base_def)
    moreover have "\<not> zip_dirty z'" using res by simp
    moreover have N: "zip_dirty z \<and> V a \<noteq> [] \<and> (\<forall>n. zip_view V z n = None) \<longrightarrow> isl res"
    proof
      assume that: "zip_dirty z \<and> V a \<noteq> [] \<and> (\<forall>n. zip_view V z n = None)"
      have "map_of es = Map.empty" using that unfolding es(2) fun_eq_iff by blast
      then have "es = []" by (rule map_of_eq_empty_iff [THEN iffD1])
      then show "isl res" using es0(1) that unfolding es(1) by simp
    qed
    ultimately show ?thesis using es fs' \<open>zip_dirty z\<close> by (intro conjI N) (simp_all add: res(1))
  next
    case False
    then have "\<exists>e. res = Inl e \<and> (ok = Inl e \<or> e = ERROR_OPEN)" "z_pending z' = z_pending z"
        "z_deleted z' = z_deleted z" "z_pending_order z' = z_pending_order z"
      using assms(5) \<open>zip_dirty z\<close> ap
      by (auto simp: zip_save_def zip_reopen_def Let_def split: sum.splits bool.splits option.splits)
    with apv fs' \<open>zip_dirty z\<close> show ?thesis by auto
  qed
qed

definition demo_zip_fs :: ref_fs where
  "demo_zip_fs = (\<lambda>p. if p = ''a.odt'' then Some [(''mimetype'', ''odt''), (''content.xml'', ''<x/>'')]
     else None)"

definition demo_zip :: "entries office_zip" where
  "demo_zip = \<lparr>z_path = ''a.odt'', z_za = Some [(''mimetype'', ''odt''), (''content.xml'', ''<x/>'')],
     z_pending = [(''content.xml'', ''<y/>'')], z_pending_order = [''content.xml''], z_deleted = [],
     z_max_part = DEFAULT_MAX_PART, z_max_total = DEFAULT_MAX_TOTAL\<rparr>"

lemma zip_name_valid_demo: "zip_name_valid (Some ''content.xml'')"
  by (simp add: zip_name_valid_def no_dotdot_iff utf8_validate_ascii)

lemma demo_zip_wf: "zip_wf (\<lambda>a. a) demo_zip"
  by (auto simp: zip_wf_def demo_zip_def gh_invar_def gh_contains_def gh_lookup_def zip_name_valid_demo
      split: if_splits)

theorem zip_save_commits_witness:
  "\<exists>fs' z'. zip_save ref_libzip demo_zip_fs demo_zip = (Inr (), fs', z') \<and>
     (\<exists>es. fs' ''a.odt'' = Some es \<and> map_of es ''content.xml'' = Some ''<y/>'') \<and> \<not> zip_dirty z'"
proof -
  obtain res fs' z' where r: "zip_save ref_libzip demo_zip_fs demo_zip = (res, fs', z')"
    using prod_cases3 by blast
  have "fst (zip_save ref_libzip demo_zip_fs demo_zip) = Inr ()" by code_simp
  with r have res: "res = Inr ()" by simp
  have a: "z_za demo_zip = Some [(''mimetype'', ''odt''), (''content.xml'', ''<x/>'')]"
      "demo_zip_fs (z_path demo_zip) = Some [(''mimetype'', ''odt''), (''content.xml'', ''<x/>'')]"
      "z_path demo_zip = ''a.odt''"
    by (simp_all add: demo_zip_def demo_zip_fs_def)
  have v: "zip_view (\<lambda>a. a) demo_zip ''content.xml'' = Some ''<y/>''"
    by (simp add: zip_view_def demo_zip_def gh_contains_def gh_lookup_def)
  show ?thesis
    using zip_save_commits [OF ref_libzip_ok demo_zip_wf a(1,2) r] r res a(3) v by auto
qed

text \<open>
  What happens when the archive does have two entries of one name: deleting the part and saving
  reports success and takes out the first of them only, so the part is still there, now with the
  other content.
\<close>

definition twice_zip_fs :: ref_fs where
  "twice_zip_fs = [''a.odt'' \<mapsto> [(''content.xml'', ''<x/>''), (''content.xml'', ''<old/>'')]]"

theorem duplicate_survives_delete:
  "(case zip_open ref_libzip twice_zip_fs ''a.odt'' of Inl _ \<Rightarrow> False
    | Inr z \<Rightarrow>
        (case zip_delete_part ref_libzip z (Some ''content.xml'') of Inl _ \<Rightarrow> False
         | Inr z1 \<Rightarrow> \<not> zip_has_part ref_libzip z1 (Some ''content.xml'') \<and>
             (case zip_save ref_libzip twice_zip_fs z1 of (res, fs', z') \<Rightarrow>
                res = Inr () \<and> fs' ''a.odt'' = Some [(''content.xml'', ''<old/>'')] \<and>
                zip_has_part ref_libzip z' (Some ''content.xml''))))"
  by code_simp

text \<open>
  Property (C25). The queue implements a map. Open a package whose archive has no duplicate
  names and make any sequence of edits: the package then shows the archive's map with the same
  edits made to it, where an edit with an unsafe name and one of an existing \<^verbatim>\<open>mimetype\<close> are
  refused, and a revert goes back to the archive. \<^verbatim>\<open>mimetype\<close> keeps the archive's content
  throughout, and \<^verbatim>\<open>has_part\<close> tells exactly which safe names are present.
\<close>

theorem zip_edits_refine_map:
  assumes "libzip_ok L V F R" and "zip_open L fs path = Inr z0"
    and "F fs path = Some es0" and "distinct (map fst es0)"
    and "z = fold (zip_edit L) es z0"
  shows "zip_view V z = fold (map_edit (map_of es0)) es (map_of es0) \<and>
    (map_of es0 ODF_MIMETYPE \<noteq> None \<longrightarrow> zip_view V z ODF_MIMETYPE = map_of es0 ODF_MIMETYPE) \<and>
    (\<forall>n. zip_name_valid (Some n) \<longrightarrow> zip_has_part L z (Some n) = (zip_view V z n \<noteq> None))"
proof -
  note o = zip_open_wf [OF assms(1-4)]
  have inv0: "libzip_ok L V F R \<and> zip_wf V z0" using o assms(1) by blast
  have inv: "zip_wf V z" and base: "zip_base V z = map_of es0"
    using office.edits_inv [OF inv0, of es] o assms(5) by auto
  have "zip_view V z = fold (map_edit (map_of es0)) es (map_of es0)"
    using office.edits_view [OF inv0, of es] o assms(5) by auto
  moreover have "zip_view V z ODF_MIMETYPE = map_of es0 ODF_MIMETYPE" if "map_of es0 ODF_MIMETYPE \<noteq> None"
    using zip_wfD(7,8) [OF inv] that base
    by (auto simp: zip_view_def gh_contains_def split: option.splits)
  ultimately show ?thesis using has_part_iff_view [OF assms(1) inv] by blast
qed

theorem zip_edits_refine_map_witness:
  "\<exists>z0. zip_open ref_libzip demo_zip_fs ''a.odt'' = Inr z0 \<and>
     zip_view (\<lambda>a. a) (fold (zip_edit ref_libzip) [SetPart ''mimetype'' ''evil'', DeletePart ''content.xml''] z0)
       = fold (map_edit (map_of [(''mimetype'', ''odt''), (''content.xml'', ''<x/>'')]))
           [SetPart ''mimetype'' ''evil'', DeletePart ''content.xml'']
           (map_of [(''mimetype'', ''odt''), (''content.xml'', ''<x/>'')]) \<and>
     zip_view (\<lambda>a. a) (fold (zip_edit ref_libzip) [SetPart ''mimetype'' ''evil'', DeletePart ''content.xml''] z0)
       ''mimetype'' = Some ''odt''"
proof -
  let ?es = "[(''mimetype'', ''odt''), (''content.xml'', ''<x/>'')]"
  have "(case zip_open ref_libzip demo_zip_fs ''a.odt'' of Inl e \<Rightarrow> False | Inr z \<Rightarrow> True)" by code_simp
  then obtain z0 where z0: "zip_open ref_libzip demo_zip_fs ''a.odt'' = Inr z0" by (auto split: sum.splits)
  have fs: "demo_zip_fs ''a.odt'' = Some ?es" by (simp add: demo_zip_fs_def)
  have d: "distinct (map fst ?es)" by simp
  let ?ed = "[SetPart ''mimetype'' ''evil'', DeletePart ''content.xml'']"
  have m: "map_of ?es ''mimetype'' = Some ''odt''" by simp
  define z where "z = fold (zip_edit ref_libzip) ?ed z0"
  note r = zip_edits_refine_map [OF ref_libzip_ok z0 fs d z_def]
  have n: "map_of ?es ''mimetype'' \<noteq> None" unfolding m by (rule option.distinct(2))
  have "zip_view (\<lambda>a. a) z ''mimetype'' = Some ''odt''"
    using mp [OF conjunct1 [OF conjunct2 [OF r]] n] m by (rule trans)
  with z0 conjunct1 [OF r] show ?thesis unfolding z_def by blast
qed

text \<open>
  What is read is what is there, and no more. A part that
  \<^verbatim>\<open>cmacs_office_zip_read_part\<close> returns has a safe name; an edit accepted before is read back as
  it was set; and a member of the archive is returned only with exactly the size its directory
  entry declares, which is within the part cap, as a prefix of what the member really delivers.
  When no read fails, what is returned is the part the package shows, whole, so a member that
  goes on past its declared size is never passed off as complete.
\<close>

theorem zip_read_part_sound:
  assumes "libzip_ok L V F R" and "zip_wf V z"
  shows "(zip_read_part L z (Some n) = Inr d \<longrightarrow> zip_name_valid (Some n) \<and>
      (gh_lookup (z_pending z) n = None \<longrightarrow> length d \<le> unat (z_max_part z) \<and>
         (\<exists>c. zip_view V z n = Some c \<and> prefix d c)) \<and>
      ((\<forall>g. fst (zl_fread L g 1) \<noteq> None) \<longrightarrow> zip_view V z n = Some d)) \<and>
    (zip_set_part L z (Some n) d = Inr z' \<longrightarrow> zip_read_part L z' (Some n) = Inr d)"
proof (intro conjI impI)
  assume r: "zip_read_part L z (Some n) = Inr d"
  obtain a where a: "z_za z = Some a" using zip_wfD(9) [OF assms(2)] by blast
  from r have v: "zip_name_valid (Some n)" and nd: "\<not> gh_contains (z_deleted z) n"
    by (auto simp: zip_read_part_def check_name_cases split: if_splits)
  show "zip_name_valid (Some n)" using v .
  have archive: "length d \<le> unat (z_max_part z) \<and> (\<exists>c. zip_view V z n = Some c \<and> prefix d c \<and>
      ((\<forall>g. fst (zl_fread L g 1) \<noteq> None) \<longrightarrow> d = c))"
    if p: "gh_lookup (z_pending z) n = None"
  proof -
    from r v nd p obtain i sz f where i: "zl_name_locate L (Some a) n = Some i" "sz \<le> z_max_part z"
        "zl_fopen L (Some a) i = Some f" "read_member L f (unat sz) = Inr d"
      by (auto simp: zip_read_part_def check_name_cases a not_less split: option.splits if_splits)
    have "zip_view V z n = Some (R f)"
      using libzip_readsD(1) [OF assms(1) i(1,3)] p nd by (simp add: zip_view_def zip_base_def a)
    with read_member_stream [OF assms(1) i(4)] i(2) show ?thesis by (auto simp: word_le_nat_alt)
  qed
  show "length d \<le> unat (z_max_part z)" if "gh_lookup (z_pending z) n = None"
    using archive that by blast
  show "\<exists>c. zip_view V z n = Some c \<and> prefix d c" if "gh_lookup (z_pending z) n = None"
    using archive that by blast
  show "zip_view V z n = Some d" if nf: "\<forall>g. fst (zl_fread L g 1) \<noteq> None"
  proof (cases "gh_lookup (z_pending z) n")
    case None
    with archive nf show ?thesis by blast
  next
    case (Some q)
    with r v nd show ?thesis by (simp add: zip_read_part_def check_name_cases zip_view_def)
  qed
next
  assume "zip_set_part L z (Some n) d = Inr z'"
  then show "zip_read_part L z' (Some n) = Inr d"
    using zip_wfD(2) [OF assms(2)] by (auto simp: set_part_Inr zip_read_part_def check_name_cases)
qed

theorem zip_read_part_sound_witness:
  "zip_read_part ref_libzip demo_zip (Some ''content.xml'') = Inr ''<y/>'' \<and>
   zip_view (\<lambda>a. a) demo_zip ''content.xml'' = Some ''<y/>''"
proof -
  have r: "zip_read_part ref_libzip demo_zip (Some ''content.xml'') = Inr ''<y/>''" by code_simp
  have "\<forall>g. fst (zl_fread ref_libzip g 1) \<noteq> None" by (simp add: ref_libzip_def)
  then show ?thesis
    using zip_read_part_sound [OF ref_libzip_ok demo_zip_wf, of "''content.xml''" "''<y/>''"] r by blast
qed

text \<open>
  The listing is exact. After any sequence of edits of an opened package,
  \<^verbatim>\<open>cmacs_office_zip_part_names\<close> lists every part the package shows once and nothing else, the
  archive's own parts first and in the archive's order; so a package whose archive starts with
  \<^verbatim>\<open>mimetype\<close> still lists it first.
\<close>

theorem zip_listing_exact:
  assumes "libzip_ok L V F R" and "zip_open L fs path = Inr z0"
    and "F fs path = Some es0" and "distinct (map fst es0)"
    and "z = fold (zip_edit L) es z0"
  shows "set (zip_part_names L z) = {n. zip_view V z n \<noteq> None} \<and> distinct (zip_part_names L z) \<and>
    (\<exists>new. zip_part_names L z = filter (\<lambda>n. zip_view V z n \<noteq> None) (map fst es0) @ new) \<and>
    (es0 \<noteq> [] \<and> fst (hd es0) = ODF_MIMETYPE \<longrightarrow>
       zip_part_names L z \<noteq> [] \<and> hd (zip_part_names L z) = ODF_MIMETYPE)"
proof -
  note o = zip_open_wf [OF assms(1-4)]
  have inv0: "libzip_ok L V F R \<and> zip_wf V z0" using o assms(1) by blast
  have wf: "zip_wf V z" and base: "zip_base V z = map_of es0"
    using office.edits_inv [OF inv0, of es] o assms(5) by auto
  have "z_za (fold (zip_edit L) es y) = z_za y" for y
    by (induction es arbitrary: y) simp_all
  then obtain a where a: "z_za z = Some a" "V a = es0"
      "List.map_filter (zl_get_name L (Some a)) [0..<zl_num_entries L (Some a)] = map fst es0"
    using o assms(5) by auto
  have loc: "zl_name_locate L (z_za z) n = None \<longleftrightarrow> n \<notin> fst ` set es0" for n
    using locate_iff_base [OF assms(1) a(1), of n] base by (simp add: map_of_eq_None_iff)
  let ?old = "filter (\<lambda>n. \<not> gh_contains (z_deleted z) n) (map fst es0)"
  let ?new = "filter (\<lambda>n. \<not> gh_contains (z_deleted z) n \<and> n \<notin> fst ` set es0) (z_pending_order z)"
  have names: "zip_part_names L z = ?old @ ?new"
    by (simp add: zip_part_names_def a(1,3) loc [unfolded a(1)])
  have mo: "n \<in> fst ` set es0 \<longleftrightarrow> map_of es0 n \<noteq> None" for n by (simp add: map_of_eq_None_iff)
  have view: "zip_view V z n \<noteq> None \<longleftrightarrow> \<not> gh_contains (z_deleted z) n \<and>
      (gh_contains (z_pending z) n \<or> n \<in> fst ` set es0)" for n
    unfolding mo by (auto simp: zip_view_def base gh_contains_def split: option.splits)
  have old: "?old = filter (\<lambda>n. zip_view V z n \<noteq> None) (map fst es0)"
    by (intro filter_cong refl) (unfold view, auto)
  have "set (zip_part_names L z) = {n. zip_view V z n \<noteq> None}"
    using zip_wfD(4,6) [OF wf] unfolding names view by auto
  moreover have "distinct (zip_part_names L z)"
    using assms(4) zip_wfD(3) [OF wf] unfolding names by (auto simp: distinct_map_filter)
  moreover have "zip_part_names L z \<noteq> [] \<and> hd (zip_part_names L z) = ODF_MIMETYPE"
    if "es0 \<noteq> []" "fst (hd es0) = ODF_MIMETYPE"
    using that zip_wfD(7) [OF wf] unfolding names by (cases es0) auto
  ultimately show ?thesis using names old by auto
qed

theorem zip_listing_exact_witness:
  "\<exists>z0. zip_open ref_libzip demo_zip_fs ''a.odt'' = Inr z0 \<and>
     hd (zip_part_names ref_libzip (fold (zip_edit ref_libzip) [SetPart ''Pictures/1.png'' ''x''] z0)) = ''mimetype''"
proof -
  let ?es = "[(''mimetype'', ''odt''), (''content.xml'', ''<x/>'')]"
  have "(case zip_open ref_libzip demo_zip_fs ''a.odt'' of Inl e \<Rightarrow> False | Inr z \<Rightarrow> True)" by code_simp
  then obtain z0 where z0: "zip_open ref_libzip demo_zip_fs ''a.odt'' = Inr z0" by (auto split: sum.splits)
  have fs: "demo_zip_fs ''a.odt'' = Some ?es" by (simp add: demo_zip_fs_def)
  have d: "distinct (map fst ?es)" by simp
  define z where "z = fold (zip_edit ref_libzip) [SetPart ''Pictures/1.png'' ''x''] z0"
  from zip_listing_exact [OF ref_libzip_ok z0 fs d z_def] z0 show ?thesis unfolding z_def by simp
qed

text \<open>
  Part names cannot leave the package. A name is accepted exactly when it is a
  non-empty valid UTF-8 string of at most 4096 bytes that does not start with a slash, has no
  backslash and no colon, and none of its slash-separated segments is two dots.
\<close>

theorem zip_name_valid_iff:
  "zip_name_valid (Some s) \<longleftrightarrow>
     s \<noteq> [] \<and> length s \<le> 4096 \<and> g_utf8_validate s \<and> hd s \<noteq> CHR ''/'' \<and>
     CHR 0x5C \<notin> set s \<and> CHR '':'' \<notin> set s \<and> ''..'' \<notin> set (split_on CHR ''/'' s)"
  by (auto simp: zip_name_valid_def no_dotdot_iff)

text \<open>
  The zip-bomb guard cannot be fooled by wrap-around: for every cap below the
  largest 64-bit number, \<^verbatim>\<open>check_total_size\<close> accepts an archive exactly when the true sum of the
  sizes its directory declares, entries without a size left out, is at most the cap.
\<close>

theorem zip_total_size_exact:
  assumes "unat cap + 1 < 2 ^ 64"
  shows "check_total_size L za cap = Inr () \<longleftrightarrow>
    (\<Sum>i \<leftarrow> [0..<zl_num_entries L za]. case zl_stat_size L za i of None \<Rightarrow> 0 | Some s \<Rightarrow> unat s)
      \<le> unat cap"
  using sum_sizes_iff [of 0 cap, OF _ assms]
  by (simp add: check_total_size_def comp_def)

theorem zip_total_size_exact_witness:
  "check_total_size (ref_libzip\<lparr>zl_stat_size := (\<lambda>a i. Some (2 ^ 63))\<rparr>)
     (Some [(''a'', []), (''b'', [])]) DEFAULT_MAX_TOTAL \<noteq> Inr ()"
proof -
  have c: "unat DEFAULT_MAX_TOTAL + 1 < 2 ^ 64" by simp
  show ?thesis
    using zip_total_size_exact [OF c, of "ref_libzip\<lparr>zl_stat_size := (\<lambda>a i. Some (2 ^ 63))\<rparr>"
        "Some [(''a'', []), (''b'', [])]"]
    by (simp add: ref_libzip_def upt_rec)
qed

text \<open>
  The whole-archive cap of \<^verbatim>\<open>cmacs_office_zip_set_limits\<close> has no effect: packages
  that differ only in it read every part the same, measure every part the same and save the
  same, because only the default is ever compared, once, at open time.
\<close>

theorem zip_max_total_ignored:
  "zip_read_part L (z\<lparr>z_max_total := t\<rparr>) n = zip_read_part L z n \<and>
   zip_part_size L (z\<lparr>z_max_total := t\<rparr>) n = zip_part_size L z n \<and>
   zip_part_names L (z\<lparr>z_max_total := t\<rparr>) = zip_part_names L z \<and>
   (case zip_save L fs (z\<lparr>z_max_total := t\<rparr>) of (res, fs', z') \<Rightarrow>
      zip_save L fs z = (res, fs', z'\<lparr>z_max_total := z_max_total z\<rparr>))"
proof -
  have ap: "apply_pending L fs (z\<lparr>z_max_total := t\<rparr>) p = apply_pending L fs z p" for p
    by (simp add: apply_pending_def cong: option.case_cong sum.case_cong)
  have "(case zip_save L fs (z\<lparr>z_max_total := t\<rparr>) of (res, fs', z') \<Rightarrow>
      zip_save L fs z = (res, fs', z'\<lparr>z_max_total := z_max_total z\<rparr>))"
  proof (cases "zip_dirty z")
    case False
    then show ?thesis by (simp add: zip_save_def zip_dirty_def)
  next
    case True
    then have d: "zip_dirty (z\<lparr>z_max_total := t\<rparr>)" by (simp add: zip_dirty_def)
    obtain ok fs1 where o: "apply_pending L fs z (z_path z) = (ok, fs1)" by fastforce
    show ?thesis
      using True d o
      by (cases ok; cases "zl_open_ro L fs1 (z_path z)")
         (simp_all add: zip_save_def ap zip_reopen_def zip_revert_def)
  qed
  then show ?thesis
    by (simp add: zip_read_part_def zip_part_size_def zip_part_names_def
        cong: option.case_cong sum.case_cong if_cong)
qed

end
