(* ===== verification/C_Format.thy ===== *)
theory C_Format
  imports Cmacs_Prelude
begin

text \<open>
  Decimal output and input of the C library: what \<^verbatim>\<open>printf\<close> writes for \<^verbatim>\<open>%d\<close> and \<^verbatim>\<open>%lu\<close>, and
  \<^verbatim>\<open>strtol\<close> in base ten with its saturation, with the round trip between them.
\<close>

text \<open>The decimal digits \<^verbatim>\<open>printf\<close> writes for \<^verbatim>\<open>%d\<close>.\<close>

fun print_nat :: "nat \<Rightarrow> string" where
  "print_nat n =
     (if n < 10 then [char_of (48 + n)] else print_nat (n div 10) @ [char_of (48 + n mod 10)])"

declare print_nat.simps [simp del]

definition parse_digits :: "string \<Rightarrow> nat" where
  "parse_digits s = foldl (\<lambda>a c. 10 * a + (of_char c - 48)) 0 s"

lemma of_char_digit: "d < 10 \<Longrightarrow> (of_char (char_of (48 + d) :: char) :: nat) = 48 + d"
  by simp

lemma parse_print_nat: "parse_digits (print_nat n) = n"
proof (induction n rule: print_nat.induct)
  case (1 n)
  show ?case
  proof (cases "n < 10")
    case True
    then show ?thesis by (simp add: print_nat.simps [of n] parse_digits_def)
  next
    case False
    then have "foldl (\<lambda>a c. 10 * a + (of_char c - 48)) 0 (print_nat (n div 10)) = n div 10"
      using 1 by (simp add: parse_digits_def)
    with False show ?thesis
      by (subst print_nat.simps) (simp add: parse_digits_def of_char_digit)
  qed
qed

lemma print_nat_inj: "print_nat a = print_nat b \<longleftrightarrow> a = b"
  using parse_print_nat by metis

lemma print_nat_chars: "c \<in> set (print_nat n) \<Longrightarrow> 48 \<le> (of_char c :: nat) \<and> (of_char c :: nat) < 58"
proof (induction n rule: print_nat.induct)
  case (1 n)
  show ?case
  proof (cases "n < 10")
    case True
    with "1.prems" show ?thesis by (simp add: print_nat.simps [of n])
  next
    case False
    with "1.prems" have "c \<in> set (print_nat (n div 10)) \<or> c = char_of (48 + n mod 10)"
      by (subst (asm) print_nat.simps) auto
    then show ?thesis using 1 False of_char_digit [of "n mod 10"] by auto
  qed
qed

lemma print_nat_no_colon: "CHR '':'' \<notin> set (print_nat n)"
  using print_nat_chars [of "CHR '':''" n] by auto


section \<open>Reading numbers\<close>

definition c_isdigit :: "char \<Rightarrow> bool" where
  "c_isdigit c \<longleftrightarrow> 48 \<le> (of_char c :: nat) \<and> (of_char c :: nat) < 58"

text \<open>\<^verbatim>\<open>isspace\<close> in the C locale: the GLib set and the vertical tab.\<close>

definition c_isspace :: "char \<Rightarrow> bool" where
  "c_isspace c \<longleftrightarrow> g_ascii_isspace c \<or> c = CHR 0x0B"

definition clamp_glong :: "int \<Rightarrow> int" where
  "clamp_glong i = max (- (2 ^ 63)) (min (2 ^ 63 - 1) i)"

text \<open>\<^verbatim>\<open>strtol (s, NULL, 10)\<close>: 0 when there are no digits, the nearest \<^verbatim>\<open>long\<close> on overflow.\<close>

definition strtol10 :: "string \<Rightarrow> int" where
  "strtol10 s =
     (let t = dropWhile c_isspace (c_str s);
          neg = (t \<noteq> [] \<and> hd t = CHR ''-'');
          u = (if t \<noteq> [] \<and> (hd t = CHR ''-'' \<or> hd t = CHR ''+'') then tl t else t);
          v = int (parse_digits (takeWhile c_isdigit u))
      in clamp_glong (if neg then - v else v))"

lemma print_nat_digits: "c \<in> set (print_nat n) \<Longrightarrow> c_isdigit c"
  using print_nat_chars [of c n] by (simp add: c_isdigit_def)

lemma print_nat_neq_Nil [simp]: "print_nat n \<noteq> []"
  by (subst print_nat.simps) simp

lemma c_isdigit_not_space: "c_isdigit c \<Longrightarrow> \<not> c_isspace c \<and> c \<noteq> NUL \<and> c \<noteq> CHR ''-'' \<and> c \<noteq> CHR ''+''
    \<and> c \<noteq> CHR 0x0A \<and> c \<noteq> CHR 0x0D"
  by (auto simp: c_isdigit_def c_isspace_def g_ascii_isspace_def)

lemma strtol_print_nat: "int n < 2 ^ 63 \<Longrightarrow> strtol10 (print_nat n) = int n"
proof -
  assume n: "int n < 2 ^ 63"
  obtain c cs where p: "print_nat n = c # cs" using print_nat_neq_Nil [of n] by (cases "print_nat n") auto
  have d: "\<And>x. x \<in> set (print_nat n) \<Longrightarrow> c_isdigit x" by (rule print_nat_digits)
  then have "NUL \<notin> set (print_nat n)" using c_isdigit_not_space by blast
  moreover have "c_isdigit c" using d p by simp
  then have "dropWhile c_isspace (print_nat n) = print_nat n" "c \<noteq> CHR ''-''" "c \<noteq> CHR ''+''"
    using c_isdigit_not_space [of c] p by simp_all
  moreover have "takeWhile c_isdigit (print_nat n) = print_nat n" using d by (simp add: takeWhile_eq_all_conv)
  moreover have "parse_digits (c # cs) = n" using parse_print_nat [of n] p by simp
  ultimately show ?thesis using n p by (simp add: strtol10_def Let_def clamp_glong_def)
qed

end
