(* ===== verification/Office_Xml.thy ===== *)
theory Office_Xml
  imports C_Format
begin

text \<open>
  \<^verbatim>\<open>src/cmacs/office/cmacs-office-xml.c\<close>: the helpers over libxml2 with which the office formats are
  read and edited. A node of libxml2's tree is a value: an element with its local name, the
  namespace it is in, its attributes (by local name and namespace) and its children, a text (or CDATA)
  node, or a node of another kind, which all code here passes over. The functions of libxml2's tree
  interface that the code calls are the operations they are documented to be on such values;
  parsing and serialising are parameters. Entity references of a document's own are left out.
\<close>

type_synonym attr_key = "string \<times> string option"

datatype xml =
    XElem string "string option" "(attr_key \<times> string) list" "xml list"
  | XText string
  | XOther

fun x_kids :: "xml \<Rightarrow> xml list" where
  "x_kids (XElem n ns ats kids) = kids"
| "x_kids _ = []"

fun x_attrs :: "xml \<Rightarrow> (attr_key \<times> string) list" where
  "x_attrs (XElem n ns ats kids) = ats"
| "x_attrs _ = []"

fun x_ns :: "xml \<Rightarrow> string option" where
  "x_ns (XElem n ns ats kids) = ns"
| "x_ns _ = None"

section \<open>libxml2\<close>

text \<open>\<^verbatim>\<open>xmlReadMemory\<close> gives a document with or without a root; \<^verbatim>\<open>xmlDocDumpFormatMemoryEnc\<close> may fail.\<close>

record libxml =
  xl_read :: "string \<Rightarrow> xml option option"
  xl_dump :: "xml \<Rightarrow> string option"

fun set_kids :: "xml list \<Rightarrow> xml \<Rightarrow> xml" where
  "set_kids ks (XElem n ns ats kids) = XElem n ns ats ks"
| "set_kids ks x = x"

fun set_attrs :: "(attr_key \<times> string) list \<Rightarrow> xml \<Rightarrow> xml" where
  "set_attrs a (XElem n ns ats kids) = XElem n ns a kids"
| "set_attrs a x = x"

text \<open>\<^verbatim>\<open>xmlSetNsProp\<close>: the value of the attribute if it is there, else a new last one; \<^verbatim>\<open>xmlUnsetNsProp\<close>.\<close>

fun put_attr :: "attr_key \<Rightarrow> string \<Rightarrow> (attr_key \<times> string) list \<Rightarrow> (attr_key \<times> string) list" where
  "put_attr k v [] = [(k, v)]"
| "put_attr k v ((k', v') # ats) = (if k' = k then (k, v) # ats else (k', v') # put_attr k v ats)"

fun drop_attr :: "attr_key \<Rightarrow> (attr_key \<times> string) list \<Rightarrow> (attr_key \<times> string) list" where
  "drop_attr k [] = []"
| "drop_attr k ((k', v') # ats) = (if k' = k then ats else (k', v') # drop_attr k ats)"

definition xmlSetNsProp :: "attr_key \<Rightarrow> string \<Rightarrow> xml \<Rightarrow> xml" where
  "xmlSetNsProp k v x = set_attrs (put_attr k v (x_attrs x)) x"

definition xmlUnsetNsProp :: "attr_key \<Rightarrow> xml \<Rightarrow> xml" where
  "xmlUnsetNsProp k x = set_attrs (drop_attr k (x_attrs x)) x"

definition xmlAddChild :: "xml \<Rightarrow> xml \<Rightarrow> xml" where
  "xmlAddChild c x = set_kids (x_kids x @ [c]) x"

text \<open>\<^verbatim>\<open>xmlNodeGetContent\<close>: the text below a node.\<close>

fun xmlNodeGetContent :: "xml \<Rightarrow> string" where
  "xmlNodeGetContent (XText s) = s"
| "xmlNodeGetContent XOther = []"
| "xmlNodeGetContent (XElem n ns ats kids) = concat (map xmlNodeGetContent kids)"

section \<open>The helpers\<close>

datatype xml_error = XML_ERROR_PARSE | XML_ERROR_EMPTY

definition xml_parse :: "libxml \<Rightarrow> string \<Rightarrow> xml_error + xml" where
  "xml_parse X bytes =
     (if length bytes > 2 ^ 31 - 1 then Inl XML_ERROR_PARSE
      else case xl_read X bytes of
          None \<Rightarrow> Inl XML_ERROR_PARSE
        | Some None \<Rightarrow> Inl XML_ERROR_EMPTY
        | Some (Some root) \<Rightarrow> Inr root)"

definition xml_serialize :: "libxml \<Rightarrow> xml \<Rightarrow> xml_error + string" where
  "xml_serialize X root =
     (case xl_dump X root of
        None \<Rightarrow> Inl XML_ERROR_PARSE
      | Some bytes \<Rightarrow> if bytes = [] then Inl XML_ERROR_PARSE else Inr bytes)"

text \<open>\<open>None\<close> for a local name or a namespace matches any.\<close>

fun xml_is :: "xml \<Rightarrow> string option \<Rightarrow> string option \<Rightarrow> bool" where
  "xml_is (XElem n ns ats kids) local href =
     ((case local of None \<Rightarrow> True | Some l \<Rightarrow> n = l) \<and> (case href of None \<Rightarrow> True | Some h \<Rightarrow> ns = Some h))"
| "xml_is _ local href = False"

text \<open>
  Iterating with \<^verbatim>\<open>cmacs_office_xml_first\<close> and \<^verbatim>\<open>cmacs_office_xml_next\<close> visits the matching children in
  their order. A missing parent has none.
\<close>

definition xml_all :: "xml option \<Rightarrow> string option \<Rightarrow> string option \<Rightarrow> xml list" where
  "xml_all parent local href = (case parent of None \<Rightarrow> [] | Some p \<Rightarrow> filter (\<lambda>n. xml_is n local href) (x_kids p))"

definition xml_first :: "xml option \<Rightarrow> string option \<Rightarrow> string option \<Rightarrow> xml option" where
  "xml_first parent local href =
     (case parent of None \<Rightarrow> None | Some p \<Rightarrow> find (\<lambda>n. xml_is n local href) (x_kids p))"

definition xml_attr :: "xml \<Rightarrow> string \<Rightarrow> string option" where
  "xml_attr x name = map_option snd (find (\<lambda>a. fst (fst a) = name) (x_attrs x))"

definition xml_attr_ns :: "xml \<Rightarrow> string \<Rightarrow> string \<Rightarrow> string option" where
  "xml_attr_ns x name href = map_option snd (find (\<lambda>a. fst a = (name, Some href)) (x_attrs x))"

definition xml_text :: "xml option \<Rightarrow> string" where
  "xml_text x = (case x of None \<Rightarrow> [] | Some n \<Rightarrow> xmlNodeGetContent n)"

text \<open>The first match below a node, a node before what is below it.\<close>

fun xml_find_in :: "string option \<Rightarrow> string option \<Rightarrow> xml list \<Rightarrow> xml option" where
  "xml_find_in local href [] = None"
| "xml_find_in local href (XElem n ns ats kids # xs) =
     (if xml_is (XElem n ns ats kids) local href then Some (XElem n ns ats kids)
      else case xml_find_in local href kids of
          Some hit \<Rightarrow> Some hit
        | None \<Rightarrow> xml_find_in local href xs)"
| "xml_find_in local href (x # xs) = xml_find_in local href xs"

definition xml_find :: "xml option \<Rightarrow> string option \<Rightarrow> string option \<Rightarrow> xml option" where
  "xml_find root local href = (case root of None \<Rightarrow> None | Some r \<Rightarrow> xml_find_in local href (x_kids r))"

lemma xml_first_all: "xml_first p l h = (case xml_all p l h of [] \<Rightarrow> None | x # xs \<Rightarrow> Some x)"
proof -
  have "find P xs = (case filter P xs of [] \<Rightarrow> None | x # xs \<Rightarrow> Some x)" for P :: "xml \<Rightarrow> bool" and xs
    by (induction xs) auto
  then show ?thesis by (simp add: xml_first_def xml_all_def split: option.splits)
qed

lemma xml_find_in_sound: "xml_find_in l h xs = Some x \<Longrightarrow> xml_is x l h"
  by (induction l h xs rule: xml_find_in.induct) (auto split: if_splits option.splits)

section \<open>Laws of the tree\<close>

lemma kids_simps [simp]:
  "xml_is x l h \<Longrightarrow> x_kids (set_kids ks x) = ks" "x_attrs (set_kids ks x) = x_attrs x"
  "x_kids (set_attrs a x) = x_kids x" "xml_is (set_kids ks x) l h = xml_is x l h" "xml_is (set_attrs a x) l h = xml_is x l h"
  "xml_is x l h \<Longrightarrow> x_attrs (set_attrs a x) = a" "x_ns (set_kids ks x) = x_ns x" "x_ns (set_attrs a x) = x_ns x"
  by (cases x; simp)+

lemma xml_is_attrs [simp]:
  "xml_is (xmlSetNsProp k v x) l h = xml_is x l h" "xml_is (xmlUnsetNsProp k x) l h = xml_is x l h"
  "x_kids (xmlSetNsProp k v x) = x_kids x" "x_kids (xmlUnsetNsProp k x) = x_kids x"
  "x_ns (xmlSetNsProp k v x) = x_ns x" "x_ns (xmlUnsetNsProp k x) = x_ns x"
  by (simp_all add: xmlSetNsProp_def xmlUnsetNsProp_def)

text \<open>
  The editors read attributes by their local name. This agrees with the keys they write under as long
  as an element has no local name twice and keeps the names in \<open>K\<close> to the namespaces given there.
\<close>

definition attrs_agree :: "attr_key list \<Rightarrow> xml \<Rightarrow> bool" where
  "attrs_agree K x \<longleftrightarrow> distinct (map (\<lambda>a. fst (fst a)) (x_attrs x)) \<and>
     list_all (\<lambda>a. list_all (\<lambda>k. fst k = fst (fst a) \<longrightarrow> k = fst a) K) (x_attrs x)"

lemma find_put_attr:
  "find (\<lambda>a. fst (fst a) = m) (put_attr (n, ns) v ats) =
     (if m \<noteq> n then find (\<lambda>a. fst (fst a) = m) ats
      else case find (\<lambda>a. fst (fst a) = n) ats of
          None \<Rightarrow> Some ((n, ns), v)
        | Some a \<Rightarrow> if fst a = (n, ns) then Some ((n, ns), v) else Some a)"
  by (induction ats) auto

lemma names_put_attr:
  "map (\<lambda>a. fst (fst a)) (put_attr (n, ns) v ats) =
     map (\<lambda>a. fst (fst a)) ats @ (if list_ex (\<lambda>a. fst a = (n, ns)) ats then [] else [n])"
  by (induction ats) auto

lemma names_drop_attr: "set (map (\<lambda>a. fst (fst a)) (drop_attr k ats)) \<subseteq> set (map (\<lambda>a. fst (fst a)) ats)"
  by (induction ats rule: drop_attr.induct [of _ k]) auto

lemma distinct_drop_attr:
  "distinct (map (\<lambda>a. fst (fst a)) ats) \<Longrightarrow> distinct (map (\<lambda>a. fst (fst a)) (drop_attr k ats))"
proof (induction ats rule: drop_attr.induct [of _ k])
  case (2 k k' v' ats)
  then show ?case using names_drop_attr [of k ats] by auto
qed simp

lemma find_drop_attr:
  "distinct (map (\<lambda>a. fst (fst a)) ats) \<Longrightarrow>
   find (\<lambda>a. fst (fst a) = m) (drop_attr (n, ns) ats) =
     (case find (\<lambda>a. fst (fst a) = m) ats of
        None \<Rightarrow> None
      | Some a \<Rightarrow> if fst a = (n, ns) then None else Some a)"
proof (induction ats)
  case (Cons a ats)
  obtain k v where a: "a = (k, v)" by fastforce
  have "find (\<lambda>a. fst (fst a) = m) ats = None" if "fst k = m"
    using Cons.prems that a by (force simp: find_None_iff)
  then show ?case using Cons a by (auto dest: find_SomeD split: option.splits)
qed simp

lemma find_agrees:
  "attrs_agree K x \<Longrightarrow> (n, ns) \<in> set K \<Longrightarrow> find (\<lambda>a. fst (fst a) = n) (x_attrs x) = Some a \<Longrightarrow> fst a = (n, ns)"
proof -
  assume "attrs_agree K x" "(n, ns) \<in> set K" "find (\<lambda>a. fst (fst a) = n) (x_attrs x) = Some a"
  moreover from this(3) have "fst (fst a) = n" "a \<in> set (x_attrs x)" by (auto dest: find_SomeD)
  ultimately have "(n, ns) = fst a" unfolding attrs_agree_def list_all_iff by (metis fst_conv)
  then show ?thesis by simp
qed

lemma attr_set_other: "m \<noteq> n \<Longrightarrow> xml_attr (xmlSetNsProp (n, ns) v x) m = xml_attr x m"
  by (cases x) (simp_all add: xml_attr_def xmlSetNsProp_def find_put_attr)

lemma attr_set_same:
  assumes "attrs_agree K x" "(n, ns) \<in> set K" "xml_is x l h"
  shows "xml_attr (xmlSetNsProp (n, ns) v x) n = Some v"
  using find_agrees [OF assms(1,2)] assms(3)
  by (simp add: xml_attr_def xmlSetNsProp_def find_put_attr split: option.splits)

lemma attr_unset_other: "attrs_agree K x \<Longrightarrow> m \<noteq> n \<Longrightarrow> xml_attr (xmlUnsetNsProp (n, ns) x) m = xml_attr x m"
  by (cases x)
    (auto simp: xml_attr_def xmlUnsetNsProp_def find_drop_attr attrs_agree_def dest: find_SomeD split: option.splits)

lemma attr_unset_same:
  assumes "attrs_agree K x" "(n, ns) \<in> set K"
  shows "xml_attr (xmlUnsetNsProp (n, ns) x) n = None"
  using find_agrees [OF assms] assms
  by (cases x) (auto simp: xml_attr_def xmlUnsetNsProp_def find_drop_attr attrs_agree_def split: option.splits)

lemma set_put_attr: "a \<in> set (put_attr k v ats) \<Longrightarrow> a = (k, v) \<or> a \<in> set ats"
  by (induction ats rule: put_attr.induct [of _ k v]) (auto split: if_splits)

lemma set_drop_attr: "a \<in> set (drop_attr k ats) \<Longrightarrow> a \<in> set ats"
  by (induction ats rule: drop_attr.induct [of _ k]) (auto split: if_splits)

lemma attrs_agree_set [intro]:
  assumes "attrs_agree K x" "(n, ns) \<in> set K" "distinct (map fst K)"
  shows "attrs_agree K (xmlSetNsProp (n, ns) v x)"
proof (cases x)
  case (XElem m h ats kids)
  have K: "k \<in> set K \<Longrightarrow> fst k = n \<Longrightarrow> k = (n, ns)" for k
    using assms(2,3) by (metis eq_key_imp_eq_value prod.collapse)
  have "n \<notin> set (map (\<lambda>a. fst (fst a)) ats)" if "\<not> list_ex (\<lambda>a. fst a = (n, ns)) ats"
    using assms(1,2) that XElem by (fastforce simp: attrs_agree_def list_all_iff list_ex_iff)
  then have "distinct (map (\<lambda>a. fst (fst a)) (put_attr (n, ns) v ats))"
    using assms(1) XElem by (auto simp: names_put_attr attrs_agree_def)
  moreover have "list_all (\<lambda>a. list_all (\<lambda>k. fst k = fst (fst a) \<longrightarrow> k = fst a) K) (put_attr (n, ns) v ats)"
    unfolding list_all_iff
  proof (intro ballI impI)
    fix a k
    assume "a \<in> set (put_attr (n, ns) v ats)" "k \<in> set K" "fst k = fst (fst a)"
    then show "k = fst a"
      using set_put_attr [of a "(n, ns)" v ats] K [of k] assms(1) XElem by (auto simp: attrs_agree_def list_all_iff)
  qed
  ultimately show ?thesis using XElem by (simp add: attrs_agree_def xmlSetNsProp_def)
qed (use assms in \<open>simp_all add: attrs_agree_def xmlSetNsProp_def\<close>)

lemma attrs_agree_unset [intro]: "attrs_agree K x \<Longrightarrow> attrs_agree K (xmlUnsetNsProp k x)"
  by (cases x) (auto simp: attrs_agree_def xmlUnsetNsProp_def distinct_drop_attr list_all_iff dest: set_drop_attr)

lemma attrs_agree_kids [simp]: "attrs_agree K (set_kids ks x) = attrs_agree K x"
  by (simp add: attrs_agree_def)

lemma xml_attr_kids [simp]: "xml_attr (set_kids ks x) m = xml_attr x m"
  by (simp add: xml_attr_def)

end
