(* ===== verification/Graph_Model.thy ===== *)
theory Graph_Model
  imports GHash C_Arrays C_Format
begin

text \<open>
  \<^verbatim>\<open>src/cmacs/graphcore/cmacs-graphcore-graph.c\<close>: the node and edge store of the graph
  visualisers. Arrays are lists, counters and array indices naturals (the store is capped at
  20000 nodes), the parent field a C \<^verbatim>\<open>int\<close>. Coordinates are of an opaque type \<open>'f\<close>: the only
  float operations of the file are the parameters of \<open>float_ops\<close> (constants, the positivity
  test of a weight, the radius formula of \<^verbatim>\<open>finalize\<close> and the scaling of \<^verbatim>\<open>cmacs_graph_rand\<close>). The
  solver's vectors are triples.
\<close>

unbundle bit_operations_syntax

record 'f float_ops =
  f_zero :: 'f
  f_one :: 'f
  f_radius0 :: 'f
  f_positive :: "'f \<Rightarrow> bool"
  f_radius :: "nat \<Rightarrow> nat \<Rightarrow> 'f"
  f_unit :: "32 word \<Rightarrow> 'f"

datatype edge_kind = EDGE_ID | EDGE_CITE | EDGE_SIM

fun kind_num :: "edge_kind \<Rightarrow> nat" where
  "kind_num EDGE_ID = 0" | "kind_num EDGE_CITE = 1" | "kind_num EDGE_SIM = 2"

abbreviation (input) DIR_OUT :: nat where "DIR_OUT \<equiv> 0"
abbreviation (input) DIR_IN :: nat where "DIR_IN \<equiv> 1"
abbreviation (input) GRAPHCORE_MAX_NODES :: nat where "GRAPHCORE_MAX_NODES \<equiv> 20000"

definition nodes_full :: "nat \<Rightarrow> bool" where
  "nodes_full n \<longleftrightarrow> n \<ge> GRAPHCORE_MAX_NODES"

lemma nodes_full_code [code]: "nodes_full n \<longleftrightarrow> (20000 :: int) \<le> int n"
  by (simp add: nodes_full_def)

record 'f graph_node =
  gn_id :: string
  gn_title :: string
  gn_file :: "string option"
  gn_group :: "string option"
  gn_level :: int
  gn_pos :: int
  gn_rgba :: "32 word"
  gn_in_deg :: nat
  gn_out_deg :: nat
  gn_edge_first :: nat
  gn_edge_count :: nat
  gn_xyz :: "'f \<times> 'f \<times> 'f"
  gn_vel :: "'f \<times> 'f \<times> 'f"
  gn_radius :: 'f
  gn_tween_from :: "'f \<times> 'f \<times> 'f"
  gn_tween_to :: "'f \<times> 'f \<times> 'f"
  gn_parent :: int
  gn_descendants :: nat
  gn_ring :: nat
  gn_pinned :: bool
  gn_placed :: bool
  gn_collapsed :: bool
  gn_visible :: bool

record 'f graph_edge =
  ge_a :: nat
  ge_b :: nat
  ge_kind :: edge_kind
  ge_w :: 'f

record 'f graph =
  gr_nodes :: "'f graph_node list"
  gr_edges :: "'f graph_edge list"
  gr_by_id :: "(string, nat) ghash"
  gr_adj :: "nat list"
  gr_adj_dir :: "nat list"
  gr_old_nodes :: "'f graph_node list"
  gr_old_by_id :: "(string, nat) ghash option"
  gr_edge_seen :: "(string, unit) ghash option"
  gr_generation :: "32 word"
  gr_seed :: "32 word"
  gr_rng :: "32 word"
  gr_updating :: bool

section \<open>Random numbers and lifecycle\<close>

definition xorshift32 :: "32 word \<Rightarrow> 32 word" where
  "xorshift32 x0 =
     (let x1 = x0 XOR push_bit 13 x0;
          x2 = x1 XOR drop_bit 17 x1;
          x3 = x2 XOR push_bit 5 x2
      in if x3 \<noteq> 0 then x3 else 0x1234567)"

definition graph_rand :: "'f float_ops \<Rightarrow> 'f graph \<Rightarrow> 'f \<times> 'f graph" where
  "graph_rand FO g =
     (let s = xorshift32 (gr_rng g) in (f_unit FO (drop_bit 8 s), g\<lparr>gr_rng := s\<rparr>))"

definition graph_reset_rand :: "'f graph \<Rightarrow> 'f graph" where
  "graph_reset_rand g = g\<lparr>gr_rng := (if gr_seed g \<noteq> 0 then gr_seed g else 0x1234567)\<rparr>"

definition graph_new :: "32 word \<Rightarrow> 'f graph" where
  "graph_new seed = graph_reset_rand
     \<lparr>gr_nodes = [], gr_edges = [], gr_by_id = gh_empty, gr_adj = [], gr_adj_dir = [],
      gr_old_nodes = [], gr_old_by_id = None, gr_edge_seen = None, gr_generation = 0,
      gr_seed = (if seed \<noteq> 0 then seed else 0x9E3779B9), gr_rng = 0, gr_updating = False\<rparr>"

definition graph_begin_update :: "'f graph \<Rightarrow> 'f graph" where
  "graph_begin_update g =
     g\<lparr>gr_old_nodes := gr_nodes g, gr_old_by_id := Some (gr_by_id g),
       gr_nodes := [], gr_by_id := gh_empty, gr_edges := [],
       gr_edge_seen := Some gh_empty, gr_updating := True\<rparr>"

section \<open>Nodes and edges\<close>

definition graph_index_of :: "'f graph \<Rightarrow> string option \<Rightarrow> int" where
  "graph_index_of g nid =
     (case nid of None \<Rightarrow> -1
      | Some i \<Rightarrow> (case gh_lookup (gr_by_id g) i of None \<Rightarrow> -1 | Some p \<Rightarrow> int p - 1))"

definition blank_node :: "'f float_ops \<Rightarrow> 'f graph_node" where
  "blank_node FO =
     (let z = (f_zero FO, f_zero FO, f_zero FO) in
      \<lparr>gn_id = [], gn_title = [], gn_file = None, gn_group = None, gn_level = 0, gn_pos = 0,
       gn_rgba = 0, gn_in_deg = 0, gn_out_deg = 0, gn_edge_first = 0, gn_edge_count = 0,
       gn_xyz = z, gn_vel = z, gn_radius = f_zero FO, gn_tween_from = z, gn_tween_to = z,
       gn_parent = 0, gn_descendants = 0, gn_ring = 0, gn_pinned = False, gn_placed = False,
       gn_collapsed = False, gn_visible = False\<rparr>)"

text \<open>The position the previous generation had under the same id, if it is still held.\<close>

definition inherited :: "'f graph \<Rightarrow> string \<Rightarrow> 'f graph_node option" where
  "inherited g i =
     (case gr_old_by_id g of None \<Rightarrow> None
      | Some old \<Rightarrow>
          (case gh_lookup old i of None \<Rightarrow> None | Some p \<Rightarrow> Some (gr_old_nodes g ! (p - 1))))"

definition new_node ::
  "'f float_ops \<Rightarrow> 'f graph \<Rightarrow> string \<Rightarrow> string option \<Rightarrow> string option \<Rightarrow> string option
     \<Rightarrow> int \<Rightarrow> int \<Rightarrow> 32 word \<Rightarrow> 'f graph_node" where
  "new_node FO g i title file grp level pos rgba =
     (let n = (blank_node FO)
            \<lparr>gn_id := i,
             gn_title := (case title of None \<Rightarrow> i | Some t \<Rightarrow> if t \<noteq> [] then t else i),
             gn_file := file, gn_group := grp, gn_level := level, gn_pos := pos, gn_rgba := rgba,
             gn_radius := f_radius0 FO, gn_visible := True, gn_parent := -1\<rparr>
      in case inherited g i of
           None \<Rightarrow> n
         | Some o1 \<Rightarrow> n\<lparr>gn_xyz := gn_xyz o1, gn_pinned := gn_pinned o1, gn_placed := True\<rparr>)"

definition graph_add_node ::
  "'f float_ops \<Rightarrow> 'f graph \<Rightarrow> string option \<Rightarrow> string option \<Rightarrow> string option \<Rightarrow> string option
     \<Rightarrow> int \<Rightarrow> int \<Rightarrow> 32 word \<Rightarrow> int \<times> 'f graph" where
  "graph_add_node FO g nid title file grp level pos rgba =
     (case nid of
        None \<Rightarrow> (-1, g)
      | Some i \<Rightarrow>
          if i = [] then (-1, g)
          else
            (case gh_lookup (gr_by_id g) i of
               Some found \<Rightarrow> (int found - 1, g)
             | None \<Rightarrow>
                 if nodes_full (length (gr_nodes g)) then (-1, g)
                 else
                   (let idx = length (gr_nodes g)
                    in (int idx,
                        g\<lparr>gr_nodes := gr_nodes g @ [new_node FO g i title file grp level pos rgba],
                          gr_by_id := gh_replace i (idx + 1) (gr_by_id g)\<rparr>))))"

definition edge_key :: "nat \<Rightarrow> nat \<Rightarrow> edge_kind \<Rightarrow> string" where
  "edge_key a b k =
     (if a < b then print_nat a @ '':'' @ print_nat b @ '':'' @ print_nat (kind_num k)
      else print_nat b @ '':'' @ print_nat a @ '':'' @ print_nat (kind_num k))"

text \<open>
  Outside an update there is no table of seen edges; GLib's \<^verbatim>\<open>g_hash_table_contains\<close> and
  \<^verbatim>\<open>g_hash_table_add\<close> then warn and answer false.
\<close>

definition graph_add_edge ::
  "'f float_ops \<Rightarrow> 'f graph \<Rightarrow> string option \<Rightarrow> string option \<Rightarrow> edge_kind \<Rightarrow> 'f \<Rightarrow> bool \<times> 'f graph"
  where
  "graph_add_edge FO g from_id to_id kind weight =
     (if from_id = None \<or> to_id = None then (False, g)
      else
        (let a = graph_index_of g from_id; b = graph_index_of g to_id in
         if a < 0 \<or> b < 0 then (False, g)
         else if a = b then (False, g)
         else
           (let key = edge_key (nat a) (nat b) kind in
            if (case gr_edge_seen g of None \<Rightarrow> False | Some t \<Rightarrow> gh_contains t key) then (False, g)
            else (True,
              g\<lparr>gr_edge_seen := map_option (gh_replace key ()) (gr_edge_seen g),
                gr_edges := gr_edges g @
                  [\<lparr>ge_a = nat a, ge_b = nat b, ge_kind = kind,
                    ge_w = (if f_positive FO weight then weight else f_one FO)\<rparr>]\<rparr>))))"

section \<open>Accessors\<close>

definition graph_n_nodes :: "'f graph \<Rightarrow> nat" where
  "graph_n_nodes g = length (gr_nodes g)"

definition graph_n_edges :: "'f graph \<Rightarrow> nat" where
  "graph_n_edges g = length (gr_edges g)"

definition graph_node_at :: "'f graph \<Rightarrow> nat \<Rightarrow> 'f graph_node option" where
  "graph_node_at g i = (if i \<ge> length (gr_nodes g) then None else Some (gr_nodes g ! i))"

definition graph_edge_at :: "'f graph \<Rightarrow> nat \<Rightarrow> 'f graph_edge option" where
  "graph_edge_at g i = (if i \<ge> length (gr_edges g) then None else Some (gr_edges g ! i))"

text \<open>The slice \<^verbatim>\<open>cmacs_graph_neighbours\<close> points to, with the parallel directions.\<close>

definition graph_neighbours :: "'f graph \<Rightarrow> nat \<Rightarrow> (nat \<times> nat) list" where
  "graph_neighbours g i =
     (case graph_node_at g i of
        None \<Rightarrow> []
      | Some nd \<Rightarrow>
          zip (take (gn_edge_count nd) (drop (gn_edge_first nd) (gr_adj g)))
              (take (gn_edge_count nd) (drop (gn_edge_first nd) (gr_adj_dir g))))"

definition graph_n_visible :: "'f graph \<Rightarrow> nat" where
  "graph_n_visible g = length (filter gn_visible (gr_nodes g))"

section \<open>Hierarchy\<close>

definition parent_of :: "'f graph_node list \<Rightarrow> int \<Rightarrow> int" where
  "parent_of nodes p = gn_parent (nodes ! nat p)"

text \<open>
  The three upward walks of the file; the argument is the number of rounds the loop guard
  leaves.
\<close>

fun depth_walk :: "'f graph_node list \<Rightarrow> nat \<Rightarrow> int \<Rightarrow> nat" where
  "depth_walk nodes 0 p = 0"
| "depth_walk nodes (Suc k) p = (if p \<ge> 0 then Suc (depth_walk nodes k (parent_of nodes p)) else 0)"

fun cycle_walk :: "'f graph_node list \<Rightarrow> nat \<Rightarrow> nat \<Rightarrow> int \<Rightarrow> bool" where
  "cycle_walk nodes 0 child walk = False"
| "cycle_walk nodes (Suc k) child walk =
     (if walk \<ge> 0 then nat walk = child \<or> cycle_walk nodes k child (parent_of nodes walk) else False)"

fun visible_walk :: "'f graph_node list \<Rightarrow> nat \<Rightarrow> int \<Rightarrow> bool" where
  "visible_walk nodes 0 p = True"
| "visible_walk nodes (Suc k) p =
     (if p \<ge> 0 then
        (if gn_collapsed (nodes ! nat p) then False else visible_walk nodes k (parent_of nodes p))
      else True)"

definition graph_set_parent :: "'f graph \<Rightarrow> nat \<Rightarrow> int \<Rightarrow> bool \<times> 'f graph" where
  "graph_set_parent g child parent =
     (let n = length (gr_nodes g) in
      if \<not> child < n then (False, g)
      else if parent \<ge> 0 \<and> nat parent \<ge> n then (False, g)
      else if parent = int child then (False, g)
      else if cycle_walk (gr_nodes g) (n + 1) child parent then (False, g)
      else (True, g\<lparr>gr_nodes := (gr_nodes g)[child := (gr_nodes g ! child)\<lparr>gn_parent := parent\<rparr>]\<rparr>))"

definition graph_refresh_visibility :: "'f graph \<Rightarrow> 'f graph" where
  "graph_refresh_visibility g =
     g\<lparr>gr_nodes := map (\<lambda>nd. nd\<lparr>gn_visible :=
          visible_walk (gr_nodes g) (length (gr_nodes g) + 1) (gn_parent nd)\<rparr>) (gr_nodes g)\<rparr>"

definition graph_set_collapsed :: "'f graph \<Rightarrow> nat \<Rightarrow> bool \<Rightarrow> bool \<times> 'f graph" where
  "graph_set_collapsed g idx collapsed =
     (if \<not> idx < length (gr_nodes g) then (False, g)
      else if gn_collapsed (gr_nodes g ! idx) = collapsed then (False, g)
      else (True, graph_refresh_visibility
             (g\<lparr>gr_nodes := (gr_nodes g)[idx := (gr_nodes g ! idx)\<lparr>gn_collapsed := collapsed\<rparr>]\<rparr>)))"

definition graph_collapse_all :: "'f graph \<Rightarrow> bool \<Rightarrow> 'f graph" where
  "graph_collapse_all g collapsed = graph_refresh_visibility
     (g\<lparr>gr_nodes := map (\<lambda>nd. if gn_descendants nd > 0 then nd\<lparr>gn_collapsed := collapsed\<rparr> else nd)
          (gr_nodes g)\<rparr>)"

text \<open>
  Transitive child counts: depths, a counting sort by depth with the deepest first, then each
  node's subtree is added to its parent.
\<close>

definition depth_order :: "nat list \<Rightarrow> nat list" where
  "depth_order depth =
     (let n = length depth;
          maxd = fold max depth 0;
          count = fold (\<lambda>d b. b[maxd - d := Suc (b ! (maxd - d))]) depth (replicate (maxd + 2) 0)
      in fst (fold (\<lambda>i (order, b).
                let k = maxd - depth ! i in (order[b ! k := i], b[k := Suc (b ! k)]))
              [0..<n]
              (replicate n 0, bucket_starts 0 (take (maxd + 1) count) @ drop (maxd + 1) count)))"

definition add_subtree :: "nat \<Rightarrow> 'f graph_node list \<Rightarrow> 'f graph_node list" where
  "add_subtree idx nodes =
     (let p = gn_parent (nodes ! idx) in
      if p \<ge> 0 then nodes[nat p := (nodes ! nat p)
        \<lparr>gn_descendants := gn_descendants (nodes ! nat p) + gn_descendants (nodes ! idx) + 1\<rparr>]
      else nodes)"

definition recount_descendants :: "'f graph_node list \<Rightarrow> 'f graph_node list" where
  "recount_descendants nodes0 =
     (let n = length nodes0;
          nodes = map (\<lambda>nd. nd\<lparr>gn_descendants := 0\<rparr>) nodes0
      in if list_all (\<lambda>nd. gn_parent nd < 0) nodes \<or> n = 0 then nodes
         else fold add_subtree
                (depth_order (map (\<lambda>nd. depth_walk nodes n (gn_parent nd)) nodes)) nodes)"

section \<open>Finalize\<close>

record slice_ent =
  se_nb :: nat
  se_dir :: nat
  se_title :: string

text \<open>\<^verbatim>\<open>g_ascii_strcasecmp\<close>: the difference at the first place where the lower-cased bytes differ.\<close>

fun g_ascii_strcasecmp :: "string \<Rightarrow> string \<Rightarrow> int" where
  "g_ascii_strcasecmp [] [] = 0"
| "g_ascii_strcasecmp [] (y # ys) = - int (of_char y)"
| "g_ascii_strcasecmp (x # xs) [] = int (of_char x)"
| "g_ascii_strcasecmp (x # xs) (y # ys) =
     (let c1 = (of_char (g_ascii_tolower x) :: nat); c2 = (of_char (g_ascii_tolower y) :: nat)
      in if c1 \<noteq> c2 then int c1 - int c2 else g_ascii_strcasecmp xs ys)"

definition slice_cmp :: "slice_ent \<Rightarrow> slice_ent \<Rightarrow> int" where
  "slice_cmp a b =
     (if se_dir a \<noteq> se_dir b then (if se_dir a < se_dir b then -1 else 1)
      else
        (let c = g_ascii_strcasecmp (se_title a) (se_title b) in
         if c \<noteq> 0 then c else if se_nb a < se_nb b then -1 else if se_nb a > se_nb b then 1 else 0))"

definition reset_degrees :: "'f graph_node \<Rightarrow> 'f graph_node" where
  "reset_degrees nd = nd\<lparr>gn_in_deg := 0, gn_out_deg := 0, gn_edge_first := 0, gn_edge_count := 0\<rparr>"

definition count_edge :: "'f graph_edge \<Rightarrow> 'f graph_node list \<Rightarrow> 'f graph_node list" where
  "count_edge e nodes =
     (let nodes1 = nodes[ge_a e := (nodes ! ge_a e)\<lparr>gn_out_deg := Suc (gn_out_deg (nodes ! ge_a e))\<rparr>]
      in nodes1[ge_b e := (nodes1 ! ge_b e)\<lparr>gn_in_deg := Suc (gn_in_deg (nodes1 ! ge_b e))\<rparr>])"

fun assign_slices :: "nat \<Rightarrow> 'f graph_node list \<Rightarrow> 'f graph_node list" where
  "assign_slices off [] = []"
| "assign_slices off (nd # nds) =
     nd\<lparr>gn_edge_first := off, gn_edge_count := gn_in_deg nd + gn_out_deg nd\<rparr>
       # assign_slices (off + (gn_in_deg nd + gn_out_deg nd)) nds"

definition slices_size :: "'f graph_node list \<Rightarrow> nat" where
  "slices_size nodes = sum_list (map gn_edge_count nodes)"

definition scatter_edge ::
  "'f graph_node list \<Rightarrow> 'f graph_edge \<Rightarrow> slice_ent list \<times> nat list \<Rightarrow> slice_ent list \<times> nat list" where
  "scatter_edge nodes e st =
     (case st of (sl, cursor0) \<Rightarrow>
        let na = nodes ! ge_a e; nb = nodes ! ge_b e;
            pa = gn_edge_first na + cursor0 ! ge_a e;
            cursor1 = cursor0[ge_a e := Suc (cursor0 ! ge_a e)];
            pb = gn_edge_first nb + cursor1 ! ge_b e;
            cursor2 = cursor1[ge_b e := Suc (cursor1 ! ge_b e)];
            sl1 = sl[pa := \<lparr>se_nb = ge_b e, se_dir = DIR_OUT, se_title = gn_title nb\<rparr>]
        in (sl1[pb := \<lparr>se_nb = ge_a e, se_dir = DIR_IN, se_title = gn_title na\<rparr>], cursor2))"

definition flatten_node ::
  "slice_ent list \<Rightarrow> 'f graph_node \<Rightarrow> nat list \<times> nat list \<Rightarrow> nat list \<times> nat list" where
  "flatten_node sl nd st =
     (let ents = qsort_by slice_cmp (take (gn_edge_count nd) (drop (gn_edge_first nd) sl))
      in (write_at (gn_edge_first nd) (map se_nb ents) (fst st),
          write_at (gn_edge_first nd) (map se_dir ents) (snd st)))"

definition graph_finalize :: "'f float_ops \<Rightarrow> 'f graph \<Rightarrow> 'f graph" where
  "graph_finalize FO g =
     (let nodes1 = fold count_edge (gr_edges g) (map reset_degrees (gr_nodes g));
          nodes2 = assign_slices 0 nodes1;
          off = slices_size nodes2;
          zero = \<lparr>se_nb = 0, se_dir = 0, se_title = []\<rparr>;
          sl = fst (fold (scatter_edge nodes2) (gr_edges g)
                    (replicate off zero, replicate (length nodes2) 0));
          flat = fold (flatten_node sl) nodes2
                   (set_size off 0 (gr_adj g), set_size off 0 (gr_adj_dir g));
          max_deg = fold (\<lambda>nd m. if gn_edge_count nd > m then gn_edge_count nd else m) nodes2 0;
          nodes3 = map (\<lambda>nd. nd\<lparr>gn_radius := f_radius FO max_deg (gn_edge_count nd)\<rparr>) nodes2;
          nodes4 = recount_descendants nodes3;
          g1 = graph_refresh_visibility
                 (g\<lparr>gr_nodes := nodes4, gr_adj := fst flat, gr_adj_dir := snd flat\<rparr>)
      in graph_reset_rand
           (g1\<lparr>gr_old_nodes := [], gr_old_by_id := None, gr_edge_seen := None,
               gr_updating := False, gr_generation := gr_generation g1 + 1\<rparr>))"

end
