(* ===== verification/Graph_Store.thy ===== *)
theory Graph_Store
  imports Graph_Model
begin

text \<open>
  What an update transaction of the graph store (\<^verbatim>\<open>begin_update\<close>, then any mixture of \<^verbatim>\<open>add_node\<close>,
  \<^verbatim>\<open>add_edge\<close> and \<^verbatim>\<open>set_parent\<close>) keeps: the id table and the node array agree, survivors keep
  their positions, edges join known distinct nodes and no pair twice with one kind.
\<close>

section \<open>Edge keys\<close>

definition ends_of :: "nat \<Rightarrow> nat \<Rightarrow> edge_kind \<Rightarrow> nat \<times> nat \<times> edge_kind" where
  "ends_of a b k = (min a b, max a b, k)"

lemma kind_num_inj: "kind_num k = kind_num k' \<longleftrightarrow> k = k'"
  by (cases k; cases k') simp_all

lemma edge_key_fields:
  "split_on CHR '':'' (edge_key a b k) = [print_nat (min a b), print_nat (max a b), print_nat (kind_num k)]"
  by (auto simp: edge_key_def split_on_append split_on_no_delim print_nat_no_colon min_def max_def)

lemma edge_key_inj: "edge_key a b k = edge_key a' b' k' \<longleftrightarrow> ends_of a b k = ends_of a' b' k'"
proof
  assume "edge_key a b k = edge_key a' b' k'"
  then have "split_on CHR '':'' (edge_key a b k) = split_on CHR '':'' (edge_key a' b' k')" by simp
  then show "ends_of a b k = ends_of a' b' k'"
    by (simp add: edge_key_fields print_nat_inj kind_num_inj ends_of_def)
next
  assume "ends_of a b k = ends_of a' b' k'"
  then show "edge_key a b k = edge_key a' b' k'"
    by (auto simp: ends_of_def edge_key_def min_def max_def split: if_splits)
qed

section \<open>The invariant of an update\<close>

definition ids_ok :: "'f graph \<Rightarrow> bool" where
  "ids_ok g \<longleftrightarrow> gh_invar (gr_by_id g) \<and>
     (\<forall>i p. gh_lookup (gr_by_id g) i = Some p \<longleftrightarrow>
        0 < p \<and> p \<le> length (gr_nodes g) \<and> gn_id (gr_nodes g ! (p - 1)) = i) \<and>
     length (gr_nodes g) \<le> GRAPHCORE_MAX_NODES"

definition edge_ends :: "'f graph_edge \<Rightarrow> nat \<times> nat \<times> edge_kind" where
  "edge_ends e = ends_of (ge_a e) (ge_b e) (ge_kind e)"

definition edges_ok :: "'f graph \<Rightarrow> bool" where
  "edges_ok g \<longleftrightarrow>
     (\<forall>e \<in> set (gr_edges g). ge_a e < length (gr_nodes g) \<and> ge_b e < length (gr_nodes g) \<and>
        ge_a e \<noteq> ge_b e) \<and>
     distinct (map edge_ends (gr_edges g))"

definition seen_ok :: "'f graph \<Rightarrow> bool" where
  "seen_ok g \<longleftrightarrow> (\<exists>t. gr_edge_seen g = Some t \<and>
     (\<forall>a b k. gh_contains t (edge_key a b k) \<longleftrightarrow> ends_of a b k \<in> edge_ends ` set (gr_edges g)))"

definition positions_ok :: "'f graph \<Rightarrow> bool" where
  "positions_ok g \<longleftrightarrow> (\<forall>nd \<in> set (gr_nodes g).
     case inherited g (gn_id nd) of None \<Rightarrow> \<not> gn_placed nd
     | Some o1 \<Rightarrow> gn_placed nd \<and> gn_xyz nd = gn_xyz o1 \<and> gn_pinned nd = gn_pinned o1)"

definition update_ok :: "'f graph \<Rightarrow> bool" where
  "update_ok g \<longleftrightarrow> ids_ok g \<and> edges_ok g \<and> seen_ok g \<and> positions_ok g"

datatype 'f build_op =
    AddNode "string option" "string option" "string option" "string option" int int "32 word"
  | AddEdge "string option" "string option" edge_kind 'f
  | SetParent nat int

fun build_step :: "'f float_ops \<Rightarrow> 'f build_op \<Rightarrow> 'f graph \<Rightarrow> 'f graph" where
  "build_step FO (AddNode i t f gr l p c) g = snd (graph_add_node FO g i t f gr l p c)"
| "build_step FO (AddEdge a b k w) g = snd (graph_add_edge FO g a b k w)"
| "build_step FO (SetParent c p) g = snd (graph_set_parent g c p)"

lemma ids_ok_index:
  assumes "ids_ok g"
  shows "graph_index_of g (Some i) = int k \<longleftrightarrow> k < length (gr_nodes g) \<and> gn_id (gr_nodes g ! k) = i"
proof -
  have l: "gh_lookup (gr_by_id g) i = Some p \<longleftrightarrow>
      0 < p \<and> p \<le> length (gr_nodes g) \<and> gn_id (gr_nodes g ! (p - 1)) = i" for p
    using assms unfolding ids_ok_def by blast
  show ?thesis
  proof (cases "gh_lookup (gr_by_id g) i")
    case None
    then show ?thesis using l [of "Suc k"] by (auto simp: graph_index_of_def)
  next
    case (Some p)
    then have "graph_index_of g (Some i) = int k \<longleftrightarrow> p = Suc k" by (auto simp: graph_index_of_def)
    with Some l [of "Suc k"] show ?thesis by auto
  qed
qed

lemma begin_update_ok: "update_ok (graph_begin_update g)"
  by (auto simp: update_ok_def ids_ok_def edges_ok_def seen_ok_def positions_ok_def graph_begin_update_def)

lemma new_node_id [simp]: "gn_id (new_node FO g i t f gr l p c) = i"
  by (simp add: new_node_def Let_def split: option.splits)

lemma new_node_parent [simp]: "gn_parent (new_node FO g i t f gr l p c) = -1"
  by (simp add: new_node_def Let_def split: option.splits)

lemma new_node_position:
  "case inherited g i of None \<Rightarrow> \<not> gn_placed (new_node FO g i t f gr l p c)
   | Some o1 \<Rightarrow> gn_placed (new_node FO g i t f gr l p c) \<and> gn_xyz (new_node FO g i t f gr l p c) = gn_xyz o1
       \<and> gn_pinned (new_node FO g i t f gr l p c) = gn_pinned o1"
  by (simp add: new_node_def blank_node_def Let_def split: option.splits)

lemma inherited_cong:
  "gr_old_by_id g' = gr_old_by_id g \<Longrightarrow> gr_old_nodes g' = gr_old_nodes g \<Longrightarrow> inherited g' = inherited g"
  by (simp add: inherited_def fun_eq_iff split: option.split)

definition push_node :: "'f graph_node \<Rightarrow> 'f graph \<Rightarrow> 'f graph" where
  "push_node nd g = g\<lparr>gr_nodes := gr_nodes g @ [nd],
     gr_by_id := gh_replace (gn_id nd) (length (gr_nodes g) + 1) (gr_by_id g)\<rparr>"

lemma add_node_snd:
  "snd (graph_add_node FO g nid t f gr l p c) =
     (case nid of None \<Rightarrow> g
      | Some i \<Rightarrow>
          if i \<noteq> [] \<and> gh_lookup (gr_by_id g) i = None \<and> length (gr_nodes g) < GRAPHCORE_MAX_NODES
          then push_node (new_node FO g i t f gr l p c) g else g)"
  by (simp add: graph_add_node_def push_node_def nodes_full_def Let_def split: option.split)

lemma ids_ok_add:
  assumes "ids_ok g" "gh_lookup (gr_by_id g) i = None" "length (gr_nodes g) < GRAPHCORE_MAX_NODES"
    and "gn_id nd = i"
  shows "ids_ok (push_node nd g)"
proof -
  let ?n = "length (gr_nodes g)"
  have l: "gh_lookup (gr_by_id g) j = Some p \<longleftrightarrow>
      0 < p \<and> p \<le> ?n \<and> gn_id (gr_nodes g ! (p - 1)) = j" for j p
    using assms(1) unfolding ids_ok_def by blast
  have eq: "(if j = i then p = ?n + 1 else gh_lookup (gr_by_id g) j = Some p) \<longleftrightarrow>
      0 < p \<and> p \<le> ?n + 1 \<and> gn_id ((gr_nodes g @ [nd]) ! (p - 1)) = j" for j p
  proof (cases "p = ?n + 1")
    case True
    then show ?thesis using l [of j p] assms(4) by auto
  next
    case False
    then have "(gr_nodes g @ [nd]) ! (p - 1) = gr_nodes g ! (p - 1)" if "0 < p" "p \<le> ?n + 1"
      using that by (auto simp: nth_append)
    then show ?thesis using False l [of j p] l [of i p] assms(2) by (cases "0 < p \<and> p \<le> ?n") auto
  qed
  have "gh_lookup (gh_replace i (?n + 1) (gr_by_id g)) j = Some p \<longleftrightarrow>
      0 < p \<and> p \<le> ?n + 1 \<and> gn_id ((gr_nodes g @ [nd]) ! (p - 1)) = j" for j p
    unfolding eq [of j p, symmetric] by auto
  moreover have "gh_invar (gr_by_id g)" using assms(1) by (simp add: ids_ok_def)
  ultimately show ?thesis using assms(3,4) unfolding ids_ok_def push_node_def by simp
qed

lemma update_ok_push_node:
  assumes "update_ok g" "gh_lookup (gr_by_id g) i = None" "length (gr_nodes g) < GRAPHCORE_MAX_NODES"
  shows "update_ok (push_node (new_node FO g i t f gr l p c) g)"
proof -
  let ?g = "push_node (new_node FO g i t f gr l p c) g"
  have inh: "inherited ?g = inherited g" by (rule inherited_cong) (simp_all add: push_node_def)
  have "ids_ok ?g" using assms by (intro ids_ok_add) (auto simp: update_ok_def)
  moreover have "edges_ok ?g" "seen_ok ?g"
    using assms(1) by (auto simp: update_ok_def edges_ok_def seen_ok_def push_node_def less_Suc_eq)
  moreover have "positions_ok ?g"
    using assms(1) new_node_position [where FO = FO and g = g and i = i and t = t and f = f and gr = gr and l = l and p = p and c = c]
    unfolding update_ok_def positions_ok_def inh by (simp add: push_node_def)
  ultimately show ?thesis by (simp add: update_ok_def)
qed

lemma update_ok_add_node: "update_ok g \<Longrightarrow> update_ok (snd (graph_add_node FO g nid t f gr l p c))"
  by (auto simp: add_node_snd update_ok_push_node split: option.split)

definition edge_seen_p :: "'f graph \<Rightarrow> nat \<Rightarrow> nat \<Rightarrow> edge_kind \<Rightarrow> bool" where
  "edge_seen_p g a b k =
     (case gr_edge_seen g of None \<Rightarrow> False | Some t \<Rightarrow> gh_contains t (edge_key a b k))"

definition push_edge :: "'f float_ops \<Rightarrow> nat \<Rightarrow> nat \<Rightarrow> edge_kind \<Rightarrow> 'f \<Rightarrow> 'f graph \<Rightarrow> 'f graph" where
  "push_edge FO a b k w g =
     g\<lparr>gr_edge_seen := map_option (gh_replace (edge_key a b k) ()) (gr_edge_seen g),
       gr_edges := gr_edges g @ [\<lparr>ge_a = a, ge_b = b, ge_kind = k,
         ge_w = (if f_positive FO w then w else f_one FO)\<rparr>]\<rparr>"

lemma add_edge_eq:
  "graph_add_edge FO g x y k w =
     (if x \<noteq> None \<and> y \<noteq> None \<and> 0 \<le> graph_index_of g x \<and> 0 \<le> graph_index_of g y \<and>
         graph_index_of g x \<noteq> graph_index_of g y \<and>
         \<not> edge_seen_p g (nat (graph_index_of g x)) (nat (graph_index_of g y)) k
      then (True, push_edge FO (nat (graph_index_of g x)) (nat (graph_index_of g y)) k w g)
      else (False, g))"
proof (cases "x = None \<or> y = None")
  case True
  then show ?thesis by (auto simp: graph_add_edge_def)
next
  case False
  obtain a b where ab: "graph_index_of g x = a" "graph_index_of g y = b" by blast
  show ?thesis
    using False unfolding graph_add_edge_def Let_def ab push_edge_def edge_seen_p_def
    by (cases "a < 0 \<or> b < 0 \<or> a = b") auto
qed

lemma seen_iff:
  "update_ok g \<Longrightarrow> edge_seen_p g a b k \<longleftrightarrow> ends_of a b k \<in> edge_ends ` set (gr_edges g)"
  by (auto simp: update_ok_def seen_ok_def edge_seen_p_def)

lemma update_ok_push_edge:
  assumes "update_ok g" "a < length (gr_nodes g)" "b < length (gr_nodes g)" "a \<noteq> b"
    and "\<not> edge_seen_p g a b k"
  shows "update_ok (push_edge FO a b k w g)"
proof -
  let ?g = "push_edge FO a b k w g"
  have new: "ends_of a b k \<notin> edge_ends ` set (gr_edges g)" using assms(5) seen_iff [OF assms(1)] by blast
  obtain t where t: "gr_edge_seen g = Some t"
      "\<And>a b k. gh_contains t (edge_key a b k) \<longleftrightarrow> ends_of a b k \<in> edge_ends ` set (gr_edges g)"
    using assms(1) by (auto simp: update_ok_def seen_ok_def)
  have "edges_ok ?g"
    using assms(1-4) new by (auto simp: update_ok_def edges_ok_def edge_ends_def push_edge_def)
  moreover have "seen_ok ?g"
    using t by (auto simp: seen_ok_def push_edge_def edge_key_inj edge_ends_def)
  moreover have "ids_ok ?g" using assms(1) by (simp add: update_ok_def ids_ok_def push_edge_def)
  moreover have "inherited ?g = inherited g" by (rule inherited_cong) (simp_all add: push_edge_def)
  then have "positions_ok ?g"
    using assms(1) by (simp add: update_ok_def positions_ok_def push_edge_def)
  ultimately show ?thesis by (simp add: update_ok_def)
qed

lemma index_of_nonneg:
  assumes "ids_ok g" "0 \<le> graph_index_of g x"
  shows "nat (graph_index_of g x) < length (gr_nodes g)"
proof (cases x)
  case None
  with assms(2) show ?thesis by (simp add: graph_index_of_def)
next
  case (Some i)
  with assms(2) ids_ok_index [OF assms(1), of i "nat (graph_index_of g x)"] show ?thesis by simp
qed

lemma update_ok_add_edge: "update_ok g \<Longrightarrow> update_ok (snd (graph_add_edge FO g x y k w))"
  by (auto simp: add_edge_eq update_ok_def [of g] index_of_nonneg intro!: update_ok_push_edge)

lemma set_parent_cases:
  "snd (graph_set_parent g c p) = g \<or>
   snd (graph_set_parent g c p) = g\<lparr>gr_nodes := (gr_nodes g)[c := (gr_nodes g ! c)\<lparr>gn_parent := p\<rparr>]\<rparr>"
  by (auto simp: graph_set_parent_def Let_def)

lemma update_ok_set_parent: "update_ok g \<Longrightarrow> update_ok (snd (graph_set_parent g c p))"
proof -
  assume ok: "update_ok g"
  let ?g = "g\<lparr>gr_nodes := (gr_nodes g)[c := (gr_nodes g ! c)\<lparr>gn_parent := p\<rparr>]\<rparr>"
  have id: "gn_id ((gr_nodes g)[c := (gr_nodes g ! c)\<lparr>gn_parent := p\<rparr>] ! j) = gn_id (gr_nodes g ! j)"
    if "j < length (gr_nodes g)" for j
    using that by (cases "j = c") simp_all
  have "ids_ok ?g" using ok id by (auto simp: update_ok_def ids_ok_def)
  moreover have "positions_ok ?g"
  proof (cases "c < length (gr_nodes g)")
    case True
    then have mem: "gr_nodes g ! c \<in> set (gr_nodes g)" by simp
    have inh: "inherited ?g = inherited g" by (rule inherited_cong) simp_all
    from ok mem show ?thesis
      unfolding update_ok_def positions_ok_def inh
      by (auto dest!: set_update_subset_insert [THEN subsetD] cong: option.case_cong)
  next
    case False
    then have "?g = g" by (simp add: list_update_beyond)
    with ok show ?thesis by (simp add: update_ok_def)
  qed
  ultimately have "update_ok ?g"
    using ok by (auto simp: update_ok_def edges_ok_def seen_ok_def)
  then show ?thesis using ok set_parent_cases [of g c p] by auto
qed

lemma update_ok_step [inv_intros]: "update_ok g \<Longrightarrow> update_ok (build_step FO op g)"
  by (cases op) (simp_all add: update_ok_add_node update_ok_add_edge update_ok_set_parent)

lemma update_ok_build: "update_ok (fold (build_step FO) ops (graph_begin_update g))"
  by (rule fold_invariant [where Q = "\<lambda>_. True"]) (auto intro: begin_update_ok update_ok_step)


text \<open>The previous generation is held unchanged until \<^verbatim>\<open>finalize\<close>.\<close>

definition holds_old :: "'f graph \<Rightarrow> 'f graph \<Rightarrow> bool" where
  "holds_old g0 g \<longleftrightarrow> gr_old_nodes g = gr_nodes g0 \<and> gr_old_by_id g = Some (gr_by_id g0)"

lemma holds_old_step: "holds_old g0 g \<Longrightarrow> holds_old g0 (build_step FO op g)"
  by (cases op) (auto simp: holds_old_def add_node_snd add_edge_eq push_node_def push_edge_def
      graph_set_parent_def Let_def split: option.split)

lemma holds_old_build: "holds_old g (fold (build_step FO) ops (graph_begin_update g))"
proof -
  have "holds_old g (graph_begin_update g)" by (simp add: holds_old_def graph_begin_update_def)
  then show ?thesis
    by (intro fold_invariant [where Q = "\<lambda>_. True" and P = "holds_old g"]) (simp_all add: holds_old_step)
qed

lemma holds_old_inherited:
  assumes "holds_old g0 g" "ids_ok g0"
  shows "inherited g i = Some o1 \<longleftrightarrow> (\<exists>j < length (gr_nodes g0). gr_nodes g0 ! j = o1 \<and> gn_id o1 = i)"
proof -
  have l: "gh_lookup (gr_by_id g0) i = Some p \<longleftrightarrow>
      0 < p \<and> p \<le> length (gr_nodes g0) \<and> gn_id (gr_nodes g0 ! (p - 1)) = i" for p
    using assms(2) unfolding ids_ok_def by blast
  have "inherited g i = Some o1 \<longleftrightarrow>
      (\<exists>p. gh_lookup (gr_by_id g0) i = Some p \<and> gr_nodes g0 ! (p - 1) = o1)"
    using assms(1) by (auto simp: inherited_def holds_old_def split: option.split)
  also have "\<dots> \<longleftrightarrow> (\<exists>p. 0 < p \<and> p \<le> length (gr_nodes g0) \<and> gn_id o1 = i \<and> gr_nodes g0 ! (p - 1) = o1)"
    unfolding l by auto
  also have "\<dots> \<longleftrightarrow> (\<exists>j < length (gr_nodes g0). gr_nodes g0 ! j = o1 \<and> gn_id o1 = i)"
  proof
    assume "\<exists>p. 0 < p \<and> p \<le> length (gr_nodes g0) \<and> gn_id o1 = i \<and> gr_nodes g0 ! (p - 1) = o1"
    then obtain p where "0 < p" "p \<le> length (gr_nodes g0)" "gn_id o1 = i" "gr_nodes g0 ! (p - 1) = o1"
      by blast
    then show "\<exists>j < length (gr_nodes g0). gr_nodes g0 ! j = o1 \<and> gn_id o1 = i"
      by (intro exI [of _ "p - 1"]) auto
  next
    assume "\<exists>j < length (gr_nodes g0). gr_nodes g0 ! j = o1 \<and> gn_id o1 = i"
    then obtain j where "j < length (gr_nodes g0)" "gr_nodes g0 ! j = o1" "gn_id o1 = i" by blast
    then show "\<exists>p. 0 < p \<and> p \<le> length (gr_nodes g0) \<and> gn_id o1 = i \<and> gr_nodes g0 ! (p - 1) = o1"
      by (intro exI [of _ "Suc j"]) auto
  qed
  finally show ?thesis .
qed

definition ref_floats :: "int float_ops" where
  "ref_floats = \<lparr>f_zero = 0, f_one = 1, f_radius0 = 30, f_positive = (\<lambda>w. 0 < w),
     f_radius = (\<lambda>m c. 30), f_unit = (\<lambda>w. uint w)\<rparr>"

definition demo_graph :: "int graph" where
  "demo_graph = fold (build_step ref_floats)
     [AddNode (Some ''a'') (Some ''Alpha'') None None 0 1 0, AddNode (Some ''b'') None None None 0 1 0]
     (graph_begin_update (graph_new 7))"

lemma demo_graph_ids: "ids_ok demo_graph"
  using update_ok_build unfolding demo_graph_def update_ok_def by blast

text \<open>
  A refresh keeps identities and positions. Whatever nodes, edges and parents are
  added after \<^verbatim>\<open>begin_update\<close>, \<^verbatim>\<open>index_of\<close> answers the index of the one node with the asked id
  (and a negative number when there is none), the store never exceeds its cap, a node whose id
  the previous generation had carries over that node's coordinates and pin and is marked placed,
  and a node with a new id is not marked placed. The hypothesis says that the previous generation
  was itself well-formed, which every generation built this way is.
\<close>

theorem graph_refresh_keeps_identity:
  fixes FO :: "'f float_ops"
  assumes "ids_ok g" and "g' = fold (build_step FO) ops (graph_begin_update g)"
  shows "(graph_index_of g' (Some i) = int k \<longleftrightarrow> k < graph_n_nodes g' \<and> gn_id (gr_nodes g' ! k) = i) \<and>
    graph_n_nodes g' \<le> GRAPHCORE_MAX_NODES \<and>
    (k < graph_n_nodes g' \<longrightarrow> j < graph_n_nodes g \<longrightarrow> gn_id (gr_nodes g' ! k) = gn_id (gr_nodes g ! j)
      \<longrightarrow> gn_placed (gr_nodes g' ! k) \<and> gn_xyz (gr_nodes g' ! k) = gn_xyz (gr_nodes g ! j) \<and>
          gn_pinned (gr_nodes g' ! k) = gn_pinned (gr_nodes g ! j)) \<and>
    (k < graph_n_nodes g' \<longrightarrow> graph_index_of g (Some (gn_id (gr_nodes g' ! k))) < 0
      \<longrightarrow> \<not> gn_placed (gr_nodes g' ! k))"
proof -
  have ok: "ids_ok g'" "positions_ok g'" and old: "holds_old g g'"
    using update_ok_build [of FO ops g] holds_old_build [of g FO ops] assms(2) by (auto simp: update_ok_def)
  have p1: "graph_index_of g' (Some i) = int k \<longleftrightarrow> k < graph_n_nodes g' \<and> gn_id (gr_nodes g' ! k) = i"
    unfolding graph_n_nodes_def by (rule ids_ok_index [OF ok(1)])
  have p2: "graph_n_nodes g' \<le> GRAPHCORE_MAX_NODES" using ok(1) by (simp add: ids_ok_def graph_n_nodes_def)
  have pos: "case inherited g' (gn_id (gr_nodes g' ! k)) of None \<Rightarrow> \<not> gn_placed (gr_nodes g' ! k)
     | Some o1 \<Rightarrow> gn_placed (gr_nodes g' ! k) \<and> gn_xyz (gr_nodes g' ! k) = gn_xyz o1 \<and>
         gn_pinned (gr_nodes g' ! k) = gn_pinned o1" if "k < graph_n_nodes g'"
    using ok(2) that by (auto simp: positions_ok_def graph_n_nodes_def)
  have p3: "gn_placed (gr_nodes g' ! k) \<and> gn_xyz (gr_nodes g' ! k) = gn_xyz (gr_nodes g ! j) \<and>
      gn_pinned (gr_nodes g' ! k) = gn_pinned (gr_nodes g ! j)"
    if "k < graph_n_nodes g'" "j < graph_n_nodes g" "gn_id (gr_nodes g' ! k) = gn_id (gr_nodes g ! j)"
  proof -
    have "inherited g' (gn_id (gr_nodes g' ! k)) = Some (gr_nodes g ! j)"
      using that holds_old_inherited [OF old assms(1)] by (auto simp: graph_n_nodes_def)
    with pos [OF that(1)] show ?thesis by simp
  qed
  have p4: "\<not> gn_placed (gr_nodes g' ! k)"
    if "k < graph_n_nodes g'" "graph_index_of g (Some (gn_id (gr_nodes g' ! k))) < 0"
  proof -
    have "inherited g' (gn_id (gr_nodes g' ! k)) = None"
    proof (cases "inherited g' (gn_id (gr_nodes g' ! k))")
      case (Some o1)
      then obtain j where "j < length (gr_nodes g)" "gr_nodes g ! j = o1" "gn_id o1 = gn_id (gr_nodes g' ! k)"
        using holds_old_inherited [OF old assms(1), of "gn_id (gr_nodes g' ! k)" o1] by auto
      then have "graph_index_of g (Some (gn_id (gr_nodes g' ! k))) = int j"
        using ids_ok_index [OF assms(1)] by simp
      with that(2) show ?thesis by simp
    qed
    with pos [OF that(1)] show ?thesis by simp
  qed
  show ?thesis using p1 p2 p3 p4 by simp
qed

theorem graph_refresh_keeps_identity_witness:
  "let g' = fold (build_step ref_floats)
       [AddNode (Some ''c'') None None None 0 1 0, AddNode (Some ''b'') None None None 0 1 0]
       (graph_begin_update demo_graph)
   in graph_index_of g' (Some ''b'') = 1 \<and> gn_placed (gr_nodes g' ! 1) \<and> \<not> gn_placed (gr_nodes g' ! 0)"
proof -
  define ops where "ops = [AddNode (Some ''c'') None None None 0 1 0,
    AddNode (Some ''b'') None None None 0 1 0 :: int build_op]"
  define g' where "g' = fold (build_step ref_floats) ops (graph_begin_update demo_graph)"
  have ids: "map gn_id (gr_nodes g') = [''c'', ''b'']" unfolding g'_def ops_def by code_simp
  have old: "map gn_id (gr_nodes demo_graph) = [''a'', ''b'']" "graph_index_of demo_graph (Some ''c'') < 0"
    by code_simp+
  have "graph_n_nodes g' = 2" "gn_id (gr_nodes g' ! 1) = ''b''" "gn_id (gr_nodes g' ! 0) = ''c''"
      "graph_n_nodes demo_graph = 2" "gn_id (gr_nodes demo_graph ! 1) = ''b''"
    using arg_cong [OF ids, of length] arg_cong [OF ids, of "\<lambda>l. l ! 0"] arg_cong [OF ids, of "\<lambda>l. l ! 1"]
      arg_cong [OF old(1), of length] arg_cong [OF old(1), of "\<lambda>l. l ! 1"]
    by (simp_all add: graph_n_nodes_def)
  with old(2) have "graph_index_of g' (Some ''b'') = 1 \<and> gn_placed (gr_nodes g' ! 1) \<and> \<not> gn_placed (gr_nodes g' ! 0)"
    using graph_refresh_keeps_identity [OF demo_graph_ids g'_def, of "''b''" 1 1]
      graph_refresh_keeps_identity [OF demo_graph_ids g'_def, of "''b''" 0 1]
    by simp
  then show ?thesis unfolding g'_def ops_def Let_def .
qed

text \<open>
  Edges are simple. After \<^verbatim>\<open>begin_update\<close> and any additions every stored edge joins
  two distinct nodes of the store and no unordered pair is joined twice by edges of one kind. The
  next \<^verbatim>\<open>add_edge\<close> answers true exactly when both ids are known, differ, and are not yet joined by
  an edge of that kind in either direction; then it appends that edge, with a positive weight kept
  and any other weight replaced by one, and otherwise it changes nothing.
\<close>

theorem graph_edges_simple:
  fixes FO :: "'f float_ops"
  assumes "g' = fold (build_step FO) ops (graph_begin_update g)"
  shows "(\<forall>e \<in> set (gr_edges g').
      ge_a e < graph_n_nodes g' \<and> ge_b e < graph_n_nodes g' \<and> ge_a e \<noteq> ge_b e) \<and>
    distinct (map (\<lambda>e. ({ge_a e, ge_b e}, ge_kind e)) (gr_edges g')) \<and>
    (fst (graph_add_edge FO g' (Some x) (Some y) k w) \<longleftrightarrow>
      (\<exists>a b. graph_index_of g' (Some x) = int a \<and> graph_index_of g' (Some y) = int b \<and> a \<noteq> b \<and>
         \<not> (\<exists>e \<in> set (gr_edges g'). {ge_a e, ge_b e} = {a, b} \<and> ge_kind e = k))) \<and>
    (graph_add_edge FO g' (Some x) (Some y) k w = (True, g'') \<longrightarrow>
      gr_nodes g'' = gr_nodes g' \<and>
      gr_edges g'' = gr_edges g' @ [\<lparr>ge_a = nat (graph_index_of g' (Some x)),
         ge_b = nat (graph_index_of g' (Some y)), ge_kind = k,
         ge_w = (if f_positive FO w then w else f_one FO)\<rparr>]) \<and>
    (graph_add_edge FO g' (Some x) (Some y) k w = (False, g'') \<longrightarrow> g'' = g')"
proof -
  have ok: "update_ok g'" using update_ok_build assms by blast
  have pair: "ends_of a b k = ends_of a' b' k' \<longleftrightarrow> ({a, b}, k) = ({a', b'}, k')" for a b a' b' k k'
    by (auto simp: ends_of_def min_def max_def doubleton_eq_iff)
  have p1: "ge_a e < graph_n_nodes g' \<and> ge_b e < graph_n_nodes g' \<and> ge_a e \<noteq> ge_b e" if "e \<in> set (gr_edges g')" for e
    using ok that by (simp add: update_ok_def edges_ok_def graph_n_nodes_def)
  have p2: "distinct (map (\<lambda>e. ({ge_a e, ge_b e}, ge_kind e)) (gr_edges g'))"
    using ok pair by (simp add: update_ok_def edges_ok_def distinct_map edge_ends_def inj_on_def)
  have seen: "edge_seen_p g' a b k \<longleftrightarrow>
      (\<exists>e \<in> set (gr_edges g'). {ge_a e, ge_b e} = {a, b} \<and> ge_kind e = k)" for a b
    using seen_iff [OF ok] pair by (auto simp: edge_ends_def image_iff)
  have known: "(\<exists>a b. i = int a \<and> j = int b \<and> a \<noteq> b \<and> \<not> edge_seen_p g' a b k) \<longleftrightarrow>
      0 \<le> i \<and> 0 \<le> j \<and> i \<noteq> j \<and> \<not> edge_seen_p g' (nat i) (nat j) k" for i j :: int
    by (cases i; cases j) auto
  have p3: "fst (graph_add_edge FO g' (Some x) (Some y) k w) \<longleftrightarrow>
      (\<exists>a b. graph_index_of g' (Some x) = int a \<and> graph_index_of g' (Some y) = int b \<and> a \<noteq> b \<and>
         \<not> (\<exists>e \<in> set (gr_edges g'). {ge_a e, ge_b e} = {a, b} \<and> ge_kind e = k))"
    unfolding seen [symmetric] known by (simp add: add_edge_eq)
  have p4: "gr_nodes g'' = gr_nodes g' \<and>
      gr_edges g'' = gr_edges g' @ [\<lparr>ge_a = nat (graph_index_of g' (Some x)),
         ge_b = nat (graph_index_of g' (Some y)), ge_kind = k,
         ge_w = (if f_positive FO w then w else f_one FO)\<rparr>]"
    if "graph_add_edge FO g' (Some x) (Some y) k w = (True, g'')"
    using that by (auto simp: add_edge_eq push_edge_def split: if_splits)
  have p5: "g'' = g'" if "graph_add_edge FO g' (Some x) (Some y) k w = (False, g'')"
    using that by (auto simp: add_edge_eq split: if_splits)
  show ?thesis
    by (intro conjI ballI impI p2 p3 p4 [THEN conjunct1] p4 [THEN conjunct2] p5) (simp_all add: p1)
qed

theorem graph_edges_simple_witness:
  "let g' = fold (build_step ref_floats)
       [AddNode (Some ''a'') None None None 0 1 0, AddNode (Some ''b'') None None None 0 1 0,
        AddEdge (Some ''b'') (Some ''a'') EDGE_ID 0] (graph_begin_update (graph_new 7))
   in gr_edges g' = [\<lparr>ge_a = 1, ge_b = 0, ge_kind = EDGE_ID, ge_w = 1\<rparr>] \<and>
      \<not> fst (graph_add_edge ref_floats g' (Some ''a'') (Some ''b'') EDGE_ID 3) \<and>
      fst (graph_add_edge ref_floats g' (Some ''a'') (Some ''b'') EDGE_CITE 3)"
proof -
  define ops where "ops = [AddNode (Some ''a'') None None None 0 1 0,
    AddNode (Some ''b'') None None None 0 1 0, AddEdge (Some ''b'') (Some ''a'') EDGE_ID (0 :: int)]"
  define g' where "g' = fold (build_step ref_floats) ops (graph_begin_update (graph_new 7))"
  have "gr_edges g' = [\<lparr>ge_a = 1, ge_b = 0, ge_kind = EDGE_ID, ge_w = 1\<rparr>]"
      "graph_index_of g' (Some ''a'') = int 0" "graph_index_of g' (Some ''b'') = int 1"
    unfolding g'_def ops_def by code_simp+
  then have "gr_edges g' = [\<lparr>ge_a = 1, ge_b = 0, ge_kind = EDGE_ID, ge_w = 1\<rparr>] \<and>
      \<not> fst (graph_add_edge ref_floats g' (Some ''a'') (Some ''b'') EDGE_ID 3) \<and>
      fst (graph_add_edge ref_floats g' (Some ''a'') (Some ''b'') EDGE_CITE 3)"
    using graph_edges_simple [OF g'_def, THEN conjunct2, THEN conjunct2, THEN conjunct1, of "''a''" "''b''" EDGE_ID 3]
      graph_edges_simple [OF g'_def, THEN conjunct2, THEN conjunct2, THEN conjunct1, of "''a''" "''b''" EDGE_CITE 3]
    by (simp add: insert_commute)
  then show ?thesis unfolding g'_def ops_def Let_def .
qed

end
