(* ===== verification/Graph_Csr.thy ===== *)
theory Graph_Csr
  imports Graph_Store
begin

text \<open>
  \<^verbatim>\<open>cmacs_graph_finalize\<close>: the degrees, the slice offsets, the scatter of both directions of every
  edge into the slices, the sort of each slice and the flattened adjacency. Each edge gives two
  half edges, one per end; the slice of a node is the bucket of its half edges.
\<close>

section \<open>Fields a pass leaves alone\<close>

lemma list_update_map_id: "f x = f (xs ! i) \<Longrightarrow> map f (xs[i := x]) = map f xs"
  by (cases "i < length xs") (simp_all add: map_update list_update_same_conv list_update_beyond)

lemma count_edge_keeps:
  assumes "\<And>nd v. f (nd\<lparr>gn_in_deg := v\<rparr>) = f nd" "\<And>nd v. f (nd\<lparr>gn_out_deg := v\<rparr>) = f nd"
  shows "map f (fold count_edge es ns) = map f ns"
  by (induction es arbitrary: ns) (simp_all add: count_edge_def Let_def list_update_map_id assms)

lemma length_count_edge [simp]: "length (fold count_edge es ns) = length ns"
  by (induction es arbitrary: ns) (simp_all add: count_edge_def Let_def)

lemma assign_slices_keeps:
  assumes "\<And>nd v. f (nd\<lparr>gn_edge_first := v\<rparr>) = f nd" "\<And>nd v. f (nd\<lparr>gn_edge_count := v\<rparr>) = f nd"
  shows "map f (assign_slices off ns) = map f ns"
  by (induction ns arbitrary: off) (simp_all add: assms)

lemma length_assign_slices [simp]: "length (assign_slices off ns) = length ns"
  by (induction ns arbitrary: off) simp_all

lemma add_subtree_keeps:
  assumes "\<And>nd v. f (nd\<lparr>gn_descendants := v\<rparr>) = f nd"
  shows "map f (fold add_subtree idxs ns) = map f ns"
  by (induction idxs arbitrary: ns) (simp_all add: add_subtree_def Let_def list_update_map_id assms)

lemma recount_keeps:
  assumes "\<And>nd v. f (nd\<lparr>gn_descendants := v\<rparr>) = f nd"
  shows "map f (recount_descendants ns) = map f ns"
  by (simp add: recount_descendants_def Let_def add_subtree_keeps assms comp_def)

lemma refresh_keeps:
  assumes "\<And>nd v. f (nd\<lparr>gn_visible := v\<rparr>) = f nd"
  shows "map f (gr_nodes (graph_refresh_visibility g)) = map f (gr_nodes g)"
  by (simp add: graph_refresh_visibility_def comp_def assms)

section \<open>Degrees and offsets\<close>

definition half_edges :: "'f graph_node list \<Rightarrow> 'f graph_edge list \<Rightarrow> (nat \<times> slice_ent) list" where
  "half_edges ns es = concat (map (\<lambda>e.
     [(ge_a e, \<lparr>se_nb = ge_b e, se_dir = DIR_OUT, se_title = gn_title (ns ! ge_b e)\<rparr>),
      (ge_b e, \<lparr>se_nb = ge_a e, se_dir = DIR_IN, se_title = gn_title (ns ! ge_a e)\<rparr>)]) es)"

definition in_range :: "nat \<Rightarrow> 'f graph_edge list \<Rightarrow> bool" where
  "in_range n es \<longleftrightarrow> (\<forall>e \<in> set es. ge_a e < n \<and> ge_b e < n)"

lemma half_edges_keys: "in_range n es \<Longrightarrow> \<forall>x \<in> set (half_edges ns es). fst x < n"
  by (auto simp: half_edges_def in_range_def)

lemma half_edges_cong:
  "map gn_title ns = map gn_title ns' \<Longrightarrow> in_range (length ns) es \<Longrightarrow> half_edges ns es = half_edges ns' es"
  unfolding half_edges_def in_range_def
  by (intro arg_cong [where f = concat] map_cong refl) (metis length_map nth_map)

lemma count_edge_degrees:
  assumes "in_range (length ns) es" "i < length ns"
  shows "gn_out_deg (fold count_edge es ns ! i) = gn_out_deg (ns ! i) + length (filter (\<lambda>e. ge_a e = i) es)"
    and "gn_in_deg (fold count_edge es ns ! i) = gn_in_deg (ns ! i) + length (filter (\<lambda>e. ge_b e = i) es)"
  using assms
proof (induction es arbitrary: ns)
  case (Cons e es)
  {
    case 1
    then show ?case using Cons.IH(1) [of "count_edge e ns"]
      by (auto simp: in_range_def count_edge_def Let_def nth_list_update)
  next
    case 2
    then show ?case using Cons.IH(2) [of "count_edge e ns"]
      by (auto simp: in_range_def count_edge_def Let_def nth_list_update)
  }
qed simp_all

lemma length_bucket_half_edges:
  "length (bucket (half_edges ns es) i) =
     length (filter (\<lambda>e. ge_b e = i) es) + length (filter (\<lambda>e. ge_a e = i) es)"
  by (induction es) (auto simp: half_edges_def bucket_def)

lemma assign_slices_nth:
  "i < length ns \<Longrightarrow> assign_slices off ns ! i = (ns ! i)
     \<lparr>gn_edge_first := off + sum_list (map (\<lambda>nd. gn_in_deg nd + gn_out_deg nd) (take i ns)),
      gn_edge_count := gn_in_deg (ns ! i) + gn_out_deg (ns ! i)\<rparr>"
proof (induction ns arbitrary: off i)
  case (Cons nd ns)
  then show ?case by (cases i) simp_all
qed simp

text \<open>The nodes after step 2 of \<^verbatim>\<open>finalize\<close>.\<close>

definition sliced :: "'f graph \<Rightarrow> 'f graph_node list" where
  "sliced g = assign_slices 0 (fold count_edge (gr_edges g) (map reset_degrees (gr_nodes g)))"

definition halves :: "'f graph \<Rightarrow> (nat \<times> slice_ent) list" where
  "halves g = half_edges (gr_nodes g) (gr_edges g)"

lemma length_sliced [simp]: "length (sliced g) = length (gr_nodes g)"
  by (simp add: sliced_def)

lemma sliced_keeps:
  assumes "\<And>nd v. f (nd\<lparr>gn_in_deg := v\<rparr>) = f nd" "\<And>nd v. f (nd\<lparr>gn_out_deg := v\<rparr>) = f nd"
    and "\<And>nd v. f (nd\<lparr>gn_edge_first := v\<rparr>) = f nd" "\<And>nd v. f (nd\<lparr>gn_edge_count := v\<rparr>) = f nd"
  shows "map f (sliced g) = map f (gr_nodes g)"
  by (simp add: sliced_def assign_slices_keeps count_edge_keeps assms reset_degrees_def comp_def)

lemma sliced_fields:
  assumes r: "in_range (length (gr_nodes g)) (gr_edges g)" and i: "i < length (gr_nodes g)"
  shows "gn_out_deg (sliced g ! i) = length (filter (\<lambda>e. ge_a e = i) (gr_edges g))"
    and "gn_in_deg (sliced g ! i) = length (filter (\<lambda>e. ge_b e = i) (gr_edges g))"
    and "gn_edge_count (sliced g ! i) = length (bucket (halves g) i)"
    and "gn_edge_first (sliced g ! i) = bucket_start (halves g) i"
proof -
  let ?ns = "fold count_edge (gr_edges g) (map reset_degrees (gr_nodes g))"
  have d: "gn_out_deg (?ns ! j) = length (filter (\<lambda>e. ge_a e = j) (gr_edges g))"
      "gn_in_deg (?ns ! j) = length (filter (\<lambda>e. ge_b e = j) (gr_edges g))" if "j < length (gr_nodes g)" for j
    using count_edge_degrees [of "map reset_degrees (gr_nodes g)" "gr_edges g" j] that r
    by (simp_all add: reset_degrees_def)
  show "gn_out_deg (sliced g ! i) = length (filter (\<lambda>e. ge_a e = i) (gr_edges g))"
    and "gn_in_deg (sliced g ! i) = length (filter (\<lambda>e. ge_b e = i) (gr_edges g))"
    and "gn_edge_count (sliced g ! i) = length (bucket (halves g) i)"
    using i d [OF i] by (simp_all add: sliced_def assign_slices_nth halves_def length_bucket_half_edges)
  have "map (\<lambda>nd. gn_in_deg nd + gn_out_deg nd) (take i ?ns) = map (\<lambda>j. length (bucket (halves g) j)) [0..<i]"
    using i d by (intro nth_equalityI) (simp_all add: halves_def length_bucket_half_edges)
  then show "gn_edge_first (sliced g ! i) = bucket_start (halves g) i"
    using i by (simp add: sliced_def assign_slices_nth bucket_start_def)
qed

lemma slices_size_sliced:
  assumes "in_range (length (gr_nodes g)) (gr_edges g)"
  shows "slices_size (sliced g) = length (halves g)"
proof -
  have "map gn_edge_count (sliced g) = map (\<lambda>j. length (bucket (halves g) j)) [0..<length (gr_nodes g)]"
    using sliced_fields(3) [OF assms] by (intro nth_equalityI) simp_all
  then show ?thesis
    using bucket_start_total [OF half_edges_keys [OF assms]] by (simp add: slices_size_def bucket_start_def halves_def)
qed

section \<open>The scatter\<close>

definition cursor_rel ::
  "'f graph_node list \<Rightarrow> slice_ent list \<times> nat list \<Rightarrow> slice_ent list \<times> nat list \<Rightarrow> bool" where
  "cursor_rel ns st st' \<longleftrightarrow> fst st = fst st' \<and> length (snd st) = length ns \<and> length (snd st') = length ns \<and>
     (\<forall>k < length ns. snd st' ! k = gn_edge_first (ns ! k) + snd st ! k)"

lemma cursor_rel_step:
  "cursor_rel ns st st' \<Longrightarrow> ge_a e < length ns \<Longrightarrow> ge_b e < length ns \<Longrightarrow>
     cursor_rel ns (scatter_edge ns e st) (fold place (half_edges ns [e]) st')"
  by (cases st; cases st')
     (auto simp: cursor_rel_def scatter_edge_def place_def half_edges_def Let_def nth_list_update)

lemma half_edges_Cons: "half_edges ns (e # es) = half_edges ns [e] @ half_edges ns es"
  by (simp add: half_edges_def)

lemma cursor_rel_fold:
  "cursor_rel ns st st' \<Longrightarrow> in_range (length ns) es \<Longrightarrow>
     cursor_rel ns (fold (scatter_edge ns) es st) (fold place (half_edges ns es) st')"
proof (induction es arbitrary: st st')
  case (Cons e es)
  then have "cursor_rel ns (scatter_edge ns e st) (fold place (half_edges ns [e]) st')"
    by (intro cursor_rel_step) (auto simp: in_range_def)
  moreover have "in_range (length ns) es" using Cons.prems(2) by (simp add: in_range_def)
  ultimately show ?case using Cons.IH half_edges_Cons [of ns e es] by simp
qed (simp add: half_edges_def)

lemma scatter_slices:
  assumes r: "in_range (length (gr_nodes g)) (gr_edges g)" and i: "i < length (gr_nodes g)"
  shows "take (gn_edge_count (sliced g ! i)) (drop (gn_edge_first (sliced g ! i))
      (fst (fold (scatter_edge (sliced g)) (gr_edges g)
         (replicate (slices_size (sliced g)) z, replicate (length (sliced g)) 0)))) = bucket (halves g) i"
proof -
  let ?ns = "sliced g"
  let ?n = "length (gr_nodes g)"
  let ?arr = "replicate (slices_size ?ns) z"
  let ?b = "map (bucket_start (halves g)) [0..<?n]"
  have titles: "half_edges ?ns (gr_edges g) = halves g"
    unfolding halves_def using r by (intro half_edges_cong sliced_keeps) simp_all
  have "cursor_rel ?ns (?arr, replicate ?n 0) (?arr, ?b)"
    using sliced_fields(4) [OF r] by (simp add: cursor_rel_def)
  then have "cursor_rel ?ns (fold (scatter_edge ?ns) (gr_edges g) (?arr, replicate ?n 0))
      (fold place (halves g) (?arr, ?b))"
    using cursor_rel_fold [of ?ns _ _ "gr_edges g"] r titles by fastforce
  then have "fst (fold (scatter_edge ?ns) (gr_edges g) (?arr, replicate ?n 0)) =
      fst (fold place (halves g) (?arr, ?b))"
    by (simp add: cursor_rel_def)
  moreover have "take (length (bucket (halves g) i)) (drop (bucket_start (halves g) i)
      (fst (fold place (halves g) (?arr, ?b)))) = bucket (halves g) i"
    using half_edges_keys [OF r] i slices_size_sliced [OF r]
    by (intro scatter_buckets(2) [of "halves g" ?n]) (simp_all add: halves_def)
  ultimately show ?thesis using sliced_fields(3,4) [OF r i] by simp
qed

section \<open>Flattening\<close>

definition sorted_slice :: "'f graph \<Rightarrow> nat \<Rightarrow> slice_ent list" where
  "sorted_slice g i = qsort_by slice_cmp (bucket (halves g) i)"

lemma length_sorted_slice [simp]: "length (sorted_slice g i) = length (bucket (halves g) i)"
  by (simp add: sorted_slice_def)

lemma flatten_fst_snd:
  "fold (flatten_node sl) ns st =
     (fold (\<lambda>nd. write_at (gn_edge_first nd)
         (map se_nb (qsort_by slice_cmp (take (gn_edge_count nd) (drop (gn_edge_first nd) sl))))) ns (fst st),
      fold (\<lambda>nd. write_at (gn_edge_first nd)
         (map se_dir (qsort_by slice_cmp (take (gn_edge_count nd) (drop (gn_edge_first nd) sl))))) ns (snd st))"
  by (induction ns arbitrary: st) (simp_all add: flatten_node_def Let_def)

lemma fold_nth: "fold f xs a = fold (\<lambda>i. f (xs ! i)) [0..<length xs] a"
proof -
  have "fold f xs a = fold f (map ((!) xs) [0..<length xs]) a" by (simp add: map_nth)
  then show ?thesis by (simp only: fold_map comp_def)
qed

lemma flatten_slices:
  fixes h :: "slice_ent \<Rightarrow> nat"
  assumes r: "in_range (length (gr_nodes g)) (gr_edges g)" and i: "i < length (gr_nodes g)"
    and sl: "sl = fst (fold (scatter_edge (sliced g)) (gr_edges g)
         (replicate (slices_size (sliced g)) z, replicate (length (sliced g)) 0))"
    and arr: "length arr = slices_size (sliced g)"
  shows "take (gn_edge_count (sliced g ! i)) (drop (gn_edge_first (sliced g ! i))
      (fold (\<lambda>nd. write_at (gn_edge_first nd)
         (map h (qsort_by slice_cmp (take (gn_edge_count nd) (drop (gn_edge_first nd) sl))))) (sliced g) arr))
     = map h (sorted_slice g i)"
proof -
  let ?n = "length (gr_nodes g)"
  let ?s = "bucket_start (halves g)"
  let ?vs = "\<lambda>k. map h (sorted_slice g k)"
  let ?body = "\<lambda>nd. write_at (gn_edge_first nd)
      (map h (qsort_by slice_cmp (take (gn_edge_count nd) (drop (gn_edge_first nd) sl))))"
  have "fold ?body (sliced g) arr = fold (\<lambda>k. ?body (sliced g ! k)) [0..<?n] arr"
    by (subst fold_nth) simp
  also have "\<dots> = fold (\<lambda>k. write_at (?s k) (?vs k)) [0..<?n] arr"
  proof (rule fold_cong)
    fix k assume "k \<in> set [0..<?n]"
    then have k: "k < ?n" by simp
    show "?body (sliced g ! k) = write_at (?s k) (?vs k)"
      using scatter_slices [OF r k, of z] by (simp add: sl sorted_slice_def sliced_fields(4) [OF r k])
  qed simp_all
  finally have eq: "fold ?body (sliced g) arr = fold (\<lambda>k. write_at (?s k) (?vs k)) [0..<?n] arr" .
  have len: "length (?vs k) = length (bucket (halves g) k)" for k by simp
  have fits: "?s ?n \<le> length arr"
    using bucket_start_total [OF half_edges_keys [OF r]] slices_size_sliced [OF r] arr by (simp add: halves_def)
  show ?thesis
    unfolding eq sliced_fields(3,4) [OF r i] len [symmetric]
    using fits i by (intro write_all_stretch [where s = ?s and N = ?n]) (simp_all add: len bucket_start_def)
qed


section \<open>The order of a slice\<close>

lemma strcasecmp_minus: "g_ascii_strcasecmp a b = - g_ascii_strcasecmp b a"
  by (induction a b rule: g_ascii_strcasecmp.induct) (simp_all add: Let_def)

lemma char_pos:
  assumes "c \<noteq> NUL" shows "0 < (of_char c :: nat)"
proof -
  have "(of_char c :: nat) \<noteq> of_char NUL" using assms by (simp only: of_char_eq_iff not_False_eq_True)
  then show ?thesis by simp
qed

lemma strcasecmp_zero:
  "NUL \<notin> set a \<Longrightarrow> NUL \<notin> set b \<Longrightarrow>
     g_ascii_strcasecmp a b = 0 \<longleftrightarrow> map g_ascii_tolower a = map g_ascii_tolower b"
proof (induction a b rule: g_ascii_strcasecmp.induct)
  case (2 y ys)
  then show ?case using char_pos [of y] by auto
next
  case (3 x xs)
  then show ?case using char_pos [of x] by auto
qed (auto simp: Let_def of_char_eq_iff)

lemma strcasecmp_trans:
  "NUL \<notin> set a \<Longrightarrow> NUL \<notin> set b \<Longrightarrow> NUL \<notin> set c \<Longrightarrow>
     g_ascii_strcasecmp a b \<le> 0 \<Longrightarrow> g_ascii_strcasecmp b c \<le> 0 \<Longrightarrow>
     g_ascii_strcasecmp a c \<le> 0 \<and> (g_ascii_strcasecmp a c = 0 \<longrightarrow> g_ascii_strcasecmp a b = 0 \<and> g_ascii_strcasecmp b c = 0)"
proof (induction a b arbitrary: c rule: g_ascii_strcasecmp.induct)
  case 1
  then show ?case by simp
next
  case (2 y ys)
  then obtain z zs where "c = z # zs" using char_pos [of y] by (cases c) auto
  then show ?case using char_pos [of y] char_pos [of z] 2 by auto
next
  case (3 x xs)
  then show ?case using char_pos [of x] by auto
next
  case (4 x xs y ys)
  then obtain z zs where c: "c = z # zs" using char_pos [of y] by (cases c) auto
  define X Y Z where "X = (of_char (g_ascii_tolower x) :: nat)" and "Y = (of_char (g_ascii_tolower y) :: nat)"
    and "Z = (of_char (g_ascii_tolower z) :: nat)"
  note XYZ = X_def [symmetric] Y_def [symmetric] Z_def [symmetric]
  have IH: "g_ascii_strcasecmp xs zs \<le> 0 \<and>
      (g_ascii_strcasecmp xs zs = 0 \<longrightarrow> g_ascii_strcasecmp xs ys = 0 \<and> g_ascii_strcasecmp ys zs = 0)"
    if "X = Y" "g_ascii_strcasecmp xs ys \<le> 0" "g_ascii_strcasecmp ys zs \<le> 0"
    using "4.IH" [OF refl refl, of zs] that "4.prems"(1-3) by (simp add: c XYZ)
  have "g_ascii_strcasecmp (x # xs) (y # ys) = (if X \<noteq> Y then int X - int Y else g_ascii_strcasecmp xs ys)"
      "g_ascii_strcasecmp (y # ys) c = (if Y \<noteq> Z then int Y - int Z else g_ascii_strcasecmp ys zs)"
      "g_ascii_strcasecmp (x # xs) c = (if X \<noteq> Z then int X - int Z else g_ascii_strcasecmp xs zs)"
    by (simp_all add: c Let_def XYZ)
  then show ?case using IH "4.prems"(4,5) by (auto split: if_splits)
qed

definition titled :: "(nat \<Rightarrow> string) \<Rightarrow> slice_ent \<Rightarrow> bool" where
  "titled t x \<longleftrightarrow> se_title x = t (se_nb x) \<and> NUL \<notin> set (se_title x)"

lemma slice_cmp_le:
  "slice_cmp x y \<le> 0 \<longleftrightarrow> se_dir x < se_dir y \<or> se_dir x = se_dir y \<and>
     (g_ascii_strcasecmp (se_title x) (se_title y) < 0 \<or>
      g_ascii_strcasecmp (se_title x) (se_title y) = 0 \<and> se_nb x \<le> se_nb y)"
  by (auto simp: slice_cmp_def Let_def)

interpretation slice_order: c_total_comparison slice_cmp "titled t" for t
proof unfold_locales
  fix x y
  show "slice_cmp x y \<le> 0 \<or> slice_cmp y x \<le> 0"
    using strcasecmp_minus [of "se_title x" "se_title y"] by (auto simp: slice_cmp_le)
  assume "titled t x" "titled t y" "slice_cmp x y \<le> 0" "slice_cmp y x \<le> 0"
  then show "x = y"
    using strcasecmp_minus [of "se_title x" "se_title y"] by (auto simp: slice_cmp_le titled_def)
next
  fix x y z assume "titled t x" "titled t y" "titled t z" "slice_cmp x y \<le> 0" "slice_cmp y z \<le> 0"
  then show "slice_cmp x z \<le> 0"
    using strcasecmp_trans [of "se_title x" "se_title y" "se_title z"]
    by (auto simp: slice_cmp_le titled_def)
qed


section \<open>The adjacency after finalize\<close>

lemma finalize_keeps:
  assumes "\<And>nd v. f (nd\<lparr>gn_radius := v\<rparr>) = f nd" "\<And>nd v. f (nd\<lparr>gn_descendants := v\<rparr>) = f nd"
    and "\<And>nd v. f (nd\<lparr>gn_visible := v\<rparr>) = f nd"
  shows "map f (gr_nodes (graph_finalize FO g)) = map f (sliced g)"
  by (simp add: graph_finalize_def graph_reset_rand_def Let_def refresh_keeps recount_keeps assms
      sliced_def [symmetric] comp_def)

lemma length_finalize [simp]: "length (gr_nodes (graph_finalize FO g)) = length (gr_nodes g)"
  using arg_cong [OF finalize_keeps [of "\<lambda>_. ()" FO g], of length] by simp

lemma finalize_adj:
  fixes FO :: "'f float_ops"
  assumes r: "in_range (length (gr_nodes g)) (gr_edges g)" and i: "i < length (gr_nodes g)"
  shows "take (gn_edge_count (sliced g ! i)) (drop (gn_edge_first (sliced g ! i)) (gr_adj (graph_finalize FO g)))
      = map se_nb (sorted_slice g i)"
    and "take (gn_edge_count (sliced g ! i)) (drop (gn_edge_first (sliced g ! i)) (gr_adj_dir (graph_finalize FO g)))
      = map se_dir (sorted_slice g i)"
  by (simp_all add: graph_finalize_def graph_reset_rand_def graph_refresh_visibility_def Let_def
      sliced_def [symmetric] flatten_fst_snd flatten_slices [OF r i refl, simplified])

lemma neighbours_finalize:
  fixes FO :: "'f float_ops"
  assumes r: "in_range (length (gr_nodes g)) (gr_edges g)" and i: "i < length (gr_nodes g)"
  shows "graph_neighbours (graph_finalize FO g) i = map (\<lambda>x. (se_nb x, se_dir x)) (sorted_slice g i)"
proof -
  have same: "f (gr_nodes (graph_finalize FO g) ! i) = f (sliced g ! i)"
    if "map f (gr_nodes (graph_finalize FO g)) = map f (sliced g)" for f :: "'f graph_node \<Rightarrow> nat"
    using arg_cong [OF that, of "\<lambda>l. l ! i"] i by simp
  have "gn_edge_count (gr_nodes (graph_finalize FO g) ! i) = gn_edge_count (sliced g ! i)"
      "gn_edge_first (gr_nodes (graph_finalize FO g) ! i) = gn_edge_first (sliced g ! i)"
    by (rule same, rule finalize_keeps; simp)+
  then show ?thesis
    using i by (simp add: graph_neighbours_def graph_node_at_def finalize_adj [OF r i] zip_map_map
        zip_same_conv_map comp_def)
qed

definition incident :: "'f graph \<Rightarrow> nat \<Rightarrow> (nat \<times> nat) list" where
  "incident g i = map (\<lambda>e. (ge_b e, DIR_OUT)) (filter (\<lambda>e. ge_a e = i) (gr_edges g)) @
     map (\<lambda>e. (ge_a e, DIR_IN)) (filter (\<lambda>e. ge_b e = i) (gr_edges g))"

definition peer_entry :: "'f graph \<Rightarrow> nat \<times> nat \<Rightarrow> slice_ent" where
  "peer_entry g x = \<lparr>se_nb = fst x, se_dir = snd x, se_title = gn_title (gr_nodes g ! fst x)\<rparr>"

lemma bucket_half_edges_incident:
  "mset (map (\<lambda>x. (se_nb x, se_dir x)) (bucket (half_edges ns es) i)) =
     mset (map (\<lambda>e. (ge_b e, DIR_OUT)) (filter (\<lambda>e. ge_a e = i) es) @
       map (\<lambda>e. (ge_a e, DIR_IN)) (filter (\<lambda>e. ge_b e = i) es))"
  by (induction es) (auto simp: half_edges_def bucket_def)

lemma bucket_half_edges_mset:
  "mset (bucket (half_edges ns es) i) =
     image_mset (\<lambda>e. \<lparr>se_nb = ge_b e, se_dir = DIR_OUT, se_title = gn_title (ns ! ge_b e)\<rparr>)
       (filter_mset (\<lambda>e. ge_a e = i) (mset es)) +
     image_mset (\<lambda>e. \<lparr>se_nb = ge_a e, se_dir = DIR_IN, se_title = gn_title (ns ! ge_a e)\<rparr>)
       (filter_mset (\<lambda>e. ge_b e = i) (mset es))"
  by (induction es) (auto simp: half_edges_def bucket_def)

lemma bucket_titled:
  assumes "in_range (length ns) es" "\<forall>nd \<in> set ns. NUL \<notin> set (gn_title nd)" "x \<in> set (bucket (half_edges ns es) i)"
  shows "titled (\<lambda>k. gn_title (ns ! k)) x"
  using assms by (fastforce simp: half_edges_def bucket_def in_range_def titled_def)

lemma update_in_range: "update_ok g \<Longrightarrow> in_range (length (gr_nodes g)) (gr_edges g)"
  by (auto simp: update_ok_def edges_ok_def in_range_def)

text \<open>
  The order of a listing, stated on its own terms: forward links before backlinks, then the titles
  in dictionary order of their lower-cased bytes, then the index.
\<close>

definition folded_title :: "'f graph \<Rightarrow> nat \<Rightarrow> nat list" where
  "folded_title g k = map (\<lambda>c. of_char (g_ascii_tolower c)) (gn_title (gr_nodes g ! k))"

definition listed_before :: "'f graph \<Rightarrow> nat \<times> nat \<Rightarrow> nat \<times> nat \<Rightarrow> bool" where
  "listed_before g x y \<longleftrightarrow>
     snd x = DIR_OUT \<and> snd y = DIR_IN \<or>
     snd x = snd y \<and>
       (ord_class.lexordp (folded_title g (fst x)) (folded_title g (fst y)) \<or>
        folded_title g (fst x) = folded_title g (fst y) \<and> fst x \<le> fst y)"

lemma strcasecmp_lex:
  "NUL \<notin> set a \<Longrightarrow> NUL \<notin> set b \<Longrightarrow> g_ascii_strcasecmp a b < 0 \<longleftrightarrow>
     ord_class.lexordp (map (\<lambda>c. of_char (g_ascii_tolower c) :: nat) a) (map (\<lambda>c. of_char (g_ascii_tolower c)) b)"
proof (induction a b rule: g_ascii_strcasecmp.induct)
  case (2 y ys)
  then show ?case using char_pos [of y] by auto
next
  case (4 x xs y ys)
  let ?f = "\<lambda>c. of_char (g_ascii_tolower c) :: nat"
  show ?case using 4 by (cases "?f x" "?f y" rule: linorder_cases) (auto simp: Let_def)
qed simp_all

lemma peer_entry_cmp:
  assumes "NUL \<notin> set (gn_title (gr_nodes g ! fst x))" "NUL \<notin> set (gn_title (gr_nodes g ! fst y))"
    and "snd x = DIR_OUT \<or> snd x = DIR_IN" "snd y = DIR_OUT \<or> snd y = DIR_IN"
  shows "slice_cmp (peer_entry g x) (peer_entry g y) \<le> 0 \<longleftrightarrow> listed_before g x y"
proof -
  have "folded_title g (fst x) = folded_title g (fst y) \<longleftrightarrow>
      map g_ascii_tolower (gn_title (gr_nodes g ! fst x)) = map g_ascii_tolower (gn_title (gr_nodes g ! fst y))"
    unfolding folded_title_def by (simp add: list_eq_iff_nth_eq) (auto simp: of_char_eq_iff)
  then show ?thesis
    using assms strcasecmp_zero [OF assms(1,2)] strcasecmp_lex [OF assms(1,2)]
    by (auto simp: slice_cmp_le peer_entry_def listed_before_def folded_title_def)
qed

lemma incident_bounds:
  assumes "in_range (length (gr_nodes g)) (gr_edges g)" "x \<in> set (incident g i)"
  shows "fst x < length (gr_nodes g)" "snd x = DIR_OUT \<or> snd x = DIR_IN"
  using assms by (auto simp: incident_def in_range_def)

text \<open>In that order there is one listing of the ends of a node's edges, and it is the slice.\<close>

lemma neighbours_unique:
  fixes FO :: "'f float_ops"
  assumes r: "in_range (length (gr_nodes g)) (gr_edges g)" and i: "i < length (gr_nodes g)"
    and clean: "\<forall>nd \<in> set (gr_nodes g). NUL \<notin> set (gn_title nd)"
  shows "mset ys = mset (incident g i) \<and> sorted_wrt (listed_before g) ys \<longleftrightarrow>
    ys = graph_neighbours (graph_finalize FO g) i"
proof -
  let ?t = "\<lambda>k. gn_title (gr_nodes g ! k)" and ?p = "\<lambda>x. (se_nb x, se_dir x)"
  have nb: "graph_neighbours (graph_finalize FO g) i = map ?p (sorted_slice g i)" by (rule neighbours_finalize [OF r i])
  have bm: "image_mset ?p (mset (bucket (halves g) i)) = mset (incident g i)"
    using bucket_half_edges_incident [of "gr_nodes g" "gr_edges g" i] by (simp add: halves_def incident_def)
  have tt: "titled ?t x" if "x \<in> set (bucket (halves g) i)" for x
    using bucket_titled [OF r clean] that by (simp add: halves_def)
  have peer: "peer_entry g (?p x) = x" if "x \<in> set (bucket (halves g) i)" for x
    using tt [OF that] by (simp add: peer_entry_def titled_def)
  have srt: "sorted_wrt (\<lambda>x y. slice_cmp (peer_entry g x) (peer_entry g y) \<le> 0) zs \<longleftrightarrow> sorted_wrt (listed_before g) zs"
    if "mset zs = mset (incident g i)" for zs
  proof -
    have b: "NUL \<notin> set (gn_title (gr_nodes g ! fst x)) \<and> (snd x = DIR_OUT \<or> snd x = DIR_IN)" if "x \<in> set zs" for x
      using incident_bounds [OF r, of x i] clean that mset_eq_setD [OF \<open>mset zs = mset (incident g i)\<close>] by auto
    have eq: "slice_cmp (peer_entry g x) (peer_entry g y) \<le> 0 \<longleftrightarrow> listed_before g x y" if "x \<in> set zs" "y \<in> set zs" for x y
      using b [OF that(1)] b [OF that(2)] by (intro peer_entry_cmp) simp_all
    show ?thesis by (intro iffI; erule sorted_wrt_mono_rel [rotated]; simp add: eq)
  qed
  have slice: "mset (map ?p (sorted_slice g i)) = mset (incident g i)" using bm by (simp add: sorted_slice_def)
  have id: "map (peer_entry g) (map ?p (sorted_slice g i)) = sorted_slice g i"
    unfolding map_map by (rule map_idI) (use peer in \<open>simp add: sorted_slice_def\<close>)
  have "sorted_wrt (\<lambda>x y. slice_cmp x y \<le> 0) (sorted_slice g i)"
    unfolding sorted_slice_def using tt by (rule slice_order.qsort_sorted)
  then have "sorted_wrt (\<lambda>x y. slice_cmp x y \<le> 0) (map (peer_entry g) (map ?p (sorted_slice g i)))" unfolding id .
  then have "sorted_wrt (\<lambda>x y. slice_cmp (peer_entry g x) (peer_entry g y) \<le> 0) (map ?p (sorted_slice g i))"
    by (simp only: sorted_wrt_map)
  then have own: "sorted_wrt (listed_before g) (map ?p (sorted_slice g i))" using srt [OF slice] by blast
  have "ys = map ?p (sorted_slice g i)" if y: "mset ys = mset (incident g i)" "sorted_wrt (listed_before g) ys"
  proof -
    have "mset (map (peer_entry g) ys) = image_mset (peer_entry g) (image_mset ?p (mset (bucket (halves g) i)))"
      by (simp add: y(1) bm)
    also have "\<dots> = mset (bucket (halves g) i)" unfolding multiset.map_comp
      by (rule trans [OF image_mset_cong multiset.map_ident]) (use peer in auto)
    finally have "qsort_by slice_cmp (bucket (halves g) i) = map (peer_entry g) ys"
      using srt [OF y(1)] y(2) tt by (intro slice_order.qsort_unique [where t = ?t]) (auto simp: sorted_wrt_map)
    then have "map ?p (sorted_slice g i) = map ?p (map (peer_entry g) ys)" by (simp add: sorted_slice_def)
    then show ?thesis by (simp add: peer_entry_def comp_def)
  qed
  then show ?thesis using own slice unfolding nb by blast
qed

text \<open>
  Property (C26). The compressed adjacency is exact. After an update and \<^verbatim>\<open>finalize\<close> the slice that
  \<^verbatim>\<open>neighbours\<close> returns for a node holds precisely the ends of its edges, forward links and
  backlinks with multiplicity, and the stored degrees count them. When no title holds a NUL byte (as C
  strings do not), the slice is the one and only list of these ends that has the forward links before the
  backlinks, among each the titles in dictionary order of their lower-cased bytes, and equal
  titles by index: any correct sort returns it, and the order in which the edges were
  added does not show.
\<close>

theorem graph_adjacency_exact:
  fixes FO :: "'f float_ops"
  assumes "g = fold (build_step FO) ops (graph_begin_update g0)" and "i < graph_n_nodes g"
  shows "mset (graph_neighbours (graph_finalize FO g) i) = mset (incident g i) \<and>
    gn_out_deg (gr_nodes (graph_finalize FO g) ! i) = length (filter (\<lambda>e. ge_a e = i) (gr_edges g)) \<and>
    gn_in_deg (gr_nodes (graph_finalize FO g) ! i) = length (filter (\<lambda>e. ge_b e = i) (gr_edges g)) \<and>
    ((\<forall>nd \<in> set (gr_nodes g). NUL \<notin> set (gn_title nd)) \<longrightarrow>
      (\<forall>ys. mset ys = mset (incident g i) \<and> sorted_wrt (listed_before g) ys \<longleftrightarrow>
         ys = graph_neighbours (graph_finalize FO g) i) \<and>
      (gr_nodes h = gr_nodes g \<longrightarrow> mset (gr_edges h) = mset (gr_edges g) \<longrightarrow>
        graph_neighbours (graph_finalize FO h) i = graph_neighbours (graph_finalize FO g) i))"
proof (intro conjI impI allI)
  have r: "in_range (length (gr_nodes g)) (gr_edges g)"
    using update_ok_build [of FO ops g0] assms(1) update_in_range by blast
  have i: "i < length (gr_nodes g)" using assms(2) by (simp add: graph_n_nodes_def)
  show "mset (graph_neighbours (graph_finalize FO g) i) = mset (incident g i)"
    using bucket_half_edges_incident [of "gr_nodes g" "gr_edges g" i]
    by (simp add: neighbours_finalize [OF r i] sorted_slice_def halves_def incident_def)
  have deg: "gn_out_deg (gr_nodes (graph_finalize FO g) ! i) = gn_out_deg (sliced g ! i)"
      "gn_in_deg (gr_nodes (graph_finalize FO g) ! i) = gn_in_deg (sliced g ! i)"
    using arg_cong [OF finalize_keeps [of gn_out_deg FO g], of "\<lambda>l. l ! i"]
      arg_cong [OF finalize_keeps [of gn_in_deg FO g], of "\<lambda>l. l ! i"] i by simp_all
  then show "gn_out_deg (gr_nodes (graph_finalize FO g) ! i) = length (filter (\<lambda>e. ge_a e = i) (gr_edges g))"
    and "gn_in_deg (gr_nodes (graph_finalize FO g) ! i) = length (filter (\<lambda>e. ge_b e = i) (gr_edges g))"
    using sliced_fields(1,2) [OF r i] by simp_all
  assume clean: "\<forall>nd \<in> set (gr_nodes g). NUL \<notin> set (gn_title nd)"
  note u = neighbours_unique [OF r i clean, of _ FO]
  show "mset ys = mset (incident g i) \<and> sorted_wrt (listed_before g) ys \<longleftrightarrow> ys = graph_neighbours (graph_finalize FO g) i" for ys
    by (rule u)
  assume h: "gr_nodes h = gr_nodes g" "mset (gr_edges h) = mset (gr_edges g)"
  have rh: "in_range (length (gr_nodes h)) (gr_edges h)" "i < length (gr_nodes h)"
    using r i h(1) mset_eq_setD [OF h(2)] by (simp_all add: in_range_def)
  have "mset (incident h i) = mset (incident g i)"
    using h(2) by (simp add: incident_def)
  moreover have "listed_before h = listed_before g" by (simp add: fun_eq_iff listed_before_def folded_title_def h(1))
  ultimately show "graph_neighbours (graph_finalize FO h) i = graph_neighbours (graph_finalize FO g) i"
    using neighbours_unique [OF rh, of "graph_neighbours (graph_finalize FO h) i" FO] clean h(1) u by metis
qed

definition star_ops :: "int build_op list" where
  "star_ops = [AddNode (Some ''a'') (Some ''Zed'') None None 0 1 0, AddNode (Some ''b'') None None None 0 1 0,
     AddNode (Some ''c'') (Some ''ace'') None None 0 1 0, AddEdge (Some ''b'') (Some ''a'') EDGE_ID 0,
     AddEdge (Some ''b'') (Some ''c'') EDGE_ID 0]"

theorem graph_adjacency_exact_witness:
  "graph_neighbours (graph_finalize ref_floats
     (fold (build_step ref_floats) star_ops (graph_begin_update (graph_new 7)))) 1 = [(2, 0), (0, 0)]"
proof -
  define g where "g = fold (build_step ref_floats) star_ops (graph_begin_update (graph_new 7))"
  have t: "map gn_title (gr_nodes g) = [''Zed'', ''b'', ''ace'']" unfolding g_def by code_simp
  have inc: "incident g 1 = [(0, 0), (2, 0)]" unfolding g_def by code_simp
  have "list_all (\<lambda>s. NUL \<notin> set s) (map gn_title (gr_nodes g))" unfolding t by simp
  then have c: "\<forall>nd \<in> set (gr_nodes g). NUL \<notin> set (gn_title nd)" by (simp only: list_all_iff set_map ball_simps)
  have n: "1 < graph_n_nodes g" "length (gr_nodes g) = 3" using arg_cong [OF t, of length] by (simp_all add: graph_n_nodes_def)
  have "gn_title (gr_nodes g ! 2) = ''ace''" "gn_title (gr_nodes g ! 0) = ''Zed''"
    using arg_cong [OF t, of "\<lambda>l. l ! 2"] arg_cong [OF t, of "\<lambda>l. l ! 0"] n(2) by simp_all
  then have "folded_title g 2 = [97, 99, 101]" "folded_title g 0 = [122, 101, 100]"
    by (simp_all add: folded_title_def g_ascii_tolower_def)
  then have "sorted_wrt (listed_before g) [(2, 0), (0, 0)]" by (simp add: listed_before_def)
  moreover have "mset [(2, 0), (0, 0)] = mset (incident g 1)" unfolding inc by simp
  ultimately have "mset [(2, 0), (0, 0)] = mset (incident g 1) \<and> sorted_wrt (listed_before g) [(2, 0), (0, 0)]" by (rule conjI [rotated])
  then have "[(2, 0), (0, 0)] = graph_neighbours (graph_finalize ref_floats g) 1"
    by (rule graph_adjacency_exact [OF g_def n(1), of g, THEN conjunct2, THEN conjunct2, THEN conjunct2, THEN mp, OF c, THEN conjunct1,
          THEN spec, THEN iffD1])
  then show ?thesis unfolding g_def by (rule sym)
qed

end
