(* ===== verification/Graph_Tree.thy ===== *)
theory Graph_Tree
  imports Graph_Csr
begin

text \<open>
  The hierarchy of the graph store: \<^verbatim>\<open>set_parent\<close> keeps the parent links a forest, so the guarded
  upward walks never run into their guards; visibility is the absence of a collapsed ancestor; the
  stored descendant counts are the sizes of the subtrees.
\<close>

section \<open>Parent links\<close>

definition parent_rel :: "'f graph_node list \<Rightarrow> (nat \<times> nat) set" where
  "parent_rel ns = {(i, j). i < length ns \<and> gn_parent (ns ! i) = int j}"

definition forest :: "'f graph_node list \<Rightarrow> bool" where
  "forest ns \<longleftrightarrow> (\<forall>nd \<in> set ns. gn_parent nd < int (length ns)) \<and> acyclic (parent_rel ns)"

lemma parent_rel_cong: "map gn_parent ns = map gn_parent ns' \<Longrightarrow> parent_rel ns = parent_rel ns'"
proof -
  assume eq: "map gn_parent ns = map gn_parent ns'"
  have len: "length ns = length ns'" using arg_cong [OF eq, of length] by simp
  have "gn_parent (ns ! i) = gn_parent (ns' ! i)" if "i < length ns" for i
    using arg_cong [OF eq, of "\<lambda>l. l ! i"] that len by simp
  then show ?thesis using len by (auto simp: parent_rel_def)
qed

lemma forest_cong:
  assumes "map gn_parent ns = map gn_parent ns'" shows "forest ns \<longleftrightarrow> forest ns'"
proof -
  have "gn_parent ` set ns = gn_parent ` set ns'" by (metis assms set_map)
  then have "(\<forall>nd \<in> set ns. gn_parent nd < int (length ns)) \<longleftrightarrow> (\<forall>nd \<in> set ns'. gn_parent nd < int (length ns'))"
    using arg_cong [OF assms, of length] by (force simp: image_iff)
  then show ?thesis by (simp add: forest_def parent_rel_cong [OF assms])
qed

lemma single_valued_parent: "single_valued (parent_rel ns)"
  by (auto simp: single_valued_def parent_rel_def)

lemma parent_relI: "i < length ns \<Longrightarrow> 0 \<le> gn_parent (ns ! i) \<Longrightarrow> (i, nat (gn_parent (ns ! i))) \<in> parent_rel ns"
  by (simp add: parent_rel_def)

lemma parent_relD: "(i, j) \<in> parent_rel ns \<Longrightarrow> i < length ns \<and> gn_parent (ns ! i) = int j"
  by (simp add: parent_rel_def)

lemma forest_parent_lt:
  assumes "forest ns" "(i, j) \<in> parent_rel ns" shows "j < length ns"
proof -
  have "gn_parent (ns ! i) < int (length ns)" using assms by (auto simp: forest_def dest!: parent_relD)
  with assms(2) show ?thesis by (auto dest: parent_relD)
qed

lemma parent_rel_trancl_lt:
  assumes "(i, j) \<in> (parent_rel ns)\<^sup>+" "forest ns" shows "i < length ns \<and> j < length ns"
  using assms by (induction rule: trancl_induct) (auto dest: parent_relD forest_parent_lt)

text \<open>The number of proper ancestors.\<close>

definition n_above :: "'f graph_node list \<Rightarrow> nat \<Rightarrow> nat" where
  "n_above ns i = card ((parent_rel ns)\<^sup>+ `` {i})"

lemma finite_above: "forest ns \<Longrightarrow> finite ((parent_rel ns)\<^sup>+ `` {i})"
  by (rule finite_subset [of _ "{..<length ns}"]) (auto dest: parent_rel_trancl_lt)

lemma above_root: "gn_parent (ns ! i) < 0 \<Longrightarrow> n_above ns i = 0"
proof -
  assume "gn_parent (ns ! i) < 0"
  then have "(i, j) \<notin> (parent_rel ns)\<^sup>+" for j
    using tranclD [of i j "parent_rel ns"] by (auto dest!: parent_relD)
  then have "(parent_rel ns)\<^sup>+ `` {i} = {}" by blast
  then show ?thesis by (simp add: n_above_def)
qed

lemma above_step:
  assumes f: "forest ns" and p: "(i, j) \<in> parent_rel ns"
  shows "n_above ns i = Suc (n_above ns j)"
proof -
  have "(i, k) \<in> (parent_rel ns)\<^sup>+ \<longleftrightarrow> k = j \<or> (j, k) \<in> (parent_rel ns)\<^sup>+" for k
  proof
    assume "(i, k) \<in> (parent_rel ns)\<^sup>+"
    then obtain j' where "(i, j') \<in> parent_rel ns" "(j', k) \<in> (parent_rel ns)\<^sup>*" by (blast dest: tranclD)
    moreover from this p have "j' = j" by (simp add: parent_rel_def)
    ultimately show "k = j \<or> (j, k) \<in> (parent_rel ns)\<^sup>+" by (simp add: rtrancl_eq_or_trancl) blast
  next
    assume "k = j \<or> (j, k) \<in> (parent_rel ns)\<^sup>+"
    with p show "(i, k) \<in> (parent_rel ns)\<^sup>+" by (blast intro: trancl_into_trancl2)
  qed
  then have "(parent_rel ns)\<^sup>+ `` {i} = insert j ((parent_rel ns)\<^sup>+ `` {j})" by auto
  moreover have "j \<notin> (parent_rel ns)\<^sup>+ `` {j}" using f by (auto simp: forest_def acyclic_def)
  ultimately show ?thesis using finite_above [OF f] by (simp add: n_above_def)
qed

lemma above_less:
  assumes f: "forest ns" and i: "i < length ns" shows "n_above ns i < length ns"
proof -
  have "(parent_rel ns)\<^sup>+ `` {i} \<subseteq> {..<length ns} - {i}"
    using f by (auto simp: forest_def acyclic_def dest: parent_rel_trancl_lt [OF _ f])
  then have "n_above ns i \<le> card ({..<length ns} - {i})"
    unfolding n_above_def by (intro card_mono) auto
  also have "\<dots> < length ns" using i by (simp add: card_Diff_singleton_if)
  finally show ?thesis .
qed

section \<open>The guarded walks\<close>

lemma parent_cases:
  assumes "forest ns" "j < length ns"
  obtains (root) "parent_of ns (int j) < 0" "\<And>k. (j, k) \<notin> parent_rel ns"
  | (up) p where "parent_of ns (int j) = int p" "p < length ns" "(j, p) \<in> parent_rel ns" "n_above ns j = Suc (n_above ns p)"
proof (cases "parent_of ns (int j) < 0")
  case True
  then show ?thesis using root by (simp add: parent_of_def parent_rel_def)
next
  case False
  then have "(j, nat (parent_of ns (int j))) \<in> parent_rel ns"
    using assms(2) parent_relI [of j ns] by (simp add: parent_of_def)
  then show ?thesis
    using up [of "nat (parent_of ns (int j))"] False forest_parent_lt [OF assms(1)] above_step [OF assms(1)] by simp
qed

lemma depth_walk_above:
  "forest ns \<Longrightarrow> j < length ns \<Longrightarrow> n_above ns j < K \<Longrightarrow> depth_walk ns K (int j) = Suc (n_above ns j)"
proof (induction K arbitrary: j)
  case (Suc K)
  show ?case
    using Suc.prems(1,2)
  proof (cases rule: parent_cases)
    case root
    then have "n_above ns j = 0" using above_root [of ns j] by (simp add: parent_of_def)
    moreover have "depth_walk ns K (parent_of ns (int j)) = 0" using root(1) by (cases K) simp_all
    ultimately show ?thesis by simp
  next
    case (up p)
    then show ?thesis using Suc.IH [of p] Suc.prems by simp
  qed
qed simp

lemma rtrancl_parent:
  "(j, p) \<in> parent_rel ns \<Longrightarrow> (j, k) \<in> (parent_rel ns)\<^sup>* \<longleftrightarrow> k = j \<or> (p, k) \<in> (parent_rel ns)\<^sup>*"
proof
  assume p: "(j, p) \<in> parent_rel ns" and "(j, k) \<in> (parent_rel ns)\<^sup>*"
  from this(2) show "k = j \<or> (p, k) \<in> (parent_rel ns)\<^sup>*"
  proof (cases rule: converse_rtranclE)
    case (step z)
    then have "z = p" using p by (simp add: parent_rel_def)
    with step show ?thesis by simp
  qed simp
qed (auto intro: converse_rtrancl_into_rtrancl)

lemma rtrancl_root: "(\<And>k. (j, k) \<notin> parent_rel ns) \<Longrightarrow> (j, k) \<in> (parent_rel ns)\<^sup>* \<longleftrightarrow> k = j"
  by (auto elim: converse_rtranclE)

lemma cycle_walk_iff:
  "forest ns \<Longrightarrow> j < length ns \<Longrightarrow> n_above ns j < K \<Longrightarrow> cycle_walk ns K c (int j) \<longleftrightarrow> (j, c) \<in> (parent_rel ns)\<^sup>*"
proof (induction K arbitrary: j)
  case (Suc K)
  show ?case
    using Suc.prems(1,2)
  proof (cases rule: parent_cases)
    case root
    then have "\<not> cycle_walk ns K c (parent_of ns (int j))" by (cases K) simp_all
    then show ?thesis using rtrancl_root [OF root(2)] by auto
  next
    case (up p)
    then show ?thesis using Suc.IH [of p] Suc.prems rtrancl_parent [OF up(3), of c] by auto
  qed
qed simp

lemma visible_walk_iff:
  "forest ns \<Longrightarrow> j < length ns \<Longrightarrow> n_above ns j < K \<Longrightarrow>
     visible_walk ns K (int j) \<longleftrightarrow> (\<forall>k. (j, k) \<in> (parent_rel ns)\<^sup>* \<longrightarrow> \<not> gn_collapsed (ns ! k))"
proof (induction K arbitrary: j)
  case (Suc K)
  show ?case
    using Suc.prems(1,2)
  proof (cases rule: parent_cases)
    case root
    then have "visible_walk ns K (parent_of ns (int j))" by (cases K) simp_all
    then show ?thesis using rtrancl_root [OF root(2)] by auto
  next
    case (up p)
    then show ?thesis using Suc.IH [of p] Suc.prems rtrancl_parent [OF up(3)] by auto
  qed
qed simp

section \<open>Every operation keeps the forest\<close>

lemma set_parent_accepts:
  assumes "forest (gr_nodes g)"
  shows "fst (graph_set_parent g c p) \<longleftrightarrow> c < length (gr_nodes g) \<and>
     (p < 0 \<or> p < int (length (gr_nodes g)) \<and> (nat p, c) \<notin> (parent_rel (gr_nodes g))\<^sup>*)"
proof (cases "p < 0")
  case True
  then show ?thesis by (auto simp: graph_set_parent_def Let_def)
next
  case False
  then obtain j where p: "p = int j" by (metis nonneg_int_cases not_less)
  show ?thesis
  proof (cases "j < length (gr_nodes g)")
    case True
    have walk: "cycle_walk (gr_nodes g) (length (gr_nodes g) + 1) c (int j) \<longleftrightarrow> (j, c) \<in> (parent_rel (gr_nodes g))\<^sup>*"
      using above_less [OF assms True] by (intro cycle_walk_iff [OF assms True]) simp
    show ?thesis using True p unfolding graph_set_parent_def Let_def walk [folded p] by auto
  next
    case False
    with p show ?thesis by (auto simp: graph_set_parent_def Let_def)
  qed
qed

lemma forest_set_parent:
  assumes "forest (gr_nodes g)" shows "forest (gr_nodes (snd (graph_set_parent g c p)))"
proof (cases "fst (graph_set_parent g c p)")
  case False
  then have "snd (graph_set_parent g c p) = g" by (auto simp: graph_set_parent_def Let_def split: if_splits)
  with assms show ?thesis by simp
next
  case True
  let ?ns = "gr_nodes g"
  let ?ns' = "?ns[c := (?ns ! c)\<lparr>gn_parent := p\<rparr>]"
  have eq: "gr_nodes (snd (graph_set_parent g c p)) = ?ns'"
    using True by (auto simp: graph_set_parent_def Let_def split: if_splits)
  have acc: "c < length ?ns" "p < 0 \<or> p < int (length ?ns) \<and> (nat p, c) \<notin> (parent_rel ?ns)\<^sup>*"
    using True set_parent_accepts [OF assms] by blast+
  have "gn_parent nd < int (length ?ns)" if "nd \<in> set ?ns'" for nd
  proof -
    have "nd = (?ns ! c)\<lparr>gn_parent := p\<rparr> \<or> nd \<in> set ?ns"
      using that set_update_subset_insert [of ?ns c] by blast
    then show ?thesis using acc assms by (auto simp: forest_def)
  qed
  moreover have "parent_rel ?ns' \<subseteq> (if p < 0 then parent_rel ?ns else insert (c, nat p) (parent_rel ?ns))"
    using acc(1) by (auto simp: parent_rel_def nth_list_update split: if_splits)
  then have "acyclic (parent_rel ?ns')"
    using acc(2) assms by (auto simp: forest_def acyclic_insert split: if_splits intro: acyclic_subset)
  ultimately show ?thesis by (simp add: eq forest_def)
qed

lemma forest_push:
  assumes "forest ns" "gn_parent nd = -1" shows "forest (ns @ [nd])"
proof -
  have "parent_rel (ns @ [nd]) = parent_rel ns"
    using assms(2) by (auto simp: parent_rel_def nth_append less_Suc_eq split: if_splits)
  then show ?thesis using assms by (auto simp: forest_def)
qed

lemma forest_build: "forest (gr_nodes g) \<Longrightarrow> forest (gr_nodes (build_step FO op g))"
  by (cases op) (auto simp: add_node_snd add_edge_eq push_node_def push_edge_def forest_push forest_set_parent
      split: option.split)


datatype 'f graph_op =
    Begin | Build "'f build_op" | Finalize | SetCollapsed nat bool | CollapseAll bool | Refresh | Rand

fun graph_step :: "'f float_ops \<Rightarrow> 'f graph_op \<Rightarrow> 'f graph \<Rightarrow> 'f graph" where
  "graph_step FO Begin g = graph_begin_update g"
| "graph_step FO (Build op) g = build_step FO op g"
| "graph_step FO Finalize g = graph_finalize FO g"
| "graph_step FO (SetCollapsed i c) g = snd (graph_set_collapsed g i c)"
| "graph_step FO (CollapseAll c) g = graph_collapse_all g c"
| "graph_step FO Refresh g = graph_refresh_visibility g"
| "graph_step FO Rand g = snd (graph_rand FO g)"

lemma finalize_parents: "map gn_parent (gr_nodes (graph_finalize FO g)) = map gn_parent (gr_nodes g)"
  by (simp add: finalize_keeps sliced_keeps)

lemma refresh_parents: "map gn_parent (gr_nodes (graph_refresh_visibility g)) = map gn_parent (gr_nodes g)"
  by (rule refresh_keeps) simp

lemma set_collapsed_parents: "map gn_parent (gr_nodes (snd (graph_set_collapsed g i c))) = map gn_parent (gr_nodes g)"
  by (simp add: graph_set_collapsed_def refresh_parents list_update_map_id)

lemma collapse_all_parents: "map gn_parent (gr_nodes (graph_collapse_all g c)) = map gn_parent (gr_nodes g)"
  by (simp add: graph_collapse_all_def refresh_parents if_distrib [of gn_parent] comp_def cong: if_cong)

lemma forest_empty: "forest []"
  by (simp add: forest_def parent_rel_def acyclic_def)

lemma forest_step: "forest (gr_nodes g) \<Longrightarrow> forest (gr_nodes (graph_step FO op g))"
proof (cases op)
  case Begin
  then show ?thesis by (simp add: graph_begin_update_def forest_empty)
next
  case Rand
  then show "forest (gr_nodes g) \<Longrightarrow> ?thesis" by (simp add: graph_rand_def Let_def)
qed (simp_all add: forest_build forest_cong [OF finalize_parents] forest_cong [OF set_collapsed_parents]
    forest_cong [OF collapse_all_parents] forest_cong [OF refresh_parents])

lemma graph_new_nodes [simp]: "gr_nodes (graph_new seed) = []"
  by (simp add: graph_new_def graph_reset_rand_def)

text \<open>The store as a machine every event of which is accepted; the forest is its invariant.\<close>

interpretation store: event_machine "\<lambda>op g. Some (graph_step FO op g)" "\<lambda>g. forest (gr_nodes g)" for FO
  by unfold_locales (auto intro: forest_step)

lemma run_total: "run_events (\<lambda>op g. Some (graph_step FO op g)) ops g = Some (fold (graph_step FO) ops g)"
  by (induction ops arbitrary: g) simp_all

lemma reachable_forest: "forest (gr_nodes (fold (graph_step FO) ops (graph_new seed)))"
  by (rule store.inv_run [OF run_total]) (simp add: forest_empty)

lemma ancestor_root:
  "forest ns \<Longrightarrow> j < length ns \<Longrightarrow> (parent_of ns ^^ Suc (n_above ns j)) (int j) < 0"
proof (induction "n_above ns j" arbitrary: j)
  case 0
  from 0(2,3) show ?case
  proof (cases rule: parent_cases)
    case root
    with 0(1) show ?thesis by simp
  next
    case (up p)
    with 0(1) show ?thesis by simp
  qed
next
  case (Suc k)
  from Suc(3,4) show ?case
  proof (cases rule: parent_cases)
    case root
    then have "n_above ns j = 0" using above_root [of ns j] by (simp add: parent_of_def)
    with Suc(2) show ?thesis by simp
  next
    case (up p)
    then have "(parent_of ns ^^ Suc (n_above ns p)) (int p) < 0" using Suc by simp
    with up show ?thesis by (simp add: funpow_swap1)
  qed
qed

text \<open>
  Property (C27). The hierarchy never contains a cycle, whatever sequence of operations built it:
  from every node the parent links lead to a root after at most as many steps as there are nodes,
  so no upward walk of the file is ever stopped by its guard. \<^verbatim>\<open>set_parent\<close> is exact about it: it
  accepts a parent precisely when the child is a node and the parent is either negative or a node
  that is neither the child itself nor below it; then it changes the child's parent and nothing
  else, and a refusal changes nothing.
\<close>

theorem graph_hierarchy_acyclic:
  fixes FO :: "'f float_ops"
  assumes "g = fold (graph_step FO) ops (graph_new seed)"
  shows "(\<forall>i < graph_n_nodes g. \<exists>k \<le> graph_n_nodes g. (parent_of (gr_nodes g) ^^ k) (int i) < 0) \<and>
    (fst (graph_set_parent g c p) \<longleftrightarrow> c < graph_n_nodes g \<and>
      (p < 0 \<or> p < int (graph_n_nodes g) \<and> (nat p, c) \<notin> (parent_rel (gr_nodes g))\<^sup>*)) \<and>
    snd (graph_set_parent g c p) =
      (if fst (graph_set_parent g c p)
       then g\<lparr>gr_nodes := (gr_nodes g)[c := (gr_nodes g ! c)\<lparr>gn_parent := p\<rparr>]\<rparr> else g)"
proof (intro conjI allI impI)
  have f: "forest (gr_nodes g)" using reachable_forest assms by blast
  show "\<exists>k \<le> graph_n_nodes g. (parent_of (gr_nodes g) ^^ k) (int i) < 0" if "i < graph_n_nodes g" for i
    using ancestor_root [OF f] Suc_leI [OF above_less [OF f]] that unfolding graph_n_nodes_def by blast
  show "fst (graph_set_parent g c p) \<longleftrightarrow> c < graph_n_nodes g \<and>
      (p < 0 \<or> p < int (graph_n_nodes g) \<and> (nat p, c) \<notin> (parent_rel (gr_nodes g))\<^sup>*)"
    using set_parent_accepts [OF f] by (simp add: graph_n_nodes_def)
  show "snd (graph_set_parent g c p) =
      (if fst (graph_set_parent g c p)
       then g\<lparr>gr_nodes := (gr_nodes g)[c := (gr_nodes g ! c)\<lparr>gn_parent := p\<rparr>]\<rparr> else g)"
    by (simp add: graph_set_parent_def Let_def)
qed

definition chain_ops :: "int graph_op list" where
  "chain_ops = [Begin, Build (AddNode (Some ''a'') None None None 0 1 0), Build (AddNode (Some ''b'') None None None 0 1 0),
     Build (AddNode (Some ''c'') None None None 0 1 0), Build (SetParent 1 0), Build (SetParent 2 1)]"

theorem graph_hierarchy_acyclic_witness:
  "\<not> fst (graph_set_parent (fold (graph_step ref_floats) chain_ops (graph_new 7)) 0 2) \<and>
   (\<exists>k \<le> 3. (parent_of (gr_nodes (fold (graph_step ref_floats) chain_ops (graph_new 7))) ^^ k) 2 < 0)"
proof -
  define g where "g = fold (graph_step ref_floats) chain_ops (graph_new 7)"
  have par: "map gn_parent (gr_nodes g) = [-1, 0, 1]" unfolding g_def by code_simp
  then have n: "length (gr_nodes g) = 3" using length_map [of gn_parent "gr_nodes g"] by simp
  have "gn_parent (gr_nodes g ! 1) = 0" "gn_parent (gr_nodes g ! 2) = 1"
    using arg_cong [OF par, of "\<lambda>l. l ! 1"] arg_cong [OF par, of "\<lambda>l. l ! 2"] n by simp_all
  then have "(2, 1) \<in> parent_rel (gr_nodes g)" "(1, 0) \<in> parent_rel (gr_nodes g)"
    using n by (simp_all add: parent_rel_def)
  then have "(2, 0) \<in> (parent_rel (gr_nodes g))\<^sup>*" by (meson rtrancl.simps r_into_rtrancl)
  then have "\<not> fst (graph_set_parent g 0 2) \<and> (\<exists>k \<le> 3. (parent_of (gr_nodes g) ^^ k) 2 < 0)"
    using graph_hierarchy_acyclic [OF g_def, of 0 2] graph_hierarchy_acyclic [OF g_def, THEN conjunct1, rule_format, of 2] n
    by (simp add: graph_n_nodes_def)
  then show ?thesis unfolding g_def .
qed


section \<open>Visibility\<close>

definition visible_ok :: "'f graph \<Rightarrow> bool" where
  "visible_ok g \<longleftrightarrow> (\<forall>i < length (gr_nodes g). gn_visible (gr_nodes g ! i) \<longleftrightarrow>
     (\<forall>k. (i, k) \<in> (parent_rel (gr_nodes g))\<^sup>+ \<longrightarrow> \<not> gn_collapsed (gr_nodes g ! k)))"

lemma trancl_parent:
  assumes "(j, p) \<in> parent_rel ns" shows "(j, k) \<in> (parent_rel ns)\<^sup>+ \<longleftrightarrow> (p, k) \<in> (parent_rel ns)\<^sup>*"
proof
  assume "(j, k) \<in> (parent_rel ns)\<^sup>+"
  then obtain z where "(j, z) \<in> parent_rel ns" "(z, k) \<in> (parent_rel ns)\<^sup>*" by (blast dest: tranclD)
  moreover from this assms have "z = p" by (simp add: parent_rel_def)
  ultimately show "(p, k) \<in> (parent_rel ns)\<^sup>*" by simp
qed (rule rtrancl_into_trancl2 [OF assms])

lemma visible_walk_parent:
  assumes f: "forest ns" and i: "i < length ns"
  shows "visible_walk ns (length ns + 1) (gn_parent (ns ! i)) \<longleftrightarrow>
     (\<forall>k. (i, k) \<in> (parent_rel ns)\<^sup>+ \<longrightarrow> \<not> gn_collapsed (ns ! k))"
  using f i
proof (cases rule: parent_cases)
  case root
  then have "(i, k) \<notin> (parent_rel ns)\<^sup>+" for k by (blast dest: tranclD)
  with root show ?thesis by (simp add: parent_of_def)
next
  case (up p)
  have "visible_walk ns (length ns + 1) (int p) \<longleftrightarrow> (\<forall>k. (p, k) \<in> (parent_rel ns)\<^sup>* \<longrightarrow> \<not> gn_collapsed (ns ! k))"
    using above_less [OF f up(2)] by (intro visible_walk_iff [OF f up(2)]) simp
  then show ?thesis using up(1) trancl_parent [OF up(3)] by (simp add: parent_of_def)
qed

lemma refresh_visible_ok:
  assumes f: "forest (gr_nodes g)" shows "visible_ok (graph_refresh_visibility g)"
proof -
  let ?g = "graph_refresh_visibility g"
  have rel: "parent_rel (gr_nodes ?g) = parent_rel (gr_nodes g)" by (rule parent_rel_cong [OF refresh_parents])
  have col: "gn_collapsed (gr_nodes ?g ! k) = gn_collapsed (gr_nodes g ! k)" if "k < length (gr_nodes g)" for k
    using that by (simp add: graph_refresh_visibility_def)
  have "gn_visible (gr_nodes ?g ! i) \<longleftrightarrow>
      (\<forall>k. (i, k) \<in> (parent_rel (gr_nodes g))\<^sup>+ \<longrightarrow> \<not> gn_collapsed (gr_nodes g ! k))"
    if "i < length (gr_nodes g)" for i
    using that visible_walk_parent [OF f that] by (simp add: graph_refresh_visibility_def)
  then show ?thesis
    using col parent_rel_trancl_lt [OF _ f] unfolding visible_ok_def rel by (auto simp: graph_refresh_visibility_def)
qed

lemma finalize_visible_ok:
  fixes FO :: "'f float_ops"
  assumes "forest (gr_nodes g)" shows "visible_ok (graph_finalize FO g)"
proof -
  let ?h = "graph_finalize FO g"
  obtain h where h: "gr_nodes ?h = gr_nodes (graph_refresh_visibility h)" "map gn_parent (gr_nodes h) = map gn_parent (gr_nodes g)"
    by (rule that [of "g\<lparr>gr_nodes := recount_descendants (map (\<lambda>nd. nd\<lparr>gn_radius := f_radius FO
          (fold (\<lambda>nd m. if gn_edge_count nd > m then gn_edge_count nd else m) (sliced g) 0) (gn_edge_count nd)\<rparr>) (sliced g))\<rparr>"])
       (simp_all add: graph_finalize_def graph_reset_rand_def graph_refresh_visibility_def Let_def
          sliced_def [symmetric] recount_keeps sliced_keeps comp_def)
  have "forest (gr_nodes h)" using assms forest_cong [OF h(2)] by simp
  then have "visible_ok (graph_refresh_visibility h)" by (rule refresh_visible_ok)
  then show ?thesis by (simp add: visible_ok_def h(1))
qed

text \<open>The operations that only fold and unfold.\<close>

fun folding :: "'f graph_op \<Rightarrow> bool" where
  "folding (SetCollapsed i c) = True"
| "folding (CollapseAll c) = True"
| "folding Refresh = True"
| "folding Rand = True"
| "folding _ = False"

lemma visible_ok_step:
  assumes "folding op" "forest (gr_nodes g)" "visible_ok g"
  shows "visible_ok (graph_step FO op g)"
  using assms
proof (cases op)
  case (SetCollapsed i c)
  have "forest (gr_nodes (g\<lparr>gr_nodes := (gr_nodes g)[i := (gr_nodes g ! i)\<lparr>gn_collapsed := c\<rparr>]\<rparr>))"
    using assms(2) forest_cong [of "(gr_nodes g)[i := (gr_nodes g ! i)\<lparr>gn_collapsed := c\<rparr>]" "gr_nodes g"]
    by (simp add: list_update_map_id)
  then show ?thesis using SetCollapsed assms(3) by (simp add: graph_set_collapsed_def refresh_visible_ok)
next
  case (CollapseAll c)
  let ?h = "g\<lparr>gr_nodes := map (\<lambda>nd. if gn_descendants nd > 0 then nd\<lparr>gn_collapsed := c\<rparr> else nd) (gr_nodes g)\<rparr>"
  have "map gn_parent (gr_nodes ?h) = map gn_parent (gr_nodes g)"
    by (simp add: if_distrib [of gn_parent] comp_def cong: if_cong)
  then have "forest (gr_nodes ?h)" using assms(2) forest_cong by blast
  then show ?thesis using CollapseAll by (simp add: graph_collapse_all_def refresh_visible_ok)
next
  case Refresh
  then show ?thesis using assms(2) by (simp add: refresh_visible_ok)
next
  case Rand
  then show ?thesis using assms(3) by (simp add: graph_rand_def Let_def visible_ok_def)
qed simp_all

lemma folding_keeps_visible:
  assumes "list_all folding fs" "forest (gr_nodes g)" "visible_ok g"
  shows "forest (gr_nodes (fold (graph_step FO) fs g)) \<and> visible_ok (fold (graph_step FO) fs g)"
  using assms by (induction fs arbitrary: g) (simp_all add: forest_step visible_ok_step)

text \<open>
  Property (C28). Folding hides exactly the subtrees below folded nodes. After any history ending in
  a \<^verbatim>\<open>finalize\<close>, and after any further calls of \<^verbatim>\<open>set_collapsed\<close>, \<^verbatim>\<open>collapse_all\<close> and
  \<^verbatim>\<open>refresh_visibility\<close>, a node is marked visible if and only if none of its proper ancestors is
  collapsed (its own fold hides only what is below it), and \<^verbatim>\<open>n_visible\<close> counts those nodes.
\<close>

theorem graph_visibility_exact:
  fixes FO :: "'f float_ops"
  assumes "list_all folding fs" and "g = fold (graph_step FO) (ops @ [Finalize] @ fs) (graph_new seed)"
  shows "(\<forall>i < graph_n_nodes g. gn_visible (gr_nodes g ! i) \<longleftrightarrow>
      (\<forall>k. (i, k) \<in> (parent_rel (gr_nodes g))\<^sup>+ \<longrightarrow> \<not> gn_collapsed (gr_nodes g ! k))) \<and>
    graph_n_visible g = card {i. i < graph_n_nodes g \<and>
      (\<forall>k. (i, k) \<in> (parent_rel (gr_nodes g))\<^sup>+ \<longrightarrow> \<not> gn_collapsed (gr_nodes g ! k))}"
proof (intro conjI allI impI)
  let ?g0 = "fold (graph_step FO) ops (graph_new seed)"
  have "forest (gr_nodes ?g0)" by (rule reachable_forest)
  then have "forest (gr_nodes (graph_finalize FO ?g0))" "visible_ok (graph_finalize FO ?g0)"
    by (simp_all add: forest_cong [OF finalize_parents] finalize_visible_ok)
  from folding_keeps_visible [OF assms(1) this] have ok: "visible_ok g" using assms(2) by simp
  then show "gn_visible (gr_nodes g ! i) \<longleftrightarrow>
      (\<forall>k. (i, k) \<in> (parent_rel (gr_nodes g))\<^sup>+ \<longrightarrow> \<not> gn_collapsed (gr_nodes g ! k))" if "i < graph_n_nodes g" for i
    using that by (simp add: visible_ok_def graph_n_nodes_def)
  have "graph_n_visible g = card {i. i < graph_n_nodes g \<and> gn_visible (gr_nodes g ! i)}"
    by (simp add: graph_n_visible_def graph_n_nodes_def length_filter_conv_card)
  also have "{i. i < graph_n_nodes g \<and> gn_visible (gr_nodes g ! i)} = {i. i < graph_n_nodes g \<and>
      (\<forall>k. (i, k) \<in> (parent_rel (gr_nodes g))\<^sup>+ \<longrightarrow> \<not> gn_collapsed (gr_nodes g ! k))}"
    using ok by (auto simp: visible_ok_def graph_n_nodes_def)
  finally show "graph_n_visible g = card {i. i < graph_n_nodes g \<and>
      (\<forall>k. (i, k) \<in> (parent_rel (gr_nodes g))\<^sup>+ \<longrightarrow> \<not> gn_collapsed (gr_nodes g ! k))}" .
qed

theorem graph_visibility_exact_witness:
  "\<not> gn_visible (gr_nodes (fold (graph_step ref_floats) (chain_ops @ [Finalize] @ [SetCollapsed 0 True]) (graph_new 7)) ! 1)"
proof -
  define g where "g = fold (graph_step ref_floats) (chain_ops @ [Finalize] @ [SetCollapsed 0 True]) (graph_new 7)"
  have par: "map (\<lambda>nd. (gn_parent nd, gn_collapsed nd)) (gr_nodes g) = [(-1, True), (0, False), (1, False)]"
    unfolding g_def by code_simp
  then have n: "length (gr_nodes g) = 3" using length_map [of "\<lambda>nd. (gn_parent nd, gn_collapsed nd)" "gr_nodes g"] by simp
  have "gn_parent (gr_nodes g ! 1) = 0" "gn_collapsed (gr_nodes g ! 0)"
    using arg_cong [OF par, of "\<lambda>l. l ! 1"] arg_cong [OF par, of "\<lambda>l. l ! 0"] n by simp_all
  moreover from this have "(1, 0) \<in> (parent_rel (gr_nodes g))\<^sup>+" using n by (intro r_into_trancl) (simp add: parent_rel_def)
  moreover have "1 < graph_n_nodes g" using n by (simp add: graph_n_nodes_def)
  moreover have "list_all folding [SetCollapsed 0 True :: int graph_op]" by simp
  ultimately have "\<not> gn_visible (gr_nodes g ! 1)"
    using graph_visibility_exact [OF _ g_def] by blast
  then show ?thesis unfolding g_def .
qed

end
