(* ===== verification/Graph_Count.thy ===== *)
theory Graph_Count
  imports Graph_Tree
begin

text \<open>
  \<^verbatim>\<open>graph_recount_descendants\<close>: the counting sort by depth visits every node once, children before
  parents, so the single bottom-up pass leaves each node with the size of its subtree.
\<close>

section \<open>The counting sort\<close>

lemma length_count_fold [simp]:
  "length (fold (\<lambda>d b. b[f d := Suc (b ! f d)]) ds b) = length b"
  by (induction ds arbitrary: b) simp_all

lemma count_fold_nth:
  "k < length b \<Longrightarrow> fold (\<lambda>d b. b[f d := Suc (b ! f d)]) ds b ! k = b ! k + length (filter (\<lambda>d. f d = k) ds)"
proof (induction ds arbitrary: b)
  case (Cons d ds)
  then show ?case by (cases "f d = k") (simp_all add: nth_list_update)
qed simp

lemma fold_max_ge: "d \<in> set ds \<Longrightarrow> d \<le> fold max ds (m :: nat)" "m \<le> fold max ds (m :: nat)"
proof (induction ds arbitrary: m)
  case (Cons x ds)
  { case 1
    then show ?case using Cons.IH(1) [of "max x m"] Cons.IH(2) [of "max x m"] by auto
  next
    case 2
    show ?case using Cons.IH(2) [of "max x m"] by simp }
qed simp_all

definition depth_items :: "nat list \<Rightarrow> (nat \<times> nat) list" where
  "depth_items depth = map (\<lambda>i. (fold max depth 0 - depth ! i, i)) [0..<length depth]"

lemma bucket_depth_items:
  "bucket (depth_items depth) k = filter (\<lambda>i. fold max depth 0 - depth ! i = k) [0..<length depth]"
  by (simp add: bucket_def depth_items_def filter_map comp_def)

lemma length_filter_nth: "length (filter (\<lambda>i. P (xs ! i)) [0..<length xs]) = length (filter P xs)"
proof -
  have "filter P xs = filter P (map ((!) xs) [0..<length xs])" by (simp add: map_nth)
  then show ?thesis by (simp add: filter_map comp_def)
qed

lemma depth_order_buckets:
  "depth_order depth = concat (map (bucket (depth_items depth)) [0..<Suc (fold max depth 0)])"
proof -
  let ?m = "fold max depth 0"
  let ?n = "length depth"
  let ?c = "fold (\<lambda>d b. b[?m - d := Suc (b ! (?m - d))]) depth (replicate (?m + 2) 0)"
  let ?b = "bucket_starts 0 (take (?m + 1) ?c) @ drop (?m + 1) ?c"
  have cnt: "?c ! k = length (bucket (depth_items depth) k)" if "k < ?m + 2" for k
    using that count_fold_nth [of k "replicate (?m + 2) 0" "\<lambda>d. ?m - d" depth]
      length_filter_nth [of "\<lambda>d. ?m - d = k" depth]
    by (simp add: bucket_depth_items del: replicate_Suc replicate.simps)
  have "?b ! k = bucket_start (depth_items depth) k" if k: "k < Suc ?m" for k
  proof -
    have "take k ?c = map (\<lambda>j. length (bucket (depth_items depth) j)) [0..<k]"
      using k cnt by (intro nth_equalityI) simp_all
    then show ?thesis using k by (simp add: nth_append bucket_starts_nth bucket_start_def)
  qed
  then have "fst (fold place (depth_items depth) (replicate ?n 0, ?b)) =
      concat (map (bucket (depth_items depth)) [0..<Suc ?m])"
    by (intro scatter_buckets(1)) (auto simp: depth_items_def)
  moreover have "fold (\<lambda>i (order, b). let k = ?m - depth ! i in (order[b ! k := i], b[k := Suc (b ! k)])) [0..<?n] st
      = fold place (depth_items depth) st" for st
    unfolding depth_items_def fold_map comp_def
    by (rule fold_cong) (auto simp: place_def Let_def)
  ultimately show ?thesis unfolding depth_order_def Let_def by simp
qed

lemma depth_order_mset: "mset (depth_order depth) = mset [0..<length depth]"
proof -
  have "mset (depth_order depth) = mset (map snd (depth_items depth))"
    unfolding depth_order_buckets by (rule concat_buckets_mset) (auto simp: depth_items_def)
  then show ?thesis by (simp add: depth_items_def comp_def)
qed

lemma depth_order_distinct: "distinct (depth_order depth)"
  using mset_eq_imp_distinct_iff [OF depth_order_mset] by simp

lemma depth_order_set: "set (depth_order depth) = {..<length depth}"
  using mset_eq_setD [OF depth_order_mset [of depth]] by (simp add: lessThan_atLeast0)

lemma depth_order_sorted: "sorted_wrt (\<lambda>i j. depth ! j \<le> depth ! i) (depth_order depth)"
proof -
  let ?m = "fold max depth 0"
  have in_bucket: "depth ! i = ?m - k \<and> k \<le> ?m" if "i \<in> set (bucket (depth_items depth) k)" for i k
    using that fold_max_ge(1) [of "depth ! i" depth 0] by (auto simp: bucket_depth_items)
  have "sorted_wrt (\<lambda>i j. depth ! j \<le> depth ! i) (concat (map (bucket (depth_items depth)) [0..<K]))" for K
  proof (induction K)
    case (Suc K)
    have "sorted_wrt (\<lambda>i j. depth ! j \<le> depth ! i) (bucket (depth_items depth) K)"
      using in_bucket [of _ K] by (auto simp: sorted_wrt_iff_nth_less)
    moreover have "depth ! j \<le> depth ! i"
      if "i \<in> set (concat (map (bucket (depth_items depth)) [0..<K]))" "j \<in> set (bucket (depth_items depth) K)" for i j
    proof -
      obtain k where "k < K" "i \<in> set (bucket (depth_items depth) k)" using \<open>i \<in> _\<close> by auto
      then show ?thesis using in_bucket [of i k] in_bucket [OF that(2)] by simp
    qed
    ultimately show ?case using Suc by (auto simp: sorted_wrt_append)
  qed simp
  then show ?thesis unfolding depth_order_buckets .
qed

section \<open>Subtree sizes\<close>

definition below :: "'f graph_node list \<Rightarrow> nat \<Rightarrow> nat set" where
  "below ns i = {j. (j, i) \<in> (parent_rel ns)\<^sup>+}"

definition children :: "'f graph_node list \<Rightarrow> nat \<Rightarrow> nat set" where
  "children ns i = {j. (j, i) \<in> parent_rel ns}"

lemma finite_below: "forest ns \<Longrightarrow> finite (below ns i)"
  by (rule finite_subset [of _ "{..<length ns}"]) (auto simp: below_def dest: parent_rel_trancl_lt)

lemma finite_children: "finite (children ns i)"
  by (rule finite_subset [of _ "{..<length ns}"]) (auto simp: children_def dest: parent_relD)

lemma below_split: "below ns i = (\<Union>c \<in> children ns i. insert c (below ns c))"
proof -
  have "(x, i) \<in> (parent_rel ns)\<^sup>+ \<longleftrightarrow> (\<exists>c. (c, i) \<in> parent_rel ns \<and> (x = c \<or> (x, c) \<in> (parent_rel ns)\<^sup>+))" for x
    by (subst trancl_unfold_right) (auto simp: rtrancl_eq_or_trancl relcomp_unfold)
  then show ?thesis by (auto simp: below_def children_def)
qed

lemma below_disjoint:
  assumes f: "forest ns" and c: "c \<in> children ns i" "d \<in> children ns i" "c \<noteq> d"
  shows "insert c (below ns c) \<inter> insert d (below ns d) = {}"
proof (rule ccontr)
  assume "insert c (below ns c) \<inter> insert d (below ns d) \<noteq> {}"
  then obtain k where "(k, c) \<in> (parent_rel ns)\<^sup>*" "(k, d) \<in> (parent_rel ns)\<^sup>*"
    by (auto simp: below_def rtrancl_eq_or_trancl)
  then have "(c, d) \<in> (parent_rel ns)\<^sup>* \<or> (d, c) \<in> (parent_rel ns)\<^sup>*"
    by (rule single_valued_confluent [OF single_valued_parent])
  then have "(c, d) \<in> (parent_rel ns)\<^sup>+ \<or> (d, c) \<in> (parent_rel ns)\<^sup>+" using c(3) by (auto simp: rtrancl_eq_or_trancl)
  then have "(i, d) \<in> (parent_rel ns)\<^sup>* \<or> (i, c) \<in> (parent_rel ns)\<^sup>*"
    using c trancl_parent unfolding children_def by blast
  then have "(i, i) \<in> (parent_rel ns)\<^sup>+"
    using c(1,2) unfolding children_def by (blast intro: rtrancl_into_trancl1)
  with f show False by (auto simp: forest_def acyclic_def)
qed

lemma card_below:
  assumes f: "forest ns" shows "card (below ns i) = (\<Sum>c \<in> children ns i. Suc (card (below ns c)))"
proof -
  have "card (below ns i) = (\<Sum>c \<in> children ns i. card (insert c (below ns c)))"
    unfolding below_split [of ns i]
    using finite_children finite_below [OF f] below_disjoint [OF f] by (intro card_UN_disjoint) auto
  also have "\<dots> = (\<Sum>c \<in> children ns i. Suc (card (below ns c)))"
    using f finite_below [OF f] by (intro sum.cong) (auto simp: below_def forest_def acyclic_def)
  finally show ?thesis .
qed

section \<open>The bottom-up pass\<close>

text \<open>What the pass has added up when the nodes in \<open>vis\<close> have been visited.\<close>

definition counted :: "'f graph_node list \<Rightarrow> nat set \<Rightarrow> 'f graph_node list \<Rightarrow> bool" where
  "counted ns0 vis ns \<longleftrightarrow> map gn_parent ns = map gn_parent ns0 \<and>
     (\<forall>i < length ns0. gn_descendants (ns ! i) = (\<Sum>c \<in> children ns0 i \<inter> vis. Suc (card (below ns0 c))))"

lemma counted_step:
  assumes f: "forest ns0" and c: "counted ns0 vis ns" and k: "k < length ns0" "k \<notin> vis" "children ns0 k \<subseteq> vis"
  shows "counted ns0 (insert k vis) (add_subtree k ns)"
proof -
  have par: "map gn_parent ns = map gn_parent ns0" and len: "length ns = length ns0"
    using c by (auto simp: counted_def dest: map_eq_imp_length_eq)
  have pk: "gn_parent (ns ! k) = gn_parent (ns0 ! k)" using arg_cong [OF par, of "\<lambda>l. l ! k"] k len by simp
  have dk: "gn_descendants (ns ! k) = card (below ns0 k)"
    using c k by (simp add: counted_def card_below [OF f, of k] Int_absorb2)
  have par': "map gn_parent (add_subtree k ns) = map gn_parent ns0"
    using par by (simp add: add_subtree_def Let_def list_update_map_id)
  have "gn_descendants (add_subtree k ns ! i) = (\<Sum>c \<in> children ns0 i \<inter> insert k vis. Suc (card (below ns0 c)))"
    if i: "i < length ns0" for i
  proof (cases "k \<in> children ns0 i")
    case True
    then have "gn_parent (ns ! k) = int i" using pk by (simp add: children_def parent_rel_def)
    moreover have "children ns0 i \<inter> insert k vis = insert k (children ns0 i \<inter> vis)" using True by auto
    moreover have "gn_descendants (ns ! i) = (\<Sum>c \<in> children ns0 i \<inter> vis. Suc (card (below ns0 c)))"
      using c i by (simp add: counted_def)
    ultimately show ?thesis
      using i len k(2) dk finite_children [of ns0 i] by (simp add: add_subtree_def Let_def)
  next
    case False
    then have "gn_parent (ns ! k) \<noteq> int i" using pk k(1) by (simp add: children_def parent_rel_def)
    then have "add_subtree k ns ! i = ns ! i" by (auto simp: add_subtree_def Let_def nth_list_update_neq)
    moreover have "children ns0 i \<inter> insert k vis = children ns0 i \<inter> vis" using False by auto
    ultimately show ?thesis using c i by (simp add: counted_def)
  qed
  then show ?thesis using par' by (simp add: counted_def)
qed

lemma counted_fold:
  assumes f: "forest ns0"
  shows "counted ns0 vis ns \<Longrightarrow> distinct ks \<Longrightarrow> set ks \<inter> vis = {} \<Longrightarrow> vis \<union> set ks = {..<length ns0} \<Longrightarrow>
     sorted_wrt (\<lambda>i j. n_above ns0 j \<le> n_above ns0 i) ks \<Longrightarrow> counted ns0 (vis \<union> set ks) (fold add_subtree ks ns)"
proof (induction ks arbitrary: vis ns)
  case (Cons k ks)
  have "children ns0 k \<subseteq> vis"
  proof
    fix c assume c: "c \<in> children ns0 k"
    then have "n_above ns0 c = Suc (n_above ns0 k)" using above_step [OF f] by (simp add: children_def)
    moreover have "c < length ns0" using c by (auto simp: children_def dest: parent_relD)
    ultimately show "c \<in> vis" using Cons.prems(4,5) by fastforce
  qed
  then have "counted ns0 (insert k vis) (add_subtree k ns)"
    using Cons.prems by (intro counted_step [OF f]) auto
  then have "counted ns0 (insert k vis \<union> set ks) (fold add_subtree ks (add_subtree k ns))"
    using Cons.prems by (intro Cons.IH) auto
  then show ?case by simp
qed simp

lemma counted_all: "counted ns0 {..<length ns0} ns \<Longrightarrow> forest ns0 \<Longrightarrow> i < length ns0 \<Longrightarrow> gn_descendants (ns ! i) = card (below ns0 i)"
proof -
  assume "counted ns0 {..<length ns0} ns" "forest ns0" "i < length ns0"
  moreover have "children ns0 i \<inter> {..<length ns0} = children ns0 i" by (auto simp: children_def dest: parent_relD)
  ultimately show ?thesis by (simp add: counted_def card_below)
qed

lemma recount_exact:
  assumes f: "forest ns" and i: "i < length ns"
  shows "gn_descendants (recount_descendants ns ! i) = card (below ns i)"
proof -
  let ?ns = "map (\<lambda>nd. nd\<lparr>gn_descendants := 0\<rparr>) ns"
  let ?depth = "map (\<lambda>nd. depth_walk ?ns (length ns) (gn_parent nd)) ?ns"
  have par: "map gn_parent ?ns = map gn_parent ns" by (simp add: comp_def)
  have start: "counted ns {} ?ns" using par by (simp add: counted_def)
  have f': "forest ?ns" using f forest_cong [OF par] by simp
  have depth: "?depth ! j = n_above ns j" if "j < length ns" for j
  proof -
    have "n_above ?ns j = n_above ns j" by (simp add: n_above_def parent_rel_cong [OF par])
    moreover have "j < length ?ns" using that by simp
    with f' have "depth_walk ?ns (length ns) (gn_parent (?ns ! j)) = n_above ?ns j"
    proof (cases rule: parent_cases)
      case root
      then have "n_above ?ns j = 0" using above_root [of ?ns j] by (simp add: parent_of_def)
      with root show ?thesis by (cases "length ns") (simp_all add: parent_of_def)
    next
      case (up p)
      have "depth_walk ?ns (length ns) (int p) = Suc (n_above ?ns p)"
        using above_less [OF f' up(2)] by (intro depth_walk_above [OF f' up(2)]) simp
      with up show ?thesis by (simp add: parent_of_def)
    qed
    ultimately show ?thesis using that by simp
  qed
  show ?thesis
  proof (cases "list_all (\<lambda>nd. gn_parent nd < 0) ?ns \<or> length ns = 0")
    case True
    then have roots: "gn_parent (ns ! j) < 0" if "j < length ns" for j using that by (auto simp: list_all_length)
    have "(j, k) \<notin> parent_rel ns" for j k using roots [of j] by (auto simp: parent_rel_def)
    then have "below ns i = {}" by (auto simp: below_def dest: tranclD2)
    then show ?thesis using True i by (simp add: recount_descendants_def Let_def)
  next
    case False
    define D where "D = ?depth"
    have D: "D ! j = n_above ns j" if "j < length ns" for j unfolding D_def by (rule depth [OF that])
    have st: "set (depth_order D) = {..<length ns}" unfolding depth_order_set by (simp add: D_def)
    have "sorted_wrt (\<lambda>i j. n_above ns j \<le> n_above ns i) (depth_order D)"
      using depth_order_sorted [of D] by (rule sorted_wrt_mono_rel [rotated]) (simp add: st D)
    then have "counted ns {..<length ns} (fold add_subtree (depth_order D) ?ns)"
      using counted_fold [OF f start depth_order_distinct [of D]] st by simp
    moreover have "recount_descendants ns = fold add_subtree (depth_order D) ?ns"
      using False unfolding recount_descendants_def Let_def D_def by (simp only: if_False length_map)
    ultimately show ?thesis using counted_all [OF _ f i] by simp
  qed
qed

text \<open>
  Property (C29). The descendant counts are exact. After any history of operations, \<^verbatim>\<open>finalize\<close> leaves
  every node with the number of nodes below it: those from which a chain of one or more parent links leads to it.
  The depth pass, the counting sort and the bottom-up addition together compute that number, on
  trees of any shape and depth.
\<close>

theorem graph_descendants_exact:
  fixes FO :: "'f float_ops"
  assumes "g = fold (graph_step FO) ops (graph_new seed)" and "i < graph_n_nodes g"
  shows "gn_descendants (gr_nodes (graph_finalize FO g) ! i) =
    card {j. (j, i) \<in> (parent_rel (gr_nodes g))\<^sup>+}"
proof -
  let ?ns = "map (\<lambda>nd. nd\<lparr>gn_radius := f_radius FO
      (fold (\<lambda>nd m. if gn_edge_count nd > m then gn_edge_count nd else m) (sliced g) 0) (gn_edge_count nd)\<rparr>) (sliced g)"
  have i: "i < length ?ns" using assms(2) by (simp add: graph_n_nodes_def)
  have par: "map gn_parent ?ns = map gn_parent (gr_nodes g)" by (simp add: comp_def sliced_keeps)
  have f: "forest ?ns" using reachable_forest [of FO ops seed] assms(1) forest_cong [OF par] by simp
  have len: "length (recount_descendants ?ns) = length ?ns"
    using arg_cong [OF recount_keeps [of "\<lambda>_. ()" ?ns], of length] by simp
  have eq: "map gn_descendants (gr_nodes (graph_finalize FO g)) = map gn_descendants (recount_descendants ?ns)"
    by (simp add: graph_finalize_def graph_reset_rand_def graph_refresh_visibility_def Let_def
        sliced_def [symmetric] comp_def)
  have "gn_descendants (gr_nodes (graph_finalize FO g) ! i) = gn_descendants (recount_descendants ?ns ! i)"
    using arg_cong [OF eq, of "\<lambda>l. l ! i"] i len by simp
  then show ?thesis using recount_exact [OF f i] by (simp add: below_def parent_rel_cong [OF par])
qed

theorem graph_descendants_exact_witness:
  "gn_descendants (gr_nodes (graph_finalize ref_floats (fold (graph_step ref_floats) chain_ops (graph_new 7))) ! 0) = 2"
proof -
  define g where "g = fold (graph_step ref_floats) chain_ops (graph_new 7)"
  let ?r = "parent_rel (gr_nodes g)"
  have par: "map gn_parent (gr_nodes g) = [-1, 0, 1]" unfolding g_def by code_simp
  then have n: "length (gr_nodes g) = 3" using length_map [of gn_parent "gr_nodes g"] by simp
  have p: "gn_parent (gr_nodes g ! 0) = -1" "gn_parent (gr_nodes g ! 1) = 0" "gn_parent (gr_nodes g ! 2) = 1"
    using arg_cong [OF par, of "\<lambda>l. l ! 0"] arg_cong [OF par, of "\<lambda>l. l ! 1"] arg_cong [OF par, of "\<lambda>l. l ! 2"] n by simp_all
  have up: "(1, 0) \<in> ?r" "(2, 1) \<in> ?r" "(0, k) \<notin> ?r" for k using p n by (simp_all add: parent_rel_def)
  have "{j. (j, 0) \<in> ?r\<^sup>+} = {1, 2}"
  proof (intro equalityI subsetI)
    fix j assume "j \<in> {j. (j, 0) \<in> ?r\<^sup>+}"
    then have "(j, 0) \<in> ?r\<^sup>+" by simp
    then obtain k where k: "(j, k) \<in> ?r" by (blast dest: tranclD)
    then have "j < 3" using parent_relD [OF k] n by simp
    moreover have "j \<noteq> 0" using k up(3) by metis
    ultimately show "j \<in> {1, 2}" by auto
  qed (use up(1,2) in \<open>auto intro: trancl.intros\<close>)
  then have "gn_descendants (gr_nodes (graph_finalize ref_floats g) ! 0) = 2"
    using graph_descendants_exact [OF g_def, of 0] n by (simp add: graph_n_nodes_def)
  then show ?thesis unfolding g_def .
qed

end
