(* ===== verification/Lsp_Io.thy ===== *)
theory Lsp_Io
  imports C_Format Json_Glib
begin

text \<open>
  \<^verbatim>\<open>src/cmacs/lsp/cmacs-lsp-io.c\<close>: \<^verbatim>\<open>Content-Length\<close> framed messages over stdin and stdout. The
  input stream is the string of bytes still to come, the output stream the string written so far.
  Memory for a body is assumed to be available (\<^verbatim>\<open>g_malloc\<close> aborts the process otherwise).
\<close>

section \<open>Reading\<close>

text \<open>The bytes up to and including the next newline, and the rest.\<close>

fun read_line :: "string \<Rightarrow> string \<times> string" where
  "read_line [] = ([], [])"
| "read_line (c # cs) =
     (if c = CHR 0x0A then ([c], cs) else case read_line cs of (l, rest) \<Rightarrow> (c # l, rest))"

definition strip_eol :: "string \<Rightarrow> string" where
  "strip_eol line =
     (let n = length line in
      if n \<ge> 2 \<and> line ! (n - 1) = CHR 0x0A \<and> line ! (n - 2) = CHR 0x0D then take (n - 2) line
      else if n \<ge> 1 \<and> line ! (n - 1) = CHR 0x0A then take (n - 1) line
      else line)"

lemma read_line_append: "read_line inp = (l, rest) \<Longrightarrow> l @ rest = inp"
  by (induction inp arbitrary: l rest) (auto split: if_splits prod.splits)

lemma read_line_Nil: "fst (read_line inp) = [] \<longleftrightarrow> inp = []"
  by (cases inp) (auto split: prod.splits)

lemma read_line_rest: "fst (read_line inp) \<noteq> [] \<Longrightarrow> length (snd (read_line inp)) < length inp"
  using read_line_append [of inp "fst (read_line inp)" "snd (read_line inp)"]
  by (metis length_append length_greater_0_conv less_add_same_cancel2 prod.collapse)

text \<open>The header loop: \<open>None\<close> at the end of the input, otherwise the length read and the rest.\<close>

function read_headers :: "string \<Rightarrow> int \<Rightarrow> (int \<times> string) option" where
  "read_headers inp content_length =
     (let line0 = fst (read_line inp); rest = snd (read_line inp) in
      if line0 = [] then None
      else
        (let line = strip_eol line0 in
         if line = [] then Some (content_length, rest)
         else read_headers rest
                (if has_prefix_nocase ''Content-Length:'' line
                 then strtol10 (g_strstrip (c_str (drop 15 line))) else content_length)))"
  by pat_completeness auto
termination
  by (relation "measure (\<lambda>(inp, _). length inp)") (auto simp: read_line_rest)

declare read_headers.simps [simp del]

datatype lsp_error = INVALID_DATA | PARTIAL_INPUT int nat

datatype read_result = ReadEof | ReadError lsp_error | ReadBody string

definition lsp_read_message :: "string \<Rightarrow> read_result \<times> string" where
  "lsp_read_message inp =
     (case read_headers inp (-1) of
        None \<Rightarrow> (ReadEof, [])
      | Some (content_length, rest) \<Rightarrow>
          if content_length \<le> 0 then (ReadError INVALID_DATA, rest)
          else
            (let body = take (nat content_length) rest; rest' = drop (nat content_length) rest in
             if length body < nat content_length
             then (ReadError (PARTIAL_INPUT content_length (length body)), rest')
             else (ReadBody body, rest')))"

section \<open>Writing\<close>

definition lsp_write_message :: "string \<Rightarrow> string \<Rightarrow> string" where
  "lsp_write_message json_str out =
     out @ ''Content-Length: '' @ print_nat (length json_str) @ [CHR 0x0D, CHR 0x0A, CHR 0x0D, CHR 0x0A] @ json_str"

definition write_root :: "json_glib \<Rightarrow> json \<Rightarrow> string \<Rightarrow> string" where
  "write_root J root out = lsp_write_message (jg_to_string J root) out"

text \<open>The messages the \<^verbatim>\<open>cmacs_lsp_send_*\<close> functions build; each is then passed to \<^verbatim>\<open>write_root\<close>.\<close>

definition lsp_send_response :: "int \<Rightarrow> json option \<Rightarrow> json" where
  "lsp_send_response i result =
     JObject [(''jsonrpc'', JString ''2.0''), (''id'', JInt i),
       (''result'', (case result of Some r \<Rightarrow> r | None \<Rightarrow> JNull))]"

definition lsp_send_response_builder :: "int \<Rightarrow> json \<Rightarrow> json" where
  "lsp_send_response_builder i builder = lsp_send_response i (Some builder)"

definition lsp_send_error :: "int \<Rightarrow> int \<Rightarrow> string option \<Rightarrow> json" where
  "lsp_send_error i code message =
     JObject [(''jsonrpc'', JString ''2.0''), (''id'', if i \<ge> 0 then JInt i else JNull),
       (''error'', JObject [(''code'', JInt code),
          (''message'', JString (case message of Some m \<Rightarrow> m | None \<Rightarrow> []))])]"

definition lsp_send_notification :: "string \<Rightarrow> json option \<Rightarrow> json" where
  "lsp_send_notification meth params =
     JObject [(''jsonrpc'', JString ''2.0''), (''method'', JString meth),
       (''params'', (case params of Some p \<Rightarrow> p | None \<Rightarrow> JNull))]"

section \<open>Framing\<close>

lemma read_line_line: "CHR 0x0A \<notin> set l \<Longrightarrow> read_line (l @ CHR 0x0A # rest) = (l @ [CHR 0x0A], rest)"
  by (induction l) auto

lemma strip_eol_crlf: "strip_eol (l @ [CHR 0x0D, CHR 0x0A]) = l"
  by (simp add: strip_eol_def nth_append)

lemma read_headers_step:
  assumes "CHR 0x0A \<notin> set h" "h \<noteq> []"
  shows "read_headers (h @ CHR 0x0D # CHR 0x0A # rest) n =
     read_headers rest (if has_prefix_nocase ''Content-Length:'' h
       then strtol10 (g_strstrip (c_str (drop 15 h))) else n)"
proof -
  have "read_line (h @ CHR 0x0D # CHR 0x0A # rest) = (h @ [CHR 0x0D, CHR 0x0A], rest)"
    using read_line_line [of "h @ [CHR 0x0D]" rest] assms(1) by simp
  then show ?thesis using assms(2) by (subst read_headers.simps) (simp add: Let_def strip_eol_crlf)
qed

lemma read_headers_end: "read_headers (CHR 0x0D # CHR 0x0A # rest) n = Some (n, rest)"
  by (subst read_headers.simps) (simp add: Let_def strip_eol_def)

definition header_lines :: "string list \<Rightarrow> string" where
  "header_lines hs = concat (map (\<lambda>h. h @ [CHR 0x0D, CHR 0x0A]) hs)"

definition plain_header :: "string \<Rightarrow> bool" where
  "plain_header h \<longleftrightarrow> h \<noteq> [] \<and> CHR 0x0A \<notin> set h \<and> \<not> has_prefix_nocase ''Content-Length:'' h"

lemma read_headers_plain:
  "list_all plain_header hs \<Longrightarrow> read_headers (header_lines hs @ rest) n = read_headers rest n"
proof (induction hs)
  case (Cons h hs)
  then show ?case
    using read_headers_step [of h "header_lines hs @ rest" n] by (simp add: header_lines_def plain_header_def)
qed (simp add: header_lines_def)

text \<open>A \<^verbatim>\<open>Content-Length\<close> line in any letter case.\<close>

definition length_header :: "string \<Rightarrow> nat \<Rightarrow> string" where
  "length_header name n = name @ '': '' @ print_nat n"

lemma print_nat_strip: "g_strstrip (c_str (CHR '' '' # print_nat n)) = print_nat n"
proof -
  have d: "c_isdigit c" if "c \<in> set (print_nat n)" for c using that by (rule print_nat_digits)
  then have "NUL \<notin> set (print_nat n)" using c_isdigit_not_space by blast
  then have "c_str (CHR '' '' # print_nat n) = CHR '' '' # print_nat n" by (intro c_str_id) simp
  moreover have "\<not> g_ascii_isspace (hd (print_nat n))" "\<not> g_ascii_isspace (last (print_nat n))"
    using d [of "hd (print_nat n)"] d [of "last (print_nat n)"] c_isdigit_not_space by (auto simp: c_isspace_def)
  moreover from this have "g_strchug (CHR '' '' # print_nat n) = print_nat n"
    by (cases "print_nat n") (simp_all add: g_strchug_def g_ascii_isspace_def)
  ultimately show ?thesis
    using g_strstrip_id [of "print_nat n"] by (simp add: g_strstrip_def g_strchug_id)
qed

lemma read_length_header:
  assumes "map g_ascii_tolower name = map g_ascii_tolower ''Content-Length''" "int n < 2 ^ 63"
  shows "read_headers (length_header name n @ [CHR 0x0D, CHR 0x0A] @ rest) m = read_headers rest (int n)"
proof -
  have len: "length name = 14" using arg_cong [OF assms(1), of length] by simp
  have nl: "CHR 0x0A \<notin> set name"
  proof
    assume "CHR 0x0A \<in> set name"
    then have "g_ascii_tolower (CHR 0x0A) \<in> set (map g_ascii_tolower name)" by simp
    moreover have "g_ascii_tolower (CHR 0x0A) \<notin> set (map g_ascii_tolower ''Content-Length'')" by code_simp
    ultimately show False unfolding assms(1) by contradiction
  qed
  have dig: "CHR 0x0A \<notin> set (print_nat n)" using print_nat_digits c_isdigit_not_space by blast
  have "has_prefix_nocase ''Content-Length:'' (length_header name n)"
    using assms(1) len by (simp add: has_prefix_nocase_def length_header_def)
  moreover have "drop 15 (length_header name n) = CHR '' '' # print_nat n"
    using len by (simp add: length_header_def)
  moreover have "length_header name n \<noteq> []" "CHR 0x0A \<notin> set (length_header name n)"
    using nl dig by (simp_all add: length_header_def)
  ultimately show ?thesis
    using read_headers_step [of "length_header name n" rest m] print_nat_strip [of n] strtol_print_nat [OF assms(2)]
    by simp
qed

lemma read_message_framed:
  assumes "map g_ascii_tolower name = map g_ascii_tolower ''Content-Length''"
    and "s \<noteq> []" "int (length s) < 2 ^ 63" "list_all plain_header hs" "list_all plain_header hs'"
  shows "lsp_read_message (header_lines (hs @ [length_header name (length s)] @ hs') @ [CHR 0x0D, CHR 0x0A] @ s @ rest)
    = (ReadBody s, rest)"
proof -
  have "read_headers (header_lines (hs @ [length_header name (length s)] @ hs') @ [CHR 0x0D, CHR 0x0A] @ s @ rest) (-1)
      = read_headers (header_lines hs' @ [CHR 0x0D, CHR 0x0A] @ s @ rest) (int (length s))"
    using read_headers_plain [OF assms(4)] read_length_header [OF assms(1,3)]
    by (simp add: header_lines_def)
  also have "\<dots> = Some (int (length s), s @ rest)"
    using read_headers_plain [OF assms(5)] read_headers_end by simp
  finally show ?thesis using assms(2) by (simp add: lsp_read_message_def)
qed

lemma write_message_framed:
  "lsp_write_message s out = out @ header_lines [length_header ''Content-Length'' (length s)] @ [CHR 0x0D, CHR 0x0A] @ s"
  by (simp add: lsp_write_message_def header_lines_def length_header_def)

text \<open>Reading message after message.\<close>

fun read_bodies :: "nat \<Rightarrow> string \<Rightarrow> string list \<times> string" where
  "read_bodies 0 inp = ([], inp)"
| "read_bodies (Suc k) inp =
     (case lsp_read_message inp of
        (ReadBody b, rest) \<Rightarrow> (case read_bodies k rest of (bs, r) \<Rightarrow> (b # bs, r))
      | (_, rest) \<Rightarrow> ([], rest))"

lemma read_bodies_written:
  "list_all (\<lambda>s. s \<noteq> [] \<and> int (length s) < 2 ^ 63) ms \<Longrightarrow>
     read_bodies (length ms) (fold lsp_write_message ms [] @ rest) = (ms, rest)"
proof -
  have out: "fold lsp_write_message ms out = out @ concat (map (\<lambda>s. lsp_write_message s []) ms)" for ms out
    by (induction ms arbitrary: out) (simp_all add: write_message_framed)
  have "read_bodies (length ms) (concat (map (\<lambda>s. lsp_write_message s []) ms) @ rest) = (ms, rest)"
    if "list_all (\<lambda>s. s \<noteq> [] \<and> int (length s) < 2 ^ 63) ms"
    using that
  proof (induction ms)
    case (Cons s ms)
    have "lsp_read_message (lsp_write_message s [] @ r) = (ReadBody s, r)" for r
      using read_message_framed [of "''Content-Length''" s "[]" "[]" r] Cons.prems
      by (simp add: write_message_framed)
    with Cons show ?case by simp
  qed simp
  then show "list_all (\<lambda>s. s \<noteq> [] \<and> int (length s) < 2 ^ 63) ms \<Longrightarrow> ?thesis" by (simp add: out)
qed

text \<open>
  Framing round trip. A stream of messages written one after the other is read back
  message by message, byte for byte, leaving what follows untouched; and the reader accepts the
  frames of other clients too: the \<^verbatim>\<open>Content-Length\<close> header in any letter case, among any other
  headers before and after it. Bodies may contain any bytes, line breaks and header-like text
  included; they must not be empty.
\<close>

theorem lsp_framing_round_trip:
  assumes "list_all (\<lambda>s. s \<noteq> [] \<and> int (length s) < 2 ^ 63) (s # ms)"
    and "map g_ascii_tolower name = map g_ascii_tolower ''Content-Length''"
    and "list_all plain_header hs" "list_all plain_header hs'"
  shows "read_bodies (length ms) (fold lsp_write_message ms [] @ rest) = (ms, rest) \<and>
    lsp_read_message (header_lines (hs @ [length_header name (length s)] @ hs') @ [CHR 0x0D, CHR 0x0A] @ s @ rest)
      = (ReadBody s, rest)"
  using assms read_bodies_written [of ms rest] read_message_framed [of name s hs hs' rest] by simp

theorem lsp_framing_round_trip_witness:
  "read_bodies 2 (fold lsp_write_message [''{}'', ''[1]''] [] @ ''x'') = ([''{}'', ''[1]''], ''x'') \<and>
   lsp_read_message (header_lines [''content-length: 2'', ''Content-Type: a''] @ [CHR 0x0D, CHR 0x0A] @ ''{}'' @ ''y'')
     = (ReadBody ''{}'', ''y'')"
proof -
  have h: "list_all plain_header [''Content-Type: a'']"
    by (simp add: plain_header_def has_prefix_nocase_def g_ascii_tolower_def)
  have n: "map g_ascii_tolower ''content-length'' = map g_ascii_tolower ''Content-Length''"
    by code_simp
  have l: "length_header ''content-length'' 2 = ''content-length: 2''"
    by code_simp
  show ?thesis
    using lsp_framing_round_trip [of "''{}''" "[''{}'', ''[1]'']" "''content-length''" "[]" "[''Content-Type: a'']" "''x''"]
      lsp_framing_round_trip [of "''{}''" "[]" "''content-length''" "[]" "[''Content-Type: a'']" "''y''"] h n l
    by (simp add: numeral_2_eq_2)
qed

end
