(* ===== verification/Lsp_Document.thy ===== *)
theory Lsp_Document
  imports GHash Utf8
begin

text \<open>
  \<^verbatim>\<open>src/cmacs/lsp/cmacs-lsp-document.c\<close>: the documents a language server holds, their lines, and the
  conversion between the UTF-16 columns of the protocol and byte offsets. A pointer into a text is
  the part of the text it points to.
\<close>

record lsp_document =
  ld_uri :: string
  ld_text :: string
  ld_version :: int

definition or_empty :: "string option \<Rightarrow> string" where
  "or_empty t = (case t of Some s \<Rightarrow> s | None \<Rightarrow> [])"

definition lsp_document_new :: "string \<Rightarrow> string option \<Rightarrow> int \<Rightarrow> lsp_document" where
  "lsp_document_new uri txt0 version = \<lparr>ld_uri = uri, ld_text = or_empty txt0, ld_version = version\<rparr>"

definition lsp_document_update :: "lsp_document \<Rightarrow> string option \<Rightarrow> int \<Rightarrow> lsp_document" where
  "lsp_document_update doc txt0 version = doc\<lparr>ld_text := or_empty txt0, ld_version := version\<rparr>"

section \<open>Lines\<close>

definition strchr :: "char \<Rightarrow> string \<Rightarrow> string option" where
  "strchr c p = (case dropWhile (\<lambda>x. x \<noteq> c) p of [] \<Rightarrow> None | q \<Rightarrow> Some q)"

fun skip_lines :: "nat \<Rightarrow> string \<Rightarrow> string option" where
  "skip_lines 0 p = Some p"
| "skip_lines (Suc n) p = (case strchr (CHR 0x0A) p of None \<Rightarrow> None | Some q \<Rightarrow> skip_lines n (tl q))"

definition line_bounds :: "string \<Rightarrow> nat \<Rightarrow> (string \<times> string) option" where
  "line_bounds txt0 line =
     (case skip_lines line txt0 of None \<Rightarrow> None
      | Some start \<Rightarrow> Some (start, case strchr (CHR 0x0A) start of Some e \<Rightarrow> e | None \<Rightarrow> []))"

definition lsp_document_line :: "lsp_document \<Rightarrow> nat \<Rightarrow> string option" where
  "lsp_document_line doc line =
     (case line_bounds (ld_text doc) line of None \<Rightarrow> None
      | Some (start, e) \<Rightarrow> Some (take (length start - length e) start))"

lemma strchr_Some: "strchr c p = Some q \<Longrightarrow> \<exists>l. p = l @ q \<and> c \<notin> set l \<and> hd q = c \<and> q \<noteq> []"
proof -
  assume "strchr c p = Some q"
  then have q: "dropWhile (\<lambda>x. x \<noteq> c) p = q" "q \<noteq> []" by (auto simp: strchr_def split: list.splits)
  have "p = takeWhile (\<lambda>x. x \<noteq> c) p @ q" using q(1) takeWhile_dropWhile_id [of "\<lambda>x. x \<noteq> c" p] by simp
  moreover have "c \<notin> set (takeWhile (\<lambda>x. x \<noteq> c) p)" by (auto dest: set_takeWhileD)
  moreover have "hd q = c" using q hd_dropWhile [of "\<lambda>x. x \<noteq> c" p] by auto
  ultimately show ?thesis using q(2) by blast
qed

lemma strchr_None: "strchr c p = None \<longleftrightarrow> c \<notin> set p"
proof -
  have "(case xs of [] \<Rightarrow> None | a # l \<Rightarrow> Some (a # l)) = None \<longleftrightarrow> xs = []" for xs :: string by (cases xs) simp_all
  then have "strchr c p = None \<longleftrightarrow> dropWhile (\<lambda>x. x \<noteq> c) p = []" unfolding strchr_def .
  then show ?thesis by (auto simp: dropWhile_eq_Nil_conv)
qed

lemma strchr_tl_less: "strchr c p = Some q \<Longrightarrow> length (tl q) < length p"
  using strchr_Some [of c p q] by (cases q) auto

function count_newlines :: "string \<Rightarrow> nat \<Rightarrow> nat" where
  "count_newlines p n = (case strchr (CHR 0x0A) p of None \<Rightarrow> n | Some q \<Rightarrow> count_newlines (tl q) (Suc n))"
  by pat_completeness auto
termination
  by (relation "measure (\<lambda>(p, _). length p)") (auto dest: strchr_tl_less)

declare count_newlines.simps [simp del]

definition lsp_document_nlines :: "lsp_document \<Rightarrow> nat" where
  "lsp_document_nlines doc = count_newlines (ld_text doc) 1"

lemma split_strchr:
  "split_on c p = (case strchr c p of None \<Rightarrow> [p] | Some q \<Rightarrow> take (length p - length q) p # split_on c (tl q))"
proof (cases "strchr c p")
  case None
  then have "c \<notin> set p" by (simp add: strchr_None)
  with None show ?thesis by (simp add: split_on_no_delim)
next
  case (Some q)
  then obtain l where l: "p = l @ q" "c \<notin> set l" "hd q = c" "q \<noteq> []" using strchr_Some by blast
  then have "p = l @ c # tl q" by (cases q) auto
  then have "split_on c p = l # split_on c (tl q)" using l(2) split_on_append by simp
  with l Some show ?thesis by simp
qed

lemma skip_lines_split:
  "(case skip_lines n p of None \<Rightarrow> length (split_on (CHR 0x0A) p) \<le> n
    | Some q \<Rightarrow> n < length (split_on (CHR 0x0A) p) \<and> split_on (CHR 0x0A) q = drop n (split_on (CHR 0x0A) p))"
proof (induction n arbitrary: p)
  case (Suc n)
  show ?case
  proof (cases "strchr (CHR 0x0A) p")
    case None
    then show ?thesis by (simp add: split_strchr [of _ p])
  next
    case (Some q)
    then show ?thesis using Suc.IH [of "tl q"] by (auto simp: split_strchr [of _ p] split: option.splits)
  qed
qed simp

lemma document_line_split:
  "lsp_document_line doc n =
     (if n < length (split_on (CHR 0x0A) (ld_text doc)) then Some (split_on (CHR 0x0A) (ld_text doc) ! n) else None)"
proof (cases "skip_lines n (ld_text doc)")
  case None
  then show ?thesis
    using skip_lines_split [where n = n and p = "ld_text doc"] by (simp add: lsp_document_line_def line_bounds_def)
next
  case (Some q)
  let ?ls = "split_on (CHR 0x0A) (ld_text doc)"
  have n: "n < length ?ls" and d: "split_on (CHR 0x0A) q = drop n ?ls"
    using skip_lines_split [where n = n and p = "ld_text doc"] Some by simp_all
  have "?ls ! n = hd (split_on (CHR 0x0A) q)" using n d by (simp add: hd_drop_conv_nth)
  also have "\<dots> = take (length q - length (case strchr (CHR 0x0A) q of Some e \<Rightarrow> e | None \<Rightarrow> [])) q"
    by (simp add: split_strchr [of _ q] split: option.split)
  finally show ?thesis using n Some by (simp add: lsp_document_line_def line_bounds_def)
qed

lemma count_newlines_split: "Suc (count_newlines p n) = n + length (split_on (CHR 0x0A) p)"
proof (induction p n rule: count_newlines.induct)
  case (1 p n)
  show ?case
  proof (cases "strchr (CHR 0x0A) p")
    case None
    then show ?thesis by (subst count_newlines.simps) (simp add: split_strchr [of _ p])
  next
    case (Some q)
    then show ?thesis using 1 by (subst count_newlines.simps) (simp add: split_strchr [of _ p])
  qed
qed

lemma nlines_split: "lsp_document_nlines doc = length (split_on (CHR 0x0A) (ld_text doc))"
  using count_newlines_split [of "ld_text doc" 1] by (simp add: lsp_document_nlines_def)

section \<open>Columns\<close>

definition utf16_units :: "nat \<Rightarrow> nat" where
  "utf16_units ch = (if ch \<ge> 0x10000 then 2 else 1)"

lemma next_char_less: "p \<noteq> [] \<Longrightarrow> length (g_utf8_next_char p) < length p"
  by (cases p) (simp_all add: g_utf8_next_char_def g_utf8_skip_def)

function utf16_to_byte_loop :: "string \<Rightarrow> nat \<Rightarrow> nat \<Rightarrow> string" where
  "utf16_to_byte_loop p units col =
     (if p \<noteq> [] \<and> units < col
      then utf16_to_byte_loop (g_utf8_next_char p) (units + utf16_units (g_utf8_get_char p)) col else p)"
  by pat_completeness auto
termination
  by (relation "measure (\<lambda>(p, _, _). length p)") (auto simp: next_char_less)

function byte_to_utf16_loop :: "nat \<Rightarrow> string \<Rightarrow> nat \<Rightarrow> nat \<Rightarrow> nat" where
  "byte_to_utf16_loop len p units col =
     (if p \<noteq> [] \<and> len - length p < col
      then byte_to_utf16_loop len (g_utf8_next_char p) (units + utf16_units (g_utf8_get_char p)) col else units)"
  by pat_completeness auto
termination
  by (relation "measure (\<lambda>(_, p, _, _). length p)") (auto simp: next_char_less)

declare utf16_to_byte_loop.simps [simp del] byte_to_utf16_loop.simps [simp del]

definition lsp_utf16_to_byte :: "string \<Rightarrow> nat \<Rightarrow> nat" where
  "lsp_utf16_to_byte line col = length line - length (utf16_to_byte_loop line 0 col)"

definition lsp_byte_to_utf16 :: "string \<Rightarrow> nat \<Rightarrow> nat" where
  "lsp_byte_to_utf16 line col = byte_to_utf16_loop (length line) line 0 col"

text \<open>Where the \<open>k\<close>-th character of a line begins, in bytes and in UTF-16 units.\<close>

definition bytes_before :: "(nat \<times> nat) list \<Rightarrow> nat \<Rightarrow> nat" where
  "bytes_before cs k = sum_list (map snd (take k cs))"

definition units_before :: "(nat \<times> nat) list \<Rightarrow> nat \<Rightarrow> nat" where
  "units_before cs k = sum_list (map (\<lambda>c. utf16_units (fst c)) (take k cs))"

lemma utf16_units_pos: "0 < utf16_units ch"
  by (simp add: utf16_units_def)

lemma utf16_to_byte_loop_chars:
  "utf8_chars p = Some cs \<Longrightarrow>
     \<exists>k \<le> length cs. utf16_to_byte_loop p u col = drop (bytes_before cs k) p \<and>
       (k = length cs \<or> col \<le> u + units_before cs k) \<and> (\<forall>j < k. u + units_before cs j < col)"
proof (induction cs arbitrary: p u)
  case Nil
  then have "p = []" by (rule utf8_chars_eq_Nil)
  then show ?case by (simp add: utf16_to_byte_loop.simps [of "[]"] bytes_before_def)
next
  case (Cons c cs)
  obtain cp n where c: "c = (cp, n)" by (cases c)
  have p: "utf8_head p = Some (cp, n)" "utf8_chars (drop n p) = Some cs" "p \<noteq> []"
    using utf8_chars_Cons Cons.prems c by blast+
  show ?case
  proof (cases "u < col")
    case True
    obtain k where k: "k \<le> length cs"
        "utf16_to_byte_loop (drop n p) (u + utf16_units cp) col = drop (bytes_before cs k) (drop n p)"
        "k = length cs \<or> col \<le> u + utf16_units cp + units_before cs k"
        "\<And>j. j < k \<Longrightarrow> u + utf16_units cp + units_before cs j < col"
      using Cons.IH [OF p(2), of "u + utf16_units cp"] by blast
    have "utf16_to_byte_loop p u col = drop (bytes_before (c # cs) (Suc k)) p"
      using True p k(2) utf8_next_char [OF p(1)] utf8_get_char [OF p(1)]
      by (subst utf16_to_byte_loop.simps) (simp add: c bytes_before_def add.commute)
    moreover have "Suc k = length (c # cs) \<or> col \<le> u + units_before (c # cs) (Suc k)"
      using k(3) by (auto simp: c units_before_def)
    moreover have "u + units_before (c # cs) j < col" if "j < Suc k" for j
    proof (cases j)
      case 0
      then show ?thesis using True by (simp add: units_before_def)
    next
      case (Suc i)
      then show ?thesis using k(4) [of i] that by (simp add: c units_before_def)
    qed
    ultimately show ?thesis using k(1) by (intro exI [of _ "Suc k"]) simp
  next
    case False
    then show ?thesis
      by (intro exI [of _ 0]) (simp add: utf16_to_byte_loop.simps [of p] bytes_before_def units_before_def)
  qed
qed

lemma byte_to_utf16_loop_chars:
  "utf8_chars p = Some cs \<Longrightarrow> length p \<le> len \<Longrightarrow> k \<le> length cs \<Longrightarrow>
     byte_to_utf16_loop len p u (len - length p + bytes_before cs k) = u + units_before cs k"
proof (induction cs arbitrary: p u k)
  case Nil
  then have "p = []" using utf8_chars_eq_Nil by blast
  then show ?case by (simp add: byte_to_utf16_loop.simps [of _ "[]"] units_before_def)
next
  case (Cons c cs)
  obtain cp n where c: "c = (cp, n)" by (cases c)
  have p: "utf8_head p = Some (cp, n)" "utf8_chars (drop n p) = Some cs" "p \<noteq> []"
    using utf8_chars_Cons Cons.prems(1) c by blast+
  note n = utf8_head_len [OF p(1)]
  show ?case
  proof (cases k)
    case 0
    then show ?thesis by (simp add: byte_to_utf16_loop.simps [of _ p] bytes_before_def units_before_def)
  next
    case (Suc i)
    have "byte_to_utf16_loop len (drop n p) (u + utf16_units cp) (len - length (drop n p) + bytes_before cs i)
        = u + utf16_units cp + units_before cs i"
      using Cons.prems Suc n by (intro Cons.IH [OF p(2)]) auto
    moreover have "len - length (drop n p) + bytes_before cs i = len - length p + bytes_before (c # cs) k"
      using Cons.prems(2) n by (simp add: c Suc bytes_before_def)
    moreover have "len - length p < len - length p + bytes_before (c # cs) k"
      using n by (simp add: c Suc bytes_before_def)
    ultimately show ?thesis
      using p utf8_next_char [OF p(1)] utf8_get_char [OF p(1)]
      by (subst byte_to_utf16_loop.simps) (simp add: c Suc units_before_def)
  qed
qed

lemma units_before_mono: "j < k \<Longrightarrow> k \<le> length cs \<Longrightarrow> units_before cs j < units_before cs k"
proof (induction k)
  case (Suc k)
  then have "units_before cs k < units_before cs (Suc k)"
    using utf16_units_pos by (simp add: units_before_def take_Suc_conv_app_nth)
  with Suc show ?case by (cases "j = k") auto
qed simp

lemma bytes_before_le:
  assumes "utf8_chars p = Some cs" shows "bytes_before cs k \<le> length p"
proof -
  have "map snd cs = map snd (take k cs) @ map snd (drop k cs)" by (metis append_take_drop_id map_append)
  then have "sum_list (map snd cs) = bytes_before cs k + sum_list (map snd (drop k cs))"
    by (simp add: bytes_before_def)
  with utf8_chars_len [OF assms] show ?thesis by simp
qed

lemma utf16_to_byte_first:
  assumes "utf8_chars line = Some cs"
  shows "\<exists>k \<le> length cs. lsp_utf16_to_byte line col = bytes_before cs k \<and>
     (k = length cs \<or> col \<le> units_before cs k) \<and> (\<forall>j < k. units_before cs j < col)"
proof -
  obtain k where "k \<le> length cs" "utf16_to_byte_loop line 0 col = drop (bytes_before cs k) line"
      "k = length cs \<or> col \<le> units_before cs k" "\<forall>j < k. units_before cs j < col"
    using utf16_to_byte_loop_chars [OF assms, of 0 col] by auto
  then show ?thesis using bytes_before_le [OF assms, of k] by (auto simp: lsp_utf16_to_byte_def)
qed

text \<open>
  Column conversion. On a line of valid UTF-8 the two column conversions are inverse
  to each other at every character boundary, the end of the line included. A UTF-16 column that
  is not a boundary (the second half of a surrogate pair, or past the end) goes to the next
  boundary, so the byte offset returned never lies inside a character nor beyond the line.
\<close>

theorem lsp_columns_round_trip:
  assumes "utf8_chars line = Some cs"
  shows "(\<forall>k \<le> length cs. lsp_utf16_to_byte line (units_before cs k) = bytes_before cs k \<and>
      lsp_byte_to_utf16 line (bytes_before cs k) = units_before cs k) \<and>
    (\<exists>k \<le> length cs. lsp_utf16_to_byte line col = bytes_before cs k \<and>
      (k = length cs \<or> col \<le> units_before cs k) \<and> (\<forall>j < k. units_before cs j < col)) \<and>
    lsp_utf16_to_byte line col \<le> length line"
proof (intro conjI allI impI)
  fix k assume k: "k \<le> length cs"
  show "lsp_byte_to_utf16 line (bytes_before cs k) = units_before cs k"
    using byte_to_utf16_loop_chars [OF assms order_refl k, of 0] by (simp add: lsp_byte_to_utf16_def)
  obtain i where i: "i \<le> length cs" "lsp_utf16_to_byte line (units_before cs k) = bytes_before cs i"
      "i = length cs \<or> units_before cs k \<le> units_before cs i" "\<forall>j < i. units_before cs j < units_before cs k"
    using utf16_to_byte_first [OF assms] by blast
  have "\<not> k < i" using i(4) by blast
  moreover have "\<not> i < k" using i(3) units_before_mono [of i k cs] k by auto
  ultimately show "lsp_utf16_to_byte line (units_before cs k) = bytes_before cs k" using i(2) by simp
next
  show "\<exists>k \<le> length cs. lsp_utf16_to_byte line col = bytes_before cs k \<and>
      (k = length cs \<or> col \<le> units_before cs k) \<and> (\<forall>j < k. units_before cs j < col)"
    by (rule utf16_to_byte_first [OF assms])
  then show "lsp_utf16_to_byte line col \<le> length line" using bytes_before_le [OF assms] by auto
qed

theorem lsp_columns_round_trip_witness:
  "let line = [CHR ''a'', CHR 0xF0, CHR 0x9F, CHR 0x98, CHR 0x80, CHR ''b''] in
   lsp_utf16_to_byte line 3 = 5 \<and> lsp_byte_to_utf16 line 5 = 3"
proof -
  let ?line = "[CHR ''a'', CHR 0xF0, CHR 0x9F, CHR 0x98, CHR 0x80, CHR ''b'']"
  let ?cs = "[(97, 1), (0x1F600, 4), (98, 1)]"
  have cs: "utf8_chars ?line = Some ?cs"
    by (simp add: utf8_chars.simps [of "_ # _"] utf8_head_def byte_at_def is_cont_def)
  have "units_before ?cs 2 = 3" "bytes_before ?cs 2 = 5"
    by (simp_all add: units_before_def bytes_before_def utf16_units_def numeral_2_eq_2)
  then show ?thesis using lsp_columns_round_trip [OF cs, THEN conjunct1, rule_format, of 2] by (simp add: Let_def)
qed

section \<open>The store\<close>

type_synonym lsp_store = "(string, lsp_document) ghash"

definition lsp_document_store_new :: lsp_store where
  "lsp_document_store_new = gh_empty"

definition lsp_document_store_open ::
  "lsp_store \<Rightarrow> string \<Rightarrow> string option \<Rightarrow> int \<Rightarrow> lsp_document \<times> lsp_store" where
  "lsp_document_store_open store uri txt0 version =
     (let doc = lsp_document_new uri txt0 version in (doc, gh_replace (ld_uri doc) doc store))"

definition lsp_document_store_get :: "lsp_store \<Rightarrow> string \<Rightarrow> lsp_document option" where
  "lsp_document_store_get store uri = gh_lookup store uri"

definition lsp_document_store_close :: "lsp_store \<Rightarrow> string \<Rightarrow> lsp_store" where
  "lsp_document_store_close store uri = gh_remove uri store"

text \<open>
  Lines. The number of lines is one more than the number of line breaks, and asking
  for line \<open>n\<close> gives precisely the \<open>n\<close>-th piece between line breaks, without its line break, or
  nothing when there is no such line; the pieces put together again with line breaks are the text.
\<close>

theorem lsp_lines_exact:
  "lsp_document_nlines doc = length (filter (\<lambda>c. c = CHR 0x0A) (ld_text doc)) + 1 \<and>
   (lsp_document_line doc n = None \<longleftrightarrow> lsp_document_nlines doc \<le> n) \<and>
   join_with (CHR 0x0A) (map (\<lambda>k. the (lsp_document_line doc k)) [0..<lsp_document_nlines doc]) = ld_text doc"
proof (intro conjI)
  have "length (split_on c s) = length (filter (\<lambda>x. x = c) s) + 1" for c s
    by (induction c s rule: split_on.induct) (auto split: list.splits)
  then show "lsp_document_nlines doc = length (filter (\<lambda>c. c = CHR 0x0A) (ld_text doc)) + 1"
    by (simp add: nlines_split)
  show "lsp_document_line doc n = None \<longleftrightarrow> lsp_document_nlines doc \<le> n"
    by (simp add: document_line_split nlines_split not_less)
  have "map (\<lambda>k. the (lsp_document_line doc k)) [0..<lsp_document_nlines doc] = split_on (CHR 0x0A) (ld_text doc)"
    by (intro nth_equalityI) (simp_all add: document_line_split nlines_split)
  then show "join_with (CHR 0x0A) (map (\<lambda>k. the (lsp_document_line doc k)) [0..<lsp_document_nlines doc]) = ld_text doc"
    by (simp add: join_split_on)
qed

end
