(* ===== verification/Lsp_Server.thy ===== *)
theory Lsp_Server
  imports Lsp_Io Lsp_Document
begin

text \<open>
  \<^verbatim>\<open>src/cmacs/lsp/cmacs-lsp-server.c\<close> and \<^verbatim>\<open>cmacs-lsp-registry.c\<close>: the read and dispatch loop of
  the language servers. The language backend is a parameter: its slots are functions of its own
  state, the document and the position, and return the messages they send and their new state.
  A handler returns the messages it sends, in order; the loop writes them to the output.
\<close>

type_synonym 'b positional_slot = "'b \<Rightarrow> lsp_document \<Rightarrow> nat \<Rightarrow> nat \<Rightarrow> int \<Rightarrow> json list \<times> 'b"
type_synonym 'b document_slot = "'b \<Rightarrow> lsp_document \<Rightarrow> int \<Rightarrow> json list \<times> 'b"

record 'b lsp_ops =
  so_server_name :: "string option"
  so_server_version :: "string option"
  so_init_capabilities :: "json_object option"
  so_completion :: "'b positional_slot option"
  so_hover :: "'b positional_slot option"
  so_signature_help :: "'b positional_slot option"
  so_definition :: "'b positional_slot option"
  so_document_symbol :: "'b document_slot option"
  so_semantic_tokens :: "'b document_slot option"
  so_diagnose :: "('b \<Rightarrow> lsp_document \<Rightarrow> json list \<times> 'b) option"
  so_completion_triggers :: "string option"

record 'b lsp_server =
  sv_documents :: lsp_store
  sv_initialized :: bool
  sv_shutdown_requested :: bool
  sv_backend :: 'b

definition lsp_server_new :: "'b \<Rightarrow> 'b lsp_server" where
  "lsp_server_new b =
     \<lparr>sv_documents = lsp_document_store_new, sv_initialized = False, sv_shutdown_requested = False,
      sv_backend = b\<rparr>"

section \<open>Accessors\<close>

definition lsp_get_string :: "json_glib \<Rightarrow> json_object option \<Rightarrow> string \<Rightarrow> string option" where
  "lsp_get_string J obj key =
     (case obj of None \<Rightarrow> None
      | Some m \<Rightarrow> (case map_of m key of None \<Rightarrow> None | Some v \<Rightarrow> jg_string J v))"

definition lsp_get_int :: "json_glib \<Rightarrow> json_object option \<Rightarrow> string \<Rightarrow> int \<Rightarrow> int" where
  "lsp_get_int J obj key dflt =
     (case obj of None \<Rightarrow> dflt
      | Some m \<Rightarrow> (case map_of m key of None \<Rightarrow> dflt | Some v \<Rightarrow> jg_int J v))"

definition lsp_get_object :: "json_glib \<Rightarrow> json_object option \<Rightarrow> string \<Rightarrow> json_object option" where
  "lsp_get_object J obj key =
     (case obj of None \<Rightarrow> None
      | Some m \<Rightarrow> (case map_of m key of None \<Rightarrow> None | Some v \<Rightarrow> jg_object J v))"

definition extract_position ::
  "json_glib \<Rightarrow> json_object option \<Rightarrow> string option \<times> nat \<times> nat" where
  "extract_position J params =
     (let td = lsp_get_object J params ''textDocument'';
          pos = lsp_get_object J params ''position''
      in (lsp_get_string J td ''uri'', nat (to_guint (lsp_get_int J pos ''line'' 0)),
          nat (to_guint (lsp_get_int J pos ''character'' 0))))"

section \<open>Handlers\<close>

definition completion_provider :: "'b lsp_ops \<Rightarrow> json" where
  "completion_provider ops =
     JObject ((''resolveProvider'', JBool False) #
       (case so_completion_triggers ops of None \<Rightarrow> []
        | Some t \<Rightarrow> [(''triggerCharacters'', JArray (map (\<lambda>c. JString [c]) t))]))"

definition capabilities :: "'b lsp_ops \<Rightarrow> json_object" where
  "capabilities ops =
     fold (\<lambda>(k, v). json_object_set_member k v)
       (case so_init_capabilities ops of None \<Rightarrow> [] | Some ms \<Rightarrow> ms)
       ([(''textDocumentSync'', JInt 1)] @
        (if so_completion ops \<noteq> None then [(''completionProvider'', completion_provider ops)] else []) @
        (if so_hover ops \<noteq> None then [(''hoverProvider'', JBool True)] else []) @
        (if so_definition ops \<noteq> None then [(''definitionProvider'', JBool True)] else []) @
        (if so_document_symbol ops \<noteq> None then [(''documentSymbolProvider'', JBool True)] else []))"

definition handle_initialize :: "'b lsp_ops \<Rightarrow> int \<Rightarrow> 'b lsp_server \<Rightarrow> json list \<times> 'b lsp_server" where
  "handle_initialize ops i sv =
     ([lsp_send_response_builder i (JObject
         [(''capabilities'', JObject (capabilities ops)),
          (''serverInfo'', JObject
             [(''name'', JString (case so_server_name ops of Some n \<Rightarrow> n | None \<Rightarrow> ''cmacs-lsp'')),
              (''version'', JString (case so_server_version ops of Some v \<Rightarrow> v | None \<Rightarrow> ''0.1.0''))])])],
      sv\<lparr>sv_initialized := True\<rparr>)"

text \<open>\<^verbatim>\<open>if (ops->diagnose != NULL) ops->diagnose (server, doc);\<close>\<close>

definition run_diagnose ::
  "'b lsp_ops \<Rightarrow> lsp_document \<Rightarrow> 'b lsp_server \<Rightarrow> json list \<times> 'b lsp_server" where
  "run_diagnose ops doc sv =
     (case so_diagnose ops of None \<Rightarrow> ([], sv)
      | Some d \<Rightarrow> (case d (sv_backend sv) doc of (outs, b) \<Rightarrow> (outs, sv\<lparr>sv_backend := b\<rparr>)))"

definition handle_did_open ::
  "json_glib \<Rightarrow> 'b lsp_ops \<Rightarrow> json_object option \<Rightarrow> 'b lsp_server \<Rightarrow> json list \<times> 'b lsp_server" where
  "handle_did_open J ops params sv =
     (let td = lsp_get_object J params ''textDocument'';
          uri = lsp_get_string J td ''uri'';
          txt0 = lsp_get_string J td ''text'';
          version = lsp_get_int J td ''version'' 0
      in case uri of None \<Rightarrow> ([], sv)
         | Some u \<Rightarrow>
             (case lsp_document_store_open (sv_documents sv) u txt0 version of
                (doc, store) \<Rightarrow> run_diagnose ops doc (sv\<lparr>sv_documents := store\<rparr>)))"

text \<open>The text of the last change, when there is a change at all.\<close>

definition last_change :: "json_glib \<Rightarrow> json_object option \<Rightarrow> string option option" where
  "last_change J params =
     (case params of None \<Rightarrow> None
      | Some p \<Rightarrow>
          (case map_of p ''contentChanges'' of None \<Rightarrow> None
           | Some v \<Rightarrow>
               (case jg_array J v of None \<Rightarrow> None
                | Some changes \<Rightarrow>
                    if changes = [] then None
                    else Some (lsp_get_string J (jg_object J (changes ! (length changes - 1))) ''text''))))"

definition handle_did_change ::
  "json_glib \<Rightarrow> 'b lsp_ops \<Rightarrow> json_object option \<Rightarrow> 'b lsp_server \<Rightarrow> json list \<times> 'b lsp_server" where
  "handle_did_change J ops params sv =
     (let td = lsp_get_object J params ''textDocument'';
          uri = lsp_get_string J td ''uri'';
          version = lsp_get_int J td ''version'' 0
      in case uri of None \<Rightarrow> ([], sv)
         | Some u \<Rightarrow>
             (case last_change J params of None \<Rightarrow> ([], sv)
              | Some txt0 \<Rightarrow>
                  (case lsp_document_store_get (sv_documents sv) u of None \<Rightarrow> ([], sv)
                   | Some doc \<Rightarrow>
                       (let doc' = lsp_document_update doc txt0 version
                        in run_diagnose ops doc' (sv\<lparr>sv_documents := gh_replace u doc' (sv_documents sv)\<rparr>)))))"

definition handle_did_close ::
  "json_glib \<Rightarrow> json_object option \<Rightarrow> 'b lsp_server \<Rightarrow> json list \<times> 'b lsp_server" where
  "handle_did_close J params sv =
     (case lsp_get_string J (lsp_get_object J params ''textDocument'') ''uri'' of
        None \<Rightarrow> ([], sv)
      | Some u \<Rightarrow>
          ([lsp_send_notification ''textDocument/publishDiagnostics''
              (Some (JObject [(''uri'', JString u), (''diagnostics'', JArray [])]))],
           sv\<lparr>sv_documents := lsp_document_store_close (sv_documents sv) u\<rparr>))"

definition dispatch_positional ::
  "json_glib \<Rightarrow> json_object option \<Rightarrow> int \<Rightarrow> 'b positional_slot option \<Rightarrow> 'b lsp_server
     \<Rightarrow> json list \<times> 'b lsp_server" where
  "dispatch_positional J params i slot sv =
     (case extract_position J params of (uri, line, col) \<Rightarrow>
        (case (slot, Option.bind uri (lsp_document_store_get (sv_documents sv))) of
           (Some f, Some doc) \<Rightarrow> (case f (sv_backend sv) doc line col i of (outs, b) \<Rightarrow> (outs, sv\<lparr>sv_backend := b\<rparr>))
         | _ \<Rightarrow> ([lsp_send_response i None], sv)))"

definition dispatch_document ::
  "json_glib \<Rightarrow> json_object option \<Rightarrow> int \<Rightarrow> 'b document_slot option \<Rightarrow> 'b lsp_server
     \<Rightarrow> json list \<times> 'b lsp_server" where
  "dispatch_document J params i slot sv =
     (case (slot, Option.bind (lsp_get_string J (lsp_get_object J params ''textDocument'') ''uri'')
                    (lsp_document_store_get (sv_documents sv))) of
        (Some f, Some doc) \<Rightarrow> (case f (sv_backend sv) doc i of (outs, b) \<Rightarrow> (outs, sv\<lparr>sv_backend := b\<rparr>))
      | _ \<Rightarrow> ([lsp_send_response i None], sv))"

section \<open>The loop\<close>

text \<open>One parsed message: what is sent, the new state, and whether the loop goes on.\<close>

definition lsp_dispatch ::
  "json_glib \<Rightarrow> 'b lsp_ops \<Rightarrow> json_object option \<Rightarrow> 'b lsp_server \<Rightarrow> (json list \<times> 'b lsp_server) \<times> bool" where
  "lsp_dispatch J ops msg sv =
     (let i = lsp_get_int J msg ''id'' (-1); params = lsp_get_object J msg ''params'' in
      case lsp_get_string J msg ''method'' of
        None \<Rightarrow> ((if i \<ge> 0 then [lsp_send_error i (-32600) (Some ''Invalid request'')] else [], sv), True)
      | Some meth \<Rightarrow>
          if meth = ''initialize'' then (handle_initialize ops i sv, True)
          else if meth = ''initialized'' then (([], sv), True)
          else if meth = ''shutdown'' then
            (([lsp_send_response i None], sv\<lparr>sv_shutdown_requested := True\<rparr>), True)
          else if meth = ''exit'' then (([], sv), False)
          else if meth = ''$/cancelRequest'' then (([], sv), True)
          else if \<not> sv_initialized sv then
            ((if i \<ge> 0 then [lsp_send_error i (-32002) (Some ''Server not initialized'')] else [], sv), True)
          else if meth = ''textDocument/didOpen'' then (handle_did_open J ops params sv, True)
          else if meth = ''textDocument/didChange'' then (handle_did_change J ops params sv, True)
          else if meth = ''textDocument/didClose'' then (handle_did_close J params sv, True)
          else if meth = ''textDocument/completion'' then (dispatch_positional J params i (so_completion ops) sv, True)
          else if meth = ''textDocument/hover'' then (dispatch_positional J params i (so_hover ops) sv, True)
          else if meth = ''textDocument/signatureHelp'' then
            (dispatch_positional J params i (so_signature_help ops) sv, True)
          else if meth = ''textDocument/definition'' then (dispatch_positional J params i (so_definition ops) sv, True)
          else if meth = ''textDocument/documentSymbol'' then
            (dispatch_document J params i (so_document_symbol ops) sv, True)
          else if meth = ''textDocument/semanticTokens/full'' then
            (dispatch_document J params i (so_semantic_tokens ops) sv, True)
          else ((if i \<ge> 0 then [lsp_send_error i (-32601) (Some ''Method not found'')] else [], sv), True))"

definition handle_body ::
  "json_glib \<Rightarrow> 'b lsp_ops \<Rightarrow> string \<Rightarrow> 'b lsp_server \<Rightarrow> (json list \<times> 'b lsp_server) \<times> bool" where
  "handle_body J ops body sv =
     (case jg_load J (c_str body) of
        None \<Rightarrow> (([lsp_send_error (-1) (-32700) (Some ''Parse error'')], sv), True)
      | Some root \<Rightarrow>
          lsp_dispatch J ops (case root of Some (JObject m) \<Rightarrow> Some m | _ \<Rightarrow> None) sv)"

lemma read_headers_rest: "read_headers inp n = Some (m, rest) \<Longrightarrow> length rest < length inp"
proof (induction inp n rule: read_headers.induct)
  case (1 inp n)
  show ?case
  proof (cases "fst (read_line inp) = [] \<or> strip_eol (fst (read_line inp)) = []")
    case True
    then show ?thesis using "1.prems" read_line_rest [of inp]
      by (subst (asm) read_headers.simps) (auto simp: Let_def split: if_splits)
  next
    case False
    then have "length rest < length (snd (read_line inp))"
      using 1 by (subst (asm) (2) read_headers.simps) (simp add: Let_def)
    then show ?thesis using False read_line_rest [of inp] by simp
  qed
qed

lemma read_message_rest: "lsp_read_message inp = (r, rest) \<Longrightarrow> r \<noteq> ReadEof \<Longrightarrow> length rest < length inp"
  by (auto simp: lsp_read_message_def Let_def split: option.splits if_splits dest!: read_headers_rest)

text \<open>The exit status, the output and the final state.\<close>

function lsp_server_run ::
  "json_glib \<Rightarrow> 'b lsp_ops \<Rightarrow> string \<Rightarrow> string \<Rightarrow> 'b lsp_server \<Rightarrow> nat \<times> string \<times> 'b lsp_server" where
  "lsp_server_run J ops inp out sv =
     (let stop = (\<lambda>out sv. (if sv_shutdown_requested sv then 0 else 1, out, sv)) in
      case lsp_read_message inp of
        (ReadEof, rest) \<Rightarrow> stop out sv
      | (ReadError e, rest) \<Rightarrow> lsp_server_run J ops rest out sv
      | (ReadBody body, rest) \<Rightarrow>
          (case handle_body J ops body sv of ((outs, sv'), running) \<Rightarrow>
             if running then lsp_server_run J ops rest (fold (write_root J) outs out) sv'
             else stop (fold (write_root J) outs out) sv'))"
  by pat_completeness auto
termination
  by (relation "measure (\<lambda>(_, _, inp, _, _). length inp)") (auto dest: sym [THEN read_message_rest])

declare lsp_server_run.simps [simp del]

section \<open>The registry of languages\<close>

record lsp_language =
  ll_name :: string
  ll_description :: string
  ll_file_glob :: string

text \<open>The table with the GNU Calc backend compiled in or not; the sentinel ends it.\<close>

definition lsp_language_table :: "bool \<Rightarrow> lsp_language list" where
  "lsp_language_table have_gnucalc =
     (if have_gnucalc then
        [\<lparr>ll_name = ''gnucalc'', ll_description = ''GNU Calc .calc sheets (builtins, cmacs calculators, units)'',
          ll_file_glob = ''*.calc''\<rparr>] else [])"

definition lsp_find_language :: "bool \<Rightarrow> string option \<Rightarrow> lsp_language option" where
  "lsp_find_language have_gnucalc name =
     (case name of None \<Rightarrow> None
      | Some n \<Rightarrow> find (\<lambda>l. ll_name l = n) (lsp_language_table have_gnucalc))"

text \<open>\<^verbatim>\<open>cmacs_lsp_main\<close>: the language to run, or the exit status 1 with the list on stderr.\<close>

definition lsp_main_language :: "string list \<Rightarrow> nat \<Rightarrow> string option" where
  "lsp_main_language argv lsp_idx =
     (if g_str_has_prefix (argv ! lsp_idx) ''--cmacs-lsp='' then Some (drop 12 (argv ! lsp_idx))
      else if lsp_idx + 1 < length argv \<and> argv ! (lsp_idx + 1) \<noteq> [] \<and> hd (argv ! (lsp_idx + 1)) \<noteq> CHR ''-''
      then Some (argv ! (lsp_idx + 1)) else None)"

definition lsp_main :: "bool \<Rightarrow> string list \<Rightarrow> nat \<Rightarrow> nat + lsp_language" where
  "lsp_main have_gnucalc argv lsp_idx =
     (case lsp_main_language argv lsp_idx of
        None \<Rightarrow> Inl 1
      | Some n \<Rightarrow> if n = [] then Inl 1
          else (case lsp_find_language have_gnucalc (Some n) of None \<Rightarrow> Inl 1 | Some l \<Rightarrow> Inr l))"


section \<open>What a client can rely on\<close>

text \<open>The id a message answers: that of a response or an error, none for a notification.\<close>

definition answered_id :: "json \<Rightarrow> json option" where
  "answered_id j =
     (case j of JObject ms \<Rightarrow>
        if map_of ms ''result'' \<noteq> None \<or> map_of ms ''error'' \<noteq> None then map_of ms ''id'' else None
      | _ \<Rightarrow> None)"

definition answers :: "json list \<Rightarrow> json list" where
  "answers outs = List.map_filter answered_id outs"

lemma answered_id_simps [simp]:
  "answered_id (lsp_send_response i r) = Some (JInt i)"
  "answered_id (lsp_send_response_builder i b) = Some (JInt i)"
  "answered_id (lsp_send_error i code m) = Some (if i \<ge> 0 then JInt i else JNull)"
  "answered_id (lsp_send_notification meth p) = None"
  by (simp_all add: answered_id_def lsp_send_response_def lsp_send_response_builder_def lsp_send_error_def
      lsp_send_notification_def)

lemma answers_simps [simp]:
  "answers [] = []" "answers (j # js) = (case answered_id j of None \<Rightarrow> answers js | Some i \<Rightarrow> i # answers js)"
  by (simp_all add: answers_def map_filter_def split: option.splits)

text \<open>
  What \<^verbatim>\<open>cmacs-lsp-server.h\<close> asks of a backend: a slot sends exactly one response, for the id it was
  given, and \<^verbatim>\<open>diagnose\<close> sends notifications only.
\<close>

definition positional_ok :: "'b positional_slot option \<Rightarrow> bool" where
  "positional_ok slot \<longleftrightarrow> (\<forall>f b doc line col i. slot = Some f \<longrightarrow> answers (fst (f b doc line col i)) = [JInt i])"

definition document_ok :: "'b document_slot option \<Rightarrow> bool" where
  "document_ok slot \<longleftrightarrow> (\<forall>f b doc i. slot = Some f \<longrightarrow> answers (fst (f b doc i)) = [JInt i])"

definition backend_ok :: "'b lsp_ops \<Rightarrow> bool" where
  "backend_ok ops \<longleftrightarrow>
     positional_ok (so_completion ops) \<and> positional_ok (so_hover ops) \<and> positional_ok (so_signature_help ops) \<and>
     positional_ok (so_definition ops) \<and> document_ok (so_document_symbol ops) \<and> document_ok (so_semantic_tokens ops) \<and>
     (\<forall>d b doc. so_diagnose ops = Some d \<longrightarrow> answers (fst (d b doc)) = [])"

lemma positional_answers: "positional_ok slot \<Longrightarrow> answers (fst (dispatch_positional J params i slot sv)) = [JInt i]"
  by (auto simp: dispatch_positional_def positional_ok_def split: prod.splits option.splits) (metis fst_conv)+

lemma document_answers: "document_ok slot \<Longrightarrow> answers (fst (dispatch_document J params i slot sv)) = [JInt i]"
  by (auto simp: dispatch_document_def document_ok_def split: prod.splits option.splits) (metis fst_conv)+

lemma diagnose_answers: "backend_ok ops \<Longrightarrow> answers (fst (run_diagnose ops doc sv)) = []"
  by (auto simp: run_diagnose_def backend_ok_def split: prod.splits option.splits) (metis fst_conv)

lemma document_notifications_silent:
  assumes "backend_ok ops"
  shows "answers (fst (handle_did_open J ops params sv)) = []"
    and "answers (fst (handle_did_change J ops params sv)) = []"
    and "answers (fst (handle_did_close J params sv)) = []"
  using diagnose_answers [OF assms]
  by (auto simp: handle_did_open_def handle_did_change_def handle_did_close_def Let_def split: option.splits prod.splits)

lemma keeps_flags:
  "sv_initialized (snd (handle_did_open J ops params sv)) = sv_initialized sv"
  "sv_initialized (snd (handle_did_change J ops params sv)) = sv_initialized sv"
  "sv_initialized (snd (handle_did_close J params sv)) = sv_initialized sv"
  "sv_initialized (snd (dispatch_positional J params i slot sv)) = sv_initialized sv"
  "sv_initialized (snd (dispatch_document J params i slot' sv)) = sv_initialized sv"
  "sv_shutdown_requested (snd (handle_did_open J ops params sv)) = sv_shutdown_requested sv"
  "sv_shutdown_requested (snd (handle_did_change J ops params sv)) = sv_shutdown_requested sv"
  "sv_shutdown_requested (snd (handle_did_close J params sv)) = sv_shutdown_requested sv"
  "sv_shutdown_requested (snd (dispatch_positional J params i slot sv)) = sv_shutdown_requested sv"
  "sv_shutdown_requested (snd (dispatch_document J params i slot' sv)) = sv_shutdown_requested sv"
  by (auto simp: handle_did_open_def handle_did_change_def handle_did_close_def run_diagnose_def
      dispatch_positional_def dispatch_document_def Let_def split: option.splits prod.splits)

definition silent_methods :: "string list" where
  "silent_methods = [''initialized'', ''exit'', ''$/cancelRequest'']"

definition lifecycle_methods :: "string list" where
  "lifecycle_methods = [''initialize'', ''shutdown''] @ silent_methods"

definition document_notifications :: "string list" where
  "document_notifications = [''textDocument/didOpen'', ''textDocument/didChange'', ''textDocument/didClose'']"

lemma dispatch_other:
  assumes "lsp_get_string J msg ''method'' = Some meth" "meth \<notin> set lifecycle_methods" "sv_initialized sv"
    and "meth \<notin> set document_notifications" "backend_ok ops" "lsp_get_int J msg ''id'' (-1) = i" "0 \<le> i"
  shows "answers (fst (fst (lsp_dispatch J ops msg sv))) = [JInt i] \<and> snd (lsp_dispatch J ops msg sv) \<and>
    sv_initialized (snd (fst (lsp_dispatch J ops msg sv))) \<and>
    sv_shutdown_requested (snd (fst (lsp_dispatch J ops msg sv))) = sv_shutdown_requested sv"
  using assms
  by (simp add: positional_answers document_answers lsp_dispatch_def Let_def lifecycle_methods_def silent_methods_def document_notifications_def
      backend_ok_def keeps_flags)

lemma dispatch_document_notification:
  assumes "lsp_get_string J msg ''method'' = Some meth" "sv_initialized sv"
    and "meth \<in> set document_notifications" "backend_ok ops"
  shows "answers (fst (fst (lsp_dispatch J ops msg sv))) = [] \<and> snd (lsp_dispatch J ops msg sv) \<and>
    sv_initialized (snd (fst (lsp_dispatch J ops msg sv))) \<and>
    sv_shutdown_requested (snd (fst (lsp_dispatch J ops msg sv))) = sv_shutdown_requested sv"
proof -
  from assms(3) consider "meth = ''textDocument/didOpen''" | "meth = ''textDocument/didChange''"
      | "meth = ''textDocument/didClose''"
    unfolding document_notifications_def list.set insert_iff empty_iff by blast
  then show ?thesis
    by cases (use assms(1,2) document_notifications_silent [OF assms(4)] in
      \<open>simp_all add: lsp_dispatch_def Let_def keeps_flags\<close>)
qed

text \<open>
  Property (C30). Every request is answered exactly once. Take any state of the server, a backend that
  keeps the contract of its slots, and a message with a method and a non-negative integer id. The
  messages sent answer that id once, whatever the method, known or unknown; only \<^verbatim>\<open>initialized\<close>,
  \<^verbatim>\<open>exit\<close>, \<^verbatim>\<open>$/cancelRequest\<close> and the three document notifications of an initialised server are not
  answered. Before \<^verbatim>\<open>initialize\<close> every other method is refused with -32002 and changes nothing. The
  loop goes on after every method but \<^verbatim>\<open>exit\<close>, and the flag that decides the exit status is set by
  \<^verbatim>\<open>shutdown\<close> and never cleared.
\<close>

theorem lsp_requests_answered_once:
  assumes "json_glib_ok J" "backend_ok ops"
    and "map_of ms ''method'' = Some (JString meth)" "map_of ms ''id'' = Some (JInt i)" "0 \<le> i"
    and "lsp_dispatch J ops (Some ms) sv = ((outs, sv'), running)"
  shows "answers outs =
      (if meth \<in> set silent_methods \<or> sv_initialized sv \<and> meth \<in> set document_notifications then [] else [JInt i]) \<and>
    (\<not> sv_initialized sv \<and> meth \<notin> set lifecycle_methods \<longrightarrow>
       outs = [lsp_send_error i (-32002) (Some ''Server not initialized'')] \<and> sv' = sv) \<and>
    (running \<longleftrightarrow> meth \<noteq> ''exit'') \<and>
    sv_initialized sv' = (sv_initialized sv \<or> meth = ''initialize'') \<and>
    sv_shutdown_requested sv' = (sv_shutdown_requested sv \<or> meth = ''shutdown'')"
proof -
  have m: "lsp_get_string J (Some ms) ''method'' = Some meth" and i: "lsp_get_int J (Some ms) ''id'' (-1) = i"
    using assms(1,3,4) by (simp_all add: lsp_get_string_def lsp_get_int_def json_glib_okD)
  note d = assms(6)
  consider (life) "meth \<in> set lifecycle_methods" | (early) "meth \<notin> set lifecycle_methods" "\<not> sv_initialized sv"
    | (doc) "meth \<in> set document_notifications" "sv_initialized sv"
    | (other) "meth \<notin> set lifecycle_methods" "sv_initialized sv" "meth \<notin> set document_notifications" by blast
  then show ?thesis
  proof cases
    case life
    then consider "meth = ''initialize''" | "meth = ''shutdown''" | "meth = ''initialized''" | "meth = ''exit''"
      | "meth = ''$/cancelRequest''"
      unfolding lifecycle_methods_def silent_methods_def set_append list.set insert_iff empty_iff Un_iff by blast
    then show ?thesis
      by cases (use d m i in \<open>auto simp add: lsp_dispatch_def Let_def handle_initialize_def lifecycle_methods_def
          silent_methods_def document_notifications_def\<close>)
  next
    case early
    then show ?thesis
      using d m i assms(5) by (auto simp: lsp_dispatch_def Let_def lifecycle_methods_def silent_methods_def)
  next
    case doc
    then have "meth \<notin> set silent_methods" "meth \<noteq> ''exit''" "meth \<noteq> ''initialize''" "meth \<noteq> ''shutdown''"
      by (auto simp: document_notifications_def silent_methods_def)
    with doc show ?thesis using dispatch_document_notification [OF m doc(2,1) assms(2)] d by simp
  next
    case other
    then have "meth \<notin> set silent_methods" "meth \<noteq> ''exit''" "meth \<noteq> ''initialize''" "meth \<noteq> ''shutdown''"
      by (auto simp: lifecycle_methods_def silent_methods_def)
    with other show ?thesis using dispatch_other [OF m other assms(2) i assms(5)] d by simp
  qed
qed

lemma dispatch_cases:
  obtains outs sv' running where "lsp_dispatch J ops msg sv = ((outs, sv'), running)"
proof -
  obtain p running where p: "lsp_dispatch J ops msg sv = (p, running)" by (cases "lsp_dispatch J ops msg sv")
  obtain outs sv' where "p = (outs, sv')" by (cases p)
  with p that show ?thesis by simp
qed

text \<open>A backend with a hover slot, for the witnesses.\<close>

definition ref_ops :: "unit lsp_ops" where
  "ref_ops = \<lparr>so_server_name = None, so_server_version = None, so_init_capabilities = None, so_completion = None,
     so_hover = Some (\<lambda>b doc line col i. ([lsp_send_response i (Some (JString (ld_text doc)))], b)),
     so_signature_help = None, so_definition = None, so_document_symbol = None, so_semantic_tokens = None,
     so_diagnose = None, so_completion_triggers = None\<rparr>"

lemma ref_ops_ok: "backend_ok ref_ops"
  by (auto simp: backend_ok_def positional_ok_def document_ok_def ref_ops_def)

theorem lsp_requests_answered_once_witness:
  "answers (fst (fst (lsp_dispatch ref_json_glib ref_ops
      (Some [(''id'', JInt 4), (''method'', JString ''textDocument/hover'')])
      ((lsp_server_new ())\<lparr>sv_initialized := True\<rparr>)))) = [JInt 4]"
proof -
  let ?ms = "[(''id'', JInt 4), (''method'', JString ''textDocument/hover'')]"
  let ?sv = "(lsp_server_new ())\<lparr>sv_initialized := True\<rparr>"
  obtain outs sv' running where d: "lsp_dispatch ref_json_glib ref_ops (Some ?ms) ?sv = ((outs, sv'), running)"
    using dispatch_cases .
  have "map_of ?ms ''method'' = Some (JString ''textDocument/hover'')" "map_of ?ms ''id'' = Some (JInt 4)" by simp_all
  from lsp_requests_answered_once [OF ref_json_glib_ok ref_ops_ok this _ d, THEN conjunct1]
  have "answers outs = [JInt 4]" by (simp add: silent_methods_def document_notifications_def)
  then show ?thesis unfolding d by (simp only: fst_conv)
qed

section \<open>Sessions\<close>

text \<open>The loop on messages instead of bytes.\<close>

fun lsp_session ::
  "json_glib \<Rightarrow> 'b lsp_ops \<Rightarrow> json list \<Rightarrow> 'b lsp_server \<Rightarrow> json list \<times> 'b lsp_server" where
  "lsp_session J ops [] sv = ([], sv)"
| "lsp_session J ops (m # msgs) sv =
     (case lsp_dispatch J ops (case m of JObject ms \<Rightarrow> Some ms | _ \<Rightarrow> None) sv of
        ((outs, sv'), running) \<Rightarrow>
          if running then (case lsp_session J ops msgs sv' of (outs', sv'') \<Rightarrow> (outs @ outs', sv''))
          else (outs, sv'))"

definition sendable :: "json_glib \<Rightarrow> json \<Rightarrow> bool" where
  "sendable J m \<longleftrightarrow> json_wf m \<and> int (length (jg_to_string J m)) < 2 ^ 63"

lemma read_sent:
  assumes "json_glib_ok J" "sendable J m"
  shows "lsp_read_message (write_root J m [] @ rest) = (ReadBody (jg_to_string J m), rest)"
    and "handle_body J ops (jg_to_string J m) sv = lsp_dispatch J ops (case m of JObject ms \<Rightarrow> Some ms | _ \<Rightarrow> None) sv"
  using assms read_message_framed [of "''Content-Length''" "jg_to_string J m" "[]" "[]" rest] json_glib_okD [OF assms(1)]
  by (simp_all add: sendable_def write_root_def write_message_framed handle_body_def split: json.split)

lemma write_root_append: "write_root J m out = out @ write_root J m []"
  by (simp add: write_root_def lsp_write_message_def)

lemma fold_write_root: "fold (write_root J) ms out = out @ fold (write_root J) ms []"
proof (induction ms arbitrary: out)
  case (Cons m ms)
  have "fold (write_root J) (m # ms) out = fold (write_root J) ms (out @ write_root J m [])"
    by (simp add: write_root_append [of J m out])
  also have "\<dots> = out @ write_root J m [] @ fold (write_root J) ms []"
    using Cons.IH [of "out @ write_root J m []"] by simp
  also have "write_root J m [] @ fold (write_root J) ms [] = fold (write_root J) ms (write_root J m [])"
    using Cons.IH [of "write_root J m []"] by simp
  finally show ?case by simp
qed simp

lemma run_eof: "lsp_server_run J ops [] out sv = (if sv_shutdown_requested sv then 0 else 1, out, sv)"
  by (subst lsp_server_run.simps) (simp add: lsp_read_message_def read_headers.simps [of "[]"])

lemma run_session:
  assumes "json_glib_ok J"
  shows "list_all (sendable J) msgs \<Longrightarrow>
    lsp_server_run J ops (fold (write_root J) msgs []) out sv =
      (if sv_shutdown_requested (snd (lsp_session J ops msgs sv)) then 0 else 1,
       fold (write_root J) (fst (lsp_session J ops msgs sv)) out, snd (lsp_session J ops msgs sv))"
proof (induction msgs arbitrary: out sv)
  case (Cons m msgs)
  have inp: "fold (write_root J) (m # msgs) [] = write_root J m [] @ fold (write_root J) msgs []"
    using fold_write_root [of J msgs "write_root J m []"] by simp
  obtain outs sv' running where d: "lsp_dispatch J ops (case m of JObject ms \<Rightarrow> Some ms | _ \<Rightarrow> None) sv = ((outs, sv'), running)"
    using dispatch_cases .
  have m: "sendable J m" and ms: "list_all (sendable J) msgs" using Cons.prems by simp_all
  note r = read_sent(1) [OF assms m] read_sent(2) [OF assms m, of ops sv, unfolded d] d Cons.IH [OF ms]
  show ?case
  proof (cases running)
    case True
    then show ?thesis
      unfolding inp using r by (subst lsp_server_run.simps) (simp add: case_prod_beta)
  next
    case False
    then show ?thesis unfolding inp using r by (subst lsp_server_run.simps) simp
  qed
qed (simp add: run_eof)

text \<open>The documents a client believes the server to hold: text and version per uri.\<close>

datatype doc_event = Opened string string int | Changed string string int | Closed string | Untouched

definition doc_view :: "'b lsp_server \<Rightarrow> string \<Rightarrow> (string \<times> int) option" where
  "doc_view sv u = map_option (\<lambda>d. (ld_text d, ld_version d)) (lsp_document_store_get (sv_documents sv) u)"

fun doc_spec :: "doc_event \<Rightarrow> (string \<Rightarrow> (string \<times> int) option) \<Rightarrow> string \<Rightarrow> (string \<times> int) option" where
  "doc_spec (Opened u t v) docs = docs(u \<mapsto> (t, v))"
| "doc_spec (Changed u t v) docs = (if docs u = None then docs else docs(u \<mapsto> (t, v)))"
| "doc_spec (Closed u) docs = docs(u := None)"
| "doc_spec Untouched docs = docs"

definition doc_event_of :: "json_glib \<Rightarrow> json_object option \<Rightarrow> doc_event" where
  "doc_event_of J msg =
     (let params = lsp_get_object J msg ''params''; td = lsp_get_object J params ''textDocument'';
          meth = lsp_get_string J msg ''method''; version = lsp_get_int J td ''version'' 0 in
      case lsp_get_string J td ''uri'' of None \<Rightarrow> Untouched
      | Some u \<Rightarrow>
          if meth = Some ''textDocument/didOpen'' then Opened u (or_empty (lsp_get_string J td ''text'')) version
          else if meth = Some ''textDocument/didChange'' then
            (case last_change J params of None \<Rightarrow> Untouched | Some t \<Rightarrow> Changed u (or_empty t) version)
          else if meth = Some ''textDocument/didClose'' then Closed u
          else Untouched)"

lemma diagnose_documents [simp]: "sv_documents (snd (run_diagnose ops doc sv)) = sv_documents sv"
  by (simp add: run_diagnose_def split: option.split prod.split)

lemma doc_view_cong: "sv_documents sv = sv_documents sv' \<Longrightarrow> doc_view sv = doc_view sv'"
  by (simp add: doc_view_def fun_eq_iff)

lemmas store_defs = doc_view_def lsp_document_store_get_def lsp_document_store_open_def lsp_document_store_close_def
  lsp_document_new_def lsp_document_update_def

definition store_ok :: "'b lsp_server \<Rightarrow> bool" where
  "store_ok sv \<longleftrightarrow> gh_invar (sv_documents sv)"

lemma open_view:
  assumes "store_ok sv" "lsp_get_string J (lsp_get_object J params ''textDocument'') ''uri'' = Some u"
  shows "doc_view (snd (handle_did_open J ops params sv)) =
    (doc_view sv)(u \<mapsto> (or_empty (lsp_get_string J (lsp_get_object J params ''textDocument'') ''text''),
       lsp_get_int J (lsp_get_object J params ''textDocument'') ''version'' 0)) \<and> store_ok (snd (handle_did_open J ops params sv))"
  using assms by (auto simp: handle_did_open_def Let_def store_defs store_ok_def fun_eq_iff)

lemma change_view:
  assumes "store_ok sv" "lsp_get_string J (lsp_get_object J params ''textDocument'') ''uri'' = Some u"
    and "last_change J params = Some t"
  shows "doc_view (snd (handle_did_change J ops params sv)) =
    (if doc_view sv u = None then doc_view sv
     else (doc_view sv)(u \<mapsto> (or_empty t, lsp_get_int J (lsp_get_object J params ''textDocument'') ''version'' 0))) \<and>
    store_ok (snd (handle_did_change J ops params sv))"
  using assms by (auto simp: handle_did_change_def Let_def store_defs store_ok_def fun_eq_iff split: option.split)

lemma close_view:
  assumes "store_ok sv" "lsp_get_string J (lsp_get_object J params ''textDocument'') ''uri'' = Some u"
  shows "doc_view (snd (handle_did_close J params sv)) = (doc_view sv)(u := None) \<and>
    store_ok (snd (handle_did_close J params sv))"
  using assms by (auto simp: handle_did_close_def store_defs store_ok_def fun_eq_iff)

lemma positional_documents [simp]:
  "sv_documents (snd (dispatch_positional J params i slot sv)) = sv_documents sv"
  "sv_documents (snd (dispatch_document J params i slot' sv)) = sv_documents sv"
  by (auto simp: dispatch_positional_def dispatch_document_def split: option.splits prod.splits)


definition message_object :: "json \<Rightarrow> json_object option" where
  "message_object m = (case m of JObject ms \<Rightarrow> Some ms | _ \<Rightarrow> None)"

lemma dispatch_flags:
  "snd (lsp_dispatch J ops msg sv) \<longleftrightarrow> lsp_get_string J msg ''method'' \<noteq> Some ''exit''"
  "sv_initialized (snd (fst (lsp_dispatch J ops msg sv))) =
     (sv_initialized sv \<or> lsp_get_string J msg ''method'' = Some ''initialize'')"
  by (cases "lsp_get_string J msg ''method''"; simp add: lsp_dispatch_def Let_def handle_initialize_def keeps_flags)+

lemma dispatch_open_view:
  assumes "lsp_get_string J msg ''method'' = Some ''textDocument/didOpen''" "sv_initialized sv" "store_ok sv"
  shows "doc_view (snd (fst (lsp_dispatch J ops msg sv))) = doc_spec (doc_event_of J msg) (doc_view sv) \<and>
    store_ok (snd (fst (lsp_dispatch J ops msg sv)))"
proof (cases "lsp_get_string J (lsp_get_object J (lsp_get_object J msg ''params'') ''textDocument'') ''uri''")
  case None
  then show ?thesis using assms by (simp add: lsp_dispatch_def Let_def doc_event_of_def handle_did_open_def)
next
  case (Some u)
  then show ?thesis using assms open_view [OF assms(3) Some, of ops] by (simp add: lsp_dispatch_def Let_def doc_event_of_def)
qed

lemma dispatch_change_view:
  assumes "lsp_get_string J msg ''method'' = Some ''textDocument/didChange''" "sv_initialized sv" "store_ok sv"
  shows "doc_view (snd (fst (lsp_dispatch J ops msg sv))) = doc_spec (doc_event_of J msg) (doc_view sv) \<and>
    store_ok (snd (fst (lsp_dispatch J ops msg sv)))"
proof (cases "lsp_get_string J (lsp_get_object J (lsp_get_object J msg ''params'') ''textDocument'') ''uri''")
  case None
  then show ?thesis using assms by (simp add: lsp_dispatch_def Let_def doc_event_of_def handle_did_change_def)
next
  case (Some u)
  show ?thesis
  proof (cases "last_change J (lsp_get_object J msg ''params'')")
    case None
    with Some show ?thesis using assms by (simp add: lsp_dispatch_def Let_def doc_event_of_def handle_did_change_def)
  next
    case t: (Some t)
    then show ?thesis using Some assms change_view [OF assms(3) Some t, of ops]
      by (simp add: lsp_dispatch_def Let_def doc_event_of_def)
  qed
qed

lemma dispatch_close_view:
  assumes "lsp_get_string J msg ''method'' = Some ''textDocument/didClose''" "sv_initialized sv" "store_ok sv"
  shows "doc_view (snd (fst (lsp_dispatch J ops msg sv))) = doc_spec (doc_event_of J msg) (doc_view sv) \<and>
    store_ok (snd (fst (lsp_dispatch J ops msg sv)))"
proof (cases "lsp_get_string J (lsp_get_object J (lsp_get_object J msg ''params'') ''textDocument'') ''uri''")
  case None
  then show ?thesis using assms by (simp add: lsp_dispatch_def Let_def doc_event_of_def handle_did_close_def)
next
  case (Some u)
  then show ?thesis using assms close_view [OF assms(3) Some] by (simp add: lsp_dispatch_def Let_def doc_event_of_def)
qed

lemma dispatch_quiet_documents:
  assumes "sv_initialized sv \<longrightarrow> lsp_get_string J msg ''method'' \<notin> Some ` set document_notifications"
  shows "sv_documents (snd (fst (lsp_dispatch J ops msg sv))) = sv_documents sv"
  using assms
  by (cases "lsp_get_string J msg ''method''")
     (simp_all add: lsp_dispatch_def Let_def handle_initialize_def document_notifications_def)

lemma dispatch_view:
  assumes "store_ok sv"
  shows "doc_view (snd (fst (lsp_dispatch J ops msg sv))) =
      (if sv_initialized sv then doc_spec (doc_event_of J msg) (doc_view sv) else doc_view sv) \<and>
    store_ok (snd (fst (lsp_dispatch J ops msg sv)))"
proof (cases "sv_initialized sv \<and> lsp_get_string J msg ''method'' \<in> Some ` set document_notifications")
  case True
  then consider "lsp_get_string J msg ''method'' = Some ''textDocument/didOpen''"
    | "lsp_get_string J msg ''method'' = Some ''textDocument/didChange''"
    | "lsp_get_string J msg ''method'' = Some ''textDocument/didClose''"
    unfolding document_notifications_def list.set image_insert image_empty insert_iff empty_iff by blast
  then show ?thesis
    by cases (use True assms in \<open>simp_all add: dispatch_open_view dispatch_change_view dispatch_close_view\<close>)
next
  case False
  then have docs: "sv_documents (snd (fst (lsp_dispatch J ops msg sv))) = sv_documents sv"
    by (intro dispatch_quiet_documents) blast
  have "doc_event_of J msg = Untouched" if "sv_initialized sv"
    using False that by (simp add: doc_event_of_def Let_def document_notifications_def split: option.split)
  then show ?thesis using assms doc_view_cong [OF docs] docs by (simp add: store_ok_def)
qed

text \<open>The documents after a session, from the messages alone.\<close>

fun doc_run ::
  "json_glib \<Rightarrow> json list \<Rightarrow> bool \<Rightarrow> (string \<Rightarrow> (string \<times> int) option) \<Rightarrow> string \<Rightarrow> (string \<times> int) option" where
  "doc_run J [] ini docs = docs"
| "doc_run J (m # msgs) ini docs =
     (let msg = message_object m; meth = lsp_get_string J msg ''method'';
          docs' = (if ini then doc_spec (doc_event_of J msg) docs else docs)
      in if meth = Some ''exit'' then docs' else doc_run J msgs (ini \<or> meth = Some ''initialize'') docs')"

lemma session_view:
  "store_ok sv \<Longrightarrow> doc_view (snd (lsp_session J ops msgs sv)) = doc_run J msgs (sv_initialized sv) (doc_view sv)"
proof (induction msgs arbitrary: sv)
  case (Cons m msgs)
  obtain outs sv' running where d: "lsp_dispatch J ops (message_object m) sv = ((outs, sv'), running)"
    using dispatch_cases .
  have v: "doc_view sv' = (if sv_initialized sv then doc_spec (doc_event_of J (message_object m)) (doc_view sv) else doc_view sv)"
      "store_ok sv'"
    using dispatch_view [OF Cons.prems, of J ops "message_object m"] d by simp_all
  have f: "running \<longleftrightarrow> lsp_get_string J (message_object m) ''method'' \<noteq> Some ''exit''"
      "sv_initialized sv' = (sv_initialized sv \<or> lsp_get_string J (message_object m) ''method'' = Some ''initialize'')"
    using dispatch_flags [of J ops "message_object m" sv] d by simp_all
  have "lsp_session J ops (m # msgs) sv =
      (if running then (outs @ fst (lsp_session J ops msgs sv'), snd (lsp_session J ops msgs sv')) else (outs, sv'))"
    using d by (simp add: message_object_def case_prod_beta)
  then show ?case using Cons.IH [OF v(2)] v(1) f by (simp add: Let_def)
qed simp

text \<open>
  Property (C31). A session over bytes is a session over messages. For every backend and every sequence
  of well-formed JSON messages, running the server on the bytes a client writes for them ends,
  writes the frames of exactly the messages that handling them one by one sends, up to the first
  \<^verbatim>\<open>exit\<close>, and returns 0 if a \<^verbatim>\<open>shutdown\<close> was among those handled and 1 otherwise. The documents it
  then holds are those the open, change and close notifications describe: an open sets text and
  version, a change does so for an open document only, a close forgets, nothing else matters, and
  nothing before \<^verbatim>\<open>initialize\<close> does.
\<close>

theorem lsp_session_refines:
  assumes "json_glib_ok J" "list_all (sendable J) msgs" "lsp_session J ops msgs (lsp_server_new b) = (outs, sv)"
  shows "lsp_server_run J ops (fold (write_root J) msgs []) [] (lsp_server_new b) =
      (if sv_shutdown_requested sv then 0 else 1, fold (write_root J) outs [], sv) \<and>
    doc_view sv = doc_run J msgs False (\<lambda>_. None)"
proof -
  have "store_ok (lsp_server_new b)" "doc_view (lsp_server_new b) = (\<lambda>_. None)" "\<not> sv_initialized (lsp_server_new b)"
    by (simp_all add: store_ok_def lsp_server_new_def lsp_document_store_new_def doc_view_def lsp_document_store_get_def
        fun_eq_iff)
  then show ?thesis
    using run_session [OF assms(1,2), of ops "[]" "lsp_server_new b"] session_view [of "lsp_server_new b" J ops msgs] assms(3) by simp
qed

definition demo_msgs :: "json list" where
  "demo_msgs = [JObject [(''id'', JInt 1), (''method'', JString ''initialize'')],
     JObject [(''method'', JString ''textDocument/didOpen''),
       (''params'', JObject [(''textDocument'', JObject [(''uri'', JString ''u''), (''text'', JString ''t''), (''version'', JInt 3)])])],
     JObject [(''id'', JInt 2), (''method'', JString ''shutdown'')], JObject [(''method'', JString ''exit'')]]"

theorem lsp_session_refines_witness:
  "fst (lsp_server_run ref_json_glib ref_ops (fold (write_root ref_json_glib) demo_msgs []) [] (lsp_server_new ())) = 0 \<and>
   doc_view (snd (lsp_session ref_json_glib ref_ops demo_msgs (lsp_server_new ()))) ''u'' = Some (''t'', 3)"
proof -
  obtain outs sv where s: "lsp_session ref_json_glib ref_ops demo_msgs (lsp_server_new ()) = (outs, sv)"
    by (cases "lsp_session ref_json_glib ref_ops demo_msgs (lsp_server_new ())")
  have a: "list_all json_wf demo_msgs" by code_simp
  have b: "list_all (\<lambda>m. length (jg_to_string ref_json_glib m) < 5000) demo_msgs" by code_simp
  have send: "list_all (sendable ref_json_glib) demo_msgs"
    using a b by (auto simp: list_all_iff sendable_def)
  have sd: "sv_shutdown_requested (snd (lsp_session ref_json_glib ref_ops demo_msgs (lsp_server_new ())))" by code_simp
  have dr: "doc_run ref_json_glib demo_msgs False (\<lambda>_. None) ''u'' = Some (''t'', 3)" by code_simp
  show ?thesis using lsp_session_refines [OF ref_json_glib_ok send s] sd dr s by simp
qed

end
