(* ===== verification/Hand_Gesture.thy ===== *)
theory Hand_Gesture
  imports Cmacs_Prelude
begin

text \<open>
  \<^verbatim>\<open>src/cmacs/gesture/cmacs-hand-gesture.c\<close>: the pinch and palm classifier both hand sources feed. One
  call consumes a sample of each hand and appends the actions it recognises to a bounded array.
  Floats are an opaque type with the arithmetic the file uses as a parameter; times and pixels are
  unbounded integers, so the overflow of the C sum of pixel distances, for samples some \<open>2 ^ 30\<close> pixels
  apart, is outside the model (the protocol of actions below does not depend on that sum).
\<close>

type_synonym 'f vec3 = "'f \<times> 'f \<times> 'f"

record 'f hg_floats =
  hf_sub :: "'f \<Rightarrow> 'f \<Rightarrow> 'f"
  hf_add :: "'f \<Rightarrow> 'f \<Rightarrow> 'f"
  hf_mul :: "'f \<Rightarrow> 'f \<Rightarrow> 'f"
  hf_div :: "'f \<Rightarrow> 'f \<Rightarrow> 'f"
  hf_sqrt :: "'f \<Rightarrow> 'f"
  hf_ge :: "'f \<Rightarrow> 'f \<Rightarrow> bool"
  hf_nonzero :: "'f \<Rightarrow> bool"
  hf_of_int :: "int \<Rightarrow> 'f"
  hf_to_int :: "'f \<Rightarrow> int"
  hf_move_m :: 'f
  hf_zoom_min_m :: 'f

abbreviation (input) HG_HOLD_US :: int where "HG_HOLD_US \<equiv> 450000"
abbreviation (input) HG_TAP_EMPTY_US :: int where "HG_TAP_EMPTY_US \<equiv> 600000"
abbreviation (input) HG_MOVE_PX :: int where "HG_MOVE_PX \<equiv> 14"
abbreviation (input) HG_SCROLL_PX :: int where "HG_SCROLL_PX \<equiv> 36"
abbreviation (input) HG_PALM_US :: int where "HG_PALM_US \<equiv> 300000"
abbreviation (input) HG_MAX_ACTIONS :: nat where "HG_MAX_ACTIONS \<equiv> 24"

datatype hg_target = HG_NONE | HG_PANEL | HG_KEYBOARD | HG_WORKSPACE

record 'f hg_sample =
  sm_tracked :: bool
  sm_pinched :: bool
  sm_palm_up :: bool
  sm_target :: hg_target
  sm_fx :: int
  sm_fy :: int
  sm_pos :: "'f vec3"

datatype hg_mode = PM_IDLE | PM_PENDING | PM_DRAG | PM_SCROLL | PM_PULL | PM_KEY | PM_ZOOM

record 'f hg_hand =
  hh_mode :: hg_mode
  hh_t0 :: int
  hh_target0 :: hg_target
  hh_fx0 :: int
  hh_fy0 :: int
  hh_lastfx :: int
  hh_lastfy :: int
  hh_pos0 :: "'f vec3"
  hh_lastpos :: "'f vec3"
  hh_acc_x :: 'f
  hh_acc_y :: 'f
  hh_palm_up :: bool
  hh_palm_sent :: bool
  hh_palm_since :: int

record 'f hg_state =
  hg_h0 :: "'f hg_hand"
  hg_h1 :: "'f hg_hand"
  hg_zooming :: bool
  hg_zoom_d0 :: 'f
  hg_zoom_ratio :: 'f

datatype hg_kind =
    HG_CLICK | HG_DRAG_BEGIN | HG_DRAG_END | HG_SCROLL | HG_PULL_BEGIN | HG_PULL_MOVE | HG_PULL_END | HG_TAP
  | HG_KEY_DOWN | HG_KEY_UP | HG_PALM_UP | HG_PALM_DOWN | HG_ZOOM_BEGIN | HG_ZOOM | HG_ZOOM_END

record 'f hg_action =
  ac_kind :: hg_kind
  ac_hand :: int
  ac_x :: int
  ac_y :: int
  ac_v :: "'f vec3"

section \<open>The classifier\<close>

definition hg_dist :: "'f hg_floats \<Rightarrow> 'f vec3 \<Rightarrow> 'f vec3 \<Rightarrow> 'f" where
  "hg_dist F a b =
     (case a of (a0, a1, a2) \<Rightarrow> case b of (b0, b1, b2) \<Rightarrow>
        let dx = hf_sub F a0 b0; dy = hf_sub F a1 b1; dz = hf_sub F a2 b2
        in hf_sqrt F (hf_add F (hf_add F (hf_mul F dx dx) (hf_mul F dy dy)) (hf_mul F dz dz)))"

definition zero3 :: "'f hg_floats \<Rightarrow> 'f vec3" where
  "zero3 F = (hf_of_int F 0, hf_of_int F 0, hf_of_int F 0)"

text \<open>The array written so far is the list; \<open>n\<close> is its length. A full array drops the action.\<close>

definition hg_push ::
  "'f hg_floats \<Rightarrow> nat \<Rightarrow> 'f hg_action list \<Rightarrow> hg_kind \<Rightarrow> int \<Rightarrow> int \<Rightarrow> int \<Rightarrow> 'f vec3 option \<Rightarrow> 'f hg_action list" where
  "hg_push F mx out kind hand x y v =
     (if length out \<ge> mx then out
      else out @ [\<lparr>ac_kind = kind, ac_hand = hand, ac_x = x, ac_y = y,
                   ac_v = (case v of Some w \<Rightarrow> w | None \<Rightarrow> zero3 F)\<rparr>])"

definition hg_end ::
  "'f hg_floats \<Rightarrow> nat \<Rightarrow> int \<Rightarrow> int \<Rightarrow> bool \<Rightarrow> 'f hg_hand \<Rightarrow> 'f hg_action list \<Rightarrow> 'f hg_hand \<times> 'f hg_action list" where
  "hg_end F mx h now released g out =
     (g\<lparr>hh_mode := PM_IDLE\<rparr>,
      case hh_mode g of
        PM_PENDING \<Rightarrow>
          if \<not> released then out
          else if hh_target0 g = HG_PANEL \<or> hh_target0 g = HG_WORKSPACE
          then hg_push F mx out HG_CLICK h (hh_fx0 g) (hh_fy0 g) None
          else if hh_target0 g = HG_NONE \<and> now - hh_t0 g \<le> HG_TAP_EMPTY_US
          then hg_push F mx out HG_TAP h 0 0 None else out
      | PM_DRAG \<Rightarrow> hg_push F mx out HG_DRAG_END h (hh_lastfx g) (hh_lastfy g) None
      | PM_PULL \<Rightarrow> hg_push F mx out HG_PULL_END h 0 0 None
      | PM_KEY \<Rightarrow> hg_push F mx out HG_KEY_UP h 0 0 None
      | _ \<Rightarrow> out)"

definition zoom_ready :: "'f hg_sample \<Rightarrow> 'f hg_hand \<Rightarrow> bool" where
  "zoom_ready s g \<longleftrightarrow> sm_tracked s \<and> sm_pinched s \<and> (hh_mode g = PM_PENDING \<or> hh_mode g = PM_PULL)"

definition zoom_grab ::
  "'f hg_floats \<Rightarrow> nat \<Rightarrow> int \<Rightarrow> 'f hg_hand \<Rightarrow> 'f hg_action list \<Rightarrow> 'f hg_hand \<times> 'f hg_action list" where
  "zoom_grab F mx h g out =
     (g\<lparr>hh_mode := PM_ZOOM\<rparr>,
      if hh_mode g = PM_PULL then hg_push F mx out HG_PULL_END h 0 0 None else out)"

definition zoom_step ::
  "'f hg_floats \<Rightarrow> nat \<Rightarrow> 'f hg_sample \<Rightarrow> 'f hg_sample \<Rightarrow> 'f hg_state \<Rightarrow> 'f hg_action list
     \<Rightarrow> 'f hg_state \<times> 'f hg_action list" where
  "zoom_step F mx s0 s1 g out =
     (if \<not> hg_zooming g then
        if zoom_ready s0 (hg_h0 g) \<and> zoom_ready s1 (hg_h1 g)
           \<and> hf_ge F (hg_dist F (sm_pos s0) (sm_pos s1)) (hf_zoom_min_m F)
        then (case zoom_grab F mx 0 (hg_h0 g) out of (h0, out1) \<Rightarrow>
              case zoom_grab F mx 1 (hg_h1 g) out1 of (h1, out2) \<Rightarrow>
                (g\<lparr>hg_h0 := h0, hg_h1 := h1, hg_zooming := True,
                   hg_zoom_d0 := hg_dist F (sm_pos s0) (sm_pos s1), hg_zoom_ratio := hf_of_int F 1\<rparr>,
                 hg_push F mx out2 HG_ZOOM_BEGIN (-1) 0 0 None))
        else (g, out)
      else if sm_tracked s0 \<and> sm_pinched s0 \<and> sm_tracked s1 \<and> sm_pinched s1 then
        (let r = hf_div F (hg_dist F (sm_pos s0) (sm_pos s1)) (hg_zoom_d0 g)
         in (g\<lparr>hg_zoom_ratio := r\<rparr>,
             hg_push F mx out HG_ZOOM (-1) 0 0 (Some (r, hf_of_int F 0, hf_of_int F 0))))
      else
        (g\<lparr>hg_zooming := False\<rparr>,
         hg_push F mx out HG_ZOOM_END (-1) 0 0 (Some (hg_zoom_ratio g, hf_of_int F 0, hf_of_int F 0))))"

definition palm_step ::
  "'f hg_floats \<Rightarrow> nat \<Rightarrow> int \<Rightarrow> int \<Rightarrow> 'f hg_sample \<Rightarrow> 'f hg_hand \<Rightarrow> 'f hg_action list
     \<Rightarrow> 'f hg_hand \<times> 'f hg_action list" where
  "palm_step F mx now h hs hg out =
     (if sm_palm_up hs \<and> \<not> sm_pinched hs then
        if \<not> hh_palm_up hg then (hg\<lparr>hh_palm_up := True, hh_palm_sent := False, hh_palm_since := now\<rparr>, out)
        else if \<not> hh_palm_sent hg \<and> now - hh_palm_since hg \<ge> HG_PALM_US
        then (hg\<lparr>hh_palm_sent := True\<rparr>, hg_push F mx out HG_PALM_UP h 0 0 None)
        else (hg, out)
      else if hh_palm_up hg \<and> \<not> sm_palm_up hs then
        (hg\<lparr>hh_palm_up := False, hh_palm_sent := False\<rparr>,
         if hh_palm_sent hg then hg_push F mx out HG_PALM_DOWN h 0 0 None else out)
      else (hg, out))"

definition pinch_start ::
  "'f hg_floats \<Rightarrow> nat \<Rightarrow> int \<Rightarrow> int \<Rightarrow> 'f hg_sample \<Rightarrow> 'f hg_hand \<Rightarrow> 'f hg_action list
     \<Rightarrow> 'f hg_hand \<times> 'f hg_action list" where
  "pinch_start F mx now h hs hg out =
     (let hg' = hg\<lparr>hh_t0 := now, hh_target0 := sm_target hs, hh_fx0 := sm_fx hs, hh_lastfx := sm_fx hs,
                   hh_fy0 := sm_fy hs, hh_lastfy := sm_fy hs, hh_pos0 := sm_pos hs, hh_lastpos := sm_pos hs,
                   hh_acc_x := hf_of_int F 0, hh_acc_y := hf_of_int F 0\<rparr>
      in if sm_target hs = HG_KEYBOARD
         then (hg'\<lparr>hh_mode := PM_KEY\<rparr>, hg_push F mx out HG_KEY_DOWN h 0 0 None)
         else (hg'\<lparr>hh_mode := PM_PENDING\<rparr>, out))"

definition pinch_pending ::
  "'f hg_floats \<Rightarrow> nat \<Rightarrow> int \<Rightarrow> int \<Rightarrow> 'f hg_sample \<Rightarrow> 'f hg_hand \<Rightarrow> 'f hg_action list
     \<Rightarrow> 'f hg_hand \<times> 'f hg_action list" where
  "pinch_pending F mx now h hs hg out =
     (if hh_target0 hg = HG_PANEL then
        (let moved = (if sm_target hs = HG_PANEL then \<bar>sm_fx hs - hh_fx0 hg\<bar> + \<bar>sm_fy hs - hh_fy0 hg\<bar> else 0)
         in if moved \<ge> HG_MOVE_PX
            then (hg\<lparr>hh_mode := PM_SCROLL, hh_lastfx := sm_fx hs, hh_lastfy := sm_fy hs\<rparr>, out)
            else if now - hh_t0 hg \<ge> HG_HOLD_US
            then (hg\<lparr>hh_mode := PM_DRAG\<rparr>, hg_push F mx out HG_DRAG_BEGIN h (hh_fx0 hg) (hh_fy0 hg) None)
            else (hg, out))
      else if hh_target0 hg = HG_NONE \<and> hf_ge F (hg_dist F (sm_pos hs) (hh_pos0 hg)) (hf_move_m F)
      then (hg\<lparr>hh_mode := PM_PULL, hh_lastpos := sm_pos hs\<rparr>, hg_push F mx out HG_PULL_BEGIN h 0 0 None)
      else (hg, out))"

definition pinch_scroll ::
  "'f hg_floats \<Rightarrow> nat \<Rightarrow> int \<Rightarrow> 'f hg_sample \<Rightarrow> 'f hg_hand \<Rightarrow> 'f hg_action list
     \<Rightarrow> 'f hg_hand \<times> 'f hg_action list" where
  "pinch_scroll F mx h hs hg out =
     (if sm_target hs = HG_PANEL then
        (let ax = hf_add F (hh_acc_x hg) (hf_of_int F (sm_fx hs - hh_lastfx hg));
             ay = hf_add F (hh_acc_y hg) (hf_of_int F (sm_fy hs - hh_lastfy hg));
             sx = hf_to_int F (hf_div F ax (hf_of_int F HG_SCROLL_PX));
             sy = hf_to_int F (hf_div F ay (hf_of_int F HG_SCROLL_PX))
         in (hg\<lparr>hh_lastfx := sm_fx hs, hh_lastfy := sm_fy hs,
                hh_acc_x := hf_sub F ax (hf_of_int F (sx * HG_SCROLL_PX)),
                hh_acc_y := hf_sub F ay (hf_of_int F (sy * HG_SCROLL_PX))\<rparr>,
             if sx \<noteq> 0 \<or> sy \<noteq> 0 then hg_push F mx out HG_SCROLL h sx sy None else out))
      else (hg, out))"

definition pinch_pull ::
  "'f hg_floats \<Rightarrow> nat \<Rightarrow> int \<Rightarrow> 'f hg_sample \<Rightarrow> 'f hg_hand \<Rightarrow> 'f hg_action list
     \<Rightarrow> 'f hg_hand \<times> 'f hg_action list" where
  "pinch_pull F mx h hs hg out =
     (case sm_pos hs of (p0, p1, p2) \<Rightarrow> case hh_lastpos hg of (l0, l1, l2) \<Rightarrow>
        let d0 = hf_sub F p0 l0; d1 = hf_sub F p1 l1; d2 = hf_sub F p2 l2
        in (hg\<lparr>hh_lastpos := sm_pos hs\<rparr>,
            if hf_nonzero F d0 \<or> hf_nonzero F d1 \<or> hf_nonzero F d2
            then hg_push F mx out HG_PULL_MOVE h 0 0 (Some (d0, d1, d2)) else out))"

definition hand_step ::
  "'f hg_floats \<Rightarrow> nat \<Rightarrow> int \<Rightarrow> int \<Rightarrow> 'f hg_sample \<Rightarrow> 'f hg_hand \<Rightarrow> 'f hg_action list
     \<Rightarrow> 'f hg_hand \<times> 'f hg_action list" where
  "hand_step F mx now h hs hg out =
     (if \<not> sm_tracked hs then
        (case hg_end F mx h now False hg out of (hg1, out1) \<Rightarrow>
          (hg1\<lparr>hh_palm_up := False, hh_palm_sent := False\<rparr>,
           if hh_palm_up hg1 \<and> hh_palm_sent hg1 then hg_push F mx out1 HG_PALM_DOWN h 0 0 None else out1))
      else
        (case palm_step F mx now h hs hg out of (hg1, out1) \<Rightarrow>
          if \<not> sm_pinched hs then
            (if hh_mode hg1 \<noteq> PM_IDLE then hg_end F mx h now True hg1 out1 else (hg1, out1))
          else
            (case hh_mode hg1 of
               PM_IDLE \<Rightarrow> pinch_start F mx now h hs hg1 out1
             | PM_PENDING \<Rightarrow> pinch_pending F mx now h hs hg1 out1
             | PM_SCROLL \<Rightarrow> pinch_scroll F mx h hs hg1 out1
             | PM_DRAG \<Rightarrow>
                 ((if sm_target hs = HG_PANEL then hg1\<lparr>hh_lastfx := sm_fx hs, hh_lastfy := sm_fy hs\<rparr> else hg1), out1)
             | PM_PULL \<Rightarrow> pinch_pull F mx h hs hg1 out1
             | _ \<Rightarrow> (hg1, out1))))"

definition hg_step ::
  "'f hg_floats \<Rightarrow> nat \<Rightarrow> 'f hg_sample \<Rightarrow> 'f hg_sample \<Rightarrow> int \<Rightarrow> 'f hg_state \<Rightarrow> 'f hg_state \<times> 'f hg_action list" where
  "hg_step F mx s0 s1 now g =
     (case zoom_step F mx s0 s1 g [] of (g1, out1) \<Rightarrow>
      case hand_step F mx now 0 s0 (hg_h0 g1) out1 of (h0, out2) \<Rightarrow>
      case hand_step F mx now 1 s1 (hg_h1 g1) out2 of (h1, out3) \<Rightarrow>
        (g1\<lparr>hg_h0 := h0, hg_h1 := h1\<rparr>, out3))"

section \<open>The protocol of actions\<close>

text \<open>
  What a consumer of the actions sees of each hand: free, or in a drag, a pull or a key press; the
  palm up or not; and whether a zoom is on. An action is acceptable in some of these states only.
\<close>

datatype grip = GFree | GDrag | GPull | GKey

record hg_view =
  vw_grip :: "int \<Rightarrow> grip"
  vw_palm :: "int \<Rightarrow> bool"
  vw_zoom :: bool

fun accept_kind :: "hg_kind \<Rightarrow> int \<Rightarrow> hg_view \<Rightarrow> hg_view option" where
  "accept_kind HG_CLICK h v = (if vw_grip v h = GFree \<and> \<not> vw_zoom v then Some v else None)"
| "accept_kind HG_TAP h v = (if vw_grip v h = GFree \<and> \<not> vw_zoom v then Some v else None)"
| "accept_kind HG_SCROLL h v = (if vw_grip v h = GFree \<and> \<not> vw_zoom v then Some v else None)"
| "accept_kind HG_DRAG_BEGIN h v =
     (if vw_grip v h = GFree \<and> \<not> vw_zoom v then Some (v\<lparr>vw_grip := (vw_grip v)(h := GDrag)\<rparr>) else None)"
| "accept_kind HG_DRAG_END h v =
     (if vw_grip v h = GDrag then Some (v\<lparr>vw_grip := (vw_grip v)(h := GFree)\<rparr>) else None)"
| "accept_kind HG_PULL_BEGIN h v =
     (if vw_grip v h = GFree \<and> \<not> vw_zoom v then Some (v\<lparr>vw_grip := (vw_grip v)(h := GPull)\<rparr>) else None)"
| "accept_kind HG_PULL_MOVE h v = (if vw_grip v h = GPull then Some v else None)"
| "accept_kind HG_PULL_END h v =
     (if vw_grip v h = GPull then Some (v\<lparr>vw_grip := (vw_grip v)(h := GFree)\<rparr>) else None)"
| "accept_kind HG_KEY_DOWN h v =
     (if vw_grip v h = GFree \<and> \<not> vw_zoom v then Some (v\<lparr>vw_grip := (vw_grip v)(h := GKey)\<rparr>) else None)"
| "accept_kind HG_KEY_UP h v =
     (if vw_grip v h = GKey then Some (v\<lparr>vw_grip := (vw_grip v)(h := GFree)\<rparr>) else None)"
| "accept_kind HG_PALM_UP h v =
     (if \<not> vw_palm v h \<and> \<not> vw_zoom v then Some (v\<lparr>vw_palm := (vw_palm v)(h := True)\<rparr>) else None)"
| "accept_kind HG_PALM_DOWN h v =
     (if vw_palm v h then Some (v\<lparr>vw_palm := (vw_palm v)(h := False)\<rparr>) else None)"
| "accept_kind HG_ZOOM_BEGIN h v =
     (if \<not> vw_zoom v \<and> vw_grip v 0 = GFree \<and> vw_grip v 1 = GFree then Some (v\<lparr>vw_zoom := True\<rparr>) else None)"
| "accept_kind HG_ZOOM h v = (if vw_zoom v then Some v else None)"
| "accept_kind HG_ZOOM_END h v = (if vw_zoom v then Some (v\<lparr>vw_zoom := False\<rparr>) else None)"

definition accept :: "'f hg_action \<Rightarrow> hg_view \<Rightarrow> hg_view option" where
  "accept a v = accept_kind (ac_kind a) (ac_hand a) v"

fun grip_of :: "hg_mode \<Rightarrow> grip" where
  "grip_of PM_DRAG = GDrag" | "grip_of PM_PULL = GPull" | "grip_of PM_KEY = GKey" | "grip_of _ = GFree"

definition view_of :: "'f hg_state \<Rightarrow> hg_view" where
  "view_of g = \<lparr>vw_grip = (\<lambda>h. if h = 0 then grip_of (hh_mode (hg_h0 g)) else if h = 1 then grip_of (hh_mode (hg_h1 g)) else GFree),
     vw_palm = (\<lambda>h. if h = 0 then hh_palm_sent (hg_h0 g) else if h = 1 then hh_palm_sent (hg_h1 g) else False),
     vw_zoom = hg_zooming g\<rparr>"


section \<open>Simulation\<close>

definition shown :: "int \<Rightarrow> 'f hg_hand \<Rightarrow> hg_view \<Rightarrow> hg_view" where
  "shown h hg v = v\<lparr>vw_grip := (vw_grip v)(h := grip_of (hh_mode hg)), vw_palm := (vw_palm v)(h := hh_palm_sent hg)\<rparr>"

definition palm_ok :: "'f hg_hand \<Rightarrow> bool" where
  "palm_ok hg \<longleftrightarrow> (hh_palm_sent hg \<longrightarrow> hh_palm_up hg)"

text \<open>A step of one hand appends at most \<open>k\<close> actions, and they lead from the view of the hand to the new one.\<close>

definition reacts ::
  "nat \<Rightarrow> int \<Rightarrow> 'f hg_hand \<Rightarrow> hg_view \<Rightarrow> 'f hg_action list \<Rightarrow> 'f hg_hand \<times> 'f hg_action list \<Rightarrow> bool" where
  "reacts k h hg v out res \<longleftrightarrow>
     palm_ok (fst res) \<and>
     (\<exists>new. snd res = out @ new \<and> length new \<le> k \<and>
        run_events accept new (shown h hg v) = Some (shown h (fst res) v))"

lemma shown_shown [simp]: "shown h hg' (shown h hg v) = shown h hg' v"
  by (simp add: shown_def)

lemma shown_simps [simp]:
  "vw_grip (shown h hg v) h = grip_of (hh_mode hg)" "vw_palm (shown h hg v) h = hh_palm_sent hg"
  "vw_zoom (shown h hg v) = vw_zoom v"
  by (simp_all add: shown_def)

lemma reacts_quiet:
  "palm_ok hg' \<Longrightarrow> grip_of (hh_mode hg') = grip_of (hh_mode hg) \<Longrightarrow> hh_palm_sent hg' = hh_palm_sent hg \<Longrightarrow>
     reacts k h hg v out (hg', out)"
  by (simp add: reacts_def shown_def)

lemma reacts_push:
  assumes "palm_ok hg'" "length out < mx" "accept_kind kind h (shown h hg v) = Some (shown h hg' v)"
  shows "reacts (Suc k) h hg v out (hg', hg_push F mx out kind h x y w)"
  using assms by (simp add: reacts_def hg_push_def accept_def)

lemma reacts_trans:
  assumes "reacts k h hg v out (hg1, out1)" "reacts k' h hg1 v out1 res"
  shows "reacts (k + k') h hg v out res"
proof -
  obtain new1 where n1: "out1 = out @ new1" "length new1 \<le> k"
      "run_events accept new1 (shown h hg v) = Some (shown h hg1 v)"
    using assms(1) by (auto simp: reacts_def)
  obtain new2 where n2: "snd res = out1 @ new2" "length new2 \<le> k'"
      "run_events accept new2 (shown h hg1 v) = Some (shown h (fst res) v)"
    using assms(2) by (auto simp: reacts_def)
  have "run_events accept (new1 @ new2) (shown h hg v) = Some (shown h (fst res) v)"
    using n1(3) n2(3) by (simp add: run_events_append)
  with n1 n2 assms(2) show ?thesis unfolding reacts_def by (auto intro!: exI [of _ "new1 @ new2"])
qed

lemma reacts_length: "reacts k h hg v out res \<Longrightarrow> length (snd res) \<le> length out + k"
  by (auto simp: reacts_def)

lemma shown_eqI:
  "(vw_grip v)(h := grip_of (hh_mode hg')) = vw_grip w \<Longrightarrow> (vw_palm v)(h := hh_palm_sent hg') = vw_palm w \<Longrightarrow>
     vw_zoom v = vw_zoom w \<Longrightarrow> shown h hg' v = w"
  by (simp add: shown_def)

lemma hg_end_reacts:
  assumes "palm_ok hg" "length out < mx" "\<not> vw_zoom v"
  shows "reacts 1 h hg v out (hg_end F mx h now released hg out)"
proof -
  have p: "palm_ok (hg\<lparr>hh_mode := PM_IDLE\<rparr>)" using assms(1) by (simp add: palm_ok_def)
  show ?thesis
    by (cases "hh_mode hg")
       (auto simp: hg_end_def shown_def assms(3) p intro!: reacts_quiet reacts_push [OF p assms(2)])
qed

lemma palm_step_reacts:
  assumes "palm_ok hg" "length out < mx" "vw_zoom v \<Longrightarrow> sm_pinched hs"
  shows "reacts 1 h hg v out (palm_step F mx now h hs hg out)"
  using assms by (auto simp: palm_step_def palm_ok_def shown_def intro!: reacts_quiet reacts_push)

lemma palm_step_mode [simp]: "hh_mode (fst (palm_step F mx now h hs hg out)) = hh_mode hg"
  by (simp add: palm_step_def)

lemma pinch_reacts:
  assumes "palm_ok hg" "length out < mx" "\<not> vw_zoom v"
  shows "hh_mode hg = PM_IDLE \<Longrightarrow> reacts 1 h hg v out (pinch_start F mx now h hs hg out)"
    and "hh_mode hg = PM_PENDING \<Longrightarrow> reacts 1 h hg v out (pinch_pending F mx now h hs hg out)"
    and "hh_mode hg = PM_SCROLL \<Longrightarrow> reacts 1 h hg v out (pinch_scroll F mx h hs hg out)"
    and "hh_mode hg = PM_PULL \<Longrightarrow> reacts 1 h hg v out (pinch_pull F mx h hs hg out)"
  using assms
  by (auto simp: pinch_start_def pinch_pending_def pinch_scroll_def pinch_pull_def Let_def palm_ok_def shown_def
      split: prod.split intro!: reacts_quiet reacts_push)


lemma hand_step_lost:
  assumes "palm_ok hg" "length out + 1 < mx" "\<not> vw_zoom v" "\<not> sm_tracked hs"
  shows "reacts 2 h hg v out (hand_step F mx now h hs hg out)"
proof -
  obtain hg1 out1 where e: "hg_end F mx h now False hg out = (hg1, out1)" by (cases "hg_end F mx h now False hg out")
  have r: "reacts 1 h hg v out (hg1, out1)" using hg_end_reacts [OF assms(1) _ assms(3), of out mx h F now False] assms(2) e by simp
  have ok1: "palm_ok hg1" using r by (simp add: reacts_def)
  have "reacts 1 h hg1 v out1 (hg1\<lparr>hh_palm_up := False, hh_palm_sent := False\<rparr>,
      if hh_palm_up hg1 \<and> hh_palm_sent hg1 then hg_push F mx out1 HG_PALM_DOWN h 0 0 None else out1)"
    using ok1 reacts_length [OF r] assms(2)
    by (auto simp: palm_ok_def shown_def intro!: reacts_quiet reacts_push)
  from reacts_trans [OF r this] show ?thesis using assms(4) e by (simp add: hand_step_def numeral_2_eq_2)
qed

lemma hand_step_reacts:
  assumes ok: "palm_ok hg" and room: "length out + 1 < mx"
    and zoom: "vw_zoom v \<Longrightarrow> hh_mode hg = PM_ZOOM \<and> sm_tracked hs \<and> sm_pinched hs"
  shows "reacts 2 h hg v out (hand_step F mx now h hs hg out) \<and>
    (vw_zoom v \<longrightarrow> hh_mode (fst (hand_step F mx now h hs hg out)) = PM_ZOOM)"
proof (cases "sm_tracked hs")
  case False
  then show ?thesis using hand_step_lost [OF ok room _ False] zoom by blast
next
  case True
  obtain hg1 out1 where p: "palm_step F mx now h hs hg out = (hg1, out1)" by (cases "palm_step F mx now h hs hg out")
  have r: "reacts 1 h hg v out (hg1, out1)" using palm_step_reacts [OF ok, of out mx v hs h F now] room zoom p by simp
  have ok1: "palm_ok hg1" using r by (simp add: reacts_def)
  have len: "length out1 < mx" using reacts_length [OF r] room by simp
  have mode: "hh_mode hg1 = hh_mode hg" using palm_step_mode [of F mx now h hs hg out] p by simp
  let ?res = "if \<not> sm_pinched hs then if hh_mode hg1 \<noteq> PM_IDLE then hg_end F mx h now True hg1 out1 else (hg1, out1)
      else case hh_mode hg1 of PM_IDLE \<Rightarrow> pinch_start F mx now h hs hg1 out1
        | PM_PENDING \<Rightarrow> pinch_pending F mx now h hs hg1 out1 | PM_SCROLL \<Rightarrow> pinch_scroll F mx h hs hg1 out1
        | PM_DRAG \<Rightarrow> ((if sm_target hs = HG_PANEL then hg1\<lparr>hh_lastfx := sm_fx hs, hh_lastfy := sm_fy hs\<rparr> else hg1), out1)
        | PM_PULL \<Rightarrow> pinch_pull F mx h hs hg1 out1 | _ \<Rightarrow> (hg1, out1)"
  have eq: "hand_step F mx now h hs hg out = ?res" using True p by (simp add: hand_step_def)
  have quiet: "reacts 1 h hg1 v out1 (hg1, out1)" using ok1 by (intro reacts_quiet) simp_all
  have "reacts 1 h hg1 v out1 ?res \<and> (vw_zoom v \<longrightarrow> hh_mode (fst ?res) = PM_ZOOM)"
  proof (cases "vw_zoom v")
    case True
    then show ?thesis using zoom mode quiet by simp
  next
    case False
    have drag: "reacts 1 h hg1 v out1 ((if sm_target hs = HG_PANEL then hg1\<lparr>hh_lastfx := sm_fx hs, hh_lastfy := sm_fy hs\<rparr> else hg1), out1)"
      using ok1 by (intro reacts_quiet) (simp_all add: palm_ok_def)
    show ?thesis
      using False hg_end_reacts [OF ok1 len False, of h F now True] pinch_reacts(1,2) [OF ok1 len False, of h F now hs]
        pinch_reacts(3,4) [OF ok1 len False, of h F hs] quiet drag
      by (cases "hh_mode hg1") simp_all
  qed
  then show ?thesis using reacts_trans [OF r] unfolding eq by (simp add: numeral_2_eq_2)
qed

text \<open>The invariant of the classifier: a palm reported up is up, and a zoom holds both hands.\<close>

definition hg_inv :: "'f hg_state \<Rightarrow> bool" where
  "hg_inv g \<longleftrightarrow> palm_ok (hg_h0 g) \<and> palm_ok (hg_h1 g) \<and>
     (hg_zooming g \<longrightarrow> hh_mode (hg_h0 g) = PM_ZOOM \<and> hh_mode (hg_h1 g) = PM_ZOOM)"

lemma push_room: "length out < mx \<Longrightarrow> hg_push F mx out kind h x y w =
   out @ [\<lparr>ac_kind = kind, ac_hand = h, ac_x = x, ac_y = y, ac_v = (case w of Some v \<Rightarrow> v | None \<Rightarrow> zero3 F)\<rparr>]"
  by (simp add: hg_push_def)

lemma zoom_step_reacts:
  assumes inv: "hg_inv g" and room: "3 \<le> mx" and z: "zoom_step F mx s0 s1 g [] = (g1, out1)"
  shows "hg_inv g1 \<and> length out1 \<le> 3 \<and> run_events accept out1 (view_of g) = Some (view_of g1) \<and>
    (hg_zooming g1 \<longrightarrow> sm_tracked s0 \<and> sm_pinched s0 \<and> sm_tracked s1 \<and> sm_pinched s1)"
proof (cases "hg_zooming g")
  case True
  then show ?thesis
    using z inv room by (auto simp: zoom_step_def hg_inv_def Let_def push_room accept_def view_of_def fun_eq_iff split: if_splits)
next
  case False
  show ?thesis
  proof (cases "zoom_ready s0 (hg_h0 g) \<and> zoom_ready s1 (hg_h1 g) \<and> hf_ge F (hg_dist F (sm_pos s0) (sm_pos s1)) (hf_zoom_min_m F)")
    case True
    then have m: "hh_mode (hg_h0 g) = PM_PENDING \<or> hh_mode (hg_h0 g) = PM_PULL"
        "hh_mode (hg_h1 g) = PM_PENDING \<or> hh_mode (hg_h1 g) = PM_PULL"
        "sm_tracked s0 \<and> sm_pinched s0 \<and> sm_tracked s1 \<and> sm_pinched s1"
      by (auto simp: zoom_ready_def)
    have "zoom_step F mx s0 s1 g [] = (g1, out1)" by (rule z)
    then have g1: "g1 = g\<lparr>hg_h0 := (hg_h0 g)\<lparr>hh_mode := PM_ZOOM\<rparr>, hg_h1 := (hg_h1 g)\<lparr>hh_mode := PM_ZOOM\<rparr>,
        hg_zooming := True, hg_zoom_d0 := hg_dist F (sm_pos s0) (sm_pos s1), hg_zoom_ratio := hf_of_int F 1\<rparr>"
      and out1: "out1 = hg_push F mx (snd (zoom_grab F mx 1 (hg_h1 g) (snd (zoom_grab F mx 0 (hg_h0 g) [])))) HG_ZOOM_BEGIN (-1) 0 0 None"
      using False True by (simp_all add: zoom_step_def zoom_grab_def)
    have "run_events accept out1 (view_of g) = Some (view_of g1) \<and> length out1 \<le> 3"
      using m(1,2) room False unfolding out1 g1
      by (auto simp: zoom_grab_def push_room accept_def view_of_def fun_eq_iff)
    moreover have "hg_inv g1" using inv by (simp add: g1 hg_inv_def palm_ok_def)
    ultimately show ?thesis using m(3) by simp
  next
    case no: False
    then show ?thesis using z inv False by (auto simp: zoom_step_def)
  qed
qed

lemma view_of_shown: "view_of (g\<lparr>hg_h0 := h0, hg_h1 := h1\<rparr>) = shown 1 h1 (shown 0 h0 (view_of g))"
  by (simp add: view_of_def shown_def fun_eq_iff)

lemma shown_self: "shown 0 (hg_h0 g) (view_of g) = view_of g" "shown 1 (hg_h1 g) (shown 0 h0 (view_of g)) = shown 0 h0 (view_of g)"
  by (simp_all add: view_of_def shown_def fun_eq_iff)

lemma hg_step_reacts:
  assumes inv: "hg_inv g" and room: "7 \<le> mx" and st: "hg_step F mx s0 s1 now g = (g', acts)"
  shows "hg_inv g' \<and> length acts \<le> 7 \<and> run_events accept acts (view_of g) = Some (view_of g')"
proof -
  obtain g1 out1 where z: "zoom_step F mx s0 s1 g [] = (g1, out1)" by (cases "zoom_step F mx s0 s1 g []")
  obtain h0 out2 where e0: "hand_step F mx now 0 s0 (hg_h0 g1) out1 = (h0, out2)"
    by (cases "hand_step F mx now 0 s0 (hg_h0 g1) out1")
  obtain h1 out3 where e1: "hand_step F mx now 1 s1 (hg_h1 g1) out2 = (h1, out3)"
    by (cases "hand_step F mx now 1 s1 (hg_h1 g1) out2")
  have res: "g' = g1\<lparr>hg_h0 := h0, hg_h1 := h1\<rparr>" "acts = out3" using st z e0 e1 by (simp_all add: hg_step_def)
  have zr: "hg_inv g1" "length out1 \<le> 3" "run_events accept out1 (view_of g) = Some (view_of g1)"
      "hg_zooming g1 \<Longrightarrow> sm_tracked s0 \<and> sm_pinched s0 \<and> sm_tracked s1 \<and> sm_pinched s1"
    using zoom_step_reacts [OF inv _ z] room by auto
  have zm: "vw_zoom (view_of g1) = hg_zooming g1" by (simp add: view_of_def)
  have r0: "reacts 2 0 (hg_h0 g1) (view_of g1) out1 (h0, out2)" "hg_zooming g1 \<Longrightarrow> hh_mode h0 = PM_ZOOM"
    using hand_step_reacts [of "hg_h0 g1" out1 mx "view_of g1" s0 0 F now] zr room e0 zm by (auto simp: hg_inv_def)
  have len2: "length out2 \<le> 5" using reacts_length [OF r0(1)] zr(2) by simp
  have r1: "reacts 2 1 (hg_h1 g1) (shown 0 h0 (view_of g1)) out2 (h1, out3)" "hg_zooming g1 \<Longrightarrow> hh_mode h1 = PM_ZOOM"
    using hand_step_reacts [of "hg_h1 g1" out2 mx "shown 0 h0 (view_of g1)" s1 1 F now] zr room e1 zm len2
    by (auto simp: hg_inv_def)
  obtain n0 where n0: "out2 = out1 @ n0" "run_events accept n0 (view_of g1) = Some (shown 0 h0 (view_of g1))"
    using r0(1) by (auto simp: reacts_def shown_self)
  obtain n1 where n1: "out3 = out2 @ n1" "run_events accept n1 (shown 0 h0 (view_of g1)) = Some (view_of g')"
    using r1(1) by (auto simp: reacts_def shown_self res(1) view_of_shown)
  have "run_events accept acts (view_of g) = Some (view_of g')"
    using zr(3) n0 n1 by (simp add: res(2) run_events_append)
  moreover have "length acts \<le> 7" using reacts_length [OF r1(1)] len2 by (simp add: res(2))
  moreover have "hg_inv g'" using r0 r1 by (auto simp: hg_inv_def res(1) reacts_def)
  ultimately show ?thesis by blast
qed


section \<open>Runs\<close>

text \<open>The zeroed state the hand sources start from.\<close>

definition hg_zero_hand :: "'f hg_floats \<Rightarrow> 'f hg_hand" where
  "hg_zero_hand F = \<lparr>hh_mode = PM_IDLE, hh_t0 = 0, hh_target0 = HG_NONE, hh_fx0 = 0, hh_fy0 = 0, hh_lastfx = 0,
     hh_lastfy = 0, hh_pos0 = zero3 F, hh_lastpos = zero3 F, hh_acc_x = hf_of_int F 0, hh_acc_y = hf_of_int F 0,
     hh_palm_up = False, hh_palm_sent = False, hh_palm_since = 0\<rparr>"

definition hg_zero :: "'f hg_floats \<Rightarrow> 'f hg_state" where
  "hg_zero F = \<lparr>hg_h0 = hg_zero_hand F, hg_h1 = hg_zero_hand F, hg_zooming = False,
     hg_zoom_d0 = hf_of_int F 0, hg_zoom_ratio = hf_of_int F 0\<rparr>"

fun hg_run ::
  "'f hg_floats \<Rightarrow> nat \<Rightarrow> ('f hg_sample \<times> 'f hg_sample \<times> int) list \<Rightarrow> 'f hg_state \<Rightarrow> 'f hg_state \<times> 'f hg_action list" where
  "hg_run F mx [] g = (g, [])"
| "hg_run F mx ((s0, s1, now) # fs) g =
     (case hg_step F mx s0 s1 now g of (g1, acts) \<Rightarrow>
      case hg_run F mx fs g1 of (g2, acts2) \<Rightarrow> (g2, acts @ acts2))"

definition free_view :: hg_view where
  "free_view = \<lparr>vw_grip = (\<lambda>_. GFree), vw_palm = (\<lambda>_. False), vw_zoom = False\<rparr>"

lemma hg_zero_view: "view_of (hg_zero F) = free_view" "hg_inv (hg_zero F)"
  by (auto simp: view_of_def hg_zero_def hg_zero_hand_def free_view_def hg_inv_def palm_ok_def)

lemma hand_step_untracked:
  "\<not> sm_tracked hs \<Longrightarrow> hh_mode (fst (hand_step F mx now h hs hg out)) = PM_IDLE \<and>
     \<not> hh_palm_sent (fst (hand_step F mx now h hs hg out))"
  by (simp add: hand_step_def hg_end_def)

lemma hg_step_untracked:
  assumes "\<not> sm_tracked s0" "\<not> sm_tracked s1" shows "view_of (fst (hg_step F mx s0 s1 now g)) = free_view"
proof -
  obtain g1 out1 where z: "zoom_step F mx s0 s1 g [] = (g1, out1)" by (cases "zoom_step F mx s0 s1 g []")
  obtain h0 out2 where e0: "hand_step F mx now 0 s0 (hg_h0 g1) out1 = (h0, out2)"
    by (cases "hand_step F mx now 0 s0 (hg_h0 g1) out1")
  obtain h1 out3 where e1: "hand_step F mx now 1 s1 (hg_h1 g1) out2 = (h1, out3)"
    by (cases "hand_step F mx now 1 s1 (hg_h1 g1) out2")
  have "\<not> hg_zooming g1" using z assms by (auto simp: zoom_step_def zoom_ready_def split: if_splits)
  moreover have "hh_mode h0 = PM_IDLE \<and> \<not> hh_palm_sent h0" "hh_mode h1 = PM_IDLE \<and> \<not> hh_palm_sent h1"
    using hand_step_untracked [OF assms(1), of F mx now 0 "hg_h0 g1" out1]
      hand_step_untracked [OF assms(2), of F mx now 1 "hg_h1 g1" out2] e0 e1 by simp_all
  ultimately show ?thesis using z e0 e1 by (simp add: hg_step_def view_of_def free_view_def fun_eq_iff)
qed

lemma hg_run_reacts:
  assumes "7 \<le> mx"
  shows "hg_inv g \<Longrightarrow> hg_run F mx fs g = (g', acts) \<Longrightarrow>
    hg_inv g' \<and> run_events accept acts (view_of g) = Some (view_of g')"
proof (induction fs arbitrary: g acts)
  case (Cons f fs)
  obtain s0 s1 now where f: "f = (s0, s1, now)" by (cases f)
  obtain g1 a1 where st: "hg_step F mx s0 s1 now g = (g1, a1)" by (cases "hg_step F mx s0 s1 now g")
  obtain a2 where r: "hg_run F mx fs g1 = (g', a2)" "acts = a1 @ a2"
    using Cons.prems(2) f st by (auto split: prod.splits)
  note s = hg_step_reacts [OF Cons.prems(1) assms st]
  have "hg_inv g' \<and> run_events accept a2 (view_of g1) = Some (view_of g')"
    using Cons.IH [of g1 a2] s r(1) by blast
  then show ?case using s r(2) by (simp add: run_events_append)
qed simp

lemma hg_run_snoc:
  "fst (hg_run F mx (fs @ [(s0, s1, now)]) g) = fst (hg_step F mx s0 s1 now (fst (hg_run F mx fs g)))"
proof (induction fs arbitrary: g)
  case (Cons f fs)
  then show ?case by (cases f) (simp add: case_prod_beta)
qed (simp add: case_prod_beta)

text \<open>
  Property (C36). The recognised actions always form a well-bracketed stream. Whatever samples arrive,
  in whatever order and at whatever times, and given room for seven actions per frame (the callers
  provide 24): a drag, a pull and a key press begin only on a free hand and are ended, each exactly
  once and by an action of its own kind; clicks, taps and scroll steps occur on a free hand only;
  a zoom begins only when both hands are free, and while it lasts nothing else begins, no palm is reported
  up, and no click, tap or scroll step occurs; a palm goes down only after it was reported up. After every
  frame the open brackets are those the state records, no frame yields more than seven actions, and when
  both hands are lost everything is closed.
\<close>

theorem hg_actions_bracketed:
  fixes F :: "'f hg_floats"
  assumes "7 \<le> mx" "hg_run F mx frames (hg_zero F) = (g, acts)"
  shows "run_events accept acts free_view = Some (view_of g) \<and>
    (\<forall>fs s0 s1 now rest. frames = fs @ (s0, s1, now) # rest \<longrightarrow>
       length (snd (hg_step F mx s0 s1 now (fst (hg_run F mx fs (hg_zero F))))) \<le> 7) \<and>
    (\<forall>fs s0 s1 now. frames = fs @ [(s0, s1, now)] \<longrightarrow> \<not> sm_tracked s0 \<longrightarrow> \<not> sm_tracked s1 \<longrightarrow> view_of g = free_view)"
proof (intro conjI allI impI)
  show "run_events accept acts free_view = Some (view_of g)"
    using hg_run_reacts [OF assms(1) hg_zero_view(2) assms(2)] by (simp add: hg_zero_view(1))
next
  fix fs s0 s1 now and rest :: "('f hg_sample \<times> 'f hg_sample \<times> int) list"
  obtain g1 a1 where "hg_run F mx fs (hg_zero F) = (g1, a1)" by (cases "hg_run F mx fs (hg_zero F)")
  moreover obtain g2 a2 where "hg_step F mx s0 s1 now g1 = (g2, a2)" by (cases "hg_step F mx s0 s1 now g1")
  ultimately show "length (snd (hg_step F mx s0 s1 now (fst (hg_run F mx fs (hg_zero F))))) \<le> 7"
    using hg_run_reacts [OF assms(1) hg_zero_view(2)] hg_step_reacts [OF _ assms(1)] by fastforce
next
  fix fs s0 s1 now assume "frames = fs @ [(s0, s1, now)]" "\<not> sm_tracked s0" "\<not> sm_tracked s1"
  then show "view_of g = free_view"
    using assms(2) hg_run_snoc [of F mx fs s0 s1 now "hg_zero F"] hg_step_untracked [of s0 s1 F mx now] by simp
qed

definition ref_hg_floats :: "int hg_floats" where
  "ref_hg_floats = \<lparr>hf_sub = (-), hf_add = (+), hf_mul = (*), hf_div = c_div, hf_sqrt = (\<lambda>x. x), hf_ge = (\<ge>),
     hf_nonzero = (\<lambda>x. x \<noteq> 0), hf_of_int = (\<lambda>i. i), hf_to_int = (\<lambda>x. x), hf_move_m = 9, hf_zoom_min_m = 25\<rparr>"

definition pinch_frame :: "hg_target \<Rightarrow> bool \<Rightarrow> int \<Rightarrow> int hg_sample \<times> int hg_sample \<times> int" where
  "pinch_frame tgt pinch now =
     (\<lparr>sm_tracked = True, sm_pinched = pinch, sm_palm_up = False, sm_target = tgt, sm_fx = 5, sm_fy = 6, sm_pos = (0, 0, 0)\<rparr>,
      \<lparr>sm_tracked = False, sm_pinched = False, sm_palm_up = False, sm_target = HG_NONE, sm_fx = 0, sm_fy = 0,
       sm_pos = (0, 0, 0)\<rparr>, now)"

theorem hg_actions_bracketed_witness:
  "map ac_kind (snd (hg_run ref_hg_floats 24
      [pinch_frame HG_PANEL True 0, pinch_frame HG_PANEL True 500000, pinch_frame HG_PANEL False 600000] (hg_zero ref_hg_floats)))
     = [HG_DRAG_BEGIN, HG_DRAG_END] \<and>
   run_events accept (snd (hg_run ref_hg_floats 24
      [pinch_frame HG_PANEL True 0, pinch_frame HG_PANEL True 500000, pinch_frame HG_PANEL False 600000] (hg_zero ref_hg_floats)))
      free_view =
     Some (view_of (fst (hg_run ref_hg_floats 24
      [pinch_frame HG_PANEL True 0, pinch_frame HG_PANEL True 500000, pinch_frame HG_PANEL False 600000] (hg_zero ref_hg_floats))))"
proof -
  let ?fs = "[pinch_frame HG_PANEL True 0, pinch_frame HG_PANEL True 500000, pinch_frame HG_PANEL False 600000]"
  obtain g acts where r: "hg_run ref_hg_floats 24 ?fs (hg_zero ref_hg_floats) = (g, acts)"
    by (cases "hg_run ref_hg_floats 24 ?fs (hg_zero ref_hg_floats)")
  have k: "map ac_kind (snd (hg_run ref_hg_floats 24 ?fs (hg_zero ref_hg_floats))) = [HG_DRAG_BEGIN, HG_DRAG_END]"
    by code_simp
  have "run_events accept acts free_view = Some (view_of g)"
    using hg_actions_bracketed [OF _ r] by simp
  with k show ?thesis unfolding r by (simp only: fst_conv snd_conv)
qed

end
