(* ===== verification/C_Bytes.thy ===== *)
theory C_Bytes
  imports Cmacs_Prelude
begin

text \<open>
  Memory and files as lists of bytes, and the integers stored in them. Storage is little-endian,
  as on the hosts the project builds for.
\<close>

type_synonym byte = "8 word"

fun le_bytes :: "nat \<Rightarrow> nat \<Rightarrow> byte list" where
  "le_bytes 0 x = []"
| "le_bytes (Suc n) x = of_nat (x mod 256) # le_bytes n (x div 256)"

fun le_nat :: "byte list \<Rightarrow> nat" where
  "le_nat [] = 0"
| "le_nat (b # bs) = unat b + 256 * le_nat bs"

lemma length_le_bytes [simp]: "length (le_bytes n x) = n"
  by (induction n arbitrary: x) auto

lemma le_nat_le_bytes: "le_nat (le_bytes n x) = x mod 256 ^ n"
proof (induction n arbitrary: x)
  case (Suc n)
  have "unat (of_nat (x mod 256) :: byte) = x mod 256" by (simp add: unat_of_nat)
  then show ?case using Suc [of "x div 256"] by (simp add: mod_mult2_eq)
qed simp

lemma le_nat_less: "le_nat bs < 256 ^ length bs"
proof (induction bs)
  case (Cons b bs)
  have "unat b < 256" using unsigned_less [of b, where 'a = nat] by simp
  then have "unat b + 256 * le_nat bs < 256 * Suc (le_nat bs)" by simp
  also have "\<dots> \<le> 256 * 256 ^ length bs" using Cons by (intro mult_left_mono) auto
  finally show ?case by simp
qed simp

lemma le_bytes_le_nat: "le_bytes (length bs) (le_nat bs) = bs"
proof (induction bs)
  case (Cons b bs)
  have "unat b < 256" using unsigned_less [of b, where 'a = nat] by simp
  then show ?case using Cons by simp
qed simp

text \<open>\<open>n\<close> bytes at an offset of a memory block; outside the block there is nothing to read.\<close>

definition read_bytes :: "byte list \<Rightarrow> nat \<Rightarrow> nat \<Rightarrow> byte list option" where
  "read_bytes bs off n = (if off + n \<le> length bs then Some (take n (drop off bs)) else None)"

lemma le_nat_word32: "of_nat (le_nat (le_bytes 4 (unat w))) = (w :: 32 word)"
proof -
  have "unat w < 4294967296" using unsigned_less [of w, where 'a = nat] by simp
  then show ?thesis by (simp add: le_nat_le_bytes)
qed

lemma le_nat_word64: "of_nat (le_nat (le_bytes 8 (unat w))) = (w :: 64 word)"
proof -
  have "unat w < 18446744073709551616" using unsigned_less [of w, where 'a = nat] by simp
  then show ?thesis by (simp add: le_nat_le_bytes)
qed

lemma le_bytes_word32: "length bs = 4 \<Longrightarrow> le_bytes 4 (unat (of_nat (le_nat bs) :: 32 word)) = bs"
proof -
  assume l: "length bs = 4"
  then have "le_nat bs < 4294967296" using le_nat_less [of bs] by simp
  then have "unat (of_nat (le_nat bs) :: 32 word) = le_nat bs" by (simp add: unat_of_nat)
  then show ?thesis using le_bytes_le_nat [of bs] l by simp
qed

section \<open>Fields of a machine word\<close>

unbundle bit_operations_syntax

lemma or_disjoint: "b < 2 ^ n \<Longrightarrow> 2 ^ n dvd (a :: nat) \<Longrightarrow> a OR b = a + b"
proof -
  assume b: "b < 2 ^ n" and a: "2 ^ n dvd a"
  have "a AND b = 0"
  proof (rule bit_eqI)
    fix k
    have "bit b k \<Longrightarrow> k < n"
      using b by (metis bit_take_bit_iff take_bit_nat_eq_self)
    moreover have "bit a k \<Longrightarrow> n \<le> k"
      using a by (metis bit_push_bit_iff_nat dvd_div_mult_self push_bit_eq_mult)
    ultimately show "bit (a AND b) k = bit 0 k" by (auto simp: bit_and_iff)
  qed
  then show ?thesis by (simp add: disjunctive_add_eq_or)
qed

lemma unat_take_bit: "unat (take_bit n (x :: 32 word)) = unat x mod 2 ^ n"
  unfolding unsigned_take_bit_eq by (rule take_bit_eq_mod)

lemma unat_drop_bit: "unat (drop_bit n (x :: 32 word)) = unat x div 2 ^ n"
  using drop_bit_eq_div [of n "unat x"] unsigned_less [of x, where 'a = nat]
  by (simp only: unsigned_drop_bit_eq) (simp add: take_bit_nat_eq_self)

lemma unat_push_bit: "unat x * 2 ^ n < 2 ^ 32 \<Longrightarrow> unat (push_bit n (x :: 32 word)) = unat x * 2 ^ n"
  by (simp only: unsigned_push_bit_eq) (simp add: take_bit_eq_mod push_bit_eq_mult)

end
