(* ===== verification/C_Float.thy ===== *)
theory C_Float
  imports C_Bytes Lisp_Obj
begin

text \<open>
  Floats as C handles them, by their bit patterns. What a pattern means, comparisons, negation and the
  absolute value are defined; the operations that round are a parameter, a record of the functions of
  the host. Lisp floats are doubles.
\<close>

unbundle bit_operations_syntax

section \<open>Patterns\<close>

definition float_sign :: "32 word \<Rightarrow> bool" where
  "float_sign b = bit b 31"

definition float_exp :: "32 word \<Rightarrow> nat" where
  "float_exp b = unat b div 2 ^ 23 mod 2 ^ 8"

definition float_mant :: "32 word \<Rightarrow> nat" where
  "float_mant b = unat b mod 2 ^ 23"

definition float_mag :: "32 word \<Rightarrow> nat" where
  "float_mag b = (if float_exp b = 0 then float_mant b else (2 ^ 23 + float_mant b) * 2 ^ (float_exp b - 1))"

definition float_nan :: "32 word \<Rightarrow> bool" where
  "float_nan b \<longleftrightarrow> float_exp b = 255 \<and> float_mant b \<noteq> 0"

definition float_int :: "32 word \<Rightarrow> int" where
  "float_int b = (if float_sign b then - int (float_mag b) else int (float_mag b))"

text \<open>C's \<^verbatim>\<open><\<close> and \<^verbatim>\<open><=\<close> on floats: false as soon as one side is a NaN.\<close>

definition float_lt :: "32 word \<Rightarrow> 32 word \<Rightarrow> bool" where
  "float_lt a b \<longleftrightarrow> \<not> float_nan a \<and> \<not> float_nan b \<and> float_int a < float_int b"

definition float_le :: "32 word \<Rightarrow> 32 word \<Rightarrow> bool" where
  "float_le a b \<longleftrightarrow> \<not> float_nan a \<and> \<not> float_nan b \<and> float_int a \<le> float_int b"

text \<open>
  The arithmetic of the host, which rounds. The \<open>f_\<close> operations work on floats, the \<open>d_\<close> operations on doubles;
  \<open>vcvtph\<close> is the hardware's conversion of a half, \<open>f16c\<close> whether the host has it.
\<close>

record fpu =
  f_add :: "32 word \<Rightarrow> 32 word \<Rightarrow> 32 word"
  f_mul :: "32 word \<Rightarrow> 32 word \<Rightarrow> 32 word"
  f_sub :: "32 word \<Rightarrow> 32 word \<Rightarrow> 32 word"
  f_div :: "32 word \<Rightarrow> 32 word \<Rightarrow> 32 word"
  f_of_int :: "int \<Rightarrow> 32 word"
  f16c :: bool
  vcvtph :: "16 word \<Rightarrow> 32 word"
  d_add :: "64 word \<Rightarrow> 64 word \<Rightarrow> 64 word"
  d_mul :: "64 word \<Rightarrow> 64 word \<Rightarrow> 64 word"
  d_div :: "64 word \<Rightarrow> 64 word \<Rightarrow> 64 word"
  d_sqrt :: "64 word \<Rightarrow> 64 word"
  d_lt :: "64 word \<Rightarrow> 64 word \<Rightarrow> bool"
  f_to_d :: "32 word \<Rightarrow> 64 word"
  d_to_f :: "64 word \<Rightarrow> 32 word"
  d_of_int :: "int \<Rightarrow> 64 word"

section \<open>Signs\<close>

definition fabsf :: "32 word \<Rightarrow> 32 word" where
  "fabsf b = b AND 0x7FFFFFFF"

definition float_neg :: "32 word \<Rightarrow> 32 word" where
  "float_neg b = b XOR 0x80000000"

text \<open>C's \<^verbatim>\<open>x != 0.0f\<close>, which holds of a NaN and of neither zero.\<close>

definition float_nonzero :: "32 word \<Rightarrow> bool" where
  "float_nonzero b \<longleftrightarrow> float_nan b \<or> float_int b \<noteq> 0"

lemma float_zero [simp]: "float_int 0 = 0" "\<not> float_nan 0" "\<not> float_nonzero 0"
  by (simp_all add: float_int_def float_mag_def float_exp_def float_mant_def float_nan_def float_nonzero_def)

lemma float_fields_bits: "float_exp b = unat (take_bit 8 (drop_bit 23 b))" "float_mant b = unat (take_bit 23 b)"
  by (simp_all add: float_exp_def float_mant_def unat_take_bit unat_drop_bit)

lemma fabsf_take_bit: "fabsf b = take_bit 31 b"
  unfolding fabsf_def take_bit_eq_mask mask_eq_exp_minus_1 by simp

lemma fabsf_fields [simp]: "float_exp (fabsf b) = float_exp b" "float_mant (fabsf b) = float_mant b" "\<not> float_sign (fabsf b)"
proof -
  show "float_exp (fabsf b) = float_exp b"
    unfolding float_fields_bits fabsf_take_bit by (rule arg_cong [where f = unat]) (rule bit_eqI, auto simp: bit_simps)
  show "float_mant (fabsf b) = float_mant b"
    unfolding float_fields_bits fabsf_take_bit by (rule arg_cong [where f = unat]) (rule bit_eqI, auto simp: bit_simps)
  show "\<not> float_sign (fabsf b)" by (simp add: float_sign_def fabsf_take_bit bit_simps)
qed

lemma fabsf_simps [simp]: "float_nan (fabsf b) = float_nan b" "float_int (fabsf b) = int (float_mag b)"
  by (simp_all add: float_nan_def float_int_def float_mag_def)

lemma float_neg_fields [simp]: "float_exp (float_neg b) = float_exp b" "float_mant (float_neg b) = float_mant b"
  "float_sign (float_neg b) \<longleftrightarrow> \<not> float_sign b"
proof -
  have m: "float_neg b = b XOR push_bit 31 1" by (simp add: float_neg_def)
  show "float_exp (float_neg b) = float_exp b"
    unfolding float_fields_bits m by (rule arg_cong [where f = unat]) (rule bit_eqI, auto simp: bit_simps)
  show "float_mant (float_neg b) = float_mant b"
    unfolding float_fields_bits m by (rule arg_cong [where f = unat]) (rule bit_eqI, auto simp: bit_simps)
  show "float_sign (float_neg b) \<longleftrightarrow> \<not> float_sign b" by (simp add: float_sign_def m bit_simps)
qed

lemma float_neg_simps [simp]: "float_nan (float_neg b) = float_nan b" "float_int (float_neg b) = - float_int b"
  by (simp_all add: float_nan_def float_int_def float_mag_def)

section \<open>Lisp numbers\<close>

text \<open>
  \<^verbatim>\<open>XFLOATINT\<close> takes a fixnum or a float and treats whatever else it is given as a bignum,
  without a check.
\<close>

fun XFLOATINT :: "fpu \<Rightarrow> lisp \<Rightarrow> 64 word option" where
  "XFLOATINT F (LFix i) = Some (d_of_int F i)"
| "XFLOATINT F (LFlo d) = Some d"
| "XFLOATINT F _ = None"

end
