(* ===== verification/Brigade_Half.thy ===== *)
theory Brigade_Half
  imports C_Float
begin

text \<open>
  The fp16 conversions of \<^verbatim>\<open>src/cmacs/ai-brigade/cmacs-brigade-index.c\<close>, on the bit patterns the
  C code moves around: a half is a \<^typ>\<open>16 word\<close>, a \<^verbatim>\<open>float\<close> the \<^typ>\<open>32 word\<close> that
  \<^verbatim>\<open>memcpy\<close> takes it to. The renormalisation of a subnormal is a loop that a zero mantissa would
  never leave, so it is a partial function and its result an option.

  What the patterns mean is said in whole numbers: the magnitude of a half in units of the
  smallest subnormal half, \<open>2\<^sup>-\<^sup>2\<^sup>4\<close>, and that of a float in units of the smallest subnormal float,
  \<open>2\<^sup>-\<^sup>1\<^sup>4\<^sup>9\<close>, so that a unit of the first is \<open>2\<^sup>1\<^sup>2\<^sup>5\<close> of the second.
\<close>

unbundle bit_operations_syntax

section \<open>The conversions\<close>

partial_function (option) renormalise :: "32 word \<Rightarrow> 32 word \<Rightarrow> (32 word \<times> 32 word) option" where
  "renormalise mant e =
     (if mant AND 0x400 = 0 then renormalise (push_bit 1 mant) (e - 1) else Some (mant, e))"

definition half_to_float_scalar :: "16 word \<Rightarrow> 32 word option" where
  "half_to_float_scalar h =
     (let sign = push_bit 16 ((ucast h :: 32 word) AND 0x8000);
          e = drop_bit 10 (ucast h :: 32 word) AND 0x1F;
          mant = (ucast h :: 32 word) AND 0x3FF
      in if e = 0 then
           (if mant = 0 then Some sign
            else (case renormalise mant (127 - 15 + 1) of
                None \<Rightarrow> None
              | Some (mant, e) \<Rightarrow> Some (sign OR push_bit 23 e OR push_bit 13 (mant AND 0x3FF))))
         else if e = 0x1F then Some (sign OR 0x7F800000 OR push_bit 13 mant)
         else Some (sign OR push_bit 23 (e - 15 + 127) OR push_bit 13 mant))"

definition float_to_half :: "32 word \<Rightarrow> 16 word" where
  "float_to_half bits =
     (let sign = drop_bit 16 bits AND 0x8000;
          e = sint (drop_bit 23 bits AND 0xFF) - 127 + 15
      in if e \<le> 0 then ucast sign
         else if e \<ge> 0x1F then ucast (sign OR 0x7C00)
         else ucast (sign OR push_bit 10 (word_of_int e) OR (drop_bit 13 bits AND 0x3FF)))"

section \<open>What the patterns mean\<close>

definition half_sign :: "16 word \<Rightarrow> bool" where
  "half_sign h = bit h 15"

definition half_exp :: "16 word \<Rightarrow> nat" where
  "half_exp h = unat h div 2 ^ 10 mod 2 ^ 5"

definition half_mant :: "16 word \<Rightarrow> nat" where
  "half_mant h = unat h mod 2 ^ 10"

definition half_mag :: "16 word \<Rightarrow> nat" where
  "half_mag h = (if half_exp h = 0 then half_mant h else (2 ^ 10 + half_mant h) * 2 ^ (half_exp h - 1))"

section \<open>Fields of a packed word\<close>

lemma mask_simps:
  "(x :: 32 word) AND 0x3FF = take_bit 10 x" "(x :: 32 word) AND 0x1F = take_bit 5 x"
  "(x :: 32 word) AND 0xFF = take_bit 8 x"
  by (simp_all add: take_bit_eq_mask mask_eq_exp_minus_1)

lemma and_exp_word: "(x :: 32 word) AND 2 ^ n = push_bit n (of_bool (bit x n))"
  by (rule bit_eqI) (auto simp: bit_simps)

lemma single_bit_simps:
  "(x :: 32 word) AND 0x8000 = push_bit 15 (of_bool (bit x 15))"
  "(x :: 32 word) AND 0x400 = push_bit 10 (of_bool (bit x 10))"
  using and_exp_word [of x 15] and_exp_word [of x 10] by simp_all

lemma unat_of_half: "unat (ucast (h :: 16 word) :: 32 word) = unat h"
  using unsigned_less [of h, where 'a = nat] by (simp add: unsigned_ucast_eq take_bit_nat_eq_self)

lemma bit_unat: "bit (x :: 32 word) n \<longleftrightarrow> odd (unat x div 2 ^ n)"
proof -
  have "bit (unat x) n \<longleftrightarrow> bit x n" by (simp add: bit_unsigned_iff)
  then show ?thesis by (simp add: bit_iff_odd)
qed

text \<open>The fields of \<^verbatim>\<open>sign | (exp << 23) | (mant << 13)\<close>.\<close>

lemma unat_pack:
  assumes e: "unat e < 2 ^ 8" and m: "unat m < 2 ^ 10"
  shows "unat (push_bit 31 (of_bool s) OR push_bit 23 e OR push_bit 13 (m :: 32 word))
     = of_bool s * 2 ^ 31 + unat e * 2 ^ 23 + unat m * 2 ^ 13"
proof -
  have s': "unat (push_bit 31 (of_bool s :: 32 word)) = of_bool s * 2 ^ 31"
    by (cases s) (simp_all add: unsigned_push_bit_eq)
  have e': "unat (push_bit 23 e) = unat e * 2 ^ 23" and m': "unat (push_bit 13 m) = unat m * 2 ^ 13"
    using e m by (simp_all add: unat_push_bit)
  have "unat e * 2 ^ 23 OR unat m * 2 ^ 13 = unat e * 2 ^ 23 + unat m * 2 ^ 13"
    using m by (intro or_disjoint [where n = 23]) simp_all
  moreover have "of_bool s * 2 ^ 31 OR (unat e * 2 ^ 23 + unat m * 2 ^ 13)
      = of_bool s * 2 ^ 31 + (unat e * 2 ^ 23 + unat m * 2 ^ 13)"
    using e m by (intro or_disjoint [where n = 31]) simp_all
  ultimately show ?thesis by (simp add: unsigned_or_eq s' e' m')
qed

lemma pack_fields:
  assumes b: "unat b = of_bool s * 2 ^ 31 + e * 2 ^ 23 + m" and e: "e < 2 ^ 8" and m: "m < 2 ^ 23"
  shows "float_sign b = s" "float_exp b = e" "float_mant b = m"
proof -
  have q: "unat b div 2 ^ 23 = of_bool s * 2 ^ 8 + e"
  proof -
    have "unat b = (of_bool s * 2 ^ 8 + e) * 2 ^ 23 + m" using b by simp
    then show ?thesis using m by simp
  qed
  show "float_exp b = e" using q e by (simp add: float_exp_def)
  show "float_mant b = m"
  proof -
    have "unat b = m + (of_bool s * 2 ^ 8 + e) * 2 ^ 23" using b by simp
    then show ?thesis using m unfolding float_mant_def by (simp only: mod_mult_self1 mod_less)
  qed
  have "unat b div 2 ^ 31 = (unat b div 2 ^ 23) div 2 ^ 8" by (simp add: div_mult2_eq [symmetric])
  also have "\<dots> = of_bool s" unfolding q using e by simp
  finally show "float_sign b = s"
    unfolding float_sign_def bit_unat by (cases s) simp_all
qed

section \<open>A half becomes the float of the same value\<close>

lemma bit_ten: "unat m < 2 ^ 11 \<Longrightarrow> (m :: 32 word) AND 0x400 = 0 \<longleftrightarrow> unat m < 2 ^ 10"
proof -
  assume m: "unat m < 2 ^ 11"
  have "unat m div 2 ^ 10 = of_bool (2 ^ 10 \<le> unat m)"
    using m by (cases "2 ^ 10 \<le> unat m") (auto simp: div_nat_eqI)
  then have "bit m 10 \<longleftrightarrow> 2 ^ 10 \<le> unat m" unfolding bit_unat by simp
  then show ?thesis by (auto simp: single_bit_simps push_bit_eq_mult)
qed

lemma renormalise_returns:
  "0 < unat m \<Longrightarrow> unat m < 2 ^ 11 \<Longrightarrow>
     \<exists>m' k. renormalise m e = Some (m', e - of_nat k) \<and> unat m' = unat m * 2 ^ k \<and>
       2 ^ 10 \<le> unat m' \<and> unat m' < 2 ^ 11"
proof (induction "2 ^ 11 - unat m" arbitrary: m e rule: less_induct)
  case less
  show ?case
  proof (cases "unat m < 2 ^ 10")
    case True
    have d: "unat (push_bit 1 m) = unat m * 2"
      using True unat_push_bit [of m 1] by simp
    obtain m' k where "renormalise (push_bit 1 m) (e - 1) = Some (m', e - 1 - of_nat k)"
        "unat m' = unat (push_bit 1 m) * 2 ^ k" "2 ^ 10 \<le> unat m'" "unat m' < 2 ^ 11"
      using less.hyps [of "push_bit 1 m" "e - 1"] less.prems True unfolding d by fastforce
    then show ?thesis
      using bit_ten [OF less.prems(2)] True d
      by (intro exI [of _ m'] exI [of _ "Suc k"]) (simp add: renormalise.simps [of m e] algebra_simps)
  next
    case False
    then show ?thesis
      using bit_ten [OF less.prems(2)] less.prems
      by (intro exI [of _ m] exI [of _ 0]) (simp add: renormalise.simps [of m e])
  qed
qed

lemma half_fields:
  "push_bit 16 ((ucast h :: 32 word) AND 0x8000) = push_bit 31 (of_bool (half_sign h))"
  "unat (drop_bit 10 (ucast h :: 32 word) AND 0x1F) = half_exp h"
  "unat ((ucast h :: 32 word) AND 0x3FF) = half_mant h"
  by (simp_all add: half_sign_def half_exp_def half_mant_def mask_simps single_bit_simps unat_take_bit
      unat_drop_bit unat_of_half bit_simps)

lemma half_bounds: "half_exp h < 2 ^ 5" "half_mant h < 2 ^ 10"
  by (simp_all add: half_exp_def half_mant_def)

lemma pack_value:
  assumes "unat e < 2 ^ 8" "0 < unat e" "unat m < 2 ^ 10"
  shows "let b = push_bit 31 (of_bool s) OR push_bit 23 e OR push_bit 13 (m :: 32 word) in
     float_sign b = s \<and> float_exp b = unat e \<and> float_mant b = unat m * 2 ^ 13 \<and>
     float_mag b = (2 ^ 10 + unat m) * 2 ^ 13 * 2 ^ (unat e - 1)"
proof -
  let ?b = "push_bit 31 (of_bool s) OR push_bit 23 e OR push_bit 13 m"
  have "unat ?b = of_bool s * 2 ^ 31 + unat e * 2 ^ 23 + unat m * 2 ^ 13"
    using assms by (intro unat_pack)
  moreover have "unat m * 2 ^ 13 < 2 ^ 23" using assms(3) by simp
  ultimately show ?thesis
    using pack_fields [of ?b s "unat e" "unat m * 2 ^ 13"] assms(1,2) by (simp add: Let_def float_mag_def)
qed

lemma half_to_float_normal:
  assumes "half_exp h \<noteq> 0" "half_exp h \<noteq> 31"
  shows "\<exists>b. half_to_float_scalar h = Some b \<and> float_sign b = half_sign h \<and>
     float_exp b = half_exp h + 112 \<and> float_mant b = half_mant h * 2 ^ 13 \<and> float_mag b = half_mag h * 2 ^ 125"
proof -
  let ?e = "drop_bit 10 (ucast h :: 32 word) AND 0x1F"
  have e: "unat (?e - 15 + 127) = half_exp h + 112"
  proof -
    have "?e - 15 + 127 = ?e + 112" by simp
    moreover have "unat (?e + 112) = unat ?e + 112"
      using half_bounds(1) [of h] half_fields(2) [of h] by (subst unat_add_lem [THEN iffD1]) simp_all
    ultimately show ?thesis using half_fields(2) [of h] by (simp only:)
  qed
  have ne: "?e \<noteq> 0" "?e \<noteq> 0x1F" using assms half_fields(2) [of h] by auto
  have "half_to_float_scalar h = Some (push_bit 31 (of_bool (half_sign h)) OR push_bit 23 (?e - 15 + 127)
      OR push_bit 13 ((ucast h :: 32 word) AND 0x3FF))"
    unfolding half_to_float_scalar_def half_fields(1) using ne by (simp add: Let_def)
  moreover have "(2 ^ 10 + half_mant h) * 2 ^ 13 * 2 ^ (half_exp h + 112 - 1) = half_mag h * 2 ^ 125"
    using assms(1) by (cases "half_exp h") (simp_all add: half_mag_def power_add algebra_simps)
  ultimately show ?thesis
    using pack_value [of "?e - 15 + 127" "(ucast h :: 32 word) AND 0x3FF" "half_sign h"] e
      half_bounds [of h] half_fields(3) [of h] by (simp add: Let_def)
qed

lemma half_to_float_special:
  assumes "half_exp h = 31"
  shows "\<exists>b. half_to_float_scalar h = Some b \<and> float_sign b = half_sign h \<and>
     float_exp b = 255 \<and> float_mant b = half_mant h * 2 ^ 13"
proof -
  let ?e = "drop_bit 10 (ucast h :: 32 word) AND 0x1F"
  have "?e = 0x1F" using assms half_fields(2) [of h] by (intro word_unat_eq_iff [THEN iffD2]) simp
  then have "half_to_float_scalar h = Some (push_bit 31 (of_bool (half_sign h)) OR push_bit 23 255
      OR push_bit 13 ((ucast h :: 32 word) AND 0x3FF))"
    unfolding half_to_float_scalar_def half_fields(1) by (simp add: Let_def)
  then show ?thesis
    using pack_value [of 255 "(ucast h :: 32 word) AND 0x3FF" "half_sign h"]
      half_bounds [of h] half_fields(3) [of h] by (simp add: Let_def)
qed

lemma half_to_float_subnormal:
  assumes "half_exp h = 0" "half_mant h \<noteq> 0"
  shows "\<exists>b. half_to_float_scalar h = Some b \<and> float_sign b = half_sign h \<and>
     float_exp b \<le> 112 \<and> float_mag b = half_mag h * 2 ^ 125"
proof -
  let ?e = "drop_bit 10 (ucast h :: 32 word) AND 0x1F" and ?m = "(ucast h :: 32 word) AND 0x3FF"
  have m: "unat ?m = half_mant h" by (rule half_fields)
  have "unat ?e = 0" using assms half_fields(2) [of h] by simp
  then have e0: "?e = 0" by (simp add: unat_eq_0)
  have m0: "?m \<noteq> 0" using assms(2) m by auto
  obtain m' k where r: "renormalise ?m 113 = Some (m', 113 - of_nat k)" "unat m' = half_mant h * 2 ^ k"
      "2 ^ 10 \<le> unat m'" "unat m' < 2 ^ 11"
    using renormalise_returns [of ?m 113] half_bounds(2) [of h] assms(2) m by auto
  have k: "k < 11"
  proof -
    have "2 ^ k \<le> unat m'" unfolding r(2) using assms(2) by simp
    then have "(2::nat) ^ k < 2 ^ 11" using r(4) by linarith
    then show ?thesis by (simp only: power_strict_increasing_iff)
  qed
  have k1: "1 \<le> k"
    using r(2,3) half_bounds(2) [of h] by (cases k) simp_all
  have ek: "unat (113 - of_nat k :: 32 word) = 113 - k"
    using k by (subst unat_sub) (simp_all add: word_le_nat_alt unat_of_nat)
  have mk: "unat (m' AND 0x3FF) = unat m' - 2 ^ 10"
    using r(3,4) by (simp add: mask_simps unat_take_bit mod_if) 
  have "half_to_float_scalar h = Some (push_bit 31 (of_bool (half_sign h)) OR push_bit 23 (113 - of_nat k)
      OR push_bit 13 (m' AND 0x3FF))"
    unfolding half_to_float_scalar_def half_fields(1) using e0 m0 r(1) by (simp add: Let_def)
  moreover have "(2 ^ 10 + (unat m' - 2 ^ 10)) * 2 ^ 13 * 2 ^ (113 - k - 1) = half_mag h * 2 ^ 125"
  proof -
    have "(2::nat) ^ k * 2 ^ (113 - k - 1) = 2 ^ 112" using k by (simp flip: power_add)
    then show ?thesis using assms r(2,3) by (simp add: half_mag_def ac_simps)
  qed
  ultimately show ?thesis
    using pack_value [of "113 - of_nat k" "m' AND 0x3FF" "half_sign h"] ek mk k k1 r(3,4)
    by (simp add: Let_def)
qed

lemma half_to_float_zero:
  assumes "half_exp h = 0" "half_mant h = 0"
  shows "\<exists>b. half_to_float_scalar h = Some b \<and> float_sign b = half_sign h \<and> float_exp b = 0 \<and> float_mag b = 0"
proof -
  have "unat (drop_bit 10 (ucast h :: 32 word) AND 0x1F) = 0" "unat ((ucast h :: 32 word) AND 0x3FF) = 0"
    using assms half_fields(2,3) [of h] by simp_all
  then have "half_to_float_scalar h = Some (push_bit 31 (of_bool (half_sign h)))"
    unfolding half_to_float_scalar_def half_fields(1) by (simp add: Let_def unat_eq_0)
  moreover have "unat (push_bit 31 (of_bool (half_sign h)) :: 32 word) = of_bool (half_sign h) * 2 ^ 31 + 0 * 2 ^ 23 + 0"
    by (cases "half_sign h") (simp_all add: unsigned_push_bit_eq)
  from pack_fields [OF this]
  have "float_sign (push_bit 31 (of_bool (half_sign h))) = half_sign h"
    "float_exp (push_bit 31 (of_bool (half_sign h))) = 0" "float_mant (push_bit 31 (of_bool (half_sign h))) = 0"
    by simp_all
  ultimately show ?thesis by (intro exI [of _ "push_bit 31 (of_bool (half_sign h))"]) (simp add: float_mag_def)
qed

section \<open>A float is cut down to a half\<close>

lemma half_ext:
  assumes "half_sign a = half_sign b" "half_exp a = half_exp b" "half_mant a = half_mant b"
  shows "a = b"
proof -
  have split: "unat h = of_bool (half_sign h) * 2 ^ 15 + half_exp h * 2 ^ 10 + half_mant h" for h :: "16 word"
  proof -
    have "bit h 15 \<longleftrightarrow> bit (unat h) 15" by (simp add: bit_unsigned_iff)
    then have "half_sign h \<longleftrightarrow> odd (unat h div 2 ^ 15)" by (simp add: half_sign_def bit_iff_odd)
    moreover have lt: "unat h < 2 ^ 16" using unsigned_less [of h, where 'a = nat] by simp
    then have "unat h div 2 ^ 15 < 2" by (simp add: less_mult_imp_div_less)
    then have "unat h div 2 ^ 15 = of_bool (odd (unat h div 2 ^ 15))" unfolding less_2_cases_iff by auto
    ultimately have top: "unat h div 2 ^ 15 = of_bool (half_sign h)" by simp
    have "unat h div 2 ^ 10 = (unat h div 2 ^ 15) * 2 ^ 5 + half_exp h"
      using div_mult_mod_eq [of "unat h div 2 ^ 10" "2 ^ 5"] by (simp add: half_exp_def div_mult2_eq [symmetric])
    then have mid: "unat h div 2 ^ 10 = of_bool (half_sign h) * 2 ^ 5 + half_exp h" unfolding top .
    have "unat h = unat h div 2 ^ 10 * 2 ^ 10 + half_mant h" unfolding half_mant_def by (rule div_mult_mod_eq [symmetric])
    then show ?thesis unfolding mid by simp
  qed
  show ?thesis using assms split [of a] split [of b] by (simp add: word_unat_eq_iff)
qed

lemma half_pack_fields:
  assumes "unat x = of_bool s * 2 ^ 15 + e * 2 ^ 10 + m" "e < 2 ^ 5" "m < 2 ^ 10"
  shows "half_sign (ucast (x :: 32 word)) = s" "half_exp (ucast x) = e" "half_mant (ucast x) = m"
proof -
  have u: "unat (ucast x :: 16 word) = of_bool s * 2 ^ 15 + e * 2 ^ 10 + m"
    using assms by (cases s) (simp_all add: unsigned_ucast_eq take_bit_nat_eq_self)
  have "unat (ucast x :: 16 word) = (of_bool s * 2 ^ 5 + e) * 2 ^ 10 + m" unfolding u by simp
  then have d: "unat (ucast x :: 16 word) div 2 ^ 10 = of_bool s * 2 ^ 5 + e"
    and m: "unat (ucast x :: 16 word) mod 2 ^ 10 = m"
    using assms(3) by (simp_all only: mod_mult_self3 mod_less div_mult_self3 div_less)
  show "half_exp (ucast x) = e" unfolding half_exp_def d using assms(2) by simp
  show "half_mant (ucast x) = m" unfolding half_mant_def by (rule m)
  have "unat x div 2 ^ 15 = (unat x div 2 ^ 10) div 2 ^ 5" by (simp add: div_mult2_eq [symmetric])
  also have "unat x div 2 ^ 10 = of_bool s * 2 ^ 5 + e" using assms(1,3) by simp
  finally have "unat x div 2 ^ 15 = of_bool s" using assms(2) by simp
  moreover have "half_sign (ucast x) \<longleftrightarrow> bit x 15" by (simp add: half_sign_def bit_simps)
  ultimately show "half_sign (ucast x) = s" unfolding bit_unat by (cases s) simp_all
qed

lemma sint_small: "unat (w :: 32 word) < 2 ^ 31 \<Longrightarrow> sint w = int (unat w)"
proof -
  assume "unat w < 2 ^ 31"
  then have "int (unat w) < int (2 ^ 31)" by (simp only: of_nat_less_iff)
  then have "int (unat w) < 2 ^ 31" by (simp only: of_nat_power of_nat_numeral)
  moreover have "sint w = signed_take_bit 31 (int (unat w))" by (simp add: sint_uint)
  ultimately show ?thesis using signed_take_bit_int_eq_self [of 31 "int (unat w)"] by linarith
qed

lemma float_fields:
  "unat (drop_bit 16 b AND 0x8000) = of_bool (float_sign b) * 2 ^ 15"
  "sint (drop_bit 23 b AND 0xFF) = int (float_exp b)"
  "unat (drop_bit 13 b AND 0x3FF) = float_mant b div 2 ^ 13"
proof -
  have "drop_bit 16 b AND 0x8000 = push_bit 15 (of_bool (float_sign b))"
    by (simp add: single_bit_simps float_sign_def bit_simps)
  then show "unat (drop_bit 16 b AND 0x8000) = of_bool (float_sign b) * 2 ^ 15"
    by (cases "float_sign b") (simp_all add: unsigned_push_bit_eq)
  have "unat (drop_bit 23 b AND 0xFF) = float_exp b"
    by (simp add: mask_simps unat_take_bit unat_drop_bit float_exp_def)
  then show "sint (drop_bit 23 b AND 0xFF) = int (float_exp b)"
    using sint_small [of "drop_bit 23 b AND 0xFF"] by (simp add: float_exp_def)
  have "unat b div 2 ^ 13 mod 2 ^ 10 = unat b mod 2 ^ 23 div 2 ^ 13"
    using div_exp_mod_exp_eq [of "unat b" 13 10] by simp
  then show "unat (drop_bit 13 b AND 0x3FF) = float_mant b div 2 ^ 13"
    by (simp add: mask_simps unat_take_bit unat_drop_bit float_mant_def)
qed

lemma float_to_half_fields:
  "half_sign (float_to_half b) = float_sign b"
  "half_exp (float_to_half b) =
     (if float_exp b \<le> 112 then 0 else if float_exp b \<ge> 143 then 31 else float_exp b - 112)"
  "half_mant (float_to_half b) =
     (if float_exp b \<le> 112 \<or> float_exp b \<ge> 143 then 0 else float_mant b div 2 ^ 13)"
proof -
  let ?s = "drop_bit 16 b AND 0x8000" and ?m = "drop_bit 13 b AND 0x3FF"
  let ?e = "if float_exp b \<le> 112 then 0 else if float_exp b \<ge> 143 then 31 else float_exp b - 112"
  let ?mm = "if float_exp b \<le> 112 \<or> float_exp b \<ge> 143 then 0 else float_mant b div 2 ^ 13"
  have mlt: "float_mant b div 2 ^ 13 < 2 ^ 10"
    unfolding float_fields(3) [symmetric] by (simp add: mask_simps unat_take_bit)
  have "\<exists>x. float_to_half b = ucast x \<and>
    unat (x :: 32 word) = of_bool (float_sign b) * 2 ^ 15 + ?e * 2 ^ 10 + ?mm"
  proof -
    consider "float_exp b \<le> 112" | "float_exp b \<ge> 143" | "112 < float_exp b" "float_exp b < 143" by linarith
    then show ?thesis
    proof cases
      case 1
      then show ?thesis
        by (intro exI [of _ ?s]) (simp add: float_to_half_def float_fields Let_def del: of_bool_eq_0_iff)
    next
      case 2
      have "of_bool (float_sign b) * 2 ^ 15 OR (0x7C00 :: nat) = of_bool (float_sign b) * 2 ^ 15 + 0x7C00"
        by (rule or_disjoint [where n = 15]) simp_all
      then have "unat (?s OR 0x7C00) = of_bool (float_sign b) * 2 ^ 15 + 31 * 2 ^ 10"
        by (simp only: unsigned_or_eq float_fields(1)) simp
      with 2 show ?thesis
        by (intro exI [of _ "?s OR 0x7C00"]) (simp add: float_to_half_def float_fields Let_def)
    next
      case 3
      define e where "e = float_exp b - 112"
      have e: "int (float_exp b) - 127 + 15 = int e" "e < 2 ^ 5" using 3 by (simp_all add: e_def)
      have pe: "unat (push_bit 10 (word_of_int (int e) :: 32 word)) = e * 2 ^ 10"
        using e(2) unat_push_bit [of "of_nat e" 10] by (simp add: unat_of_nat)
      have "e * 2 ^ 10 OR float_mant b div 2 ^ 13 = e * 2 ^ 10 + float_mant b div 2 ^ 13"
        using mlt by (intro or_disjoint [where n = 10]) simp_all
      moreover have "of_bool (float_sign b) * 2 ^ 15 OR (e * 2 ^ 10 + float_mant b div 2 ^ 13)
          = of_bool (float_sign b) * 2 ^ 15 + (e * 2 ^ 10 + float_mant b div 2 ^ 13)"
        using e(2) mlt by (intro or_disjoint [where n = 15]) simp_all
      ultimately have "unat (?s OR push_bit 10 (word_of_int (int e)) OR ?m)
          = of_bool (float_sign b) * 2 ^ 15 + e * 2 ^ 10 + float_mant b div 2 ^ 13"
        by (simp only: unsigned_or_eq float_fields pe add.assoc)
      moreover have "float_to_half b = ucast (?s OR push_bit 10 (word_of_int (int e)) OR ?m)"
        unfolding float_to_half_def float_fields(2) e(1) Let_def using 3 e_def by simp
      ultimately show ?thesis using 3 e_def by (intro exI [of _ "?s OR push_bit 10 (word_of_int (int e)) OR ?m"]) simp
    qed
  qed
  then obtain x where x: "float_to_half b = ucast x" "unat (x :: 32 word) = of_bool (float_sign b) * 2 ^ 15 + ?e * 2 ^ 10 + ?mm"
    by blast
  note f = half_pack_fields [OF x(2)]
  have b: "?e < 2 ^ 5" "?mm < 2 ^ 10" using mlt by auto
  show "half_sign (float_to_half b) = float_sign b" "half_exp (float_to_half b) = ?e" "half_mant (float_to_half b) = ?mm"
    unfolding x(1) by (rule f [OF b])+
qed

section \<open>The properties\<close>

text \<open>
  Property (C18). Every stored component means what was stored. The conversion of each of the
  65536 halves terminates, the renormalisation of a subnormal included, and gives the float of
  the same sign and exactly the same magnitude (an infinity or a NaN keeps its payload); and
  writing that float back gives the half again, except that the writer flushes a subnormal to
  the zero of its sign and turns a NaN into an infinity.
\<close>

theorem half_round_trip:
  "\<exists>b. half_to_float_scalar h = Some b \<and> float_sign b = half_sign h \<and>
     (if half_exp h = 31 then float_exp b = 255 \<and> float_mant b = half_mant h * 2 ^ 13
      else float_mag b = half_mag h * 2 ^ 125) \<and>
     half_sign (float_to_half b) = half_sign h \<and> half_exp (float_to_half b) = half_exp h \<and>
     half_mant (float_to_half b) = (if half_exp h = 0 \<or> half_exp h = 31 then 0 else half_mant h) \<and>
     (half_exp h = 0 \<or> half_exp h = 31 \<or> float_to_half b = h)"
proof -
  consider "half_exp h = 31" | "half_exp h = 0" "half_mant h = 0" | "half_exp h = 0" "half_mant h \<noteq> 0"
    | "half_exp h \<noteq> 0" "half_exp h \<noteq> 31" by blast
  then show ?thesis
  proof cases
    case 1
    then obtain b where "half_to_float_scalar h = Some b" "float_sign b = half_sign h" "float_exp b = 255"
        "float_mant b = half_mant h * 2 ^ 13"
      using half_to_float_special by blast
    with 1 show ?thesis by (intro exI [of _ b]) (simp add: float_to_half_fields)
  next
    case 2
    from half_to_float_zero [OF 2] show ?thesis using 2 by (auto simp: float_to_half_fields half_mag_def)
  next
    case 3
    from half_to_float_subnormal [OF 3] show ?thesis using 3 by (auto simp: float_to_half_fields)
  next
    case 4
    have "half_exp h < 31" using 4(2) half_bounds(1) [of h] by simp
    moreover obtain b where "half_to_float_scalar h = Some b" "float_sign b = half_sign h"
        "float_exp b = half_exp h + 112" "float_mant b = half_mant h * 2 ^ 13" "float_mag b = half_mag h * 2 ^ 125"
      using half_to_float_normal [OF 4] by blast
    moreover from calculation have "float_to_half b = h"
      using 4 by (intro half_ext) (simp_all add: float_to_half_fields)
    ultimately show ?thesis using 4 by (intro exI [of _ b]) simp
  qed
qed

text \<open>
  Writing a float in the range of the normal halves cuts it off towards zero: the stored half
  is the float or less in magnitude, by less than one unit in its last place.
\<close>

theorem float_to_half_truncates:
  assumes "112 < float_exp b" "float_exp b < 143"
  shows "half_sign (float_to_half b) = float_sign b"
    and "half_mag (float_to_half b) * 2 ^ 125 \<le> float_mag b"
    and "float_mag b < (half_mag (float_to_half b) + 2 ^ (half_exp (float_to_half b) - 1)) * 2 ^ 125"
proof -
  obtain e where e: "float_exp b = Suc (e + 112)" using assms(1) less_iff_Suc_add [of 112 "float_exp b"] by (auto simp: ac_simps)
  define q where "q = float_mant b div 2 ^ 13"
  have h: "half_exp (float_to_half b) = Suc e" "half_mant (float_to_half b) = q"
    using assms e by (simp_all add: float_to_half_fields q_def)
  have f: "float_mag b = (2 ^ 23 + float_mant b) * 2 ^ (e + 112)"
    by (simp add: float_mag_def e)
  have q: "q * 2 ^ 13 \<le> float_mant b" "float_mant b < (q + 1) * 2 ^ 13"
    unfolding q_def using div_mult_mod_eq [of "float_mant b" "2 ^ 13"] mod_less_divisor [of "2 ^ 13" "float_mant b"]
    by simp_all
  show "half_sign (float_to_half b) = float_sign b" by (simp add: float_to_half_fields)
  have p: "2 ^ e * (2::nat) ^ 125 = 2 ^ 13 * 2 ^ (e + 112)" by (simp add: power_add)
  have "half_mag (float_to_half b) * 2 ^ 125 = (2 ^ 10 + q) * 2 ^ 13 * 2 ^ (e + 112)"
    unfolding half_mag_def h mult.assoc using p by simp
  also have "\<dots> \<le> float_mag b" unfolding f using q(1) by (intro mult_right_mono) simp_all
  finally show "half_mag (float_to_half b) * 2 ^ 125 \<le> float_mag b" .
  have "float_mag b < (2 ^ 10 + q + 1) * 2 ^ 13 * 2 ^ (e + 112)"
    unfolding f using q(2) by (intro mult_strict_right_mono) simp_all
  also have "\<dots> = (half_mag (float_to_half b) + 2 ^ (half_exp (float_to_half b) - 1)) * 2 ^ 125"
  proof -
    have "half_mag (float_to_half b) + 2 ^ (half_exp (float_to_half b) - 1) = (2 ^ 10 + q + 1) * 2 ^ e"
      by (simp add: half_mag_def h algebra_simps)
    then show ?thesis using p by (simp only: mult.assoc)
  qed
  finally show "float_mag b < (half_mag (float_to_half b) + 2 ^ (half_exp (float_to_half b) - 1)) * 2 ^ 125" .
qed

end
