(* ===== verification/Brigade_Index.thy ===== *)
theory Brigade_Index
  imports Brigade_Half C_Arrays C_Bytes
begin

text \<open>
  The flat vector index of \<^verbatim>\<open>src/cmacs/ai-brigade/cmacs-brigade-index.c\<close>: the file format and the
  checks of \<^verbatim>\<open>cmacs_brigade_index_open\<close>, the exhaustive search with its bounded insertion, and
  the writer that builds a new file beside the live one and renames it into place.

  A file is a list of bytes; a read outside the mapping is \<^term>\<open>None\<close>, so that never reading there
  is something to prove. Scores are the bit patterns of \<^verbatim>\<open>float\<close>s and are compared as C compares
  floats, NaNs included; how the hardware adds, multiplies and rounds them is a parameter, as is
  what the operating system answers and how many bytes of a stream reach the disk.
\<close>

unbundle bit_operations_syntax

section \<open>Bytes\<close>

definition half_bytes :: "16 word \<Rightarrow> byte list" where
  "half_bytes h = le_bytes 2 (unat h)"

fun halves_of :: "byte list \<Rightarrow> 16 word list" where
  "halves_of (a # b # bs) = of_nat (le_nat [a, b]) # halves_of bs"
| "halves_of _ = []"

definition row_bytes :: "16 word list \<Rightarrow> byte list" where
  "row_bytes row = concat (map half_bytes row)"

definition read_halves :: "byte list \<Rightarrow> nat \<Rightarrow> nat \<Rightarrow> 16 word list option" where
  "read_halves bs off n = map_option halves_of (read_bytes bs off (2 * n))"

section \<open>The file header\<close>

record index_header =
  magic :: "byte list"
  version :: "32 word"
  hdr_dim :: "32 word"
  hdr_count :: "64 word"
  hdr_flags :: "64 word"
  pad :: "byte list"

definition VEC_MAGIC :: "byte list" where
  "VEC_MAGIC = map (of_nat \<circ> of_char) ''CMBRGVEC''"

definition INDEX_FORMAT_VERSION :: "32 word" where
  "INDEX_FORMAT_VERSION = 1"

definition sizeof_hdr :: nat where
  "sizeof_hdr = 64"

definition header_bytes :: "index_header \<Rightarrow> byte list" where
  "header_bytes hdr = magic hdr @ le_bytes 4 (unat (version hdr)) @ le_bytes 4 (unat (hdr_dim hdr)) @
     le_bytes 8 (unat (hdr_count hdr)) @ le_bytes 8 (unat (hdr_flags hdr)) @ pad hdr"

definition header_of :: "byte list \<Rightarrow> index_header" where
  "header_of bs = \<lparr>magic = take 8 bs,
     version = of_nat (le_nat (take 4 (drop 8 bs))),
     hdr_dim = of_nat (le_nat (take 4 (drop 12 bs))),
     hdr_count = of_nat (le_nat (take 8 (drop 16 bs))),
     hdr_flags = of_nat (le_nat (take 8 (drop 24 bs))),
     pad = take 32 (drop 32 bs)\<rparr>"

text \<open>The header the writer puts down: zeroed, then the fields it knows.\<close>

definition writer_header :: "32 word \<Rightarrow> 64 word \<Rightarrow> index_header" where
  "writer_header dim n = \<lparr>magic = VEC_MAGIC, version = INDEX_FORMAT_VERSION, hdr_dim = dim,
     hdr_count = n, hdr_flags = 0, pad = replicate 32 0\<rparr>"

section \<open>Opening an index\<close>

datatype index_error =
    NoIndex string
  | Truncated string
  | UnrecognisedFormat string
  | ImpossibleShape string "32 word" "64 word"
  | HoldsFewer string "64 word"
  | CannotMap string
  | CannotCreate string
  | Busy string
  | CannotWrite string
  | CannotCommit string

record brigade_index =
  ix_dir :: string
  vec_map :: "byte list"
  vec_len :: "64 word"
  ix_dim :: "32 word"
  ix_count :: "64 word"

text \<open>
  \<open>file\<close> is what \<^verbatim>\<open>vectors.f16\<close> holds, if it can be opened; \<open>read_ok\<close> whether the read of the header
  returns all of it, \<open>mmap_ok\<close> whether the kernel grants the mapping. The product of count and row size is bounded before it is formed.
\<close>

definition shape_impossible :: "32 word \<Rightarrow> 64 word \<Rightarrow> bool" where
  "shape_impossible dim cnt \<longleftrightarrow> dim = 0 \<or> dim > 0xFFFFFFFF div 2 \<or>
     cnt > (0xFFFFFFFFFFFFFFFF - of_nat sizeof_hdr) div (ucast dim * 2)"

definition index_open :: "string \<Rightarrow> byte list option \<Rightarrow> bool \<Rightarrow> bool \<Rightarrow> index_error + brigade_index" where
  "index_open dir file read_ok mmap_ok =
     (case file of
        None \<Rightarrow> Inl (NoIndex dir)
      | Some bs \<Rightarrow>
          if length bs < sizeof_hdr then Inl (Truncated dir)
          else
            let hdr = header_of (take sizeof_hdr bs) in
            if \<not> read_ok \<or> magic hdr \<noteq> VEC_MAGIC \<or> version hdr \<noteq> INDEX_FORMAT_VERSION
            then Inl (UnrecognisedFormat dir)
            else if shape_impossible (hdr_dim hdr) (hdr_count hdr)
            then Inl (ImpossibleShape dir (hdr_dim hdr) (hdr_count hdr))
            else
              let row_size = ucast (hdr_dim hdr) * 2;
                  need = of_nat sizeof_hdr + hdr_count hdr * row_size :: 64 word
              in if length bs < unat need then Inl (HoldsFewer dir (hdr_count hdr))
                 else
                   let len = of_nat sizeof_hdr + hdr_count hdr * ucast (hdr_dim hdr) * 2 in
                   if \<not> mmap_ok then Inl (CannotMap dir)
                   else Inr \<lparr>ix_dir = dir, vec_map = take (unat len) bs, vec_len = len,
                              ix_dim = hdr_dim hdr, ix_count = hdr_count hdr\<rparr>)"

text \<open>The address of a row, as an offset into the mapping, and the halves found there.\<close>

definition index_row :: "brigade_index \<Rightarrow> 64 word \<Rightarrow> 64 word option" where
  "index_row ix i =
     (if i \<ge> ix_count ix then None
      else Some (of_nat sizeof_hdr + i * ucast (ix_dim ix) * 2))"

definition row_at :: "brigade_index \<Rightarrow> 64 word \<Rightarrow> 16 word list option" where
  "row_at ix off = read_halves (vec_map ix) (unat off) (unat (ix_dim ix))"

section \<open>Scores\<close>

text \<open>The table of \<^verbatim>\<open>index_dispatch_init\<close> holds the scalar conversion of every half.\<close>

definition half_value_of :: "16 word \<Rightarrow> 32 word" where
  "half_value_of h = (case half_to_float_scalar h of None \<Rightarrow> 0 | Some b \<Rightarrow> b)"

definition half_lut :: "32 word list" where
  "half_lut = map (\<lambda>i. half_value_of (of_nat i)) [0..<65536]"

definition half_conv :: "bool \<Rightarrow> 16 word \<Rightarrow> 32 word" where
  "half_conv lut h = (if lut then half_lut ! unat h else half_value_of h)"

fun dot_row_scalar :: "fpu \<Rightarrow> bool \<Rightarrow> 32 word \<Rightarrow> 32 word list \<Rightarrow> 16 word list \<Rightarrow> 32 word" where
  "dot_row_scalar F lut acc (q # qs) (r # rs) =
     dot_row_scalar F lut (f_add F acc (f_mul F q (half_conv lut r))) qs rs"
| "dot_row_scalar F lut acc _ _ = acc"

text \<open>Eight lanes at a time, the lanes added up from the first, then the tail one by one.\<close>

definition dot_lanes :: "fpu \<Rightarrow> 32 word list \<Rightarrow> 32 word list \<Rightarrow> 16 word list \<Rightarrow> 32 word list" where
  "dot_lanes F sums qs rs = map2 (f_add F) sums (map2 (\<lambda>q r. f_mul F q (vcvtph F r)) qs rs)"

definition sum_lanes :: "fpu \<Rightarrow> 32 word list \<Rightarrow> 32 word" where
  "sum_lanes F sums = foldl (f_add F) (hd sums) (tl sums)"

function dot_row_f16c :: "fpu \<Rightarrow> 32 word list \<Rightarrow> 32 word list \<Rightarrow> 16 word list \<Rightarrow> 32 word" where
  "dot_row_f16c F sums qs rs =
     (if 8 \<le> length rs
      then dot_row_f16c F (dot_lanes F sums (take 8 qs) (take 8 rs)) (drop 8 qs) (drop 8 rs)
      else dot_row_scalar F False (sum_lanes F sums) qs rs)"
  by pat_completeness auto

termination
  by (relation "measure (\<lambda>(_, _, _, rs). length rs)") auto

declare dot_row_f16c.simps [simp del]

definition dot_value :: "fpu \<Rightarrow> 32 word list \<Rightarrow> 16 word list \<Rightarrow> 32 word" where
  "dot_value F qs rs =
     (if f16c F then dot_row_f16c F (replicate 8 0) qs rs else dot_row_scalar F True 0 qs rs)"

text \<open>
  Either loop reads a cell of the query for each of the \<open>dim\<close> cells of the row; \<open>None\<close> is a query that has fewer, read
  past its end.
\<close>

definition dot_row :: "fpu \<Rightarrow> 32 word list \<Rightarrow> 16 word list \<Rightarrow> 32 word option" where
  "dot_row F qs rs = (if length qs < length rs then None else Some (dot_value F qs rs))"

section \<open>Searching\<close>

text \<open>
  The results found so far: the two arrays of the caller, \<open>k\<close> cells each, and how many cells are
  in use. A row that does not beat the last cell of full arrays is passed over; any other row is
  put behind the rows that score at least as much, the rest moving down one cell.
\<close>

record hits =
  out_scores :: "32 word list"
  out_ids :: "32 word list"
  found :: nat

function shift_hits :: "32 word \<Rightarrow> int \<Rightarrow> 32 word list \<Rightarrow> 32 word list \<Rightarrow> int \<times> 32 word list \<times> 32 word list" where
  "shift_hits score pos scores ids =
     (if pos > 0 \<and> float_lt (scores ! nat (pos - 1)) score
      then shift_hits score (pos - 1) (scores[nat pos := scores ! nat (pos - 1)])
             (ids[nat pos := ids ! nat (pos - 1)])
      else (pos, scores, ids))"
  by pat_completeness auto

termination
  by (relation "measure (\<lambda>(_, pos, _, _). nat pos)") auto

declare shift_hits.simps [simp del]

text \<open>\<open>None\<close>: the cell the row goes to is outside the arrays.\<close>

definition take_row :: "nat \<Rightarrow> 64 word \<Rightarrow> 32 word \<Rightarrow> hits \<Rightarrow> hits option" where
  "take_row k i score h =
     (if found h = k \<and> float_le score (out_scores h ! (k - 1)) then Some h
      else
        let pos = to_gint (int (if found h < k then found h else k - 1)) in
        if pos < 0 \<or> int (length (out_scores h)) \<le> pos then None
        else
          case shift_hits score pos (out_scores h) (out_ids h) of (pos, scores, ids) \<Rightarrow>
            Some \<lparr>out_scores = scores[nat pos := score], out_ids = ids[nat pos := ucast i],
                  found = (if found h < k then found h + 1 else found h)\<rparr>)"

text \<open>The loop over the rows: \<open>n\<close> rows left, the next one \<open>i\<close>. \<open>None\<close> is an access out of bounds.\<close>

fun search_rows :: "fpu \<Rightarrow> brigade_index \<Rightarrow> 32 word list \<Rightarrow> nat \<Rightarrow> nat \<Rightarrow> 64 word \<Rightarrow> hits \<Rightarrow> hits option" where
  "search_rows F ix query k 0 i h = Some h"
| "search_rows F ix query k (Suc n) i h =
     (case row_at ix (of_nat sizeof_hdr + i * ucast (ix_dim ix) * 2) of
        None \<Rightarrow> None
      | Some row \<Rightarrow>
          (case dot_row F query row of
             None \<Rightarrow> None
           | Some score \<Rightarrow>
               (case take_row k i score h of
                  None \<Rightarrow> None
                | Some h \<Rightarrow> search_rows F ix query k n (i + 1) h)))"

definition index_search ::
  "fpu \<Rightarrow> brigade_index \<Rightarrow> 32 word list \<Rightarrow> 32 word \<Rightarrow> 32 word list \<Rightarrow> 32 word list \<Rightarrow> hits option" where
  "index_search F ix query k ids scores =
     (if k = 0 then Some \<lparr>out_scores = scores, out_ids = ids, found = 0\<rparr>
      else search_rows F ix query (unat k) (unat (ix_count ix)) 0
             \<lparr>out_scores = scores, out_ids = ids, found = 0\<rparr>)"

section \<open>Writing\<close>

text \<open>
  The index directory: the live file, the temporary of a build, and whether some writer holds
  the lock. \<open>host\<close> is what the operating system and the C library answer: whether a call succeeds,
  how many items a \<^verbatim>\<open>fwrite\<close> accepts on a stream, and which bytes of a stream have reached the
  file when the stream is flushed and closed.
\<close>

record index_dir =
  vectors :: "byte list option"
  vectors_new :: "byte list option"
  locked :: bool

record host =
  mkdir_ok :: bool
  lock_open_ok :: bool
  fopen_ok :: bool
  rename_ok :: bool
  read_ok :: bool
  map_ok :: bool
  accepts :: "byte list \<Rightarrow> nat \<Rightarrow> nat"
  flushed :: "byte list \<Rightarrow> byte list"

record index_writer =
  w_dir :: string
  w_dim :: "32 word"
  w_count :: "64 word"
  w_stream :: "byte list option"

text \<open>\<^verbatim>\<open>fwrite\<close> at the end of a stream: the number of items taken and the stream with them.\<close>

definition fwrite :: "host \<Rightarrow> byte list \<Rightarrow> byte list \<Rightarrow> nat \<Rightarrow> nat \<Rightarrow> nat \<times> byte list" where
  "fwrite H stream bs sz n =
     (let m = min n (accepts H stream n) in (m, stream @ take (m * sz) bs))"

definition writer_new ::
  "host \<Rightarrow> string \<Rightarrow> 32 word \<Rightarrow> index_dir \<Rightarrow> (index_error + index_writer) \<times> index_dir" where
  "writer_new H dir dim d =
     (if \<not> mkdir_ok H then (Inl (CannotCreate dir), d)
      else if \<not> lock_open_ok H \<or> locked d then (Inl (Busy dir), d)
      else if \<not> fopen_ok H then (Inl (CannotWrite dir), d)
      else (Inr \<lparr>w_dir = dir, w_dim = dim, w_count = 0,
                 w_stream = Some (snd (fwrite H [] (header_bytes (writer_header dim 0)) sizeof_hdr 1))\<rparr>,
            d\<lparr>vectors_new := Some [], locked := True\<rparr>))"

text \<open>
  The appending half both ways of adding a row share; \<open>None\<close> is a use of the stream after it
  was closed.
\<close>

definition append_row :: "host \<Rightarrow> index_writer \<Rightarrow> 16 word list \<Rightarrow> (bool \<times> index_writer) option" where
  "append_row H w row =
     (case w_stream w of
        None \<Rightarrow> None
      | Some stream \<Rightarrow>
          (case fwrite H stream (row_bytes row) 2 (unat (w_dim w)) of (m, stream) \<Rightarrow>
             if m = unat (w_dim w)
             then Some (True, w\<lparr>w_stream := Some stream, w_count := w_count w + 1\<rparr>)
             else Some (False, w\<lparr>w_stream := Some stream\<rparr>)))"

definition sum_squares :: "fpu \<Rightarrow> 32 word list \<Rightarrow> 64 word" where
  "sum_squares F vec = foldl (\<lambda>acc x. d_add F acc (d_mul F (f_to_d F x) (f_to_d F x))) 0 vec"

definition unit_row :: "fpu \<Rightarrow> 32 word list \<Rightarrow> 16 word list" where
  "unit_row F vec =
     (let norm = d_sqrt F (sum_squares F vec);
          norm = (if d_lt F norm 0x3D719799812DEA11 then 0x3FF0000000000000 else norm)
      in map (\<lambda>x. float_to_half (d_to_f F (d_div F (f_to_d F x) norm))) vec)"

text \<open>An array of no elements is \<^verbatim>\<open>NULL\<close>, which \<^verbatim>\<open>g_new\<close> returns for it.\<close>

definition writer_add ::
  "fpu \<Rightarrow> host \<Rightarrow> index_writer \<Rightarrow> 32 word list \<Rightarrow> 32 word \<Rightarrow> (bool \<times> index_writer) option" where
  "writer_add F H w vec dim =
     (if vec = [] \<or> dim \<noteq> w_dim w then Some (False, w)
      else append_row H w (unit_row F (take (unat dim) vec)))"

definition writer_add_f16 ::
  "host \<Rightarrow> index_writer \<Rightarrow> 16 word list option \<Rightarrow> 32 word \<Rightarrow> (bool \<times> index_writer) option" where
  "writer_add_f16 H w row dim =
     (case row of
        None \<Rightarrow> Some (False, w)
      | Some row \<Rightarrow> if dim \<noteq> w_dim w then Some (False, w) else append_row H w row)"

text \<open>
  Committing writes the header over the first bytes, flushes and closes the stream, and renames.
  None of the results of \<^verbatim>\<open>fwrite\<close>, \<^verbatim>\<open>fflush\<close>, \<^verbatim>\<open>fsync\<close> and \<^verbatim>\<open>fclose\<close> is looked at.
\<close>

definition patch_header :: "host \<Rightarrow> byte list \<Rightarrow> byte list \<Rightarrow> byte list" where
  "patch_header H stream hdr = (if accepts H stream 1 = 0 then stream else write_at 0 hdr stream)"

definition writer_commit ::
  "host \<Rightarrow> index_writer \<Rightarrow> index_dir \<Rightarrow> ((index_error + unit) \<times> index_writer \<times> index_dir) option" where
  "writer_commit H w d =
     (case w_stream w of
        None \<Rightarrow> None
      | Some stream \<Rightarrow>
          let file = flushed H (patch_header H stream (header_bytes (writer_header (w_dim w) (w_count w))));
              w = w\<lparr>w_stream := None\<rparr>
          in Some (if rename_ok H
                   then (Inr (), w, d\<lparr>vectors := Some file, vectors_new := None\<rparr>)
                   else (Inl (CannotCommit (w_dir w)), w, d\<lparr>vectors_new := Some file\<rparr>)))"

definition writer_free :: "host \<Rightarrow> index_writer \<Rightarrow> index_dir \<Rightarrow> index_dir" where
  "writer_free H w d =
     (case w_stream w of
        None \<Rightarrow> d\<lparr>locked := False\<rparr>
      | Some stream \<Rightarrow> d\<lparr>vectors_new := Some (flushed H stream), locked := False\<rparr>)"

section \<open>Rows and bytes\<close>

lemma halves_of_half_bytes [simp]: "halves_of (half_bytes h @ bs) = h # halves_of bs"
proof -
  have "unat h < 65536" using unsigned_less [of h, where 'a = nat] by simp
  then have h: "le_nat (le_bytes 2 (unat h)) = unat h" by (simp add: le_nat_le_bytes)
  have "le_bytes 2 (unat h) = [of_nat (unat h mod 256), of_nat (unat h div 256 mod 256)]"
    by (simp add: numeral_2_eq_2)
  with h show ?thesis by (simp add: half_bytes_def del: le_nat.simps)
qed

lemma halves_of_row_bytes [simp]: "halves_of (row_bytes row @ bs) = row @ halves_of bs"
  by (induction row) (auto simp: row_bytes_def)

lemma halves_of_row_bytes' [simp]: "halves_of (row_bytes row) = row"
  using halves_of_row_bytes [of row "[]"] by simp

lemma length_row_bytes [simp]: "length (row_bytes row) = 2 * length row"
  by (induction row) (auto simp: row_bytes_def half_bytes_def)

lemma length_halves_of: "length (halves_of bs) = length bs div 2"
  by (induction bs rule: halves_of.induct) auto

lemma length_rows:
  "list_all (\<lambda>r. length r = n) rows \<Longrightarrow> length (concat (map row_bytes rows)) = length rows * (2 * n)"
  by (induction rows) auto

lemma read_row:
  assumes "list_all (\<lambda>r. length r = n) rows" "i < length rows" "length hdr = off"
  shows "read_halves (hdr @ concat (map row_bytes rows)) (off + i * (2 * n)) n = Some (rows ! i)"
proof -
  have split: "rows = take i rows @ rows ! i # drop (Suc i) rows" using assms(2) by (rule id_take_nth_drop)
  have la: "list_all (\<lambda>r. length r = n) (take i rows)" and l: "length (rows ! i) = n"
    using assms(1,2) by (auto simp: list_all_length)
  have "concat (map row_bytes rows) =
      concat (map row_bytes (take i rows)) @ row_bytes (rows ! i) @ concat (map row_bytes (drop (Suc i) rows))"
    using arg_cong [OF split, of "\<lambda>r. concat (map row_bytes r)"] by simp
  then have "take (2 * n) (drop (off + i * (2 * n)) (hdr @ concat (map row_bytes rows))) = row_bytes (rows ! i)"
    using length_rows [OF la] assms(2,3) l by simp
  moreover have "Suc i * (2 * n) \<le> length rows * (2 * n)" using assms(2) by (intro mult_right_mono) auto
  ultimately show ?thesis
    using length_rows [OF assms(1)] assms(3) by (simp add: read_halves_def read_bytes_def)
qed

section \<open>The header survives the disk\<close>

lemma length_header: "length (magic hdr) = 8 \<Longrightarrow> length (pad hdr) = 32 \<Longrightarrow> length (header_bytes hdr) = sizeof_hdr"
  by (simp add: header_bytes_def sizeof_hdr_def)

lemma header_round_trip:
  assumes "length (magic hdr) = 8" "length (pad hdr) = 32"
  shows "header_of (header_bytes hdr) = hdr"
  using assms by (simp add: header_of_def header_bytes_def le_nat_word32 le_nat_word64)

lemma writer_header_lengths: "length (magic (writer_header dim n)) = 8" "length (pad (writer_header dim n)) = 32"
  by (simp_all add: writer_header_def VEC_MAGIC_def)

lemmas writer_header_round_trip = header_round_trip [OF writer_header_lengths]
lemmas length_writer_header [simp] = length_header [OF writer_header_lengths]

section \<open>What an accepted file guarantees\<close>

text \<open>The bytes an index of this shape takes, as a number.\<close>

definition shape_bytes :: "32 word \<Rightarrow> 64 word \<Rightarrow> nat" where
  "shape_bytes dim n = sizeof_hdr + unat n * (2 * unat dim)"

lemma shape_possible_iff:
  "\<not> shape_impossible dim n \<longleftrightarrow> 0 < unat dim \<and> unat dim < 2 ^ 31 \<and> shape_bytes dim n < 2 ^ 64"
proof -
  have row: "unat (ucast dim * 2 :: 64 word) = 2 * unat dim" if "unat dim < 2 ^ 31"
    using that unat_mult_small [of "ucast dim" 2] by simp
  have le: "n \<le> (0xFFFFFFFFFFFFFFFF - of_nat sizeof_hdr) div (ucast dim * 2) \<longleftrightarrow>
      shape_bytes dim n < 2 ^ 64" if d: "0 < unat dim" "unat dim < 2 ^ 31"
  proof -
    have "n \<le> (0xFFFFFFFFFFFFFFFF - of_nat sizeof_hdr) div (ucast dim * 2) \<longleftrightarrow>
        unat n \<le> 18446744073709551551 div (2 * unat dim)"
      by (simp add: word_le_nat_alt unat_div sizeof_hdr_def row [OF d(2)])
    also have "\<dots> \<longleftrightarrow> unat n * (2 * unat dim) \<le> 18446744073709551551"
      using d(1) by (simp add: less_eq_div_iff_mult_less_eq)
    also have "\<dots> \<longleftrightarrow> shape_bytes dim n < 2 ^ 64" 
    proof -
      have "(2::nat) ^ 64 = 18446744073709551616" by simp
      then show ?thesis unfolding shape_bytes_def sizeof_hdr_def by (intro iffI) linarith+
    qed
    finally show ?thesis .
  qed
  have "\<not> dim > 0xFFFFFFFF div 2 \<longleftrightarrow> unat dim < 2 ^ 31"
    by (simp add: word_less_nat_alt unat_div) linarith
  moreover have "dim \<noteq> 0 \<longleftrightarrow> 0 < unat dim" by (simp add: unat_gt_0)
  ultimately show ?thesis using le unfolding shape_impossible_def by (metis linorder_not_le)
qed

lemma row_offset:
  assumes "shape_bytes dim n < 2 ^ 64" "unat i \<le> unat n"
  shows "unat (of_nat sizeof_hdr + i * ucast dim * 2 :: 64 word) = sizeof_hdr + unat i * (2 * unat dim)"
proof -
  have b: "sizeof_hdr + unat i * (2 * unat dim) < 2 ^ 64"
    using assms(1) mult_le_mono1 [OF assms(2), of "2 * unat dim"] unfolding shape_bytes_def by linarith
  have m: "unat (i * ucast dim) = unat i * unat dim"
    using unat_mult_small [of i "ucast dim"] b by simp
  then have "unat (i * ucast dim * 2) = unat i * unat dim * 2"
    using unat_mult_small [of "i * ucast dim" 2] b by simp
  then show ?thesis
    using unat_add_small [of "of_nat sizeof_hdr" "i * ucast dim * 2"] b by (simp add: sizeof_hdr_def)
qed

lemma need_unat:
  assumes "shape_bytes dim n < 2 ^ 64"
  shows "unat (of_nat sizeof_hdr + n * (ucast dim * 2) :: 64 word) = shape_bytes dim n"
    and "unat (of_nat sizeof_hdr + n * ucast dim * 2 :: 64 word) = shape_bytes dim n"
  using row_offset [OF assms order_refl] by (simp_all add: shape_bytes_def mult.assoc)

text \<open>Opening, said without machine arithmetic.\<close>

definition acceptable :: "byte list \<Rightarrow> bool" where
  "acceptable bs \<longleftrightarrow> sizeof_hdr \<le> length bs \<and>
     (let hdr = header_of (take sizeof_hdr bs) in
        magic hdr = VEC_MAGIC \<and> version hdr = INDEX_FORMAT_VERSION \<and>
        0 < unat (hdr_dim hdr) \<and> unat (hdr_dim hdr) < 2 ^ 31 \<and>
        shape_bytes (hdr_dim hdr) (hdr_count hdr) < 2 ^ 64 \<and>
        shape_bytes (hdr_dim hdr) (hdr_count hdr) \<le> length bs)"

definition opened :: "string \<Rightarrow> byte list \<Rightarrow> brigade_index" where
  "opened dir bs =
     (let hdr = header_of (take sizeof_hdr bs); n = shape_bytes (hdr_dim hdr) (hdr_count hdr) in
      \<lparr>ix_dir = dir, vec_map = take n bs, vec_len = of_nat n, ix_dim = hdr_dim hdr, ix_count = hdr_count hdr\<rparr>)"

lemma index_open_Inr:
  "index_open dir content rd mm = Inr ix \<longleftrightarrow> (\<exists>bs. content = Some bs \<and> acceptable bs \<and> rd \<and> mm \<and> ix = opened dir bs)"
proof (cases content)
  case None
  then show ?thesis by (simp add: index_open_def)
next
  case (Some bs)
  define hdr where "hdr = header_of (take sizeof_hdr bs)"
  show ?thesis
  proof (cases "shape_impossible (hdr_dim hdr) (hdr_count hdr)")
    case True
    then have "\<not> acceptable bs" using shape_possible_iff unfolding acceptable_def Let_def hdr_def by blast
    then show ?thesis using Some True by (simp add: index_open_def Let_def hdr_def)
  next
    case False
    then have sh: "0 < unat (hdr_dim hdr)" "unat (hdr_dim hdr) < 2 ^ 31" "shape_bytes (hdr_dim hdr) (hdr_count hdr) < 2 ^ 64"
      using shape_possible_iff by blast+
    define len :: "64 word" where "len = of_nat sizeof_hdr + hdr_count hdr * ucast (hdr_dim hdr) * 2"
    have len: "unat len = shape_bytes (hdr_dim hdr) (hdr_count hdr)"
      unfolding len_def by (rule need_unat(2) [OF sh(3)])
    have op: "opened dir bs = \<lparr>ix_dir = dir, vec_map = take (unat len) bs, vec_len = len, ix_dim = hdr_dim hdr, ix_count = hdr_count hdr\<rparr>"
      by (simp add: opened_def Let_def hdr_def [symmetric] flip: len)
    have "index_open dir content rd mm = (if length bs < sizeof_hdr then Inl (Truncated dir)
        else if \<not> rd \<or> magic hdr \<noteq> VEC_MAGIC \<or> version hdr \<noteq> INDEX_FORMAT_VERSION then Inl (UnrecognisedFormat dir)
        else if length bs < shape_bytes (hdr_dim hdr) (hdr_count hdr) then Inl (HoldsFewer dir (hdr_count hdr))
        else if \<not> mm then Inl (CannotMap dir) else Inr (opened dir bs))"
      using False by (simp add: index_open_def Some Let_def hdr_def [symmetric] need_unat(1) [OF sh(3)] op len_def [symmetric])
    moreover have "acceptable bs \<longleftrightarrow> sizeof_hdr \<le> length bs \<and> magic hdr = VEC_MAGIC \<and>
        version hdr = INDEX_FORMAT_VERSION \<and> shape_bytes (hdr_dim hdr) (hdr_count hdr) \<le> length bs"
      using sh by (simp add: acceptable_def Let_def hdr_def [symmetric])
    ultimately show ?thesis using Some by auto
  qed
qed

text \<open>
  What a client of an open index may rely on: every row is inside the mapping, and the address
  arithmetic of \<^verbatim>\<open>index_row\<close> and of the scan does not wrap.
\<close>

definition index_ok :: "brigade_index \<Rightarrow> bool" where
  "index_ok ix \<longleftrightarrow> 0 < unat (ix_dim ix) \<and> unat (ix_dim ix) < 2 ^ 31 \<and>
     shape_bytes (ix_dim ix) (ix_count ix) < 2 ^ 64 \<and>
     unat (vec_len ix) = shape_bytes (ix_dim ix) (ix_count ix) \<and>
     length (vec_map ix) = shape_bytes (ix_dim ix) (ix_count ix)"

definition index_rows :: "brigade_index \<Rightarrow> 16 word list list" where
  "index_rows ix = map (\<lambda>i. halves_of (take (2 * unat (ix_dim ix))
     (drop (sizeof_hdr + i * (2 * unat (ix_dim ix))) (vec_map ix)))) [0..<unat (ix_count ix)]"

lemma opened_ok: "acceptable bs \<Longrightarrow> index_ok (opened dir bs)"
  by (simp add: acceptable_def opened_def index_ok_def Let_def unat_of_nat)

lemma length_index_rows [simp]: "length (index_rows ix) = unat (ix_count ix)"
  by (simp add: index_rows_def)

lemma row_in_map:
  assumes "index_ok ix" "i < unat (ix_count ix)"
  shows "sizeof_hdr + i * (2 * unat (ix_dim ix)) + 2 * unat (ix_dim ix) \<le> length (vec_map ix)"
proof -
  have "Suc i * (2 * unat (ix_dim ix)) \<le> unat (ix_count ix) * (2 * unat (ix_dim ix))"
    using assms(2) by (intro mult_le_mono1) simp
  then show ?thesis using assms(1) by (simp add: index_ok_def shape_bytes_def)
qed

lemma row_at_nth:
  assumes "index_ok ix" "unat i < unat (ix_count ix)"
  shows "row_at ix (of_nat sizeof_hdr + i * ucast (ix_dim ix) * 2) = Some (index_rows ix ! unat i)"
proof -
  have off: "unat (of_nat sizeof_hdr + i * ucast (ix_dim ix) * 2 :: 64 word) = sizeof_hdr + unat i * (2 * unat (ix_dim ix))"
    using assms by (intro row_offset [where n = "ix_count ix"]) (simp_all add: index_ok_def)
  show ?thesis
    unfolding row_at_def off read_halves_def read_bytes_def
    using row_in_map [OF assms] assms(2) by (simp add: index_rows_def)
qed

lemma index_rows_lengths:
  assumes "index_ok ix" shows "list_all (\<lambda>r. length r = unat (ix_dim ix)) (index_rows ix)"
proof -
  have "min (length (vec_map ix) - (sizeof_hdr + i * (2 * unat (ix_dim ix)))) (2 * unat (ix_dim ix)) = 2 * unat (ix_dim ix)"
    if "i < unat (ix_count ix)" for i
    using row_in_map [OF assms that] by linarith
  then show ?thesis by (auto simp: list_all_iff index_rows_def length_halves_of)
qed

lemma index_row_reads:
  assumes "index_ok ix" "unat i < unat (ix_count ix)"
  shows "map_option (row_at ix) (index_row ix i) = Some (Some (index_rows ix ! unat i))"
  using row_at_nth [OF assms] assms(2) by (simp add: index_row_def word_le_nat_alt)

section \<open>What the writer has written\<close>

text \<open>A host on which every call does what it is asked to.\<close>

definition host_works :: "host \<Rightarrow> bool" where
  "host_works H \<longleftrightarrow> mkdir_ok H \<and> lock_open_ok H \<and> fopen_ok H \<and> rename_ok H \<and> read_ok H \<and> map_ok H \<and>
     (\<forall>s n. n \<le> accepts H s n) \<and> (\<forall>s. flushed H s = s)"

text \<open>The rows a writer has taken, as its stream holds them behind the header.\<close>

definition writer_holds :: "index_writer \<Rightarrow> 16 word list list \<Rightarrow> bool" where
  "writer_holds w rows \<longleftrightarrow> list_all (\<lambda>r. length r = unat (w_dim w)) rows \<and>
     w_count w = of_nat (length rows) \<and>
     (\<exists>hdr. length hdr = sizeof_hdr \<and> w_stream w = Some (hdr @ concat (map row_bytes rows)))"

lemma fwrite_works:
  "host_works H \<Longrightarrow> length bs = n * sz \<Longrightarrow> fwrite H stream bs sz n = (n, stream @ bs)"
  by (auto simp: fwrite_def host_works_def min_def Let_def)

lemma writer_new_holds:
  assumes "host_works H" "\<not> locked d"
  shows "\<exists>w. writer_new H dir dim d = (Inr w, d\<lparr>vectors_new := Some [], locked := True\<rparr>) \<and>
     writer_holds w [] \<and> w_dir w = dir \<and> w_dim w = dim"
proof -
  have "fwrite H [] (header_bytes (writer_header dim 0)) sizeof_hdr 1 = (1, [] @ header_bytes (writer_header dim 0))"
    by (rule fwrite_works [OF assms(1)]) simp
  then show ?thesis using assms by (simp add: writer_new_def writer_holds_def host_works_def)
qed

lemma append_row_holds:
  assumes "host_works H" "writer_holds w rows" "length row = unat (w_dim w)"
  shows "\<exists>w'. append_row H w row = Some (True, w') \<and> writer_holds w' (rows @ [row]) \<and>
     w_dir w' = w_dir w \<and> w_dim w' = w_dim w"
proof -
  obtain hdr where s: "w_stream w = Some (hdr @ concat (map row_bytes rows))" "length hdr = sizeof_hdr"
    using assms(2) unfolding writer_holds_def by blast
  have "fwrite H (hdr @ concat (map row_bytes rows)) (row_bytes row) 2 (unat (w_dim w)) =
      (unat (w_dim w), (hdr @ concat (map row_bytes rows)) @ row_bytes row)"
    using assms(3) by (intro fwrite_works [OF assms(1)]) simp
  then show ?thesis
    using assms(2,3) s unfolding append_row_def writer_holds_def by simp
qed

text \<open>The file a commit puts in place is one that opens, with exactly the rows that were added.\<close>

definition index_file :: "32 word \<Rightarrow> 16 word list list \<Rightarrow> byte list" where
  "index_file dim rows = header_bytes (writer_header dim (of_nat (length rows))) @ concat (map row_bytes rows)"

lemma writer_commit_file:
  assumes "host_works H" "writer_holds w rows"
  shows "writer_commit H w d = Some (Inr (), w\<lparr>w_stream := None\<rparr>,
     d\<lparr>vectors := Some (index_file (w_dim w) rows), vectors_new := None\<rparr>)"
proof -
  obtain hdr where s: "w_stream w = Some (hdr @ concat (map row_bytes rows))" "length hdr = sizeof_hdr"
    and c: "w_count w = of_nat (length rows)"
    using assms(2) unfolding writer_holds_def by blast
  have "1 \<le> accepts H s 1" "flushed H s = s" "rename_ok H" for s
    using assms(1) unfolding host_works_def by blast+
  then have "patch_header H st h = write_at 0 h st" "flushed H st = st" "rename_ok H" for st h
    unfolding patch_header_def by (metis not_one_le_zero)+
  then show ?thesis
    using s c by (simp add: writer_commit_def write_at_def index_file_def Let_def)
qed

lemma index_file_opens:
  assumes rows: "list_all (\<lambda>r. length r = unat dim) rows" and "0 < unat dim" "unat dim < 2 ^ 31"
    and fits: "sizeof_hdr + length rows * (2 * unat dim) < 2 ^ 64"
  shows "acceptable (index_file dim rows)" and "index_rows (opened dir (index_file dim rows)) = rows"
    and "ix_dim (opened dir (index_file dim rows)) = dim"
proof -
  let ?h = "header_bytes (writer_header dim (of_nat (length rows)))"
  have "length rows * 1 \<le> length rows * (2 * unat dim)" using assms(2) by (intro mult_le_mono2) simp
  then have "length rows < 2 ^ 64" using fits by linarith
  then have cnt: "unat (of_nat (length rows) :: 64 word) = length rows" by (simp add: unat_of_nat)
  have hdr: "header_of (take sizeof_hdr (index_file dim rows)) = writer_header dim (of_nat (length rows))"
    by (simp add: index_file_def writer_header_round_trip)
  have len: "length (index_file dim rows) = shape_bytes dim (of_nat (length rows))"
    using length_rows [OF rows] by (simp add: index_file_def shape_bytes_def cnt)
  have sh: "shape_bytes dim (of_nat (length rows)) < 2 ^ 64" using fits by (simp only: shape_bytes_def cnt)
  show acc: "acceptable (index_file dim rows)"
    using assms(2,3) sh unfolding acceptable_def hdr Let_def by (simp add: len writer_header_def) (simp add: shape_bytes_def)
  show dim: "ix_dim (opened dir (index_file dim rows)) = dim"
    unfolding opened_def hdr Let_def by (simp add: writer_header_def)
  have map: "vec_map (opened dir (index_file dim rows)) = index_file dim rows"
    and n: "unat (ix_count (opened dir (index_file dim rows))) = length rows"
    unfolding opened_def hdr Let_def by (simp_all add: writer_header_def len cnt)
  have "halves_of (take (2 * unat dim) (drop (sizeof_hdr + i * (2 * unat dim)) (index_file dim rows))) = rows ! i"
    if "i < length rows" for i
    using read_row [OF rows that, of ?h sizeof_hdr] unfolding index_file_def read_halves_def read_bytes_def
    by (simp split: if_splits)
  then show "index_rows (opened dir (index_file dim rows)) = rows"
    by (intro nth_equalityI) (simp_all add: index_rows_def dim map n)
qed

section \<open>The properties\<close>

text \<open>
  Property (C11). No header can send the reader outside the file. A file opens exactly if it has the
  magic, the version, a dimension from 1 to \<open>2\<^sup>3\<^sup>1 - 1\<close> and a count whose rows, counted without
  wrap-around, stay below \<open>2\<^sup>6\<^sup>4\<close> and within the file; and of an index that opened, every row number
  below the count has an address at which all halves of the row lie inside the mapping, and every
  other row number has none.
\<close>

theorem index_open_in_bounds:
  "((\<exists>ix. index_open dir content True True = Inr ix) \<longleftrightarrow> (\<exists>bs. content = Some bs \<and> acceptable bs)) \<and>
   (index_open dir content rd mm = Inr ix \<longrightarrow>
      map_option (row_at ix) (index_row ix i) =
        (if unat i < unat (ix_count ix) then Some (Some (index_rows ix ! unat i)) else None) \<and>
      list_all (\<lambda>r. length r = unat (ix_dim ix)) (index_rows ix))"
proof (intro conjI impI)
  show "(\<exists>ix. index_open dir content True True = Inr ix) \<longleftrightarrow> (\<exists>bs. content = Some bs \<and> acceptable bs)"
    by (auto simp: index_open_Inr)
next
  assume "index_open dir content rd mm = Inr ix"
  then have ok: "index_ok ix" using opened_ok unfolding index_open_Inr by blast
  show "map_option (row_at ix) (index_row ix i) =
        (if unat i < unat (ix_count ix) then Some (Some (index_rows ix ! unat i)) else None)"
    using index_row_reads [OF ok, of i] by (auto simp: index_row_def word_le_nat_alt)
  show "list_all (\<lambda>r. length r = unat (ix_dim ix)) (index_rows ix)" by (rule index_rows_lengths [OF ok])
qed

theorem index_open_in_bounds_witness:
  "\<exists>ix. index_open ''/ix'' (Some (index_file 2 [[1, 2], [3, 4]])) True True = Inr ix \<and>
     map_option (row_at ix) (index_row ix 1) = Some (Some [3, 4]) \<and> index_row ix 2 = None"
proof -
  let ?bs = "index_file 2 [[1, 2], [3, 4]]" and ?ix = "opened ''/ix'' (index_file 2 [[1, 2], [3, 4]])"
  have "list_all (\<lambda>r. length r = unat (2 :: 32 word)) [[1, 2], [3, 4 :: 16 word]]" by simp
  note f = index_file_opens [OF this]
  have a: "acceptable ?bs" and rows: "index_rows ?ix = [[1, 2], [3, 4]]"
    by (rule f; simp add: sizeof_hdr_def)+
  have n: "unat (ix_count ?ix) = 2" using length_index_rows [of ?ix] rows by simp
  have op: "index_open ''/ix'' (Some ?bs) True True = Inr ?ix" using a by (simp add: index_open_Inr)
  show ?thesis
    using op index_open_in_bounds [of "''/ix''" "Some ?bs" True True ?ix 1] index_open_in_bounds [of "''/ix''" "Some ?bs" True True ?ix 2] n rows
    by auto
qed

text \<open>
  Property (C33). A full disk destroys the index. When the last bytes of the new file do not reach the
  disk, the commit still renames it over the live index and reports success, because none of
  the results of writing, flushing and closing is looked at; what is then in place does not open.
\<close>

theorem commit_hides_full_disk:
  assumes "writer_holds w rows" "0 < unat (w_dim w)" "unat (w_dim w) < 2 ^ 31"
    and "sizeof_hdr + length rows * (2 * unat (w_dim w)) < 2 ^ 64"
    and "rename_ok H" "\<And>s. 1 \<le> accepts H s 1" "\<And>s. flushed H s = take n s"
    and "n < sizeof_hdr + length rows * (2 * unat (w_dim w))"
  shows "\<exists>w' d'. writer_commit H w d = Some (Inr (), w', d') \<and>
     vectors d' = Some (take n (index_file (w_dim w) rows)) \<and>
     (\<exists>e. index_open dir (vectors d') rd mm = Inl e)"
proof -
  obtain hdr where s: "w_stream w = Some (hdr @ concat (map row_bytes rows))" "length hdr = sizeof_hdr"
    and c: "w_count w = of_nat (length rows)" and l: "list_all (\<lambda>r. length r = unat (w_dim w)) rows"
    using assms(1) unfolding writer_holds_def by blast
  have "patch_header H st h = write_at 0 h st" for st h
    using assms(6) [of st] unfolding patch_header_def by auto
  then have com: "writer_commit H w d = Some (Inr (), w\<lparr>w_stream := None\<rparr>,
      d\<lparr>vectors := Some (take n (index_file (w_dim w) rows)), vectors_new := None\<rparr>)"
    using s c assms(5,7) by (simp add: writer_commit_def write_at_def index_file_def Let_def)
  have "length rows * 1 \<le> length rows * (2 * unat (w_dim w))" using assms(2) by (intro mult_le_mono2) simp
  then have "length rows < 2 ^ 64" using assms(4) by linarith
  then have "unat (of_nat (length rows) :: 64 word) = length rows" by (simp add: unat_of_nat)
  then have sh: "shape_bytes (w_dim w) (of_nat (length rows)) = sizeof_hdr + length rows * (2 * unat (w_dim w))"
    by (simp add: shape_bytes_def)
  have "\<not> acceptable (take n (index_file (w_dim w) rows))"
  proof
    assume acc: "acceptable (take n (index_file (w_dim w) rows))"
    then have "sizeof_hdr \<le> n" by (simp add: acceptable_def)
    then have "take sizeof_hdr (take n (index_file (w_dim w) rows)) = header_bytes (writer_header (w_dim w) (of_nat (length rows)))"
      by (simp add: index_file_def min_absorb1)
    then have hd: "header_of (take sizeof_hdr (take n (index_file (w_dim w) rows))) = writer_header (w_dim w) (of_nat (length rows))"
      by (simp only: writer_header_round_trip)
    from acc have "shape_bytes (w_dim w) (of_nat (length rows)) \<le> length (take n (index_file (w_dim w) rows))"
      unfolding acceptable_def Let_def hd by (simp add: writer_header_def)
    then have "shape_bytes (w_dim w) (of_nat (length rows)) \<le> n" by simp
    then show False using sh assms(8) by simp
  qed
  then have "\<exists>e. index_open dir (Some (take n (index_file (w_dim w) rows))) rd mm = Inl e"
    using index_open_Inr [of dir "Some (take n (index_file (w_dim w) rows))" rd mm] by (cases "index_open dir (Some (take n (index_file (w_dim w) rows))) rd mm") auto
  then show ?thesis using com by simp
qed

text \<open>A disk with room for the header only.\<close>

definition full_host :: host where
  "full_host = \<lparr>mkdir_ok = True, lock_open_ok = True, fopen_ok = True, rename_ok = True, read_ok = True, map_ok = True,
     accepts = (\<lambda>s n. n), flushed = take 64\<rparr>"

theorem commit_hides_full_disk_witness:
  "\<exists>w' d'. writer_commit full_host
       \<lparr>w_dir = ''/ix'', w_dim = 1, w_count = 1, w_stream = Some (header_bytes (writer_header 1 0) @ row_bytes [1])\<rparr>
       \<lparr>vectors = Some (index_file 1 [[2]]), vectors_new = Some [], locked = True\<rparr> = Some (Inr (), w', d') \<and>
     (\<exists>e. index_open ''/ix'' (vectors d') True True = Inl e)"
proof -
  let ?w = "\<lparr>w_dir = ''/ix'', w_dim = 1, w_count = 1, w_stream = Some (header_bytes (writer_header 1 0) @ row_bytes [1])\<rparr>"
  have "writer_holds ?w [[1]]"
    unfolding writer_holds_def by (auto intro!: exI [of _ "header_bytes (writer_header 1 0)"])
  from commit_hides_full_disk [OF this, where H = full_host and n = 64 and dir = "''/ix''" and rd = True and mm = True and
      d = "\<lparr>vectors = Some (index_file 1 [[2]]), vectors_new = Some [], locked = True\<rparr>"]
  show ?thesis by (auto simp: full_host_def sizeof_hdr_def)
qed

end
