(* ===== verification/Brigade_Search.thy ===== *)
theory Brigade_Search
  imports Brigade_Index
begin

text \<open>
  The search of the vector index is the exhaustive ranking cut off at \<open>k\<close>. What the bounded
  arrays have to do for a row is stated as a locale, \<open>top_k\<close>, and the two arrays of
  \<^verbatim>\<open>cmacs_brigade_index_search\<close> are shown to be such a store; the scan over the rows then keeps the
  first \<open>k\<close> of the stable descending ranking of all rows.
\<close>

section \<open>Keeping the first k of a ranking\<close>

text \<open>Insertion behind everything that ranks no later, which keeps earlier rows first among equals.\<close>

fun insort_after :: "('a \<Rightarrow> 'b::linorder) \<Rightarrow> 'a \<Rightarrow> 'a list \<Rightarrow> 'a list" where
  "insort_after f x [] = [x]"
| "insort_after f x (y # ys) = (if f y \<le> f x then y # insort_after f x ys else x # y # ys)"

lemma insort_after_split:
  "insort_after f x ys = takeWhile (\<lambda>y. f y \<le> f x) ys @ x # dropWhile (\<lambda>y. f y \<le> f x) ys"
  by (induction ys) auto

lemma insort_after_last: "\<forall>y \<in> set ys. f y \<le> f x \<Longrightarrow> insort_after f x ys = ys @ [x]"
  by (induction ys) auto

lemma insort_after_butlast: "\<not> f z \<le> f x \<Longrightarrow> insort_after f x (ys @ [z]) = insort_after f x ys @ [z]"
  by (induction ys) auto

lemma length_insort_after [simp]: "length (insort_after f x ys) = Suc (length ys)"
  by (induction ys) auto

lemma set_insort_after [simp]: "set (insort_after f x ys) = insert x (set ys)"
  by (induction ys) auto

lemma sorted_insort_after: "sorted (map f ys) \<Longrightarrow> sorted (map f (insort_after f x ys))"
  by (induction ys) (auto simp: not_le)

lemma take_insort_after: "take k (insort_after f x (take k ys)) = take k (insort_after f x ys)"
proof (induction ys arbitrary: k)
  case (Cons y ys)
  then show ?case by (cases k) (auto simp: take_Cons')
qed simp

lemma insort_key_after: "insort_key f a (insort_after f x ys) = insort_after f x (insort_key f a ys)"
  by (induction ys) auto

lemma sort_key_snoc: "sort_key f (xs @ [x]) = insort_after f x (sort_key f xs)"
  by (induction xs) (auto simp: insort_key_after)

locale top_k =
  fixes exec :: "'e \<Rightarrow> 's \<Rightarrow> 's option" and view :: "'s \<Rightarrow> 'a list" and inv :: "'s \<Rightarrow> bool"
    and item :: "'e \<Rightarrow> 'a" and ok :: "'e \<Rightarrow> bool" and key :: "'a \<Rightarrow> 'b::linorder" and k :: nat
  assumes exec_inserts: "inv s \<Longrightarrow> ok e \<Longrightarrow> \<exists>s'. exec e s = Some s' \<and> inv s' \<and>
      view s' = take k (insort_after key (item e) (view s))"
begin

lemma run_ranks:
  assumes "inv s" "view s = take k (sort_key key (map item es))" "list_all ok fs"
  shows "\<exists>s'. run_events exec fs s = Some s' \<and> inv s' \<and> view s' = take k (sort_key key (map item (es @ fs)))"
  using assms
proof (induction fs arbitrary: es s)
  case (Cons e fs)
  obtain s' where s': "exec e s = Some s'" "inv s'" "view s' = take k (insort_after key (item e) (view s))"
    using exec_inserts [of s e] Cons.prems by auto
  then have "view s' = take k (sort_key key (map item (es @ [e])))"
    using Cons.prems(2) by (simp add: take_insort_after sort_key_snoc)
  then show ?case using Cons.IH [of s' "es @ [e]"] s' Cons.prems(3) by auto
qed simp

end

section \<open>The two arrays\<close>

type_synonym hit = "32 word \<times> 32 word"

definition hit_list :: "hits \<Rightarrow> hit list" where
  "hit_list h = zip (take (found h) (out_scores h)) (take (found h) (out_ids h))"

definition hit_key :: "hit \<Rightarrow> int" where
  "hit_key x = - float_int (fst x)"

definition hits_inv :: "nat \<Rightarrow> hits \<Rightarrow> bool" where
  "hits_inv k h \<longleftrightarrow> 0 < k \<and> k \<le> 2 ^ 31 \<and> length (out_scores h) = k \<and> length (out_ids h) = k \<and>
     found h \<le> k \<and> sorted (map hit_key (hit_list h)) \<and> (\<forall>x \<in> set (hit_list h). \<not> float_nan (fst x))"

lemma shift_hits_place:
  assumes "P = A @ B @ y # C" "\<forall>b \<in> set B. float_lt (fst b) s" "A = [] \<or> \<not> float_lt (fst (last A)) s"
    and "pos = int (length (A @ B))"
  shows "\<exists>Q :: hit list. shift_hits s pos (map fst P) (map snd P) = (int (length A), map fst Q, map snd Q) \<and>
     length Q = length P \<and> (\<forall>z. Q[length A := z] = A @ z # B @ C)"
  using assms
proof (induction B arbitrary: y C P pos rule: rev_induct)
  case Nil
  have stop: "\<not> (pos > 0 \<and> float_lt (map fst P ! nat (pos - 1)) s)"
  proof (cases A rule: rev_cases)
    case (snoc A' a)
    then have "map fst P ! nat (pos - 1) = fst a" using Nil by (simp add: nth_append)
    then show ?thesis using Nil(3) snoc by simp
  qed (use Nil in simp)
  then have "shift_hits s pos (map fst P) (map snd P) = (pos, map fst P, map snd P)"
    by (subst shift_hits.simps) (simp only: if_False)
  then show ?case using Nil by (intro exI [of _ P]) simp
next
  case (snoc b B)
  let ?P = "A @ B @ b # b # C"
  have n: "nat pos = Suc (length (A @ B))" "nat (pos - 1) = length (A @ B)" "0 < pos" using snoc.prems(4) by simp_all
  have P: "P = (A @ B) @ b # y # C" using snoc.prems(1) by simp
  have at: "map fst P ! nat (pos - 1) = fst b" "map snd P ! nat (pos - 1) = snd b"
    unfolding n P by (simp_all add: nth_append)
  have upd: "(map fst P)[nat pos := fst b] = map fst ?P" "(map snd P)[nat pos := snd b] = map snd ?P"
    unfolding n P by (simp_all add: list_update_append)
  have "float_lt (fst b) s" using snoc.prems(2) by simp
  then have "shift_hits s pos (map fst P) (map snd P) = shift_hits s (pos - 1) (map fst ?P) (map snd ?P)"
    using n(3) by (subst shift_hits.simps) (simp only: at upd simp_thms if_True)
  moreover obtain Q where "shift_hits s (pos - 1) (map fst ?P) (map snd ?P) = (int (length A), map fst Q, map snd Q)"
      "length Q = length ?P" "\<forall>z. Q[length A := z] = A @ z # B @ b # C"
    using snoc.IH [of ?P b "b # C" "pos - 1"] snoc.prems by auto
  ultimately show ?case using P by (intro exI [of _ Q]) simp
qed

lemma float_lt_key: "\<not> float_nan a \<Longrightarrow> \<not> float_nan b \<Longrightarrow> float_lt a b \<longleftrightarrow> \<not> - float_int a \<le> - float_int b"
  by (auto simp: float_lt_def)

text \<open>A row goes in before the cells from \<open>n\<close> on, of which the first is given up.\<close>

lemma place_row:
  assumes P: "n < length P" and srt: "sorted (map hit_key (take n P))"
    and nan: "\<forall>x \<in> set (take n P). \<not> float_nan (fst x)" "\<not> float_nan s"
  shows "\<exists>m Q :: hit list. shift_hits s (int n) (map fst P) (map snd P) = (int m, map fst Q, map snd Q) \<and>
     length Q = length P \<and> take (Suc n) (Q[m := (s, i)]) = insort_after hit_key (s, i) (take n P)"
proof -
  let ?p = "\<lambda>y. hit_key y \<le> hit_key (s, i)"
  define A B where "A = takeWhile ?p (take n P)" and "B = dropWhile ?p (take n P)"
  have AB: "A @ B = take n P" by (simp add: A_def B_def)
  have lt: "float_lt (fst y) s \<longleftrightarrow> \<not> ?p y" if "y \<in> set (take n P)" for y
    using float_lt_key [of "fst y" s] nan that by (simp add: hit_key_def)
  have B: "\<forall>b \<in> set B. float_lt (fst b) s"
  proof
    fix b assume b: "b \<in> set B"
    then have "B \<noteq> []" by auto
    then have h: "\<not> ?p (hd B)" unfolding B_def by (rule hd_dropWhile)
    have "sorted (map hit_key B)" using srt AB by (metis map_append sorted_append)
    then have "hit_key (hd B) \<le> hit_key b" using b by (cases B) auto
    then have "\<not> ?p b" using h by linarith
    moreover have "b \<in> set (take n P)" using b AB by (metis Un_iff set_append)
    ultimately show "float_lt (fst b) s" using lt by blast
  qed
  have A: "A = [] \<or> \<not> float_lt (fst (last A)) s"
  proof (cases "A = []")
    case False
    then have l: "last A \<in> set A" by simp
    then have "?p (last A)" unfolding A_def by (metis set_takeWhileD)
    moreover have "last A \<in> set (take n P)" using l AB by (metis Un_iff set_append)
    ultimately show ?thesis using lt by blast
  qed simp
  have len: "length (A @ B) = n" using P by (simp add: AB)
  have split: "P = A @ B @ P ! n # drop (Suc n) P" using id_take_nth_drop [OF P] AB by (metis append_assoc)
  obtain Q where Q: "shift_hits s (int n) (map fst P) (map snd P) = (int (length A), map fst Q, map snd Q)"
      "length Q = length P" "\<forall>z. Q[length A := z] = A @ z # B @ drop (Suc n) P"
    using shift_hits_place [OF split B A, of "int n"] len by auto
  have "take (Suc n) (Q[length A := (s, i)]) = A @ (s, i) # B"
  proof -
    have "Q[length A := (s, i)] = (A @ (s, i) # B) @ drop (Suc n) P" using Q(3) by simp
    moreover have "length (A @ (s, i) # B) = Suc n" using len by simp
    ultimately show ?thesis by (metis append_eq_conv_conj)
  qed
  also have "\<dots> = insort_after hit_key (s, i) (take n P)"
    by (simp add: insort_after_split A_def B_def)
  finally show ?thesis using Q(1,2) by blast
qed

lemma hit_list_zip:
  assumes "length (out_scores h) = k" "length (out_ids h) = k" "found h \<le> k"
  shows "hit_list h = take (found h) (zip (out_scores h) (out_ids h))"
    and "length (hit_list h) = found h"
  using assms by (simp_all add: hit_list_def take_zip)

lemma take_row_inserts:
  assumes inv: "hits_inv k h" and ok: "\<not> float_nan score"
  shows "\<exists>h'. take_row k i score h = Some h' \<and> hits_inv k h' \<and>
     hit_list h' = take k (insort_after hit_key (score, ucast i) (hit_list h))"
proof -
  define P where "P = zip (out_scores h) (out_ids h)"
  have k: "0 < k" "k \<le> 2 ^ 31" and l: "length (out_scores h) = k" "length (out_ids h) = k" and f: "found h \<le> k"
    and srt: "sorted (map hit_key (hit_list h))" and nan: "\<forall>x \<in> set (hit_list h). \<not> float_nan (fst x)"
    using inv by (auto simp: hits_inv_def)
  have P: "length P = k" "map fst P = out_scores h" "map snd P = out_ids h" using l by (simp_all add: P_def)
  have hl: "hit_list h = take (found h) P" unfolding P_def by (rule hit_list_zip [OF l f])
  let ?x = "(score, ucast i) :: hit"
  show ?thesis
  proof (cases "found h = k \<and> float_le score (out_scores h ! (k - 1))")
    case True
    have "hit_key y \<le> hit_key ?x" if y: "y \<in> set (hit_list h)" for y
    proof -
      have full: "hit_list h = P" using True P by (simp add: hl)
      obtain j where j: "j < k" "y = P ! j" using y full P(1) by (auto simp: in_set_conv_nth)
      have "hit_key (P ! j) \<le> hit_key (P ! (k - 1))"
        using sorted_nth_mono [OF srt, of j "k - 1"] j full P(1) by simp
      moreover have "hit_key (P ! (k - 1)) \<le> hit_key ?x"
        using True l k by (simp add: P_def hit_key_def float_le_def)
      ultimately show ?thesis using j by simp
    qed
    then have "insort_after hit_key ?x (hit_list h) = hit_list h @ [?x]" by (intro insort_after_last) blast
    then have "take k (insort_after hit_key ?x (hit_list h)) = hit_list h" using True P by (simp add: hl)
    moreover have "take_row k i score h = Some h" using True by (simp add: take_row_def)
    ultimately show ?thesis using inv by auto
  next
    case False
    define n where "n = (if found h < k then found h else k - 1)"
    have n: "n < k" using k f by (simp add: n_def)
    have g: "to_gint (int n) = int n" using n k by (intro to_gint_id) (simp add: gint_range_def)
    have tk: "take n P = take n (hit_list h)" using f by (simp add: hl n_def min_def)
    have "sorted (map hit_key (take n P))" using srt unfolding tk by (metis sorted_wrt_take take_map)
    moreover have "\<forall>x \<in> set (take n P). \<not> float_nan (fst x)" using nan unfolding tk by (auto dest: in_set_takeD)
    ultimately obtain m Q where Q: "shift_hits score (int n) (map fst P) (map snd P) = (int m, map fst Q, map snd Q)"
        "length Q = k" "take (Suc n) (Q[m := ?x]) = insort_after hit_key ?x (take n P)"
      using place_row [of n P score "ucast i"] n ok P(1) by auto
    define h' where "h' = \<lparr>out_scores = (map fst Q)[m := score], out_ids = (map snd Q)[m := ucast i], found = Suc n\<rparr>"
    have "take_row k i score h = Some h'"
      using False n g Q(1) l(1) f unfolding take_row_def h'_def n_def [symmetric] P(2,3)
      by (auto simp: Let_def n_def)
    moreover have hl': "hit_list h' = insort_after hit_key ?x (take n P)"
    proof -
      have "out_scores h' = map fst (Q[m := ?x])" "out_ids h' = map snd (Q[m := ?x])"
        by (simp_all add: h'_def map_update)
      then have "zip (out_scores h') (out_ids h') = Q[m := ?x]" by (simp only: zip_map_fst_snd)
      then show ?thesis using Q(3) by (simp add: hit_list_def h'_def flip: take_zip)
    qed
    moreover have "insort_after hit_key ?x (take n P) = take k (insort_after hit_key ?x (hit_list h))"
    proof (cases "found h < k")
      case True
      then show ?thesis using P(1) by (simp add: hl n_def)
    next
      case full: False
      then have "found h = k" and nk: "Suc n = k" using f k by (simp_all add: n_def)
      then have hP: "hit_list h = take n P @ [P ! n]"
        using P(1) take_Suc_conv_app_nth [of n P] by (simp add: hl)
      have "\<not> float_nan (out_scores h ! n)"
        using nan unfolding hP using P(2) n l by (metis P(1) in_set_conv_decomp nth_map)
      then have "\<not> hit_key (P ! n) \<le> hit_key ?x"
        using False \<open>found h = k\<close> nk [symmetric] ok l by (auto simp: float_le_def hit_key_def P_def)
      then have "insort_after hit_key ?x (take n P @ [P ! n]) = insort_after hit_key ?x (take n P) @ [P ! n]"
        by (rule insort_after_butlast)
      then show ?thesis unfolding hP using nk P(1) by simp
    qed
    moreover have "hits_inv k h'"
    proof -
      have "sorted (map hit_key (hit_list h'))"
        unfolding hl' by (rule sorted_insort_after) fact
      moreover have "\<forall>x \<in> set (hit_list h'). \<not> float_nan (fst x)"
        unfolding hl' using ok nan tk by (auto dest: in_set_takeD)
      ultimately show ?thesis using k n Q(2) by (simp add: hits_inv_def h'_def)
    qed
    ultimately show ?thesis by metis
  qed
qed

interpretation hits: top_k "\<lambda>e. take_row k (fst e) (snd e)" hit_list "hits_inv k"
    "\<lambda>e. (snd e, ucast (fst e))" "\<lambda>e. \<not> float_nan (snd e)" hit_key k for k
  by unfold_locales (rule take_row_inserts)

section \<open>The scan\<close>

definition row_scores :: "fpu \<Rightarrow> brigade_index \<Rightarrow> 32 word list \<Rightarrow> 32 word list" where
  "row_scores F ix query = map (dot_value F query) (index_rows ix)"

text \<open>The ranking of all rows: by falling score, the earlier row first where scores are equal.\<close>

definition ranking :: "fpu \<Rightarrow> brigade_index \<Rightarrow> 32 word list \<Rightarrow> hit list" where
  "ranking F ix query = sort_key hit_key (zip (row_scores F ix query) (map of_nat [0..<unat (ix_count ix)]))"

lemma length_row_scores [simp]: "length (row_scores F ix query) = unat (ix_count ix)"
  by (simp add: row_scores_def)

lemma search_rows_events:
  assumes ok: "index_ok ix" and "j + n = unat (ix_count ix)" and q: "unat (ix_dim ix) \<le> length query"
  shows "search_rows F ix query k n (of_nat j) h =
     run_events (\<lambda>e. take_row k (fst e) (snd e)) (map (\<lambda>j. (of_nat j, row_scores F ix query ! j)) [j..<j + n]) h"
  using assms(2)
proof (induction n arbitrary: j h)
  case (Suc n)
  have j: "j < unat (ix_count ix)" using Suc.prems by simp
  then have u: "unat (of_nat j :: 64 word) = j"
    using unsigned_less [of "ix_count ix", where 'a = nat] by (simp add: unat_of_nat)
  have row: "row_at ix (of_nat sizeof_hdr + of_nat j * ucast (ix_dim ix) * 2) = Some (index_rows ix ! j)"
    using row_at_nth [OF ok, of "of_nat j"] j u by simp
  have next_i: "of_nat j + 1 = (of_nat (Suc j) :: 64 word)" by simp
  have upt: "[j..<j + Suc n] = j # [Suc j..<Suc j + n]" by (simp add: upt_conv_Cons)
  have IH: "search_rows F ix query k n (of_nat (Suc j)) h' = run_events (\<lambda>e. take_row k (fst e) (snd e))
      (map (\<lambda>j. (of_nat j, row_scores F ix query ! j)) [Suc j..<Suc j + n]) h'" for h'
    using Suc.IH [of "Suc j"] Suc.prems by (simp only: add_Suc add_Suc_right)
  have "length (index_rows ix ! j) = unat (ix_dim ix)" using index_rows_lengths [OF ok] j by (simp add: list_all_length)
  then have sc: "dot_row F query (index_rows ix ! j) = Some (row_scores F ix query ! j)" using j q by (simp add: row_scores_def dot_row_def)
  show ?case
    unfolding upt search_rows.simps row next_i option.case sc IH
    by (simp only: list.map run_events.simps fst_conv snd_conv)
qed simp

lemma hits_inv_empty:
  "0 < k \<Longrightarrow> k \<le> 2 ^ 31 \<Longrightarrow> length ids = k \<Longrightarrow> length scores = k \<Longrightarrow>
     hits_inv k \<lparr>out_scores = scores, out_ids = ids, found = 0\<rparr>"
  by (simp add: hits_inv_def hit_list_def)

text \<open>
  Property (C12). The bounded insertion is the exhaustive ranking. On an index that was opened, with a query of (at least) the
  index's dimension, arrays of \<open>k\<close> cells for some \<open>k\<close> up to \<open>2 ^ 31\<close> (the insertion position is a \<^verbatim>\<open>gint\<close>) and no row
  scoring a NaN, the search touches nothing outside the mapping, the query and the
  arrays, and leaves in them the first \<open>k\<close> entries (or all, when there are fewer rows) of the
  stable ranking of every row of the index by falling score.
\<close>

theorem index_search_exact:
  assumes "index_open dir content rd mm = Inr ix" "unat k \<le> 2 ^ 31" "unat (ix_dim ix) \<le> length query"
    and "length ids = unat k" "length scores = unat k"
    and "list_all (\<lambda>s. \<not> float_nan s) (row_scores F ix query)"
  shows "\<exists>h. index_search F ix query k ids scores = Some h \<and>
     found h = min (unat k) (unat (ix_count ix)) \<and> hit_list h = take (unat k) (ranking F ix query)"
proof (cases "k = 0")
  case True
  then show ?thesis by (simp add: index_search_def hit_list_def)
next
  case False
  then have k: "0 < unat k" by (simp add: unat_gt_0)
  have ok: "index_ok ix" using assms(1) opened_ok unfolding index_open_Inr by blast
  let ?es = "map (\<lambda>j. (of_nat j, row_scores F ix query ! j)) [0..<unat (ix_count ix)] :: (64 word \<times> 32 word) list"
  have items: "map (\<lambda>e. (snd e, ucast (fst e))) ?es = (zip (row_scores F ix query) (map of_nat [0..<unat (ix_count ix)]) :: hit list)"
  proof (intro nth_equalityI)
    fix i assume "i < length (map (\<lambda>e. (snd e, ucast (fst e))) ?es)"
    then have i: "i < unat (ix_count ix)" by simp
    then have "unat (of_nat i :: 64 word) = i"
      using unsigned_less [of "ix_count ix", where 'a = nat] by (simp add: unat_of_nat)
    then have "ucast (of_nat i :: 64 word) = (of_nat i :: 32 word)" by (metis of_nat_unat)
    with i show "map (\<lambda>e. (snd e, ucast (fst e))) ?es ! i = (zip (row_scores F ix query) (map of_nat [0..<unat (ix_count ix)]) :: hit list) ! i"
      by simp
  qed simp
  obtain h where h: "run_events (\<lambda>e. take_row (unat k) (fst e) (snd e)) ?es \<lparr>out_scores = scores, out_ids = ids, found = 0\<rparr> = Some h"
      "hits_inv (unat k) h" "hit_list h = take (unat k) (ranking F ix query)"
    using hits.run_ranks [of "unat k" "\<lparr>out_scores = scores, out_ids = ids, found = 0\<rparr>" "[]" ?es]
      hits_inv_empty [OF k assms(2,4,5)] assms(6) items
    by (auto simp: hit_list_def ranking_def list_all_length)
  have "index_search F ix query k ids scores = Some h"
    using False search_rows_events [OF ok _ assms(3), of 0 "unat (ix_count ix)"] h(1) by (simp add: index_search_def)
  moreover have "found h = length (hit_list h)"
    using h(2) by (simp add: hits_inv_def hit_list_zip(2) [where k = "unat k"])
  then have "found h = min (unat k) (unat (ix_count ix))"
    by (simp add: h(3) ranking_def min.commute)
  ultimately show ?thesis using h(3) by blast
qed

text \<open>A host whose arithmetic answers with one of its arguments, and an index of three rows.\<close>

definition demo_fpu :: fpu where
  "demo_fpu = \<lparr>f_add = (\<lambda>a b. b), f_mul = (\<lambda>a b. b), f_sub = (\<lambda>a b. a), f_div = (\<lambda>a b. a),
     f_of_int = word_of_int, f16c = False, vcvtph = half_value_of,
     d_add = (\<lambda>a b. b), d_mul = (\<lambda>a b. b), d_div = (\<lambda>a b. a), d_sqrt = (\<lambda>a. a), d_lt = (\<lambda>a b. False),
     f_to_d = ucast, d_to_f = ucast, d_of_int = word_of_int\<rparr>"

definition demo_file :: "byte list" where
  "demo_file = index_file 1 [[0x3000], [0x3C00], [0xB000]]"

lemma demo_file_opens:
  "acceptable demo_file" "index_rows (opened dir demo_file) = [[0x3000], [0x3C00], [0xB000]]"
  "ix_dim (opened dir demo_file) = 1" "unat (ix_count (opened dir demo_file)) = 3"
proof -
  have "list_all (\<lambda>r. length r = unat (1 :: 32 word)) [[0x3000], [0x3C00], [0xB000 :: 16 word]]" by simp
  note f = index_file_opens [OF this]
  show "acceptable demo_file" "index_rows (opened dir demo_file) = [[0x3000], [0x3C00], [0xB000]]"
    "ix_dim (opened dir demo_file) = 1"
    unfolding demo_file_def by (rule f; simp add: sizeof_hdr_def)+
  then show "unat (ix_count (opened dir demo_file)) = 3"
    using length_index_rows [of "opened dir demo_file"] by simp
qed

lemma half_lut_exact: "half_lut ! unat h = half_value_of h"
proof -
  have "unat h < 65536" using unsigned_less [of h, where 'a = nat] by simp
  then show ?thesis by (simp add: half_lut_def)
qed

lemma half_conv_simp: "half_conv lut h = half_value_of h"
  by (simp add: half_conv_def half_lut_exact)

lemma demo_values:
  "half_value_of 0x3000 = 0x3E000000" "half_value_of 0x3C00 = 0x3F800000" "half_value_of 0xB000 = 0xBE000000"
  by (simp_all add: half_value_of_def half_to_float_scalar_def Let_def)

lemma demo_row_scores: "row_scores demo_fpu (opened dir demo_file) [q] = [0x3E000000, 0x3F800000, 0xBE000000]"
  by (simp add: row_scores_def demo_file_opens dot_value_def demo_fpu_def half_conv_simp demo_values)

lemma demo_floats:
  "\<not> float_nan 0x3E000000" "\<not> float_nan 0x3F800000" "\<not> float_nan 0xBE000000"
  "float_int 0x3E000000 = 2 ^ 146" "float_int 0x3F800000 = 2 ^ 149" "float_int 0xBE000000 = - (2 ^ 146)"
  by (simp_all add: float_nan_def float_int_def float_exp_def float_mant_def float_mag_def float_sign_def)

theorem index_search_exact_witness:
  "\<exists>h. index_search demo_fpu (opened ''/ix'' demo_file) [0] 2 [0, 0] [0, 0] = Some h \<and>
     found h = 2 \<and> hit_list h = [(0x3F800000, 1), (0x3E000000, 0)]"
proof -
  have "index_open ''/ix'' (Some demo_file) True True = Inr (opened ''/ix'' demo_file)"
    using demo_file_opens(1) by (simp add: index_open_Inr)
  moreover have "list_all (\<lambda>s. \<not> float_nan s) (row_scores demo_fpu (opened ''/ix'' demo_file) [0])"
    by (simp add: demo_row_scores demo_floats)
  ultimately obtain h where h: "index_search demo_fpu (opened ''/ix'' demo_file) [0] 2 [0, 0] [0, 0] = Some h"
      "found h = 2" "hit_list h = take 2 (ranking demo_fpu (opened ''/ix'' demo_file) [0])"
    using index_search_exact [of "''/ix''" "Some demo_file" True True "opened ''/ix'' demo_file" 2 "[0]" "[0, 0]" "[0, 0]" demo_fpu]
    by (auto simp: demo_file_opens)
  have "ranking demo_fpu (opened ''/ix'' demo_file) [0] = [(0x3F800000, 1), (0x3E000000, 0), (0xBE000000, 2)]"
    by (simp add: ranking_def demo_row_scores demo_file_opens hit_key_def demo_floats upt_rec)
  with h show ?thesis by simp
qed

section \<open>A score that is not a number\<close>

lemma shift_hits_stops:
  assumes "float_nan (scores ! 0)" "1 \<le> pos" "pos < int (length scores)" "length ids = length scores"
    and "shift_hits s pos scores ids = (p, scores', ids')"
  shows "1 \<le> p \<and> p < int (length scores) \<and> length scores' = length scores \<and> length ids' = length scores \<and>
     scores' ! 0 = scores ! 0 \<and> ids' ! 0 = ids ! 0"
  using assms
proof (induction s pos scores ids rule: shift_hits.induct)
  case (1 s pos scores ids)
  show ?case
  proof (cases "float_lt (scores ! nat (pos - 1)) s")
    case True
    then have "pos \<noteq> 1" using "1.prems"(1) by (auto simp: float_lt_def)
    then have p: "1 \<le> pos - 1" "nat pos \<noteq> 0" using "1.prems"(2) by auto
    have "shift_hits s (pos - 1) (scores[nat pos := scores ! nat (pos - 1)]) (ids[nat pos := ids ! nat (pos - 1)])
        = (p, scores', ids')"
      using "1.prems"(2,5) True by (subst (asm) shift_hits.simps) simp
    then show ?thesis using "1.IH" "1.prems" True p by simp
  next
    case False
    then have "shift_hits s pos scores ids = (pos, scores, ids)" by (subst shift_hits.simps) simp
    then show ?thesis using "1.prems" by simp
  qed
qed

definition nan_first :: "nat \<Rightarrow> 32 word \<Rightarrow> hits \<Rightarrow> bool" where
  "nan_first k s h \<longleftrightarrow> 1 < k \<and> k \<le> 2 ^ 31 \<and> length (out_scores h) = k \<and> length (out_ids h) = k \<and>
     0 < found h \<and> found h \<le> k \<and> float_nan s \<and> out_scores h ! 0 = s \<and> out_ids h ! 0 = 0"

lemma take_row_nan_first:
  assumes "nan_first k s h" shows "\<exists>h'. take_row k i score h = Some h' \<and> nan_first k s h'"
proof (cases "found h = k \<and> float_le score (out_scores h ! (k - 1))")
  case True
  then show ?thesis using assms by (simp add: take_row_def)
next
  case False
  define n where "n = (if found h < k then found h else k - 1)"
  have n: "1 \<le> n" "n < k" using assms by (auto simp: nan_first_def n_def)
  have g: "to_gint (int n) = int n" using n assms by (intro to_gint_id) (simp add: gint_range_def nan_first_def)
  obtain p scores ids where sh: "shift_hits score (int n) (out_scores h) (out_ids h) = (p, scores, ids)"
    by (metis prod_cases3)
  from shift_hits_stops [OF _ _ _ _ sh] assms n
  have p: "1 \<le> p" "p < int k" "length scores = k" "length ids = k" "scores ! 0 = s" "ids ! 0 = 0"
    by (auto simp: nan_first_def)
  have "take_row k i score h = Some \<lparr>out_scores = scores[nat p := score], out_ids = ids[nat p := ucast i],
      found = (if found h < k then found h + 1 else found h)\<rparr>"
    using False n g sh assms unfolding take_row_def n_def [symmetric] by (auto simp: Let_def nan_first_def)
  moreover have "nat p \<noteq> 0" using p(1) by simp
  ultimately show ?thesis using assms p by (simp add: nan_first_def)
qed

lemma run_nan_first:
  "nan_first k s h \<Longrightarrow> \<exists>h'. run_events (\<lambda>e. take_row k (fst e) (snd e)) es h = Some h' \<and> nan_first k s h'"
proof (induction es arbitrary: h)
  case (Cons e es)
  obtain h' where "take_row k (fst e) (snd e) h = Some h'" "nan_first k s h'"
    using take_row_nan_first [OF Cons.prems] by blast
  then show ?case using Cons.IH [of h'] by simp
qed simp

text \<open>
  Property (C34). A row that scores a NaN is not ranked last: if it is the first row of the index, every
  search with a query of the index's dimension for two or more results (and at most \<open>2 ^ 31\<close>) returns it as the best hit, whatever the other
  rows score, because no score compares greater than a NaN and the insertion never passes it.
\<close>

theorem nan_row_ranks_first:
  assumes "index_open dir content rd mm = Inr ix" "1 < unat k" "unat k \<le> 2 ^ 31"
    and "length ids = unat k" "length scores = unat k" "unat (ix_dim ix) \<le> length query"
    and "0 < unat (ix_count ix)" "float_nan (row_scores F ix query ! 0)"
  shows "\<exists>h rest. index_search F ix query k ids scores = Some h \<and> hit_list h = (row_scores F ix query ! 0, 0) # rest"
proof -
  have ok: "index_ok ix" using assms(1) opened_ok unfolding index_open_Inr by blast
  let ?s = "row_scores F ix query ! 0" and ?h0 = "\<lparr>out_scores = scores, out_ids = ids, found = 0\<rparr>"
  let ?es = "\<lambda>a. map (\<lambda>j. (of_nat j, row_scores F ix query ! j)) [a..<unat (ix_count ix)] :: (64 word \<times> 32 word) list"
  have es: "?es 0 = (0, ?s) # ?es 1" using assms(7) by (simp add: upt_conv_Cons)
  have "shift_hits ?s 0 scores ids = (0, scores, ids)" by (subst shift_hits.simps) simp
  moreover have "to_gint 0 = 0" by (intro to_gint_id) (simp add: gint_range_def)
  moreover have "uint k \<noteq> 0" using assms(2) by (auto simp: uint_0_iff)
  ultimately have first: "take_row (unat k) 0 ?s ?h0 = Some \<lparr>out_scores = scores[0 := ?s], out_ids = ids[0 := 0], found = 1\<rparr>"
    using assms(2,5) by (simp add: take_row_def Let_def)
  have "nan_first (unat k) ?s \<lparr>out_scores = scores[0 := ?s], out_ids = ids[0 := 0], found = 1\<rparr>"
    using assms by (simp add: nan_first_def)
  from run_nan_first [OF this, of "?es 1"] obtain h where
    h: "run_events (\<lambda>e. take_row (unat k) (fst e) (snd e)) (?es 0) ?h0 = Some h" "nan_first (unat k) ?s h"
    unfolding es using first by auto
  have "index_search F ix query k ids scores = Some h"
    using assms(2) search_rows_events [OF ok _ assms(6), of 0 "unat (ix_count ix)"] h(1) by (auto simp: index_search_def)
  moreover have "hit_list h = (?s, 0) # tl (hit_list h)"
  proof -
    have "length (hit_list h) = found h" "hit_list h ! 0 = (?s, 0)"
      using h(2) by (simp_all add: nan_first_def hit_list_def)
    then show ?thesis using h(2) by (cases "hit_list h") (simp_all add: nan_first_def)
  qed
  ultimately show ?thesis by blast
qed

text \<open>An infinite component times a zero of the query is a NaN, and the row comes out on top.\<close>

definition inf_fpu :: fpu where
  "inf_fpu = demo_fpu\<lparr>f_mul := (\<lambda>a b. if b = 0x7F800000 \<and> a = 0 then 0x7FC00000 else b)\<rparr>"

definition inf_file :: "byte list" where
  "inf_file = index_file 1 [[0x7C00], [0x3C00]]"

theorem nan_row_ranks_first_witness:
  "\<exists>h rest. index_search inf_fpu (opened ''/ix'' inf_file) [0] 2 [0, 0] [0, 0] = Some h \<and>
     hit_list h = (0x7FC00000, 0) # rest"
proof -
  have "list_all (\<lambda>r. length r = unat (1 :: 32 word)) [[0x7C00], [0x3C00 :: 16 word]]" by simp
  note f = index_file_opens [OF this]
  have acc: "acceptable inf_file" and rows: "index_rows (opened ''/ix'' inf_file) = [[0x7C00], [0x3C00]]"
    unfolding inf_file_def by (rule f; simp add: sizeof_hdr_def)+
  have "half_value_of 0x7C00 = 0x7F800000" by (simp add: half_value_of_def half_to_float_scalar_def Let_def)
  then have sc: "row_scores inf_fpu (opened ''/ix'' inf_file) [0] ! 0 = 0x7FC00000"
    by (simp add: row_scores_def rows dot_value_def inf_fpu_def demo_fpu_def half_conv_simp)
  have "float_nan 0x7FC00000" by (simp add: float_nan_def float_exp_def float_mant_def)
  moreover have "index_open ''/ix'' (Some inf_file) True True = Inr (opened ''/ix'' inf_file)"
    using acc by (simp add: index_open_Inr)
  moreover have dim: "ix_dim (opened ''/ix'' inf_file) = 1"
    unfolding inf_file_def by (rule f; simp add: sizeof_hdr_def)
  moreover have "unat (ix_count (opened ''/ix'' inf_file)) = 2"
    using length_index_rows [of "opened ''/ix'' inf_file"] rows by simp
  ultimately show ?thesis
    using nan_row_ranks_first [of "''/ix''" "Some inf_file" True True "opened ''/ix'' inf_file" 2 "[0, 0]" "[0, 0]" "[0]" inf_fpu] sc dim
    by simp
qed

section \<open>The two ways of forming the product\<close>

text \<open>
  Where the additions may be done in any order, as in exact arithmetic, the eight-lane product
  is the scalar one; only the rounding of the host can tell them apart.
\<close>

definition adds_exactly :: "fpu \<Rightarrow> bool" where
  "adds_exactly F \<longleftrightarrow> (\<forall>a b c. f_add F (f_add F a b) c = f_add F a (f_add F b c)) \<and>
     (\<forall>a b. f_add F a b = f_add F b a) \<and> (\<forall>a. f_add F 0 a = a) \<and> (\<forall>h. vcvtph F h = half_value_of h)"

definition f_sum :: "fpu \<Rightarrow> 32 word list \<Rightarrow> 32 word" where
  "f_sum F xs = foldr (f_add F) xs 0"

definition products :: "fpu \<Rightarrow> 32 word list \<Rightarrow> 16 word list \<Rightarrow> 32 word list" where
  "products F qs rs = map2 (\<lambda>q r. f_mul F q (half_value_of r)) qs rs"

lemma adds_exactlyD:
  assumes "adds_exactly F"
  shows "f_add F (f_add F a b) c = f_add F a (f_add F b c)" "f_add F a (f_add F b c) = f_add F b (f_add F a c)"
    "f_add F 0 a = a" "f_add F a 0 = a" "vcvtph F h = half_value_of h"
  using assms unfolding adds_exactly_def by metis+

lemma f_sum_Cons [simp]: "f_sum F [] = 0" "f_sum F (x # xs) = f_add F x (f_sum F xs)"
  by (simp_all add: f_sum_def)

lemma foldl_f_sum: "adds_exactly F \<Longrightarrow> foldl (f_add F) a xs = f_add F a (f_sum F xs)"
  by (induction xs arbitrary: a) (simp_all add: adds_exactlyD)

lemma f_sum_append: "adds_exactly F \<Longrightarrow> f_sum F (xs @ ys) = f_add F (f_sum F xs) (f_sum F ys)"
  by (induction xs) (simp_all add: adds_exactlyD)

lemma f_sum_map2:
  "adds_exactly F \<Longrightarrow> length xs = length ys \<Longrightarrow> f_sum F (map2 (f_add F) xs ys) = f_add F (f_sum F xs) (f_sum F ys)"
  by (induction xs ys rule: list_induct2') (simp_all add: adds_exactlyD)

lemma scalar_sum:
  "adds_exactly F \<Longrightarrow> dot_row_scalar F lut acc qs rs = f_add F acc (f_sum F (products F qs rs))"
  by (induction F lut acc qs rs rule: dot_row_scalar.induct)
     (simp_all add: adds_exactlyD half_conv_simp products_def)

lemma f16c_sum:
  assumes "adds_exactly F" "length sums = 8" "length qs = length rs"
  shows "dot_row_f16c F sums qs rs = f_add F (f_sum F sums) (f_sum F (products F qs rs))"
  using assms
proof (induction F sums qs rs rule: dot_row_f16c.induct)
  case (1 F sums qs rs)
  show ?case
  proof (cases "8 \<le> length rs")
    case True
    have p: "products F qs rs = products F (take 8 qs) (take 8 rs) @ products F (drop 8 qs) (drop 8 rs)"
      using "1.prems"(3) by (simp add: products_def flip: map_append zip_append)
    have "dot_lanes F sums (take 8 qs) (take 8 rs) = map2 (f_add F) sums (products F (take 8 qs) (take 8 rs))"
      by (simp add: dot_lanes_def products_def adds_exactlyD(5) [OF "1.prems"(1)])
    moreover have "length (products F (take 8 qs) (take 8 rs)) = 8" using True "1.prems"(3) by (simp add: products_def)
    ultimately have "f_sum F (dot_lanes F sums (take 8 qs) (take 8 rs)) = f_add F (f_sum F sums) (f_sum F (products F (take 8 qs) (take 8 rs)))"
        "length (dot_lanes F sums (take 8 qs) (take 8 rs)) = 8"
      using f_sum_map2 [OF "1.prems"(1)] "1.prems"(2) by simp_all
    then show ?thesis
      using "1.IH" [OF True] "1.prems" True unfolding p
      by (subst dot_row_f16c.simps) (simp add: f_sum_append adds_exactlyD(1))
  next
    case False
    have "sum_lanes F sums = f_sum F sums"
      using "1.prems"(1,2) by (cases sums) (simp_all add: sum_lanes_def foldl_f_sum)
    then show ?thesis using False scalar_sum [OF "1.prems"(1)] by (subst dot_row_f16c.simps) simp
  qed
qed

theorem dot_row_paths_agree:
  assumes "adds_exactly F" "length qs = length rs"
  shows "dot_row_f16c F (replicate 8 0) qs rs = dot_row_scalar F True 0 qs rs"
proof -
  have "f_sum F (replicate n 0) = 0" for n using assms(1) by (induction n) (simp_all add: adds_exactlyD)
  then show ?thesis using assms by (simp add: f16c_sum scalar_sum adds_exactlyD)
qed

end
