(* ===== verification/Brigade_Memory.thy ===== *)
theory Brigade_Memory
  imports Brigade_Search Brigade_Chunk Lisp_Obj GHash
begin

text \<open>
  The Lisp entry points to the vector index, \<^verbatim>\<open>src/cmacs/ai-brigade/cmacs-brigade-memory-defuns.c\<close>:
  two handle tables, of open indexes and of writers under way, and the primitives over them.

  A primitive takes Lisp objects and returns a Lisp object or signals. Its state is the tables,
  the handle counter and the index directories on disk; \<open>loc\<close> says which directory a path leads
  to, and \<open>host\<close> what the operating system answers during one call. Where the C code would
  use an object as what it is not, or a closed stream, the result is \<open>Undefined\<close>.
\<close>

datatype mem_error =
    Signal lisp_error
  | Error index_error
  | BadIndexHandle
  | BadWriterHandle
  | QueryDims nat "32 word"
  | VectorDims nat
  | RowFailed "64 word"
  | Undefined

record brigade_mem =
  indexes :: "(int, brigade_index) ghash"
  writers :: "(int, index_writer) ghash"
  next_handle :: "32 word"
  dirs :: "nat \<Rightarrow> index_dir"

type_synonym 'a mem_result = "(mem_error + 'a) \<times> brigade_mem"

definition put_dir :: "nat \<Rightarrow> index_dir \<Rightarrow> brigade_mem \<Rightarrow> brigade_mem" where
  "put_dir n d m = m\<lparr>dirs := (dirs m)(n := d)\<rparr>"

text \<open>Leaving a primitive at a failed check.\<close>

definition checked :: "'a lisp_result \<Rightarrow> brigade_mem \<Rightarrow> ('a \<Rightarrow> 'b mem_result) \<Rightarrow> 'b mem_result" where
  "checked r m f = (case r of Inl e \<Rightarrow> (Inl (Signal e), m) | Inr x \<Rightarrow> f x)"

section \<open>Handles\<close>

definition mem_put_index :: "brigade_index \<Rightarrow> brigade_mem \<Rightarrow> 32 word \<times> brigade_mem" where
  "mem_put_index ix m =
     (next_handle m, m\<lparr>indexes := gh_replace (uint (next_handle m)) ix (indexes m), next_handle := next_handle m + 1\<rparr>)"

definition free_writer :: "(string \<Rightarrow> nat) \<Rightarrow> host \<Rightarrow> index_writer \<Rightarrow> brigade_mem \<Rightarrow> brigade_mem" where
  "free_writer loc H w m = put_dir (loc (w_dir w)) (writer_free H w (dirs m (loc (w_dir w)))) m"

text \<open>The table frees the writer it replaces, which happens once the counter has wrapped.\<close>

definition mem_put_writer ::
  "(string \<Rightarrow> nat) \<Rightarrow> host \<Rightarrow> index_writer \<Rightarrow> brigade_mem \<Rightarrow> 32 word \<times> brigade_mem" where
  "mem_put_writer loc H w m =
     (let h = next_handle m;
          m' = (case gh_lookup (writers m) (uint h) of None \<Rightarrow> m | Some old \<Rightarrow> free_writer loc H old m)
      in (h, m'\<lparr>writers := gh_replace (uint h) w (writers m'), next_handle := h + 1\<rparr>))"

definition set_writer :: "int \<Rightarrow> index_writer \<Rightarrow> brigade_mem \<Rightarrow> brigade_mem" where
  "set_writer h w m = m\<lparr>writers := gh_replace h w (writers m)\<rparr>"

definition mem_get :: "('v \<Rightarrow> 'b mem_result) \<Rightarrow> mem_error \<Rightarrow> (int, 'v) ghash \<Rightarrow> int \<Rightarrow> brigade_mem \<Rightarrow> 'b mem_result" where
  "mem_get f bad table h m = (case gh_lookup table h of None \<Rightarrow> (Inl bad, m) | Some v \<Rightarrow> f v)"

section \<open>Numbers\<close>

fun floats_of :: "fpu \<Rightarrow> lisp list \<Rightarrow> 32 word list option" where
  "floats_of F [] = Some []"
| "floats_of F (x # xs) =
     (case XFLOATINT F x of
        None \<Rightarrow> None
      | Some d \<Rightarrow> map_option (\<lambda>fs. d_to_f F d # fs) (floats_of F xs))"

text \<open>The elements of a vector or a list argument; a dotted list is refused.\<close>

fun seq_elems :: "lisp \<Rightarrow> lisp list lisp_result" where
  "seq_elems (LVec xs) = Inr xs"
| "seq_elems x = rbind (list_length x) (\<lambda>_. Inr (list_elems x))"

section \<open>The primitives\<close>

definition fix_or :: "lisp \<Rightarrow> nat" where
  "fix_or x = (case x of LFix i \<Rightarrow> nat (to_guint64 i) | _ \<Rightarrow> 0)"

text \<open>\<open>None\<close>: the splitter never returns.\<close>

definition Fchunk_string :: "lisp \<Rightarrow> lisp \<Rightarrow> lisp \<Rightarrow> lisp \<Rightarrow> lisp lisp_result option" where
  "Fchunk_string txt path target overlap =
     (case CHECK_STRING txt of
        Inl e \<Rightarrow> Some (Inl e)
      | Inr t \<Rightarrow>
          (case CHECK_STRING path of
             Inl e \<Rightarrow> Some (Inl e)
           | Inr p \<Rightarrow>
               map_option (\<lambda>chunks. Inr (llist (map (\<lambda>c. plist
                   [('':text'', LStr (ch_text c)), ('':heading'', LStr (ch_heading c)),
                    ('':start'', LFix (int (ch_byte_start c))), ('':length'', LFix (int (ch_byte_len c)))]) chunks)))
                 (chunk_text (Some (SSDATA t)) (Some (SSDATA p)) (fix_or target) (fix_or overlap))))"

definition Findex_open :: "(string \<Rightarrow> nat) \<Rightarrow> host \<Rightarrow> lisp \<Rightarrow> brigade_mem \<Rightarrow> lisp mem_result" where
  "Findex_open loc H dir m = checked (CHECK_STRING dir) m (\<lambda>s.
     case index_open (SSDATA s) (vectors (dirs m (loc (SSDATA s)))) (read_ok H) (map_ok H) of
       Inl e \<Rightarrow> (Inl (Error e), m)
     | Inr ix \<Rightarrow> (case mem_put_index ix m of (h, m) \<Rightarrow> (Inr (LFix (uint h)), m)))"

definition Findex_close :: "lisp \<Rightarrow> brigade_mem \<Rightarrow> lisp mem_result" where
  "Findex_close handle m = checked (CHECK_FIXNAT handle) m (\<lambda>h.
     (Inr (lbool (gh_contains (indexes m) h)), m\<lparr>indexes := gh_remove h (indexes m)\<rparr>))"

definition Findex_info :: "fpu \<Rightarrow> lisp \<Rightarrow> brigade_mem \<Rightarrow> lisp mem_result" where
  "Findex_info F handle m = checked (CHECK_FIXNAT handle) m (\<lambda>h.
     mem_get (\<lambda>ix. (Inr (plist [('':count'', LFix (uint (ix_count ix))), ('':dim'', LFix (uint (ix_dim ix))),
                                ('':f16c'', lbool (f16c F))]), m)) BadIndexHandle (indexes m) h m)"

text \<open>The query is brought to unit length unless its sum of squares is no more than \<^verbatim>\<open>1e-12\<close>.\<close>

definition unit_query :: "fpu \<Rightarrow> 32 word list \<Rightarrow> 32 word list" where
  "unit_query F q =
     (let n = sum_squares F q;
          norm = (if d_lt F 0x3D719799812DEA11 n then d_sqrt F n else 0x3FF0000000000000)
      in map (\<lambda>x. d_to_f F (d_div F (f_to_d F x) norm)) q)"

definition hits_list :: "fpu \<Rightarrow> hits \<Rightarrow> lisp" where
  "hits_list F h = llist (map (\<lambda>i. LCons (LFix (uint (out_ids h ! i))) (LFlo (f_to_d F (out_scores h ! i)))) [0..<found h])"

definition Findex_search :: "fpu \<Rightarrow> lisp \<Rightarrow> lisp \<Rightarrow> lisp \<Rightarrow> brigade_mem \<Rightarrow> lisp mem_result" where
  "Findex_search F handle query k m = checked (CHECK_FIXNAT handle) m (\<lambda>h.
     mem_get (\<lambda>ix. checked (CHECK_FIXNAT k) m (\<lambda>k.
       let want = word_of_int k :: 32 word in
       if want = 0 then (Inr Qnil, m)
       else checked (seq_elems query) m (\<lambda>xs.
         if length xs \<noteq> unat (ix_dim ix) then (Inl (QueryDims (length xs) (ix_dim ix)), m)
         else case floats_of F xs of
             None \<Rightarrow> (Inl Undefined, m)
           | Some q \<Rightarrow>
               (case index_search F ix (unit_query F q) want (replicate (unat want) 0) (replicate (unat want) 0) of
                  None \<Rightarrow> (Inl Undefined, m)
                | Some hits \<Rightarrow> (Inr (hits_list F hits), m)))))
       BadIndexHandle (indexes m) h m)"

definition Fwriter_new :: "(string \<Rightarrow> nat) \<Rightarrow> host \<Rightarrow> lisp \<Rightarrow> lisp \<Rightarrow> brigade_mem \<Rightarrow> lisp mem_result" where
  "Fwriter_new loc H dir dim m = checked (CHECK_STRING dir) m (\<lambda>s. checked (CHECK_FIXNAT dim) m (\<lambda>n.
     let p = loc (SSDATA s) in
     case writer_new H (SSDATA s) (word_of_int n) (dirs m p) of (r, d) \<Rightarrow>
       (case r of
          Inl e \<Rightarrow> (Inl (Error e), put_dir p d m)
        | Inr w \<Rightarrow> (case mem_put_writer loc H w (put_dir p d m) of (h, m) \<Rightarrow> (Inr (LFix (uint h)), m)))))"

definition Fwriter_add :: "fpu \<Rightarrow> host \<Rightarrow> lisp \<Rightarrow> lisp \<Rightarrow> brigade_mem \<Rightarrow> lisp mem_result" where
  "Fwriter_add F H handle vec m = checked (CHECK_FIXNAT handle) m (\<lambda>h.
     mem_get (\<lambda>w. checked (seq_elems vec) m (\<lambda>xs.
       case floats_of F xs of
         None \<Rightarrow> (Inl Undefined, m)
       | Some v \<Rightarrow>
           (case writer_add F H w v (of_nat (length v)) of
              None \<Rightarrow> (Inl Undefined, m)
            | Some (ok, w) \<Rightarrow>
                (if ok then Inr (LFix (uint (w_count w))) else Inl (VectorDims (length xs)), set_writer h w m))))
       BadWriterHandle (writers m) h m)"

text \<open>The rows to leave out, as the map of bytes the copy consults.\<close>

fun mark_skips :: "64 word \<Rightarrow> lisp list \<Rightarrow> bool list \<Rightarrow> bool list lisp_result" where
  "mark_skips n [] skips = Inr skips"
| "mark_skips n (e # es) skips = rbind (CHECK_FIXNAT e) (\<lambda>k.
     mark_skips n es (if nat k < unat n then skips[nat k := True] else skips))"

definition skip_elems :: "lisp \<Rightarrow> lisp list" where
  "skip_elems skip = (case skip of LVec xs \<Rightarrow> xs | x \<Rightarrow> list_elems x)"

text \<open>One row of the copy: \<^verbatim>\<open>add_f16 (w, index_row (ix, i), dim)\<close>.\<close>

definition copy_row :: "host \<Rightarrow> brigade_index \<Rightarrow> 64 word \<Rightarrow> index_writer \<Rightarrow> (bool \<times> index_writer) option" where
  "copy_row H ix i w =
     (case index_row ix i of
        None \<Rightarrow> writer_add_f16 H w None (ix_dim ix)
      | Some off \<Rightarrow>
          (case row_at ix off of
             None \<Rightarrow> None
           | Some row \<Rightarrow> writer_add_f16 H w (Some row) (ix_dim ix)))"

fun copy_rows ::
  "host \<Rightarrow> brigade_index \<Rightarrow> bool list \<Rightarrow> nat \<Rightarrow> 64 word \<Rightarrow> 64 word \<Rightarrow> index_writer \<Rightarrow>
     (mem_error + 64 word) \<times> index_writer" where
  "copy_rows H ix skips 0 i copied w = (Inr copied, w)"
| "copy_rows H ix skips (Suc n) i copied w =
     (if skips ! unat i then copy_rows H ix skips n (i + 1) copied w
      else case copy_row H ix i w of
          None \<Rightarrow> (Inl Undefined, w)
        | Some (ok, w) \<Rightarrow>
            if ok then copy_rows H ix skips n (i + 1) (copied + 1) w else (Inl (RowFailed i), w))"

definition Fwriter_copy :: "host \<Rightarrow> lisp \<Rightarrow> lisp \<Rightarrow> lisp \<Rightarrow> brigade_mem \<Rightarrow> lisp mem_result" where
  "Fwriter_copy H writer index skip m = checked (CHECK_FIXNAT writer) m (\<lambda>h. checked (CHECK_FIXNAT index) m (\<lambda>hi.
     mem_get (\<lambda>w. mem_get (\<lambda>ix.
       checked (mark_skips (ix_count ix) (skip_elems skip) (replicate (unat (ix_count ix)) False)) m (\<lambda>skips.
         case copy_rows H ix skips (unat (ix_count ix)) 0 0 w of (r, w) \<Rightarrow>
           (map_sum (\<lambda>e. e) (\<lambda>n. LFix (uint n)) r, set_writer h w m)))
       BadIndexHandle (indexes m) hi m) BadWriterHandle (writers m) h m))"

text \<open>Removing a writer from its table frees it.\<close>

definition drop_writer :: "(string \<Rightarrow> nat) \<Rightarrow> host \<Rightarrow> int \<Rightarrow> index_writer \<Rightarrow> brigade_mem \<Rightarrow> brigade_mem" where
  "drop_writer loc H h w m = free_writer loc H w (m\<lparr>writers := gh_remove h (writers m)\<rparr>)"

definition Fwriter_commit :: "(string \<Rightarrow> nat) \<Rightarrow> host \<Rightarrow> lisp \<Rightarrow> brigade_mem \<Rightarrow> lisp mem_result" where
  "Fwriter_commit loc H handle m = checked (CHECK_FIXNAT handle) m (\<lambda>h.
     mem_get (\<lambda>w.
       let p = loc (w_dir w) in
       case writer_commit H w (dirs m p) of
         None \<Rightarrow> (Inl Undefined, m)
       | Some (r, w', d) \<Rightarrow>
           (map_sum Error (\<lambda>_. LFix (uint (w_count w))) r, drop_writer loc H h w' (put_dir p d m)))
       BadWriterHandle (writers m) h m)"

definition Fwriter_abort :: "(string \<Rightarrow> nat) \<Rightarrow> host \<Rightarrow> lisp \<Rightarrow> brigade_mem \<Rightarrow> lisp mem_result" where
  "Fwriter_abort loc H handle m = checked (CHECK_FIXNAT handle) m (\<lambda>h.
     case gh_lookup (writers m) h of
       None \<Rightarrow> (Inr Qnil, m)
     | Some w \<Rightarrow> (Inr Qt, drop_writer loc H h w m))"

section \<open>Calls in any order\<close>

datatype mem_op =
    IndexOpen lisp
  | IndexClose lisp
  | IndexInfo lisp
  | IndexSearch lisp lisp lisp
  | WriterNew lisp lisp
  | WriterAdd lisp lisp
  | WriterCopy lisp lisp lisp
  | WriterCommit lisp
  | WriterAbort lisp

fun mem_exec :: "fpu \<Rightarrow> (string \<Rightarrow> nat) \<Rightarrow> host \<Rightarrow> mem_op \<Rightarrow> brigade_mem \<Rightarrow> lisp mem_result" where
  "mem_exec F loc H (IndexOpen dir) m = Findex_open loc H dir m"
| "mem_exec F loc H (IndexClose h) m = Findex_close h m"
| "mem_exec F loc H (IndexInfo h) m = Findex_info F h m"
| "mem_exec F loc H (IndexSearch h q k) m = Findex_search F h q k m"
| "mem_exec F loc H (WriterNew dir dim) m = Fwriter_new loc H dir dim m"
| "mem_exec F loc H (WriterAdd h v) m = Fwriter_add F H h v m"
| "mem_exec F loc H (WriterCopy h ix skip) m = Fwriter_copy H h ix skip m"
| "mem_exec F loc H (WriterCommit h) m = Fwriter_commit loc H h m"
| "mem_exec F loc H (WriterAbort h) m = Fwriter_abort loc H h m"

fun mem_run ::
  "fpu \<Rightarrow> (string \<Rightarrow> nat) \<Rightarrow> (host \<times> mem_op) list \<Rightarrow> brigade_mem \<Rightarrow> (mem_error + lisp) list \<times> brigade_mem" where
  "mem_run F loc [] m = ([], m)"
| "mem_run F loc ((H, e) # es) m =
     (case mem_exec F loc H e m of (r, m) \<Rightarrow> (case mem_run F loc es m of (rs, m) \<Rightarrow> (r # rs, m)))"

definition mem_start :: "(nat \<Rightarrow> index_dir) \<Rightarrow> brigade_mem" where
  "mem_start ds = \<lparr>indexes = gh_empty, writers = gh_empty, next_handle = 1, dirs = ds\<rparr>"

section \<open>The invariant of the tables\<close>

text \<open>
  Every open index may be read from, every writer has its stream open and its directory locked,
  and no two writers build in the same directory.
\<close>

definition mem_inv :: "(string \<Rightarrow> nat) \<Rightarrow> brigade_mem \<Rightarrow> bool" where
  "mem_inv loc m \<longleftrightarrow> gh_invar (indexes m) \<and> gh_invar (writers m) \<and>
     (\<forall>h ix. gh_lookup (indexes m) h = Some ix \<longrightarrow> index_ok ix) \<and>
     (\<forall>h w. gh_lookup (writers m) h = Some w \<longrightarrow> w_stream w \<noteq> None \<and> locked (dirs m (loc (w_dir w)))) \<and>
     (\<forall>h h' w w'. gh_lookup (writers m) h = Some w \<and> gh_lookup (writers m) h' = Some w' \<and> h \<noteq> h'
        \<longrightarrow> loc (w_dir w) \<noteq> loc (w_dir w'))"

lemma mem_invD:
  assumes "mem_inv loc m"
  shows "gh_invar (indexes m)" "gh_invar (writers m)" "gh_lookup (indexes m) h = Some ix \<Longrightarrow> index_ok ix"
    "gh_lookup (writers m) h = Some w \<Longrightarrow> \<exists>s. w_stream w = Some s"
    "gh_lookup (writers m) h = Some w \<Longrightarrow> locked (dirs m (loc (w_dir w)))"
    "gh_lookup (writers m) h = Some w \<Longrightarrow> gh_lookup (writers m) h' = Some w' \<Longrightarrow> h \<noteq> h' \<Longrightarrow> loc (w_dir w) \<noteq> loc (w_dir w')"
  using assms unfolding mem_inv_def by auto

lemma mem_inv_start: "mem_inv loc (mem_start ds)"
  by (simp add: mem_inv_def mem_start_def)

lemma put_dir_simps [simp]:
  "indexes (put_dir n d m) = indexes m" "writers (put_dir n d m) = writers m"
  "next_handle (put_dir n d m) = next_handle m" "dirs (put_dir n d m) = (dirs m)(n := d)"
  by (simp_all add: put_dir_def)

lemma free_writer_simps [simp]:
  "indexes (free_writer loc H w m) = indexes m" "writers (free_writer loc H w m) = writers m"
  "next_handle (free_writer loc H w m) = next_handle m"
  "dirs (free_writer loc H w m) = (dirs m)(loc (w_dir w) := writer_free H w (dirs m (loc (w_dir w))))"
  by (simp_all add: free_writer_def)

lemma writer_free_simps [simp]:
  "vectors (writer_free H w d) = vectors d" "\<not> locked (writer_free H w d)"
  by (simp_all add: writer_free_def split: option.splits)

text \<open>Taking a writer out of the table and freeing it, replacing it, and putting one in.\<close>

lemma mem_inv_drop:
  assumes inv: "mem_inv loc m" and w: "gh_lookup (writers m) h = Some w" "w_dir w' = w_dir w"
  shows "mem_inv loc (drop_writer loc H h w' m)"
  unfolding mem_inv_def drop_writer_def using mem_invD [OF inv] w
  by (auto split: if_splits)

lemma mem_inv_set:
  assumes inv: "mem_inv loc m" and w: "gh_lookup (writers m) h = Some w" "w_dir w' = w_dir w" "w_stream w' \<noteq> None"
  shows "mem_inv loc (set_writer h w' m)"
  unfolding mem_inv_def set_writer_def using mem_invD [OF inv] w
  by (auto split: if_splits)

lemma mem_inv_put:
  assumes inv: "mem_inv loc m" and w: "w_stream w \<noteq> None" "locked (dirs m (loc (w_dir w)))"
    and new: "\<And>h w'. gh_lookup (writers m) h = Some w' \<Longrightarrow> loc (w_dir w') \<noteq> loc (w_dir w)"
  shows "mem_inv loc (snd (mem_put_writer loc H w m))"
proof (cases "gh_lookup (writers m) (uint (next_handle m))")
  case None
  then show ?thesis
    unfolding mem_inv_def mem_put_writer_def using mem_invD [OF inv] w new
    by (auto simp: Let_def split: if_splits dest: new [THEN not_sym])
next
  case (Some old)
  have "loc (w_dir old) \<noteq> loc (w_dir w)" using new Some by blast
  with Some show ?thesis
    unfolding mem_inv_def mem_put_writer_def using mem_invD [OF inv] w new
    by (auto simp: Let_def split: if_splits dest: new [THEN not_sym])
qed

text \<open>What the operations of a writer leave alone.\<close>

lemma append_row_keeps:
  "append_row H w row = Some (ok, w') \<Longrightarrow> w_dir w' = w_dir w \<and> w_dim w' = w_dim w \<and> w_stream w' \<noteq> None"
  by (auto simp: append_row_def split: option.splits prod.splits if_splits)

lemma writer_add_keeps:
  "writer_add F H w v dim = Some (ok, w') \<Longrightarrow> w_stream w \<noteq> None \<Longrightarrow>
     w_dir w' = w_dir w \<and> w_stream w' \<noteq> None"
  by (auto simp: writer_add_def split: if_splits dest: append_row_keeps)

lemma writer_add_f16_keeps:
  "writer_add_f16 H w row dim = Some (ok, w') \<Longrightarrow> w_stream w \<noteq> None \<Longrightarrow>
     w_dir w' = w_dir w \<and> w_stream w' \<noteq> None"
  by (auto simp: writer_add_f16_def split: option.splits if_splits dest: append_row_keeps)

lemma append_row_defined: "w_stream w \<noteq> None \<Longrightarrow> \<exists>ok w'. append_row H w row = Some (ok, w')"
  by (auto simp: append_row_def split: prod.splits)

lemma writer_add_defined: "w_stream w \<noteq> None \<Longrightarrow> \<exists>ok w'. writer_add F H w v dim = Some (ok, w')"
  using append_row_defined by (auto simp: writer_add_def)

lemma copy_row_defined:
  assumes "index_ok ix" "w_stream w \<noteq> None"
  shows "\<exists>ok w'. copy_row H ix i w = Some (ok, w') \<and> w_dir w' = w_dir w \<and> w_stream w' \<noteq> None"
proof (cases "unat i < unat (ix_count ix)")
  case True
  then obtain off where "index_row ix i = Some off" "row_at ix off = Some (index_rows ix ! unat i)"
    using index_row_reads [OF assms(1) True] by auto
  then show ?thesis
    using append_row_defined [OF assms(2)] append_row_keeps assms(2)
    by (auto simp: copy_row_def writer_add_f16_def) metis
next
  case False
  then show ?thesis
    using assms(2) by (intro exI [of _ False] exI [of _ w]) (simp add: copy_row_def index_row_def word_le_nat_alt writer_add_f16_def)
qed

lemma copy_rows_keeps:
  assumes "index_ok ix" "w_stream w \<noteq> None"
  shows "\<exists>r w'. copy_rows H ix skips n i c w = (r, w') \<and> r \<noteq> Inl Undefined \<and> w_dir w' = w_dir w \<and> w_stream w' \<noteq> None"
  using assms(2)
proof (induction n arbitrary: i c w)
  case (Suc n)
  obtain ok w' where w': "copy_row H ix i w = Some (ok, w')" "w_dir w' = w_dir w" "w_stream w' \<noteq> None"
    using copy_row_defined [OF assms(1) Suc.prems] by blast
  show ?case
    using Suc.IH [OF w'(3)] Suc.IH [OF Suc.prems] w' by auto
qed simp

lemma checked_Inr [simp]: "checked (Inr x) m f = f x" and checked_Inl [simp]: "checked (Inl e) m f = (Inl (Signal e), m)"
  by (simp_all add: checked_def)

lemma snd_checked: "snd (checked r m f) = m \<or> (\<exists>x. r = Inr x \<and> snd (checked r m f) = snd (f x))"
  by (cases r) auto

section \<open>Every call keeps the invariant\<close>

lemma checked_inv: "P m \<Longrightarrow> (\<And>x. r = Inr x \<Longrightarrow> P (snd (f x))) \<Longrightarrow> P (snd (checked r m f))"
  by (cases r) auto

lemma mem_get_inv:
  "P m \<Longrightarrow> (\<And>v. gh_lookup table h = Some v \<Longrightarrow> P (snd (f v))) \<Longrightarrow> P (snd (mem_get f bad table h m))"
  by (auto simp: mem_get_def split: option.splits)

lemmas inv_checks = checked_inv [where P = "mem_inv loc" for loc] mem_get_inv [where P = "mem_inv loc" for loc]

lemma put_index_inv:
  "mem_inv loc m \<Longrightarrow> index_ok ix \<Longrightarrow> mem_inv loc (snd (mem_put_index ix m))"
  unfolding mem_inv_def mem_put_index_def by simp

lemma index_open_inv: "mem_inv loc m \<Longrightarrow> mem_inv loc (snd (Findex_open loc H dir m))"
  unfolding Findex_open_def
  by (rule checked_inv)
     (auto split: sum.splits prod.splits simp: index_open_Inr, metis opened_ok put_index_inv snd_conv)

lemma index_close_inv: "mem_inv loc m \<Longrightarrow> mem_inv loc (snd (Findex_close h m))"
  unfolding Findex_close_def by (rule checked_inv) (simp_all add: mem_inv_def)

lemma index_info_keeps [simp]: "snd (Findex_info F h m) = m"
  unfolding Findex_info_def
  by (rule checked_inv [where P = "\<lambda>x. x = m"], simp, rule mem_get_inv [where P = "\<lambda>x. x = m"]) simp_all

lemma index_search_keeps [simp]: "snd (Findex_search F h q k m) = m"
  by (auto simp: Findex_search_def checked_def mem_get_def Let_def split: sum.splits option.splits)

lemma writer_new_cases:
  assumes "writer_new H dir dim d = (r, d')"
  obtains e where "r = Inl e" "d' = d"
  | w where "r = Inr w" "d' = d\<lparr>vectors_new := Some [], locked := True\<rparr>" "\<not> locked d" "w_dir w = dir" "w_stream w \<noteq> None"
  using assms by (auto simp: writer_new_def split: if_splits)

lemma lock_dir_inv:
  assumes "mem_inv loc m" "\<not> locked (dirs m p)"
  shows "mem_inv loc (put_dir p (dirs m p\<lparr>vectors_new := Some [], locked := True\<rparr>) m)"
    and "gh_lookup (writers m) h = Some w \<Longrightarrow> loc (w_dir w) \<noteq> p"
  using assms mem_invD [OF assms(1)] unfolding mem_inv_def by auto

lemma put_same_dir [simp]: "put_dir p (dirs m p) m = m"
  by (simp add: put_dir_def)

lemma writer_new_inv: "mem_inv loc m \<Longrightarrow> mem_inv loc (snd (Fwriter_new loc H dir dim m))"
proof -
  assume inv: "mem_inv loc m"
  have "mem_inv loc (snd (case writer_new H s n (dirs m (loc s)) of (r, d) \<Rightarrow>
      (case r of Inl e \<Rightarrow> (Inl (Error e), put_dir (loc s) d m)
       | Inr w \<Rightarrow> (case mem_put_writer loc H w (put_dir (loc s) d m) of (h, m) \<Rightarrow> (Inr (LFix (uint h)), m)))))" for s n
  proof (cases "writer_new H s n (dirs m (loc s))")
    case (Pair r d)
    from Pair show ?thesis
    proof (cases rule: writer_new_cases)
      case (1 e)
      then show ?thesis using Pair inv by simp
    next
      case (2 w)
      note l = lock_dir_inv [OF inv, of "loc s"]
      have "mem_inv loc (snd (mem_put_writer loc H w (put_dir (loc s) d m)))"
        using 2 l by (intro mem_inv_put) auto
      then show ?thesis using Pair 2 by (simp add: case_prod_beta)
    qed
  qed
  then show ?thesis unfolding Fwriter_new_def Let_def by (intro inv_checks inv) blast
qed

lemma writer_add_inv: "mem_inv loc m \<Longrightarrow> mem_inv loc (snd (Fwriter_add F H h v m))"
proof -
  assume inv: "mem_inv loc m"
  have "mem_inv loc (set_writer k w' m)" if "gh_lookup (writers m) k = Some w" "writer_add F H w fs n = Some (ok, w')" for k w fs n ok w'
    using mem_inv_set [OF inv that(1)] writer_add_keeps [OF that(2)] mem_invD(4) [OF inv that(1)] by auto
  then show ?thesis
    unfolding Fwriter_add_def by (intro inv_checks inv) (auto simp: inv split: option.splits)
qed

lemma writer_copy_inv: "mem_inv loc m \<Longrightarrow> mem_inv loc (snd (Fwriter_copy H h ix skip m))"
proof -
  assume inv: "mem_inv loc m"
  have "mem_inv loc (set_writer k w' m)"
    if "gh_lookup (writers m) k = Some w" "gh_lookup (indexes m) j = Some x" "copy_rows H x skips n i c w = (r, w')" for k w j x skips n i c r w'
    using mem_inv_set [OF inv that(1)] copy_rows_keeps [OF mem_invD(3) [OF inv that(2)], of w H skips n i c]
      mem_invD(4) [OF inv that(1)] that(3) by auto
  then show ?thesis
    unfolding Fwriter_copy_def by (intro inv_checks inv) (auto split: prod.splits)
qed

lemma writer_commit_keeps:
  "writer_commit H w d = Some (r, w', d') \<Longrightarrow> w_dir w' = w_dir w \<and> locked d' = locked d"
  by (auto simp: writer_commit_def Let_def split: option.splits if_splits)

lemma commit_dir_inv:
  assumes "mem_inv loc m" "locked d = locked (dirs m p)" shows "mem_inv loc (put_dir p d m)"
  using assms(1) mem_invD [OF assms(1)] assms(2) unfolding mem_inv_def by auto

lemma writer_commit_inv: "mem_inv loc m \<Longrightarrow> mem_inv loc (snd (Fwriter_commit loc H h m))"
proof -
  assume inv: "mem_inv loc m"
  have "mem_inv loc (drop_writer loc H k w' (put_dir (loc (w_dir w)) d m))"
    if "gh_lookup (writers m) k = Some w" "writer_commit H w (dirs m (loc (w_dir w))) = Some (r, w', d)" for k w r w' d
    using commit_dir_inv [OF inv] mem_inv_drop [of loc "put_dir (loc (w_dir w)) d m" k w w' H] writer_commit_keeps [OF that(2)] that(1)
    by auto
  then show ?thesis
    unfolding Fwriter_commit_def Let_def by (intro inv_checks inv) (auto simp: inv split: option.splits)
qed

lemma writer_abort_inv: "mem_inv loc m \<Longrightarrow> mem_inv loc (snd (Fwriter_abort loc H h m))"
  unfolding Fwriter_abort_def
  by (rule checked_inv) (auto split: option.splits intro: mem_inv_drop)

lemma mem_exec_inv [inv_intros]: "mem_inv loc m \<Longrightarrow> mem_inv loc (snd (mem_exec F loc H e m))"
  by (cases e)
     (simp_all add: index_open_inv index_close_inv writer_new_inv writer_add_inv writer_copy_inv writer_commit_inv writer_abort_inv)

lemma mem_run_inv: "mem_inv loc m \<Longrightarrow> mem_inv loc (snd (mem_run F loc es m))"
proof (induction es arbitrary: m)
  case (Cons e es)
  obtain H op where e: "e = (H, op)" by (cases e)
  obtain r m' where x: "mem_exec F loc H op m = (r, m')" by fastforce
  then have "mem_inv loc m'" using mem_exec_inv [OF Cons.prems, of F H op] by simp
  then show ?case using Cons.IH [of m'] e x by (simp add: case_prod_beta)
qed simp

section \<open>The live index changes at a commit only\<close>

lemma free_writer_vectors [simp]: "vectors (dirs (free_writer loc H w m) p) = vectors (dirs m p)"
  by simp

lemma put_writer_vectors [simp]: "vectors (dirs (snd (mem_put_writer loc H w m)) p) = vectors (dirs m p)"
  by (simp add: mem_put_writer_def Let_def split: option.splits)

lemma drop_writer_vectors [simp]: "vectors (dirs (drop_writer loc H h w m) p) = vectors (dirs m p)"
  by (simp add: drop_writer_def)

lemma writer_new_vectors: "vectors (dirs (snd (Fwriter_new loc H dir dim m)) p) = vectors (dirs m p)"
proof -
  have "vectors (dirs (snd (case writer_new H s n (dirs m (loc s)) of (r, d) \<Rightarrow>
      (case r of Inl e \<Rightarrow> (Inl (Error e), put_dir (loc s) d m)
       | Inr w \<Rightarrow> (case mem_put_writer loc H w (put_dir (loc s) d m) of (h, m) \<Rightarrow> (Inr (LFix (uint h)), m))))) p)
     = vectors (dirs m p)" for s n
  proof (cases "writer_new H s n (dirs m (loc s))")
    case (Pair r d)
    from Pair show ?thesis
      by (cases rule: writer_new_cases) (simp_all add: Pair case_prod_beta)
  qed
  then show ?thesis by (auto simp: Fwriter_new_def Let_def checked_def split: sum.splits)
qed

text \<open>
  Property (C10). A build never shows in the live index before it is committed. Whatever primitive is
  called, in whatever state and with whatever answers of the operating system, the file
  \<^verbatim>\<open>vectors.f16\<close> of a directory changes only if the call commits a writer of that directory and
  the rename succeeds; the file is then the writer's stream with its count in the header, as far
  as it reached the disk.
\<close>

theorem live_index_only_committed:
  assumes "vectors (dirs (snd (mem_exec F loc H e m)) p) \<noteq> vectors (dirs m p)"
  shows "\<exists>h w stream. e = WriterCommit (LFix h) \<and> gh_lookup (writers m) h = Some w \<and> loc (w_dir w) = p \<and>
     w_stream w = Some stream \<and> rename_ok H \<and>
     fst (mem_exec F loc H e m) = Inr (LFix (uint (w_count w))) \<and>
     vectors (dirs (snd (mem_exec F loc H e m)) p) =
       Some (flushed H (patch_header H stream (header_bytes (writer_header (w_dim w) (w_count w)))))"
proof (cases "\<exists>x. e = WriterCommit x")
  case False
  have "vectors (dirs (snd (mem_exec F loc H e m)) p) = vectors (dirs m p)"
  proof (cases e)
    case (IndexOpen x)
    then show ?thesis
      by (auto simp: Findex_open_def checked_def mem_put_index_def split: sum.splits)
  next
    case (WriterAbort x)
    then show ?thesis by (auto simp: Fwriter_abort_def checked_def split: sum.splits option.splits)
  qed (use False in \<open>auto simp: Findex_close_def Fwriter_add_def Fwriter_copy_def set_writer_def checked_def
      mem_get_def writer_new_vectors split: sum.splits option.splits prod.splits\<close>)
  then show ?thesis using assms by blast
next
  case True
  then obtain x where e: "e = WriterCommit x" ..
  then obtain h w where x: "x = LFix h" "0 \<le> h" "gh_lookup (writers m) h = Some w"
    using assms by (cases x) (auto simp: Fwriter_commit_def mem_get_def split: if_splits option.splits)
  then obtain stream where st: "w_stream w = Some stream" "rename_ok H" "loc (w_dir w) = p"
    using assms e by (auto simp: Fwriter_commit_def mem_get_def writer_commit_def Let_def split: option.splits if_splits)
  then show ?thesis
    using e x by (simp add: Fwriter_commit_def mem_get_def writer_commit_def Let_def)
qed

section \<open>What a call may run into\<close>

lemma shift_hits_lengths:
  "shift_hits s pos scores ids = (p, scores', ids') \<Longrightarrow> 0 \<le> pos \<Longrightarrow>
     0 \<le> p \<and> length scores' = length scores \<and> length ids' = length ids"
proof (induction s pos scores ids rule: shift_hits.induct)
  case (1 s pos scores ids)
  show ?case
  proof (cases "pos > 0 \<and> float_lt (scores ! nat (pos - 1)) s")
    case True
    then have "shift_hits s (pos - 1) (scores[nat pos := scores ! nat (pos - 1)]) (ids[nat pos := ids ! nat (pos - 1)])
        = (p, scores', ids')"
      using "1.prems"(1) by (subst (asm) shift_hits.simps) simp
    then show ?thesis using "1.IH" [OF True] True by simp
  next
    case False
    then show ?thesis using "1.prems" by (subst (asm) shift_hits.simps) auto
  qed
qed

definition hits_fit :: "nat \<Rightarrow> hits \<Rightarrow> bool" where
  "hits_fit k h \<longleftrightarrow> 0 < k \<and> length (out_scores h) = k \<and> length (out_ids h) = k \<and> found h \<le> k"

lemma take_row_fits:
  assumes "hits_fit k h" "k \<le> 2 ^ 31 \<or> found h < 2 ^ 31"
  shows "\<exists>h'. take_row k i score h = Some h' \<and> hits_fit k h' \<and> found h' = min k (found h + 1)"
proof -
  define n where "n = (if found h < k then found h else k - 1)"
  have n: "n < k" "n < 2 ^ 31" using assms by (auto simp: hits_fit_def n_def)
  then have g: "to_gint (int n) = int n" by (intro to_gint_id) (simp add: gint_range_def)
  obtain p scores ids where sh: "shift_hits score (int n) (out_scores h) (out_ids h) = (p, scores, ids)"
    by (metis prod_cases3)
  with shift_hits_lengths [OF sh] show ?thesis
    using assms(1) n g unfolding take_row_def n_def [symmetric] by (auto simp: Let_def hits_fit_def min_def)
qed

text \<open>The position of the row after the first \<open>2 ^ 31\<close> wraps to a negative one.\<close>

lemma take_row_wraps:
  assumes "found h = 2 ^ 31" "2 ^ 31 < k" shows "take_row k i score h = None"
proof -
  have "to_gint (2 ^ 31) = - (2 ^ 31)" by (simp add: to_gint_def)
  then show ?thesis using assms by (simp add: take_row_def)
qed

lemma run_fits:
  assumes "hits_fit k h" "k \<le> 2 ^ 31 \<or> found h + length es \<le> 2 ^ 31"
  shows "\<exists>h'. run_events (\<lambda>e. take_row k (fst e) (snd e)) es h = Some h' \<and> hits_fit k h' \<and> found h' = min k (found h + length es)"
  using assms
proof (induction es arbitrary: h)
  case (Cons e es)
  then obtain h' where h': "take_row k (fst e) (snd e) h = Some h'" "hits_fit k h'" "found h' = min k (found h + 1)"
    using take_row_fits [of k h "fst e" "snd e"] by auto
  moreover have "k \<le> 2 ^ 31 \<or> found h' + length es \<le> 2 ^ 31" using Cons.prems(2) h'(3) by auto
  ultimately show ?case using Cons.IH [of h'] by (auto simp: min_def)
qed (simp add: hits_fit_def)

lemma search_defined_iff:
  assumes "index_ok ix" "unat (ix_dim ix) \<le> length query" "length ids = unat k" "length scores = unat k"
  shows "index_search F ix query k ids scores = None \<longleftrightarrow> 2 ^ 31 < unat k \<and> 2 ^ 31 < unat (ix_count ix)"
proof (cases "k = 0")
  case False
  let ?h = "\<lparr>out_scores = scores, out_ids = ids, found = 0\<rparr>"
  let ?run = "run_events (\<lambda>e. take_row (unat k) (fst e) (snd e))"
  define es :: "(64 word \<times> 32 word) list" where "es = map (\<lambda>j. (of_nat j, row_scores F ix query ! j)) [0..<unat (ix_count ix)]"
  have len: "length es = unat (ix_count ix)" by (simp add: es_def)
  have fit: "hits_fit (unat k) ?h" using assms False by (simp add: hits_fit_def unat_gt_0)
  have s: "index_search F ix query k ids scores = ?run es ?h"
    using False search_rows_events [OF assms(1) _ assms(2), of 0 "unat (ix_count ix)" F "unat k" ?h] by (simp add: index_search_def es_def)
  show ?thesis
  proof (cases "2 ^ 31 < unat k \<and> 2 ^ 31 < unat (ix_count ix)")
    case True
    define n :: nat where "n = 2 ^ 31"
    have n: "n < unat k" "n < length es" using True by (simp_all add: n_def len)
    have "length (take n es) = n" using n(2) by simp
    then obtain h' where h': "?run (take n es) ?h = Some h'" "found h' = n"
      using run_fits [OF fit, of "take n es"] n(1) by (auto simp: n_def)
    have "?run es ?h = ?run (take n es @ es ! n # drop (Suc n) es) ?h"
      using id_take_nth_drop [OF n(2)] by (rule arg_cong)
    also have "\<dots> = ?run (es ! n # drop (Suc n) es) h'" by (simp only: run_events_append h'(1) option.case)
    also have "\<dots> = None" using take_row_wraps [of h' "unat k"] h'(2) n(1) by (simp add: n_def)
    finally show ?thesis using True s by simp
  next
    case False
    then have "unat k \<le> 2 ^ 31 \<or> found ?h + length es \<le> 2 ^ 31" by (auto simp: len)
    then obtain h' where "?run es ?h = Some h'" using run_fits [OF fit] by blast
    then show ?thesis using False s by auto
  qed
qed (simp add: index_search_def)

fun lisp_number :: "lisp \<Rightarrow> bool" where
  "lisp_number (LFix i) = True"
| "lisp_number (LFlo d) = True"
| "lisp_number x = False"

lemma floats_of_defined: "floats_of F xs = None \<longleftrightarrow> \<not> list_all lisp_number xs"
proof (induction xs)
  case (Cons x xs)
  then show ?case by (cases x) auto
qed simp

lemma floats_of_numbers: "floats_of F xs = Some v \<Longrightarrow> list_all lisp_number xs"
  using floats_of_defined [of F xs] by auto

text \<open>
  A call that hands something that is not a number on as one: its handle is known and its other
  arguments are in order.
\<close>

fun reads_non_number :: "brigade_mem \<Rightarrow> mem_op \<Rightarrow> bool" where
  "reads_non_number m (WriterAdd (LFix h) v) =
     (0 \<le> h \<and> gh_lookup (writers m) h \<noteq> None \<and>
      (case seq_elems v of Inl e \<Rightarrow> False | Inr xs \<Rightarrow> \<not> list_all lisp_number xs))"
| "reads_non_number m (IndexSearch (LFix h) q (LFix k)) =
     (0 \<le> h \<and> 0 \<le> k \<and> (word_of_int k :: 32 word) \<noteq> 0 \<and>
      (case gh_lookup (indexes m) h of
         None \<Rightarrow> False
       | Some ix \<Rightarrow> (case seq_elems q of
             Inl e \<Rightarrow> False
           | Inr xs \<Rightarrow> length xs = unat (ix_dim ix) \<and> \<not> list_all lisp_number xs)))"
| "reads_non_number m e = False"

text \<open>
  A search that asks for more than \<open>2 ^ 31\<close> results, as the \<^verbatim>\<open>guint\<close> it is taken for, of an index with more than \<open>2 ^ 31\<close>
  rows.
\<close>

fun overfills :: "brigade_mem \<Rightarrow> mem_op \<Rightarrow> bool" where
  "overfills m (IndexSearch (LFix h) q (LFix k)) =
     (0 \<le> h \<and> 0 \<le> k \<and> 2 ^ 31 < unat (word_of_int k :: 32 word) \<and>
      (case gh_lookup (indexes m) h of
         None \<Rightarrow> False
       | Some ix \<Rightarrow> 2 ^ 31 < unat (ix_count ix) \<and>
           (case seq_elems q of
              Inl e \<Rightarrow> False
            | Inr xs \<Rightarrow> length xs = unat (ix_dim ix) \<and> list_all lisp_number xs)))"
| "overfills m e = False"

lemma writer_commit_defined: "w_stream w \<noteq> None \<Longrightarrow> writer_commit H w d \<noteq> None"
  by (auto simp: writer_commit_def Let_def)

lemma length_floats_of: "floats_of F xs = Some v \<Longrightarrow> length v = length xs"
  by (induction xs arbitrary: v) (auto split: option.splits)

lemma length_unit_query [simp]: "length (unit_query F q) = length q"
  by (simp add: unit_query_def Let_def)

lemma search_undefined:
  assumes inv: "mem_inv loc m"
  shows "fst (Findex_search F h q k m) = Inl Undefined \<longleftrightarrow>
    reads_non_number m (IndexSearch h q k) \<or> overfills m (IndexSearch h q k)"
proof (cases h)
  case (LFix i)
  show ?thesis
  proof (cases k)
    case (LFix j)
    define want where "want = (word_of_int j :: 32 word)"
    have D: "index_search F ix (unit_query F v) want (replicate (unat want) 0) (replicate (unat want) 0) = None \<longleftrightarrow>
        2 ^ 31 < unat want \<and> 2 ^ 31 < unat (ix_count ix)"
      if "gh_lookup (indexes m) i = Some ix" "floats_of F xs = Some v" "length xs = unat (ix_dim ix)" for ix xs v
      using that length_floats_of [OF that(2)] by (intro search_defined_iff mem_invD(3) [OF inv]) simp_all
    have E: False
      if "gh_lookup (indexes m) i = Some ix" "floats_of F xs = Some v" "length xs = unat (ix_dim ix)"
        "index_search F ix (unit_query F v) want (replicate (unat want) 0) (replicate (unat want) 0) = Some hs"
        "2147483648 < unat want" "2147483648 < unat (ix_count ix)" for ix xs v hs
      using D [OF that(1-3)] that(4-6) by simp
    have z: "want \<noteq> 0" if "2 ^ 31 < unat want" using that by auto
    show ?thesis
      using LFix \<open>h = LFix i\<close> unfolding Findex_search_def
      by (auto simp: mem_get_def checked_def Let_def want_def [symmetric] floats_of_defined D z split: option.splits sum.splits
          dest: floats_of_numbers D [THEN iffD1] E)
  qed (use LFix in \<open>auto simp: Findex_search_def mem_get_def split: option.splits\<close>)
qed (auto simp: Findex_search_def)

lemma add_undefined:
  assumes inv: "mem_inv loc m"
  shows "fst (Fwriter_add F H h v m) = Inl Undefined \<longleftrightarrow> reads_non_number m (WriterAdd h v)"
proof (cases h)
  case (LFix i)
  have D: False if "gh_lookup (writers m) i = Some w" "writer_add F H w fs n = None" for w fs n
    using writer_add_defined [of w F H fs n] mem_invD(4) [OF inv that(1)] that(2) by auto
  show ?thesis
    using LFix unfolding Fwriter_add_def
    by (auto simp: mem_get_def checked_def floats_of_defined split: option.splits sum.splits dest: D floats_of_numbers)
qed (auto simp: Fwriter_add_def)

lemma others_defined:
  assumes inv: "mem_inv loc m" and "\<forall>h q k. e \<noteq> IndexSearch h q k" "\<forall>h v. e \<noteq> WriterAdd h v"
  shows "fst (mem_exec F loc H e m) \<noteq> Inl Undefined"
proof (cases e)
  case (WriterCopy h i skip)
  have "fst (copy_rows H ix skips n j c w) \<noteq> Inl Undefined"
    if "gh_lookup (writers m) a = Some w" "gh_lookup (indexes m) b = Some ix" for a b w ix skips n j c
    using copy_rows_keeps [OF mem_invD(3) [OF inv that(2)], of w H skips n j c] mem_invD(4) [OF inv that(1)] by auto
  then show ?thesis
    unfolding WriterCopy mem_exec.simps Fwriter_copy_def checked_def mem_get_def case_prod_beta
    by (auto split: option.splits sum.splits simp: map_sum_def) 
next
  case (WriterCommit h)
  have D: False if "gh_lookup (writers m) a = Some w" "writer_commit H w d = None" for a w d
    using writer_commit_defined [of w H d] mem_invD(4) [OF inv that(1)] that(2) by auto
  show ?thesis
    unfolding WriterCommit mem_exec.simps Fwriter_commit_def checked_def mem_get_def Let_def
    by (auto split: option.splits sum.splits simp: map_sum_def dest: D)
qed (use assms(2,3) in \<open>auto simp: Findex_open_def Findex_close_def Findex_info_def Fwriter_new_def Fwriter_abort_def
      checked_def mem_get_def Let_def case_prod_beta split: sum.splits option.splits\<close>)

text \<open>
  Property (C17). Exactly two kinds of call run into undefined behaviour, in any state the primitives can
  reach and whatever the operating system answers. One hands a Lisp object that is not a number to the float conversion, which does not
  check it: \<^verbatim>\<open>writer-add\<close> to a known writer, and \<^verbatim>\<open>index-search\<close> on a known index, for some result at all, with a query of the
  index's length. The other asks an index of more than \<open>2 ^ 31\<close> rows for more than \<open>2 ^ 31\<close> results, and writes
  outside the result arrays. Every other call is well defined: none uses a closed stream, a freed index, a
  row outside the mapping or a cell outside the query or the result arrays.
\<close>

theorem memory_undefined_iff:
  assumes "mem_run F loc es (mem_start ds) = (rs, m)"
  shows "fst (mem_exec F loc H e m) = Inl Undefined \<longleftrightarrow> reads_non_number m e \<or> overfills m e"
proof -
  have inv: "mem_inv loc m" using mem_run_inv [OF mem_inv_start, of loc F es ds] assms(1) by simp
  show ?thesis
  proof (cases "\<exists>h q k. e = IndexSearch h q k")
    case True
    then show ?thesis using search_undefined [OF inv] by auto
  next
    case ns: False
    then have no: "\<not> overfills m e" by (cases e) auto
    show ?thesis
    proof (cases "\<exists>h v. e = WriterAdd h v")
      case True
      then show ?thesis using add_undefined [OF inv] by auto
    next
      case False
      then have "\<not> reads_non_number m e" using ns by (cases e) auto
      then show ?thesis using others_defined [OF inv] ns False no by blast
    qed
  qed
qed

section \<open>An incremental update\<close>

text \<open>The rows an update keeps.\<close>

definition kept_rows :: "16 word list list \<Rightarrow> int list \<Rightarrow> 16 word list list" where
  "kept_rows rows ks = map (\<lambda>i. rows ! i) (filter (\<lambda>i. int i \<notin> set ks) [0..<length rows])"

lemma mark_skips_marks:
  assumes "list_all (\<lambda>k. 0 \<le> k) ks" "length skips = unat n"
  shows "\<exists>skips'. mark_skips n (map LFix ks) skips = Inr skips' \<and> length skips' = unat n \<and>
     (\<forall>i < unat n. skips' ! i \<longleftrightarrow> skips ! i \<or> int i \<in> set ks)"
  using assms
proof (induction ks arbitrary: skips)
  case (Cons k ks)
  define s' where "s' = (if nat k < unat n then skips[nat k := True] else skips)"
  have "length s' = unat n" using Cons.prems by (simp add: s'_def)
  then obtain skips' where sk: "mark_skips n (map LFix ks) s' = Inr skips'" "length skips' = unat n"
      "\<forall>i < unat n. skips' ! i \<longleftrightarrow> s' ! i \<or> int i \<in> set ks"
    using Cons.IH [of s'] Cons.prems by auto
  have "s' ! i \<longleftrightarrow> skips ! i \<or> int i = k" if "i < unat n" for i
    using that Cons.prems by (auto simp: s'_def nth_list_update)
  then show ?case
    using sk Cons.prems by (intro exI [of _ skips']) (auto simp: s'_def)
qed simp

lemma copy_row_holds:
  assumes "host_works H" "index_ok ix" "j < unat (ix_count ix)" "writer_holds w rows" "w_dim w = ix_dim ix"
  shows "\<exists>w'. copy_row H ix (of_nat j) w = Some (True, w') \<and> writer_holds w' (rows @ [index_rows ix ! j]) \<and>
     w_dir w' = w_dir w \<and> w_dim w' = w_dim w"
proof -
  have u: "unat (of_nat j :: 64 word) = j"
    using assms(3) unsigned_less [of "ix_count ix", where 'a = nat] by (simp add: unat_of_nat)
  have "length (index_rows ix ! j) = unat (w_dim w)"
    using index_rows_lengths [OF assms(2)] assms(3,5) by (simp add: list_all_length)
  from append_row_holds [OF assms(1,4) this]
  obtain w' where w': "append_row H w (index_rows ix ! j) = Some (True, w')" "writer_holds w' (rows @ [index_rows ix ! j])"
    "w_dir w' = w_dir w" "w_dim w' = w_dim w" by blast
  obtain off where "index_row ix (of_nat j) = Some off" "row_at ix off = Some (index_rows ix ! j)"
    using index_row_reads [OF assms(2), of "of_nat j"] assms(3) u by auto
  then have "copy_row H ix (of_nat j) w = Some (True, w')"
    using w'(1) assms(5) by (simp add: copy_row_def writer_add_f16_def)
  then show ?thesis using w' by blast
qed

lemma copy_rows_holds:
  assumes "host_works H" "index_ok ix" "j + n = unat (ix_count ix)" "writer_holds w rows" "w_dim w = ix_dim ix"
  shows "\<exists>c' w'. copy_rows H ix skips n (of_nat j) c w = (Inr c', w') \<and>
     writer_holds w' (rows @ map (\<lambda>i. index_rows ix ! i) (filter (\<lambda>i. \<not> skips ! i) [j..<j + n])) \<and>
     w_dir w' = w_dir w \<and> w_dim w' = w_dim w"
  using assms(3-5)
proof (induction n arbitrary: j c w rows)
  case (Suc n)
  have j: "j < unat (ix_count ix)" "Suc j + n = unat (ix_count ix)" using Suc.prems(1) by simp_all
  have u: "unat (of_nat j :: 64 word) = j"
    using j(1) unsigned_less [of "ix_count ix", where 'a = nat] by (simp add: unat_of_nat)
  have nx: "of_nat j + 1 = (of_nat (Suc j) :: 64 word)" by simp
  have upt: "[j..<j + Suc n] = j # [Suc j..<Suc j + n]" by (simp add: upt_conv_Cons)
  show ?case
  proof (cases "skips ! j")
    case True
    then show ?thesis
      using Suc.IH [OF j(2) Suc.prems(2,3), of c] unfolding upt copy_rows.simps u nx by simp
  next
    case False
    obtain w' where w': "copy_row H ix (of_nat j) w = Some (True, w')" "writer_holds w' (rows @ [index_rows ix ! j])"
        "w_dir w' = w_dir w" "w_dim w' = w_dim w"
      using copy_row_holds [OF assms(1,2) j(1) Suc.prems(2,3)] by blast
    then show ?thesis
      using False Suc.IH [OF j(2) w'(2), of "c + 1"] Suc.prems(3) unfolding upt copy_rows.simps u nx by simp
  qed
qed simp

lemma new_step:
  assumes "host_works H" "\<not> locked (dirs m (loc dir))" "NUL \<notin> set dir"
  shows "\<exists>w m'. Fwriter_new loc H (LStr dir) (LFix (uint dim)) m = (Inr (LFix (uint (next_handle m))), m') \<and>
     gh_lookup (writers m') (uint (next_handle m)) = Some w \<and> writer_holds w [] \<and> w_dir w = dir \<and> w_dim w = dim \<and>
     indexes m' = indexes m \<and> next_handle m' = next_handle m + 1"
proof -
  obtain w where w: "writer_new H dir dim (dirs m (loc dir)) = (Inr w, dirs m (loc dir)\<lparr>vectors_new := Some [], locked := True\<rparr>)"
      "writer_holds w []" "w_dir w = dir" "w_dim w = dim"
    using writer_new_holds [OF assms(1,2)] by blast
  then show ?thesis
    using assms(3) by (simp add: Fwriter_new_def Let_def mem_put_writer_def split: option.splits)
qed

lemma copy_step:
  assumes "host_works H" "index_ok ix" "gh_lookup (indexes m) hi = Some ix" "gh_lookup (writers m) h = Some w"
    and "writer_holds w rows" "w_dim w = ix_dim ix" "0 \<le> h" "0 \<le> hi" "list_all (\<lambda>k. 0 \<le> k) ks"
  shows "\<exists>w' c. Fwriter_copy H (LFix h) (LFix hi) (llist (map LFix ks)) m = (Inr (LFix c), set_writer h w' m) \<and>
     writer_holds w' (rows @ kept_rows (index_rows ix) ks) \<and> w_dir w' = w_dir w \<and> w_dim w' = w_dim w"
proof -
  let ?n = "unat (ix_count ix)"
  obtain skips where sk: "mark_skips (ix_count ix) (map LFix ks) (replicate ?n False) = Inr skips" "length skips = ?n"
      "\<forall>i < ?n. skips ! i \<longleftrightarrow> int i \<in> set ks"
    using mark_skips_marks [OF assms(9), of "replicate ?n False" "ix_count ix"] by auto
  obtain c w' where w': "copy_rows H ix skips ?n 0 0 w = (Inr c, w')"
      "writer_holds w' (rows @ map (\<lambda>i. index_rows ix ! i) (filter (\<lambda>i. \<not> skips ! i) [0..<?n]))"
      "w_dir w' = w_dir w" "w_dim w' = w_dim w"
    using copy_rows_holds [OF assms(1,2) _ assms(5,6), of 0 ?n skips 0] by auto
  have "filter (\<lambda>i. \<not> skips ! i) [0..<?n] = filter (\<lambda>i. int i \<notin> set ks) [0..<?n]"
    using sk(3) by (intro filter_cong) auto
  moreover have "skip_elems (llist (map LFix ks)) = map LFix ks" by (cases ks) (simp_all add: skip_elems_def)
  ultimately show ?thesis
    using w' sk(1) assms(3,4,7,8)
    by (intro exI [of _ w'] exI [of _ "uint c"]) (simp add: Fwriter_copy_def mem_get_def kept_rows_def)
qed

lemma add_step:
  assumes "host_works H" "gh_lookup (writers m) h = Some w" "writer_holds w rows" "0 \<le> h"
    and "floats_of F xs = Some v" "length v = unat (w_dim w)" "0 < unat (w_dim w)"
  shows "\<exists>w' c. Fwriter_add F H (LFix h) (LVec xs) m = (Inr (LFix c), set_writer h w' m) \<and>
     writer_holds w' (rows @ [unit_row F v]) \<and> w_dir w' = w_dir w \<and> w_dim w' = w_dim w"
proof -
  have l: "(of_nat (length v) :: 32 word) = w_dim w" "v \<noteq> []" using assms(6,7) by auto
  have "length (unit_row F v) = unat (w_dim w)" using assms(6) by (simp add: unit_row_def Let_def)
  from append_row_holds [OF assms(1,3) this] obtain w' where
    "append_row H w (unit_row F v) = Some (True, w')" "writer_holds w' (rows @ [unit_row F v])" "w_dir w' = w_dir w" "w_dim w' = w_dim w"
    by blast
  then show ?thesis
    using assms l by (intro exI [of _ w'] exI [of _ "uint (w_count w')"]) (simp add: Fwriter_add_def mem_get_def writer_add_def)
qed

lemma adds_step:
  assumes H: "host_works H" "0 \<le> h" "0 < unat dim"
  shows "gh_lookup (writers m) h = Some w \<Longrightarrow> writer_holds w rows \<Longrightarrow> w_dim w = dim \<Longrightarrow>
     list_all2 (\<lambda>xs v. floats_of F xs = Some v \<and> length v = unat dim) xss vs \<Longrightarrow>
     \<exists>rs m' w'. mem_run F loc (map (\<lambda>xs. (H, WriterAdd (LFix h) (LVec xs))) xss) m = (rs, m') \<and>
       list_all (\<lambda>r. \<not> isl r) rs \<and> gh_lookup (writers m') h = Some w' \<and> writer_holds w' (rows @ map (unit_row F) vs) \<and>
       w_dir w' = w_dir w \<and> w_dim w' = dim \<and> indexes m' = indexes m \<and> next_handle m' = next_handle m"
proof (induction xss arbitrary: vs m w rows)
  case (Cons xs xss)
  then obtain v vs' where vs: "vs = v # vs'" "floats_of F xs = Some v" "length v = unat dim"
      "list_all2 (\<lambda>xs v. floats_of F xs = Some v \<and> length v = unat dim) xss vs'"
    by (auto simp: list_all2_Cons1)
  obtain w1 c where w1: "Fwriter_add F H (LFix h) (LVec xs) m = (Inr (LFix c), set_writer h w1 m)"
      "writer_holds w1 (rows @ [unit_row F v])" "w_dir w1 = w_dir w" "w_dim w1 = dim"
    using add_step [OF H(1) Cons.prems(1,2) H(2) vs(2)] Cons.prems(3) vs(3) H(3) by auto
  have "gh_lookup (writers (set_writer h w1 m)) h = Some w1" by (simp add: set_writer_def)
  from Cons.IH [OF this w1(2,4) vs(4)] w1 vs(1) show ?case
    by (auto simp: set_writer_def)
qed simp

lemma mem_run_append:
  "mem_run F loc (es @ fs) m = (case mem_run F loc es m of (rs, m') \<Rightarrow>
     (case mem_run F loc fs m' of (qs, m'') \<Rightarrow> (rs @ qs, m'')))"
  by (induction es arbitrary: m) (auto simp: case_prod_beta)

lemma commit_step:
  assumes "host_works H" "gh_lookup (writers m) h = Some w" "writer_holds w rows" "0 \<le> h"
  shows "\<exists>c m'. Fwriter_commit loc H (LFix h) m = (Inr (LFix c), m') \<and> indexes m' = indexes m \<and>
     next_handle m' = next_handle m \<and> vectors (dirs m' (loc (w_dir w))) = Some (index_file (w_dim w) rows)"
  using writer_commit_file [OF assms(1,3)] assms(2,4)
  by (simp add: Fwriter_commit_def mem_get_def Let_def drop_writer_def)

text \<open>
  Property (C13). An incremental update is exact. Beginning a writer of the same dimension for the directory of an open index,
  copying that index but for some rows, adding the vectors that are new, committing and opening
  again signals in none of these calls and gives a handle to an index whose rows are the old rows that were not left out, in
  their order and bit for bit, followed by the new vectors as the writer normalises and rounds
  them. It is asked that every call of the operating system succeeds, that no writer holds the directory's lock, that its
  path has no NUL byte, that the new vectors are vectors of numbers of the index's dimension, and that the new
  file is smaller than \<open>2 ^ 64\<close> bytes.
\<close>

theorem incremental_update:
  assumes "mem_inv loc m" "host_works H" "\<not> locked (dirs m (loc dir))" "NUL \<notin> set dir"
    and "gh_lookup (indexes m) hi = Some ix" "0 \<le> hi" "list_all (\<lambda>k. 0 \<le> k) ks"
    and "list_all2 (\<lambda>xs v. floats_of F xs = Some v \<and> length v = unat (ix_dim ix)) xss vs"
    and "sizeof_hdr + (length (kept_rows (index_rows ix) ks) + length vs) * (2 * unat (ix_dim ix)) < 2 ^ 64"
  shows "\<exists>rs m' ix'. mem_run F loc
       ([(H, WriterNew (LStr dir) (LFix (uint (ix_dim ix)))),
         (H, WriterCopy (LFix (uint (next_handle m))) (LFix hi) (llist (map LFix ks)))] @
        map (\<lambda>xs. (H, WriterAdd (LFix (uint (next_handle m))) (LVec xs))) xss @
        [(H, WriterCommit (LFix (uint (next_handle m)))), (H, IndexOpen (LStr dir))]) m = (rs, m') \<and>
     list_all (\<lambda>r. \<not> isl r) rs \<and> last rs = Inr (LFix (uint (next_handle m + 1))) \<and>
     gh_lookup (indexes m') (uint (next_handle m + 1)) = Some ix' \<and>
     ix_dim ix' = ix_dim ix \<and> index_rows ix' = kept_rows (index_rows ix) ks @ map (unit_row F) vs"
proof -
  let ?h = "uint (next_handle m)" and ?rows = "kept_rows (index_rows ix) ks @ map (unit_row F) vs"
  have ix: "index_ok ix" by (rule mem_invD(3) [OF assms(1,5)])
  have h: "0 \<le> ?h" by simp
  obtain w m1 where n: "Fwriter_new loc H (LStr dir) (LFix (uint (ix_dim ix))) m = (Inr (LFix ?h), m1)"
      "gh_lookup (writers m1) ?h = Some w" "writer_holds w []" "w_dir w = dir" "w_dim w = ix_dim ix"
      "indexes m1 = indexes m" "next_handle m1 = next_handle m + 1"
    using new_step [where loc = loc and m = m and dir = dir and dim = "ix_dim ix"] assms(2-4) by blast
  obtain w2 c where c: "Fwriter_copy H (LFix ?h) (LFix hi) (llist (map LFix ks)) m1 = (Inr (LFix c), set_writer ?h w2 m1)"
      "writer_holds w2 (kept_rows (index_rows ix) ks)" "w_dir w2 = dir" "w_dim w2 = ix_dim ix"
    using copy_step [OF assms(2) ix _ n(2,3,5) h assms(6,7)] n(4-6) assms(5) by auto
  have "gh_lookup (writers (set_writer ?h w2 m1)) ?h = Some w2" by (simp add: set_writer_def)
  from adds_step [OF assms(2) h _ this c(2,4) assms(8), of loc] ix obtain rs m3 w3 where
    a: "mem_run F loc (map (\<lambda>xs. (H, WriterAdd (LFix ?h) (LVec xs))) xss) (set_writer ?h w2 m1) = (rs, m3)" "list_all (\<lambda>r. \<not> isl r) rs"
      "gh_lookup (writers m3) ?h = Some w3" "writer_holds w3 ?rows" "w_dir w3 = dir" "w_dim w3 = ix_dim ix"
      "next_handle m3 = next_handle m + 1"
    using c(3) n(7) by (auto simp: index_ok_def set_writer_def)
  obtain k m4 where k: "Fwriter_commit loc H (LFix ?h) m3 = (Inr (LFix k), m4)"
      "vectors (dirs m4 (loc dir)) = Some (index_file (ix_dim ix) ?rows)" "next_handle m4 = next_handle m + 1"
    using commit_step [OF assms(2) a(3,4) h, of loc] a(5-7) by auto
  have l: "list_all (\<lambda>r. length r = unat (ix_dim ix)) ?rows" using a(4,6) by (simp add: writer_holds_def)
  have f: "acceptable (index_file (ix_dim ix) ?rows)" "index_rows (opened dir (index_file (ix_dim ix) ?rows)) = ?rows"
      "ix_dim (opened dir (index_file (ix_dim ix) ?rows)) = ix_dim ix"
    using index_file_opens [OF l] ix assms(9) by (simp_all add: index_ok_def)
  have "index_open dir (vectors (dirs m4 (loc dir))) (read_ok H) (map_ok H) = Inr (opened dir (index_file (ix_dim ix) ?rows))"
    using f(1) k(2) assms(2) by (simp add: index_open_Inr host_works_def)
  then have "Findex_open loc H (LStr dir) m4 = (Inr (LFix (uint (next_handle m + 1))),
      snd (mem_put_index (opened dir (index_file (ix_dim ix) ?rows)) m4))"
    using assms(4) k(3) by (simp add: Findex_open_def mem_put_index_def)
  then show ?thesis
    using n(1) c(1) a(1,2) k(1,3) f(2,3) by (simp add: mem_run_append mem_put_index_def)
qed

text \<open>A host that does as it is told, and a memory with one index of three rows open.\<close>

definition good_host :: host where
  "good_host = \<lparr>mkdir_ok = True, lock_open_ok = True, fopen_ok = True, rename_ok = True, read_ok = True, map_ok = True,
     accepts = (\<lambda>s n. n), flushed = (\<lambda>s. s)\<rparr>"

definition demo_mem :: brigade_mem where
  "demo_mem = \<lparr>indexes = gh_replace 1 (opened ''/ix'' demo_file) gh_empty, writers = gh_empty, next_handle = 2,
     dirs = (\<lambda>_. \<lparr>vectors = Some demo_file, vectors_new = None, locked = False\<rparr>)\<rparr>"

lemma good_host_works: "host_works good_host"
  by (simp add: host_works_def good_host_def)

lemma demo_mem_inv: "mem_inv loc demo_mem"
  using opened_ok [OF demo_file_opens(1)] by (simp add: mem_inv_def demo_mem_def)

lemma demo_unit_row: "unit_row demo_fpu [0x3F000000] = [0x3800]"
  by (simp add: unit_row_def sum_squares_def demo_fpu_def Let_def float_to_half_def)

theorem incremental_update_witness:
  "\<exists>rs m' ix'. mem_run demo_fpu (\<lambda>_. 0)
       ([(good_host, WriterNew (LStr ''/ix'') (LFix 1)), (good_host, WriterCopy (LFix 2) (LFix 1) (llist [LFix 1])),
         (good_host, WriterAdd (LFix 2) (LVec [LFlo 0x3F000000])),
         (good_host, WriterCommit (LFix 2)), (good_host, IndexOpen (LStr ''/ix''))]) demo_mem = (rs, m') \<and>
     last rs = Inr (LFix 3) \<and> gh_lookup (indexes m') 3 = Some ix' \<and> index_rows ix' = [[0x3000], [0xB000], [0x3800]]"
proof -
  let ?ix = "opened ''/ix'' demo_file"
  have dim: "ix_dim ?ix = 1" by (rule demo_file_opens)
  have kept: "kept_rows (index_rows ?ix) [1] = [[0x3000], [0xB000]]"
    by (simp add: kept_rows_def demo_file_opens upt_rec)
  have "list_all2 (\<lambda>xs v. floats_of demo_fpu xs = Some v \<and> length v = unat (ix_dim ?ix)) [[LFlo 0x3F000000]] [[0x3F000000]]"
    by (simp add: dim demo_fpu_def)
  from incremental_update [OF demo_mem_inv [of "\<lambda>_. 0"] good_host_works _ _ _ _ _ this, of "''/ix''" 1 "[1]"] show ?thesis
    by (auto simp: demo_mem_def dim kept demo_unit_row sizeof_hdr_def)
qed

theorem memory_undefined_iff_witness:
  "\<exists>rs m. mem_run demo_fpu (\<lambda>_. 0) [(good_host, IndexOpen (LStr ''/ix''))] (mem_start (dirs demo_mem)) = (rs, m) \<and>
     fst (mem_exec demo_fpu (\<lambda>_. 0) good_host (IndexSearch (LFix 1) (LVec [Qnil]) (LFix 2)) m) = Inl Undefined"
proof -
  let ?m = "snd (mem_put_index (opened ''/ix'' demo_file) (mem_start (dirs demo_mem)))"
  have "index_open ''/ix'' (Some demo_file) True True = Inr (opened ''/ix'' demo_file)"
    using demo_file_opens(1) by (simp add: index_open_Inr)
  then have run: "mem_run demo_fpu (\<lambda>_. 0) [(good_host, IndexOpen (LStr ''/ix''))] (mem_start (dirs demo_mem))
      = ([Inr (LFix 1)], ?m)"
    by (simp add: Findex_open_def mem_start_def demo_mem_def mem_put_index_def good_host_def)
  moreover have "reads_non_number ?m (IndexSearch (LFix 1) (LVec [Qnil]) (LFix 2))"
    by (simp add: mem_put_index_def mem_start_def demo_file_opens)
  ultimately show ?thesis
    using memory_undefined_iff [OF run, of good_host "IndexSearch (LFix 1) (LVec [Qnil]) (LFix 2)"] by auto
qed

text \<open>A writer about to be committed in a directory without an index.\<close>

definition commit_mem :: brigade_mem where
  "commit_mem = \<lparr>indexes = gh_empty,
     writers = gh_replace 2 \<lparr>w_dir = ''/ix'', w_dim = 1, w_count = 0, w_stream = Some []\<rparr> gh_empty, next_handle = 3,
     dirs = (\<lambda>_. \<lparr>vectors = None, vectors_new = Some [], locked = True\<rparr>)\<rparr>"

theorem live_index_only_committed_witness:
  "\<exists>h w. WriterCommit (LFix 2) = WriterCommit (LFix h) \<and> gh_lookup (writers commit_mem) h = Some w \<and>
     fst (mem_exec demo_fpu (\<lambda>_. 0) good_host (WriterCommit (LFix 2)) commit_mem) = Inr (LFix (uint (w_count w)))"
proof -
  have "vectors (dirs (snd (mem_exec demo_fpu (\<lambda>_. 0) good_host (WriterCommit (LFix 2)) commit_mem)) 0) \<noteq>
      vectors (dirs commit_mem 0)"
    by (simp add: commit_mem_def Fwriter_commit_def mem_get_def writer_commit_def Let_def drop_writer_def good_host_def)
  from live_index_only_committed [OF this] show ?thesis by blast
qed

end
