(* ===== verification/Spacemouse.thy ===== *)
theory Spacemouse
  imports C_Bytes Lisp_Obj
begin

text \<open>
  The 6DOF input under \<^verbatim>\<open>src/cmacs/spacemouse\<close>: the wire format of spacenavd's original protocol
  (\<^verbatim>\<open>cmacs-spacemouse-proto.c\<close>), the connection to the daemon with its watch, its retry timer and its
  partial packet (\<^verbatim>\<open>cmacs-spacemouse-conn.c\<close>), and the ring of recent reports and the button codes of
  \<^verbatim>\<open>cmacs-spacemouse-defuns.c\<close>.

  The connection is a record. The sources attached to the main loop and the descriptors open in
  the process are part of it, so that nothing is left behind can be stated; what the system, the
  daemon and libspnav answer comes in with each event. Reports handed to the handler are kept in
  the order of delivery.
\<close>

section \<open>The wire format\<close>

datatype spnav_kind = SPNAV_NONE | SPNAV_MOTION | SPNAV_BUTTON

record spnav_event =
  ev_kind :: spnav_kind
  ev_axis :: "32 word list"
  ev_period_ms :: "32 word"
  ev_button :: "32 word"
  ev_press :: bool

definition no_event :: spnav_event where
  "no_event = \<lparr>ev_kind = SPNAV_NONE, ev_axis = replicate 6 0, ev_period_ms = 0, ev_button = 0, ev_press = False\<rparr>"

definition SPNAV_PACKET_SIZE :: nat where
  "SPNAV_PACKET_SIZE = 8 * 4"

definition get_i32 :: "byte list \<Rightarrow> nat \<Rightarrow> 32 word" where
  "get_i32 buf i = of_nat (le_nat (take 4 (drop (4 * i) buf)))"

definition put_i32 :: "nat \<Rightarrow> 32 word \<Rightarrow> byte list \<Rightarrow> byte list" where
  "put_i32 i v buf = take (4 * i) buf @ le_bytes 4 (unat v) @ drop (4 * i + 4) buf"

definition decode_v0 :: "byte list \<Rightarrow> bool \<times> spnav_event" where
  "decode_v0 buf =
     (let t = sint (get_i32 buf 0) in
      if t = 0 then (True, no_event\<lparr>ev_kind := SPNAV_MOTION, ev_axis := map (\<lambda>i. get_i32 buf (1 + i)) [0..<6],
                                    ev_period_ms := get_i32 buf 7\<rparr>)
      else if t = 1 \<or> t = 2
      then (0 \<le> sint (get_i32 buf 1),
            no_event\<lparr>ev_kind := SPNAV_BUTTON, ev_button := get_i32 buf 1, ev_press := (t = 1)\<rparr>)
      else (False, no_event))"

definition encode_v0 :: "spnav_event \<Rightarrow> byte list" where
  "encode_v0 ev =
     (let buf = replicate SPNAV_PACKET_SIZE 0 in
      if ev_kind ev = SPNAV_MOTION
      then put_i32 7 (ev_period_ms ev) (fold (\<lambda>i. put_i32 (1 + i) (ev_axis ev ! i)) [0..<6] (put_i32 0 0 buf))
      else put_i32 1 (ev_button ev) (put_i32 0 (if ev_press ev then 1 else 2) buf))"

section \<open>The connection\<close>

record spnav_conn =
  enabled :: bool
  retry :: bool
  explicit_path :: bool
  has_handler :: bool
  path :: "string option"
  fd :: "nat option"
  via_libspnav :: bool
  watch :: "nat option"
  retry_src :: bool
  buf :: "byte list"
  fill :: nat
  attempts :: "64 word"
  attached :: "nat list"
  timers :: nat
  open_fds :: "nat list"
  next_src :: nat
  delivered :: "spnav_event list"

definition conn_init :: spnav_conn where
  "conn_init = \<lparr>enabled = False, retry = False, explicit_path = False, has_handler = False, path = None, fd = None,
     via_libspnav = False, watch = None, retry_src = False, buf = replicate 32 0, fill = 0, attempts = 0,
     attached = [], timers = 0, open_fds = [], next_src = 0, delivered = []\<rparr>"

text \<open>What one attempt to connect meets: libspnav's answers, and those of the socket calls.\<close>

record conn_env =
  have_libspnav :: bool
  spnav_socket :: "string option"
  run_sock_exists :: bool
  lib_open :: bool
  lib_fd :: "nat option"
  sock_fd :: "nat option"
  sock_connects :: bool

definition spnav_default_path :: "conn_env \<Rightarrow> string" where
  "spnav_default_path E =
     (case spnav_socket E of
        Some (c # cs) \<Rightarrow> c # cs
      | _ \<Rightarrow> if run_sock_exists E then ''/run/spnav.sock'' else ''/var/run/spnav.sock'')"

definition spnav_deliver :: "spnav_event \<Rightarrow> spnav_conn \<Rightarrow> spnav_conn" where
  "spnav_deliver ev s =
     (if has_handler s \<and> ev_kind ev \<noteq> SPNAV_NONE then s\<lparr>delivered := delivered s @ [ev]\<rparr> else s)"

datatype lib_event = LibMotion "32 word list" "32 word" | LibButton "32 word" bool | LibOther

fun lib_report :: "lib_event \<Rightarrow> spnav_conn \<Rightarrow> spnav_conn" where
  "lib_report (LibMotion xs p) s =
     spnav_deliver (no_event\<lparr>ev_kind := SPNAV_MOTION, ev_axis := xs, ev_period_ms := p\<rparr>) s"
| "lib_report (LibButton n p) s = spnav_deliver (no_event\<lparr>ev_kind := SPNAV_BUTTON, ev_button := n, ev_press := p\<rparr>) s"
| "lib_report LibOther s = s"

definition read_libspnav :: "lib_event list \<Rightarrow> spnav_conn \<Rightarrow> spnav_conn" where
  "read_libspnav evs s = fold lib_report evs s"

text \<open>
  The answers of \<^verbatim>\<open>read\<close>, in order: bytes waiting, of which one call takes no more than the buffer has
  room for; an interrupted call; the end of the stream or a hard error. Nothing more to read is
  \<^verbatim>\<open>EAGAIN\<close>.
\<close>

datatype rd = Bytes "byte list" | Intr | Eof | Fail

definition take_bytes :: "byte list \<Rightarrow> spnav_conn \<Rightarrow> spnav_conn" where
  "take_bytes bs s =
     (let s = s\<lparr>buf := take (fill s) (buf s) @ bs @ drop (fill s + length bs) (buf s), fill := fill s + length bs\<rparr> in
      if fill s = SPNAV_PACKET_SIZE
      then (let s = s\<lparr>fill := 0\<rparr> in
            case decode_v0 (buf s) of (ok, ev) \<Rightarrow> if ok then spnav_deliver ev s else s)
      else s)"

function read_socket :: "rd list \<Rightarrow> spnav_conn \<Rightarrow> bool \<times> spnav_conn" where
  "read_socket [] s = (True, s)"
| "read_socket (Bytes bs # rs) s =
     (let n = min (length bs) (SPNAV_PACKET_SIZE - fill s) in
      if n = 0 then (False, s)
      else read_socket (if n < length bs then Bytes (drop n bs) # rs else rs) (take_bytes (take n bs) s))"
| "read_socket (Intr # rs) s = read_socket rs s"
| "read_socket (Eof # rs) s = (False, s)"
| "read_socket (Fail # rs) s = (False, s)"
  by pat_completeness auto

termination
  by (relation "measure (\<lambda>(rs, _). sum_list (map (\<lambda>r. case r of Bytes bs \<Rightarrow> Suc (length bs) | _ \<Rightarrow> 1) rs))") auto

definition spnav_disconnect :: "spnav_conn \<Rightarrow> spnav_conn" where
  "spnav_disconnect s =
     (let s = (case watch s of
                 None \<Rightarrow> s
               | Some w \<Rightarrow> s\<lparr>attached := remove1 w (attached s), watch := None\<rparr>);
          s = (case fd s of None \<Rightarrow> s | Some f \<Rightarrow> s\<lparr>open_fds := remove1 f (open_fds s)\<rparr>)
      in s\<lparr>fd := None, via_libspnav := False, fill := 0\<rparr>)"

definition schedule_retry :: "spnav_conn \<Rightarrow> spnav_conn" where
  "schedule_retry s =
     (if \<not> enabled s \<or> \<not> retry s \<or> retry_src s then s
      else s\<lparr>retry_src := True, timers := timers s + 1\<rparr>)"

text \<open>The longest path a socket address holds has 107 bytes.\<close>

definition connect_socket :: "conn_env \<Rightarrow> string \<Rightarrow> nat option" where
  "connect_socket E p =
     (if length p \<ge> 108 then None
      else case sock_fd E of None \<Rightarrow> None | Some f \<Rightarrow> if sock_connects E then Some f else None)"

definition attach_watch :: "spnav_conn \<Rightarrow> spnav_conn" where
  "attach_watch s =
     s\<lparr>watch := Some (next_src s), attached := next_src s # attached s, next_src := next_src s + 1\<rparr>"

definition try_connect :: "conn_env \<Rightarrow> spnav_conn \<Rightarrow> bool \<times> spnav_conn" where
  "try_connect E s =
     (if fd s \<noteq> None then (True, s)
      else
        let s = s\<lparr>attempts := attempts s + 1, fill := 0, via_libspnav := False\<rparr> in
        if have_libspnav E \<and> \<not> explicit_path s
        then (if \<not> lib_open E then (False, s)
              else case lib_fd E of
                  None \<Rightarrow> (False, s)
                | Some f \<Rightarrow> (True, attach_watch (s\<lparr>fd := Some f, open_fds := f # open_fds s, via_libspnav := True\<rparr>)))
        else
          let s = s\<lparr>path := Some (case path s of None \<Rightarrow> spnav_default_path E | Some p \<Rightarrow> p)\<rparr> in
          case connect_socket E (the (path s)) of
            None \<Rightarrow> (False, s)
          | Some f \<Rightarrow> (True, attach_watch (s\<lparr>fd := Some f, open_fds := f # open_fds s\<rparr>)))"

text \<open>
  The dispatch of the watch. When the daemon is gone the watch is dropped without destroying it,
  because returning \<^verbatim>\<open>G_SOURCE_REMOVE\<close> takes the dispatched source off the loop.
\<close>

definition spnav_readable :: "bool \<Rightarrow> bool \<Rightarrow> rd list \<Rightarrow> lib_event list \<Rightarrow> nat \<Rightarrow> spnav_conn \<Rightarrow> spnav_conn" where
  "spnav_readable io_in io_gone rs evs src s =
     (case (if io_in then (if via_libspnav s then (True, read_libspnav evs s) else read_socket rs s) else (True, s)) of
        (alive, s) \<Rightarrow>
          if \<not> alive \<or> io_gone
          then (let s = schedule_retry (spnav_disconnect (s\<lparr>watch := None\<rparr>)) in
                s\<lparr>attached := remove1 src (attached s)\<rparr>)
          else s)"

definition retry_tick :: "conn_env \<Rightarrow> spnav_conn \<Rightarrow> spnav_conn" where
  "retry_tick E s =
     (if \<not> enabled s then s\<lparr>retry_src := False, timers := timers s - 1\<rparr>
      else case try_connect E s of (ok, s) \<Rightarrow> if ok then s\<lparr>retry_src := False, timers := timers s - 1\<rparr> else s)"

definition conn_stop :: "spnav_conn \<Rightarrow> spnav_conn" where
  "conn_stop s =
     (let s = s\<lparr>enabled := False\<rparr>;
          s = (if retry_src s then s\<lparr>retry_src := False, timers := timers s - 1\<rparr> else s);
          s = spnav_disconnect s
      in s\<lparr>path := None, has_handler := False\<rparr>)"

definition conn_start :: "conn_env \<Rightarrow> string option \<Rightarrow> bool \<Rightarrow> spnav_conn \<Rightarrow> bool \<times> spnav_conn" where
  "conn_start E p r s =
     (let s = (conn_stop s)\<lparr>enabled := True, retry := r, has_handler := True, explicit_path := (p \<noteq> None),
                             path := p, attempts := 0\<rparr>
      in case try_connect E s of (ok, s) \<Rightarrow> if ok then (True, s) else (False, schedule_retry s))"

definition conn_backend :: "spnav_conn \<Rightarrow> string option" where
  "conn_backend s = (if fd s = None then None else Some (if via_libspnav s then ''libspnav'' else ''socket''))"

definition conn_socket :: "spnav_conn \<Rightarrow> string option" where
  "conn_socket s = (if via_libspnav s then None else path s)"

section \<open>Packets come back as they were sent\<close>

lemma length_put_i32 [simp]: "length b = 32 \<Longrightarrow> i < 8 \<Longrightarrow> length (put_i32 i v b) = 32"
  by (simp add: put_i32_def)

lemma get_put_i32:
  assumes "length b = 32" "i < 8" "j < 8"
  shows "get_i32 (put_i32 i v b) j = (if j = i then v else get_i32 b j)"
proof (cases "j = i")
  case True
  then show ?thesis using assms by (simp add: get_i32_def put_i32_def le_nat_word32)
next
  case False
  have "take 4 (drop (4 * j) (put_i32 i v b)) = take 4 (drop (4 * j) b)"
  proof (rule nth_equalityI)
    show "length (take 4 (drop (4 * j) (put_i32 i v b))) = length (take 4 (drop (4 * j) b))" using assms by simp
    fix n assume "n < length (take 4 (drop (4 * j) (put_i32 i v b)))"
    then have n: "n < 4" "4 * j + n < 32" using assms by auto
    then have "put_i32 i v b ! (4 * j + n) = b ! (4 * j + n)"
      using False assms by (cases "j < i") (auto simp: put_i32_def nth_append)
    then show "take 4 (drop (4 * j) (put_i32 i v b)) ! n = take 4 (drop (4 * j) b) ! n" using n assms by simp
  qed
  then show ?thesis using False by (simp add: get_i32_def)
qed

lemma get_zero: "get_i32 (replicate 32 0) j = 0"
proof -
  have "le_nat (replicate n 0) = 0" for n by (induction n) auto
  then show ?thesis by (simp add: get_i32_def)
qed

lemma upt_six: "[0..<6] = [0, 1, 2, 3, 4, 5 :: nat]"
  by (simp add: upt_rec)

lemma encode_fields:
  assumes "ev_kind ev = SPNAV_MOTION"
  shows "length (encode_v0 ev) = 32" "get_i32 (encode_v0 ev) 0 = 0" "get_i32 (encode_v0 ev) 7 = ev_period_ms ev"
    "i < 6 \<Longrightarrow> get_i32 (encode_v0 ev) (Suc i) = ev_axis ev ! i"
proof -
  have e: "encode_v0 ev = put_i32 7 (ev_period_ms ev) (fold (\<lambda>i. put_i32 (1 + i) (ev_axis ev ! i)) [0, 1, 2, 3, 4, 5]
      (put_i32 0 0 (replicate 32 0)))"
    using assms by (simp add: encode_v0_def Let_def SPNAV_PACKET_SIZE_def upt_six)
  show "length (encode_v0 ev) = 32" "get_i32 (encode_v0 ev) 0 = 0" "get_i32 (encode_v0 ev) 7 = ev_period_ms ev"
    unfolding e by (simp_all add: get_put_i32)
  assume "i < 6"
  then have "i = 0 \<or> i = 1 \<or> i = 2 \<or> i = 3 \<or> i = 4 \<or> i = 5" by linarith
  then show "get_i32 (encode_v0 ev) (Suc i) = ev_axis ev ! i"
    unfolding e by (elim disjE) (simp_all add: get_put_i32)
qed

text \<open>A report the daemon may send: six axes, or the number of a button.\<close>

definition wire_event :: "spnav_event \<Rightarrow> bool" where
  "wire_event ev \<longleftrightarrow>
     (case ev_kind ev of
        SPNAV_NONE \<Rightarrow> False
      | SPNAV_MOTION \<Rightarrow> length (ev_axis ev) = 6 \<and> ev_button ev = 0 \<and> \<not> ev_press ev
      | SPNAV_BUTTON \<Rightarrow> ev_axis ev = replicate 6 0 \<and> ev_period_ms ev = 0 \<and> 0 \<le> sint (ev_button ev))"

lemma length_encode [simp]: "length (encode_v0 ev) = 32"
  using encode_fields(1) [of ev] by (cases "ev_kind ev = SPNAV_MOTION") (simp_all add: encode_v0_def Let_def SPNAV_PACKET_SIZE_def)

lemma decode_encode:
  assumes "wire_event ev" shows "decode_v0 (encode_v0 ev) = (True, ev)"
proof (cases "ev_kind ev")
  case SPNAV_MOTION
  have "map (\<lambda>i. get_i32 (encode_v0 ev) (1 + i)) [0..<6] = ev_axis ev"
    using assms encode_fields(4) [OF SPNAV_MOTION] SPNAV_MOTION
    by (intro nth_equalityI) (simp_all add: wire_event_def)
  then show ?thesis
    using assms SPNAV_MOTION encode_fields(2,3) [OF SPNAV_MOTION]
    by (simp add: decode_v0_def Let_def wire_event_def no_event_def)
next
  case SPNAV_BUTTON
  have "encode_v0 ev = put_i32 1 (ev_button ev) (put_i32 0 (if ev_press ev then 1 else 2) (replicate 32 0))"
    using SPNAV_BUTTON by (simp add: encode_v0_def Let_def SPNAV_PACKET_SIZE_def)
  then have g: "get_i32 (encode_v0 ev) 0 = (if ev_press ev then 1 else 2)" "get_i32 (encode_v0 ev) 1 = ev_button ev"
    by (simp_all add: get_put_i32)
  show ?thesis
    using assms SPNAV_BUTTON unfolding decode_v0_def Let_def g by (simp add: wire_event_def no_event_def)
qed (use assms in \<open>simp add: wire_event_def\<close>)

section \<open>Reassembly\<close>

text \<open>What a stream of bytes says: its whole packets, and the bytes left over.\<close>

function packets :: "byte list \<Rightarrow> byte list list \<times> byte list" where
  "packets bs = (if length bs < 32 then ([], bs)
     else case packets (drop 32 bs) of (ps, rest) \<Rightarrow> (take 32 bs # ps, rest))"
  by pat_completeness auto

termination
  by (relation "measure length") auto

declare packets.simps [simp del]

definition reports :: "byte list list \<Rightarrow> spnav_event list" where
  "reports ps = map snd (filter (\<lambda>(ok, ev). ok \<and> ev_kind ev \<noteq> SPNAV_NONE) (map decode_v0 ps))"

lemma packets_small: "length bs < 32 \<Longrightarrow> packets bs = ([], bs)"
  by (subst packets.simps) simp

lemma packets_step: "length p = 32 \<Longrightarrow> packets (p @ bs) = (p # fst (packets bs), snd (packets bs))"
  by (subst packets.simps) (simp add: case_prod_beta)

text \<open>The buffered part of a packet, before and after some bytes are taken.\<close>

definition buffered :: "spnav_conn \<Rightarrow> byte list" where
  "buffered s = take (fill s) (buf s)"

definition partial_ok :: "spnav_conn \<Rightarrow> bool" where
  "partial_ok s \<longleftrightarrow> length (buf s) = 32 \<and> fill s < 32"

lemma deliver_simps [simp]:
  "buf (spnav_deliver ev s) = buf s" "fill (spnav_deliver ev s) = fill s" "has_handler (spnav_deliver ev s) = has_handler s"
  by (simp_all add: spnav_deliver_def)

lemma take_bytes_spec:
  assumes "partial_ok s" "has_handler s" "fill s + length bs \<le> 32" "bs \<noteq> []"
  shows "partial_ok (take_bytes bs s) \<and> has_handler (take_bytes bs s) \<and>
     buffered (take_bytes bs s) = snd (packets (buffered s @ bs)) \<and>
     delivered (take_bytes bs s) = delivered s @ reports (fst (packets (buffered s @ bs)))"
proof -
  have l: "length (buffered s) = fill s" using assms(1) by (simp add: buffered_def partial_ok_def)
  show ?thesis
  proof (cases "fill s + length bs = 32")
    case True
    have full: "take (fill s) (buf s) @ bs @ drop (fill s + length bs) (buf s) = buffered s @ bs"
      using True assms(1) by (simp add: buffered_def partial_ok_def)
    have p: "packets (buffered s @ bs) = ([buffered s @ bs], [])"
      using packets_step [of "buffered s @ bs" "[]"] True l by (simp add: packets_small)
    show ?thesis
      using True assms l unfolding p
      by (auto simp: take_bytes_def Let_def full SPNAV_PACKET_SIZE_def partial_ok_def buffered_def [of "take_bytes bs s"]
          buffered_def reports_def spnav_deliver_def split: prod.splits if_splits)
  next
    case False
    then have "packets (buffered s @ bs) = ([], buffered s @ bs)" using l assms(3) by (intro packets_small) simp
    then show ?thesis
      using False assms by (simp add: take_bytes_def Let_def SPNAV_PACKET_SIZE_def partial_ok_def buffered_def reports_def)
  qed
qed

lemma packets_append:
  "fst (packets (a @ b)) = fst (packets a) @ fst (packets (snd (packets a) @ b)) \<and>
   snd (packets (a @ b)) = snd (packets (snd (packets a) @ b))"
proof (induction a rule: packets.induct)
  case (1 a)
  show ?case
  proof (cases "length a < 32")
    case True
    then show ?thesis by (simp add: packets_small)
  next
    case False
    have "packets a = (take 32 a # fst (packets (drop 32 a)), snd (packets (drop 32 a)))"
      using packets_step [of "take 32 a" "drop 32 a"] False by simp
    moreover have "packets (a @ b) = (take 32 a # fst (packets (drop 32 a @ b)), snd (packets (drop 32 a @ b)))"
      using packets_step [of "take 32 a" "drop 32 a @ b"] False by (simp flip: append_assoc)
    ultimately show ?thesis using 1 [OF False] by simp
  qed
qed

lemma reports_append: "reports (ps @ qs) = reports ps @ reports qs"
  by (simp add: reports_def)

fun stream_bytes :: "rd list \<Rightarrow> byte list" where
  "stream_bytes [] = []"
| "stream_bytes (Bytes bs # rs) = bs @ stream_bytes rs"
| "stream_bytes (_ # rs) = stream_bytes rs"

fun flowing :: "rd list \<Rightarrow> bool" where
  "flowing [] = True"
| "flowing (Bytes bs # rs) = (bs \<noteq> [] \<and> flowing rs)"
| "flowing (Intr # rs) = flowing rs"
| "flowing (_ # rs) = False"

lemma read_socket_reports:
  "partial_ok s \<Longrightarrow> has_handler s \<Longrightarrow> flowing rs \<Longrightarrow>
   \<exists>s'. read_socket rs s = (True, s') \<and> buffered s' = snd (packets (buffered s @ stream_bytes rs)) \<and>
     delivered s' = delivered s @ reports (fst (packets (buffered s @ stream_bytes rs)))"
proof (induction rs s rule: read_socket.induct)
  case (1 s)
  then have "packets (buffered s) = ([], buffered s)" by (intro packets_small) (auto simp: buffered_def partial_ok_def)
  then show ?case by (simp add: reports_def)
next
  case (2 bs rs s)
  define n where "n = min (length bs) (SPNAV_PACKET_SIZE - fill s)"
  define rest where "rest = (if n < length bs then Bytes (drop n bs) # rs else rs)"
  have n: "n \<noteq> 0" "n \<le> length bs" "fill s + length (take n bs) \<le> 32" "take n bs \<noteq> []"
    using "2.prems" by (auto simp: n_def partial_ok_def SPNAV_PACKET_SIZE_def)
  note t = take_bytes_spec [OF "2.prems"(1,2) n(3,4)]
  have st: "stream_bytes (Bytes bs # rs) = take n bs @ stream_bytes rest"
    using n(2) by (simp add: rest_def)
  have "flowing rest" using "2.prems"(3) by (simp add: rest_def)
  then obtain s' where s': "read_socket rest (take_bytes (take n bs) s) = (True, s')"
      "buffered s' = snd (packets (buffered (take_bytes (take n bs) s) @ stream_bytes rest))"
      "delivered s' = delivered (take_bytes (take n bs) s) @ reports (fst (packets (buffered (take_bytes (take n bs) s) @ stream_bytes rest)))"
    using "2.IH" [OF n_def n(1)] t unfolding rest_def by blast
  have "read_socket (Bytes bs # rs) s = (True, s')"
    using s'(1) n(1) by (simp add: n_def [symmetric] rest_def [symmetric] Let_def)
  then show ?case
    using s'(2,3) t packets_append [of "buffered s @ take n bs" "stream_bytes rest"] unfolding st
    by (simp add: reports_append)
qed simp_all

lemma packets_encoded: "packets (concat (map encode_v0 evs)) = (map encode_v0 evs, [])"
  by (induction evs) (simp_all add: packets_small packets_step)

lemma reports_encoded: "list_all wire_event evs \<Longrightarrow> reports (map encode_v0 evs) = evs"
  by (induction evs) (auto simp: reports_def decode_encode wire_event_def split: spnav_kind.splits)

text \<open>
  Property (C15). Reports arrive as they were sent. Whatever reports the daemon encodes and in whatever
  pieces the socket yields their bytes, with calls interrupted at any point, one dispatch of
  the watch hands the handler exactly these reports, each once and in order, and leaves no part
  of a packet behind.
\<close>

theorem spnav_reassembles:
  assumes "partial_ok s" "has_handler s" "fill s = 0" "flowing rs"
    and "stream_bytes rs = concat (map encode_v0 evs)" "list_all wire_event evs"
  shows "\<exists>s'. read_socket rs s = (True, s') \<and> delivered s' = delivered s @ evs \<and> buffered s' = []"
  using read_socket_reports [OF assms(1,2,4)] assms(3,5)
  by (auto simp: buffered_def packets_encoded reports_encoded [OF assms(6)])

section \<open>The life of the connection\<close>

datatype conn_event =
    Start conn_env "string option" bool
  | Stop
  | Readable bool bool "rd list" "lib_event list" nat
  | Tick conn_env

text \<open>A watch is dispatched only while it is attached, the timer only while it runs.\<close>

fun conn_exec :: "conn_event \<Rightarrow> spnav_conn \<Rightarrow> spnav_conn option" where
  "conn_exec (Start E p r) s = Some (snd (conn_start E p r s))"
| "conn_exec Stop s = Some (conn_stop s)"
| "conn_exec (Readable io_in gone rs evs src) s =
     (if src \<in> set (attached s) then Some (spnav_readable io_in gone rs evs src s) else None)"
| "conn_exec (Tick E) s = (if 0 < timers s then Some (retry_tick E s) else None)"

definition the_list :: "'a option \<Rightarrow> 'a list" where
  "the_list x = (case x of None \<Rightarrow> [] | Some y \<Rightarrow> [y])"

definition conn_inv :: "spnav_conn \<Rightarrow> bool" where
  "conn_inv s \<longleftrightarrow> partial_ok s \<and> attached s = the_list (watch s) \<and> open_fds s = the_list (fd s) \<and>
     timers s = of_bool (retry_src s) \<and> (watch s = None \<longleftrightarrow> fd s = None) \<and>
     (retry_src s \<longleftrightarrow> enabled s \<and> retry s \<and> fd s = None) \<and> has_handler s = enabled s \<and>
     (fd s \<noteq> None \<longrightarrow> enabled s)"

text \<open>Reading changes the buffer and what was delivered, nothing of the connection itself.\<close>

definition same_conn :: "spnav_conn \<Rightarrow> spnav_conn \<Rightarrow> bool" where
  "same_conn s t \<longleftrightarrow> watch t = watch s \<and> fd t = fd s \<and> attached t = attached s \<and> open_fds t = open_fds s \<and>
     timers t = timers s \<and> retry_src t = retry_src s \<and> enabled t = enabled s \<and> retry t = retry s \<and>
     has_handler t = has_handler s"

lemma same_conn_refl [simp]: "same_conn s s"
  by (simp add: same_conn_def)

lemma same_conn_trans: "same_conn a b \<Longrightarrow> same_conn b c \<Longrightarrow> same_conn a c"
  by (simp add: same_conn_def)

lemma same_conn_deliver: "same_conn s t \<Longrightarrow> same_conn s (spnav_deliver ev t)"
  by (simp add: same_conn_def spnav_deliver_def)

lemma take_bytes_ok:
  assumes "partial_ok s" "fill s + length bs \<le> 32"
  shows "partial_ok (take_bytes bs s) \<and> same_conn s (take_bytes bs s)"
proof -
  let ?t = "s\<lparr>buf := take (fill s) (buf s) @ bs @ drop (fill s + length bs) (buf s), fill := fill s + length bs\<rparr>"
  have "same_conn s ?t" "same_conn s (?t\<lparr>fill := 0\<rparr>)" by (simp_all add: same_conn_def)
  then show ?thesis
    using assms same_conn_deliver unfolding take_bytes_def Let_def
    by (auto simp: partial_ok_def SPNAV_PACKET_SIZE_def split: prod.splits)
qed

lemma read_socket_ok: "partial_ok s \<Longrightarrow> read_socket rs s = (r, t) \<Longrightarrow> partial_ok t \<and> same_conn s t"
proof (induction rs s rule: read_socket.induct)
  case (2 bs rs s)
  define n where "n = min (length bs) (SPNAV_PACKET_SIZE - fill s)"
  show ?case
  proof (cases "n = 0")
    case True
    then show ?thesis using "2.prems" by (simp add: n_def [symmetric] Let_def)
  next
    case False
    have "fill s + length (take n bs) \<le> 32" using "2.prems"(1) by (auto simp: n_def partial_ok_def SPNAV_PACKET_SIZE_def)
    note t = take_bytes_ok [OF "2.prems"(1) this]
    then have "partial_ok t \<and> same_conn (take_bytes (take n bs) s) t"
      using "2.IH" [OF n_def False] "2.prems"(2) False by (simp add: n_def [symmetric] Let_def)
    then show ?thesis using t same_conn_trans by blast
  qed
qed auto

lemma conn_inv_same: "conn_inv s \<Longrightarrow> same_conn s t \<Longrightarrow> partial_ok t \<Longrightarrow> conn_inv t"
  by (simp add: conn_inv_def same_conn_def)

lemma read_libspnav_ok: "partial_ok s \<Longrightarrow> partial_ok (read_libspnav evs s) \<and> same_conn s (read_libspnav evs s)"
proof -
  have step: "partial_ok t \<and> same_conn s t \<Longrightarrow> partial_ok (lib_report e t) \<and> same_conn s (lib_report e t)" for e s t
    by (cases e) (auto simp: same_conn_deliver partial_ok_def)
  have "partial_ok t \<and> same_conn s t \<Longrightarrow> partial_ok (fold lib_report evs t) \<and> same_conn s (fold lib_report evs t)" for t
  proof (induction evs arbitrary: t)
    case (Cons e evs)
    then show ?case using Cons.IH [OF step [OF Cons.prems]] by simp
  qed simp
  then show "partial_ok s \<Longrightarrow> ?thesis" by (simp add: read_libspnav_def)
qed

text \<open>What disconnecting and rescheduling leave.\<close>

lemma conn_inv_stop: "conn_inv s \<Longrightarrow> conn_inv (conn_stop s) \<and> \<not> enabled (conn_stop s)"
  by (auto simp: conn_inv_def conn_stop_def spnav_disconnect_def Let_def the_list_def partial_ok_def split: option.splits)

definition fresh_conn :: "spnav_conn \<Rightarrow> bool" where
  "fresh_conn s \<longleftrightarrow> partial_ok s \<and> attached s = [] \<and> open_fds s = [] \<and> fd s = None \<and> watch s = None \<and>
     timers s = of_bool (retry_src s) \<and> enabled s \<and> has_handler s \<and> (retry_src s \<longrightarrow> retry s)"

definition connected_conn :: "spnav_conn \<Rightarrow> bool" where
  "connected_conn s \<longleftrightarrow> partial_ok s \<and> attached s = the_list (watch s) \<and> open_fds s = the_list (fd s) \<and>
     fd s \<noteq> None \<and> watch s \<noteq> None \<and> enabled s \<and> has_handler s"

lemma attach_watch_connected:
  "partial_ok s \<Longrightarrow> attached s = [] \<Longrightarrow> open_fds s = [f] \<Longrightarrow> fd s = Some f \<Longrightarrow> enabled s \<Longrightarrow> has_handler s \<Longrightarrow>
     connected_conn (attach_watch s)"
  by (simp add: connected_conn_def attach_watch_def the_list_def partial_ok_def)

lemma try_connect_cases:
  assumes s: "fresh_conn s" and t: "try_connect E s = (ok, t)"
  shows "(if ok then connected_conn t else fresh_conn t) \<and> retry_src t = retry_src s \<and> timers t = timers s \<and> retry t = retry s"
proof (cases "have_libspnav E \<and> \<not> explicit_path s")
  case lib: True
  show ?thesis
  proof (cases "lib_open E \<and> lib_fd E \<noteq> None")
    case True
    then obtain f where f: "lib_open E" "lib_fd E = Some f" by blast
    have "t = attach_watch (s\<lparr>attempts := attempts s + 1, fill := 0, fd := Some f, open_fds := f # open_fds s, via_libspnav := True\<rparr>)" "ok"
      using s t lib f by (simp_all add: try_connect_def fresh_conn_def Let_def)
    then show ?thesis
      using s by (simp add: attach_watch_connected fresh_conn_def partial_ok_def) (simp add: attach_watch_def)
  next
    case False
    then have "t = s\<lparr>attempts := attempts s + 1, fill := 0, via_libspnav := False\<rparr>" "\<not> ok"
      using s t lib by (auto simp: try_connect_def fresh_conn_def Let_def split: if_splits option.splits)
    then show ?thesis using s by (simp add: fresh_conn_def partial_ok_def)
  qed
next
  case sock: False
  define p where "p = (case path s of None \<Rightarrow> spnav_default_path E | Some p \<Rightarrow> p)"
  show ?thesis
  proof (cases "connect_socket E p")
    case None
    then have "t = s\<lparr>attempts := attempts s + 1, fill := 0, via_libspnav := False, path := Some p\<rparr>" "\<not> ok"
      using s t sock by (auto simp: try_connect_def fresh_conn_def Let_def p_def)
    then show ?thesis using s by (simp add: fresh_conn_def partial_ok_def)
  next
    case (Some f)
    then have "t = attach_watch (s\<lparr>attempts := attempts s + 1, fill := 0, via_libspnav := False, path := Some p, fd := Some f, open_fds := f # open_fds s\<rparr>)" "ok"
      using s t sock by (auto simp: try_connect_def fresh_conn_def Let_def p_def)
    then show ?thesis
      using s by (simp add: attach_watch_connected fresh_conn_def partial_ok_def) (simp add: attach_watch_def)
  qed
qed

lemma conn_inv_start: "conn_inv s \<Longrightarrow> conn_inv (snd (conn_start E p r s))"
proof -
  assume inv: "conn_inv s"
  let ?s = "(conn_stop s)\<lparr>enabled := True, retry := r, has_handler := True, explicit_path := (p \<noteq> None), path := p, attempts := 0\<rparr>"
  have "fresh_conn ?s" "\<not> retry_src ?s"
    using conn_inv_stop [OF inv] by (auto simp: conn_inv_def fresh_conn_def the_list_def partial_ok_def)
  moreover obtain ok t where t: "try_connect E ?s = (ok, t)" by fastforce
  ultimately have "conn_inv (if ok then t else schedule_retry t)"
    using try_connect_cases [of ?s E ok t]
    by (cases ok) (auto simp: conn_inv_def schedule_retry_def fresh_conn_def connected_conn_def partial_ok_def the_list_def)
  then show ?thesis using t by (simp add: conn_start_def Let_def split: if_splits)
qed

lemma conn_inv_tick: "conn_inv s \<Longrightarrow> 0 < timers s \<Longrightarrow> conn_inv (retry_tick E s)"
proof -
  assume inv: "conn_inv s" and "0 < timers s"
  then have rs: "retry_src s" "enabled s" "retry s" "fd s = None" by (auto simp: conn_inv_def split: if_splits)
  then have "fresh_conn s" using inv by (simp add: conn_inv_def fresh_conn_def the_list_def)
  moreover obtain ok t where t: "try_connect E s = (ok, t)" by fastforce
  ultimately have "conn_inv (if ok then t\<lparr>retry_src := False, timers := timers t - 1\<rparr> else t)"
    using try_connect_cases [of s E ok t] rs
    by (cases ok) (auto simp: conn_inv_def fresh_conn_def connected_conn_def partial_ok_def the_list_def)
  then show ?thesis using t rs by (simp add: retry_tick_def)
qed

lemma conn_inv_readable:
  assumes inv: "conn_inv s" and src: "src \<in> set (attached s)"
  shows "conn_inv (spnav_readable io_in gone rs evs src s)"
proof -
  obtain alive t where t: "(if io_in then (if via_libspnav s then (True, read_libspnav evs s) else read_socket rs s) else (True, s)) = (alive, t)"
    by fastforce
  have "partial_ok t \<and> same_conn s t"
    using t inv read_libspnav_ok [of s evs] read_socket_ok [of s rs alive t] by (auto simp: conn_inv_def split: if_splits)
  then have it: "conn_inv t" and st: "same_conn s t" using conn_inv_same [OF inv] by blast+
  have w: "watch t = Some src" "attached t = [src]"
    using src st [unfolded same_conn_def] inv by (auto simp: conn_inv_def the_list_def split: option.splits)
  have "conn_inv ((schedule_retry (spnav_disconnect (t\<lparr>watch := None\<rparr>)))\<lparr>attached := remove1 src (attached (schedule_retry (spnav_disconnect (t\<lparr>watch := None\<rparr>))))\<rparr>)"
    using it w by (auto simp: conn_inv_def schedule_retry_def spnav_disconnect_def Let_def the_list_def partial_ok_def split: option.splits)
  then show ?thesis using it t by (simp add: spnav_readable_def Let_def)
qed

interpretation conn: event_machine conn_exec conn_inv
proof
  fix s e t
  assume "conn_inv s" "conn_exec e s = Some t"
  then show "conn_inv t"
    by (cases e) (auto simp: conn_inv_start conn_inv_stop conn_inv_tick conn_inv_readable split: if_splits)
qed

lemma conn_inv_init: "conn_inv conn_init"
  by (simp add: conn_inv_def conn_init_def partial_ok_def the_list_def)

text \<open>
  Property (C14). The connection neither leaks nor stalls. After any schedule of starts, stops, dispatches
  of the watch (with any bytes, errors and hang-ups) and timer ticks (with any answers to the
  attempt), the main loop holds exactly the watch of the open descriptor and the process
  exactly that descriptor; at most one retry timer runs, only while there is no connection; and
  while retrying is on and there is no connection it does run. Once stopped nothing is left.
\<close>

theorem spnav_never_leaks:
  assumes "run_events conn_exec es conn_init = Some s"
  shows "attached s = the_list (watch s) \<and> open_fds s = the_list (fd s) \<and> (watch s = None \<longleftrightarrow> fd s = None) \<and>
    timers s \<le> 1 \<and> (0 < timers s \<longrightarrow> fd s = None) \<and>
    (enabled s \<and> retry s \<and> fd s = None \<longrightarrow> timers s = 1) \<and>
    (\<not> enabled s \<longrightarrow> attached s = [] \<and> open_fds s = [] \<and> timers s = 0)"
  using conn.inv_run [OF assms conn_inv_init] by (auto simp: conn_inv_def the_list_def)

text \<open>A daemon that is away at first and there at the first tick of the timer.\<close>

definition away_env :: conn_env where
  "away_env = \<lparr>have_libspnav = False, spnav_socket = None, run_sock_exists = True, lib_open = False, lib_fd = None,
     sock_fd = Some 7, sock_connects = False\<rparr>"

definition there_env :: conn_env where
  "there_env = away_env\<lparr>sock_connects := True\<rparr>"

theorem spnav_never_leaks_witness:
  "\<exists>s. run_events conn_exec [Start away_env None True, Tick there_env] conn_init = Some s \<and>
     attached s = [0] \<and> open_fds s = [7] \<and> timers s = 0"
proof -
  define s1 where "s1 = snd (conn_start away_env None True conn_init)"
  define s2 where "s2 = retry_tick there_env s1"
  have s1: "timers s1 = 1" "fd s1 = None" "enabled s1" "next_src s1 = 0" "explicit_path s1 = False" "path s1 = Some ''/run/spnav.sock''"
    by (simp_all add: s1_def conn_start_def conn_stop_def conn_init_def spnav_disconnect_def try_connect_def away_env_def
        connect_socket_def schedule_retry_def spnav_default_path_def Let_def)
  have run: "run_events conn_exec [Start away_env None True, Tick there_env] conn_init = Some s2"
    using s1(1) by (simp add: s1_def [symmetric] s2_def)
  have "watch s2 = Some 0" "fd s2 = Some 7"
    using s1 by (simp_all add: s2_def retry_tick_def try_connect_def there_env_def away_env_def connect_socket_def attach_watch_def Let_def)
  then show ?thesis
    using run spnav_never_leaks [OF run] by (auto simp: the_list_def)
qed

definition demo_reports :: "spnav_event list" where
  "demo_reports = [no_event\<lparr>ev_kind := SPNAV_MOTION, ev_axis := [1, 2, 3, 4, 5, 6], ev_period_ms := 16\<rparr>,
     no_event\<lparr>ev_kind := SPNAV_BUTTON, ev_button := 3, ev_press := True\<rparr>]"

theorem spnav_reassembles_witness:
  "\<exists>s'. read_socket [Bytes (take 5 (concat (map encode_v0 demo_reports))), Intr, Bytes (drop 5 (concat (map encode_v0 demo_reports)))]
       (conn_init\<lparr>has_handler := True\<rparr>) = (True, s') \<and> delivered s' = demo_reports"
proof -
  let ?b = "concat (map encode_v0 demo_reports)"
  have l: "length ?b = 64" by (simp add: demo_reports_def)
  have "length (take 5 ?b) = 5" "length (drop 5 ?b) = 59" by (simp_all only: length_take length_drop l)
  then have "take 5 ?b \<noteq> []" "drop 5 ?b \<noteq> []" by force+
  then have "flowing [Bytes (take 5 ?b), Intr, Bytes (drop 5 ?b)]" by simp
  moreover have "stream_bytes [Bytes (take 5 ?b), Intr, Bytes (drop 5 ?b)] = ?b" by simp
  moreover have "list_all wire_event demo_reports" by (simp add: demo_reports_def wire_event_def no_event_def)
  moreover have "partial_ok (conn_init\<lparr>has_handler := True\<rparr>)" "delivered (conn_init\<lparr>has_handler := True\<rparr>) = []"
    "fill (conn_init\<lparr>has_handler := True\<rparr>) = 0" by (simp_all add: conn_init_def partial_ok_def)
  ultimately show ?thesis
    using spnav_reassembles [of "conn_init\<lparr>has_handler := True\<rparr>" "[Bytes (take 5 ?b), Intr, Bytes (drop 5 ?b)]" demo_reports]
    by auto
qed

section \<open>Recent reports and button codes\<close>

definition SPACEMOUSE_RECENT :: nat where
  "SPACEMOUSE_RECENT = 32"

record 'e sm_ring =
  sm_recent :: "'e list"
  sm_recent_head :: nat
  sm_recent_len :: nat

definition sm_record :: "'e \<Rightarrow> 'e sm_ring \<Rightarrow> 'e sm_ring" where
  "sm_record ev r =
     \<lparr>sm_recent = (sm_recent r)[sm_recent_head r := ev],
      sm_recent_head = (sm_recent_head r + 1) mod SPACEMOUSE_RECENT,
      sm_recent_len = (if sm_recent_len r < SPACEMOUSE_RECENT then sm_recent_len r + 1 else sm_recent_len r)\<rparr>"

definition recent_at :: "'e sm_ring \<Rightarrow> nat \<Rightarrow> nat" where
  "recent_at r k = nat ((int (sm_recent_head r) - 1 - int k + int SPACEMOUSE_RECENT) mod int SPACEMOUSE_RECENT)"

text \<open>The list is consed from the newest report to the oldest.\<close>

definition recent_events :: "bool \<Rightarrow> 'e sm_ring \<Rightarrow> 'e list \<times> 'e sm_ring" where
  "recent_events clear r =
     (fold (\<lambda>k out. sm_recent r ! recent_at r k # out) [0..<sm_recent_len r] [],
      if clear then r\<lparr>sm_recent_len := 0, sm_recent_head := 0\<rparr> else r)"

definition ring_ok :: "'e sm_ring \<Rightarrow> bool" where
  "ring_ok r \<longleftrightarrow> length (sm_recent r) = 32 \<and> sm_recent_head r < 32 \<and> sm_recent_len r \<le> 32"

lemma fold_cons: "fold (\<lambda>k out. f k # out) ks out = rev (map f ks) @ out"
  by (induction ks arbitrary: out) auto

lemma recent_events_rev:
  "fst (recent_events c r) = rev (map (\<lambda>k. sm_recent r ! recent_at r k) [0..<sm_recent_len r])"
  by (simp add: recent_events_def fold_cons)

lemma recent_at_record:
  assumes "ring_ok r"
  shows "recent_at (sm_record ev r) 0 = sm_recent_head r"
    and "k < 31 \<Longrightarrow> recent_at (sm_record ev r) (Suc k) = recent_at r k \<and> recent_at r k \<noteq> sm_recent_head r"
proof -
  let ?h = "int (sm_recent_head r)"
  have h: "0 \<le> ?h" "?h < 32" using assms by (simp_all add: ring_ok_def)
  have nh: "int (sm_recent_head (sm_record ev r)) = (?h + 1) mod 32" 
    by (simp add: sm_record_def SPACEMOUSE_RECENT_def zmod_int add.commute)
  have at: "recent_at (sm_record ev r) j = nat ((?h - int j) mod 32)" for j
  proof -
    have "(?h + 1) mod 32 - 1 - int j + 32 = (?h + 1) mod 32 + (31 - int j)" by simp
    then have "((?h + 1) mod 32 - 1 - int j + 32) mod 32 = ((?h + 1) + (31 - int j)) mod 32"
      by (simp only: mod_add_left_eq)
    also have "(?h + 1) + (31 - int j) = (?h - int j) + 32" by simp
    finally have "((?h + 1) mod 32 - 1 - int j + 32) mod 32 = (?h - int j) mod 32" by (simp only: mod_add_self2)
    then show ?thesis unfolding recent_at_def nh SPACEMOUSE_RECENT_def by simp
  qed
  show "recent_at (sm_record ev r) 0 = sm_recent_head r" using h by (simp add: at)
  assume k: "k < 31"
  have old: "recent_at r k = nat ((?h - 1 - int k) mod 32)"
  proof -
    have "(?h - 1 - int k + 32) mod 32 = (?h - 1 - int k) mod 32" by (rule mod_add_self2)
    then show ?thesis unfolding recent_at_def SPACEMOUSE_RECENT_def by simp
  qed
  have "(?h - 1 - int k) mod 32 \<noteq> ?h"
  proof
    assume "(?h - 1 - int k) mod 32 = ?h"
    moreover have "?h mod 32 = ?h" using h by simp
    ultimately have "32 dvd (?h - 1 - int k) - ?h" unfolding mod_eq_dvd_iff [symmetric] by (simp only:)
    moreover have "(?h - 1 - int k) - ?h = - (1 + int k)" by simp
    ultimately have "32 dvd 1 + int k" by (simp only: dvd_minus_iff)
    then have "32 \<le> 1 + int k" by (rule zdvd_imp_le) simp
    then show False using k by simp
  qed
  then have "recent_at r k \<noteq> sm_recent_head r" unfolding old using h by (auto simp: nat_eq_iff)
  then show "recent_at (sm_record ev r) (Suc k) = recent_at r k \<and> recent_at r k \<noteq> sm_recent_head r"
    by (simp add: at old algebra_simps)
qed

lemma ring_ok_record [inv_intros]: "ring_ok r \<Longrightarrow> ring_ok (sm_record ev r)"
  by (simp add: ring_ok_def sm_record_def SPACEMOUSE_RECENT_def)

lemma recent_record:
  assumes "ring_ok r"
  shows "fst (recent_events c (sm_record ev r)) =
     (if sm_recent_len r < 32 then fst (recent_events c r) else tl (fst (recent_events c r))) @ [ev]"
proof -
  define n where "n = (if sm_recent_len r < 32 then sm_recent_len r else 31)"
  have n: "n \<le> 31" "sm_recent_len (sm_record ev r) = Suc n"
    using assms by (auto simp: n_def sm_record_def SPACEMOUSE_RECENT_def ring_ok_def)
  let ?f = "\<lambda>k. sm_recent (sm_record ev r) ! recent_at (sm_record ev r) k" and ?g = "\<lambda>k. sm_recent r ! recent_at r k"
  have zero: "?f 0 = ev" using recent_at_record(1) [OF assms] assms by (simp add: sm_record_def ring_ok_def)
  have "map ?f [0..<Suc n] = ?f 0 # map (\<lambda>k. ?f (Suc k)) [0..<n]"
    by (simp only: map_upt_Suc)
  also have "map (\<lambda>k. ?f (Suc k)) [0..<n] = map ?g [0..<n]"
  proof (rule map_cong [OF refl])
    fix k assume "k \<in> set [0..<n]"
    then have "k < 31" using n by simp
    from recent_at_record(2) [OF assms this, of ev]
    have "recent_at (sm_record ev r) (Suc k) = recent_at r k" "sm_recent_head r \<noteq> recent_at r k" by auto
    moreover have "sm_recent (sm_record ev r) = (sm_recent r)[sm_recent_head r := ev]" by (simp add: sm_record_def)
    ultimately show "?f (Suc k) = ?g k" by simp
  qed
  finally have "fst (recent_events c (sm_record ev r)) = rev (map ?g [0..<n]) @ [ev]"
    unfolding recent_events_rev n(2) zero by simp
  moreover have "rev (map ?g [0..<n]) = (if sm_recent_len r < 32 then fst (recent_events c r) else tl (fst (recent_events c r)))"
  proof (cases "sm_recent_len r < 32")
    case False
    then have l: "sm_recent_len r = Suc 31" "n = 31" using assms by (simp_all add: ring_ok_def n_def)
    have "[0..<Suc 31] = [0..<31] @ [31]" by (rule upt_Suc_append) simp
    then show ?thesis using False unfolding recent_events_rev l by (simp only: map_append rev_append) simp
  qed (simp add: recent_events_rev n_def)
  ultimately show ?thesis by simp
qed

text \<open>
  The ring holds the last reports: after any number of them since it was last cleared, the list
  it gives is the reports in their order, cut to the newest 32.
\<close>

theorem recent_events_exact:
  assumes "length (sm_recent r) = 32" "sm_recent_len r = 0" "sm_recent_head r = 0"
  shows "fst (recent_events c (fold sm_record evs r)) = drop (length evs - 32) evs"
proof (induction evs rule: rev_induct)
  case Nil
  then show ?case using assms by (simp add: recent_events_rev)
next
  case (snoc e evs)
  let ?r = "fold sm_record evs r"
  have ok: "ring_ok ?r"
  proof (induction evs rule: rev_induct)
    case Nil
    then show ?case using assms by (simp add: ring_ok_def)
  qed (simp add: ring_ok_record)
  have "sm_recent_len ?r = length (fst (recent_events c ?r))" by (simp add: recent_events_rev)
  then have len: "sm_recent_len ?r = min (length evs) 32" using snoc by simp
  show ?case
  proof (cases "length evs < 32")
    case True
    then show ?thesis using recent_record [OF ok, of c e] snoc len by simp
  next
    case False
    then have "Suc (length evs) - 32 = Suc (length evs - 32)" by simp
    then have "tl (drop (length evs - 32) evs) = drop (Suc (length evs) - 32) evs"
      by (simp only: drop_Suc tl_drop)
    then show ?thesis using recent_record [OF ok, of c e] snoc len False by simp
  qed
qed

definition sm_key_code :: "int \<Rightarrow> bool \<Rightarrow> 32 word" where
  "sm_key_code button release = 0x10FF0000 + (if release then 0x100 else 0) + word_of_int button"

text \<open>The code of the event a report is stored as; \<open>None\<close>: the report stores no event.\<close>

definition sm_store_button :: "int \<Rightarrow> bool \<Rightarrow> bool \<Rightarrow> 32 word option" where
  "sm_store_button button press frame_live =
     (if button < 0 \<or> button > 0xFF \<or> \<not> frame_live then None else Some (sm_key_code button (\<not> press)))"

lemma sm_key_code_unat:
  assumes "0 \<le> b" "b \<le> 255"
  shows "unat (sm_key_code b r) = 0x10FF0000 + (if r then 256 else 0) + nat b"
proof -
  have b: "unat (word_of_int b :: 32 word) = nat b"
    using assms by (simp add: unat_eq_nat_uint uint_word_of_int)
  have "unat ((0x10FF0000 :: 32 word) + (if r then 0x100 else 0) + word_of_int b) = unat (0x10FF0000 + (if r then 0x100 else 0) :: 32 word) + nat b"
    using assms b by (subst unat_add_lem [THEN iffD1]) (auto split: if_splits)
  then show ?thesis unfolding sm_key_code_def by (cases r) simp_all
qed

text \<open>No two buttons, and no press and release, are stored as the same event.\<close>

theorem sm_key_code_injective:
  assumes "sm_store_button b p f = Some c" "sm_store_button b' p' f' = Some c"
  shows "b = b' \<and> p = p'"
proof -
  have r: "0 \<le> b" "b \<le> 255" "0 \<le> b'" "b' \<le> 255" "c = sm_key_code b (\<not> p)" "c = sm_key_code b' (\<not> p')"
    using assms by (auto simp: sm_store_button_def split: if_splits)
  then have "unat (sm_key_code b (\<not> p)) = unat (sm_key_code b' (\<not> p'))" by simp
  then have "(if p then 0 else 256) + nat b = (if p' then 0 else 256) + nat b'"
    using sm_key_code_unat [OF r(1,2), of "\<not> p"] sm_key_code_unat [OF r(3,4), of "\<not> p'"] by auto
  moreover have "nat b < 256" "nat b' < 256" using r by auto
  ultimately show ?thesis using r(1-4) by (auto split: if_splits)
qed

end
