(* ===== verification/Spacemouse_Input.thy ===== *)
theory Spacemouse_Input
  imports Spacemouse C_Float
begin

text \<open>
  What a report does once it has arrived: the shaping of the axes of \<^verbatim>\<open>cmacs-spacemouse-proto.c\<close>, and of
  \<^verbatim>\<open>cmacs-spacemouse-defuns.c\<close> the choice of a camera, the handler, and the Lisp primitives. The cameras
  belong to other parts; what they answer, the clock, the selected window and the frame are an
  argument, and the cameras asked are kept in the order of asking. Float arithmetic is the host's.
\<close>

unbundle bit_operations_syntax

section \<open>Shaping\<close>

record spnav_shape =
  sensitivity :: "32 word"
  translation_scale :: "32 word"
  rotation_scale :: "32 word"
  deadzone :: "32 word"
  full_scale :: "32 word"
  inverted :: "32 word"
  dominant :: bool

abbreviation (input) f_1 :: "32 word" where "f_1 \<equiv> 0x3F800000"
abbreviation (input) f_minus_1 :: "32 word" where "f_minus_1 \<equiv> 0xBF800000"
abbreviation (input) f_095 :: "32 word" where "f_095 \<equiv> 0x3F733333"

definition shape_defaults :: spnav_shape where
  "shape_defaults = \<lparr>sensitivity = f_1, translation_scale = f_1, rotation_scale = f_1, deadzone = 0x3D75C28F,
     full_scale = 0x43AF0000, inverted = 0, dominant = False\<rparr>"

definition effective_deadzone :: "spnav_shape \<Rightarrow> 32 word" where
  "effective_deadzone sh =
     (if float_lt (deadzone sh) 0 then 0 else if float_lt f_095 (deadzone sh) then f_095 else deadzone sh)"

definition deflection :: "fpu \<Rightarrow> spnav_shape \<Rightarrow> 32 word \<Rightarrow> 32 word" where
  "deflection F sh raw =
     (let a = f_div F (f_of_int F (sint raw)) (if float_lt f_1 (full_scale sh) then full_scale sh else f_1)
      in if float_lt f_1 a then f_1 else if float_lt a f_minus_1 then f_minus_1 else a)"

definition shape_axis :: "fpu \<Rightarrow> spnav_shape \<Rightarrow> nat \<Rightarrow> 32 word \<Rightarrow> 32 word" where
  "shape_axis F sh i raw =
     (let dz = effective_deadzone sh; a = deflection F sh raw; m = fabsf a;
          v = (if float_le m dz then 0
               else f_div F (f_mul F (if float_lt 0 a then f_1 else f_minus_1) (f_sub F m dz)) (f_sub F f_1 dz))
      in if bit (inverted sh) i \<and> float_nonzero v then float_neg v else v)"

text \<open>The loop's \<^verbatim>\<open>big\<close>: the first of the axes of greatest magnitude, none when all are at rest.\<close>

definition bigger_axis :: "32 word list \<Rightarrow> nat \<Rightarrow> nat option \<Rightarrow> nat option" where
  "bigger_axis vs i big =
     (if float_nonzero (vs ! i) \<and> (case big of None \<Rightarrow> True | Some j \<Rightarrow> float_lt (fabsf (vs ! j)) (fabsf (vs ! i)))
      then Some i else big)"

definition big_axis :: "32 word list \<Rightarrow> nat option" where
  "big_axis vs = fold (bigger_axis vs) [0..<6] None"

definition shape_axes :: "fpu \<Rightarrow> spnav_shape \<Rightarrow> 32 word list \<Rightarrow> 32 word list" where
  "shape_axes F sh raw =
     (let vs = map (\<lambda>i. shape_axis F sh i (raw ! i)) [0..<6]
      in if dominant sh then map (\<lambda>i. if big_axis vs = Some i then vs ! i else 0) [0..<6] else vs)"

definition spnav_shape_event :: "fpu \<Rightarrow> spnav_shape \<Rightarrow> 32 word list \<Rightarrow> 32 word list" where
  "spnav_shape_event F sh raw =
     (let v = shape_axes F sh raw;
          moved = [v ! 0, v ! 1, if float_nonzero (v ! 2) then float_neg (v ! 2) else 0];
          turned = [v ! 3, v ! 4, v ! 5]
      in map (\<lambda>x. f_mul F x (f_mul F (sensitivity sh) (translation_scale sh))) moved @
         map (\<lambda>x. f_mul F x (f_mul F (sensitivity sh) (rotation_scale sh))) turned)"

section \<open>Cameras\<close>

datatype camera = CamScene nat | CamVr | CamFrame

record sm_env =
  have_libregnum :: bool
  have_lrgvr :: bool
  have_lrgterm :: bool
  selected_buffer :: "nat option"
  buffer_live :: "nat \<Rightarrow> bool"
  frame_live :: bool
  frame_lrg :: bool
  now_us :: int
  takes_motion :: "camera \<Rightarrow> 32 word list \<Rightarrow> 32 word \<Rightarrow> bool"

text \<open>The name of the first camera that takes the motion, and the cameras that were asked.\<close>

fun ask_cameras :: "(camera \<Rightarrow> bool) \<Rightarrow> (camera \<times> string) list \<Rightarrow> string option \<times> camera list" where
  "ask_cameras takes [] = (None, [])"
| "ask_cameras takes ((c, name) # cs) =
     (if takes c then (Some name, [c]) else (case ask_cameras takes cs of (r, asked) \<Rightarrow> (r, c # asked)))"

definition sm_apply_motion :: "sm_env \<Rightarrow> lisp \<Rightarrow> 32 word list \<Rightarrow> 32 word \<Rightarrow> string option \<times> camera list" where
  "sm_apply_motion E target out dt =
     (if \<not> list_ex float_nonzero out \<or> target = LSym ''none'' then (None, [])
      else
        let takes = (\<lambda>c. takes_motion E c out dt) in
        case target of
          LBuf b \<Rightarrow> ask_cameras takes (if have_libregnum E \<and> buffer_live E b then [(CamScene b, ''buffer'')] else [])
        | _ \<Rightarrow> ask_cameras takes
            ((if have_lrgvr E then [(CamVr, ''vr'')] else []) @
             (case selected_buffer E of
                Some b \<Rightarrow> if have_libregnum E then [(CamScene b, ''libregnum'')] else []
              | None \<Rightarrow> []) @
             (if have_lrgterm E \<and> frame_live E \<and> frame_lrg E then [(CamFrame, ''lrgterm'')] else [])))"

section \<open>The handler\<close>

record sm_state =
  sm_shape :: spnav_shape
  sm_target :: lisp
  sm_releases :: bool
  sm_motion_count :: "64 word"
  sm_button_count :: "64 word"
  sm_last_target :: "string option"
  sm_last_motion_us :: int
  sm_reports :: "spnav_event sm_ring"
  sm_keys :: "32 word list"
  sm_asked :: "(camera \<times> 32 word list \<times> 32 word) list"

text \<open>The time a report covers; \<^verbatim>\<open>1/60\<close>, \<^verbatim>\<open>0.1\<close>, \<^verbatim>\<open>1000\<close> and \<^verbatim>\<open>1e6\<close> are the compiler's constants.\<close>

definition sm_report_dt :: "fpu \<Rightarrow> int \<Rightarrow> 32 word \<Rightarrow> int \<Rightarrow> 32 word" where
  "sm_report_dt F now period prev =
     (let dt = (if period > 0 then f_div F (f_of_int F (uint period)) 0x447A0000
                else if prev > 0 then f_div F (f_of_int F (to_gint64 (now - prev))) 0x49742400
                else 0x3C888889)
      in if float_le dt 0 \<or> float_lt 0x3DCCCCCD dt then 0x3C888889 else dt)"

definition sm_handle :: "fpu \<Rightarrow> sm_env \<Rightarrow> spnav_event \<Rightarrow> sm_state \<Rightarrow> sm_state" where
  "sm_handle F E ev st =
     (let st = st\<lparr>sm_reports := sm_record ev (sm_reports st)\<rparr> in
      case ev_kind ev of
        SPNAV_MOTION \<Rightarrow>
          (let out = spnav_shape_event F (sm_shape st) (ev_axis ev);
               dt = sm_report_dt F (now_us E) (ev_period_ms ev) (sm_last_motion_us st)
           in case sm_apply_motion E (sm_target st) out dt of (name, asked) \<Rightarrow>
                st\<lparr>sm_motion_count := sm_motion_count st + 1, sm_last_motion_us := now_us E, sm_last_target := name,
                   sm_asked := sm_asked st @ map (\<lambda>c. (c, out, dt)) asked\<rparr>)
      | SPNAV_BUTTON \<Rightarrow>
          (let st = st\<lparr>sm_button_count := sm_button_count st + 1\<rparr> in
           if ev_press ev \<or> sm_releases st
           then (case sm_store_button (sint (ev_button ev)) (ev_press ev) (frame_live E) of
                   None \<Rightarrow> st
                 | Some code \<Rightarrow> st\<lparr>sm_keys := sm_keys st @ [code]\<rparr>)
           else st)
      | SPNAV_NONE \<Rightarrow> st)"

definition sm_init :: sm_state where
  "sm_init = \<lparr>sm_shape = shape_defaults, sm_target = LSym ''auto'', sm_releases = False, sm_motion_count = 0,
     sm_button_count = 0, sm_last_target = None, sm_last_motion_us = 0,
     sm_reports = \<lparr>sm_recent = replicate SPACEMOUSE_RECENT no_event, sm_recent_head = 0, sm_recent_len = 0\<rparr>,
     sm_keys = [], sm_asked = []\<rparr>"

section \<open>The primitives\<close>

text \<open>\<open>expand\<close> is \<^verbatim>\<open>expand-file-name\<close> and the encoding of file names.\<close>

definition Fspacemouse_start ::
  "conn_env \<Rightarrow> (string \<Rightarrow> string) \<Rightarrow> lisp \<Rightarrow> lisp \<Rightarrow> spnav_conn \<Rightarrow> (lisp \<times> spnav_conn) lisp_result" where
  "Fspacemouse_start E expand socket no_retry c =
     rbind (if socket = Qnil then Inr None else rbind (CHECK_STRING socket) (\<lambda>s. Inr (Some (SSDATA (expand s))))) (\<lambda>p.
       case conn_start E p (no_retry = Qnil) c of (ok, c) \<Rightarrow> Inr (lbool ok, c))"

definition or_nil :: "('a \<Rightarrow> lisp) \<Rightarrow> 'a option \<Rightarrow> lisp" where
  "or_nil f x = (case x of None \<Rightarrow> Qnil | Some y \<Rightarrow> f y)"

definition Fspacemouse_status :: "spnav_conn \<Rightarrow> sm_state \<Rightarrow> lisp" where
  "Fspacemouse_status c st = plist
     [('':enabled'', lbool (enabled c)), ('':connected'', lbool (fd c \<noteq> None)),
      ('':backend'', or_nil LStr (conn_backend c)), ('':socket'', or_nil LStr (conn_socket c)),
      ('':attempts'', LFix (uint (attempts c))),
      ('':motion-events'', LFix (uint (sm_motion_count st))), ('':button-events'', LFix (uint (sm_button_count st))),
      ('':target'', sm_target st), ('':last-target'', or_nil LSym (sm_last_target st))]"

definition Fspacemouse_set_target :: "lisp \<Rightarrow> sm_state \<Rightarrow> (lisp \<times> sm_state) lisp_result" where
  "Fspacemouse_set_target target st =
     (if target \<noteq> LSym ''auto'' \<and> target \<noteq> LSym ''none'' \<and> \<not> (case target of LBuf b \<Rightarrow> True | _ \<Rightarrow> False)
      then Inl (WrongTypeArgument ''cmacs-spacemouse-target-p'' target)
      else Inr (target, st\<lparr>sm_target := target\<rparr>))"

definition sm_check_button :: "lisp \<Rightarrow> int lisp_result" where
  "sm_check_button button = rbind (CHECK_FIXNAT button) (\<lambda>n.
     if n > 0xFF then Inl (ArgsOutOfRange button (LFix 0xFF)) else Inr n)"

definition axis_names :: "string list" where
  "axis_names = [''tx'', ''ty'', ''tz'', ''rx'', ''ry'', ''rz'']"

definition sm_axis_bit :: "lisp \<Rightarrow> 32 word lisp_result" where
  "sm_axis_bit x = rbind (CHECK_SYMBOL x) (\<lambda>s.
     case find (\<lambda>i. axis_names ! i = s) [0..<6] of
       Some i \<Rightarrow> Inr (push_bit i 1)
     | None \<Rightarrow> Inl (WrongTypeArgument ''cmacs-spacemouse-axis-p'' x))"

fun invert_bits :: "32 word \<Rightarrow> lisp list \<Rightarrow> 32 word lisp_result" where
  "invert_bits bits [] = Inr bits"
| "invert_bits bits (x # xs) = rbind (sm_axis_bit x) (\<lambda>b. invert_bits (bits OR b) xs)"

definition CHECK_LIST :: "lisp \<Rightarrow> unit lisp_result" where
  "CHECK_LIST x = (case x of LCons a d \<Rightarrow> Inr () | _ \<Rightarrow> if x = Qnil then Inr () else Inl (WrongTypeArgument ''listp'' x))"

abbreviation (input) set_shape :: "sm_state \<Rightarrow> (spnav_shape \<Rightarrow> spnav_shape) \<Rightarrow> sm_state" where
  "set_shape st f \<equiv> st\<lparr>sm_shape := f (sm_shape st)\<rparr>"

text \<open>The options that take a number, which \<^verbatim>\<open>CHECK_NUMBER\<close> has made sure of.\<close>

definition set_number_option :: "fpu \<Rightarrow> string \<Rightarrow> lisp \<Rightarrow> 64 word \<Rightarrow> sm_state \<Rightarrow> sm_state lisp_result" where
  "set_number_option F key v d st =
     (let x = d_to_f F d in
      if key = ''sensitivity'' then Inr (set_shape st (\<lambda>sh. sh\<lparr>sensitivity := x\<rparr>))
      else if key = ''translation-scale'' then Inr (set_shape st (\<lambda>sh. sh\<lparr>translation_scale := x\<rparr>))
      else if key = ''rotation-scale'' then Inr (set_shape st (\<lambda>sh. sh\<lparr>rotation_scale := x\<rparr>))
      else if key = ''deadzone''
      then (if d_lt F d 0 \<or> d_lt F 0x3FEE666666666666 d then Inl (ArgsOutOfRange v (LFlo 0x3FEE666666666666))
            else Inr (set_shape st (\<lambda>sh. sh\<lparr>deadzone := x\<rparr>)))
      else if key = ''full-scale''
      then (if d_lt F d 0x3FF0000000000000 then Inl (ArgsOutOfRange v (LFix 1))
            else Inr (set_shape st (\<lambda>sh. sh\<lparr>full_scale := x\<rparr>)))
      else Inl (UserError ''Unknown SpaceMouse option''))"

text \<open>Here the conversion is defined, unlike in the search of an index: the value was checked.\<close>

lemma checked_number: "CHECK_NUMBER v = Inr w \<Longrightarrow> w = v \<and> XFLOATINT F v \<noteq> None"
  by (cases v) auto

definition Fspacemouse_set_option :: "fpu \<Rightarrow> lisp \<Rightarrow> lisp \<Rightarrow> sm_state \<Rightarrow> (lisp \<times> sm_state) lisp_result" where
  "Fspacemouse_set_option F key v st = rbind (CHECK_SYMBOL key) (\<lambda>key.
     if key = ''invert''
     then rbind (CHECK_LIST v) (\<lambda>_. rbind (invert_bits 0 (list_elems v)) (\<lambda>bits.
            Inr (v, set_shape st (\<lambda>sh. sh\<lparr>inverted := bits\<rparr>))))
     else if key = ''dominant'' then Inr (v, set_shape st (\<lambda>sh. sh\<lparr>dominant := (v \<noteq> Qnil)\<rparr>))
     else if key = ''releases'' then Inr (v, st\<lparr>sm_releases := (v \<noteq> Qnil)\<rparr>)
     else rbind (CHECK_NUMBER v) (\<lambda>v.
       rbind (set_number_option F key v (the (XFLOATINT F v)) st) (\<lambda>st. Inr (v, st))))"

definition Fspacemouse_key_code :: "lisp \<Rightarrow> lisp \<Rightarrow> lisp lisp_result" where
  "Fspacemouse_key_code button release =
     rbind (sm_check_button button) (\<lambda>n. Inr (LFix (uint (sm_key_code n (release \<noteq> Qnil)))))"

text \<open>The axes of a motion: \<open>n\<close> fixnums off the list, and the list after them.\<close>

fun take_axes :: "nat \<Rightarrow> lisp \<Rightarrow> (32 word list \<times> lisp) lisp_result" where
  "take_axes 0 args = Inr ([], args)"
| "take_axes (Suc n) args = rbind (CHECK_CONS args) (\<lambda>(a, d). rbind (CHECK_FIXNUM a) (\<lambda>x.
     rbind (take_axes n d) (\<lambda>(xs, rest). Inr (word_of_int x # xs, rest))))"

definition motion_event :: "lisp \<Rightarrow> spnav_event lisp_result" where
  "motion_event args = rbind (take_axes 6 args) (\<lambda>(xs, rest).
     rbind (case rest of LCons p d \<Rightarrow> rbind (CHECK_FIXNAT p) (\<lambda>n. Inr (word_of_int n)) | _ \<Rightarrow> Inr 0) (\<lambda>period.
       Inr (no_event\<lparr>ev_kind := SPNAV_MOTION, ev_axis := xs, ev_period_ms := period\<rparr>)))"

definition button_event :: "(lisp \<Rightarrow> int lisp_result) \<Rightarrow> lisp \<Rightarrow> spnav_event lisp_result" where
  "button_event check args = rbind (CHECK_CONS args) (\<lambda>(a, d). rbind (check a) (\<lambda>n.
     Inr (no_event\<lparr>ev_kind := SPNAV_BUTTON, ev_button := word_of_int n,
                   ev_press := (case d of LCons p e \<Rightarrow> p \<noteq> Qnil | _ \<Rightarrow> False)\<rparr>)))"

definition inject_event :: "lisp \<Rightarrow> spnav_event lisp_result" where
  "inject_event event = rbind (CHECK_CONS event) (\<lambda>(kind, args).
     if kind = LSym ''motion'' then motion_event args
     else if kind = LSym ''button'' then button_event sm_check_button args
     else Inl (UserError ''SpaceMouse event must be (motion ...) or (button ...)''))"

definition Fspacemouse_inject :: "fpu \<Rightarrow> sm_env \<Rightarrow> lisp \<Rightarrow> sm_state \<Rightarrow> (lisp \<times> sm_state) lisp_result" where
  "Fspacemouse_inject F E event st = rbind (inject_event event) (\<lambda>ev.
     let st = sm_handle F E ev (st\<lparr>sm_last_target := None\<rparr>) in Inr (or_nil LSym (sm_last_target st), st))"

definition packet_event :: "lisp \<Rightarrow> spnav_event lisp_result" where
  "packet_event event = rbind (CHECK_CONS event) (\<lambda>(kind, args).
     if kind = LSym ''motion'' then motion_event args else button_event CHECK_FIXNUM args)"

definition Fspacemouse_packet :: "lisp \<Rightarrow> byte list lisp_result" where
  "Fspacemouse_packet event = rbind (packet_event event) (\<lambda>ev. Inr (encode_v0 ev))"

definition Fspacemouse_shape :: "fpu \<Rightarrow> lisp list \<Rightarrow> sm_state \<Rightarrow> lisp lisp_result" where
  "Fspacemouse_shape F args st = rbind (take_axes 6 (llist args)) (\<lambda>(raw, rest).
     Inr (LVec (map (\<lambda>x. LFlo (f_to_d F x)) (spnav_shape_event F (sm_shape st) raw))))"

definition report_item :: "spnav_event \<Rightarrow> lisp" where
  "report_item ev =
     (if ev_kind ev = SPNAV_MOTION
      then llist (LSym ''motion'' # map (\<lambda>x. LFix (sint x)) (ev_axis ev) @ [LFix (uint (ev_period_ms ev))])
      else llist [LSym ''button'', LFix (sint (ev_button ev)), LSym (if ev_press ev then ''press'' else ''release'')])"

definition Fspacemouse_recent_events :: "lisp \<Rightarrow> sm_state \<Rightarrow> lisp \<times> sm_state" where
  "Fspacemouse_recent_events clear st =
     (case recent_events (clear \<noteq> Qnil) (sm_reports st) of (evs, r) \<Rightarrow>
        (llist (map report_item evs), st\<lparr>sm_reports := r\<rparr>))"

section \<open>Injected events and packets\<close>

lemma take_axes_length: "take_axes n args = Inr (xs, rest) \<Longrightarrow> length xs = n"
  by (induction n arbitrary: args xs) (auto simp: rbind_Inr_iff)

lemma motion_event_wire: "motion_event args = Inr ev \<Longrightarrow> wire_event ev"
  by (auto simp: motion_event_def rbind_Inr_iff wire_event_def no_event_def dest: take_axes_length)

lemma sm_check_button_Inr: "sm_check_button x = Inr n \<longleftrightarrow> x = LFix n \<and> 0 \<le> n \<and> n \<le> 255"
  by (cases x) (auto simp: sm_check_button_def rbind_def split: if_splits)

lemma sint_small_int: "0 \<le> n \<Longrightarrow> n \<le> 255 \<Longrightarrow> sint (word_of_int n :: 32 word) = n"
  by (simp add: signed_of_int signed_take_bit_int_eq_self)

lemma inject_event_packet:
  assumes "inject_event event = Inr ev"
  shows "packet_event event = Inr ev \<and> wire_event ev"
proof -
  obtain kind args where e: "event = LCons kind args"
    using assms by (auto simp: inject_event_def rbind_Inr_iff)
  show ?thesis
  proof (cases "kind = LSym ''motion''")
    case True
    then show ?thesis using assms motion_event_wire by (simp add: e inject_event_def packet_event_def)
  next
    case False
    then show ?thesis
      using assms by (auto simp: e inject_event_def packet_event_def button_event_def rbind_Inr_iff sm_check_button_Inr
          wire_event_def no_event_def sint_small_int split: if_splits)
  qed
qed

lemma sm_handle_last_target:
  "sm_handle F E ev (st\<lparr>sm_last_target := x\<rparr>) =
     (sm_handle F E ev st)\<lparr>sm_last_target := if ev_kind ev = SPNAV_MOTION then sm_last_target (sm_handle F E ev st) else x\<rparr>"
  by (cases "ev_kind ev")
    (simp_all add: sm_handle_def Let_def case_prod_beta split: option.splits)

lemma sm_handle_keeps_target:
  "ev_kind ev \<noteq> SPNAV_MOTION \<Longrightarrow> sm_last_target (sm_handle F E ev st) = sm_last_target st"
  by (cases "ev_kind ev") (simp_all add: sm_handle_def Let_def split: option.splits)

text \<open>
  An injected event is handled as the same event from the daemon is. Whatever event is accepted for
  injection, the packet made of it is accepted by the connection as one report, and
  handling that report leaves the state the injection leaves; only the name of what the last
  motion moved, which injection clears first, may be another after a button.
\<close>

theorem inject_as_from_wire:
  assumes "Fspacemouse_inject F E event st = Inr (v, st')" "partial_ok c" "has_handler c" "fill c = 0"
  shows "\<exists>bs ev c'. Fspacemouse_packet event = Inr bs \<and> read_socket [Bytes bs] c = (True, c') \<and>
     delivered c' = delivered c @ [ev] \<and>
     sm_handle F E ev st = st'\<lparr>sm_last_target := if ev_kind ev = SPNAV_MOTION then sm_last_target st' else sm_last_target st\<rparr>"
proof -
  obtain ev where ev: "inject_event event = Inr ev" and st': "st' = sm_handle F E ev (st\<lparr>sm_last_target := None\<rparr>)"
    using assms(1) by (auto simp: Fspacemouse_inject_def rbind_Inr_iff Let_def)
  have p: "packet_event event = Inr ev" and w: "wire_event ev" using inject_event_packet [OF ev] by auto
  have "length (encode_v0 ev) \<noteq> 0" by simp
  then have "encode_v0 ev \<noteq> []" by (metis list.size(3))
  then have "flowing [Bytes (encode_v0 ev)]" by simp
  from read_socket_reports [OF assms(2,3) this] assms(4) packets_encoded [of "[ev]"] reports_encoded [of "[ev]"] w
  obtain c' where "read_socket [Bytes (encode_v0 ev)] c = (True, c')" "delivered c' = delivered c @ [ev]"
    by (auto simp: buffered_def)
  moreover have "sm_handle F E ev st = st'\<lparr>sm_last_target := if ev_kind ev = SPNAV_MOTION then sm_last_target st' else sm_last_target st\<rparr>"
    unfolding st' sm_handle_last_target by (simp add: sm_handle_keeps_target)
  moreover have "Fspacemouse_packet event = Inr (encode_v0 ev)" by (simp add: Fspacemouse_packet_def p)
  ultimately show ?thesis by blast
qed

section \<open>Axes\<close>

text \<open>A report inside the deadzone asks no camera, if zero times the scales is zero.\<close>

theorem rest_moves_nothing:
  assumes "\<And>i. i < 6 \<Longrightarrow> float_le (fabsf (deflection F sh (raw ! i))) (effective_deadzone sh)"
    and "\<not> float_nonzero (f_mul F 0 (f_mul F (sensitivity sh) (translation_scale sh)))"
    and "\<not> float_nonzero (f_mul F 0 (f_mul F (sensitivity sh) (rotation_scale sh)))"
  shows "sm_apply_motion E target (spnav_shape_event F sh raw) dt = (None, [])"
proof -
  have "shape_axis F sh i (raw ! i) = 0" if "i < 6" for i
    using assms(1) [OF that] by (simp add: shape_axis_def Let_def)
  then have "shape_axes F sh raw = map (\<lambda>i. 0) [0..<6]"
    unfolding shape_axes_def Let_def by (auto intro: map_cong)
  then have "shape_axes F sh raw ! i = 0" if "i < 6" for i using that by simp
  then have "\<not> list_ex float_nonzero (spnav_shape_event F sh raw)"
    using assms(2,3) by (simp add: spnav_shape_event_def Let_def)
  then show ?thesis by (simp add: sm_apply_motion_def)
qed

text \<open>The loop's choice: no axis seen so far is stronger, and an axis is chosen once one moves.\<close>

definition strongest :: "32 word list \<Rightarrow> nat \<Rightarrow> nat option \<Rightarrow> bool" where
  "strongest vs n big \<longleftrightarrow>
     (case big of
        None \<Rightarrow> (\<forall>i<n. \<not> float_nonzero (vs ! i))
      | Some j \<Rightarrow> j < n \<and> (\<forall>i<n. float_mag (vs ! i) \<le> float_mag (vs ! j)))"

lemma float_nonzero_mag: "\<not> float_nan b \<Longrightarrow> float_nonzero b \<longleftrightarrow> float_mag b \<noteq> 0"
  by (simp add: float_nonzero_def float_int_def)

lemma big_axis_strongest:
  assumes "\<And>i. i < 6 \<Longrightarrow> \<not> float_nan (vs ! i)"
  shows "strongest vs 6 (big_axis vs)"
proof -
  have "n \<le> 6 \<Longrightarrow> strongest vs n (fold (bigger_axis vs) [0..<n] None)" for n
  proof (induction n)
    case 0
    then show ?case by (simp add: strongest_def)
  next
    case (Suc n)
    define big where "big = fold (bigger_axis vs) [0..<n] None"
    have s: "strongest vs n big" using Suc by (simp add: big_def)
    have nan: "\<And>i. i < Suc n \<Longrightarrow> \<not> float_nan (vs ! i)" using assms Suc.prems by simp
    have "strongest vs (Suc n) (bigger_axis vs n big)"
      using s nan by (cases big)
        (force simp: bigger_axis_def strongest_def less_Suc_eq float_nonzero_mag float_lt_def)+
    then show ?case by (simp add: big_def)
  qed
  then show ?thesis by (simp add: big_axis_def)
qed

text \<open>
  With the dominant-axis option one axis passes at most, and none is stronger than it.
\<close>

theorem dominant_axis_passes:
  assumes "dominant sh" "\<And>i. i < 6 \<Longrightarrow> \<not> float_nan (shape_axis F sh i (raw ! i))"
    and "i < 6" "float_nonzero (shape_axes F sh raw ! i)" "j < 6"
  shows "shape_axes F sh raw ! i = shape_axis F sh i (raw ! i) \<and>
     float_mag (shape_axis F sh j (raw ! j)) \<le> float_mag (shape_axis F sh i (raw ! i)) \<and>
     (j \<noteq> i \<longrightarrow> shape_axes F sh raw ! j = 0)"
proof -
  let ?vs = "map (\<lambda>i. shape_axis F sh i (raw ! i)) [0..<6]"
  have v: "k < 6 \<Longrightarrow> ?vs ! k = shape_axis F sh k (raw ! k)" for k by simp
  have a: "k < 6 \<Longrightarrow> shape_axes F sh raw ! k = (if big_axis ?vs = Some k then shape_axis F sh k (raw ! k) else 0)" for k
    using assms(1) by (simp add: shape_axes_def Let_def)
  have b: "big_axis ?vs = Some i" using assms(3,4) a [of i] by (auto split: if_splits)
  have "strongest ?vs 6 (big_axis ?vs)" using assms(2) by (intro big_axis_strongest) simp
  then show ?thesis using a b v assms(3,5) by (auto simp: strongest_def)
qed

text \<open>
  A deadzone that is not a number is let in: neither bound of \<^verbatim>\<open>set-option\<close> nor the clamp of the shaping
  refuses a NaN, since each only asks whether the value is beyond it. From then on every report, also
  of a cap at rest, comes out as six NaNs, which count as a motion.
\<close>

theorem nan_deadzone_accepted:
  assumes "\<not> d_lt F d 0" "\<not> d_lt F 0x3FEE666666666666 d" "float_nan (d_to_f F d)" "\<not> dominant (sm_shape st)"
    and "\<And>a b. float_nan a \<or> float_nan b \<Longrightarrow> float_nan (f_sub F a b) \<and> float_nan (f_mul F a b) \<and> float_nan (f_div F a b)"
  shows "\<exists>st'. Fspacemouse_set_option F (LSym ''deadzone'') (LFlo d) st = Inr (LFlo d, st') \<and>
     (\<forall>raw. list_all float_nan (spnav_shape_event F (sm_shape st') raw))"
proof -
  let ?st = "st\<lparr>sm_shape := (sm_shape st)\<lparr>deadzone := d_to_f F d\<rparr>\<rparr>"
  have "Fspacemouse_set_option F (LSym ''deadzone'') (LFlo d) st = Inr (LFlo d, ?st)"
    using assms(1,2) by (simp add: Fspacemouse_set_option_def set_number_option_def Let_def)
  moreover have "list_all float_nan (spnav_shape_event F (sm_shape ?st) raw)" for raw
  proof -
    have dz: "float_nan (effective_deadzone (sm_shape ?st))"
      using assms(3) by (simp add: effective_deadzone_def float_lt_def)
    have ax: "float_nan (shape_axis F (sm_shape ?st) i (raw ! i))" for i
      using dz assms(5) by (simp add: shape_axis_def Let_def float_le_def)
    have "shape_axes F (sm_shape ?st) raw = map (\<lambda>i. shape_axis F (sm_shape ?st) i (raw ! i)) [0..<6]"
      using assms(4) by (simp add: shape_axes_def Let_def)
    then have v: "i < 6 \<Longrightarrow> float_nan (shape_axes F (sm_shape ?st) raw ! i)" for i using ax by simp
    then show ?thesis
      using assms(5) by (simp add: spnav_shape_event_def Let_def float_nonzero_def)
  qed
  ultimately show ?thesis by blast
qed

text \<open>The time a report covers is positive and at most a tenth of a second, if it is a number at all.\<close>

lemma sm_report_dt_bounded:
  "float_nan (sm_report_dt F now period prev) \<or>
   float_lt 0 (sm_report_dt F now period prev) \<and> float_le (sm_report_dt F now period prev) 0x3DCCCCCD"
proof -
  have c: "\<not> float_nan 0x3C888889" "\<not> float_nan 0x3DCCCCCD" "float_lt 0 0x3C888889" "float_le 0x3C888889 0x3DCCCCCD"
    by (simp_all add: float_nan_def float_lt_def float_le_def float_int_def float_mag_def float_exp_def float_mant_def float_sign_def)
  show ?thesis
    unfolding sm_report_dt_def Let_def using c
    by (auto simp: float_lt_def float_le_def)
qed

end
