(* ===== verification/Ctl_Tunnel.thy ===== *)
theory Ctl_Tunnel
  imports Json_Glib GHash C_Bytes "HOL-Library.Sublist"
begin

text \<open>
  The remote side of emacsctl under \<^verbatim>\<open>src/cmacs/emacsctl\<close>: length-prefixed JSON frames
  (\<^verbatim>\<open>ctl-frame.c\<close>), the client that carries D-Bus calls and signals over an ssh pipe
  (\<^verbatim>\<open>ctl-transport-ssh.c\<close>) and the proxy that answers at the other end (\<^verbatim>\<open>ctl-proxy.c\<close>).

  A stream that is read is the string of bytes still to come, up to its end, together with
  whether it ends in an I/O error; a stream that is written is the string written so far, and a write
  comes with what becomes of it: taken whole, or failed after some of its bytes. JSON, GVariant
  and the bus are the work of libraries and come in as records of functions; \<open>gvariant_ok\<close> says that a
  value serialised with its type string is read back.
\<close>

unbundle bit_operations_syntax

section \<open>Frames\<close>

datatype frame_error =
    ReadFailed
  | TruncatedHeader nat
  | ImplausibleLength "32 word"
  | TruncatedPayload nat "32 word"
  | ParseFailed
  | NotAnObject

datatype frame_result = FrameEof | FrameError frame_error | Frame json_object

definition byte_of :: "char \<Rightarrow> 32 word" where
  "byte_of c = of_nat (of_char c)"

definition header_length :: "string \<Rightarrow> 32 word" where
  "header_length h = push_bit 24 (byte_of (h ! 0)) OR push_bit 16 (byte_of (h ! 1)) OR
     push_bit 8 (byte_of (h ! 2)) OR byte_of (h ! 3)"

text \<open>\<open>bad\<close>: the stream ends in an I/O error and not in an end of file.\<close>

definition ctl_frame_read :: "json_glib \<Rightarrow> bool \<Rightarrow> string \<Rightarrow> frame_result \<times> string" where
  "ctl_frame_read J bad inp =
     (if length inp < 4 \<and> bad then (FrameError ReadFailed, [])
      else if inp = [] then (FrameEof, [])
      else if length inp < 4 then (FrameError (TruncatedHeader (length inp)), [])
      else
        let len = header_length (take 4 inp); rest = drop 4 inp in
        if len = 0 \<or> len > push_bit 20 64 then (FrameError (ImplausibleLength len), rest)
        else if length rest < unat len
        then (FrameError (if bad then ReadFailed else TruncatedPayload (length rest) len), [])
        else
          let payload = take (unat len) rest; rest = drop (unat len) rest in
          case jg_load J payload of
            None \<Rightarrow> (FrameError ParseFailed, rest)
          | Some root \<Rightarrow>
              (case root of
                 Some (JObject ms) \<Rightarrow> (Frame ms, rest)
               | _ \<Rightarrow> (FrameError NotAnObject, rest)))"

text \<open>The header takes the low 32 bits of the length; nothing bounds it.\<close>

definition ctl_length_header :: "nat \<Rightarrow> string" where
  "ctl_length_header len = map (\<lambda>i. char_of (len div 2 ^ i mod 256)) [24, 16, 8, 0]"

definition frame_bytes :: "json_glib \<Rightarrow> json_object \<Rightarrow> string" where
  "frame_bytes J frame = (let data = jg_to_string J (JObject frame) in ctl_length_header (length data) @ data)"

text \<open>
  What becomes of a write: \<open>None\<close> when the stream takes all of it, \<open>Some n\<close> when it fails with the first \<open>n\<close> bytes
  written (all of them, when it is the flush that fails).
\<close>

type_synonym write_fate = "nat option"

definition ctl_frame_write :: "json_glib \<Rightarrow> write_fate \<Rightarrow> json_object \<Rightarrow> string \<Rightarrow> bool \<times> string" where
  "ctl_frame_write J w frame out =
     (case w of
        None \<Rightarrow> (True, out @ frame_bytes J frame)
      | Some n \<Rightarrow> (False, out @ take n (frame_bytes J frame)))"

definition set_string :: "string \<Rightarrow> string \<Rightarrow> json_object \<Rightarrow> json_object" where
  "set_string k v obj = json_object_set_member k (JString v) obj"

definition set_int :: "string \<Rightarrow> int \<Rightarrow> json_object \<Rightarrow> json_object" where
  "set_int k v obj = json_object_set_member k (JInt v) obj"

definition ctl_frame_new :: "string \<Rightarrow> json_object" where
  "ctl_frame_new type = set_string ''type'' type []"

definition CTL_FRAME_PROTO :: int where
  "CTL_FRAME_PROTO = 1"

definition ctl_frame_new_hello :: "string \<Rightarrow> json_object" where
  "ctl_frame_new_hello ver = set_string ''version'' ver (set_int ''proto'' CTL_FRAME_PROTO (ctl_frame_new ''hello''))"

text \<open>The members read with a default for a missing or unsuitable one.\<close>

definition get_int :: "json_glib \<Rightarrow> json_object \<Rightarrow> string \<Rightarrow> int \<Rightarrow> int" where
  "get_int J obj k d = (case map_of obj k of None \<Rightarrow> d | Some v \<Rightarrow> if json_scalar v then jg_int J v else d)"

definition get_string :: "json_glib \<Rightarrow> json_object \<Rightarrow> string \<Rightarrow> string \<Rightarrow> string" where
  "get_string J obj k d = (case json_get_string_member_default_null J obj k of None \<Rightarrow> d | Some s \<Rightarrow> s)"

record 'v gvariant =
  gv_serialize :: "'v \<Rightarrow> json"
  gv_type :: "'v \<Rightarrow> string"
  gv_deserialize :: "json \<Rightarrow> string option \<Rightarrow> string + 'v"

definition ctl_frame_set_variant :: "'v gvariant \<Rightarrow> json_object \<Rightarrow> string \<Rightarrow> 'v option \<Rightarrow> json_object" where
  "ctl_frame_set_variant G frame k v =
     (case v of
        None \<Rightarrow> frame
      | Some v \<Rightarrow> set_string (k @ ''_sig'') (gv_type G v) (json_object_set_member k (gv_serialize G v) frame))"

definition ctl_frame_get_variant :: "json_glib \<Rightarrow> 'v gvariant \<Rightarrow> json_object \<Rightarrow> string \<Rightarrow> string + 'v option" where
  "ctl_frame_get_variant J G frame k =
     (case map_of frame k of
        None \<Rightarrow> Inr None
      | Some node \<Rightarrow>
          map_sum (\<lambda>e. e) Some (gv_deserialize G node (json_get_string_member_default_null J frame (k @ ''_sig''))))"

section \<open>The client\<close>

datatype ctl_error =
    CTL_ERROR_FAILED string
  | CTL_ERROR_UNSUPPORTED string
  | FrameFailed frame_error
  | VariantFailed string
  | WriteFailed

record 'v ssh_transport =
  st_next_id :: int
  st_subscriptions :: "(32 word, unit) ghash"
  st_next_sub_id :: "32 word"
  st_closed :: bool
  st_read_source :: bool
  st_emitted :: nat
  st_to_proxy :: string
  st_callbacks :: "(32 word \<times> string \<times> string \<times> 'v option) list"

definition ssh_mark_closed :: "'v ssh_transport \<Rightarrow> 'v ssh_transport" where
  "ssh_mark_closed c = (if st_closed c then c else c\<lparr>st_closed := True, st_emitted := st_emitted c + 1\<rparr>)"

definition ssh_dispatch_signal :: "json_glib \<Rightarrow> 'v gvariant \<Rightarrow> json_object \<Rightarrow> 'v ssh_transport \<Rightarrow> 'v ssh_transport" where
  "ssh_dispatch_signal J G frame c =
     (let sub = word_of_int (get_int J frame ''sub'' 0) in
      if \<not> gh_contains (st_subscriptions c) sub then c
      else
        let args = (case ctl_frame_get_variant J G frame ''args'' of Inl e \<Rightarrow> None | Inr v \<Rightarrow> v) in
        c\<lparr>st_callbacks := st_callbacks c @ [(sub, get_string J frame ''iface'' [], get_string J frame ''signal'' [], args)]\<rparr>)"

lemma ctl_frame_read_shrinks: "fst (ctl_frame_read J bad inp) = Frame ms \<Longrightarrow> length (snd (ctl_frame_read J bad inp)) < length inp"
  by (auto simp: ctl_frame_read_def Let_def split: if_splits option.splits json.splits)

function ssh_read_until_reply ::
  "json_glib \<Rightarrow> 'v gvariant \<Rightarrow> bool \<Rightarrow> int \<Rightarrow> string \<Rightarrow> 'v ssh_transport \<Rightarrow>
     (ctl_error + json_object) \<times> string \<times> 'v ssh_transport" where
  "ssh_read_until_reply J G bad call_id inp c =
     (case fst (ctl_frame_read J bad inp) of
        FrameEof \<Rightarrow> (Inl (CTL_ERROR_FAILED ''ssh proxy closed the connection''), snd (ctl_frame_read J bad inp), ssh_mark_closed c)
      | FrameError e \<Rightarrow> (Inl (FrameFailed e), snd (ctl_frame_read J bad inp), c)
      | Frame frame \<Rightarrow>
          if get_string J frame ''type'' [] = ''signal''
          then ssh_read_until_reply J G bad call_id (snd (ctl_frame_read J bad inp)) (ssh_dispatch_signal J G frame c)
          else if (get_string J frame ''type'' [] = ''reply'' \<or> get_string J frame ''type'' [] = ''error'') \<and>
             get_int J frame ''id'' (- 1) = call_id
          then (Inr frame, snd (ctl_frame_read J bad inp), c)
          else ssh_read_until_reply J G bad call_id (snd (ctl_frame_read J bad inp)) c)"
  by pat_completeness auto

termination
  by (relation "measure (\<lambda>(_, _, _, _, inp, _). length inp)") (auto simp: ctl_frame_read_shrinks)

declare ssh_read_until_reply.simps [simp del]

definition call_frame :: "'v gvariant \<Rightarrow> int \<Rightarrow> string \<Rightarrow> string \<Rightarrow> 'v option \<Rightarrow> int \<Rightarrow> json_object" where
  "call_frame G i iface meth params timeout_ms =
     (let frame = set_string ''method'' meth (set_string ''iface'' iface (set_int ''id'' i (ctl_frame_new ''call'')));
          frame = (if timeout_ms > 0 then set_int ''timeout_ms'' timeout_ms frame else frame)
      in ctl_frame_set_variant G frame ''params'' params)"

text \<open>\<^verbatim>\<open>strstr (s, t) != NULL\<close>\<close>

definition contains :: "string \<Rightarrow> string \<Rightarrow> bool" where
  "contains s t \<longleftrightarrow> list_ex (\<lambda>i. take (length t) (drop i s) = t) [0..<Suc (length s)]"

definition remote_error :: "string \<Rightarrow> string \<Rightarrow> ctl_error" where
  "remote_error name message =
     (if contains name ''UnknownInterface'' \<or> contains name ''UnknownMethod''
      then CTL_ERROR_UNSUPPORTED (name @ '': '' @ message) else CTL_ERROR_FAILED (name @ '': '' @ message))"

text \<open>
  A call: \<open>w\<close> what becomes of the write of its frame, \<open>inp\<close> what the proxy sends from then on. A result
  of \<open>Inr None\<close> is \<^verbatim>\<open>NULL\<close> without an error.
\<close>

definition ssh_call ::
  "json_glib \<Rightarrow> 'v gvariant \<Rightarrow> write_fate \<Rightarrow> bool \<Rightarrow> string \<Rightarrow> string \<Rightarrow> string \<Rightarrow> 'v option \<Rightarrow> int \<Rightarrow> 'v ssh_transport \<Rightarrow>
     (ctl_error + 'v option) \<times> string \<times> 'v ssh_transport" where
  "ssh_call J G w bad inp iface meth params timeout_ms c =
     (if st_closed c then (Inl (CTL_ERROR_FAILED ''ssh transport is closed''), inp, c)
      else
        let i = st_next_id c; c = c\<lparr>st_next_id := to_gint64 (i + 1)\<rparr> in
        case ctl_frame_write J w (call_frame G i iface meth params timeout_ms) (st_to_proxy c) of (written, out) \<Rightarrow>
          if \<not> written then (Inl WriteFailed, inp, ssh_mark_closed (c\<lparr>st_to_proxy := out\<rparr>))
          else
            case ssh_read_until_reply J G bad i inp (c\<lparr>st_to_proxy := out\<rparr>) of (r, inp, c) \<Rightarrow>
              (case r of
                 Inl e \<Rightarrow> (Inl e, inp, c)
               | Inr reply \<Rightarrow>
                   if get_string J reply ''type'' [] = ''error''
                   then (Inl (remote_error (get_string J reply ''name'' ''org.cmacs.Error'')
                                (get_string J reply ''message'' ''remote error'')), inp, c)
                   else (map_sum VariantFailed (\<lambda>v. v) (ctl_frame_get_variant J G reply ''result''), inp, c)))"

text \<open>The source that reads signals while a main loop runs; the pipe of a process can be polled.\<close>

definition ssh_ensure_read_source :: "'v ssh_transport \<Rightarrow> 'v ssh_transport" where
  "ssh_ensure_read_source c = (if st_read_source c \<or> st_closed c then c else c\<lparr>st_read_source := True\<rparr>)"

definition ssh_subscribe ::
  "json_glib \<Rightarrow> write_fate \<Rightarrow> string \<Rightarrow> string \<Rightarrow> 'v ssh_transport \<Rightarrow> 32 word \<times> 'v ssh_transport" where
  "ssh_subscribe J w iface signal_name c =
     (let sub = st_next_sub_id c + 1;
          frame = set_string ''signal'' signal_name (set_string ''iface'' iface (set_int ''id'' (uint sub) (ctl_frame_new ''subscribe'')))
      in (sub, ssh_ensure_read_source (c\<lparr>st_next_sub_id := sub, st_subscriptions := gh_replace sub () (st_subscriptions c),
                 st_to_proxy := snd (ctl_frame_write J w frame (st_to_proxy c))\<rparr>)))"

definition ssh_unsubscribe :: "json_glib \<Rightarrow> write_fate \<Rightarrow> 32 word \<Rightarrow> 'v ssh_transport \<Rightarrow> 'v ssh_transport" where
  "ssh_unsubscribe J w sub c =
     (if \<not> gh_contains (st_subscriptions c) sub then c
      else c\<lparr>st_subscriptions := gh_remove sub (st_subscriptions c),
             st_to_proxy := snd (ctl_frame_write J w (set_int ''sub'' (uint sub) (ctl_frame_new ''unsubscribe'')) (st_to_proxy c))\<rparr>)"

text \<open>The names in the reply are unpacked by GVariant; \<open>Inr None\<close> is again \<^verbatim>\<open>NULL\<close> without an error.\<close>

definition ssh_list_instances ::
  "json_glib \<Rightarrow> 'v gvariant \<Rightarrow> ('v \<Rightarrow> string list) \<Rightarrow> write_fate \<Rightarrow> bool \<Rightarrow> string \<Rightarrow> 'v ssh_transport \<Rightarrow>
     (ctl_error + string list option) \<times> string \<times> 'v ssh_transport" where
  "ssh_list_instances J G unpack w bad inp c =
     (case ssh_call J G w bad inp ''ctl.proxy'' ''ListInstances'' None (- 1) c of (r, inp, c) \<Rightarrow>
        (map_sum (\<lambda>e. e) (map_option unpack) r, inp, c))"

definition ssh_close :: "'v ssh_transport \<Rightarrow> 'v ssh_transport" where
  "ssh_close c = c\<lparr>st_read_source := False, st_closed := True\<rparr>"

text \<open>The read source of a running main loop: one frame, kept only if it is a signal.\<close>

definition ssh_readable_cb ::
  "json_glib \<Rightarrow> 'v gvariant \<Rightarrow> bool \<Rightarrow> string \<Rightarrow> 'v ssh_transport \<Rightarrow> bool \<times> string \<times> 'v ssh_transport" where
  "ssh_readable_cb J G bad inp c =
     (case ctl_frame_read J bad inp of (r, rest) \<Rightarrow>
        (case r of
           Frame frame \<Rightarrow>
             (True, rest, if get_string J frame ''type'' [] = ''signal'' then ssh_dispatch_signal J G frame c else c)
         | _ \<Rightarrow> (False, rest, ssh_mark_closed c)))"

text \<open>The handshake of \<^verbatim>\<open>ctl_ssh_transport_new\<close> on the pipes of the ssh process.\<close>

definition transport_init :: "'v ssh_transport" where
  "transport_init = \<lparr>st_next_id = 1, st_subscriptions = gh_empty, st_next_sub_id = 0, st_closed = False, st_read_source = False, st_emitted = 0,
     st_to_proxy = [], st_callbacks = []\<rparr>"

definition ssh_handshake ::
  "json_glib \<Rightarrow> string \<Rightarrow> string \<Rightarrow> write_fate \<Rightarrow> bool \<Rightarrow> string \<Rightarrow> (ctl_error + 'v ssh_transport) \<times> string" where
  "ssh_handshake J ver host w bad inp =
     (case ctl_frame_write J w (ctl_frame_new_hello ver) [] of (written, out) \<Rightarrow>
        if \<not> written then (Inl WriteFailed, inp)
        else case ctl_frame_read J bad inp of (r, rest) \<Rightarrow>
          (case r of
             FrameEof \<Rightarrow> (Inl (CTL_ERROR_FAILED (''ssh connection to '' @ host @
               '' failed before handshake (is emacsctl installed remotely?)'')), rest)
           | FrameError e \<Rightarrow> (Inl (FrameFailed e), rest)
           | Frame hello \<Rightarrow>
               if get_int J hello ''proto'' 0 \<noteq> CTL_FRAME_PROTO
               then (Inl (CTL_ERROR_FAILED ''proxy protocol mismatch (remote emacsctl too old?)''), rest)
               else (Inr (transport_init\<lparr>st_to_proxy := out\<rparr>), rest)))"

section \<open>The proxy\<close>

text \<open>The bus the proxy calls for the client: its state is \<^typ>\<open>'s\<close>, an error is a remote name, if any, and a message.\<close>

record ('s, 'v) bus =
  bus_call :: "string \<Rightarrow> string \<Rightarrow> 'v option \<Rightarrow> int \<Rightarrow> 's \<Rightarrow> (string option \<times> string + 'v) \<times> 's"
  bus_list_instances :: "'s \<Rightarrow> (string option \<times> string + 'v)"
  bus_subscribe :: "string \<Rightarrow> string \<Rightarrow> 's \<Rightarrow> 32 word \<times> 's"
  bus_unsubscribe :: "32 word \<Rightarrow> 's \<Rightarrow> 's"

text \<open>The fates of the writes to come; once they are used up every write is taken.\<close>

record 's proxy =
  px_writes :: "write_fate list"
  px_out :: string
  px_subscriptions :: "(32 word, 32 word) ghash"
  px_bus :: 's

definition proxy_write :: "json_glib \<Rightarrow> json_object \<Rightarrow> 's proxy \<Rightarrow> bool \<times> 's proxy" where
  "proxy_write J frame p =
     (case ctl_frame_write J (case px_writes p of [] \<Rightarrow> None | w # _ \<Rightarrow> w) frame (px_out p) of (written, out) \<Rightarrow>
        (written, p\<lparr>px_out := out, px_writes := drop 1 (px_writes p)\<rparr>))"

definition signal_frame :: "'v gvariant \<Rightarrow> 32 word \<Rightarrow> string \<Rightarrow> string \<Rightarrow> 'v option \<Rightarrow> json_object" where
  "signal_frame G sub iface name args =
     ctl_frame_set_variant G (set_string ''signal'' name (set_string ''iface'' iface (set_int ''sub'' (uint sub) (ctl_frame_new ''signal'')))) ''args'' args"

definition proxy_forward_signal :: "json_glib \<Rightarrow> 'v gvariant \<Rightarrow> 32 word \<Rightarrow> string \<Rightarrow> string \<Rightarrow> 'v option \<Rightarrow> 's proxy \<Rightarrow> 's proxy" where
  "proxy_forward_signal J G sub iface name args p =
     snd (proxy_write J (signal_frame G sub iface name args) p)"

definition error_frame :: "int \<Rightarrow> string option \<times> string \<Rightarrow> json_object" where
  "error_frame i e = set_string ''message'' (snd e)
     (set_string ''name'' (case fst e of None \<Rightarrow> ''org.cmacs.ctl.Error'' | Some n \<Rightarrow> n) (set_int ''id'' i (ctl_frame_new ''error'')))"

definition reply_frame :: "'v gvariant \<Rightarrow> int \<Rightarrow> 'v \<Rightarrow> json_object" where
  "reply_frame G i v = ctl_frame_set_variant G (set_int ''id'' i (ctl_frame_new ''reply'')) ''result'' (Some v)"

definition proxy_handle_call :: "json_glib \<Rightarrow> 'v gvariant \<Rightarrow> ('s, 'v) bus \<Rightarrow> json_object \<Rightarrow> 's proxy \<Rightarrow> 's proxy" where
  "proxy_handle_call J G B frame p =
     (let i = get_int J frame ''id'' 0;
          iface = get_string J frame ''iface'' [];
          meth = get_string J frame ''method'' [];
          timeout_ms = to_gint (get_int J frame ''timeout_ms'' (- 1));
          (r, s) =
            (if iface = ''ctl.proxy''
             then (if meth = ''ListInstances'' then (bus_list_instances B (px_bus p), px_bus p)
                   else (Inl (None, ''unknown proxy method '' @ [CHR 0x27] @ meth @ [CHR 0x27]), px_bus p))
             else case ctl_frame_get_variant J G frame ''params'' of
                 Inl e \<Rightarrow> (Inl (None, e), px_bus p)
               | Inr params \<Rightarrow> bus_call B iface meth params timeout_ms (px_bus p));
          p = p\<lparr>px_bus := s\<rparr>
      in case r of
          Inl e \<Rightarrow> snd (proxy_write J (error_frame i e) p)
        | Inr v \<Rightarrow> snd (proxy_write J (reply_frame G i v) p))"

definition proxy_handle_subscribe :: "json_glib \<Rightarrow> ('s, 'v) bus \<Rightarrow> json_object \<Rightarrow> 's proxy \<Rightarrow> 's proxy" where
  "proxy_handle_subscribe J B frame p =
     (let client_id = word_of_int (get_int J frame ''id'' 0) in
      case bus_subscribe B (get_string J frame ''iface'' []) (get_string J frame ''signal'' []) (px_bus p) of (t, s) \<Rightarrow>
        p\<lparr>px_bus := s, px_subscriptions := gh_replace client_id t (px_subscriptions p)\<rparr>)"

definition proxy_handle_unsubscribe :: "json_glib \<Rightarrow> ('s, 'v) bus \<Rightarrow> json_object \<Rightarrow> 's proxy \<Rightarrow> 's proxy" where
  "proxy_handle_unsubscribe J B frame p =
     (let client_id = word_of_int (get_int J frame ''sub'' 0) in
      case gh_lookup (px_subscriptions p) client_id of
        None \<Rightarrow> p
      | Some t \<Rightarrow> p\<lparr>px_bus := bus_unsubscribe B t (px_bus p), px_subscriptions := gh_remove client_id (px_subscriptions p)\<rparr>)"

text \<open>One dispatch of the proxy's input: whether it goes on, what is left to read, its state.\<close>

definition proxy_stdin_readable ::
  "json_glib \<Rightarrow> 'v gvariant \<Rightarrow> ('s, 'v) bus \<Rightarrow> bool \<Rightarrow> string \<Rightarrow> 's proxy \<Rightarrow> bool \<times> string \<times> 's proxy" where
  "proxy_stdin_readable J G B bad inp p =
     (case ctl_frame_read J bad inp of (r, rest) \<Rightarrow>
        (case r of
           Frame frame \<Rightarrow>
             (True, rest,
              let type = get_string J frame ''type'' [] in
              if type = ''call'' then proxy_handle_call J G B frame p
              else if type = ''subscribe'' then proxy_handle_subscribe J B frame p
              else if type = ''unsubscribe'' then proxy_handle_unsubscribe J B frame p
              else p)
         | _ \<Rightarrow> (False, rest, p)))"

definition proxy_handshake ::
  "json_glib \<Rightarrow> string \<Rightarrow> bool \<Rightarrow> string \<Rightarrow> 's proxy \<Rightarrow> bool \<times> string \<times> 's proxy" where
  "proxy_handshake J ver bad inp p =
     (case ctl_frame_read J bad inp of (r, rest) \<Rightarrow>
        (case r of
           Frame hello \<Rightarrow> (case proxy_write J (ctl_frame_new_hello ver) p of (written, p) \<Rightarrow> (written, rest, p))
         | _ \<Rightarrow> (False, rest, p)))"

section \<open>A frame is read as it was written\<close>

lemma unat_byte_of: "unat (byte_of c) = of_char c"
proof -
  have "(of_char c :: nat) < 2 ^ 32" by (rule less_trans [OF nat_of_char_less_256]) simp
  then show ?thesis unfolding byte_of_def by (simp add: unat_of_nat)
qed

lemma header_length_unat:
  "unat (header_length h) = of_char (h ! 0) * 2 ^ 24 + of_char (h ! 1) * 2 ^ 16 + of_char (h ! 2) * 2 ^ 8 + of_char (h ! 3)"
proof -
  let ?b = "\<lambda>i. of_char (h ! i) :: nat"
  have lt: "?b i < 256" for i using nat_of_char_less_256 [of "h ! i"] by simp
  have p: "unat (push_bit 24 (byte_of (h ! 0))) = ?b 0 * 2 ^ 24" "unat (push_bit 16 (byte_of (h ! 1))) = ?b 1 * 2 ^ 16"
      "unat (push_bit 8 (byte_of (h ! 2))) = ?b 2 * 2 ^ 8"
  proof -
    have "?b 0 * 2 ^ 24 < 2 ^ 32" "?b 1 * 2 ^ 16 < 2 ^ 32" "?b 2 * 2 ^ 8 < 2 ^ 32"
      by (rule less_le_trans [OF mult_strict_right_mono [OF lt]], simp, simp)+
    then show "unat (push_bit 24 (byte_of (h ! 0))) = ?b 0 * 2 ^ 24" "unat (push_bit 16 (byte_of (h ! 1))) = ?b 1 * 2 ^ 16"
      "unat (push_bit 8 (byte_of (h ! 2))) = ?b 2 * 2 ^ 8"
      by (simp_all only: unat_push_bit unat_byte_of)
  qed
  have b: "?b 2 * 256 + ?b 3 < 65536" "?b 1 * 65536 + (?b 2 * 256 + ?b 3) < 16777216"
    using lt [of 1] lt [of 2] lt [of 3] by linarith+
  have "?b 2 * 2 ^ 8 OR ?b 3 = ?b 2 * 2 ^ 8 + ?b 3" using lt [of 3] by (intro or_disjoint [where n = 8]) simp_all
  moreover have "?b 1 * 2 ^ 16 OR (?b 2 * 2 ^ 8 + ?b 3) = ?b 1 * 2 ^ 16 + (?b 2 * 2 ^ 8 + ?b 3)"
    using b(1) by (intro or_disjoint [where n = 16]) simp_all
  moreover have "?b 0 * 2 ^ 24 OR (?b 1 * 2 ^ 16 + (?b 2 * 2 ^ 8 + ?b 3)) = ?b 0 * 2 ^ 24 + (?b 1 * 2 ^ 16 + (?b 2 * 2 ^ 8 + ?b 3))"
    using b(2) by (intro or_disjoint [where n = 24]) simp_all
  ultimately show ?thesis unfolding header_length_def by (simp only: unsigned_or_eq p unat_byte_of add.assoc)
qed

lemma length_length_header [simp]: "length (ctl_length_header n) = 4"
  by (simp add: ctl_length_header_def)

lemma header_length_header: "n < 2 ^ 32 \<Longrightarrow> unat (header_length (ctl_length_header n)) = n"
proof -
  assume n: "n < 2 ^ 32"
  have "unat (header_length (ctl_length_header n)) =
      n div 2 ^ 24 mod 256 * 2 ^ 24 + n div 2 ^ 16 mod 256 * 2 ^ 16 + n div 2 ^ 8 mod 256 * 2 ^ 8 + n mod 256"
    unfolding header_length_unat by (simp add: ctl_length_header_def of_char_of)
  also have "\<dots> = n"
  proof -
    have "n div 16777216 mod 256 = n div 16777216" using n by (simp add: less_mult_imp_div_less)
    moreover have "n div 65536 = n div 16777216 * 256 + n div 65536 mod 256"
      using div_mult_mod_eq [of "n div 65536" 256] by (simp add: div_mult2_eq [symmetric])
    moreover have "n div 256 = n div 65536 * 256 + n div 256 mod 256"
      using div_mult_mod_eq [of "n div 256" 256] by (simp add: div_mult2_eq [symmetric])
    moreover have "n = n div 256 * 256 + n mod 256" by simp
    ultimately have "n div 16777216 mod 256 * 16777216 + n div 65536 mod 256 * 65536 + n div 256 mod 256 * 256 + n mod 256 = n"
      by linarith
    moreover have "(2::nat) ^ 24 = 16777216" "(2::nat) ^ 16 = 65536" "(2::nat) ^ 8 = 256" by simp_all
    ultimately show ?thesis by (simp only:)
  qed
  finally show ?thesis .
qed

text \<open>An object the peers can exchange: well-formed, and no longer than the reader accepts.\<close>

definition frame_sendable :: "json_glib \<Rightarrow> json_object \<Rightarrow> bool" where
  "frame_sendable J obj \<longleftrightarrow> json_wf (JObject obj) \<and> length (jg_to_string J (JObject obj)) \<le> 64 * 2 ^ 20"

lemma frame_read_written:
  assumes "json_glib_ok J" "frame_sendable J obj"
  shows "ctl_frame_read J bad (frame_bytes J obj @ rest) = (Frame obj, rest)"
proof -
  let ?d = "jg_to_string J (JObject obj)" and ?l = "header_length (ctl_length_header (length (jg_to_string J (JObject obj))))"
  have d: "?d \<noteq> []" "jg_load J ?d = Some (Some (JObject obj))"
    using json_glib_okD(1,4) [OF assms(1), of "JObject obj"] assms(2) unfolding frame_sendable_def by auto
  have l: "unat ?l = length ?d"
    using assms(2) by (intro header_length_header) (simp add: frame_sendable_def)
  then have "?l \<noteq> 0" using d(1) by (metis length_0_conv unat_0)
  moreover have "\<not> ?l > push_bit 20 64"
    using assms(2) l by (simp add: word_less_nat_alt frame_sendable_def)
  moreover have "length (frame_bytes J obj) \<noteq> 0" by (simp add: frame_bytes_def Let_def del: length_0_conv)
  then have "frame_bytes J obj @ rest \<noteq> []" by auto
  moreover have "\<not> length (frame_bytes J obj @ rest) < 4" "take 4 (frame_bytes J obj @ rest) = ctl_length_header (length ?d)"
      "drop 4 (frame_bytes J obj @ rest) = ?d @ rest"
    by (simp_all add: frame_bytes_def Let_def)
  ultimately show ?thesis using l d(2) unfolding ctl_frame_read_def Let_def by simp
qed

section \<open>Members of the frames\<close>

lemma get_members:
  assumes "json_glib_ok J"
  shows "get_string J (set_string k v obj) k' d = (if k' = k then v else get_string J obj k' d)"
    and "k' \<noteq> k \<Longrightarrow> get_string J (set_int k i obj) k' d = get_string J obj k' d"
    and "get_int J (set_int k i obj) k' d' = (if k' = k then i else get_int J obj k' d')"
    and "k' \<noteq> k \<Longrightarrow> get_int J (set_string k v obj) k' d' = get_int J obj k' d'"
    and "k' \<noteq> k \<Longrightarrow> get_string J (json_object_set_member k x obj) k' d = get_string J obj k' d"
    and "k' \<noteq> k \<Longrightarrow> get_int J (json_object_set_member k x obj) k' d' = get_int J obj k' d'"
  by (simp_all add: get_string_def get_int_def set_string_def set_int_def json_get_string_member_default_null_def
      map_of_set_member json_scalar_def json_glib_okD [OF assms])

lemma get_string_new: "json_glib_ok J \<Longrightarrow> get_string J (ctl_frame_new t) k d = (if k = ''type'' then t else d)"
  by (simp add: ctl_frame_new_def get_members get_string_def [of J "[]"] json_get_string_member_default_null_def)

lemma get_int_new: "json_glib_ok J \<Longrightarrow> k \<noteq> ''type'' \<Longrightarrow> get_int J (ctl_frame_new t) k d = d"
  by (simp add: ctl_frame_new_def get_members get_int_def [of J "[]"])

lemmas frame_gets = get_members get_string_new get_int_new

lemma get_set_variant:
  "json_glib_ok J \<Longrightarrow> k' \<noteq> k \<Longrightarrow> k' \<noteq> k @ ''_sig'' \<Longrightarrow>
     get_string J (ctl_frame_set_variant G obj k v) k' d = get_string J obj k' d \<and>
     get_int J (ctl_frame_set_variant G obj k v) k' d' = get_int J obj k' d'"
  by (simp add: ctl_frame_set_variant_def get_members split: option.splits)

text \<open>What is relied on of GVariant: a value read back with its own type string is the value.\<close>

definition gvariant_ok :: "'v gvariant \<Rightarrow> bool" where
  "gvariant_ok G \<longleftrightarrow> (\<forall>v. gv_deserialize G (gv_serialize G v) (Some (gv_type G v)) = Inr v)"

lemma map_of_set: "map_of (set_string k v obj) k' = (if k' = k then Some (JString v) else map_of obj k')"
  "map_of (set_int k i obj) k' = (if k' = k then Some (JInt i) else map_of obj k')"
  "map_of (ctl_frame_new t) k' = (if k' = ''type'' then Some (JString t) else None)"
  by (simp_all add: set_string_def set_int_def ctl_frame_new_def map_of_set_member)

lemma get_set_same_variant:
  assumes "json_glib_ok J" "gvariant_ok G" "map_of obj k = None"
  shows "ctl_frame_get_variant J G (ctl_frame_set_variant G obj k v) k = Inr v"
proof (cases v)
  case None
  then show ?thesis using assms(3) by (simp add: ctl_frame_get_variant_def ctl_frame_set_variant_def)
next
  case (Some x)
  have "json_scalar (JString (gv_type G x))" by (simp add: json_scalar_def)
  then show ?thesis
    using assms(1,2) Some
    by (simp add: ctl_frame_get_variant_def ctl_frame_set_variant_def map_of_set map_of_set_member
        json_get_string_member_default_null_def json_glib_okD gvariant_ok_def)
qed

lemma call_frame_members:
  assumes "json_glib_ok J" "gvariant_ok G"
  shows "get_string J (call_frame G i iface meth params t) ''type'' [] = ''call''"
    "get_string J (call_frame G i iface meth params t) ''iface'' [] = iface"
    "get_string J (call_frame G i iface meth params t) ''method'' [] = meth"
    "get_int J (call_frame G i iface meth params t) ''id'' 0 = i"
    "get_int J (call_frame G i iface meth params t) ''timeout_ms'' (- 1) = (if t > 0 then t else - 1)"
    "ctl_frame_get_variant J G (call_frame G i iface meth params t) ''params'' = Inr params"
proof -
  show "ctl_frame_get_variant J G (call_frame G i iface meth params t) ''params'' = Inr params"
    unfolding call_frame_def Let_def by (rule get_set_same_variant [OF assms]) (simp add: map_of_set)
qed (simp_all add: call_frame_def Let_def get_set_variant [OF assms(1)] frame_gets [OF assms(1)])

lemma answer_members:
  assumes "json_glib_ok J" "gvariant_ok G"
  shows "get_string J (reply_frame G i v) ''type'' [] = ''reply''" "get_int J (reply_frame G i v) ''id'' d = i"
    "ctl_frame_get_variant J G (reply_frame G i v) ''result'' = Inr (Some v)"
    "get_string J (error_frame i e) ''type'' [] = ''error''" "get_int J (error_frame i e) ''id'' d = i"
    "get_string J (error_frame i e) ''name'' n = (case fst e of None \<Rightarrow> ''org.cmacs.ctl.Error'' | Some n \<Rightarrow> n)"
    "get_string J (error_frame i e) ''message'' n = snd e"
proof -
  show "ctl_frame_get_variant J G (reply_frame G i v) ''result'' = Inr (Some v)"
    unfolding reply_frame_def by (rule get_set_same_variant [OF assms]) (simp add: map_of_set)
qed (simp_all add: reply_frame_def error_frame_def get_set_variant [OF assms(1)] frame_gets [OF assms(1)])

lemma signal_members:
  assumes "json_glib_ok J" "gvariant_ok G"
  shows "get_string J (signal_frame G sub iface name args) ''type'' [] = ''signal''"
    "get_int J (signal_frame G sub iface name args) ''sub'' 0 = uint sub"
    "get_string J (signal_frame G sub iface name args) ''iface'' [] = iface"
    "get_string J (signal_frame G sub iface name args) ''signal'' [] = name"
    "ctl_frame_get_variant J G (signal_frame G sub iface name args) ''args'' = Inr args"
proof -
  show "ctl_frame_get_variant J G (signal_frame G sub iface name args) ''args'' = Inr args"
    unfolding signal_frame_def by (rule get_set_same_variant [OF assms]) (simp add: map_of_set)
qed (simp_all add: signal_frame_def get_set_variant [OF assms(1)] frame_gets [OF assms(1)])

section \<open>A call through the tunnel\<close>

text \<open>A signal as the client sees it: the subscription, the interface, the name and the arguments.\<close>

type_synonym 'v signal = "32 word \<times> string \<times> string \<times> 'v option"

definition frame_of_signal :: "'v gvariant \<Rightarrow> 'v signal \<Rightarrow> json_object" where
  "frame_of_signal G sg = (case sg of (sub, iface, name, args) \<Rightarrow> signal_frame G sub iface name args)"

lemma dispatch_signal_frame:
  assumes "json_glib_ok J" "gvariant_ok G"
  shows "ssh_dispatch_signal J G (frame_of_signal G sg) c =
    c\<lparr>st_callbacks := st_callbacks c @ filter (\<lambda>(sub, _). gh_contains (st_subscriptions c) sub) [sg]\<rparr>"
  by (cases sg) (simp add: ssh_dispatch_signal_def frame_of_signal_def signal_members [OF assms] Let_def)

lemma read_signals:
  assumes J: "json_glib_ok J" and G: "gvariant_ok G"
  shows "list_all (\<lambda>sg. frame_sendable J (frame_of_signal G sg)) sigs \<Longrightarrow>
     ssh_read_until_reply J G bad i (concat (map (\<lambda>sg. frame_bytes J (frame_of_signal G sg)) sigs) @ inp) c =
     ssh_read_until_reply J G bad i inp
       (c\<lparr>st_callbacks := st_callbacks c @ filter (\<lambda>(sub, _). gh_contains (st_subscriptions c) sub) sigs\<rparr>)"
proof (induction sigs arbitrary: c)
  case (Cons sg sigs)
  let ?rest = "concat (map (\<lambda>sg. frame_bytes J (frame_of_signal G sg)) sigs) @ inp"
  have "ctl_frame_read J bad (frame_bytes J (frame_of_signal G sg) @ ?rest) = (Frame (frame_of_signal G sg), ?rest)"
    using frame_read_written [OF J] Cons.prems by simp
  moreover have "get_string J (frame_of_signal G sg) ''type'' [] = ''signal''"
    by (cases sg) (simp add: frame_of_signal_def signal_members [OF J G])
  ultimately have "ssh_read_until_reply J G bad i (frame_bytes J (frame_of_signal G sg) @ ?rest) c =
      ssh_read_until_reply J G bad i ?rest (ssh_dispatch_signal J G (frame_of_signal G sg) c)"
    by (simp add: ssh_read_until_reply.simps [of J G bad i "frame_bytes J (frame_of_signal G sg) @ ?rest"])
  then show ?case
    using Cons by (simp add: dispatch_signal_frame [OF J G])
qed simp

lemma proxy_forwards:
  "px_writes p = [] \<Longrightarrow>
     fold (\<lambda>(sub, iface, name, args). proxy_forward_signal J G sub iface name args) sigs p =
     p\<lparr>px_out := px_out p @ concat (map (\<lambda>sg. frame_bytes J (frame_of_signal G sg)) sigs)\<rparr>"
proof (induction sigs arbitrary: p)
  case (Cons sg sigs)
  then show ?case
    by (cases sg) (simp add: proxy_forward_signal_def proxy_write_def ctl_frame_write_def frame_of_signal_def)
qed simp

lemma read_answer:
  assumes "json_glib_ok J" "frame_sendable J f" "get_string J f ''type'' [] = ''reply'' \<or> get_string J f ''type'' [] = ''error''"
    and "get_int J f ''id'' (- 1) = i"
  shows "ssh_read_until_reply J G bad i (frame_bytes J f @ rest) c = (Inr f, rest, c)"
  using frame_read_written [OF assms(1,2)] assms(3,4) by (subst ssh_read_until_reply.simps) auto

text \<open>The answer the proxy gives to a call that reached the bus.\<close>

definition answer_frame :: "'v gvariant \<Rightarrow> int \<Rightarrow> (string option \<times> string + 'v) \<Rightarrow> json_object" where
  "answer_frame G i r = (case r of Inl e \<Rightarrow> error_frame i e | Inr v \<Rightarrow> reply_frame G i v)"

definition bus_timeout :: "int \<Rightarrow> int" where
  "bus_timeout t = (if t > 0 then t else - 1)"

lemma proxy_answers:
  assumes "json_glib_ok J" "gvariant_ok G" "iface \<noteq> ''ctl.proxy''" "gint_range t"
    and "frame_sendable J (call_frame G i iface meth params t)"
    and "bus_call B iface meth params (bus_timeout t) (px_bus p) = (r, s)" "px_writes p = []"
  shows "proxy_stdin_readable J G B bad (frame_bytes J (call_frame G i iface meth params t) @ rest) p =
     (True, rest, p\<lparr>px_bus := s, px_out := px_out p @ frame_bytes J (answer_frame G i r)\<rparr>)"
proof -
  have "gint_range (bus_timeout t)" using assms(4) by (simp add: bus_timeout_def gint_range_def)
  then have t: "to_gint (bus_timeout t) = bus_timeout t" by simp
  have "proxy_handle_call J G B (call_frame G i iface meth params t) p =
      p\<lparr>px_bus := s, px_out := px_out p @ frame_bytes J (answer_frame G i r)\<rparr>"
    unfolding proxy_handle_call_def Let_def call_frame_members [OF assms(1,2)] bus_timeout_def [symmetric] t
    using assms(3,6,7) by (cases r) (simp_all add: answer_frame_def proxy_write_def ctl_frame_write_def)
  then show ?thesis
    using frame_read_written [OF assms(1,5), of bad rest] call_frame_members(1) [OF assms(1,2), of i iface meth params t]
    by (simp add: proxy_stdin_readable_def Let_def)
qed

text \<open>
  A call as it travels: the client writes its frame, the proxy forwards the signals the bus emits before it
  comes to the call, reads the frame and answers, and the client reads what the proxy has written.
\<close>

definition tunnel_call ::
  "json_glib \<Rightarrow> 'v gvariant \<Rightarrow> ('s, 'v) bus \<Rightarrow> 'v signal list \<Rightarrow> string \<Rightarrow> string \<Rightarrow> 'v option \<Rightarrow> int \<Rightarrow>
     'v ssh_transport \<Rightarrow> 's proxy \<Rightarrow> ((ctl_error + 'v option) \<times> string \<times> 'v ssh_transport) \<times> 's proxy" where
  "tunnel_call J G B sigs iface meth params t c p =
     (let wire = frame_bytes J (call_frame G (st_next_id c) iface meth params t);
          p1 = fold (\<lambda>(sub, iface, name, args). proxy_forward_signal J G sub iface name args) sigs p;
          p2 = snd (snd (proxy_stdin_readable J G B False wire p1))
      in (ssh_call J G None False (drop (length (px_out p)) (px_out p2)) iface meth params t c, p2))"

text \<open>What the caller is to be told of an answer of the bus.\<close>

definition bus_result :: "(string option \<times> string + 'v) \<Rightarrow> ctl_error + 'v option" where
  "bus_result r =
     (case r of
        Inr v \<Rightarrow> Inr (Some v)
      | Inl (n, message) \<Rightarrow>
          let name = (case n of None \<Rightarrow> ''org.cmacs.ctl.Error'' | Some n \<Rightarrow> n) in
          Inl (if sublist ''UnknownInterface'' name \<or> sublist ''UnknownMethod'' name
               then CTL_ERROR_UNSUPPORTED (name @ '': '' @ message) else CTL_ERROR_FAILED (name @ '': '' @ message)))"

lemma contains_sublist: "contains s t \<longleftrightarrow> sublist t s"
proof
  assume "contains s t"
  then obtain i where i: "take (length t) (drop i s) = t" by (auto simp: contains_def list_ex_iff)
  have "s = take i s @ take (length t) (drop i s) @ drop (length t) (drop i s)" by (metis append_take_drop_id)
  then show "sublist t s" unfolding i by (auto simp: sublist_def)
next
  assume "sublist t s"
  then obtain ps ss where "s = ps @ t @ ss" by (auto simp: sublist_def)
  then show "contains s t" by (auto simp: contains_def list_ex_iff intro!: bexI [of _ "length ps"])
qed

lemma remote_error_result:
  "Inl (remote_error (case fst e of None \<Rightarrow> ''org.cmacs.ctl.Error'' | Some n \<Rightarrow> n) (snd e)) = bus_result (Inl e :: string option \<times> string + 'v)"
  by (cases e) (simp add: bus_result_def remote_error_def contains_sublist Let_def)

text \<open>
  Property (C16). The tunnel is transparent. A call made through the open ssh transport and answered by the
  proxy, whose output takes what it writes, has the result of the same call made on the remote bus, an error with its remote name and
  message, and changes the bus as that call does. Of the signals the proxy forwarded before the answer, those whose
  subscription the client still has are delivered, each with its interface, name and arguments and in
  their order, the others are dropped, and the pipe is left empty. It is asked that the interface is not the proxy's own
  \<^verbatim>\<open>ctl.proxy\<close>, that the time-out is a C int, and that every frame can be sent: at most 64 MiB of JSON text,
  with strings of valid UTF-8 without NUL, 64-bit integers and finite doubles.
\<close>

theorem tunnel_call_exact:
  assumes J: "json_glib_ok J" and G: "gvariant_ok G"
    and "\<not> st_closed c" "iface \<noteq> ''ctl.proxy''" "gint_range t"
    and "frame_sendable J (call_frame G (st_next_id c) iface meth params t)"
    and "bus_call B iface meth params (if t > 0 then t else - 1) (px_bus p) = (r, s)"
    and "frame_sendable J (answer_frame G (st_next_id c) r)"
    and "list_all (\<lambda>sg. frame_sendable J (frame_of_signal G sg)) sigs" "px_writes p = []"
  shows "\<exists>sent. tunnel_call J G B sigs iface meth params t c p =
     ((bus_result r, [],
       c\<lparr>st_next_id := to_gint64 (st_next_id c + 1),
         st_to_proxy := st_to_proxy c @ frame_bytes J (call_frame G (st_next_id c) iface meth params t),
         st_callbacks := st_callbacks c @ filter (\<lambda>(sub, _). gh_contains (st_subscriptions c) sub) sigs\<rparr>),
      p\<lparr>px_bus := s, px_out := px_out p @ sent\<rparr>)"
proof -
  let ?f = "call_frame G (st_next_id c) iface meth params t" and ?a = "answer_frame G (st_next_id c) r"
  let ?sigs = "concat (map (\<lambda>sg. frame_bytes J (frame_of_signal G sg)) sigs)"
  let ?c = "c\<lparr>st_next_id := to_gint64 (st_next_id c + 1), st_to_proxy := st_to_proxy c @ frame_bytes J ?f\<rparr>"
  let ?p = "p\<lparr>px_out := px_out p @ ?sigs\<rparr>"
  have "bus_call B iface meth params (bus_timeout t) (px_bus ?p) = (r, s)" using assms(7) by (simp add: bus_timeout_def)
  then have p: "proxy_stdin_readable J G B False (frame_bytes J ?f) ?p =
      (True, [], ?p\<lparr>px_bus := s, px_out := px_out ?p @ frame_bytes J ?a\<rparr>)"
    using proxy_answers [OF J G assms(4-6), of B ?p r s False "[]"] assms(10) by simp
  have "ssh_read_until_reply J G False (st_next_id c) (?sigs @ frame_bytes J ?a) ?c
      = (Inr ?a, [], ?c\<lparr>st_callbacks := st_callbacks c @ filter (\<lambda>(sub, _). gh_contains (st_subscriptions c) sub) sigs\<rparr>)"
    using read_signals [OF J G assms(9), of False "st_next_id c" "frame_bytes J ?a" ?c]
      read_answer [OF J assms(8), of "st_next_id c" G False "[]"]
    by (cases r) (simp_all add: answer_frame_def answer_members [OF J G])
  moreover have "(if get_string J ?a ''type'' [] = ''error''
      then Inl (remote_error (get_string J ?a ''name'' ''org.cmacs.Error'') (get_string J ?a ''message'' ''remote error''))
      else map_sum VariantFailed (\<lambda>v. v) (ctl_frame_get_variant J G ?a ''result'')) = bus_result r"
    by (cases r) (simp_all add: answer_frame_def answer_members [OF J G] remote_error_result, simp add: bus_result_def)
  ultimately have "tunnel_call J G B sigs iface meth params t c p =
     ((bus_result r, [], ?c\<lparr>st_callbacks := st_callbacks c @ filter (\<lambda>(sub, _). gh_contains (st_subscriptions c) sub) sigs\<rparr>),
      p\<lparr>px_bus := s, px_out := px_out p @ ?sigs @ frame_bytes J ?a\<rparr>)"
    using assms(3) p by (auto simp: tunnel_call_def Let_def ssh_call_def ctl_frame_write_def proxy_forwards [OF assms(10)] split: if_splits)
  then show ?thesis by auto
qed

text \<open>
  A signal the proxy forwards for a subscription is handed to that subscription while it is live,
  with the interface, the name and the arguments it had on the bus, and to nothing else.
\<close>

theorem forwarded_signal_delivered:
  assumes "json_glib_ok J" "gvariant_ok G" "px_writes p = []" "frame_sendable J (signal_frame G sub iface name args)"
  shows "px_out (proxy_forward_signal J G sub iface name args p) = px_out p @ frame_bytes J (signal_frame G sub iface name args)"
    and "ssh_readable_cb J G bad (frame_bytes J (signal_frame G sub iface name args) @ rest) c =
      (True, rest, if gh_contains (st_subscriptions c) sub
                   then c\<lparr>st_callbacks := st_callbacks c @ [(sub, iface, name, args)]\<rparr> else c)"
proof -
  show "px_out (proxy_forward_signal J G sub iface name args p) = px_out p @ frame_bytes J (signal_frame G sub iface name args)"
    using assms(3) by (simp add: proxy_forward_signal_def proxy_write_def ctl_frame_write_def)
  show "ssh_readable_cb J G bad (frame_bytes J (signal_frame G sub iface name args) @ rest) c =
      (True, rest, if gh_contains (st_subscriptions c) sub
                   then c\<lparr>st_callbacks := st_callbacks c @ [(sub, iface, name, args)]\<rparr> else c)"
    using signal_members [OF assms(1,2), of sub iface name args]
    by (simp add: ssh_readable_cb_def frame_read_written [OF assms(1,4)] ssh_dispatch_signal_def Let_def)
qed

text \<open>
  Property (C35). A frame too long for the reader takes the stream out of step. The writer bounds nothing: an
  answer of more than 64 MiB (and less than 4 GiB) is written whole, and reading it fails on its
  length with the payload still in the pipe, so that the next frame is looked for in the data of
  the answer; the client keeps the transport open.
\<close>

theorem oversized_frame_desyncs:
  assumes "64 * 2 ^ 20 < length (jg_to_string J (JObject obj))" "length (jg_to_string J (JObject obj)) < 2 ^ 32"
    and "\<not> st_closed c"
  shows "ctl_frame_read J bad (frame_bytes J obj @ rest) =
      (FrameError (ImplausibleLength (of_nat (length (jg_to_string J (JObject obj))))), jg_to_string J (JObject obj) @ rest) \<and>
     (\<exists>c'. ssh_call J G None bad (frame_bytes J obj @ rest) iface meth params t c =
        (Inl (FrameFailed (ImplausibleLength (of_nat (length (jg_to_string J (JObject obj)))))), jg_to_string J (JObject obj) @ rest, c') \<and>
        \<not> st_closed c')"
proof -
  let ?d = "jg_to_string J (JObject obj)" and ?l = "header_length (ctl_length_header (length (jg_to_string J (JObject obj))))"
  have l: "unat ?l = length ?d" by (rule header_length_header [OF assms(2)])
  then have lw: "?l = of_nat (length ?d)" by (metis of_nat_unat ucast_id)
  have "?l > push_bit 20 64" using assms(1) l by (simp add: word_less_nat_alt)
  moreover have "length (frame_bytes J obj) \<noteq> 0" by (simp add: frame_bytes_def Let_def del: length_0_conv)
  then have "frame_bytes J obj @ rest \<noteq> []" by auto
  moreover have "\<not> length (frame_bytes J obj @ rest) < 4" "take 4 (frame_bytes J obj @ rest) = ctl_length_header (length ?d)"
      "drop 4 (frame_bytes J obj @ rest) = ?d @ rest"
    by (simp_all add: frame_bytes_def Let_def)
  ultimately have f: "ctl_frame_read J bad (frame_bytes J obj @ rest) =
      (FrameError (ImplausibleLength (of_nat (length ?d))), ?d @ rest)"
    using lw unfolding ctl_frame_read_def Let_def by simp
  moreover have "\<exists>c'. ssh_call J G None bad (frame_bytes J obj @ rest) iface meth params t c =
        (Inl (FrameFailed (ImplausibleLength (of_nat (length ?d)))), ?d @ rest, c') \<and> \<not> st_closed c'"
    using f assms(3)
    by (simp add: ssh_call_def Let_def ctl_frame_write_def ssh_read_until_reply.simps [of J G bad "st_next_id c" "frame_bytes J obj @ rest"])
  ultimately show ?thesis by blast
qed

section \<open>Instances\<close>

text \<open>Values that are strings, and a bus that counts its calls and answers with the name of the method.\<close>

definition str_variant :: "string gvariant" where
  "str_variant = \<lparr>gv_serialize = JString, gv_type = (\<lambda>_. ''s''),
     gv_deserialize = (\<lambda>j _. case j of JString s \<Rightarrow> Inr s | _ \<Rightarrow> Inl ''not a string'')\<rparr>"

definition echo_bus :: "(nat, string) bus" where
  "echo_bus = \<lparr>bus_call = (\<lambda>iface meth params t s. (Inr meth, Suc s)), bus_list_instances = (\<lambda>s. Inr []),
     bus_subscribe = (\<lambda>i n s. (0, s)), bus_unsubscribe = (\<lambda>t s. s)\<rparr>"

lemma str_variant_ok: "gvariant_ok str_variant"
  by (simp add: gvariant_ok_def str_variant_def)

lemma demo_frames:
  "call_frame str_variant 1 ''x'' ''m'' (Some ''a'') 0 =
     [(''type'', JString ''call''), (''id'', JInt 1), (''iface'', JString ''x''), (''method'', JString ''m''),
      (''params'', JString ''a''), (''params_sig'', JString ''s'')]"
  "answer_frame str_variant 1 (Inr ''m'') =
     [(''type'', JString ''reply''), (''id'', JInt 1), (''result'', JString ''m''), (''result_sig'', JString ''s'')]"
  "frame_of_signal str_variant (sub, ''x'', ''n'', None) =
     [(''type'', JString ''signal''), (''sub'', JInt (uint sub)), (''iface'', JString ''x''), (''signal'', JString ''n'')]"
  by (simp_all add: call_frame_def answer_frame_def reply_frame_def frame_of_signal_def signal_frame_def ctl_frame_new_def set_string_def
      set_int_def Let_def ctl_frame_set_variant_def str_variant_def)

lemma demo_sendable:
  "frame_sendable ref_json_glib (call_frame str_variant 1 ''x'' ''m'' (Some ''a'') 0)"
  "frame_sendable ref_json_glib (answer_frame str_variant 1 (Inr ''m''))"
  "frame_sendable ref_json_glib (frame_of_signal str_variant (5, ''x'', ''n'', None))"
  "frame_sendable ref_json_glib (frame_of_signal str_variant (6, ''x'', ''n'', None))"
proof -
  have "length (enc_json (JObject (call_frame str_variant 1 ''x'' ''m'' (Some ''a'') 0))) < 900"
    "length (enc_json (JObject (answer_frame str_variant 1 (Inr ''m'')))) < 900"
    "length (enc_json (JObject (frame_of_signal str_variant (5, ''x'', ''n'', None)))) < 900"
    "length (enc_json (JObject (frame_of_signal str_variant (6, ''x'', ''n'', None)))) < 900"
    unfolding demo_frames by code_simp+
  then show "frame_sendable ref_json_glib (call_frame str_variant 1 ''x'' ''m'' (Some ''a'') 0)"
    "frame_sendable ref_json_glib (answer_frame str_variant 1 (Inr ''m''))"
    "frame_sendable ref_json_glib (frame_of_signal str_variant (5, ''x'', ''n'', None))"
    "frame_sendable ref_json_glib (frame_of_signal str_variant (6, ''x'', ''n'', None))"
    unfolding frame_sendable_def ref_json_glib_def
    by (simp_all add: demo_frames str_ok_ascii ascii_text_def gint64_range_def)
qed

theorem tunnel_call_exact_witness:
  "\<exists>c' p'. tunnel_call ref_json_glib str_variant echo_bus [(5, ''x'', ''n'', None), (6, ''x'', ''n'', None)] ''x'' ''m'' (Some ''a'') 0
       (transport_init\<lparr>st_subscriptions := gh_replace 5 () gh_empty\<rparr>)
       \<lparr>px_writes = [], px_out = [], px_subscriptions = gh_empty, px_bus = 0\<rparr> = ((Inr (Some ''m''), [], c'), p') \<and>
     st_callbacks c' = [(5, ''x'', ''n'', None)] \<and> px_bus p' = 1"
proof -
  let ?p = "\<lparr>px_writes = [], px_out = [], px_subscriptions = gh_empty, px_bus = 0\<rparr> :: nat proxy"
  let ?c = "transport_init\<lparr>st_subscriptions := gh_replace 5 () gh_empty\<rparr> :: string ssh_transport"
  let ?sigs = "[(5, ''x'', ''n'', None), (6, ''x'', ''n'', None)] :: string signal list"
  have c: "\<not> st_closed ?c" "st_next_id ?c = 1" "st_callbacks ?c = []" "gh_contains (st_subscriptions ?c) 5" "\<not> gh_contains (st_subscriptions ?c) 6"
    by (simp_all add: transport_init_def gh_contains_def)
  have "bus_call echo_bus ''x'' ''m'' (Some ''a'') (if (0 :: int) > 0 then 0 else - 1) (px_bus ?p) = (Inr ''m'', 1)"
    by (simp add: echo_bus_def)
  from tunnel_call_exact [OF ref_json_glib_ok str_variant_ok c(1) _ _ _ this, of ?sigs] demo_sendable c
  show ?thesis by (simp add: gint_range_def bus_result_def) auto
qed

text \<open>A document of one byte more than 64 MiB.\<close>

definition long_text :: string where
  "long_text = replicate 67108865 CHR ''a''"

lemma length_long_text: "length long_text = 67108865"
  by (simp only: long_text_def length_replicate)

theorem oversized_frame_desyncs_witness:
  "let J = ref_json_glib\<lparr>jg_to_string := (\<lambda>_. long_text)\<rparr> in
   ctl_frame_read J False (frame_bytes J [] @ []) = (FrameError (ImplausibleLength 67108865), long_text)"
proof -
  let ?J = "ref_json_glib\<lparr>jg_to_string := (\<lambda>_. long_text)\<rparr>"
  have l: "length (jg_to_string ?J (JObject [])) = 67108865" by (simp add: length_long_text)
  have "64 * 2 ^ 20 < length (jg_to_string ?J (JObject []))" "length (jg_to_string ?J (JObject [])) < 2 ^ 32"
    unfolding l by simp_all
  moreover have "\<not> st_closed (transport_init :: string ssh_transport)" by (simp add: transport_init_def)
  ultimately have "ctl_frame_read ?J False (frame_bytes ?J [] @ []) =
      (FrameError (ImplausibleLength (of_nat (length (jg_to_string ?J (JObject []))))), jg_to_string ?J (JObject []) @ [])"
    by (rule oversized_frame_desyncs [of ?J "[]" "transport_init :: string ssh_transport" False "[]", THEN conjunct1])
  then show ?thesis by (simp add: Let_def length_long_text)
qed

end
