(* ===== verification/Spec2Isabelle.thy ===== *)
theory Spec2Isabelle
  imports Buffer_Session Brigade_Relay Brigade_State Brigade_Chunk Screensaver_Shm Screensaver_Proto Office_Zip Office_Xml Graph_Count Lsp_Server
    Hand_Gesture Brigade_Memory Spacemouse_Input Ctl_Tunnel
begin

text \<open>
  Verification of cmacs, a GNU Emacs with native C subsystems under \<^verbatim>\<open>src/cmacs/\<close>. The development is about
  the subsystems that carry logic of their own, in C over GLib, and that other parts rely on for safety or for
  consistency: what an autonomous agent may call, which state a task is in, what a renderer and the editor
  share, what a saved document holds, what a memory index answers, what a graph view shows, what a language server
  answers, what a remote call does, which input reaches the editor. Of the Emacs core
  underneath it covers the text of a buffer, on which all of them work.

  \<^bold>\<open>Parts and how they interact.\<close>

  \<^item> \<^emph>\<open>AI brigade\<close> (\<^verbatim>\<open>src/cmacs/ai-brigade/\<close>). Lisp registers tools; C keeps a mirror of that table
    (\<open>Brigade_Registry\<close> for \<^verbatim>\<open>cmacs-brigade-registry.c\<close>). The allowlist gate (\<open>Brigade_Allowlist\<close> for
    \<^verbatim>\<open>cmacs-brigade-allowlist.c\<close>) decides from a comma-separated grant, the mirror and the policy whether a call
    is allowed; the editor asks it with the live table, and hands the relay process an expanded grant in the
    environment. The relay (\<open>Brigade_Relay\<close> for \<^verbatim>\<open>cmacs-brigade-relay.c\<close>) stands between an agent and the
    editor's MCP server: it reads JSON lines, asks the gate, forwards, answers or prunes. Tasks are a table
    with a state machine (\<open>Brigade_State\<close> for \<^verbatim>\<open>cmacs-brigade-state.c\<close>). Documents for the memory are split
    by \<open>Brigade_Chunk\<close> (\<^verbatim>\<open>cmacs-brigade-chunk.c\<close>); their embeddings are rows of halves in a mapped file
    (\<open>Brigade_Half\<close> the number format, \<open>Brigade_Index\<close> the file, its reader and its writer, \<open>Brigade_Search\<close> the
    ranking, all of \<^verbatim>\<open>cmacs-brigade-index.c\<close>), which Lisp opens, searches and rebuilds through handles
    (\<open>Brigade_Memory\<close> for \<^verbatim>\<open>cmacs-brigade-memory-defuns.c\<close>).
  \<^item> \<^emph>\<open>Screensaver\<close> (\<^verbatim>\<open>src/cmacs/screensaver/\<close>). A renderer process publishes frames through a ring in shared
    memory (\<open>Screensaver_Shm\<close>) and talks over a datagram socket (\<open>Screensaver_Proto\<close>), both of
    \<^verbatim>\<open>cmacs-screensaver-proto.c\<close>; the renderer's use of the ring is from \<^verbatim>\<open>render/ssr-renderer.c\<close>.
  \<^item> \<^emph>\<open>Office packages\<close> (\<open>Office_Zip\<close> for \<^verbatim>\<open>src/cmacs/office/cmacs-office-zip.c\<close>): a zip archive with a queue of
    edits, over a parameter that stands for libzip; and the helpers over XML trees (\<open>Office_Xml\<close> for
    \<^verbatim>\<open>cmacs-office-xml.c\<close>).
  \<^item> \<^emph>\<open>Graph core\<close> (\<^verbatim>\<open>src/cmacs/graphcore/cmacs-graphcore-graph.c\<close>): \<open>Graph_Model\<close> holds the definitions,
    \<open>Graph_Store\<close> nodes and edges over refreshes, \<open>Graph_Csr\<close> the compressed adjacency, \<open>Graph_Tree\<close> the
    hierarchy and folding, \<open>Graph_Count\<close> the descendant counts.
  \<^item> \<^emph>\<open>Language server\<close> (\<^verbatim>\<open>src/cmacs/lsp/\<close>): \<open>Lsp_Io\<close> the framing and the JSON-RPC writers, \<open>Lsp_Document\<close> the
    documents and column conversion, \<open>Lsp_Server\<close> the dispatch loop, over a parameter for the language backend.
  \<^item> \<^emph>\<open>Hand gestures\<close> (\<open>Hand_Gesture\<close> for \<^verbatim>\<open>src/cmacs/gesture/cmacs-hand-gesture.c\<close>): the classifier that turns
    samples of two tracked hands into actions.
  \<^item> \<^emph>\<open>SpaceMouse\<close> (\<^verbatim>\<open>src/cmacs/spacemouse/\<close>): reports of a 6DOF device arrive as packets over a socket (or through
    libspnav); the connection is kept by a watch and a retry timer of the main loop (\<open>Spacemouse\<close>). A report is
    shaped and handed to a camera, or stored as a key (\<open>Spacemouse_Input\<close>, with the Lisp primitives).
  \<^item> \<^emph>\<open>emacsctl\<close> (\<open>Ctl_Tunnel\<close> for \<^verbatim>\<open>ctl-frame.c\<close>, \<^verbatim>\<open>ctl-transport-ssh.c\<close> and \<^verbatim>\<open>ctl-proxy.c\<close> under
    \<^verbatim>\<open>src/cmacs/emacsctl/\<close>): bus calls and signals carried as length-prefixed JSON frames through an ssh process to
    a proxy that makes them there.
  \<^item> \<^emph>\<open>Buffer text\<close> (\<^verbatim>\<open>src/src/\<close>). \<open>Gap_Buffer\<close> is the byte array with its gap, point, the accessible portion and the
    markers, with insertion and deletion, from \<^verbatim>\<open>insdel.c\<close> (and \<^verbatim>\<open>enlarge_buffer_text\<close> and \<^verbatim>\<open>barf-if-buffer-read-only\<close> of \<^verbatim>\<open>buffer.c\<close>); \<open>Buffer_Edit\<close> its
    properties. \<open>Buffer_Position\<close> converts between character and byte positions (\<^verbatim>\<open>marker.c\<close> and the inline functions
    of \<^verbatim>\<open>buffer.h\<close> and \<^verbatim>\<open>character.h\<close>). \<open>Region_Cache\<close> and \<open>Region_Cache_Sound\<close> are \<^verbatim>\<open>region-cache.c\<close>, a gapped array of
    stretches known to have some property; \<open>Find_Newline\<close> and \<open>Newline_Backward\<close> are \<^verbatim>\<open>find_newline\<close> of \<^verbatim>\<open>search.c\<close>, which
    uses such a cache for text free of newlines. \<open>Buffer_Session\<close> puts them together: edits invalidate the cache and
    advance the modification count that the conversions rely on, searches extend the cache, conversions add markers; edits may be
    refused or stopped.

  \<^bold>\<open>Shared theories.\<close> \<open>Cmacs_Prelude\<close>: the GLib string functions the code uses (strip, split, prefix tests) and
  the collections of rewrite rules. \<open>GHash\<close>: \<^verbatim>\<open>GHashTable\<close> as an association list in insertion order under a
  contract stated as a locale. \<open>Lisp_Obj\<close>: the Lisp values the primitives take and return. \<open>Utf8\<close>: validity,
  decoding, and where valid text may be cut. \<open>Json_Glib\<close>: JSON values and the json-glib accessors; parsing and
  printing are parameters with their documented laws. \<open>C_Arrays\<close>: \<^verbatim>\<open>qsort\<close> under a comparison contract (locales)
  and the counting scatter; \<open>C_Format\<close>: decimal printing and \<^verbatim>\<open>strtol\<close>; \<open>C_Bytes\<close>: little-endian fields and disjoint
  bit fields of words; \<open>C_Float\<close>: floats by their bit patterns.

  \<^bold>\<open>What is shown.\<close>

  \<^item> Mediation: whatever both peers of the relay write, every tool call that reaches the editor passed the gate;
    every request is forwarded or answered; a tool list is pruned to what would be let through; the verdict of
    the gate is characterised for all arguments; expansion for the relay never widens a grant and where it agrees
    with the editor; the line reader is independent of how bytes arrive and bounded in memory.
  \<^item> Tasks: a move is made exactly when the table allows it, a live task was last started from the queue, and a task
    keeps its place in the queue.
  \<^item> Frames: a frame that verifies is one frame, unless a render was abandoned (a counterexample shows that the
    condition is needed); neither side ever waits; sizes do not wrap for accepted dimensions. Messages survive
    the socket and are not taken for one another.
  \<^item> Packages: the edit queue refines a map from names to contents; a save commits exactly the edits of an archive without
    duplicate names (with duplicates a deletion is not complete); names cannot leave the package; a part is never read beyond its declaration.
  \<^item> Graphs: identities and positions survive a refresh, edges are simple, adjacency slices are exact and sorted,
    parent links never form a cycle (so every upward walk ends), visibility and descendant counts are those of
    the tree.
  \<^item> Language server: framing and columns round-trip, requests are answered exactly once, and a run over bytes is
    a run over the messages they frame.
  \<^item> Gestures: the actions form a well-bracketed stream for each hand. Chunks: termination while the overlap is at
    most half the chunk size, divergence when it reaches the chunk size, and valid, stripped, non-empty text.
  \<^item> Memory: halves mean what was stored; whatever the header says, no row of an index that opens lies outside the
    file; the search is the exhaustive stable ranking (over a locale of top-\<open>k\<close> buffers) unless a score is a NaN; the
    live index changes only by a commit; an incremental update keeps every other row bit for bit; the primitives are free
    of undefined behaviour except on elements that are no numbers and on more results than an int counts; and a full disk is not noticed by the commit.
  \<^item> SpaceMouse: reports are reassembled from any pieces, each once and in order; no schedule of events leaks a
    descriptor, a watch or a timer, or leaves a lost connection without its retry; an injected event is handled as the
    packet made of it; a cap inside the deadzone asks no camera, but a deadzone that is a NaN is let in.
  \<^item> Tunnel: a call through it has the result and the effect of the call on the remote bus, with signals delivered to
    their subscriptions, each once and in order; a frame beyond the reader's limit takes the stream out of step.
  \<^item> Buffer text: insertion and deletion do to the text exactly what they should, whatever the state of the gap, move
    point and the markers, undo each other, and leave everything alone when they stop with a signal, except that a quit
    can leave the gap inside a character (a session goes on after every other signal); positions convert exactly from whatever places are known; the region cache never claims
    too much over any history of edits; the search for newlines equals a scan of every character in both directions; and
    all of this holds together in every session.

  \<^bold>\<open>Modelling.\<close> C structs are records, enumerations datatypes, and mutation is explicit state passing; memory
  release has no counterpart. A failing call is a value (an option, a sum, or the state in which nothing was
  written). Widths are kept where the code depends on them: sequence numbers, sizes and message fields are words or
  carry their modulus; elsewhere sizes are natural numbers, which the theory's own text states. Loops are
  structural recursion or functions with a measure; walks along parent links carry the code's own step guard (the
  number of nodes plus one), which is shown never to be exhausted; reading a stream recurses over the chunks the
  stream delivers. The splitter of the chunker may run forever, so it is a partial function with the value \<open>None\<close>; the
  loops of the newline search, whose progress rests on the cache, are partial functions shown to return. Quits arrive
  where the code polls for them, as a list of the polls' results. Buffer positions are natural numbers or integers: a buffer
  is bounded by \<^verbatim>\<open>BUF_BYTES_MAX\<close>, far below the range of \<^verbatim>\<open>ptrdiff_t\<close>.
  GLib's string and hash functions, \<^verbatim>\<open>qsort\<close> and \<^verbatim>\<open>strtol\<close> are modelled; libzip, json-glib's parser and printer,
  GVariant, the bus, the language backends and float arithmetic are parameters with named hypotheses, which the witnesses
  instantiate by concrete functions. What an edit learns from text properties (\<^verbatim>\<open>inhibit-read-only\<close>, the verdict of
  \<^verbatim>\<open>verify_interval_modification\<close>) and whether memory is to be had are the environment of the edit, an argument. Floats are their bit patterns: conversions between widths and comparisons
  are defined on the patterns, only the rounding operations are parameters. What the operating system answers (a short
  write, a write that stops after some of its bytes, a failing rename, an interrupted read) is an argument of the operation that asks; a use of memory or of
  a closed stream that C leaves undefined is a result of its own, so that its absence can be stated. A stream that is read
  is the bytes to come. A mapped file is its bytes when it was opened: the writer replaces the file and never changes it in
  place.

  \<^bold>\<open>Not modelled.\<close> The inherited Emacs core beyond the buffer text, and its Lisp; of the buffer text, overlays, text
  properties, undo, change hooks, tree-sitter, redisplay hints, indirect buffers, shrinking the gap, insertion from strings
  and buffers and \<^verbatim>\<open>replace_range\<close>, and polls for quits inside the newline search; rendering (libregnum, lrgterm, gowl) and media pipelines,
  which are wrappers of libraries outside the repository; bindings and bus exports (glib, gobject, dbus, mcp and the
  commands of emacsctl), which marshal; the layout solver, which is numerical; the cameras a SpaceMouse
  moves; bignums; the document formats above the package container, which work on libxml2 trees. Threads appear where two of them share a protocol (the ring,
  the two directions of the relay) as interleavings of the operations; locks inside an operation do not.

  \<^bold>\<open>Plan.\<close> What would come next: replacement of text and the overlay tree of the core, and the office codec and sheet
  editing.
\<close>

end
